(* ===== verification/Prelude.thy ===== *)
theory Prelude
  imports Main "HOL-Library.Word"
begin

text \<open>
  Shared vocabulary of the development: the machine integer types of the Rust sources, the
  outcome type of kernel operations with its sequencing combinator, the slice and iterator
  operations of Rust's core library that the sources use, little-endian byte encodings, and
  the lemmas on lists and words that several components need.
\<close>

unbundle bit_operations_syntax

section \<open>Fact collections\<close>

named_theorems kop_simps \<open>evaluation of the outcome monad\<close>
named_theorems const_defs \<open>numeric constants of the sources\<close>

section \<open>Machine integers\<close>

type_synonym u8 = "8 word"
type_synonym u16 = "16 word"
type_synonym u32 = "32 word"
type_synonym u64 = "64 word"
type_synonym usize = "64 word"
type_synonym bytes = "u8 list"

section \<open>Outcomes\<close>

text \<open>
  A call of the sources returns a value (\<open>Ok\<close>, also used for functions that are not fallible),
  returns \<open>Err(msg)\<close>, panics (a failed \<open>assert!\<close>, \<open>expect\<close>, \<open>unwrap\<close>, an index out of range, an
  arithmetic overflow under the development profile's checks), goes to sleep on a channel
  (\<open>Block\<close>), or, for loops run with a step bound, has not finished within it (\<open>Diverge\<close>).
\<close>

datatype 'a res = Ok 'a | Err string | Panic string | Block | Diverge

type_synonym ('s, 'a) kop = "'s \<Rightarrow> 'a res \<times> 's"

fun is_ok :: "'a res \<Rightarrow> bool" where
  "is_ok (Ok x) = True"
| "is_ok r = False"

fun rbind :: "'a res \<Rightarrow> ('a \<Rightarrow> 'b res) \<Rightarrow> 'b res" where
  "rbind (Ok x) f = f x"
| "rbind (Err e) f = Err e"
| "rbind (Panic e) f = Panic e"
| "rbind Block f = Block"
| "rbind Diverge f = Diverge"

definition ret :: "'a \<Rightarrow> ('s, 'a) kop" where
  "ret x s = (Ok x, s)"

definition throw :: "string \<Rightarrow> ('s, 'a) kop" where
  "throw e s = (Err e, s)"

definition panic :: "string \<Rightarrow> ('s, 'a) kop" where
  "panic e s = (Panic e, s)"

definition bnd :: "('s, 'a) kop \<Rightarrow> ('a \<Rightarrow> ('s, 'b) kop) \<Rightarrow> ('s, 'b) kop" where
  "bnd m f s = (case m s of
      (Ok x, t) \<Rightarrow> f x t
    | (Err e, t) \<Rightarrow> (Err e, t)
    | (Panic e, t) \<Rightarrow> (Panic e, t)
    | (Block, t) \<Rightarrow> (Block, t)
    | (Diverge, t) \<Rightarrow> (Diverge, t))"

definition seqk :: "('s, 'a) kop \<Rightarrow> ('s, 'b) kop \<Rightarrow> ('s, 'b) kop" where
  "seqk m n = bnd m (\<lambda>_. n)"

definition gets :: "('s \<Rightarrow> 'a) \<Rightarrow> ('s, 'a) kop" where
  "gets f s = (Ok (f s), s)"

definition modify :: "('s \<Rightarrow> 's) \<Rightarrow> ('s, unit) kop" where
  "modify f s = (Ok (), f s)"

definition assertk :: "bool \<Rightarrow> string \<Rightarrow> ('s, unit) kop" where
  "assertk P msg = (if P then ret () else panic msg)"

text \<open>\<open>r.expect(msg)\<close>: an error becomes a panic.\<close>

definition expectk :: "string \<Rightarrow> ('s, 'a) kop \<Rightarrow> ('s, 'a) kop" where
  "expectk msg m s = (case m s of (Err e, t) \<Rightarrow> (Panic msg, t) | r \<Rightarrow> r)"

text \<open>\<open>if let Ok(x) = m \{ f(x) \} else \{ g \}\<close> and its variants: the error is a value.\<close>

definition catchk :: "('s, 'a) kop \<Rightarrow> ('a \<Rightarrow> ('s, 'b) kop) \<Rightarrow> (string \<Rightarrow> ('s, 'b) kop) \<Rightarrow> ('s, 'b) kop"
  where
  "catchk m f g s = (case m s of
      (Ok x, t) \<Rightarrow> f x t
    | (Err e, t) \<Rightarrow> g e t
    | (Panic e, t) \<Rightarrow> (Panic e, t)
    | (Block, t) \<Rightarrow> (Block, t)
    | (Diverge, t) \<Rightarrow> (Diverge, t))"

text \<open>A computation of the state alone, as an operation that leaves it unchanged.\<close>

definition lift_res :: "('s \<Rightarrow> 'a res) \<Rightarrow> ('s, 'a) kop" where
  "lift_res f s = (f s, s)"

lemma lift_res_run [kop_simps]: "lift_res f s = (f s, s)"
  by (simp add: lift_res_def)

lemma rbind_Ok_iff: "rbind r f = Ok y \<longleftrightarrow> (\<exists>x. r = Ok x \<and> f x = Ok y)"
  by (cases r) auto

lemma bnd_Ok_iff: "bnd m f s = (Ok y, u) \<longleftrightarrow> (\<exists>x t. m s = (Ok x, t) \<and> f x t = (Ok y, u))"
  by (auto simp: bnd_def split: prod.splits res.splits)

lemma seqk_Ok_iff: "seqk m n s = (Ok y, u) \<longleftrightarrow> (\<exists>x t. m s = (Ok x, t) \<and> n t = (Ok y, u))"
  by (simp add: seqk_def bnd_Ok_iff)

lemma bnd_run [kop_simps]:
  "m s = (Ok x, t) \<Longrightarrow> bnd m f s = f x t"
  "m s = (Err e, t) \<Longrightarrow> bnd m f s = (Err e, t)"
  "m s = (Panic e, t) \<Longrightarrow> bnd m f s = (Panic e, t)"
  by (simp_all add: bnd_def)

lemma seqk_run [kop_simps]:
  "m s = (Ok x, t) \<Longrightarrow> seqk m n s = n t"
  "m s = (Err e, t) \<Longrightarrow> seqk m n s = (Err e, t)"
  "m s = (Panic e, t) \<Longrightarrow> seqk m n s = (Panic e, t)"
  by (simp_all add: seqk_def bnd_def)

lemma basic_run [kop_simps]:
  "ret x s = (Ok x, s)" "throw e s = (Err e, s)" "panic e s = (Panic e, s)"
  "gets f s = (Ok (f s), s)" "modify g s = (Ok (), g s)"
  by (simp_all add: ret_def throw_def panic_def gets_def modify_def)

lemma assertk_run [kop_simps]:
  "P \<Longrightarrow> assertk P msg s = (Ok (), s)"
  "\<not> P \<Longrightarrow> assertk P msg s = (Panic msg, s)"
  by (simp_all add: assertk_def ret_def panic_def)

lemma assertk_Ok_iff: "assertk P msg s = (Ok y, t) \<longleftrightarrow> P \<and> t = s"
  by (auto simp: assertk_def ret_def panic_def)

lemma expectk_Ok_iff: "expectk msg m s = (Ok y, t) \<longleftrightarrow> m s = (Ok y, t)"
  by (auto simp: expectk_def split: prod.splits res.splits)

lemma expectk_run [kop_simps]:
  "m s = (Ok x, t) \<Longrightarrow> expectk msg m s = (Ok x, t)"
  "m s = (Err e, t) \<Longrightarrow> expectk msg m s = (Panic msg, t)"
  by (simp_all add: expectk_def)

lemma catchk_run [kop_simps]:
  "m s = (Ok x, t) \<Longrightarrow> catchk m f g s = f x t"
  "m s = (Err e, t) \<Longrightarrow> catchk m f g s = g e t"
  by (simp_all add: catchk_def)

text \<open>Rules without a condition to solve, for guards whose value is a truth value.\<close>

lemma kop_direct:
  "bnd (gets h) f s = f (h s) s"
  "bnd (modify g) k s = k () (g s)"
  "seqk (modify g) n s = n (g s)"
  "bnd (lift_res r) f s = (case r s of Ok x \<Rightarrow> f x s | Err e \<Rightarrow> (Err e, s) | Panic e \<Rightarrow> (Panic e, s)
     | Block \<Rightarrow> (Block, s) | Diverge \<Rightarrow> (Diverge, s))"
  "seqk (assertk P msg) n s = (if P then n s else (Panic msg, s))"
  "bnd (ret x) f s = f x s"
  "seqk (bnd m f) n = bnd m (\<lambda>x. seqk (f x) n)"
  by (auto simp: bnd_def seqk_def gets_def modify_def lift_res_def assertk_def ret_def panic_def
      split: prod.splits res.splits)

lemmas kop_Ok_iffs = bnd_Ok_iff seqk_Ok_iff assertk_Ok_iff expectk_Ok_iff

text \<open>\<open>for x in xs \{ f(x) \}\<close>.\<close>

fun run_all :: "('x \<Rightarrow> ('s, unit) kop) \<Rightarrow> 'x list \<Rightarrow> ('s, unit) kop" where
  "run_all f [] = ret ()"
| "run_all f (x # xs) = seqk (f x) (run_all f xs)"

section \<open>Slices and iterators\<close>

text \<open>\<open>&xs[a..b]\<close>, with the panic of an index out of range.\<close>

definition slice :: "'a list \<Rightarrow> nat \<Rightarrow> nat \<Rightarrow> 'a list" where
  "slice xs a b = take (b - a) (drop a xs)"

definition slice_get :: "'a list \<Rightarrow> nat \<Rightarrow> nat \<Rightarrow> 'a list res" where
  "slice_get xs a b =
     (if a \<le> b \<and> b \<le> length xs then Ok (slice xs a b) else Panic ''slice index'')"

text \<open>\<open>xs[off..off + ys.len()]\<close> overwritten with \<open>ys\<close> (\<open>volatile::copy_slice\<close> on a subslice).\<close>

definition overwrite :: "'a list \<Rightarrow> nat \<Rightarrow> 'a list \<Rightarrow> 'a list" where
  "overwrite xs off ys = take off xs @ ys @ drop (off + length ys) xs"

text \<open>\<open>iter().position(p)\<close> and \<open>iter().rposition(p)\<close>.\<close>

fun position :: "('a \<Rightarrow> bool) \<Rightarrow> 'a list \<Rightarrow> nat option" where
  "position P [] = None"
| "position P (x # xs) = (if P x then Some 0 else map_option Suc (position P xs))"

fun rposition :: "('a \<Rightarrow> bool) \<Rightarrow> 'a list \<Rightarrow> nat option" where
  "rposition P [] = None"
| "rposition P (x # xs) =
     (case rposition P xs of Some k \<Rightarrow> Some (Suc k) | None \<Rightarrow> if P x then Some 0 else None)"

text \<open>\<open>(start..sz).step_by(n)\<close>\<close>

definition step_by :: "nat \<Rightarrow> nat \<Rightarrow> nat \<Rightarrow> nat list" where
  "step_by start n sz = map (\<lambda>i. start + i * n) [0..<(sz - start + n - 1) div n]"

lemma length_slice [simp]: "b \<le> length xs \<Longrightarrow> length (slice xs a b) = b - a"
  by (simp add: slice_def)

lemma nth_slice: "a + i < b \<Longrightarrow> b \<le> length xs \<Longrightarrow> slice xs a b ! i = xs ! (a + i)"
  by (simp add: slice_def)

lemma length_overwrite [simp]:
  "off + length ys \<le> length xs \<Longrightarrow> length (overwrite xs off ys) = length xs"
  by (simp add: overwrite_def)

lemma nth_overwrite:
  "off + length ys \<le> length xs \<Longrightarrow> i < length xs \<Longrightarrow>
   overwrite xs off ys ! i = (if off \<le> i \<and> i < off + length ys then ys ! (i - off) else xs ! i)"
  by (auto simp: overwrite_def nth_append)

lemma slice_overwrite_same:
  "off + length ys \<le> length xs \<Longrightarrow> slice (overwrite xs off ys) off (off + length ys) = ys"
  by (rule nth_equalityI) (auto simp: nth_slice nth_overwrite)

lemma slice_overwrite_other:
  "off + length ys \<le> length xs \<Longrightarrow> b \<le> length xs \<Longrightarrow> b \<le> off \<or> off + length ys \<le> a \<Longrightarrow>
   slice (overwrite xs off ys) a b = slice xs a b"
  by (rule nth_equalityI) (auto simp: nth_slice nth_overwrite)

text \<open>A piece of a concatenation of pieces of the same length.\<close>

lemma slice_concat:
  "(\<And>x. x \<in> set xs \<Longrightarrow> length (f x) = n) \<Longrightarrow> i < length xs \<Longrightarrow>
   take n (drop (n * i) (concat (map f xs))) = f (xs ! i)"
proof (induction xs arbitrary: i)
  case (Cons x xs)
  then show ?case by (cases i) auto
qed simp

lemma position_Some:
  "position P xs = Some k \<longleftrightarrow> k < length xs \<and> P (xs ! k) \<and> (\<forall>j < k. \<not> P (xs ! j))"
proof (induction xs arbitrary: k)
  case Nil
  then show ?case by simp
next
  case (Cons x xs)
  then show ?case by (cases k) (auto simp: nth_Cons' less_Suc_eq_0_disj)
qed

lemma position_None: "position P xs = None \<longleftrightarrow> (\<forall>x \<in> set xs. \<not> P x)"
  by (induction xs) auto

lemma position_bound: "position P xs = Some k \<Longrightarrow> k < length xs"
  by (simp add: position_Some)

lemma position_cong:
  "length xs = length ys \<Longrightarrow> (\<And>k. k < length xs \<Longrightarrow> P (xs ! k) = Q (ys ! k)) \<Longrightarrow> position P xs = position Q ys"
proof (induction xs ys rule: list_induct2)
  case Nil
  then show ?case by simp
next
  case (Cons x xs y ys)
  have "position P xs = position Q ys" using Cons.prems [of "Suc k" for k] by (intro Cons.IH) auto
  then show ?case using Cons.prems [of 0] by simp
qed

lemma find_Some_nth: "find P xs = Some x \<Longrightarrow> x \<in> set xs \<and> P x"
  by (auto simp: find_Some_iff in_set_conv_nth)

lemma image_minus_one: "(\<And>j. j \<in> D \<Longrightarrow> j \<noteq> k \<Longrightarrow> g j \<noteq> g k) \<Longrightarrow> g ` (D - {k}) = g ` D - {g k}"
  by auto

lemma rposition_None: "rposition P xs = None \<longleftrightarrow> (\<forall>x \<in> set xs. \<not> P x)"
  by (induction xs) (auto split: option.splits)

lemma rposition_Some:
  "rposition P xs = Some k \<Longrightarrow>
   k < length xs \<and> P (xs ! k) \<and> (\<forall>j. k < j \<longrightarrow> j < length xs \<longrightarrow> \<not> P (xs ! j))"
proof (induction xs arbitrary: k)
  case Nil
  then show ?case by simp
next
  case (Cons x xs)
  then show ?case
    by (auto simp: nth_Cons' rposition_None all_set_conv_all_nth split: option.splits if_splits)
qed

section \<open>Little-endian bytes\<close>

text \<open>
  The target is x86-64, so \<open>from_ne_bytes\<close>, \<open>to_ne_bytes\<close> and the \<open>repr(C)\<close> layout of integer
  fields are little-endian.
\<close>

fun from_le :: "bytes \<Rightarrow> nat" where
  "from_le [] = 0"
| "from_le (b # bs) = unat b + 256 * from_le bs"

fun to_le :: "nat \<Rightarrow> nat \<Rightarrow> bytes" where
  "to_le 0 x = []"
| "to_le (Suc n) x = of_nat (x mod 256) # to_le n (x div 256)"

lemma length_to_le [simp]: "length (to_le n x) = n"
  by (induction n arbitrary: x) auto

lemma unat_of_nat_byte [simp]: "unat (of_nat (x mod 256) :: u8) = x mod 256"
  by (simp add: unat_of_nat)

lemma from_le_to_le: "from_le (to_le n x) = x mod 256 ^ n"
proof (induction n arbitrary: x)
  case 0
  then show ?case by simp
next
  case (Suc n)
  have "x mod 256 + 256 * (x div 256 mod 256 ^ n) = x mod (256 * 256 ^ n)"
    by (metis add.commute mod_mult2_eq)
  with Suc show ?case by simp
qed

lemma from_le_bound: "from_le bs < 256 ^ length bs"
proof (induction bs)
  case Nil
  then show ?case by simp
next
  case (Cons b bs)
  have "unat b < 256" using unsigned_less [of b] by simp
  with Cons show ?case by simp
qed

lemma to_le_from_le: "to_le (length bs) (from_le bs) = bs"
proof (induction bs)
  case Nil
  then show ?case by simp
next
  case (Cons b bs)
  have "unat b < 256" using unsigned_less [of b] by simp
  then have "(unat b + 256 * from_le bs) mod 256 = unat b"
    and "(unat b + 256 * from_le bs) div 256 = from_le bs"
    by simp_all
  with Cons show ?case by simp
qed

lemma from_le_append: "from_le (xs @ ys) = from_le xs + 256 ^ length xs * from_le ys"
  by (induction xs) (simp_all add: algebra_simps)

section \<open>Words\<close>

lemma unat_less_pow64 [simp]: "unat (w :: u64) < 18446744073709551616"
  using unsigned_less [of w] by simp

lemma unat_less_pow32 [simp]: "unat (w :: u32) < 4294967296"
  using unsigned_less [of w] by simp

lemma unat_less_pow8 [simp]: "unat (w :: u8) < 256"
  using unsigned_less [of w] by simp

lemma unat_add64: "unat (a + b :: u64) = (unat a + unat b) mod 2 ^ 64"
  by (simp add: unat_word_ariths)

lemma unat_add64_small: "unat a + unat b < 2 ^ 64 \<Longrightarrow> unat (a + b :: u64) = unat a + unat b"
  by (simp add: unat_word_ariths)

lemma unat_of_nat64 [simp]: "n < 18446744073709551616 \<Longrightarrow> unat (of_nat n :: u64) = n"
  by (simp add: unat_of_nat)

lemma unat_of_nat32 [simp]: "n < 4294967296 \<Longrightarrow> unat (of_nat n :: u32) = n"
  by (simp add: unat_of_nat)

lemma u64_from_le_to_le [simp]: "of_nat (from_le (to_le 8 (unat w))) = (w :: u64)"
  by (simp add: from_le_to_le)

lemma u32_from_le_to_le [simp]: "of_nat (from_le (to_le 4 (unat w))) = (w :: u32)"
  by (simp add: from_le_to_le)

end
