(* ===== verification/Arch.thy ===== *)
theory Arch
  imports Prelude
begin

text \<open>
  The machine-dependent layer, \<open>kernel/src/x86_64.rs\<close>: page rounding, reads of little-endian
  integers, segment and gate descriptors, the trap frame, and the per-CPU nesting count that
  disables interrupts.
\<close>

section \<open>Pages\<close>

abbreviation PAGE_SIZE :: nat where "PAGE_SIZE \<equiv> 4096"

definition page_empty :: bytes where
  "page_empty = replicate PAGE_SIZE 0"

definition page_clear :: "bytes \<Rightarrow> bytes" where
  "page_clear pg = replicate (length pg) 0"

definition page_scribble :: "bytes \<Rightarrow> bytes" where
  "page_scribble pg = replicate (length pg) 0b10101010"

definition page_round_down :: "usize \<Rightarrow> usize" where
  "page_round_down v = v AND NOT (4096 - 1)"

definition page_round_up :: "usize \<Rightarrow> usize res" where
  "page_round_up v =
     (let pad = (4096 - v mod 4096) mod 4096
      in if unat pad + unat v < 2 ^ 64 then Ok (pad + v) else Panic ''attempt to add with overflow'')"

section \<open>Reading integers from bytes\<close>

definition read_u16 :: "bytes \<Rightarrow> u16 res" where
  "read_u16 bs = (if length bs = 2 then Ok (of_nat (from_le bs)) else Panic ''bs.len() == 2'')"

definition read_u32 :: "bytes \<Rightarrow> u32 res" where
  "read_u32 bs = (if length bs = 4 then Ok (of_nat (from_le bs)) else Panic ''bs.len() == 4'')"

definition read_u64 :: "bytes \<Rightarrow> u64 res" where
  "read_u64 bs = (if length bs = 8 then Ok (of_nat (from_le bs)) else Panic ''bs.len() == 8'')"

section \<open>Segment descriptors\<close>

definition SEG_SYSTEM :: u64 where "SEG_SYSTEM = push_bit (12 + 32) 0"
definition SEG_CODEDATA :: u64 where "SEG_CODEDATA = push_bit (12 + 32) 1"
definition SEG_PRESENT :: u64 where "SEG_PRESENT = push_bit (15 + 32) 1"
definition SEG_LONG :: u64 where "SEG_LONG = push_bit (21 + 32) 1"
definition TYPE_CODE :: u64 where "TYPE_CODE = push_bit (8 + 32) 0b1000"
definition TYPE_DATA :: u64 where "TYPE_DATA = push_bit (8 + 32) 0b0000"
definition TYPE_WRITE :: u64 where "TYPE_WRITE = push_bit (8 + 32) 0b0010"
definition TYPE_READ :: u64 where "TYPE_READ = push_bit (8 + 32) 0b0010"
definition TYPE_TASK_AVAIL :: u64 where "TYPE_TASK_AVAIL = push_bit (8 + 32) 0b1001"
definition TYPE_INTR_GATE :: u64 where "TYPE_INTR_GATE = push_bit (8 + 32) 0b1110"
definition DPL_KERN :: u64 where "DPL_KERN = push_bit (13 + 32) 0b00"
definition DPL_USER :: u64 where "DPL_USER = push_bit (13 + 32) 0b11"

lemmas seg_consts = SEG_SYSTEM_def SEG_CODEDATA_def SEG_PRESENT_def SEG_LONG_def TYPE_CODE_def
  TYPE_DATA_def TYPE_WRITE_def TYPE_READ_def TYPE_TASK_AVAIL_def TYPE_INTR_GATE_def
  DPL_KERN_def DPL_USER_def

definition ktext64 :: u64 where
  "ktext64 = TYPE_READ OR TYPE_CODE OR SEG_CODEDATA OR SEG_PRESENT OR SEG_LONG OR DPL_KERN"
definition kdata64 :: u64 where
  "kdata64 = TYPE_WRITE OR TYPE_DATA OR SEG_CODEDATA OR SEG_PRESENT OR DPL_KERN"
definition utext64 :: u64 where
  "utext64 = TYPE_READ OR TYPE_CODE OR SEG_CODEDATA OR SEG_PRESENT OR SEG_LONG OR DPL_USER"
definition udata64 :: u64 where
  "udata64 = TYPE_WRITE OR TYPE_DATA OR SEG_CODEDATA OR SEG_PRESENT OR DPL_USER"

text \<open>The task state segment is packed: 104 bytes. Its address is the argument.\<close>

record task_state =
  rsp0 :: u64
  ist1 :: u64
  ist2 :: u64
  ist3 :: u64
  io_map_base :: u16

abbreviation TASK_STATE_SIZE :: nat where "TASK_STATE_SIZE \<equiv> 104"

definition task_state_new :: "u64 \<Rightarrow> u64 \<Rightarrow> u64 \<Rightarrow> task_state" where
  "task_state_new nmi_top db_top dbl_flt_top =
     \<lparr>rsp0 = 0, ist1 = nmi_top, ist2 = db_top, ist3 = dbl_flt_top,
      io_map_base = of_nat TASK_STATE_SIZE\<rparr>"

definition set_rsp0 :: "u64 \<Rightarrow> task_state \<Rightarrow> task_state" where
  "set_rsp0 r ts = ts\<lparr>rsp0 := r\<rparr>"

definition task64 :: "u64 \<Rightarrow> u64 \<times> u64" where
  "task64 base =
     (let base0_upper = push_bit 32 ((base AND 0xFF000000) OR drop_bit 16 (base AND 0x00FF0000));
          base0_lower = push_bit 16 (base AND 0xFFFF);
          base0 = base0_upper OR base0_lower;
          limit = of_nat TASK_STATE_SIZE - 1;
          lower = limit OR base0 OR SEG_SYSTEM OR SEG_PRESENT OR TYPE_TASK_AVAIL OR DPL_KERN;
          upper = drop_bit 32 base
      in (lower, upper))"

datatype intr_stack = RSP0 | NMI | DB | DFault

fun intr_stack_num :: "intr_stack \<Rightarrow> u64" where
  "intr_stack_num RSP0 = 0"
| "intr_stack_num NMI = 1"
| "intr_stack_num DB = 2"
| "intr_stack_num DFault = 3"

definition KTEXT_SEL :: u16 where "KTEXT_SEL = push_bit 3 1"
definition KDATA_SEL :: u16 where "KDATA_SEL = push_bit 3 2"
definition UDATA_SEL :: u16 where "UDATA_SEL = push_bit 3 3"
definition UTEXT_SEL :: u16 where "UTEXT_SEL = push_bit 3 4"
definition TASK_SEL :: u16 where "TASK_SEL = push_bit 3 6"

definition intr64 :: "u64 \<Rightarrow> intr_stack \<Rightarrow> u64 \<times> u64" where
  "intr64 off stack =
     (let lower0_offset = off AND 0x0000FFFF;
          lower0 = push_bit 16 (ucast KTEXT_SEL) OR lower0_offset;
          lower1_offset = push_bit 32 (off AND 0xFFFF0000);
          lower1 = push_bit 32 (intr_stack_num stack) OR lower1_offset;
          lower = lower1 OR lower0 OR SEG_PRESENT OR TYPE_INTR_GATE OR DPL_KERN;
          upper = drop_bit 32 off
      in (lower, upper))"

definition make_gate :: "u64 \<Rightarrow> nat \<Rightarrow> u64 \<times> u64" where
  "make_gate thunk vecnum =
     (if vecnum = 1 then intr64 thunk DB
      else if vecnum = 2 then intr64 thunk NMI
      else if vecnum = 8 then intr64 thunk DFault
      else intr64 thunk RSP0)"

definition idt_init :: "(nat \<Rightarrow> u64) \<Rightarrow> (u64 \<times> u64) list" where
  "idt_init vectors = map (\<lambda>n. make_gate (vectors n) n) [0..<256]"

definition star :: u64 where
  "star = push_bit 48 ((ucast UTEXT_SEL - 16) OR 0x3) OR push_bit 32 (ucast KTEXT_SEL)"

section \<open>Trap frames\<close>

record trap_frame =
  tf_rax :: u64
  tf_rbx :: u64
  tf_rcx :: u64
  tf_rdx :: u64
  tf_rsi :: u64
  tf_rdi :: u64
  tf_rbp :: u64
  tf_r8 :: u64
  tf_r9 :: u64
  tf_r10 :: u64
  tf_r11 :: u64
  tf_r12 :: u64
  tf_r13 :: u64
  tf_r14 :: u64
  tf_r15 :: u64
  tf_ds :: u64
  tf_es :: u64
  tf_fs :: u64
  tf_gs :: u64
  tf_vector :: u64
  tf_error :: u64
  tf_rip :: u64
  tf_cs :: u64
  tf_rflags :: u64
  tf_rsp :: u64
  tf_ss :: u64

definition is_user :: "trap_frame \<Rightarrow> bool" where
  "is_user f = (tf_cs f AND 0b11 = 0b11)"

definition set_return :: "u64 \<Rightarrow> trap_frame \<Rightarrow> trap_frame" where
  "set_return thunk f = f\<lparr>tf_rip := thunk\<rparr>"

definition set_stack :: "u64 \<Rightarrow> trap_frame \<Rightarrow> trap_frame" where
  "set_stack sp f = f\<lparr>tf_rsp := sp\<rparr>"

definition set_flags :: "u64 \<Rightarrow> trap_frame \<Rightarrow> trap_frame" where
  "set_flags flags f = f\<lparr>tf_rflags := flags OR 2\<rparr>"

definition set_rsi :: "u64 \<Rightarrow> trap_frame \<Rightarrow> trap_frame" where
  "set_rsi v f = f\<lparr>tf_rsi := v\<rparr>"

definition set_rdi :: "u64 \<Rightarrow> trap_frame \<Rightarrow> trap_frame" where
  "set_rdi v f = f\<lparr>tf_rdi := v\<rparr>"

definition RFLAGS_TRAP :: u64 where "RFLAGS_TRAP = push_bit 8 1"
definition RFLAGS_INTR_EN :: u64 where "RFLAGS_INTR_EN = push_bit 9 1"
definition RFLAGS_DIRECTION :: u64 where "RFLAGS_DIRECTION = push_bit 10 1"

definition sfmask :: u64 where
  "sfmask = RFLAGS_TRAP OR RFLAGS_INTR_EN OR RFLAGS_DIRECTION"

section \<open>Interrupt nesting\<close>

text \<open>
  The part of a CPU that the interrupt bookkeeping touches. \<open>intr_en\<close> is the interrupt flag of
  the processor's flags register, which \<open>cli\<close> and \<open>sti\<close> write.
\<close>

record cpu =
  cpu_id :: u32
  ncli :: u32
  saved_intr_status :: bool
  intr_en :: bool

definition intr_disable :: "cpu \<Rightarrow> cpu" where
  "intr_disable c = c\<lparr>intr_en := False\<rparr>"

definition intr_enable :: "cpu \<Rightarrow> cpu" where
  "intr_enable c = c\<lparr>intr_en := True\<rparr>"

definition push_intr_disable :: "cpu \<Rightarrow> cpu res" where
  "push_intr_disable c =
     (let enabled = intr_en c;
          c1 = intr_disable c;
          c2 = (if ncli c1 = 0 then c1\<lparr>saved_intr_status := enabled\<rparr> else c1)
      in if ncli c2 = -1 then Panic ''attempt to add with overflow''
         else Ok (c2\<lparr>ncli := ncli c2 + 1\<rparr>))"

definition pop_intr_disable :: "cpu \<Rightarrow> cpu res" where
  "pop_intr_disable c =
     (if intr_en c then Panic ''pop while interrupts are enabled''
      else if ncli c = 0 then Panic ''pop_intr_disable ncli''
      else let c1 = c\<lparr>ncli := ncli c - 1\<rparr>
           in Ok (if ncli c1 = 0 \<and> saved_intr_status c1 then intr_enable c1 else c1))"

text \<open>\<open>spinlock::without_intrs\<close>: the value of a thunk computed with interrupts off.\<close>

definition without_intrs :: "(cpu \<Rightarrow> 'a) \<Rightarrow> cpu \<Rightarrow> ('a \<times> cpu) res" where
  "without_intrs thunk c =
     rbind (push_intr_disable c) (\<lambda>c1.
       let r = thunk c1 in rbind (pop_intr_disable c1) (\<lambda>c2. Ok (r, c2)))"

section \<open>Descriptor fields as the processor reads them\<close>

text \<open>
  The layout of a 16-byte task segment descriptor and of an interrupt gate in long mode: where
  the processor finds the base address, the handler's offset, its code selector and the
  interrupt stack index.
\<close>

definition tss_desc_base :: "u64 \<times> u64 \<Rightarrow> u64" where
  "tss_desc_base d = take_bit 16 (drop_bit 16 (fst d))
     OR push_bit 16 (take_bit 8 (drop_bit 32 (fst d)))
     OR push_bit 24 (take_bit 8 (drop_bit 56 (fst d)))
     OR push_bit 32 (take_bit 32 (snd d))"

definition gate_offset :: "u64 \<times> u64 \<Rightarrow> u64" where
  "gate_offset d = take_bit 16 (fst d) OR push_bit 16 (take_bit 16 (drop_bit 48 (fst d)))
     OR push_bit 32 (take_bit 32 (snd d))"

definition gate_selector :: "u64 \<times> u64 \<Rightarrow> u64" where
  "gate_selector d = take_bit 16 (drop_bit 16 (fst d))"

definition gate_ist :: "u64 \<times> u64 \<Rightarrow> u64" where
  "gate_ist d = take_bit 3 (drop_bit 32 (fst d))"

section \<open>Lemmas: page rounding\<close>

lemma round_up_nat: "(4096 - u mod 4096) mod 4096 + u = (u + 4095) div 4096 * (4096::nat)"
proof (cases "u mod 4096 = 0")
  case True
  then obtain q where "u = 4096 * q" by auto
  then show ?thesis by simp
next
  case False
  define q r where "q = u div 4096" and "r = u mod 4096"
  have u: "u = q * 4096 + r" and r: "0 < r" "r < 4096" using False by (auto simp: q_def r_def)
  have "(u + 4095) div 4096 = q + 1" using r by (simp add: u)
  moreover have "(4096 - u mod 4096) mod 4096 = 4096 - r" using r by (simp add: u)
  ultimately show ?thesis using r u by simp
qed

lemma page_round_down_bits: "page_round_down v = push_bit 12 (drop_bit 12 v)"
proof (rule bit_word_eqI)
  fix n assume "n < LENGTH(64)"
  have m: "(4095 :: usize) = mask 12" by (simp add: mask_eq_exp_minus_1)
  show "bit (page_round_down v) n = bit (push_bit 12 (drop_bit 12 v)) n"
    using \<open>n < LENGTH(64)\<close> by (auto simp: page_round_down_def m bit_simps)
qed

lemma unat_page_round_down: "unat (page_round_down v) = unat v div 4096 * 4096"
proof -
  have "unat (drop_bit 12 v) = unat v div 4096" by (simp add: drop_bit_eq_div unat_div_distrib)
  moreover have "unat v div 4096 * 4096 < 2 ^ 64"
    using div_times_less_eq_dividend [of "unat v" 4096] unat_less_pow64 [of v]
    by (simp del: unat_less_pow64)
  ultimately show ?thesis
    by (simp add: page_round_down_bits push_bit_eq_mult unat_word_ariths)
qed

text \<open>The sum overflows exactly above the last page boundary of the address space.\<close>

lemma page_round_up_eq:
  "page_round_up v =
     (if unat v \<le> 2 ^ 64 - PAGE_SIZE then Ok (of_nat ((unat v + 4095) div 4096 * 4096))
      else Panic ''attempt to add with overflow'')"
proof -
  define pad where "pad = (4096 - v mod 4096) mod 4096"
  have m: "unat (v mod 4096) = unat v mod 4096" by (simp add: unat_mod_distrib)
  have "unat (4096 - v mod 4096) = 4096 - unat v mod 4096"
    by (subst unat_sub) (simp_all add: m word_le_nat_alt)
  then have "unat pad = (4096 - unat v mod 4096) mod 4096"
    by (simp add: unat_mod_distrib pad_def)
  then have sum: "unat pad + unat v = (unat v + 4095) div 4096 * 4096"
    by (simp only: round_up_nat)
  have "pad + v = of_nat (unat pad + unat v)" by simp
  then have word: "pad + v = of_nat ((unat v + 4095) div 4096 * 4096)" unfolding sum .
  have "(unat v + 4095) div 4096 * 4096 < 2 ^ 64 \<longleftrightarrow> (unat v + 4095) div 4096 < 2 ^ 52" by auto
  also have "\<dots> \<longleftrightarrow> unat v \<le> 2 ^ 64 - PAGE_SIZE" by (subst div_less_iff_less_mult) auto
  finally have "(unat v + 4095) div 4096 * 4096 < 2 ^ 64 \<longleftrightarrow> unat v \<le> 2 ^ 64 - PAGE_SIZE" .
  then show ?thesis
    unfolding page_round_up_def Let_def pad_def [symmetric] sum word by simp
qed

lemma unat_page_round_up:
  assumes "unat v \<le> 2 ^ 64 - PAGE_SIZE"
  obtains r where "page_round_up v = Ok r" "unat r = (unat v + 4095) div 4096 * 4096"
proof -
  have "(unat v + 4095) div 4096 * 4096 < 2 ^ 64" using assms by simp
  then have "unat (of_nat ((unat v + 4095) div 4096 * 4096) :: usize) = (unat v + 4095) div 4096 * 4096"
    by (intro unat_of_nat64) simp
  moreover have "page_round_up v = Ok (of_nat ((unat v + 4095) div 4096 * 4096))"
    using assms by (simp only: page_round_up_eq if_True)
  ultimately show ?thesis by (rule that [rotated])
qed

section \<open>Lemmas: descriptor fields\<close>

lemma bit_9: "bit (9 :: u64) k \<longleftrightarrow> k = 0 \<or> k = 3"
proof -
  have e: "(9 :: u64) = set_bit 0 (set_bit 3 0)" by (simp add: set_bit_eq_or)
  show ?thesis unfolding e by (simp only: bit_set_bit_iff bit_0_eq possible_bit_word) auto
qed

lemma bit_14: "bit (14 :: u64) k \<longleftrightarrow> k = 1 \<or> k = 2 \<or> k = 3"
proof -
  have e: "(14 :: u64) = set_bit 1 (set_bit 2 (set_bit 3 0))" by (simp add: set_bit_eq_or)
  show ?thesis unfolding e by (simp only: bit_set_bit_iff bit_0_eq possible_bit_word) auto
qed

lemma bit_103: "bit (103 :: u64) k \<longleftrightarrow> k = 0 \<or> k = 1 \<or> k = 2 \<or> k = 5 \<or> k = 6"
proof -
  have e: "(103 :: u64) = set_bit 0 (set_bit 1 (set_bit 2 (set_bit 5 (set_bit 6 0))))"
    by (simp add: set_bit_eq_or)
  show ?thesis unfolding e by (simp only: bit_set_bit_iff bit_0_eq possible_bit_word) auto
qed

lemmas bit_consts = bit_9 bit_14 bit_103

lemma and_masks:
  "(b :: u64) AND 0xFFFF = take_bit 16 b"
  "b AND 0xFFFF0000 = push_bit 16 (take_bit 16 (drop_bit 16 b))"
  "b AND 0x00FF0000 = push_bit 16 (take_bit 8 (drop_bit 16 b))"
  "b AND 0xFF000000 = push_bit 24 (take_bit 8 (drop_bit 24 b))"
proof -
  have m: "(0xFFFF :: u64) = mask 16" "(0xFFFF0000 :: u64) = push_bit 16 (mask 16)"
    "(0x00FF0000 :: u64) = push_bit 16 (mask 8)" "(0xFF000000 :: u64) = push_bit 24 (mask 8)"
    by (simp_all add: mask_eq_exp_minus_1)
  show "(b :: u64) AND 0xFFFF = take_bit 16 b"
    "b AND 0xFFFF0000 = push_bit 16 (take_bit 16 (drop_bit 16 b))"
    "b AND 0x00FF0000 = push_bit 16 (take_bit 8 (drop_bit 16 b))"
    "b AND 0xFF000000 = push_bit 24 (take_bit 8 (drop_bit 24 b))"
    unfolding m by (rule bit_word_eqI, auto simp: bit_simps)+
qed

lemma word_fields:
  "take_bit 16 b OR push_bit 16 (take_bit 8 (drop_bit 16 b)) OR push_bit 24 (take_bit 8 (drop_bit 24 b))
     OR push_bit 32 (take_bit 32 (drop_bit 32 b)) = (b :: u64)" (is "?l = b")
proof (rule bit_word_eqI)
  fix n assume "n < LENGTH(64)"
  then show "bit ?l n = bit b n"
    by (cases "n < 32"; cases "n < 24"; cases "n < 16") (auto simp: bit_simps)
qed

lemma task64_fields:
  "take_bit 16 (drop_bit 16 (fst (task64 b))) = take_bit 16 b"
  "take_bit 8 (drop_bit 32 (fst (task64 b))) = take_bit 8 (drop_bit 16 b)"
  "take_bit 8 (drop_bit 56 (fst (task64 b))) = take_bit 8 (drop_bit 24 b)"
  "snd (task64 b) = drop_bit 32 b"
  by (rule bit_word_eqI, auto simp: task64_def Let_def and_masks seg_consts bit_simps bit_consts)+

lemma intr64_fields:
  "take_bit 16 (fst (intr64 b k)) = take_bit 16 b"
  "take_bit 16 (drop_bit 48 (fst (intr64 b k))) = take_bit 16 (drop_bit 16 b)"
  "snd (intr64 b k) = drop_bit 32 b"
  by (cases k; rule bit_word_eqI, auto simp: intr64_def KTEXT_SEL_def Let_def and_masks seg_consts bit_simps bit_consts)+

lemma bit_8: "bit (8 :: u64) k \<longleftrightarrow> k = 3"
proof -
  have e: "(8 :: u64) = set_bit 3 0" by (simp add: set_bit_eq_or)
  show ?thesis unfolding e by (simp only: bit_set_bit_iff bit_0_eq possible_bit_word) auto
qed

lemma word_fields16:
  "take_bit 16 b OR push_bit 16 (take_bit 16 (drop_bit 16 b))
     OR push_bit 32 (take_bit 32 (drop_bit 32 b)) = (b :: u64)" (is "?l = b")
proof (rule bit_word_eqI)
  fix n assume "n < LENGTH(64)"
  then show "bit ?l n = bit b n"
    by (cases "n < 32"; cases "n < 16") (auto simp: bit_simps)
qed

lemma ucast_KTEXT_SEL: "(ucast KTEXT_SEL :: u64) = 8"
  by (simp add: KTEXT_SEL_def)

lemma gate_offset_intr64: "gate_offset (intr64 b k) = b"
  by (simp add: gate_offset_def intr64_fields word_fields16)

lemma bit_intr_stack_num: "bit (intr_stack_num k) n \<longleftrightarrow> n = 0 \<and> k \<in> {NMI, DFault} \<or> n = 1 \<and> k \<in> {DB, DFault}"
proof -
  have e: "(2 :: u64) = set_bit 1 0" "(3 :: u64) = set_bit 1 (set_bit 0 0)" by (simp_all add: set_bit_eq_or)
  show ?thesis
    by (cases k) (simp_all only: intr_stack_num.simps e bit_set_bit_iff bit_0_eq possible_bit_word bit_1_iff, auto)
qed
lemma gate_ist_intr64: "gate_ist (intr64 b k) = intr_stack_num k"
  by (rule bit_word_eqI)
  (auto simp: gate_ist_def intr64_def ucast_KTEXT_SEL Let_def and_masks seg_consts bit_simps bit_consts bit_8 bit_intr_stack_num)
lemma gate_selector_intr64: "gate_selector (intr64 b k) = ucast KTEXT_SEL"
  by (rule bit_word_eqI)
  (auto simp: gate_selector_def intr64_def ucast_KTEXT_SEL Let_def and_masks seg_consts bit_simps bit_consts bit_8 bit_intr_stack_num)

lemma tss_desc_base_task64: "tss_desc_base (task64 b) = b"
  by (simp add: tss_desc_base_def task64_fields word_fields)

section \<open>Lemmas: interrupt nesting\<close>

text \<open>Interrupts are off while the nesting count is not zero.\<close>

definition cpu_ok :: "cpu \<Rightarrow> bool" where
  "cpu_ok c \<longleftrightarrow> (ncli c \<noteq> 0 \<longrightarrow> \<not> intr_en c)"

fun pushes :: "nat \<Rightarrow> cpu \<Rightarrow> cpu res" where
  "pushes 0 c = Ok c"
| "pushes (Suc n) c = rbind (push_intr_disable c) (pushes n)"

fun pops :: "nat \<Rightarrow> cpu \<Rightarrow> cpu res" where
  "pops 0 c = Ok c"
| "pops (Suc n) c = rbind (pops n c) pop_intr_disable"

lemma push_intr_disable_Ok:
  "ncli c \<noteq> -1 \<Longrightarrow> \<exists>c1. push_intr_disable c = Ok c1 \<and> ncli c1 = ncli c + 1 \<and> \<not> intr_en c1 \<and>
     cpu_id c1 = cpu_id c \<and> (ncli c \<noteq> 0 \<longrightarrow> saved_intr_status c1 = saved_intr_status c)
     \<and> (ncli c = 0 \<longrightarrow> saved_intr_status c1 = intr_en c)"
  by (simp add: push_intr_disable_def intr_disable_def Let_def)

lemma push_intr_disable_OkD:
  "push_intr_disable c = Ok c1 \<Longrightarrow> ncli c1 = ncli c + 1 \<and> ncli c1 \<noteq> 0 \<and> \<not> intr_en c1 \<and>
     cpu_id c1 = cpu_id c"
  by (auto simp: push_intr_disable_def intr_disable_def Let_def eq_neg_iff_add_eq_0 split: if_splits)

lemma push_pop_inverse:
  assumes "cpu_ok c" and "push_intr_disable c = Ok c1"
  shows "\<exists>c2. pop_intr_disable c1 = Ok c2 \<and> intr_en c2 = intr_en c \<and> ncli c2 = ncli c \<and>
    cpu_id c2 = cpu_id c \<and> cpu_ok c2"
  using assms
  by (auto simp: push_intr_disable_def pop_intr_disable_def intr_disable_def intr_enable_def
      cpu_ok_def Let_def eq_neg_iff_add_eq_0 split: if_splits)

lemma ncli_not_max: "unat (x :: u32) + Suc n < 2 ^ 32 \<Longrightarrow> x \<noteq> -1"
  by (auto simp: unsigned_minus_1_eq_mask mask_eq_exp_minus_1)

lemma unat_Suc_u32: "unat (x :: u32) + Suc n < 2 ^ 32 \<Longrightarrow> unat (x + 1) = unat x + 1"
  by (simp add: unat_word_ariths)

lemma inner_pushes_pops:
  "ncli c \<noteq> 0 \<Longrightarrow> \<not> intr_en c \<Longrightarrow> unat (ncli c) + n < 2 ^ 32 \<Longrightarrow>
   \<exists>c1. pushes n c = Ok c1 \<and> pops n c1 = Ok c \<and> \<not> intr_en c1"
proof (induction n arbitrary: c)
  case 0
  then show ?case by simp
next
  case (Suc n)
  define c1 where "c1 = c\<lparr>ncli := ncli c + 1\<rparr>"
  have p: "push_intr_disable c = Ok c1"
    using Suc.prems ncli_not_max [of "ncli c" n]
    by (simp add: push_intr_disable_def intr_disable_def Let_def c1_def)
  have u: "unat (ncli c1) = unat (ncli c) + 1" using unat_Suc_u32 [OF Suc.prems(3)] by (simp add: c1_def)
  then have "ncli c1 \<noteq> 0" by auto
  moreover have "\<not> intr_en c1" using Suc.prems by (simp add: c1_def)
  ultimately obtain c2 where "pushes n c1 = Ok c2" "pops n c2 = Ok c1" "\<not> intr_en c2"
    using Suc.IH [of c1] u Suc.prems(3) by auto
  moreover have "pop_intr_disable c1 = Ok c"
    using \<open>ncli c1 \<noteq> 0\<close> Suc.prems(1,2) by (simp add: pop_intr_disable_def c1_def Let_def)
  ultimately show ?case using p by simp
qed

text \<open>
  Disabling interrupts nests. From a CPU whose count is in step with its interrupt flag, any
  number of \<open>push\<close> calls followed by as many \<open>pop\<close> calls succeeds, keeps interrupts off in
  between, and restores the flag and the count; no \<open>pop\<close> on the way panics.
\<close>

theorem intr_nesting_restores:
  assumes "cpu_ok c" "unat (ncli c) + n < 2 ^ 32"
  shows "\<exists>c1 c2. pushes n c = Ok c1 \<and> pops n c1 = Ok c2 \<and> (n \<noteq> 0 \<longrightarrow> \<not> intr_en c1) \<and>
    intr_en c2 = intr_en c \<and> ncli c2 = ncli c"
proof (cases n)
  case 0
  then show ?thesis by simp
next
  case (Suc m)
  then have b: "unat (ncli c) + Suc m < 2 ^ 32" using assms(2) by simp
  obtain c1 where c1: "push_intr_disable c = Ok c1" "ncli c1 = ncli c + 1" "\<not> intr_en c1"
    using push_intr_disable_Ok [OF ncli_not_max [OF b]] by blast
  have "unat (ncli c1) = unat (ncli c) + 1" using unat_Suc_u32 [OF b] c1(2) by simp
  moreover from this have "ncli c1 \<noteq> 0" by auto
  ultimately obtain c2 where "pushes m c1 = Ok c2" "pops m c2 = Ok c1" "\<not> intr_en c2"
    using inner_pushes_pops [of c1 m] c1(3) b by auto
  moreover obtain c3 where "pop_intr_disable c1 = Ok c3" "intr_en c3 = intr_en c" "ncli c3 = ncli c"
    using push_pop_inverse [OF assms(1) c1(1)] by blast
  ultimately show ?thesis using Suc c1(1) by simp
qed

theorem intr_nesting_restores_witness:
  "\<exists>c1 c2. pushes 3 \<lparr>cpu_id = 0, ncli = 0, saved_intr_status = False, intr_en = True\<rparr> = Ok c1 \<and>
     pops 3 c1 = Ok c2 \<and> intr_en c2"
  using intr_nesting_restores [of "\<lparr>cpu_id = 0, ncli = 0, saved_intr_status = False, intr_en = True\<rparr>" 3]
  by (auto simp: cpu_ok_def)

section \<open>Properties: rounding and descriptors\<close>

text \<open>
  Rounding to pages. For every address less than a page from the top of the address space,
  \<open>page_round_down\<close> and \<open>page_round_up\<close> give multiples of the page size that bracket the address and
  are each less than a page away from it; above the last page boundary \<open>page_round_up\<close> overflows and
  panics.
\<close>

theorem page_round_brackets:
  "unat (page_round_down v) mod PAGE_SIZE = 0 \<and> unat (page_round_down v) \<le> unat v \<and>
   unat v - unat (page_round_down v) < PAGE_SIZE \<and>
   (if unat v \<le> 2 ^ 64 - PAGE_SIZE
    then \<exists>r. page_round_up v = Ok r \<and> unat r mod PAGE_SIZE = 0 \<and> unat v \<le> unat r \<and> unat r - unat v < PAGE_SIZE
    else page_round_up v = Panic ''attempt to add with overflow'')"
proof -
  define x y where "x = unat v div 4096 * 4096" and "y = (unat v + 4095) div 4096 * 4096"
  have "x + unat v mod 4096 = unat v" "y + (unat v + 4095) mod 4096 = unat v + 4095"
    by (simp_all only: x_def y_def div_mult_mod_eq)
  moreover have "unat v mod 4096 < 4096" "(unat v + 4095) mod 4096 < 4096" by simp_all
  ultimately have b: "x \<le> unat v" "unat v - x < 4096" "unat v \<le> y" "y - unat v < 4096" by linarith+
  have m: "x mod 4096 = 0" "y mod 4096 = 0" by (simp_all add: x_def y_def)
  have "\<exists>r. page_round_up v = Ok r \<and> unat r = y" if "unat v \<le> 2 ^ 64 - PAGE_SIZE"
    using unat_page_round_up [OF that] unfolding y_def by blast
  then show ?thesis
    unfolding unat_page_round_down x_def [symmetric]
    using b m by (auto simp: page_round_up_eq [of v])
qed

text \<open>
  The interrupt table sends every vector to its own handler. For each of the 256 vectors, what
  the processor reads back from the gate is the handler's full 64-bit address, the kernel's code
  segment, and the interrupt stack index 2 for a debug trap, 1 for a non-maskable interrupt, 3 for a
  double fault and 0 (the task's own stack) for everything else.
\<close>

theorem idt_gates_decode:
  "\<forall>n < 256. gate_offset (idt_init vectors ! n) = vectors n \<and>
     gate_selector (idt_init vectors ! n) = ucast KTEXT_SEL \<and>
     gate_ist (idt_init vectors ! n) = (if n = 1 then 2 else if n = 2 then 1 else if n = 8 then 3 else 0)"
  by (simp add: idt_init_def make_gate_def gate_offset_intr64 gate_selector_intr64 gate_ist_intr64
      numeral_2_eq_2)

theorem idt_gates_decode_witness:
  "gate_offset (idt_init (\<lambda>n. 0xFFFF800000100000 + 16 * of_nat n) ! 14) = 0xFFFF8000001000E0"
  using idt_gates_decode [of "\<lambda>n. 0xFFFF800000100000 + 16 * of_nat n"] by auto

text \<open>
  The task segment descriptor holds the address it was made from: the base the processor
  assembles from the four fields of \<open>task64\<close> is the task state's address, for every 64-bit address.
\<close>

theorem task_descriptor_base: "tss_desc_base (task64 base) = base"
  by (rule tss_desc_base_task64)

end
