(* ===== verification/Entry.thy ===== *)
theory Entry
  imports Arch
begin

text \<open>
  The ways into the kernel and back: the stubs of the interrupt vectors and \<open>alltraps\<close> (\<open>kernel/src/x86_64.rs\<close>),
  \<open>enter\<close> and \<open>syscallret\<close> for system calls (\<open>kernel/src/syscall.rs\<close>) and the stubs of user programs
  (\<open>ulib/src/sysx86_64.rs\<close>). They are assembly, and so a small machine runs them: registers, segment
  registers, the two GS bases, and memory as words at the addresses that are used.
\<close>

section \<open>The machine\<close>

datatype reg = RAX | RBX | RCX | RDX | RSI | RDI | RBP | RSP | R8 | R9 | R10 | R11 | R12 | R13 | R14 | R15

datatype seg = DS | ES | FS | GS

record machine =
  regs :: "reg \<Rightarrow> u64"
  segs :: "seg \<Rightarrow> u16"
  cs_reg :: u16
  ss_reg :: u16
  flags_reg :: u64
  rip_reg :: u64
  gs_base :: u64
  kernel_gs_base :: u64
  words :: "u64 \<Rightarrow> u64"

datatype instr =
    Pushq reg
  | Pushi u64
  | Popq reg
  | Movq reg reg
  | Subsp u64
  | Addsp u64
  | Storei u64 u64
  | StoreSeg seg u64
  | LoadSeg u64 seg
  | Loadq u64 reg
  | MovCs reg
  | Swapgs
  | SwapgsUnless u64 u16
  | FromGs u64 reg
  | ToGs reg u64
  | Xorq reg
  | Movi u64 reg
  | Cli
  | StoreBp reg u64
  | StoreBpLow u32 u64
  | StoreBpHigh u32 u64
  | LeaBp u64 reg
  | Pushf
  | StoreAt reg reg
  | Retq

definition pushv :: "u64 \<Rightarrow> machine \<Rightarrow> machine" where
  "pushv v m = m\<lparr>regs := (regs m)(RSP := regs m RSP - 8), words := (words m)(regs m RSP - 8 := v)\<rparr>"

definition swapgs :: "machine \<Rightarrow> machine" where
  "swapgs m = m\<lparr>gs_base := kernel_gs_base m, kernel_gs_base := gs_base m\<rparr>"

text \<open>
  The arithmetic flags: carry (bit 0), parity (2), adjust (4), zero (6), sign (7) and overflow (11). Additions, subtractions
  and comparisons set all six; \<open>xor\<close> clears carry and overflow and leaves adjust undefined, here 0.
\<close>

definition ARITH_FLAGS :: u64 where "ARITH_FLAGS = 0x8D5"

definition flag :: "nat \<Rightarrow> bool \<Rightarrow> u64" where
  "flag n b = (if b then push_bit n 1 else 0)"

definition result_flags :: "u64 \<Rightarrow> u64" where
  "result_flags r = flag 2 (even (length (filter (bit r) [0..<8]))) OR flag 6 (r = 0) OR flag 7 (bit r 63)"

definition add_flags :: "u64 \<Rightarrow> u64 \<Rightarrow> u64" where
  "add_flags a b = (let r = a + b in result_flags r OR flag 0 (r < a) OR flag 4 (bit (a XOR b XOR r) 4) OR
     flag 11 (bit a 63 = bit b 63 \<and> bit r 63 \<noteq> bit a 63))"

definition sub_flags :: "u64 \<Rightarrow> u64 \<Rightarrow> u64" where
  "sub_flags a b = (let r = a - b in result_flags r OR flag 0 (a < b) OR flag 4 (bit (a XOR b XOR r) 4) OR
     flag 11 (bit a 63 \<noteq> bit b 63 \<and> bit r 63 \<noteq> bit a 63))"

definition set_arith :: "u64 \<Rightarrow> machine \<Rightarrow> machine" where
  "set_arith fl m = m\<lparr>flags_reg := (flags_reg m AND NOT ARITH_FLAGS) OR (fl AND ARITH_FLAGS)\<rparr>"

fun exec1 :: "instr \<Rightarrow> machine \<Rightarrow> machine" where
  "exec1 (Pushq r) m = pushv (regs m r) m"
| "exec1 (Pushi v) m = pushv v m"
| "exec1 (Popq r) m = m\<lparr>regs := (regs m)(RSP := regs m RSP + 8, r := words m (regs m RSP))\<rparr>"
| "exec1 (Movq a b) m = m\<lparr>regs := (regs m)(b := regs m a)\<rparr>"
| "exec1 (Subsp n) m = (set_arith (sub_flags (regs m RSP) n) m)\<lparr>regs := (regs m)(RSP := regs m RSP - n)\<rparr>"
| "exec1 (Addsp n) m = (set_arith (add_flags (regs m RSP) n) m)\<lparr>regs := (regs m)(RSP := regs m RSP + n)\<rparr>"
| "exec1 (Storei v off) m = m\<lparr>words := (words m)(regs m RSP + off := v)\<rparr>"
| "exec1 (StoreSeg g off) m = m\<lparr>words := (words m)(regs m RSP + off := (words m (regs m RSP + off) AND NOT 0xFFFF) OR ucast (segs m g))\<rparr>"
| "exec1 (LoadSeg off g) m = m\<lparr>segs := (segs m)(g := ucast (words m (regs m RSP + off)))\<rparr>"
| "exec1 (Loadq off r) m = m\<lparr>regs := (regs m)(r := words m (regs m RSP + off))\<rparr>"
| "exec1 (MovCs r) m = m\<lparr>regs := (regs m)(r := ucast (cs_reg m))\<rparr>"
| "exec1 Swapgs m = swapgs m"
| "exec1 (SwapgsUnless off sel) m =
     (let m1 = set_arith (sub_flags (words m (regs m RSP + off)) (ucast sel)) m
      in if words m (regs m RSP + off) = ucast sel then m1 else swapgs m1)"
| "exec1 (FromGs off r) m = m\<lparr>regs := (regs m)(r := words m (gs_base m + off))\<rparr>"
| "exec1 (ToGs r off) m = m\<lparr>words := (words m)(gs_base m + off := regs m r)\<rparr>"
| "exec1 (Xorq r) m = (set_arith (result_flags (regs m r XOR regs m r)) m)\<lparr>regs := (regs m)(r := regs m r XOR regs m r)\<rparr>"
| "exec1 (Movi v r) m = m\<lparr>regs := (regs m)(r := v)\<rparr>"
| "exec1 Cli m = m\<lparr>flags_reg := flags_reg m AND NOT RFLAGS_INTR_EN\<rparr>"
| "exec1 (StoreBp r off) m = m\<lparr>words := (words m)(regs m RBP - off := regs m r)\<rparr>"
| "exec1 (StoreBpLow v off) m = m\<lparr>words := (words m)(regs m RBP - off := (words m (regs m RBP - off) AND NOT 0xFFFFFFFF) OR ucast v)\<rparr>"
| "exec1 (StoreBpHigh v off) m = m\<lparr>words := (words m)(regs m RBP - off := (words m (regs m RBP - off) AND 0xFFFFFFFF) OR push_bit 32 (ucast v))\<rparr>"
| "exec1 (LeaBp off r) m = m\<lparr>regs := (regs m)(r := regs m RBP + off)\<rparr>"
| "exec1 Pushf m = pushv (flags_reg m) m"
| "exec1 (StoreAt a b) m = m\<lparr>words := (words m)(regs m b := regs m a)\<rparr>"
| "exec1 Retq m = m\<lparr>rip_reg := words m (regs m RSP), regs := (regs m)(RSP := regs m RSP + 8)\<rparr>"

definition run_code :: "instr list \<Rightarrow> machine \<Rightarrow> machine" where
  "run_code code m = fold exec1 code m"

section \<open>Traps\<close>

text \<open>The vectors whose stub is generated without a zero for the error code.\<close>

definition has_error :: "nat \<Rightarrow> bool" where
  "has_error v \<longleftrightarrow> v \<in> {8, 10, 11, 12, 13, 14, 17}"

definition vector_stub :: "nat \<Rightarrow> instr list" where
  "vector_stub v = (if has_error v then [] else [Pushi 0]) @ [Pushi (of_nat v)]"

abbreviation TRAPFRAME_VECTOR_OFFSET :: u64 where "TRAPFRAME_VECTOR_OFFSET \<equiv> 0x98"
abbreviation TRAPFRAME_CS_OFFSET :: u64 where "TRAPFRAME_CS_OFFSET \<equiv> 0xB0"

text \<open>\<open>alltraps\<close> before and after the call of \<open>trap\<close>, up to \<open>iretq\<close>.\<close>

definition alltraps_entry :: "instr list" where
  "alltraps_entry =
     [Subsp 32, Storei 0 0, StoreSeg DS 0, Storei 0 8, StoreSeg ES 8, Storei 0 16, StoreSeg FS 16, Storei 0 24, StoreSeg GS 24,
      Pushq R15, Pushq R14, Pushq R13, Pushq R12, Pushq R11, Pushq R10, Pushq R9, Pushq R8,
      Pushq RBP, Pushq RDI, Pushq RSI, Pushq RDX, Pushq RCX, Pushq RBX, Pushq RAX,
      SwapgsUnless TRAPFRAME_CS_OFFSET KTEXT_SEL, Loadq TRAPFRAME_VECTOR_OFFSET RDI, Movq RSP RSI]"

definition alltraps_exit :: "instr list" where
  "alltraps_exit =
     [SwapgsUnless TRAPFRAME_CS_OFFSET KTEXT_SEL,
      Popq RAX, Popq RBX, Popq RCX, Popq RDX, Popq RSI, Popq RDI, Popq RBP,
      Popq R8, Popq R9, Popq R10, Popq R11, Popq R12, Popq R13, Popq R14, Popq R15,
      LoadSeg 8 ES, LoadSeg 0 DS, Addsp 32, Addsp 16]"

section \<open>System calls\<close>

text \<open>\<open>enter\<close> before and after the call of \<open>syscall\<close>, and \<open>syscallret\<close> up to \<open>sysretq\<close>.\<close>

definition enter_call :: "instr list" where
  "enter_call =
     [Swapgs, Movq RSP R8, FromGs 16 RSP,
      Pushi 0, Pushq R8, Pushq R11, MovCs R11, Pushq R11, Pushq RCX, Pushi 0, Pushi 0,
      Pushi 0, StoreSeg GS 0, Pushi 0, StoreSeg FS 0, Pushi 0, StoreSeg ES 0, Pushi 0, StoreSeg DS 0,
      Pushq R15, Pushq R14, Pushq R13, Pushq R12, Pushi 0, Pushi 0, Pushi 0, Pushi 0,
      Pushq RBP, Pushi 0, Pushi 0, Pushi 0, Pushi 0, Pushq RBX, Pushq RAX,
      Pushi 0, Pushq RCX, Movq R11 RBP, Movq RAX RCX]"

definition enter_return :: "instr list" where
  "enter_return = [Addsp 16]"

definition syscallret :: "instr list" where
  "syscallret =
     [Cli, Addsp 8, Popq RBX, Addsp 8, Popq RDX, Popq RSI, Popq RDI, Popq RBP,
      Popq R8, Popq R9, Popq R10, Popq R11, Popq R12, Popq R13, Popq R14, Popq R15,
      LoadSeg 0 DS, LoadSeg 8 ES, LoadSeg 16 FS, Addsp 32, Addsp 16,
      Popq RCX, Addsp 8, Popq R11, Popq R8, Addsp 8, ToGs RSP 16, Movq R8 RSP, Xorq R8, Swapgs]"

definition user_stub :: "nat \<Rightarrow> instr list" where
  "user_stub num = [Movi (of_nat num) RAX]"

section \<open>Switching between processes\<close>

text \<open>\<open>swtch\<close> (\<open>swtch.S\<close>), with the pointer to the saved context in the first argument and the context to continue in the second.\<close>

record sched_context =
  ctx_rsp :: u64
  ctx_rflags :: u64
  ctx_rbp :: u64
  ctx_rbx :: u64
  ctx_r12 :: u64
  ctx_r13 :: u64
  ctx_r14 :: u64
  ctx_r15 :: u64
  ctx_rip :: u64

definition swtch :: "instr list" where
  "swtch =
     [Pushq R15, Pushq R14, Pushq R13, Pushq R12, Pushq RBX, Pushq RBP, Pushf, Pushq RSP,
      StoreAt RSP RDI, Movq RSI RSP, Addsp 16, Popq RBP, Popq RBX, Popq R12, Popq R13, Popq R14, Popq R15, Retq]"

section \<open>Functions with a variable number of arguments\<close>

text \<open>
  \<open>dprintf\<close> puts a \<open>va_list\<close> on its stack and calls \<open>rvdprintf\<close> with its address as third argument. There are two
  versions: \<open>slow_dprintf\<close>, which is the one programs get, and \<open>fast_dprintf\<close>. Each is split at the call. An offset \<open>off\<close> of
  \<open>StoreBp\<close> is below the frame pointer; the two halves of the word at \<open>- 32\<close> are stored separately.
\<close>

definition slow_dprintf :: "instr list" where
  "slow_dprintf =
     [Pushq RBP, Movq RSP RBP, Pushq R9, Pushq R8, Pushq RCX, Pushq RDX, Pushi 0, Pushi 0,
      Pushq RSP, LeaBp 16 RAX, Pushq RAX, Movi 0x3000000010 RAX, Pushq RAX, Movq RSP RDX, Pushi 0, Xorq RAX]"

definition slow_dprintf_return :: "instr list" where
  "slow_dprintf_return = [Movq RBP RSP, Popq RBP]"

definition fast_dprintf :: "instr list" where
  "fast_dprintf =
     [Pushq RBP, Movq RSP RBP, Subsp 80, StoreBp R9 40, StoreBp R8 48, StoreBp RCX 56, StoreBp RDX 64,
      StoreBp RSP 16, LeaBp 16 RAX, StoreBp RAX 24, StoreBpHigh 48 32, StoreBpLow 16 32, LeaBp (- 32) RDX, Xorq RAX]"

definition fast_dprintf_return :: "instr list" where
  "fast_dprintf_return = [Addsp 80, Popq RBP]"

text \<open>
  What \<open>VaList::next_arg\<close> does with the structure, by the System V ABI: general arguments come from the register save
  area until its 48 bytes are used up, and then from the overflow area.
\<close>

record va_list =
  gp_offset :: u32
  fp_offset :: u32
  overflow_arg_area :: u64
  reg_save_area :: u64

definition va_list_at :: "machine \<Rightarrow> u64 \<Rightarrow> va_list" where
  "va_list_at m a = \<lparr>gp_offset = ucast (words m a), fp_offset = ucast (drop_bit 32 (words m a)),
     overflow_arg_area = words m (a + 8), reg_save_area = words m (a + 16)\<rparr>"

definition va_arg :: "(u64 \<Rightarrow> u64) \<Rightarrow> va_list \<Rightarrow> u64 \<times> va_list" where
  "va_arg w l = (if gp_offset l < 48 then (w (reg_save_area l + ucast (gp_offset l)), l\<lparr>gp_offset := gp_offset l + 8\<rparr>)
     else (w (overflow_arg_area l), l\<lparr>overflow_arg_area := overflow_arg_area l + 8\<rparr>))"

fun va_nth :: "(u64 \<Rightarrow> u64) \<Rightarrow> va_list \<Rightarrow> nat \<Rightarrow> u64" where
  "va_nth w l 0 = fst (va_arg w l)"
| "va_nth w l (Suc n) = va_nth w (snd (va_arg w l)) n"

section \<open>What the processor does\<close>

text \<open>
  An exception or interrupt switches to the stack \<open>sp\<close>, pushes five words and, for the vectors that the processor manual lists, an
  error code, and clears the flags that an interrupt gate clears (trap, interrupt, nested task, resume, virtual mode); coming from
  user mode the stack segment becomes null. \<open>iretq\<close> takes the five words back. \<open>syscall\<close> saves the next instruction and the flags in registers, and
  \<open>sysretq\<close> takes them from there.
\<close>

definition hw_error_code :: "nat \<Rightarrow> bool" where
  "hw_error_code v \<longleftrightarrow> v \<in> {8, 10, 11, 12, 13, 14, 17, 21, 29, 30}"

definition hw_interrupt :: "u64 \<Rightarrow> nat \<Rightarrow> u64 \<Rightarrow> machine \<Rightarrow> machine" where
  "hw_interrupt sp v err m =
     (let m1 = fold pushv [ucast (ss_reg m), regs m RSP, flags_reg m, ucast (cs_reg m), rip_reg m] (m\<lparr>regs := (regs m)(RSP := sp)\<rparr>)
      in (if hw_error_code v then pushv err m1 else m1)\<lparr>cs_reg := KTEXT_SEL,
           ss_reg := (if cs_reg m AND 3 = 0 then ss_reg m else 0), flags_reg := flags_reg m AND NOT 0x34300\<rparr>)"

definition iretq :: "machine \<Rightarrow> machine" where
  "iretq m = (let sp = regs m RSP in
     m\<lparr>rip_reg := words m sp, cs_reg := ucast (words m (sp + 8)), flags_reg := words m (sp + 16),
       regs := (regs m)(RSP := words m (sp + 24)), ss_reg := ucast (words m (sp + 32))\<rparr>)"

definition hw_syscall :: "u64 \<Rightarrow> machine \<Rightarrow> machine" where
  "hw_syscall lstar m = m\<lparr>regs := (regs m)(RCX := rip_reg m, R11 := flags_reg m), rip_reg := lstar,
     cs_reg := KTEXT_SEL, ss_reg := KDATA_SEL, flags_reg := flags_reg m AND NOT sfmask\<rparr>"

definition sysretq :: "machine \<Rightarrow> machine" where
  "sysretq m = m\<lparr>rip_reg := regs m RCX, flags_reg := regs m R11, cs_reg := UTEXT_SEL OR 3, ss_reg := UDATA_SEL OR 3\<rparr>"

text \<open>The context and the frame at an address.\<close>

definition context_at :: "machine \<Rightarrow> u64 \<Rightarrow> sched_context" where
  "context_at m a = \<lparr>ctx_rsp = words m a, ctx_rflags = words m (a + 8), ctx_rbp = words m (a + 16), ctx_rbx = words m (a + 24),
     ctx_r12 = words m (a + 32), ctx_r13 = words m (a + 40), ctx_r14 = words m (a + 48), ctx_r15 = words m (a + 56), ctx_rip = words m (a + 64)\<rparr>"

definition frame_at :: "machine \<Rightarrow> u64 \<Rightarrow> trap_frame" where
  "frame_at m a = \<lparr>tf_rax = words m a, tf_rbx = words m (a + 8), tf_rcx = words m (a + 16), tf_rdx = words m (a + 24),
     tf_rsi = words m (a + 32), tf_rdi = words m (a + 40), tf_rbp = words m (a + 48), tf_r8 = words m (a + 56), tf_r9 = words m (a + 64),
     tf_r10 = words m (a + 72), tf_r11 = words m (a + 80), tf_r12 = words m (a + 88), tf_r13 = words m (a + 96), tf_r14 = words m (a + 104),
     tf_r15 = words m (a + 112), tf_ds = words m (a + 120), tf_es = words m (a + 128), tf_fs = words m (a + 136), tf_gs = words m (a + 144),
     tf_vector = words m (a + 152), tf_error = words m (a + 160), tf_rip = words m (a + 168), tf_cs = words m (a + 176),
     tf_rflags = words m (a + 184), tf_rsp = words m (a + 192), tf_ss = words m (a + 200)\<rparr>"

end
