(* ===== verification/EntryProps.thy ===== *)
theory EntryProps
  imports Entry
begin

text \<open>
  Interrupted programs do not notice: \<open>alltraps\<close> builds the frame the handlers expect and restores every
  register from it, and a system call changes only the registers it is meant to change.
\<close>

section \<open>Addresses on the stack\<close>

lemma sp_add: "(x :: u64) - a + b = x - (a - b)"
  by simp

lemma sp_sub: "(x :: u64) - a - b = x - (a + b)"
  by simp

lemma sp_eq: "(x :: u64) - a = x - b \<longleftrightarrow> a = b"
  by simp

lemma sp_same: "(x :: u64) - a = x \<longleftrightarrow> a = 0" "x = x - a \<longleftrightarrow> a = 0"
  by auto

lemmas sp_simps = sp_add sp_sub sp_eq sp_same

lemma seg_word: "ucast (ucast (g :: u16) :: u64) = g"
  by (rule bit_word_eqI) (simp add: bit_unsigned_iff)


section \<open>Traps\<close>






lemma set_arith_fields [simp]:
  "regs (set_arith f m) = regs m" "segs (set_arith f m) = segs m" "cs_reg (set_arith f m) = cs_reg m" "ss_reg (set_arith f m) = ss_reg m"
  "rip_reg (set_arith f m) = rip_reg m" "gs_base (set_arith f m) = gs_base m" "kernel_gs_base (set_arith f m) = kernel_gs_base m"
  "words (set_arith f m) = words m"
  by (simp_all add: set_arith_def)

lemma set_arith_other: "flags_reg (set_arith f m) AND NOT ARITH_FLAGS = flags_reg m AND NOT ARITH_FLAGS"
  by (rule bit_word_eqI) (auto simp: set_arith_def bit_simps)



lemma run_code_append: "run_code (c @ d) m = run_code d (run_code c m)"
  by (simp add: run_code_def)


lemmas exec_defs = run_code_def alltraps_entry_def alltraps_exit_def pushv_def swapgs_def Let_def



fun frame_reg :: "trap_frame \<Rightarrow> reg \<Rightarrow> u64" where
  "frame_reg f RAX = tf_rax f" | "frame_reg f RBX = tf_rbx f" | "frame_reg f RCX = tf_rcx f" | "frame_reg f RDX = tf_rdx f"
| "frame_reg f RSI = tf_rsi f" | "frame_reg f RDI = tf_rdi f" | "frame_reg f RBP = tf_rbp f" | "frame_reg f RSP = tf_rsp f"
| "frame_reg f R8 = tf_r8 f" | "frame_reg f R9 = tf_r9 f" | "frame_reg f R10 = tf_r10 f" | "frame_reg f R11 = tf_r11 f"
| "frame_reg f R12 = tf_r12 f" | "frame_reg f R13 = tf_r13 f" | "frame_reg f R14 = tf_r14 f" | "frame_reg f R15 = tf_r15 f"





text \<open>A page fault in a user program.\<close>

definition user_machine :: machine where
  "user_machine = \<lparr>regs = (\<lambda>r. case r of RSP \<Rightarrow> 0x7FFFFFFFC000 | RDI \<Rightarrow> 3 | RSI \<Rightarrow> 0x5000 | RDX \<Rightarrow> 16 | RBX \<Rightarrow> 77 | _ \<Rightarrow> 1), segs = (\<lambda>_. 0x1B),
     cs_reg = 0x23, ss_reg = 0x1B, flags_reg = 0x202, rip_reg = 0x1000, gs_base = 0, kernel_gs_base = 0xFFFF800000300000,
     words = (\<lambda>_. 0)(0xFFFF800000300010 := 0xFFFF800000200000)\<rparr>"


section \<open>System calls\<close>

definition called :: "u64 \<Rightarrow> nat \<Rightarrow> machine \<Rightarrow> machine" where
  "called lstar num m = run_code enter_call (hw_syscall lstar (run_code (user_stub num) m))"

definition kstack_of :: "machine \<Rightarrow> u64" where
  "kstack_of m = words m (kernel_gs_base m + 16)"

definition syscall_frame :: "nat \<Rightarrow> machine \<Rightarrow> trap_frame" where
  "syscall_frame num m = \<lparr>tf_rax = of_nat num, tf_rbx = regs m RBX, tf_rcx = 0, tf_rdx = 0, tf_rsi = 0, tf_rdi = 0, tf_rbp = regs m RBP,
     tf_r8 = 0, tf_r9 = 0, tf_r10 = 0, tf_r11 = 0, tf_r12 = regs m R12, tf_r13 = regs m R13, tf_r14 = regs m R14, tf_r15 = regs m R15,
     tf_ds = ucast (segs m DS), tf_es = ucast (segs m ES), tf_fs = ucast (segs m FS), tf_gs = ucast (segs m GS),
     tf_vector = 0, tf_error = 0, tf_rip = rip_reg m, tf_cs = ucast KTEXT_SEL, tf_rflags = flags_reg m, tf_rsp = regs m RSP, tf_ss = 0\<rparr>"

lemmas call_defs = called_def user_stub_def hw_syscall_def enter_call_def kstack_of_def

lemma called_regs:
  "regs (called lstar num m) RSP = kstack_of m - 224" "regs (called lstar num m) RDI = regs m RDI" "regs (called lstar num m) RSI = regs m RSI"
  "regs (called lstar num m) RDX = regs m RDX" "regs (called lstar num m) RCX = of_nat num"
  by (simp_all add: call_defs exec_defs sp_simps)

lemma called_frame: "frame_at (called lstar num m) (kstack_of m - 208) = syscall_frame num m"
  by (simp add: call_defs exec_defs sp_simps frame_at_def syscall_frame_def)

lemma called_gs: "gs_base (called lstar num m) = kernel_gs_base m" "kernel_gs_base (called lstar num m) = gs_base m"
    "segs (called lstar num m) = segs m"
  by (simp_all add: call_defs exec_defs sp_simps)

lemma syscallret_fields:
  assumes "regs h RSP = k - 208"
  defines "f \<equiv> frame_at h (k - 208)" and "t \<equiv> sysretq (run_code syscallret h)"
  shows "regs t r = (case r of RAX \<Rightarrow> regs h RAX | RCX \<Rightarrow> tf_rip f | R11 \<Rightarrow> tf_rflags f | R8 \<Rightarrow> 0 | r \<Rightarrow> frame_reg f r)"
    "segs t = (segs h)(DS := ucast (tf_ds f), ES := ucast (tf_es f), FS := ucast (tf_fs f))" "rip_reg t = tf_rip f" "flags_reg t = tf_rflags f"
    "gs_base t = kernel_gs_base h" "kernel_gs_base t = gs_base h" "words t = (words h)(gs_base h + 16 := k)"
  by (cases r; simp add: assms(1) t_def f_def exec_defs syscallret_def sysretq_def frame_at_def sp_simps)
    (simp_all add: assms(1) t_def f_def exec_defs syscallret_def sysretq_def frame_at_def sp_simps)

lemma return_syscallret:
  "run_code (enter_return @ syscallret) h = run_code syscallret ((set_arith (add_flags (regs h RSP) 16) h)\<lparr>regs := (regs h)(RSP := regs h RSP + 16)\<rparr>)"
  by (simp add: run_code_append) (simp add: run_code_def enter_return_def)

lemma return_fields:
  assumes "regs h RSP = k - 224"
  defines "f \<equiv> frame_at h (k - 208)" and "t \<equiv> sysretq (run_code (enter_return @ syscallret) h)"
  shows "regs t r = (case r of RAX \<Rightarrow> regs h RAX | RCX \<Rightarrow> tf_rip f | R11 \<Rightarrow> tf_rflags f | R8 \<Rightarrow> 0 | r \<Rightarrow> frame_reg f r)"
    "segs t = (segs h)(DS := ucast (tf_ds f), ES := ucast (tf_es f), FS := ucast (tf_fs f))" "rip_reg t = tf_rip f" "flags_reg t = tf_rflags f"
    "gs_base t = kernel_gs_base h" "kernel_gs_base t = gs_base h" "words t = (words h)(gs_base h + 16 := k)"
proof -
  let ?h = "(set_arith (add_flags (regs h RSP) 16) h)\<lparr>regs := (regs h)(RSP := regs h RSP + 16)\<rparr>"
  have rsp: "regs ?h RSP = k - 208" and frame: "frame_at ?h a = frame_at h a" for a
    using assms(1) by (simp_all add: sp_simps frame_at_def)
  note fields = syscallret_fields [OF rsp, unfolded frame, folded f_def]
  show "regs t r = (case r of RAX \<Rightarrow> regs h RAX | RCX \<Rightarrow> tf_rip f | R11 \<Rightarrow> tf_rflags f | R8 \<Rightarrow> 0 | r \<Rightarrow> frame_reg f r)"
    using fields(1) [of r] by (cases r) (simp_all add: t_def return_syscallret)
  show "segs t = (segs h)(DS := ucast (tf_ds f), ES := ucast (tf_es f), FS := ucast (tf_fs f))" "rip_reg t = tf_rip f" "flags_reg t = tf_rflags f"
    "gs_base t = kernel_gs_base h" "kernel_gs_base t = gs_base h" "words t = (words h)(gs_base h + 16 := k)"
    using fields(2-7) by (simp_all add: t_def return_syscallret)
qed

text \<open>
  C12: A system call. The stub of a user program and \<open>enter\<close> call \<open>syscall\<close> with the first three arguments of the user and the number of the
  call, on the kernel stack of the processor, 14 times 16 bytes below its top, with a frame of the user's state at the
  top. If the handler returns with the stack pointer and the frame as they were, and with the GS selector and the two GS bases as it found them (they
  are not taken from the frame), the user goes on after its stub with the result in the
  accumulator, its stack pointer, flags, callee-saved registers and segments. RDX, RSI, RDI, R8, R9 and R10 hold 0, and RCX and R11 hold the user's own
  return address and flags, from which \<open>sysretq\<close> takes them, so nothing of the kernel is left in a register; and the kernel stack of the processor is empty again.
\<close>
theorem syscall_transparent:
  assumes "regs h RSP = regs (called lstar num m) RSP" "frame_at h (kstack_of m - 208) = frame_at (called lstar num m) (kstack_of m - 208)"
    "gs_base h = gs_base (called lstar num m)" "kernel_gs_base h = kernel_gs_base (called lstar num m)" "segs h GS = segs m GS"
  shows "(regs (called lstar num m) RDI, regs (called lstar num m) RSI, regs (called lstar num m) RDX, regs (called lstar num m) RCX) =
      (regs m RDI, regs m RSI, regs m RDX, of_nat num) \<and>
    kstack_of m - regs (called lstar num m) RSP = 14 * 16 \<and>
    frame_at (called lstar num m) (kstack_of m - 208) = syscall_frame num m \<and>
    (let t = sysretq (run_code (enter_return @ syscallret) h) in
       regs t = (regs m)(RAX := regs h RAX, RCX := rip_reg m, R11 := flags_reg m, RDX := 0, RSI := 0, RDI := 0, R8 := 0, R9 := 0, R10 := 0) \<and>
       rip_reg t = rip_reg m \<and> flags_reg t = flags_reg m \<and> segs t = segs m \<and> gs_base t = gs_base m \<and>
       kernel_gs_base t = kernel_gs_base m \<and> kstack_of t = kstack_of m)"
proof -
  have rsp: "regs h RSP = kstack_of m - 224" using assms(1) by (simp add: called_regs)
  note f = assms(2) [unfolded called_frame] and ret = return_fields [OF rsp]
  let ?t = "sysretq (run_code (enter_return @ syscallret) h)"
  have "regs ?t r = ((regs m)(RAX := regs h RAX, RCX := rip_reg m, R11 := flags_reg m, RDX := 0, RSI := 0, RDI := 0, R8 := 0, R9 := 0, R10 := 0)) r" for r
    unfolding ret(1) f by (cases r) (simp_all add: syscall_frame_def)
  then have "regs ?t = (regs m)(RAX := regs h RAX, RCX := rip_reg m, R11 := flags_reg m, RDX := 0, RSI := 0, RDI := 0, R8 := 0, R9 := 0, R10 := 0)"
    by (rule ext)
  moreover have "segs ?t g = segs m g" for g unfolding ret(2) f using assms(5) by (cases g) (simp_all add: syscall_frame_def seg_word)
  moreover have "rip_reg ?t = rip_reg m" "flags_reg ?t = flags_reg m" unfolding ret(3,4) f by (simp_all add: syscall_frame_def)
  moreover have "gs_base ?t = gs_base m" "kernel_gs_base ?t = kernel_gs_base m" unfolding ret(5,6) using assms(3,4) by (simp_all add: called_gs)
  moreover have "kstack_of ?t = kstack_of m" unfolding kstack_of_def ret(6,7) using assms(3) by (simp add: called_gs kstack_of_def)
  ultimately show ?thesis by (simp add: called_regs called_frame Let_def fun_eq_iff)
qed

theorem syscall_transparent_witness:
  "let t = sysretq (run_code (enter_return @ syscallret) ((called 0x8000 5 user_machine)\<lparr>regs := (regs (called 0x8000 5 user_machine))(RAX := 16)\<rparr>)) in
     regs t RAX = 16 \<and> regs t RBX = 77 \<and> regs t RSP = 0x7FFFFFFFC000 \<and> rip_reg t = 0x1000"
  using syscall_transparent [of "(called 0x8000 5 user_machine)\<lparr>regs := (regs (called 0x8000 5 user_machine))(RAX := 16)\<rparr>" "0x8000" 5 user_machine]
  by (simp add: called_gs frame_at_def Let_def user_machine_def)

section \<open>Variable arguments\<close>

text \<open>The arguments after the second by the calling convention: four registers, then the caller's stack above the return address.\<close>

definition vararg :: "machine \<Rightarrow> nat \<Rightarrow> u64" where
  "vararg m n = (if n < 4 then regs m ([RDX, RCX, R8, R9] ! n) else words m (regs m RSP + 8 * of_nat (n - 3)))"

lemmas dprintf_defs = run_code_def slow_dprintf_def fast_dprintf_def slow_dprintf_return_def fast_dprintf_return_def pushv_def

lemma slow_va_list:
  "va_list_at (run_code slow_dprintf m) (regs (run_code slow_dprintf m) RDX) =
     \<lparr>gp_offset = 16, fp_offset = 48, overflow_arg_area = regs m RSP + 8, reg_save_area = regs m RSP - 56\<rparr>"
  by (simp add: dprintf_defs va_list_at_def sp_simps)

lemma halves:
  fixes w :: u64
  shows "ucast (((w AND 0xFFFFFFFF) OR push_bit 32 (ucast (h :: u32))) AND NOT 0xFFFFFFFF OR ucast (l :: u32)) = l"
    "ucast (drop_bit 32 (((w AND 0xFFFFFFFF) OR push_bit 32 (ucast (h :: u32))) AND NOT 0xFFFFFFFF OR ucast (l :: u32))) = h"
proof -
  have mask: "(0xFFFFFFFF :: u64) = mask 32" by (simp add: mask_eq_exp_minus_1)
  show "ucast (((w AND 0xFFFFFFFF) OR push_bit 32 (ucast h)) AND NOT 0xFFFFFFFF OR ucast l) = l"
    "ucast (drop_bit 32 (((w AND 0xFFFFFFFF) OR push_bit 32 (ucast h)) AND NOT 0xFFFFFFFF OR ucast l)) = h"
    unfolding mask by (rule bit_word_eqI; auto simp: bit_simps dest: bit_imp_le_length)+
qed

lemma fast_va_list:
  "va_list_at (run_code fast_dprintf m) (regs (run_code fast_dprintf m) RDX) =
     \<lparr>gp_offset = 16, fp_offset = 48, overflow_arg_area = regs m RSP + 8, reg_save_area = regs m RSP - 88\<rparr>"
  using halves [of "words m (regs m RSP - 40)" 48 16] by (simp add: dprintf_defs va_list_at_def sp_simps)

lemma va_nth_overflow:
  "gp_offset l \<ge> 48 \<Longrightarrow> va_nth w l n = w (overflow_arg_area l + 8 * of_nat n)"
proof (induction n arbitrary: l)
  case (Suc n)
  then show ?case using Suc.IH [of "snd (va_arg w l)"] by (simp add: va_arg_def not_less [symmetric] algebra_simps)
qed (simp add: va_arg_def not_less [symmetric])

lemma va_nth_spec:
  "va_nth w \<lparr>gp_offset = 16, fp_offset = f, overflow_arg_area = o', reg_save_area = s\<rparr> n =
     (if n < 4 then w (s + 16 + 8 * of_nat n) else w (o' + 8 * of_nat (n - 4)))"
proof (cases "n < 4")
  case True
  then have "n = 0 \<or> n = Suc 0 \<or> n = Suc (Suc 0) \<or> n = Suc (Suc (Suc 0))" by arith
  then show ?thesis by (elim disjE) (simp_all add: va_arg_def, simp_all add: add.commute)
next
  case False
  define k where "k = n - 4"
  have k: "n = Suc (Suc (Suc (Suc k)))" using False by (simp add: k_def)
  show ?thesis unfolding k by (simp add: va_arg_def va_nth_overflow)
qed

lemma above_stack:
  assumes "k < 2 ^ 32" "j < 2 ^ 32"
  shows "x + (8 + 8 * of_nat k) \<noteq> (x :: u64) - of_nat j"
proof
  assume "x + (8 + 8 * of_nat k) = (x :: u64) - of_nat j"
  then have "(of_nat (8 + 8 * k + j) :: u64) = 0" by (simp add: algebra_simps)
  then have "2 ^ 64 dvd 8 + 8 * k + j" by (simp only: word_of_nat_eq_0_iff) simp
  then have "2 ^ 64 \<le> 8 + 8 * k + j" by (rule dvd_imp_le) simp
  then show False using assms by simp
qed

lemmas above_stack_words = above_stack [where j = 8, simplified] above_stack [where j = 16, simplified] above_stack [where j = 24, simplified]
  above_stack [where j = 32, simplified] above_stack [where j = 40, simplified] above_stack [where j = 48, simplified] above_stack [where j = 56, simplified]
  above_stack [where j = 64, simplified] above_stack [where j = 72, simplified] above_stack [where j = 80, simplified] above_stack [where j = 88, simplified]

lemma dprintf_keeps_caller:
  assumes "k < 2 ^ 32"
  shows "words (run_code slow_dprintf m) (regs m RSP + (8 + 8 * of_nat k)) = words m (regs m RSP + (8 + 8 * of_nat k))"
    "words (run_code fast_dprintf m) (regs m RSP + (8 + 8 * of_nat k)) = words m (regs m RSP + (8 + 8 * of_nat k))"
  using above_stack_words [where k = k] assms by (simp_all add: dprintf_defs sp_simps)

lemma dprintf_saves:
  assumes "n < 4"
  shows "words (run_code slow_dprintf m) (regs m RSP - 56 + 16 + 8 * of_nat n) = vararg m n"
    "words (run_code fast_dprintf m) (regs m RSP - 88 + 16 + 8 * of_nat n) = vararg m n"
proof -
  have n: "n = 0 \<or> n = Suc 0 \<or> n = Suc (Suc 0) \<or> n = Suc (Suc (Suc 0))" using assms by arith
  show "words (run_code slow_dprintf m) (regs m RSP - 56 + 16 + 8 * of_nat n) = vararg m n"
    using n by (elim disjE) (simp_all add: dprintf_defs vararg_def sp_simps)
  show "words (run_code fast_dprintf m) (regs m RSP - 88 + 16 + 8 * of_nat n) = vararg m n"
    using n by (elim disjE) (simp_all add: dprintf_defs vararg_def sp_simps)
qed

lemma vararg_overflow: "\<not> n < 4 \<Longrightarrow> vararg m n = words m (regs m RSP + (8 + 8 * of_nat (n - 4)))"
proof -
  assume n: "\<not> n < 4"
  then have "n - 3 = Suc (n - 4)" by simp
  then show ?thesis using n by (simp add: vararg_def algebra_simps)
qed

text \<open>
  C35: \<open>dprintf\<close> hands its variable arguments on. In both versions the \<open>n\<close>-th argument that \<open>rvdprintf\<close> takes from the \<open>va_list\<close> in its third
  argument is the \<open>n\<close>-th argument after the format that the caller passed, whether it was in a register or on the
  stack; the descriptor and the format stay in the first two, and the stack is aligned for the call if it was for the caller's. When
  \<open>rvdprintf\<close> returns, with the frame pointer, the stack pointer and the saved frame pointer as they were, both restore
  the caller's frame pointer and leave its return address on top of the stack. So the two versions are equivalent.
\<close>
theorem dprintf_passes_arguments:
  assumes "n < 2 ^ 32" "(code, back) = (slow_dprintf, slow_dprintf_return) \<or> (code, back) = (fast_dprintf, fast_dprintf_return)"
    and "regs h RBP = regs (run_code code m) RBP" "regs h RSP = regs (run_code code m) RSP"
    and "words h (regs h RBP) = words (run_code code m) (regs h RBP)"
  shows "va_nth (words (run_code code m)) (va_list_at (run_code code m) (regs (run_code code m) RDX)) n = vararg m n \<and>
    regs (run_code code m) RDI = regs m RDI \<and> regs (run_code code m) RSI = regs m RSI \<and> regs m RSP + 8 - regs (run_code code m) RSP = 6 * 16 \<and>
    regs (run_code back h) RSP = regs m RSP \<and> regs (run_code back h) RBP = regs m RBP"
proof -
  have n4: "n - 4 < 2 ^ 32" using assms(1) by simp
  note keeps = dprintf_keeps_caller [OF n4, of m] and saves = dprintf_saves [of n m]
  have "va_nth (words (run_code code m)) (va_list_at (run_code code m) (regs (run_code code m) RDX)) n = vararg m n"
    using assms(2) keeps saves
    by (cases "n < 4") (auto simp: slow_va_list fast_va_list va_nth_spec vararg_overflow add.assoc)
  moreover have "regs (run_code code m) RDI = regs m RDI \<and> regs (run_code code m) RSI = regs m RSI \<and> regs m RSP + 8 - regs (run_code code m) RSP = 6 * 16"
    using assms(2) by (auto simp: dprintf_defs sp_simps)
  moreover have "regs (run_code back h) RSP = regs m RSP \<and> regs (run_code back h) RBP = regs m RBP"
    using assms(2-) by (auto simp: dprintf_defs sp_simps)
  ultimately show ?thesis by blast
qed

theorem dprintf_passes_arguments_witness:
  "va_nth (words (run_code slow_dprintf user_machine)) (va_list_at (run_code slow_dprintf user_machine) (regs (run_code slow_dprintf user_machine) RDX)) 0 = 16"
  using dprintf_passes_arguments [of 0 slow_dprintf slow_dprintf_return "run_code slow_dprintf user_machine" user_machine]
  by (simp add: vararg_def user_machine_def)

end
