(* ===== verification/Sleeplock.thy ===== *)
theory Sleeplock
  imports Prelude
begin

text \<open>
  Sleep locks (\<open>kernel/src/sleeplock.rs\<close>), the long-term locks of buffers and inodes. The inner
  spin lock makes each call atomic, so a call is one step on the lock's two fields; finding the
  lock held means going to sleep (\<open>Block\<close>) and trying again when woken.
\<close>

record sleeplock =
  sl_locked :: bool
  sl_pid :: u32

definition sleeplock_new :: sleeplock where
  "sleeplock_new = \<lparr>sl_locked = False, sl_pid = 0\<rparr>"

definition sl_holding :: "u32 \<Rightarrow> sleeplock \<Rightarrow> bool" where
  "sl_holding pid l \<longleftrightarrow> sl_pid l = pid"

definition sl_acquire :: "u32 \<Rightarrow> sleeplock \<Rightarrow> sleeplock res" where
  "sl_acquire pid l =
     (if sl_holding pid l then Panic ''nested sleep lock''
      else if sl_locked l then Block
      else Ok \<lparr>sl_locked = True, sl_pid = pid\<rparr>)"

definition sl_release :: "u32 \<Rightarrow> sleeplock \<Rightarrow> sleeplock res" where
  "sl_release pid l =
     (if \<not> sl_holding pid l then Panic ''unlocking unheld sleep lock''
      else Ok \<lparr>sl_locked = False, sl_pid = 0\<rparr>)"

definition sl_held :: "u32 \<Rightarrow> sleeplock" where
  "sl_held pid = \<lparr>sl_locked = True, sl_pid = pid\<rparr>"

section \<open>Lemmas\<close>

lemma sl_acquire_new [simp]: "pid \<noteq> 0 \<Longrightarrow> sl_acquire pid sleeplock_new = Ok (sl_held pid)"
  by (simp add: sl_acquire_def sl_holding_def sleeplock_new_def sl_held_def)

lemma sl_release_held [simp]: "sl_release pid (sl_held pid) = Ok sleeplock_new"
  by (simp add: sl_release_def sl_holding_def sleeplock_new_def sl_held_def)

lemma sl_holding_simps [simp]:
  "sl_holding pid (sl_held q) \<longleftrightarrow> q = pid" "sl_holding pid sleeplock_new \<longleftrightarrow> pid = 0"
  by (auto simp: sl_holding_def sl_held_def sleeplock_new_def)

lemma sl_held_neq_new [simp]: "sl_held p \<noteq> sleeplock_new" "sleeplock_new \<noteq> sl_held p"
  by (simp_all add: sl_held_def sleeplock_new_def)

end
