(* ===== verification/Kalloc.thy ===== *)
theory Kalloc
  imports Arch
begin

text \<open>
  Physical memory: the page allocator (\<open>kernel/src/kalloc.rs\<close>) and the memory map of
  \<open>kernel/src/kmem.rs\<close>. Pages live in an explicit store indexed by their virtual address; the free
  list is threaded through the first eight bytes of the free pages, as in the code, with the
  null pointer as \<open>None\<close>.
\<close>

section \<open>The free list\<close>

record pagemem =
  pages :: "usize \<Rightarrow> bytes"
  free_head :: usize

definition read_next :: "bytes \<Rightarrow> usize" where
  "read_next pg = of_nat (from_le (take 8 pg))"

definition write_next :: "bytes \<Rightarrow> usize \<Rightarrow> bytes" where
  "write_next pg nxt = overwrite pg 0 (to_le 8 (unat nxt))"

definition fl_put :: "usize \<Rightarrow> (pagemem, unit) kop" where
  "fl_put p = seqk (assertk (p mod 4096 = 0) ''freeing unaligned page'')
     (modify (\<lambda>s.
        let pg = page_scribble (pages s p);
            pg1 = write_next pg (free_head s)
        in s\<lparr>pages := (pages s)(p := pg1), free_head := p\<rparr>))"

definition fl_get :: "pagemem \<Rightarrow> usize option \<times> pagemem" where
  "fl_get s =
     (if free_head s = 0 then (None, s)
      else let p = free_head s;
               nxt = read_next (pages s p)
           in (Some p, s\<lparr>pages := (pages s)(p := page_clear (pages s p)), free_head := nxt\<rparr>))"

fun free_pages :: "usize list \<Rightarrow> (pagemem, unit) kop" where
  "free_pages [] = ret ()"
| "free_pages (p # ps) = seqk (fl_put p) (free_pages ps)"

definition kfree :: "usize \<Rightarrow> (pagemem, unit) kop" where
  "kfree p = fl_put p"

definition kalloc :: "pagemem \<Rightarrow> usize option \<times> pagemem" where
  "kalloc s = fl_get s"

text \<open>\<open>n\<close> calls of \<open>alloc\<close> in a row, as the boot code makes them.\<close>

fun kalloc_n :: "nat \<Rightarrow> pagemem \<Rightarrow> usize option list \<times> pagemem" where
  "kalloc_n 0 s = ([], s)"
| "kalloc_n (Suc n) s =
     (let (r, s1) = kalloc s; (rs, s2) = kalloc_n n s1 in (r # rs, s2))"

section \<open>Addresses and the memory map\<close>

abbreviation KERNBASE :: usize where "KERNBASE \<equiv> 0xFFFF800000000000"
abbreviation USERSTACK :: usize where "USERSTACK \<equiv> 0x00007FFFFFFFC000"
abbreviation USEREND :: usize where "USEREND \<equiv> 0x0000800000000000"

text \<open>
  The kernel sees physical memory in a window of 128 TiB at \<open>KERNBASE\<close>. The sum and the difference are checked in the code; on addresses of
  the window, as those of pages are, neither overflows. \<open>free_phys_range\<close>, which gets addresses from the boot loader, has the check.
\<close>

definition phys_to_addr :: "u64 \<Rightarrow> usize" where
  "phys_to_addr p = p + KERNBASE"

definition addr_to_phys :: "usize \<Rightarrow> u64" where
  "addr_to_phys a = a - KERNBASE"

datatype mem_type = Nothing | Memory | System | Reserved

record mem_map_entry =
  me_start :: u64
  me_end :: u64
  me_typ :: mem_type

definition mem_type_of :: "u32 \<Rightarrow> mem_type" where
  "mem_type_of t = (if t = 1 then Memory else if 2 \<le> t \<and> t \<le> 4 then System else Reserved)"

abbreviation ENTRY_SIZE :: nat where "ENTRY_SIZE \<equiv> 24"

text \<open>\<open>MemMapIterator::next\<close>: \<open>None\<close> at the end, otherwise the entry and the new offset.\<close>

definition mem_map_next :: "bytes \<Rightarrow> nat \<Rightarrow> (mem_map_entry \<times> nat) option res" where
  "mem_map_next region off =
     (if off \<ge> length region \<or> length region - off < ENTRY_SIZE then Ok None
      else let bs = slice region off (off + ENTRY_SIZE)
           in rbind (read_u32 (slice bs 0 4)) (\<lambda>size.
              rbind (read_u64 (slice bs 4 12)) (\<lambda>start.
              rbind (read_u64 (slice bs 12 20)) (\<lambda>len.
              rbind (read_u32 (slice bs 20 24)) (\<lambda>typ.
                if unat start + unat len \<ge> 2 ^ 64 then Panic ''attempt to add with overflow''
                else Ok (Some (\<lparr>me_start = start, me_end = start + len, me_typ = mem_type_of typ\<rparr>,
                               off + (unat size + 4))))))))"

text \<open>
  \<open>early_init\<close> iterates over the region the boot loader reports and stores the entries in the
  256-element array \<open>MEM_MAP\<close>.
\<close>

lemma mem_map_next_advances:
  "mem_map_next region off = Ok (Some (e, off')) \<Longrightarrow> off < off' \<and> off < length region"
  by (auto simp: mem_map_next_def Let_def rbind_Ok_iff split: if_splits)

function mem_map_collect :: "bytes \<Rightarrow> nat \<Rightarrow> mem_map_entry list \<Rightarrow> mem_map_entry list res" where
  "mem_map_collect region off acc =
     (case mem_map_next region off of
        Ok (Some (e, off')) \<Rightarrow>
          if length acc < 256 then mem_map_collect region off' (acc @ [e])
          else Panic ''index out of bounds''
      | Ok None \<Rightarrow> Ok acc
      | Err m \<Rightarrow> Err m
      | Panic m \<Rightarrow> Panic m
      | Block \<Rightarrow> Block
      | Diverge \<Rightarrow> Diverge)"
  by pat_completeness auto
termination
  by (relation "measure (\<lambda>(region, off, acc). length region - off)")
    (auto dest: mem_map_next_advances)

declare mem_map_collect.simps [simp del]

text \<open>\<open>page_slice_mut\<close>: the addresses of the pages of a range, with the code's three assertions.\<close>

definition page_slice_mut :: "usize \<Rightarrow> usize \<Rightarrow> usize list res" where
  "page_slice_mut pstart pend =
     (if pstart mod 4096 \<noteq> 0 then Panic ''page_slice_mut: unaligned start page''
      else if pend mod 4096 \<noteq> 0 then Panic ''page_slice_mut: unaligned end page''
      else if \<not> pstart < pend then Panic ''page_slice_mut: bad range''
      else Ok (map (\<lambda>k. pstart + of_nat (k * PAGE_SIZE)) [0..<unat (pend - pstart) div PAGE_SIZE]))"

abbreviation EARLY_FREE_END :: u64 where "EARLY_FREE_END \<equiv> 128 * 1024 * 1024"

definition free_phys_range :: "u64 \<Rightarrow> u64 \<Rightarrow> (pagemem, unit) kop" where
  "free_phys_range start fin =
     (if \<not> (unat start + unat KERNBASE < 2 ^ 64 \<and> unat fin + unat KERNBASE < 2 ^ 64) then panic ''attempt to add with overflow''
      else case page_slice_mut (phys_to_addr start) (phys_to_addr fin) of
        Ok ps \<Rightarrow> free_pages ps
      | Err m \<Rightarrow> throw m
      | Panic m \<Rightarrow> panic m
      | Block \<Rightarrow> panic ''block''
      | Diverge \<Rightarrow> panic ''diverge'')"

text \<open>\<open>kmem::init\<close>: free what the map calls memory above the early region, then low memory.\<close>

fun kmem_init_entries :: "mem_map_entry list \<Rightarrow> (pagemem, unit) kop" where
  "kmem_init_entries [] = ret ()"
| "kmem_init_entries (e # es) =
     (if me_typ e \<noteq> Memory \<or> me_end e < EARLY_FREE_END then kmem_init_entries es
      else seqk (free_phys_range (max (me_start e) EARLY_FREE_END) (me_end e)) (kmem_init_entries es))"

definition kmem_init :: "mem_map_entry list \<Rightarrow> (pagemem, unit) kop" where
  "kmem_init mem_map =
     seqk (kmem_init_entries mem_map)
       (seqk (free_phys_range 0x01000 0x07000) (free_phys_range 0x08000 0x80000))"

section \<open>The interface of a page allocator\<close>

locale page_allocator =
  fixes alloc :: "'s \<Rightarrow> usize option \<times> 's"
    and dealloc :: "usize \<Rightarrow> ('s, unit) kop"
    and avail :: "'s \<Rightarrow> usize list \<Rightarrow> bool"
    and content :: "'s \<Rightarrow> usize \<Rightarrow> bytes"
  assumes alloc_none: "avail s [] \<Longrightarrow> alloc s = (None, s)"
    and alloc_some: "avail s (p # ps) \<Longrightarrow> \<exists>t. alloc s = (Some p, t) \<and> avail t ps \<and>
          content t p = page_empty \<and> (\<forall>q. q \<noteq> p \<longrightarrow> content t q = content s q)"
    and dealloc_ok: "avail s ps \<Longrightarrow> p mod 4096 = 0 \<Longrightarrow> p \<noteq> 0 \<Longrightarrow> p \<notin> set ps \<Longrightarrow>
          \<exists>t. dealloc p s = (Ok (), t) \<and> avail t (p # ps) \<and>
            (\<forall>q. q \<noteq> p \<longrightarrow> content t q = content s q)"
    and avail_distinct: "avail s ps \<Longrightarrow> distinct ps"
begin

lemma alloc_fresh:
  assumes "avail s ps" "alloc s = (Some p, t)"
  shows "p \<in> set ps \<and> content t p = page_empty \<and> (\<exists>qs. avail t qs \<and> p \<notin> set qs \<and> set qs \<subseteq> set ps)"
proof (cases ps)
  case Nil
  with assms alloc_none show ?thesis by force
next
  case (Cons q qs)
  then obtain u where u: "alloc s = (Some q, u)" "avail u qs" "content u q = page_empty"
    using alloc_some assms(1) by blast
  then have "p = q" "t = u" using assms(2) by auto
  with u Cons avail_distinct [OF assms(1)] show ?thesis by auto
qed

lemma alloc_dealloc_inverse:
  assumes "avail s (p # ps)" "p mod 4096 = 0" "p \<noteq> 0"
  shows "\<exists>t u. alloc s = (Some p, t) \<and> dealloc p t = (Ok (), u) \<and> avail u (p # ps)"
proof -
  obtain t where t: "alloc s = (Some p, t)" "avail t ps" using alloc_some [OF assms(1)] by blast
  moreover have "p \<notin> set ps" using avail_distinct [OF assms(1)] by simp
  ultimately show ?thesis using dealloc_ok [of t ps p] assms(2,3) by blast
qed

end

section \<open>The free list implements the interface\<close>

text \<open>
  \<open>chain m a ps\<close>: following the next pointers from \<open>a\<close> visits exactly the pages \<open>ps\<close> and ends in
  the null pointer.
\<close>

fun chain :: "(usize \<Rightarrow> bytes) \<Rightarrow> usize \<Rightarrow> usize list \<Rightarrow> bool" where
  "chain m a [] \<longleftrightarrow> a = 0"
| "chain m a (p # ps) \<longleftrightarrow> a = p \<and> p \<noteq> 0 \<and> chain m (read_next (m p)) ps"

definition free_list :: "pagemem \<Rightarrow> usize list \<Rightarrow> bool" where
  "free_list s ps \<longleftrightarrow> chain (pages s) (free_head s) ps \<and> distinct ps \<and>
     (\<forall>p. length (pages s p) = PAGE_SIZE)"

lemma chain_upd: "p \<notin> set ps \<Longrightarrow> chain (m(p := pg)) a ps = chain m a ps"
  by (induction ps arbitrary: a) auto

lemma read_write_next: "8 \<le> length pg \<Longrightarrow> read_next (write_next pg n) = n"
  by (simp add: read_next_def write_next_def overwrite_def)

lemma length_write_next [simp]: "8 \<le> length pg \<Longrightarrow> length (write_next pg n) = length pg"
  by (simp add: write_next_def)

lemma length_page_scribble [simp]: "length (page_scribble pg) = length pg"
  by (simp add: page_scribble_def)

lemma fl_get_nil: "free_list s [] \<Longrightarrow> fl_get s = (None, s)"
  by (simp add: free_list_def fl_get_def)

lemma fl_get_cons:
  "free_list s (p # ps) \<Longrightarrow> \<exists>t. fl_get s = (Some p, t) \<and> free_list t ps \<and>
     pages t p = page_empty \<and> (\<forall>q. q \<noteq> p \<longrightarrow> pages t q = pages s q)"
  by (auto simp: free_list_def fl_get_def page_clear_def page_empty_def chain_upd Let_def)

lemma fl_put_ok:
  assumes "free_list s ps" "p mod 4096 = 0" "p \<noteq> 0" "p \<notin> set ps"
  shows "\<exists>t. fl_put p s = (Ok (), t) \<and> free_list t (p # ps) \<and> (\<forall>q. q \<noteq> p \<longrightarrow> pages t q = pages s q)"
  using assms
  by (auto simp: free_list_def fl_put_def kop_simps chain_upd read_write_next Let_def)

interpretation kpages: page_allocator kalloc kfree free_list pages
proof (unfold_locales, goal_cases)
  case (1 s)
  then show ?case by (simp add: kalloc_def fl_get_nil)
next
  case (2 s p ps)
  then show ?case by (simp add: kalloc_def fl_get_cons)
next
  case (3 s ps p)
  then show ?case by (simp add: kfree_def fl_put_ok)
next
  case (4 s ps)
  then show ?case by (simp add: free_list_def)
qed

lemma free_pages_ok:
  "free_list s qs \<Longrightarrow> distinct ps \<Longrightarrow> \<forall>p \<in> set ps. p mod 4096 = 0 \<and> p \<noteq> 0 \<and> p \<notin> set qs \<Longrightarrow>
   \<exists>t. free_pages ps s = (Ok (), t) \<and> free_list t (rev ps @ qs)"
proof (induction ps arbitrary: s qs)
  case Nil
  then show ?case by (simp add: ret_def)
next
  case (Cons p ps)
  then obtain t where t: "fl_put p s = (Ok (), t)" "free_list t (p # qs)"
    using fl_put_ok [of s qs p] by auto
  moreover obtain u where "free_pages ps t = (Ok (), u)" "free_list u (rev ps @ p # qs)"
    using Cons.IH [OF t(2)] Cons.prems by auto
  ultimately show ?case by (simp add: kop_simps)
qed

text \<open>Whatever is allocated in a row comes off the free list in order, without repetition.\<close>

lemma kalloc_n_spec:
  "free_list s ps \<Longrightarrow> n \<le> length ps \<Longrightarrow>
   \<exists>t. kalloc_n n s = (map Some (take n ps), t) \<and> free_list t (drop n ps) \<and>
     (\<forall>p \<in> set (take n ps). pages t p = page_empty) \<and>
     (\<forall>p. p \<notin> set (take n ps) \<longrightarrow> pages t p = pages s p)"
proof (induction n arbitrary: s ps)
  case 0
  then show ?case by simp
next
  case (Suc n)
  then obtain p qs where ps: "ps = p # qs" by (cases ps) auto
  then obtain t where t: "kalloc s = (Some p, t)" "free_list t qs" "pages t p = page_empty"
    "\<forall>q. q \<noteq> p \<longrightarrow> pages t q = pages s q"
    using kpages.alloc_some Suc.prems(1) by blast
  obtain u where u: "kalloc_n n t = (map Some (take n qs), u)" "free_list u (drop n qs)"
    "\<forall>p \<in> set (take n qs). pages u p = page_empty"
    "\<forall>p. p \<notin> set (take n qs) \<longrightarrow> pages u p = pages t p"
    using Suc.IH [OF t(2)] Suc.prems ps by auto
  have "p \<notin> set (take n qs)"
    using kpages.avail_distinct [OF Suc.prems(1)] ps by (auto dest: in_set_takeD)
  with t u ps show ?case by simp
qed

text \<open>
  C29: From a free list of \<open>n\<close> or more pages, \<open>n\<close> calls of the allocator hand out \<open>n\<close> different
  pages, every one of them zeroed, keep the rest on the list, and touch no other page; no page is
  handed out twice.
\<close>

theorem kalloc_n_distinct_zeroed:
  assumes "free_list s ps" "n \<le> length ps"
  shows "\<exists>got t. kalloc_n n s = (map Some got, t) \<and> length got = n \<and> distinct got \<and>
    (\<forall>p \<in> set got. pages t p = page_empty) \<and>
    (\<exists>rest. free_list t rest \<and> set got \<inter> set rest = {} \<and> set got \<union> set rest = set ps) \<and>
    (\<forall>p. p \<notin> set got \<longrightarrow> pages t p = pages s p)"
proof -
  obtain t where t: "kalloc_n n s = (map Some (take n ps), t)" "free_list t (drop n ps)"
    "\<forall>p \<in> set (take n ps). pages t p = page_empty"
    "\<forall>p. p \<notin> set (take n ps) \<longrightarrow> pages t p = pages s p"
    using kalloc_n_spec [OF assms] by blast
  have d: "distinct (take n ps @ drop n ps)" using kpages.avail_distinct [OF assms(1)] by simp
  have u: "set (take n ps) \<union> set (drop n ps) = set ps"
    by (metis append_take_drop_id set_append)
  have "\<exists>rest. free_list t rest \<and> set (take n ps) \<inter> set rest = {} \<and> set (take n ps) \<union> set rest = set ps"
    using t(2) u d by (intro exI [of _ "drop n ps"]) (simp only: distinct_append)
  moreover have "distinct (take n ps)" using d by simp
  ultimately show ?thesis
    using t assms(2) by (intro exI [of _ "take n ps"] exI [of _ t]) simp
qed

definition two_pages :: pagemem where
  "two_pages = \<lparr>pages = (\<lambda>p. if p = 0x2000 then write_next page_empty 0x1000 else page_empty), free_head = 0x2000\<rparr>"

lemma two_pages_free_list: "free_list two_pages [0x2000, 0x1000]"
  by (simp add: free_list_def two_pages_def read_write_next page_empty_def)
    (simp add: read_next_def eval_nat_numeral)

theorem kalloc_n_distinct_zeroed_witness:
  "\<exists>got t. kalloc_n 2 two_pages = (map Some got, t) \<and> length got = 2 \<and> distinct got"
  using kalloc_n_distinct_zeroed [OF two_pages_free_list, of 2] by auto

end
