(* ===== verification/Bio.thy ===== *)
theory Bio
  imports Sleeplock Kalloc
begin

text \<open>
  The buffer cache (\<open>kernel/src/bio.rs\<close>) over the storage device. The cache is the code's array of
  buffers with an index-linked list in order of use. \<open>sd::rdwr\<close> is the transfer it performs once
  the device has answered; the device is a map from blocks to their bytes, and every completed
  write is also recorded in order, so that a crash after any of them can be spoken of.
\<close>

section \<open>Buffers\<close>

abbreviation BSIZE :: nat where "BSIZE \<equiv> PAGE_SIZE"
abbreviation LIST_NONE :: nat where "LIST_NONE \<equiv> 18446744073709551615"
abbreviation MAXOPBLOCKS :: nat where "MAXOPBLOCKS \<equiv> 64"
abbreviation NBUF :: nat where "NBUF \<equiv> 512"

record buf_flags =
  VALID :: bool
  DIRTY :: bool

definition flags_empty :: buf_flags where
  "flags_empty = \<lparr>VALID = False, DIRTY = False\<rparr>"

definition flags_valid :: buf_flags where
  "flags_valid = \<lparr>VALID = True, DIRTY = False\<rparr>"

record buf =
  b_lock :: sleeplock
  b_flags :: buf_flags
  b_dev :: u32
  b_blockno :: u64
  b_ref_cnt :: u32
  b_self_ptr :: nat
  b_prev :: nat
  b_next :: nat
  b_qnext :: nat
  b_data :: bytes

definition buf_new :: buf where
  "buf_new = \<lparr>b_lock = sleeplock_new, b_flags = flags_empty, b_dev = 0, b_blockno = 0,
     b_ref_cnt = 0, b_self_ptr = LIST_NONE, b_prev = LIST_NONE, b_next = LIST_NONE,
     b_qnext = LIST_NONE, b_data = []\<rparr>"

type_synonym baddr = "u32 \<times> u64"

record bio_state =
  curpid :: u32
  bc_head :: nat
  bc_tail :: nat
  bufs :: "buf list"
  disk :: "baddr \<Rightarrow> bytes"
  wlog :: "(baddr \<times> bytes) list"

definition upd_buf :: "nat \<Rightarrow> (buf \<Rightarrow> buf) \<Rightarrow> 'a bio_state_scheme \<Rightarrow> 'a bio_state_scheme" where
  "upd_buf k f s = s\<lparr>bufs := (bufs s)[k := f (bufs s ! k)]\<rparr>"

definition buf_is_locked :: "nat \<Rightarrow> 'a bio_state_scheme \<Rightarrow> bool" where
  "buf_is_locked k s = sl_holding (curpid s) (b_lock (bufs s ! k))"

definition data_ref :: "nat \<Rightarrow> 'a bio_state_scheme \<Rightarrow> bytes" where
  "data_ref k s = b_data (bufs s ! k)"

text \<open>A store through \<open>data_mut\<close>: the buffer's page gets new contents.\<close>

definition set_data :: "nat \<Rightarrow> bytes \<Rightarrow> ('a bio_state_scheme, unit) kop" where
  "set_data k d = modify (upd_buf k (\<lambda>b. b\<lparr>b_data := d\<rparr>))"

definition set_flags_buf :: "nat \<Rightarrow> buf_flags \<Rightarrow> ('a bio_state_scheme, unit) kop" where
  "set_flags_buf k f = modify (upd_buf k (\<lambda>b. b\<lparr>b_flags := f\<rparr>))"

definition inc_ref :: "nat \<Rightarrow> ('a bio_state_scheme, unit) kop" where
  "inc_ref k s =
     (if b_ref_cnt (bufs s ! k) = -1 then (Panic ''attempt to add with overflow'', s)
      else (Ok (), upd_buf k (\<lambda>b. b\<lparr>b_ref_cnt := b_ref_cnt b + 1\<rparr>) s))"

definition dec_ref :: "nat \<Rightarrow> ('a bio_state_scheme, u32) kop" where
  "dec_ref k s =
     (if b_ref_cnt (bufs s ! k) = 0 then (Panic ''attempt to subtract with overflow'', s)
      else let s1 = upd_buf k (\<lambda>b. b\<lparr>b_ref_cnt := b_ref_cnt b - 1\<rparr>) s
           in (Ok (b_ref_cnt (bufs s1 ! k)), s1))"

section \<open>The device\<close>

text \<open>
  \<open>sd::rdwr\<close> with the \<open>start\<close> and \<open>interrupt\<close> of its request: a dirty buffer is written, any other is
  read, and the interrupt leaves it \<open>VALID\<close> and clean.
\<close>

definition rdwr :: "nat \<Rightarrow> ('a bio_state_scheme, unit) kop" where
  "rdwr k s =
     (let b = bufs s ! k; a = (b_dev b, b_blockno b)
      in if \<not> buf_is_locked k s then (Panic ''sd::rdwr: buf not locked'', s)
         else if b_flags b = flags_valid then (Panic ''sd::rdwr: nothing to do'', s)
         else if DIRTY (b_flags b)
         then (Ok (), (upd_buf k (\<lambda>b. b\<lparr>b_flags := flags_valid\<rparr>) s)
                 \<lparr>disk := (disk s)(a := b_data b), wlog := wlog s @ [(a, b_data b)]\<rparr>)
         else (Ok (), upd_buf k (\<lambda>b. b\<lparr>b_data := disk s a, b_flags := flags_valid\<rparr>) s))"

section \<open>The cache\<close>

text \<open>The two searches of \<open>bget\<close>, bounded by the number of buffers.\<close>

fun find_cached :: "nat \<Rightarrow> buf list \<Rightarrow> u32 \<Rightarrow> u64 \<Rightarrow> nat \<Rightarrow> nat option res" where
  "find_cached 0 bs dev blockno p = Diverge"
| "find_cached (Suc n) bs dev blockno p =
     (if p = LIST_NONE then Ok None
      else if p \<ge> length bs then Panic ''index out of bounds''
      else if b_dev (bs ! p) = dev \<and> b_blockno (bs ! p) = blockno then Ok (Some p)
      else find_cached n bs dev blockno (b_next (bs ! p)))"

fun find_victim :: "nat \<Rightarrow> buf list \<Rightarrow> nat \<Rightarrow> nat option res" where
  "find_victim 0 bs p = Diverge"
| "find_victim (Suc n) bs p =
     (if p = LIST_NONE then Ok None
      else if p \<ge> length bs then Panic ''index out of bounds''
      else if b_ref_cnt (bs ! p) = 0 \<and> \<not> DIRTY (b_flags (bs ! p)) then Ok (Some p)
      else find_victim n bs (b_prev (bs ! p)))"

definition acquire_buf :: "nat \<Rightarrow> ('a bio_state_scheme, unit) kop" where
  "acquire_buf k s =
     (case sl_acquire (curpid s) (b_lock (bufs s ! k)) of
        Ok l \<Rightarrow> (Ok (), upd_buf k (\<lambda>b. b\<lparr>b_lock := l\<rparr>) s)
      | Err e \<Rightarrow> (Err e, s) | Panic e \<Rightarrow> (Panic e, s) | Block \<Rightarrow> (Block, s) | Diverge \<Rightarrow> (Diverge, s))"

definition bget :: "u32 \<Rightarrow> u64 \<Rightarrow> ('a bio_state_scheme, nat) kop" where
  "bget dev blockno =
     bnd (bnd (lift_res (\<lambda>s. find_cached (Suc (length (bufs s))) (bufs s) dev blockno (bc_head s)))
       (\<lambda>r. case r of
          Some p \<Rightarrow> seqk (inc_ref p) (ret p)
        | None \<Rightarrow>
            bnd (lift_res (\<lambda>s. find_victim (Suc (length (bufs s))) (bufs s) (bc_tail s)))
              (\<lambda>r. case r of
                 Some p \<Rightarrow>
                   seqk (modify (upd_buf p (\<lambda>b. b\<lparr>b_dev := dev, b_blockno := blockno\<rparr>)))
                     (seqk (inc_ref p)
                       (seqk (set_flags_buf p flags_empty) (ret p)))
               | None \<Rightarrow> throw ''bget: no buffers'')))
     (\<lambda>p. seqk (acquire_buf p) (ret p))"

definition buf_read :: "nat \<Rightarrow> ('a bio_state_scheme, unit) kop" where
  "buf_read k s = (if \<not> VALID (b_flags (bufs s ! k)) then rdwr k s else (Ok (), s))"

definition bread :: "u32 \<Rightarrow> u64 \<Rightarrow> ('a bio_state_scheme, nat) kop" where
  "bread dev blockno = bnd (bget dev blockno) (\<lambda>k. seqk (buf_read k) (ret k))"

definition buf_write :: "nat \<Rightarrow> ('a bio_state_scheme, unit) kop" where
  "buf_write k s =
     (if \<not> buf_is_locked k s then (Panic ''assertion failed: self.is_locked()'', s)
      else rdwr k (upd_buf k (\<lambda>b. b\<lparr>b_flags := (b_flags b)\<lparr>DIRTY := True\<rparr>\<rparr>) s))"

text \<open>The list surgery of \<open>relse\<close>: the buffer moves to the head of the list.\<close>

definition move_to_front :: "nat \<Rightarrow> ('a bio_state_scheme, unit) kop" where
  "move_to_front k s =
     (let m = bufs s ! k; me = b_self_ptr m; pr = b_prev m; nx = b_next m; hd = bc_head s;
          len = length (bufs s)
      in if hd = me then (Ok (), s)
         else if (nx \<noteq> LIST_NONE \<and> nx \<ge> len) \<or> (pr \<noteq> LIST_NONE \<and> pr \<ge> len) \<or> hd \<ge> len
         then (Panic ''index out of bounds'', s)
         else
           let s1 = (if bc_tail s = me then s\<lparr>bc_tail := pr\<rparr> else s);
               s2 = (if nx \<noteq> LIST_NONE then upd_buf nx (\<lambda>b. b\<lparr>b_prev := pr\<rparr>) s1 else s1);
               s3 = (if pr \<noteq> LIST_NONE then upd_buf pr (\<lambda>b. b\<lparr>b_next := nx\<rparr>) s2 else s2);
               s4 = upd_buf k (\<lambda>b. b\<lparr>b_prev := LIST_NONE, b_next := b_self_ptr (bufs s3 ! hd)\<rparr>) s3;
               s5 = upd_buf hd (\<lambda>b. b\<lparr>b_prev := me\<rparr>) s4
           in (Ok (), s5\<lparr>bc_head := me\<rparr>))"

definition relse :: "nat \<Rightarrow> ('a bio_state_scheme, unit) kop" where
  "relse k s =
     (case sl_release (curpid s) (b_lock (bufs s ! k)) of
        Ok l \<Rightarrow>
          bnd (dec_ref k) (\<lambda>r. if r = 0 then move_to_front k else ret ())
            (upd_buf k (\<lambda>b. b\<lparr>b_lock := l\<rparr>) s)
      | Err e \<Rightarrow> (Err e, s) | Panic e \<Rightarrow> (Panic e, s) | Block \<Rightarrow> (Block, s) | Diverge \<Rightarrow> (Diverge, s))"

text \<open>
  \<open>with_block\<close> releases the buffer whatever the closure computes; a closure that returns a
  \<open>Result\<close> has its error handed on after the release.
\<close>

definition with_block :: "u32 \<Rightarrow> u64 \<Rightarrow> (nat \<Rightarrow> ('a bio_state_scheme, 'r) kop) \<Rightarrow>
    ('a bio_state_scheme, 'r) kop" where
  "with_block dev blockno thunk =
     bnd (bread dev blockno) (\<lambda>k.
       catchk (thunk k) (\<lambda>r. seqk (relse k) (ret r)) (\<lambda>e. seqk (relse k) (throw e)))"

text \<open>
  \<open>bio::init\<close>: link the buffers in index order and give each a page from \<open>kalloc::alloc\<close>, whose state is
  the first half of the pair; the loop panics when no page is left.
\<close>

definition init_buf :: "nat \<Rightarrow> nat \<Rightarrow> bytes \<Rightarrow> buf" where
  "init_buf len k data = buf_new\<lparr>b_next := (if k + 1 < len then k + 1 else LIST_NONE), b_self_ptr := k,
     b_prev := (if k > 0 then k - 1 else LIST_NONE), b_data := data\<rparr>"

fun init_bufs :: "nat \<Rightarrow> nat list \<Rightarrow> (pagemem, buf list) kop" where
  "init_bufs len [] = ret []"
| "init_bufs len (k # ks) = (\<lambda>mem. case kalloc mem of
     (None, mem1) \<Rightarrow> (Panic ''buffer data alloc failed'', mem1)
   | (Some pg, mem1) \<Rightarrow>
       bnd (init_bufs len ks) (\<lambda>bs. ret (init_buf len k (pages mem1 pg) # bs)) mem1)"

definition bio_init :: "nat \<Rightarrow> (pagemem \<times> 'a bio_state_scheme, unit) kop" where
  "bio_init len =
     seqk (assertk (len > 1) ''insufficient number of buffers'')
       (\<lambda>(mem, s). case init_bufs len [0..<len] mem of
          (Ok bs, mem1) \<Rightarrow> (Ok (), (mem1, s\<lparr>bufs := bs, bc_head := 0, bc_tail := len - 1\<rparr>))
        | (Panic e, mem1) \<Rightarrow> (Panic e, (mem1, s))
        | (_, mem1) \<Rightarrow> (Panic ''unreachable'', (mem1, s)))"

section \<open>The device queue\<close>

text \<open>Following \<open>qnext\<close> to the end of the queue, as \<open>enqueue\<close> does, bounded by the buffer count.\<close>

fun queue_last :: "nat \<Rightarrow> buf list \<Rightarrow> nat \<Rightarrow> nat res" where
  "queue_last 0 bs p = Diverge"
| "queue_last (Suc n) bs p =
     (if b_qnext (bs ! p) = LIST_NONE then Ok p
      else if b_qnext (bs ! p) \<ge> length bs then Panic ''index out of bounds''
      else queue_last n bs (b_qnext (bs ! p)))"

definition enqueue :: "nat option \<Rightarrow> nat \<Rightarrow> buf list \<Rightarrow> (nat option \<times> buf list) res" where
  "enqueue head k bs =
     (let bs1 = bs[k := (bs ! k)\<lparr>b_qnext := LIST_NONE\<rparr>]
      in case head of
           None \<Rightarrow> Ok (Some k, bs1)
         | Some h \<Rightarrow>
             let bi = b_self_ptr (bs1 ! k)
             in rbind (queue_last (Suc (length bs1)) bs1 h)
                  (\<lambda>l. Ok (Some h, bs1[l := (bs1 ! l)\<lparr>b_qnext := bi\<rparr>])))"

definition dequeue :: "nat option \<Rightarrow> buf list \<Rightarrow> (nat \<times> nat option) option res" where
  "dequeue head bs =
     (case head of
        None \<Rightarrow> Ok None
      | Some h \<Rightarrow>
          let ni = b_qnext (bs ! h)
          in if ni \<noteq> LIST_NONE \<and> ni \<ge> length bs then Panic ''index out of bounds''
             else Ok (Some (h, if ni \<noteq> LIST_NONE then Some ni else None)))"

section \<open>The list of buffers\<close>

text \<open>\<open>links bs h t xs\<close>: the links of the buffers form the list \<open>xs\<close> of all indices, from \<open>h\<close> to \<open>t\<close>.\<close>

definition links :: "buf list \<Rightarrow> nat \<Rightarrow> nat \<Rightarrow> nat list \<Rightarrow> bool" where
  "links bs h t xs \<longleftrightarrow> 0 < length xs \<and> distinct xs \<and> set xs = {..<length bs} \<and> length bs < LIST_NONE \<and>
     h = xs ! 0 \<and> t = xs ! (length xs - 1) \<and>
     (\<forall>i < length xs. b_self_ptr (bs ! (xs ! i)) = xs ! i \<and>
        b_prev (bs ! (xs ! i)) = (if i = 0 then LIST_NONE else xs ! (i - 1)) \<and>
        b_next (bs ! (xs ! i)) = (if Suc i < length xs then xs ! Suc i else LIST_NONE))"

lemma linksD:
  assumes "links bs h t xs" "i < length xs"
  shows "xs ! i < length bs" "xs ! i \<noteq> LIST_NONE" "b_self_ptr (bs ! (xs ! i)) = xs ! i"
    "b_prev (bs ! (xs ! i)) = (if i = 0 then LIST_NONE else xs ! (i - 1))"
    "b_next (bs ! (xs ! i)) = (if Suc i < length xs then xs ! Suc i else LIST_NONE)"
proof -
  have "xs ! i \<in> set xs" using assms(2) by simp
  then show "xs ! i < length bs" using assms(1) by (auto simp: links_def)
  then show "xs ! i \<noteq> LIST_NONE" using assms(1) by (auto simp: links_def)
qed (use assms in \<open>unfold links_def, blast+\<close>)

lemma links_length: "links bs h t xs \<Longrightarrow> length xs = length bs"
  unfolding links_def by (metis card_lessThan distinct_card)

lemma find_cached_from:
  assumes "links bs h t xs"
  shows "i \<le> length xs \<Longrightarrow> length xs - i < n \<Longrightarrow>
    find_cached n bs dev b (if i < length xs then xs ! i else LIST_NONE) =
      Ok (find (\<lambda>k. b_dev (bs ! k) = dev \<and> b_blockno (bs ! k) = b) (drop i xs))"
proof (induction n arbitrary: i)
  case 0
  then show ?case by simp
next
  case (Suc n)
  show ?case
  proof (cases "i < length xs")
    case True
    then have "drop i xs = xs ! i # drop (Suc i) xs" by (simp add: Cons_nth_drop_Suc)
    then show ?thesis
      using Suc.IH [of "Suc i"] Suc.prems linksD [OF assms True] True
      by (auto simp: not_le split: if_splits)
  next
    case False
    then show ?thesis using Suc.prems by simp
  qed
qed

lemma find_victim_from:
  assumes "links bs h t xs"
  shows "i \<le> length xs \<Longrightarrow> i < n \<Longrightarrow>
    find_victim n bs (if i = 0 then LIST_NONE else xs ! (i - 1)) =
      Ok (find (\<lambda>k. b_ref_cnt (bs ! k) = 0 \<and> \<not> DIRTY (b_flags (bs ! k))) (rev (take i xs)))"
proof (induction n arbitrary: i)
  case 0
  then show ?case by simp
next
  case (Suc n)
  show ?case
  proof (cases i)
    case 0
    then show ?thesis by simp
  next
    case (Suc j)
    then have j: "j < length xs" using Suc.prems by simp
    then have "rev (take i xs) = xs ! j # rev (take j xs)" by (simp add: Suc take_Suc_conv_app_nth)
    then show ?thesis
      using Suc.IH [of j] Suc.prems linksD [OF assms j] Suc
      by (auto simp: not_le split: if_splits)
  qed
qed

lemma links_ends:
  assumes "links bs h t xs"
  shows "0 < length xs" "h = xs ! 0" "t = xs ! (length xs - 1)" "distinct xs" "set xs = {..<length bs}"
    "length bs < LIST_NONE"
  using assms unfolding links_def by blast+

lemma find_cached_links:
  assumes "links bs h t xs"
  shows "find_cached (Suc (length bs)) bs dev b h =
     Ok (find (\<lambda>k. b_dev (bs ! k) = dev \<and> b_blockno (bs ! k) = b) xs)"
  using find_cached_from [OF assms, of 0 "Suc (length bs)" dev b] links_length [OF assms]
    links_ends(1,2) [OF assms]
  by (simp del: find_cached.simps)

lemma find_victim_links:
  assumes "links bs h t xs"
  shows "find_victim (Suc (length bs)) bs t =
     Ok (find (\<lambda>k. b_ref_cnt (bs ! k) = 0 \<and> \<not> DIRTY (b_flags (bs ! k))) (rev xs))"
  using find_victim_from [OF assms, of "length xs" "Suc (length bs)"] links_length [OF assms]
    links_ends(1,3) [OF assms]
  by (simp del: find_victim.simps)

lemma links_cong:
  assumes "links bs h t xs" "length cs = length bs"
    "\<And>k. k < length bs \<Longrightarrow> b_self_ptr (cs ! k) = b_self_ptr (bs ! k) \<and> b_prev (cs ! k) = b_prev (bs ! k) \<and>
       b_next (cs ! k) = b_next (bs ! k)"
  shows "links cs h t xs"
  using assms(1,2) assms(3) [OF linksD(1) [OF assms(1)]] unfolding links_def by simp

lemma links_upd_buf:
  assumes "links (bufs s) h t xs"
    "\<And>b. b_self_ptr (f b) = b_self_ptr b \<and> b_prev (f b) = b_prev b \<and> b_next (f b) = b_next b"
  shows "links (bufs (upd_buf k f s)) h t xs"
  by (rule links_cong [OF assms(1)])
    (cases "k < length (bufs s)"; simp add: upd_buf_def nth_list_update assms(2))+

text \<open>The effect of the list surgery on the order.\<close>

definition to_front :: "nat \<Rightarrow> nat list \<Rightarrow> nat list" where
  "to_front i xs = xs ! i # take i xs @ drop (Suc i) xs"

lemma nth_to_front:
  "i < length xs \<Longrightarrow> j < length xs \<Longrightarrow>
   to_front i xs ! j = (if j = 0 then xs ! i else if j \<le> i then xs ! (j - 1) else xs ! j)"
  by (auto simp: to_front_def nth_Cons' nth_append)

lemma to_front_0: "to_front i xs ! 0 = xs ! i"
  by (simp add: to_front_def)

lemma length_to_front [simp]: "i < length xs \<Longrightarrow> length (to_front i xs) = length xs"
  by (simp add: to_front_def)

lemma set_to_front:
  assumes "i < length xs" "distinct xs"
  shows "distinct (to_front i xs)" "set (to_front i xs) = set xs"
proof -
  have "xs = take i xs @ xs ! i # drop (Suc i) xs" using assms(1) by (simp add: id_take_nth_drop)
  then have "distinct (take i xs @ xs ! i # drop (Suc i) xs)"
    and s: "set xs = set (take i xs @ xs ! i # drop (Suc i) xs)" using assms(2) by simp_all
  then show "distinct (to_front i xs)" by (auto simp: to_front_def)
  show "set (to_front i xs) = set xs" unfolding s to_front_def by auto
qed

text \<open>The buffers after the surgery; an update at \<open>LIST_NONE\<close> has no effect.\<close>

definition relink :: "nat \<Rightarrow> nat \<Rightarrow> nat \<Rightarrow> nat \<Rightarrow> buf list \<Rightarrow> buf list" where
  "relink k pr nx h0 bs =
     (let b1 = bs[nx := (bs ! nx)\<lparr>b_prev := pr\<rparr>];
          b2 = b1[pr := (b1 ! pr)\<lparr>b_next := nx\<rparr>];
          b3 = b2[k := (b2 ! k)\<lparr>b_prev := LIST_NONE, b_next := h0\<rparr>]
      in b3[h0 := (b3 ! h0)\<lparr>b_prev := k\<rparr>])"

lemma length_relink [simp]: "length (relink k pr nx h0 bs) = length bs"
  by (simp add: relink_def Let_def)

lemma nth_upd_rec:
  "y < length bs \<Longrightarrow> bs[a := v] ! y = (if y = a then v else bs ! y)"
  by (simp add: nth_list_update)

lemma relink_fields:
  assumes "y < length bs" "k < length bs" "pr < length bs" "h0 < length bs"
    "h0 \<noteq> k" "pr \<noteq> k" "nx \<noteq> k" "nx \<noteq> h0" "nx \<noteq> pr"
  shows "b_prev (relink k pr nx h0 bs ! y) =
      (if y = h0 then k else if y = k then LIST_NONE else if y = nx then pr else b_prev (bs ! y))"
    "b_next (relink k pr nx h0 bs ! y) =
      (if y = k then h0 else if y = pr then nx else b_next (bs ! y))"
    "b_self_ptr (relink k pr nx h0 bs ! y) = b_self_ptr (bs ! y)"
    "b_lock (relink k pr nx h0 bs ! y) = b_lock (bs ! y)"
    "b_flags (relink k pr nx h0 bs ! y) = b_flags (bs ! y)"
    "b_dev (relink k pr nx h0 bs ! y) = b_dev (bs ! y)"
    "b_blockno (relink k pr nx h0 bs ! y) = b_blockno (bs ! y)"
    "b_ref_cnt (relink k pr nx h0 bs ! y) = b_ref_cnt (bs ! y)"
    "b_data (relink k pr nx h0 bs ! y) = b_data (bs ! y)"
  using assms by (simp_all add: relink_def Let_def nth_upd_rec)

lemma self_upd:
  "b_self_ptr (bs[j := (bs ! j)\<lparr>b_next := v\<rparr>] ! y) = b_self_ptr (bs ! y)"
  "b_self_ptr (bs[j := (bs ! j)\<lparr>b_prev := v\<rparr>] ! y) = b_self_ptr (bs ! y)"
  by (cases "j < length bs"; cases "y = j"; simp add: list_update_beyond)+

lemma move_to_front_relink:
  assumes "bc_head s \<noteq> k" "b_self_ptr (bufs s ! k) = k" "b_self_ptr (bufs s ! bc_head s) = bc_head s"
    "bc_head s < length (bufs s)" "b_prev (bufs s ! k) < length (bufs s)"
    "b_next (bufs s ! k) = LIST_NONE \<or> b_next (bufs s ! k) < length (bufs s)" "length (bufs s) < LIST_NONE"
  shows "move_to_front k s = (Ok (), s\<lparr>bufs := relink k (b_prev (bufs s ! k)) (b_next (bufs s ! k)) (bc_head s) (bufs s),
     bc_head := k, bc_tail := (if bc_tail s = k then b_prev (bufs s ! k) else bc_tail s)\<rparr>)"
  using assms
  by (cases "b_next (bufs s ! k) = LIST_NONE"; cases "bc_tail s = k")
    (simp_all add: move_to_front_def relink_def upd_buf_def Let_def self_upd list_update_beyond)

lemma relink_along:
  assumes L: "links bs head tail xs" and i: "0 < i" "i < length xs" and m: "m < length xs"
  defines "pr \<equiv> xs ! (i - 1)" and "nx \<equiv> (if Suc i < length xs then xs ! Suc i else LIST_NONE)"
  shows "b_prev (relink (xs ! i) pr nx (xs ! 0) bs ! (xs ! m)) =
        (if m = 0 then xs ! i else if m = i then LIST_NONE else if m = Suc i then pr else xs ! (m - 1))"
      "b_next (relink (xs ! i) pr nx (xs ! 0) bs ! (xs ! m)) =
        (if m = i then xs ! 0 else if m = i - 1 then nx else if Suc m < length xs then xs ! Suc m else LIST_NONE)"
      "b_self_ptr (relink (xs ! i) pr nx (xs ! 0) bs ! (xs ! m)) = xs ! m"
proof -
  note E = links_ends [OF L] and D = linksD [OF L]
  have inj: "xs ! a = xs ! b \<longleftrightarrow> a = b" if "a < length xs" "b < length xs" for a b
    using E(4) that by (simp add: nth_eq_iff_index_eq)
  have nx: "nx \<noteq> xs ! i" "nx \<noteq> xs ! 0" "nx \<noteq> pr" "xs ! m = nx \<longleftrightarrow> m = Suc i"
    using D(2) [OF i(2)] D(2) [OF E(1)] D(2) [of "i - 1"] D(2) [OF m] i m inj [of "Suc i" i]
      inj [OF _ E(1), of "Suc i"] inj [of "Suc i" "i - 1"] inj [of m "Suc i"]
    by (auto simp: nx_def pr_def)
  note rf = relink_fields [OF D(1) [OF m] D(1) [OF i(2)], of pr "xs ! 0" nx]
  show "b_prev (relink (xs ! i) pr nx (xs ! 0) bs ! (xs ! m)) =
        (if m = 0 then xs ! i else if m = i then LIST_NONE else if m = Suc i then pr else xs ! (m - 1))"
      "b_next (relink (xs ! i) pr nx (xs ! 0) bs ! (xs ! m)) =
        (if m = i then xs ! 0 else if m = i - 1 then nx else if Suc m < length xs then xs ! Suc m else LIST_NONE)"
      "b_self_ptr (relink (xs ! i) pr nx (xs ! 0) bs ! (xs ! m)) = xs ! m"
    using rf nx D(1) [OF E(1)] D(1) [of "i - 1"] D(3-5) [OF m] inj [OF m i(2)] inj [OF m E(1)]
      inj [OF E(1) i(2)] inj [of m "i - 1"] inj [of "i - 1" i] i m
    by (simp_all add: pr_def)
qed

lemma move_to_front_links:
  assumes L: "links (bufs s) (bc_head s) (bc_tail s) xs" and i: "0 < i" "i < length xs"
  defines "pr \<equiv> xs ! (i - 1)" and "nx \<equiv> (if Suc i < length xs then xs ! Suc i else LIST_NONE)"
  shows "move_to_front (xs ! i) s = (Ok (), s\<lparr>bufs := relink (xs ! i) pr nx (xs ! 0) (bufs s),
      bc_head := xs ! i, bc_tail := (if Suc i = length xs then pr else bc_tail s)\<rparr>)"
    "links (relink (xs ! i) pr nx (xs ! 0) (bufs s)) (xs ! i)
      (if Suc i = length xs then pr else bc_tail s) (to_front i xs)"
proof -
  note E = links_ends [OF L] and D = linksD [OF L]
  have inj: "xs ! a = xs ! b \<longleftrightarrow> a = b" if "a < length xs" "b < length xs" for a b
    using E(4) that by (simp add: nth_eq_iff_index_eq)
  have tl: "bc_tail s = xs ! i \<longleftrightarrow> Suc i = length xs"
    using E(1,3) inj [of "length xs - 1" i] i by auto
  have "bc_head s \<noteq> xs ! i" using E(1,2) inj [of 0 i] i by simp
  then show "move_to_front (xs ! i) s = (Ok (), s\<lparr>bufs := relink (xs ! i) pr nx (xs ! 0) (bufs s),
      bc_head := xs ! i, bc_tail := (if Suc i = length xs then pr else bc_tail s)\<rparr>)"
    using move_to_front_relink [of s "xs ! i"] D [OF i(2)] D(1,3) [OF E(1)] D(1) [of "i - 1"]
      D(1) [of "Suc i"] E(2,6) i tl
    by (auto simp: pr_def nx_def)
  note F = relink_along [OF L i, folded pr_def nx_def]
  have "links (relink (xs ! i) pr nx (xs ! 0) (bufs s)) (to_front i xs ! 0)
      (to_front i xs ! (length xs - 1)) (to_front i xs)"
    unfolding links_def
  proof (intro conjI allI impI)
    fix j assume "j < length (to_front i xs)"
    then have j: "j < length xs" using i by simp
    have n: "to_front i xs ! j = (if j = 0 then xs ! i else if j \<le> i then xs ! (j - 1) else xs ! j)"
      "Suc j < length xs \<Longrightarrow> to_front i xs ! Suc j = (if j < i then xs ! j else xs ! Suc j)"
      using i j by (auto simp: nth_to_front Suc_le_eq)
    show "b_self_ptr (relink (xs ! i) pr nx (xs ! 0) (bufs s) ! (to_front i xs ! j)) = to_front i xs ! j"
      using F(3) i j by (simp add: n(1))
    show "b_prev (relink (xs ! i) pr nx (xs ! 0) (bufs s) ! (to_front i xs ! j)) =
        (if j = 0 then LIST_NONE else to_front i xs ! (j - 1))"
      using F(1) [of i] F(1) [of "j - 1"] F(1) [of j] i j
      by (cases j; cases "j = Suc i"; auto simp: nth_to_front pr_def)
    show "b_next (relink (xs ! i) pr nx (xs ! 0) (bufs s) ! (to_front i xs ! j)) =
        (if Suc j < length (to_front i xs) then to_front i xs ! Suc j else LIST_NONE)"
      using F(2) [of i] F(2) [of "j - 1"] F(2) [of j] i j
      by (auto simp: n nx_def)
  qed (use E i set_to_front [OF i(2) E(4)] in simp_all)
  moreover have "(if Suc i = length xs then pr else bc_tail s) = to_front i xs ! (length xs - 1)"
    using E(3) i by (cases "length xs = Suc i") (auto simp: nth_to_front pr_def)
  ultimately show "links (relink (xs ! i) pr nx (xs ! 0) (bufs s)) (xs ! i)
      (if Suc i = length xs then pr else bc_tail s) (to_front i xs)"
    by (simp only: to_front_0)
qed

end
