(* ===== verification/BioInv.thy ===== *)
theory BioInv
  imports Bio
begin

text \<open>
  The buffer cache keeps its promises: the invariant of the cache, the contents of a block as its
  users see them (\<open>bview\<close>), and what reading, changing, writing and releasing a buffer do to both.
\<close>

section \<open>The invariant of the cache\<close>

text \<open>
  \<open>binv s H\<close>: the state between the calls of a process that holds the buffers \<open>H\<close> and no other
  process using the cache. The list is well linked, no block of a real device (device numbers start
  at 1) is cached twice, a cached block is valid, a held buffer is locked by the process with one
  reference, and a buffer that is neither held nor dirty agrees with the device.
\<close>

definition buf_addr :: "buf \<Rightarrow> baddr" where
  "buf_addr b = (b_dev b, b_blockno b)"

definition buf_ok :: "u32 \<Rightarrow> (baddr \<Rightarrow> bytes) \<Rightarrow> bool \<Rightarrow> buf \<Rightarrow> bool" where
  "buf_ok pid dk held b \<longleftrightarrow>
     length (b_data b) = BSIZE \<and> (b_dev b \<noteq> 0 \<longrightarrow> VALID (b_flags b)) \<and>
     (DIRTY (b_flags b) \<longrightarrow> VALID (b_flags b) \<and> b_dev b \<noteq> 0) \<and>
     b_lock b = (if held then sl_held pid else sleeplock_new) \<and>
     b_ref_cnt b = (if held then 1 else 0) \<and> (held \<longrightarrow> b_dev b \<noteq> 0) \<and>
     (\<not> held \<longrightarrow> \<not> DIRTY (b_flags b) \<longrightarrow> b_dev b \<noteq> 0 \<longrightarrow> b_data b = dk (buf_addr b))"

definition lru :: "'a bio_state_scheme \<Rightarrow> nat list \<Rightarrow> bool" where
  "lru s xs \<longleftrightarrow> links (bufs s) (bc_head s) (bc_tail s) xs"

definition binv :: "'a bio_state_scheme \<Rightarrow> nat set \<Rightarrow> bool" where
  "binv s H \<longleftrightarrow> (\<exists>xs. lru s xs) \<and> H \<subseteq> {..<length (bufs s)} \<and> curpid s \<noteq> 0 \<and>
     (\<forall>a. length (disk s a) = BSIZE) \<and>
     (\<forall>k < length (bufs s). buf_ok (curpid s) (disk s) (k \<in> H) (bufs s ! k)) \<and>
     (\<forall>i < length (bufs s). \<forall>j < length (bufs s). b_dev (bufs s ! i) \<noteq> 0 \<longrightarrow>
        buf_addr (bufs s ! i) = buf_addr (bufs s ! j) \<longrightarrow> i = j)"

text \<open>The contents of a block as the processes see them.\<close>

definition bview :: "'a bio_state_scheme \<Rightarrow> baddr \<Rightarrow> bytes" where
  "bview s a = (case position (\<lambda>b. buf_addr b = a) (bufs s) of
     Some k \<Rightarrow> b_data (bufs s ! k) | None \<Rightarrow> disk s a)"

definition dirty_ix :: "'a bio_state_scheme \<Rightarrow> nat set" where
  "dirty_ix s = {k. k < length (bufs s) \<and> DIRTY (b_flags (bufs s ! k))}"

definition dirty_addrs :: "'a bio_state_scheme \<Rightarrow> baddr set" where
  "dirty_addrs s = (\<lambda>k. buf_addr (bufs s ! k)) ` dirty_ix s"

text \<open>A buffer that can be released without losing an update.\<close>

definition settled :: "'a bio_state_scheme \<Rightarrow> nat \<Rightarrow> bool" where
  "settled s k \<longleftrightarrow> DIRTY (b_flags (bufs s ! k)) \<or> b_data (bufs s ! k) = disk s (buf_addr (bufs s ! k))"

lemma binvD:
  assumes "binv s H"
  shows "\<exists>xs. lru s xs" "H \<subseteq> {..<length (bufs s)}" "curpid s \<noteq> 0" "length (disk s a) = BSIZE"
    "k < length (bufs s) \<Longrightarrow> buf_ok (curpid s) (disk s) (k \<in> H) (bufs s ! k)"
    "i < length (bufs s) \<Longrightarrow> j < length (bufs s) \<Longrightarrow> b_dev (bufs s ! i) \<noteq> 0 \<Longrightarrow>
       buf_addr (bufs s ! i) = buf_addr (bufs s ! j) \<Longrightarrow> i = j"
  using assms unfolding binv_def by blast+

lemma binv_heldD:
  assumes "binv s H" "k \<in> H"
  shows "k < length (bufs s)" "b_lock (bufs s ! k) = sl_held (curpid s)" "b_ref_cnt (bufs s ! k) = 1"
    "b_dev (bufs s ! k) \<noteq> 0" "VALID (b_flags (bufs s ! k))" "length (b_data (bufs s ! k)) = BSIZE"
  using binvD(2) [OF assms(1)] binvD(5) [OF assms(1), of k] assms(2) by (auto simp: buf_ok_def)

lemma binv_idleD:
  assumes "binv s H" "k < length (bufs s)" "k \<notin> H"
  shows "b_lock (bufs s ! k) = sleeplock_new" "b_ref_cnt (bufs s ! k) = 0"
    "length (b_data (bufs s ! k)) = BSIZE" "b_dev (bufs s ! k) \<noteq> 0 \<Longrightarrow> VALID (b_flags (bufs s ! k))"
    "DIRTY (b_flags (bufs s ! k)) \<Longrightarrow> b_dev (bufs s ! k) \<noteq> 0"
    "\<not> DIRTY (b_flags (bufs s ! k)) \<Longrightarrow> b_dev (bufs s ! k) \<noteq> 0 \<Longrightarrow>
       b_data (bufs s ! k) = disk s (buf_addr (bufs s ! k))"
  using binvD(5) [OF assms(1,2)] assms(3) by (auto simp: buf_ok_def)

text \<open>A cached block is seen through its buffer, any other on the device.\<close>

lemma bview_cached:
  assumes "binv s H" "k < length (bufs s)" "b_dev (bufs s ! k) \<noteq> 0" "a = buf_addr (bufs s ! k)"
  shows "bview s a = b_data (bufs s ! k)"
proof (cases "position (\<lambda>b. buf_addr b = a) (bufs s)")
  case None
  then show ?thesis using assms(2,4) by (auto simp: position_None all_set_conv_all_nth)
next
  case (Some j)
  then have "j < length (bufs s)" "buf_addr (bufs s ! j) = a" by (simp_all add: position_Some)
  then have "k = j" using binvD(6) [OF assms(1,2) _ assms(3), of j] assms(4) by metis
  with Some show ?thesis by (simp add: bview_def)
qed

lemma bview_uncached:
  "(\<And>k. k < length (bufs s) \<Longrightarrow> buf_addr (bufs s ! k) \<noteq> a) \<Longrightarrow> bview s a = disk s a"
  by (cases "position (\<lambda>b. buf_addr b = a) (bufs s)") (auto simp: bview_def position_Some)

lemma bview_cases:
  assumes "binv s H" "fst a \<noteq> 0"
  obtains k where "k < length (bufs s)" "buf_addr (bufs s ! k) = a" "bview s a = b_data (bufs s ! k)"
  | "\<And>k. k < length (bufs s) \<Longrightarrow> buf_addr (bufs s ! k) \<noteq> a" "bview s a = disk s a"
proof (cases "\<exists>k < length (bufs s). buf_addr (bufs s ! k) = a")
  case True
  then obtain k where k: "k < length (bufs s)" "buf_addr (bufs s ! k) = a" by blast
  then show ?thesis
    using that(1) bview_cached [OF assms(1) k(1)] assms(2) by (auto simp: buf_addr_def)
next
  case False
  then show ?thesis using that(2) bview_uncached [of s a] by blast
qed

text \<open>Replacing one buffer, keeping its links and its address.\<close>

lemma upd_buf_simps [simp]:
  "length (bufs (upd_buf k f s)) = length (bufs s)" "bc_head (upd_buf k f s) = bc_head s"
  "bc_tail (upd_buf k f s) = bc_tail s" "disk (upd_buf k f s) = disk s" "wlog (upd_buf k f s) = wlog s"
  "curpid (upd_buf k f s) = curpid s" "bio_state.more (upd_buf k f s) = bio_state.more s"
  by (simp_all add: upd_buf_def)

lemma nth_upd_buf:
  "j < length (bufs s) \<Longrightarrow> bufs (upd_buf k f s) ! j = (if j = k then f (bufs s ! k) else bufs s ! j)"
  by (simp add: upd_buf_def nth_list_update)

lemma binv_replace:
  assumes B: "binv s H" and k: "k < length (bufs s)" and H': "H' \<subseteq> {..<length (bufs s)}" "H' - {k} = H - {k}"
    and t: "bufs t = (bufs s)[k := b]" "curpid t = curpid s" "bc_head t = bc_head s" "bc_tail t = bc_tail s"
    and dk: "\<And>a. a \<noteq> buf_addr b \<Longrightarrow> disk t a = disk s a" "\<And>a. length (disk t a) = BSIZE"
    and lk: "b_self_ptr b = b_self_ptr (bufs s ! k)" "b_prev b = b_prev (bufs s ! k)" "b_next b = b_next (bufs s ! k)"
    and ok: "buf_ok (curpid s) (disk t) (k \<in> H') b"
    and fresh: "\<And>j. j < length (bufs s) \<Longrightarrow> j \<noteq> k \<Longrightarrow> b_dev b \<noteq> 0 \<Longrightarrow> buf_addr (bufs s ! j) \<noteq> buf_addr b"
    and nz: "b_dev b \<noteq> 0"
  shows "binv t H'"
proof -
  obtain xs where "lru s xs" using binvD(1) [OF B] by blast
  then have "lru t xs" unfolding lru_def t
    by (rule links_cong) (use lk k in \<open>auto simp: nth_list_update\<close>)
  moreover have "buf_ok (curpid t) (disk t) (j \<in> H') (bufs t ! j)" if j: "j < length (bufs t)" for j
  proof (cases "j = k")
    case True
    then show ?thesis using ok k t by simp
  next
    case False
    then have "(j \<in> H') = (j \<in> H)" "j < length (bufs s)" "bufs t ! j = bufs s ! j" "curpid t = curpid s"
      "disk t (buf_addr (bufs s ! j)) = disk s (buf_addr (bufs s ! j))"
      using H' j t dk(1) fresh [of j] nz by auto
    then show ?thesis using binvD(5) [OF B, of j] by (simp add: buf_ok_def)
  qed
  moreover have "i = j" if "i < length (bufs t)" "j < length (bufs t)" "b_dev (bufs t ! i) \<noteq> 0"
    "buf_addr (bufs t ! i) = buf_addr (bufs t ! j)" for i j
    using that t(1) binvD(6) [OF B, of i j] fresh [of i] fresh [of j] nz
    by (cases "i = k"; cases "j = k"; simp)
  ultimately show ?thesis
    using H' dk(2) t binvD(3) [OF B] unfolding binv_def by simp blast
qed

lemma bview_replace:
  assumes B: "binv s H" and T: "binv t H'" and k: "k < length (bufs s)" and t: "bufs t = (bufs s)[k := b]"
    and b: "buf_addr b = buf_addr (bufs s ! k)" "b_dev b \<noteq> 0"
    and dk: "\<And>a. a \<noteq> buf_addr b \<Longrightarrow> disk t a = disk s a" and a: "fst a \<noteq> 0"
  shows "bview t a = (if a = buf_addr b then b_data b else bview s a)"
proof (cases rule: bview_cases [OF T a])
  case (1 j)
  then show ?thesis
    using bview_cached [OF B, of j a] binvD(6) [OF B, of j k] t k b a
    by (cases "j = k") (auto simp: buf_addr_def)
next
  case 2
  then have n: "a \<noteq> buf_addr (bufs t ! j)" if "j < length (bufs s)" for j using t that by auto
  then have "a \<noteq> buf_addr b" using k t by force
  moreover have "bview s a = disk s a"
    by (rule bview_uncached) (metis n t b(1) nth_list_update_neq calculation)
  ultimately show ?thesis using 2 dk by simp
qed

section \<open>Specifications of the operations\<close>

text \<open>Changing the contents of a held buffer.\<close>

lemma set_data_spec:
  assumes "binv s H" "k \<in> H" "length d = BSIZE"
  shows "\<exists>t. set_data k d s = (Ok (), t) \<and> binv t H \<and> t = s\<lparr>bufs := (bufs s)[k := (bufs s ! k)\<lparr>b_data := d\<rparr>]\<rparr> \<and>
    dirty_ix t = dirty_ix s \<and>
    (\<forall>a. fst a \<noteq> 0 \<longrightarrow> bview t a = (if a = buf_addr (bufs s ! k) then d else bview s a))"
proof -
  note h = binv_heldD [OF assms(1,2)]
  define b where "b = (bufs s ! k)\<lparr>b_data := d\<rparr>"
  define t where "t = s\<lparr>bufs := (bufs s)[k := b]\<rparr>"
  have r: "set_data k d s = (Ok (), t)" by (simp add: set_data_def kop_simps upd_buf_def t_def b_def)
  have ok: "buf_ok (curpid s) (disk t) (k \<in> H) b"
    using binvD(5) [OF assms(1) h(1)] assms(2,3) by (simp add: buf_ok_def b_def)
  have B: "binv t H"
    by (rule binv_replace [OF assms(1) h(1), where b = b])
      (use assms h ok binvD [OF assms(1)] in \<open>auto simp: t_def b_def buf_addr_def\<close>)
  have "bview t a = (if a = buf_addr (bufs s ! k) then d else bview s a)" if "fst a \<noteq> 0" for a
    using bview_replace [OF assms(1) B h(1), where b = b and a = a] that h(4)
    by (auto simp: t_def b_def buf_addr_def)
  moreover have "dirty_ix t = dirty_ix s"
    using h(1) by (auto simp: dirty_ix_def t_def b_def nth_list_update split: if_splits)
  ultimately show ?thesis using r B by (auto simp: t_def b_def)
qed

lemma flags_dirty_neq [simp]: "f\<lparr>DIRTY := True\<rparr> \<noteq> flags_valid"
  by (cases f) (simp add: flags_valid_def)

text \<open>Writing a held buffer through to the device.\<close>

lemma buf_write_spec:
  assumes "binv s H" "k \<in> H"
  shows "\<exists>t. buf_write k s = (Ok (), t) \<and> binv t H \<and>
    t = s\<lparr>bufs := (bufs s)[k := (bufs s ! k)\<lparr>b_flags := flags_valid\<rparr>],
          disk := (disk s)(buf_addr (bufs s ! k) := b_data (bufs s ! k)),
          wlog := wlog s @ [(buf_addr (bufs s ! k), b_data (bufs s ! k))]\<rparr> \<and>
    dirty_ix t = dirty_ix s - {k} \<and> (\<forall>a. fst a \<noteq> 0 \<longrightarrow> bview t a = bview s a)"
proof -
  note h = binv_heldD [OF assms]
  define b where "b = (bufs s ! k)\<lparr>b_flags := flags_valid\<rparr>"
  define t where "t = s\<lparr>bufs := (bufs s)[k := b], disk := (disk s)(buf_addr (bufs s ! k) := b_data (bufs s ! k)),
          wlog := wlog s @ [(buf_addr (bufs s ! k), b_data (bufs s ! k))]\<rparr>"
  have r: "buf_write k s = (Ok (), t)"
    using h by (simp add: buf_write_def buf_is_locked_def rdwr_def upd_buf_def t_def b_def Let_def
        buf_addr_def)
  have ok: "buf_ok (curpid s) (disk t) (k \<in> H) b"
    using binvD(5) [OF assms(1) h(1)] assms(2) by (auto simp: buf_ok_def b_def flags_valid_def)
  have B: "binv t H"
    by (rule binv_replace [OF assms(1) h(1), where b = b])
      (use assms h ok binvD [OF assms(1)] in \<open>auto simp: t_def b_def buf_addr_def\<close>)
  have "bview t a = bview s a" if "fst a \<noteq> 0" for a
    using bview_replace [OF assms(1) B h(1), where b = b and a = a] that h(4)
      bview_cached [OF assms(1) h(1,4), of a]
    by (auto simp: t_def b_def buf_addr_def)
  moreover have "dirty_ix t = dirty_ix s - {k}"
    using h(1) by (auto simp: dirty_ix_def t_def b_def nth_list_update flags_valid_def split: if_splits)
  ultimately show ?thesis using r B by (auto simp: t_def b_def)
qed

text \<open>Releasing a buffer: only a clean buffer that differs from the device would be a lost update.\<close>

definition same_block :: "buf \<Rightarrow> buf \<Rightarrow> bool" where
  "same_block b c \<longleftrightarrow> b_dev b = b_dev c \<and> b_blockno b = b_blockno c \<and> b_flags b = b_flags c \<and> b_data b = b_data c"

lemma same_block_simps [simp]: "same_block b b" by (simp add: same_block_def)

definition same_outside :: "'a bio_state_scheme \<Rightarrow> 'a bio_state_scheme \<Rightarrow> bool" where
  "same_outside s t \<longleftrightarrow> disk t = disk s \<and> wlog t = wlog s \<and> curpid t = curpid s \<and>
     length (bufs t) = length (bufs s) \<and> bio_state.more t = bio_state.more s"

lemma relse_unlock_step:
  assumes "binv s H" "k \<in> H"
    "settled s k"
  defines "t \<equiv> s\<lparr>bufs := (bufs s)[k := (bufs s ! k)\<lparr>b_lock := sleeplock_new, b_ref_cnt := 0\<rparr>]\<rparr>"
  shows "relse k s = move_to_front k t" "binv t (H - {k})"
proof -
  note h = binv_heldD [OF assms(1,2)]
  show "relse k s = move_to_front k t"
    using h by (simp add: relse_def dec_ref_def bnd_def upd_buf_def t_def Let_def)
  have ok: "buf_ok (curpid s) (disk t) (k \<in> H - {k}) ((bufs s ! k)\<lparr>b_lock := sleeplock_new, b_ref_cnt := 0\<rparr>)"
    using binvD(5) [OF assms(1) h(1)] assms(2,3) by (auto simp: buf_ok_def t_def buf_addr_def settled_def)
  show "binv t (H - {k})"
    by (rule binv_replace [OF assms(1) h(1), where b = "(bufs s ! k)\<lparr>b_lock := sleeplock_new, b_ref_cnt := 0\<rparr>"])
      (use assms(2) h ok binvD [OF assms(1)] in \<open>auto simp: t_def buf_addr_def\<close>)
qed

lemma relink_same:
  assumes "y < length bs"
  shows "same_block (relink k pr nx h0 bs ! y) (bs ! y)"
    "b_lock (relink k pr nx h0 bs ! y) = b_lock (bs ! y)"
    "b_ref_cnt (relink k pr nx h0 bs ! y) = b_ref_cnt (bs ! y)"
  using assms by (auto simp: relink_def Let_def nth_upd_rec same_block_def)

lemma bview_same:
  assumes "\<forall>j < length (bufs s). same_block (bufs t ! j) (bufs s ! j)" "same_outside s t"
  shows "bview t = bview s"
proof
  fix a
  have "position (\<lambda>b. buf_addr b = a) (bufs t) = position (\<lambda>b. buf_addr b = a) (bufs s)"
    by (rule position_cong) (use assms in \<open>auto simp: same_block_def same_outside_def buf_addr_def\<close>)
  then show "bview t a = bview s a"
    using assms
    by (cases "position (\<lambda>b. buf_addr b = a) (bufs s)")
      (auto simp: bview_def same_outside_def same_block_def dest: position_bound)
qed

lemma move_to_front_spec:
  assumes "binv s H" "k < length (bufs s)"
  shows "\<exists>t. move_to_front k s = (Ok (), t) \<and> (\<exists>xs. lru t xs) \<and> same_outside s t \<and>
    (\<forall>j < length (bufs s). same_block (bufs t ! j) (bufs s ! j) \<and> b_lock (bufs t ! j) = b_lock (bufs s ! j) \<and>
       b_ref_cnt (bufs t ! j) = b_ref_cnt (bufs s ! j))"
proof -
  obtain xs where L: "links (bufs s) (bc_head s) (bc_tail s) xs"
    using binvD(1) [OF assms(1)] by (auto simp: lru_def)
  have "k \<in> set xs" using links_ends(5) [OF L] assms(2) by simp
  then obtain i where i: "i < length xs" "k = xs ! i" by (auto simp: in_set_conv_nth)
  show ?thesis
  proof (cases "i = 0")
    case True
    then have "move_to_front k s = (Ok (), s)"
      using links_ends(2) [OF L] linksD(3) [OF L i(1)] i by (simp add: move_to_front_def)
    then show ?thesis using L by (auto simp: lru_def same_outside_def)
  next
    case False
    then have "0 < i" by simp
    note M = move_to_front_links [OF L this i(1)]
    show ?thesis
      unfolding i(2) M(1)
      by (rule exI, rule conjI [OF refl])
        (use M(2) in \<open>auto simp: lru_def same_outside_def relink_same\<close>)
  qed
qed

lemma relse_spec:
  assumes "binv s H" "k \<in> H"
    "settled s k"
  shows "\<exists>t. relse k s = (Ok (), t) \<and> binv t (H - {k}) \<and> same_outside s t \<and>
    (\<forall>j < length (bufs s). same_block (bufs t ! j) (bufs s ! j)) \<and>
    dirty_ix t = dirty_ix s \<and> dirty_addrs t = dirty_addrs s \<and> bview t = bview s"
proof -
  note h = binv_heldD [OF assms(1,2)] and R = relse_unlock_step [OF assms]
  define u where "u = s\<lparr>bufs := (bufs s)[k := (bufs s ! k)\<lparr>b_lock := sleeplock_new, b_ref_cnt := 0\<rparr>]\<rparr>"
  have U: "binv u (H - {k})" using R(2) by (simp add: u_def)
  obtain t xs where t: "move_to_front k u = (Ok (), t)" "lru t xs" "same_outside u t"
    and b: "\<And>j. j < length (bufs u) \<Longrightarrow> same_block (bufs t ! j) (bufs u ! j) \<and>
      b_lock (bufs t ! j) = b_lock (bufs u ! j) \<and> b_ref_cnt (bufs t ! j) = b_ref_cnt (bufs u ! j)"
    using move_to_front_spec [OF U, of k] h(1) by (auto simp: u_def)
  have su: "same_outside s u" by (simp add: same_outside_def u_def)
  have st: "same_outside s t" using t(3) su by (simp add: same_outside_def)
  have bb: "\<forall>j < length (bufs s). same_block (bufs t ! j) (bufs s ! j)"
    using b h(1) by (auto simp: u_def same_block_def nth_list_update split: if_splits)
  have "binv t (H - {k})"
    using U t(2,3) b unfolding binv_def
    by (auto simp: same_outside_def buf_ok_def same_block_def buf_addr_def)
  moreover have "dirty_ix t = dirty_ix s"
    using bb st by (auto simp: dirty_ix_def same_block_def same_outside_def)
  moreover have "dirty_addrs t = dirty_addrs s"
    unfolding dirty_addrs_def \<open>dirty_ix t = dirty_ix s\<close>
    by (rule image_cong) (use bb in \<open>auto simp: dirty_ix_def same_block_def buf_addr_def\<close>)
  moreover have "bview t = bview s" using bb st by (rule bview_same)
  ultimately show ?thesis using R(1) t(1) st bb by (simp add: u_def)
qed

text \<open>
  Reading a block: it is cached and not held, or it is not cached and some buffer is neither held
  nor dirty. The caller then holds a buffer with the block's current contents.
\<close>

definition cached :: "'a bio_state_scheme \<Rightarrow> baddr \<Rightarrow> bool" where
  "cached s a \<longleftrightarrow> (\<exists>k < length (bufs s). buf_addr (bufs s ! k) = a)"

definition held_addrs :: "'a bio_state_scheme \<Rightarrow> nat set \<Rightarrow> baddr set" where
  "held_addrs s H = (\<lambda>k. buf_addr (bufs s ! k)) ` H"

definition room :: "'a bio_state_scheme \<Rightarrow> nat set \<Rightarrow> baddr \<Rightarrow> bool" where
  "room s H a \<longleftrightarrow> a \<notin> held_addrs s H \<and>
     (cached s a \<or> card (dirty_ix s \<union> H) < length (bufs s))"

lemma bread_hit:
  assumes B: "binv s H" and k: "k < length (bufs s)" "k \<notin> H" "buf_addr (bufs s ! k) = (dev, blockno)" "dev \<noteq> 0"
  shows "bread dev blockno s =
    (Ok k, s\<lparr>bufs := (bufs s)[k := (bufs s ! k)\<lparr>b_ref_cnt := 1, b_lock := sl_held (curpid s)\<rparr>]\<rparr>)"
proof -
  obtain xs where L: "links (bufs s) (bc_head s) (bc_tail s) xs"
    using binvD(1) [OF B] by (auto simp: lru_def)
  have "find (\<lambda>j. b_dev (bufs s ! j) = dev \<and> b_blockno (bufs s ! j) = blockno) xs = Some k"
    (is "?f = _")
  proof (cases ?f)
    case None
    then show ?thesis using links_ends(5) [OF L] k by (auto simp: find_None_iff buf_addr_def)
  next
    case (Some j)
    then have "j < length (bufs s)" "buf_addr (bufs s ! j) = (dev, blockno)"
      using links_ends(5) [OF L] by (auto dest!: find_Some_nth simp: buf_addr_def)
    then have "k = j" using binvD(6) [OF B k(1), of j] k by (simp add: buf_addr_def)
    with Some show ?thesis by simp
  qed
  then have f: "find_cached (Suc (length (bufs s))) (bufs s) dev blockno (bc_head s) = Ok (Some k)"
    using find_cached_links [OF L, of dev blockno] by simp
  note i = binv_idleD [OF B k(1,2)]
  have "VALID (b_flags (bufs s ! k))" using i(4) k by (simp add: buf_addr_def)
  then show ?thesis
    using f i(1,2) k(1) binvD(3) [OF B]
    by (simp add: bread_def bget_def bnd_def seqk_def lift_res_def inc_ref_def upd_buf_def
        ret_def acquire_buf_def buf_read_def del: find_cached.simps)
qed

lemma victim_exists:
  assumes B: "binv s H" and L: "links (bufs s) (bc_head s) (bc_tail s) xs"
    and c: "card (dirty_ix s \<union> H) < length (bufs s)"
  shows "\<exists>v. find_victim (Suc (length (bufs s))) (bufs s) (bc_tail s) = Ok (Some v) \<and>
    v < length (bufs s) \<and> v \<notin> H \<and> v \<notin> dirty_ix s"
proof -
  have "\<not> {..<length (bufs s)} \<subseteq> dirty_ix s \<union> H"
  proof
    assume "{..<length (bufs s)} \<subseteq> dirty_ix s \<union> H"
    moreover have "finite (dirty_ix s \<union> H)"
      using finite_subset [OF binvD(2) [OF B]] by (simp add: dirty_ix_def)
    ultimately have "length (bufs s) \<le> card (dirty_ix s \<union> H)" 
      using card_mono [of "dirty_ix s \<union> H" "{..<length (bufs s)}"] by simp
    with c show False by simp
  qed
  then obtain w where w: "w < length (bufs s)" "w \<notin> dirty_ix s" "w \<notin> H" by blast
  define P where "P = (\<lambda>k. b_ref_cnt (bufs s ! k) = 0 \<and> \<not> DIRTY (b_flags (bufs s ! k)))"
  have "P w" using w binv_idleD(2) [OF B w(1,3)] by (simp add: P_def dirty_ix_def)
  then have "find P (rev xs) \<noteq> None" using links_ends(5) [OF L] w(1) by (auto simp: find_None_iff)
  then obtain v where v: "find P (rev xs) = Some v" by blast
  then have "v < length (bufs s)" "P v" using links_ends(5) [OF L] find_Some_nth [OF v] by auto
  moreover have "v \<notin> H" using \<open>P v\<close> binv_heldD(3) [OF B, of v] by (auto simp: P_def)
  ultimately show ?thesis
    using find_victim_links [OF L] v by (auto simp: P_def dirty_ix_def simp del: find_victim.simps)
qed

lemma bread_miss:
  assumes B: "binv s H" and n: "\<not> cached s (dev, blockno)"
    and c: "card (dirty_ix s \<union> H) < length (bufs s)"
  shows "\<exists>v. v < length (bufs s) \<and> v \<notin> H \<and> v \<notin> dirty_ix s \<and> bread dev blockno s =
    (Ok v, s\<lparr>bufs := (bufs s)[v := (bufs s ! v)\<lparr>b_dev := dev, b_blockno := blockno, b_ref_cnt := 1,
       b_lock := sl_held (curpid s), b_data := disk s (dev, blockno), b_flags := flags_valid\<rparr>]\<rparr>)"
proof -
  obtain xs where L: "links (bufs s) (bc_head s) (bc_tail s) xs"
    using binvD(1) [OF B] by (auto simp: lru_def)
  have "find (\<lambda>j. b_dev (bufs s ! j) = dev \<and> b_blockno (bufs s ! j) = blockno) xs = None"
    using n links_ends(5) [OF L] by (auto simp: find_None_iff cached_def buf_addr_def)
  then have f: "find_cached (Suc (length (bufs s))) (bufs s) dev blockno (bc_head s) = Ok None"
    using find_cached_links [OF L, of dev blockno] by simp
  obtain v where v: "find_victim (Suc (length (bufs s))) (bufs s) (bc_tail s) = Ok (Some v)"
    "v < length (bufs s)" "v \<notin> H" "v \<notin> dirty_ix s"
    using victim_exists [OF B L c] by blast
  note i = binv_idleD [OF B v(2,3)]
  have e: "flags_empty \<noteq> flags_valid" by (simp add: flags_empty_def flags_valid_def)
  have "bread dev blockno s =
    (Ok v, s\<lparr>bufs := (bufs s)[v := (bufs s ! v)\<lparr>b_dev := dev, b_blockno := blockno, b_ref_cnt := 1,
       b_flags := flags_empty, b_lock := sl_held (curpid s), b_data := disk s (dev, blockno), b_flags := flags_valid\<rparr>]\<rparr>)"
    using f v(1,2) i(1,2) binvD(3) [OF B] e
    by (simp add: bread_def bget_def bnd_def seqk_def lift_res_def inc_ref_def upd_buf_def modify_def
        set_flags_buf_def rdwr_def buf_is_locked_def Let_def
        ret_def acquire_buf_def buf_read_def flags_empty_def del: find_cached.simps find_victim.simps)
  then show ?thesis using v by auto
qed

lemma miss_view:
  assumes B: "binv s H" and T: "binv t H'" and t: "t = s\<lparr>bufs := (bufs s)[v := b]\<rparr>"
    and v: "v < length (bufs s)" "v \<notin> H" "v \<notin> dirty_ix s"
    and b: "b_data b = disk s (buf_addr b)" "b_dev b \<noteq> 0"
    and nc: "\<And>j. j < length (bufs s) \<Longrightarrow> buf_addr (bufs s ! j) \<noteq> buf_addr b" and a: "fst a \<noteq> 0"
  shows "bview t a = bview s a"
proof (cases rule: bview_cases [OF T a])
  case (1 j)
  show ?thesis
  proof (cases "j = v")
    case True
    then have "a = buf_addr b" using 1 v t by simp
    then show ?thesis using bview_uncached [of s a] nc 1 True v b t by simp
  next
    case False
    then show ?thesis using bview_cached [OF B, of j a] 1 a t by (auto simp: buf_addr_def)
  qed
next
  case 2
  show ?thesis
  proof (cases rule: bview_cases [OF B a])
    case (1 j)
    then have "j = v" using 2(1) [of j] t by (cases "j = v") auto
    moreover have "b_dev (bufs s ! v) \<noteq> 0" using 1 \<open>j = v\<close> a by (auto simp: buf_addr_def)
    ultimately have "bview s a = disk s a"
      using 1 binv_idleD(6) [OF B v(1,2)] v by (auto simp: dirty_ix_def)
    then show ?thesis using 2 t by simp
  next
    case 2
    then show ?thesis using \<open>bview t a = disk t a\<close> t by simp
  qed
qed

lemma bread_cached:
  assumes B: "binv s H" and d: "dev \<noteq> 0" and R: "room s H (dev, blockno)" and True: "cached s (dev, blockno)"
  shows "\<exists>k t. bread dev blockno s = (Ok k, t) \<and> k \<notin> H \<and> binv t (insert k H) \<and>
    buf_addr (bufs t ! k) = (dev, blockno) \<and> b_data (bufs t ! k) = bview s (dev, blockno) \<and>
    same_outside s t \<and> (\<forall>j < length (bufs s). j \<noteq> k \<longrightarrow> bufs t ! j = bufs s ! j) \<and>
    dirty_ix t = dirty_ix s \<and> dirty_addrs t = dirty_addrs s \<and> settled t k \<and>
    (\<forall>a. fst a \<noteq> 0 \<longrightarrow> bview t a = bview s a)"
proof -
  from True obtain k where k: "k < length (bufs s)" "buf_addr (bufs s ! k) = (dev, blockno)"
    by (auto simp: cached_def)
  have kH: "k \<notin> H" using R k(2) unfolding room_def held_addrs_def by (metis imageI)
  define b where "b = (bufs s ! k)\<lparr>b_ref_cnt := 1, b_lock := sl_held (curpid s)\<rparr>"
  define t where "t = s\<lparr>bufs := (bufs s)[k := b]\<rparr>"
  have r: "bread dev blockno s = (Ok k, t)" using bread_hit [OF B k(1) kH k(2) d] by (simp add: t_def b_def)
  have nz: "b_dev b \<noteq> 0" "buf_addr b = (dev, blockno)" using k(2) d by (auto simp: b_def buf_addr_def)
  have ok: "buf_ok (curpid s) (disk t) (k \<in> insert k H) b"
    using binvD(5) [OF B k(1)] nz by (auto simp: buf_ok_def b_def)
  have un: "buf_addr (bufs s ! j) \<noteq> (dev, blockno)" if "j < length (bufs s)" "j \<noteq> k" for j
    using binvD(6) [OF B k(1) that(1)] that(2) k(2) d by (metis buf_addr_def fst_conv)
  have T: "binv t (insert k H)"
    by (rule binv_replace [OF B k(1), where b = b])
      (use k nz ok kH un binvD(2,4) [OF B] in \<open>auto simp: t_def b_def\<close>)
  have "bview t a = bview s a" if "fst a \<noteq> 0" for a
    using bview_replace [OF B T k(1), where b = b and a = a] that nz k bview_cached [OF B k(1), of a]
    by (auto simp: t_def b_def buf_addr_def)
  moreover have "dirty_ix t = dirty_ix s"
    using k(1) by (auto simp: dirty_ix_def t_def b_def nth_list_update split: if_splits)
  moreover have "dirty_addrs t = dirty_addrs s"
    unfolding dirty_addrs_def \<open>dirty_ix t = dirty_ix s\<close>
    by (rule image_cong) (use k nz in \<open>auto simp: t_def nth_list_update dirty_ix_def\<close>)
  moreover have "settled t k"
    using binv_idleD(6) [OF B k(1) kH] k nz by (auto simp: settled_def t_def b_def buf_addr_def)
  moreover have "b_data b = bview s (dev, blockno)"
    using bview_cached [OF B k(1), of "(dev, blockno)"] nz k(2) by (auto simp: b_def)
  ultimately show ?thesis
    using r kH T k nz
    by (intro exI [of _ k] exI [of _ t]) (auto simp: t_def same_outside_def)
qed

lemma bread_uncached:
  assumes B: "binv s H" and d: "dev \<noteq> 0" and R: "room s H (dev, blockno)" and False: "\<not> cached s (dev, blockno)"
  shows "\<exists>k t. bread dev blockno s = (Ok k, t) \<and> k \<notin> H \<and> binv t (insert k H) \<and>
    buf_addr (bufs t ! k) = (dev, blockno) \<and> b_data (bufs t ! k) = bview s (dev, blockno) \<and>
    same_outside s t \<and> (\<forall>j < length (bufs s). j \<noteq> k \<longrightarrow> bufs t ! j = bufs s ! j) \<and>
    dirty_ix t = dirty_ix s \<and> dirty_addrs t = dirty_addrs s \<and> settled t k \<and>
    (\<forall>a. fst a \<noteq> 0 \<longrightarrow> bview t a = bview s a)"
proof -
  from False have c: "card (dirty_ix s \<union> H) < length (bufs s)" using R by (simp add: room_def)
  obtain v where v: "v < length (bufs s)" "v \<notin> H" "v \<notin> dirty_ix s" and r0: "bread dev blockno s =
    (Ok v, s\<lparr>bufs := (bufs s)[v := (bufs s ! v)\<lparr>b_dev := dev, b_blockno := blockno, b_ref_cnt := 1,
       b_lock := sl_held (curpid s), b_data := disk s (dev, blockno), b_flags := flags_valid\<rparr>]\<rparr>)"
    using bread_miss [OF B False c] by blast
  define b where "b = (bufs s ! v)\<lparr>b_dev := dev, b_blockno := blockno, b_ref_cnt := 1,
       b_lock := sl_held (curpid s), b_data := disk s (dev, blockno), b_flags := flags_valid\<rparr>"
  define t where "t = s\<lparr>bufs := (bufs s)[v := b]\<rparr>"
  have r: "bread dev blockno s = (Ok v, t)" using r0 by (simp add: t_def b_def)
  have nz: "b_dev b \<noteq> 0" "buf_addr b = (dev, blockno)" using d by (auto simp: b_def buf_addr_def)
  have nc: "buf_addr (bufs s ! j) \<noteq> (dev, blockno)" if "j < length (bufs s)" for j
    using False that by (auto simp: cached_def)
  have ok: "buf_ok (curpid s) (disk t) (v \<in> insert v H) b"
    using binvD(4) [OF B] d by (auto simp: buf_ok_def b_def flags_valid_def)
  have T: "binv t (insert v H)"
    by (rule binv_replace [OF B v(1), where b = b])
      (use v nz ok nc binvD [OF B] in \<open>auto simp: t_def b_def\<close>)
  have "bview t a = bview s a" if a: "fst a \<noteq> 0" for a
    using miss_view [OF B T t_def v _ nz(1) _ a] nz(2) nc by (simp add: b_def)
  moreover have "dirty_ix t = dirty_ix s"
    using v by (auto simp: dirty_ix_def t_def b_def nth_list_update flags_valid_def split: if_splits)
  moreover have "dirty_addrs t = dirty_addrs s"
    unfolding dirty_addrs_def \<open>dirty_ix t = dirty_ix s\<close>
    by (rule image_cong) (use v in \<open>auto simp: t_def nth_list_update dirty_ix_def\<close>)
  moreover have "settled t v"
    using v(1) by (auto simp: settled_def t_def b_def buf_addr_def)
  moreover have "b_data b = bview s (dev, blockno)"
    using bview_uncached [of s "(dev, blockno)"] nc by (simp add: b_def)
  ultimately show ?thesis
    using r v T nz False
    by (intro exI [of _ v] exI [of _ t]) (auto simp: t_def same_outside_def)
qed

lemma bread_spec:
  assumes B: "binv s H" and d: "dev \<noteq> 0" and R: "room s H (dev, blockno)"
  shows "\<exists>k t. bread dev blockno s = (Ok k, t) \<and> k \<notin> H \<and> binv t (insert k H) \<and>
    buf_addr (bufs t ! k) = (dev, blockno) \<and> b_data (bufs t ! k) = bview s (dev, blockno) \<and>
    same_outside s t \<and> (\<forall>j < length (bufs s). j \<noteq> k \<longrightarrow> bufs t ! j = bufs s ! j) \<and>
    dirty_ix t = dirty_ix s \<and> dirty_addrs t = dirty_addrs s \<and> settled t k \<and>
    (\<forall>a. fst a \<noteq> 0 \<longrightarrow> bview t a = bview s a)"
  by (rule case_split [OF bread_cached [OF B d R] bread_uncached [OF B d R]])

section \<open>Copying a block\<close>

text \<open>
  The log copies blocks: two nested \<open>with_block\<close>, the source's bytes into the destination's buffer,
  and the destination written to the device.
\<close>

definition copy_write :: "nat \<Rightarrow> nat \<Rightarrow> ('a bio_state_scheme, unit) kop" where
  "copy_write from to =
     bnd (gets (data_ref from)) (\<lambda>src. bnd (gets (data_ref to)) (\<lambda>dst.
       seqk (assertk (length dst = length src) ''copy_slice'')
         (seqk (set_data to src) (buf_write to))))"

lemma copy_write_spec:
  assumes "binv s H" "from \<in> H" "to \<in> H" "from \<noteq> to" "settled s from"
  shows "\<exists>t. copy_write from to s = (Ok (), t) \<and> binv t H \<and>
    bufs t = (bufs s)[to := (bufs s ! to)\<lparr>b_data := data_ref from s, b_flags := flags_valid\<rparr>] \<and>
    curpid t = curpid s \<and> bio_state.more t = bio_state.more s \<and>
    disk t = (disk s)(buf_addr (bufs s ! to) := data_ref from s) \<and>
    wlog t = wlog s @ [(buf_addr (bufs s ! to), data_ref from s)] \<and>
    dirty_ix t = dirty_ix s - {to} \<and> settled t from \<and> settled t to \<and>
    (\<forall>a. fst a \<noteq> 0 \<longrightarrow> bview t a = (if a = buf_addr (bufs s ! to) then data_ref from s else bview s a))"
proof -
  note hf = binv_heldD [OF assms(1,2)] and ht = binv_heldD [OF assms(1,3)]
  obtain u where u: "set_data to (data_ref from s) s = (Ok (), u)" "binv u H"
    "u = s\<lparr>bufs := (bufs s)[to := (bufs s ! to)\<lparr>b_data := data_ref from s\<rparr>]\<rparr>" "dirty_ix u = dirty_ix s"
    "\<forall>a. fst a \<noteq> 0 \<longrightarrow> bview u a = (if a = buf_addr (bufs s ! to) then data_ref from s else bview s a)"
    using set_data_spec [OF assms(1,3), of "data_ref from s"] hf by (auto simp: data_ref_def)
  have bu: "bufs u ! to = (bufs s ! to)\<lparr>b_data := data_ref from s\<rparr>" "buf_addr (bufs u ! to) = buf_addr (bufs s ! to)"
    using u(3) ht(1) by (auto simp: buf_addr_def)
  obtain t where t: "buf_write to u = (Ok (), t)" "binv t H"
    "t = u\<lparr>bufs := (bufs u)[to := (bufs u ! to)\<lparr>b_flags := flags_valid\<rparr>],
          disk := (disk u)(buf_addr (bufs u ! to) := b_data (bufs u ! to)),
          wlog := wlog u @ [(buf_addr (bufs u ! to), b_data (bufs u ! to))]\<rparr>"
    "dirty_ix t = dirty_ix u - {to}" "\<forall>a. fst a \<noteq> 0 \<longrightarrow> bview t a = bview u a"
    using buf_write_spec [OF u(2) assms(3)] by blast
  have tt: "bufs t = (bufs s)[to := (bufs s ! to)\<lparr>b_data := data_ref from s, b_flags := flags_valid\<rparr>]"
    "disk t = (disk s)(buf_addr (bufs s ! to) := data_ref from s)"
    "wlog t = wlog s @ [(buf_addr (bufs s ! to), data_ref from s)]"
    "curpid t = curpid s" "bio_state.more t = bio_state.more s"
    using t(3) u(3) bu ht(1) by simp_all
  have na: "buf_addr (bufs s ! from) \<noteq> buf_addr (bufs s ! to)"
    using binvD(6) [OF assms(1) hf(1) ht(1) hf(4)] assms(4) by blast
  have "settled t from" "settled t to"
    using assms(4,5) na tt(1,2) ht(1) by (auto simp: settled_def buf_addr_def)
  moreover have "copy_write from to s = (Ok (), t)"
    using u(1) t(1) hf ht by (simp add: copy_write_def kop_simps data_ref_def)
  ultimately show ?thesis using t(2,4,5) u(4,5) tt by auto
qed

lemma dirty_addrs_remove:
  assumes B: "binv s H" and k: "k \<in> H" and t: "bufs t = (bufs s)[k := (bufs s ! k)\<lparr>b_data := d, b_flags := f\<rparr>]"
    and i: "dirty_ix t = dirty_ix s - {k}"
  shows "dirty_addrs t = dirty_addrs s - {buf_addr (bufs s ! k)}"
proof -
  note h = binv_heldD [OF B k]
  have a: "buf_addr (bufs t ! j) = buf_addr (bufs s ! j)" if "j \<noteq> k" for j using t that by simp
  have ne: "buf_addr (bufs s ! j) \<noteq> buf_addr (bufs s ! k)" if "j < length (bufs s)" "j \<noteq> k" for j
    using binvD(6) [OF B h(1) that(1) h(4)] that(2) by metis
  have "dirty_addrs t = (\<lambda>j. buf_addr (bufs s ! j)) ` (dirty_ix s - {k})"
    unfolding dirty_addrs_def i by (rule image_cong) (simp_all add: a)
  also have "\<dots> = dirty_addrs s - {buf_addr (bufs s ! k)}"
    unfolding dirty_addrs_def by (rule image_minus_one) (simp add: dirty_ix_def ne)
  finally show ?thesis .
qed

lemma with_block_run:
  assumes "bread dev b s = (Ok k, t)" "f k t = (Ok r, u)" "relse k u = (Ok (), v)"
  shows "with_block dev b f s = (Ok r, v)"
  using assms by (simp add: with_block_def kop_simps)

definition copy_into :: "u32 \<Rightarrow> u64 \<Rightarrow> u64 \<Rightarrow> ('a bio_state_scheme, unit) kop" where
  "copy_into dev src dst =
     expectk ''unwrap'' (with_block dev dst (\<lambda>to.
       expectk ''unwrap'' (with_block dev src (\<lambda>from. copy_write from to))))"

definition copy_from :: "u32 \<Rightarrow> u64 \<Rightarrow> u64 \<Rightarrow> ('a bio_state_scheme, unit) kop" where
  "copy_from dev src dst =
     expectk ''unwrap'' (with_block dev src (\<lambda>from.
       expectk ''unwrap'' (with_block dev dst (\<lambda>to. copy_write from to))))"

text \<open>Two blocks held at once, in either order, then copied, written and released.\<close>

definition wrote :: "u32 \<Rightarrow> u64 \<Rightarrow> bytes \<Rightarrow> 'a bio_state_scheme \<Rightarrow> 'a bio_state_scheme \<Rightarrow> bool" where
  "wrote dev dst d s t \<longleftrightarrow> binv t {} \<and>
     disk t = (disk s)((dev, dst) := d) \<and> wlog t = wlog s @ [((dev, dst), d)] \<and>
     (\<forall>a. fst a \<noteq> 0 \<longrightarrow> bview t a = (if a = (dev, dst) then d else bview s a)) \<and>
     dirty_addrs t = dirty_addrs s - {(dev, dst)} \<and> dirty_ix t \<subseteq> dirty_ix s \<and>
     curpid t = curpid s \<and> length (bufs t) = length (bufs s) \<and> bio_state.more t = bio_state.more s"

abbreviation copied :: "u32 \<Rightarrow> u64 \<Rightarrow> u64 \<Rightarrow> 'a bio_state_scheme \<Rightarrow> 'a bio_state_scheme \<Rightarrow> bool" where
  "copied dev src dst s t \<equiv> wrote dev dst (bview s (dev, src)) s t"

lemma room_empty: "card (dirty_ix s) < length (bufs s) \<Longrightarrow> room s {} a"
  by (simp add: room_def held_addrs_def)

lemma room_one:
  assumes "Suc (card (dirty_ix s)) < length (bufs s)" "buf_addr (bufs s ! k) \<noteq> a"
  shows "room s {k} a"
proof -
  have "card (dirty_ix s \<union> {k}) \<le> Suc (card (dirty_ix s))"
    by (metis card_insert_le_m1 card_Un_le card.empty card_insert_disjoint finite.emptyI empty_iff Suc_eq_plus1 One_nat_def)
  with assms show ?thesis by (auto simp: room_def held_addrs_def)
qed

lemma two_held_copy:
  assumes B: "binv s {}" and c: "card (dirty_ix s) + 2 \<le> length (bufs s)" and d: "dev \<noteq> 0" "x \<noteq> y"
    and xy: "{x, y} = {src, dst}"
  shows "\<exists>i j t1 t2 t3 t4 t5. bread dev x s = (Ok i, t1) \<and> bread dev y t1 = (Ok j, t2) \<and>
    copy_write (if x = src then i else j) (if x = src then j else i) t2 = (Ok (), t3) \<and>
    relse j t3 = (Ok (), t4) \<and> relse i t4 = (Ok (), t5) \<and> copied dev src dst s t5"
proof -
  obtain i t1 where 1: "bread dev x s = (Ok i, t1)" "binv t1 {i}" "buf_addr (bufs t1 ! i) = (dev, x)"
    "b_data (bufs t1 ! i) = bview s (dev, x)" "same_outside s t1" "dirty_ix t1 = dirty_ix s"
    "dirty_addrs t1 = dirty_addrs s" "settled t1 i" "\<forall>a. fst a \<noteq> 0 \<longrightarrow> bview t1 a = bview s a"
    using bread_spec [OF B d(1), of x] room_empty [of s "(dev, x)"] c by auto
  have len1: "length (bufs t1) = length (bufs s)" using 1(5) by (simp add: same_outside_def)
  have r: "room t1 {i} (dev, y)" using room_one [of t1 i "(dev, y)"] 1(3,6) c d len1 by auto
  obtain j t2 where 2: "bread dev y t1 = (Ok j, t2)" "j \<noteq> i" "binv t2 {j, i}" "buf_addr (bufs t2 ! j) = (dev, y)"
    "b_data (bufs t2 ! j) = bview t1 (dev, y)" "same_outside t1 t2" "dirty_ix t2 = dirty_ix t1"
    "dirty_addrs t2 = dirty_addrs t1" "settled t2 j" "\<forall>a. fst a \<noteq> 0 \<longrightarrow> bview t2 a = bview t1 a"
    "\<forall>k < length (bufs t1). k \<noteq> j \<longrightarrow> bufs t2 ! k = bufs t1 ! k"
    using bread_spec [OF 1(2) d(1) r] by auto
  have i2: "bufs t2 ! i = bufs t1 ! i" using 2(2,11) binv_heldD(1) [OF 1(2), of i] by auto
  then have "settled t2 i" using 1(8) 2(6) by (simp add: settled_def same_outside_def)
  define f where "f = (if x = src then i else j)"
  define to where "to = (if x = src then j else i)"
  have ft: "f \<in> {j, i}" "to \<in> {j, i}" "f \<noteq> to" "settled t2 f"
    using \<open>settled t2 i\<close> 2(2,9) by (auto simp: f_def to_def)
  have ad: "buf_addr (bufs t2 ! to) = (dev, dst)" "data_ref f t2 = bview s (dev, src)"
    using i2 1(3,4,9) 2(4,5) xy d by (auto simp: f_def to_def data_ref_def doubleton_eq_iff)
  obtain t3 where 3: "copy_write f to t2 = (Ok (), t3)" "binv t3 {j, i}"
    "bufs t3 = (bufs t2)[to := (bufs t2 ! to)\<lparr>b_data := data_ref f t2, b_flags := flags_valid\<rparr>]"
    "curpid t3 = curpid t2" "bio_state.more t3 = bio_state.more t2"
    "disk t3 = (disk t2)((dev, dst) := bview s (dev, src))"
    "wlog t3 = wlog t2 @ [((dev, dst), bview s (dev, src))]"
    "dirty_ix t3 = dirty_ix t2 - {to}" "settled t3 f" "settled t3 to"
    "\<forall>a. fst a \<noteq> 0 \<longrightarrow> bview t3 a = (if a = (dev, dst) then bview s (dev, src) else bview t2 a)"
    using copy_write_spec [OF 2(3) ft] by (auto simp: ad)
  have da: "dirty_addrs t3 = dirty_addrs t2 - {(dev, dst)}"
    using dirty_addrs_remove [OF 2(3) ft(2) 3(3)] 3(8) ad by simp
  have s3: "settled t3 i" "settled t3 j" using 3(9,10) by (auto simp: f_def to_def split: if_splits)
  obtain t4 where 4: "relse j t3 = (Ok (), t4)" "binv t4 {i}" "same_outside t3 t4"
    "\<forall>k < length (bufs t3). same_block (bufs t4 ! k) (bufs t3 ! k)" "dirty_ix t4 = dirty_ix t3"
    "dirty_addrs t4 = dirty_addrs t3" "bview t4 = bview t3"
    using relse_spec [OF 3(2) _ s3(2)] 2(2) by (auto simp: insert_Diff_if)
  have "i < length (bufs t3)" using binv_heldD(1) [OF 3(2), of i] by simp
  then have "settled t4 i" using s3(1) 4(3,4)
    by (auto simp: settled_def same_outside_def same_block_def buf_addr_def)
  then obtain t5 where 5: "relse i t4 = (Ok (), t5)" "binv t5 {}" "same_outside t4 t5"
    "dirty_ix t5 = dirty_ix t4" "dirty_addrs t5 = dirty_addrs t4" "bview t5 = bview t4"
    using relse_spec [OF 4(2), of i] by auto
  have "copied dev src dst s t5"
    unfolding wrote_def
    using 1 2 3 4 5 da by (auto simp: same_outside_def)
  then show ?thesis using 1(1) 2(1) 3(1) 4(1) 5(1) unfolding f_def to_def by blast
qed

lemma copy_into_spec:
  assumes "binv s {}" "card (dirty_ix s) + 2 \<le> length (bufs s)" "dev \<noteq> 0" "src \<noteq> dst"
  shows "\<exists>t. copy_into dev src dst s = (Ok (), t) \<and> copied dev src dst s t"
proof -
  obtain i j t1 t2 t3 t4 t5 where "bread dev dst s = (Ok i, t1)" "bread dev src t1 = (Ok j, t2)"
    "copy_write j i t2 = (Ok (), t3)" "relse j t3 = (Ok (), t4)" "relse i t4 = (Ok (), t5)" "copied dev src dst s t5"
    using two_held_copy [OF assms(1,2,3), of dst src src dst] assms(4) by (auto simp: insert_commute)
  then show ?thesis by (auto simp: copy_into_def kop_simps with_block_run)
qed

lemma copy_from_spec:
  assumes "binv s {}" "card (dirty_ix s) + 2 \<le> length (bufs s)" "dev \<noteq> 0" "src \<noteq> dst"
  shows "\<exists>t. copy_from dev src dst s = (Ok (), t) \<and> copied dev src dst s t"
proof -
  obtain i j t1 t2 t3 t4 t5 where "bread dev src s = (Ok i, t1)" "bread dev dst t1 = (Ok j, t2)"
    "copy_write i j t2 = (Ok (), t3)" "relse j t3 = (Ok (), t4)" "relse i t4 = (Ok (), t5)" "copied dev src dst s t5"
    using two_held_copy [OF assms(1,2,3), of src dst src dst] assms(4) by auto
  then show ?thesis by (auto simp: copy_from_def kop_simps with_block_run)
qed

text \<open>One block read, changed, written through and released.\<close>

lemma rewrite_block_spec:
  assumes B: "binv s {}" and c: "card (dirty_ix s) + 2 \<le> length (bufs s)" and d: "dev \<noteq> 0"
    and g: "length (g (bview s (dev, b))) = BSIZE"
  shows "\<exists>t. with_block dev b (\<lambda>k. bnd (gets (data_ref k)) (\<lambda>d. seqk (set_data k (g d)) (buf_write k))) s = (Ok (), t) \<and>
    wrote dev b (g (bview s (dev, b))) s t"
proof -
  obtain k t1 where 1: "bread dev b s = (Ok k, t1)" "binv t1 {k}" "buf_addr (bufs t1 ! k) = (dev, b)"
    "b_data (bufs t1 ! k) = bview s (dev, b)" "same_outside s t1" "dirty_ix t1 = dirty_ix s"
    "dirty_addrs t1 = dirty_addrs s" "\<forall>a. fst a \<noteq> 0 \<longrightarrow> bview t1 a = bview s a"
    using bread_spec [OF B d, of b] room_empty [of s "(dev, b)"] c by auto
  define dd where "dd = g (bview s (dev, b))"
  obtain t2 where 2: "set_data k dd t1 = (Ok (), t2)" "binv t2 {k}"
    "t2 = t1\<lparr>bufs := (bufs t1)[k := (bufs t1 ! k)\<lparr>b_data := dd\<rparr>]\<rparr>" "dirty_ix t2 = dirty_ix t1"
    "\<forall>a. fst a \<noteq> 0 \<longrightarrow> bview t2 a = (if a = (dev, b) then dd else bview t1 a)"
    using set_data_spec [OF 1(2), of k dd] g 1(3) by (auto simp: dd_def)
  have k: "k < length (bufs t1)" using binv_heldD(1) [OF 1(2)] by simp
  have a2: "buf_addr (bufs t2 ! k) = (dev, b)" "b_data (bufs t2 ! k) = dd"
    using 2(3) 1(3) k by (auto simp: buf_addr_def)
  obtain t3 where 3: "buf_write k t2 = (Ok (), t3)" "binv t3 {k}"
    "t3 = t2\<lparr>bufs := (bufs t2)[k := (bufs t2 ! k)\<lparr>b_flags := flags_valid\<rparr>],
          disk := (disk t2)((dev, b) := dd), wlog := wlog t2 @ [((dev, b), dd)]\<rparr>"
    "dirty_ix t3 = dirty_ix t2 - {k}" "\<forall>a. fst a \<noteq> 0 \<longrightarrow> bview t3 a = bview t2 a"
    using buf_write_spec [OF 2(2), of k] by (auto simp: a2)
  have "dirty_addrs t3 = dirty_addrs t1 - {(dev, b)}"
    using dirty_addrs_remove [OF 1(2), where k = k and t = t3 and d = dd and f = flags_valid] 2(3,4) 3(3,4) 1(3) k by simp
  moreover have "settled t3 k" using 2(3) 3(3) 1(3) k by (simp add: settled_def buf_addr_def)
  moreover from this obtain t4 where 4: "relse k t3 = (Ok (), t4)" "binv t4 {}" "same_outside t3 t4"
    "dirty_ix t4 = dirty_ix t3" "dirty_addrs t4 = dirty_addrs t3" "bview t4 = bview t3"
    using relse_spec [OF 3(2), of k] by auto
  ultimately have "wrote dev b dd s t4"
    unfolding wrote_def using 1 2 3 by (auto simp: same_outside_def)
  moreover have "with_block dev b (\<lambda>k. bnd (gets (data_ref k)) (\<lambda>d. seqk (set_data k (g d)) (buf_write k))) s = (Ok (), t4)"
    by (rule with_block_run [OF 1(1) _ 4(1)])
      (use 1(4) 2(1) 3(1) in \<open>simp add: kop_simps data_ref_def dd_def\<close>)
  ultimately show ?thesis by (auto simp: dd_def)
qed

text \<open>One block read and released, for a computation that leaves the cache alone.\<close>

lemma read_block_spec:
  assumes B: "binv s {}" and c: "card (dirty_ix s) + 2 \<le> length (bufs s)" and d: "dev \<noteq> 0"
  shows "\<exists>k t. bread dev b s = (Ok k, t) \<and> binv t {k} \<and> data_ref k t = bview s (dev, b) \<and>
    settled t k \<and> same_outside s t \<and> dirty_ix t = dirty_ix s \<and> dirty_addrs t = dirty_addrs s \<and>
    (\<forall>a. fst a \<noteq> 0 \<longrightarrow> bview t a = bview s a)"
proof -
  have "room s {} (dev, b)" using room_empty [of s "(dev, b)"] c by simp
  from bread_spec [OF B d this] show ?thesis by (auto simp: data_ref_def)
qed

text \<open>A new cache: nothing cached, nothing dirty.\<close>

definition new_cache :: "nat \<Rightarrow> 'a bio_state_scheme \<Rightarrow> 'a bio_state_scheme" where
  "new_cache n s = s\<lparr>bufs := map (\<lambda>k. init_buf n k page_empty) [0..<n], bc_head := 0, bc_tail := n - 1\<rparr>"

lemma init_bufs_run:
  "free_list mem ps \<Longrightarrow> length ks \<le> length ps \<Longrightarrow>
   \<exists>mem1. init_bufs n ks mem = (Ok (map (\<lambda>k. init_buf n k page_empty) ks), mem1) \<and> free_list mem1 (drop (length ks) ps)"
proof (induction ks arbitrary: mem ps)
  case (Cons k ks)
  then obtain p qs where ps: "ps = p # qs" by (cases ps) auto
  obtain mem1 where 1: "kalloc mem = (Some p, mem1)" "free_list mem1 qs" "pages mem1 p = page_empty"
    using fl_get_cons [of mem p qs] Cons.prems(1) by (auto simp: ps kalloc_def)
  obtain mem2 where "init_bufs n ks mem1 = (Ok (map (\<lambda>k. init_buf n k page_empty) ks), mem2)"
    "free_list mem2 (drop (length ks) qs)"
    using Cons.IH [OF 1(2)] Cons.prems(2) by (auto simp: ps)
  then show ?case using 1 by (simp add: ps kop_simps)
qed (simp add: kop_simps)

text \<open>With a free page for each buffer \<open>init\<close> builds the empty cache; with fewer it panics.\<close>

lemma bio_init_run:
  assumes "1 < n" "free_list mem ps" "n \<le> length ps"
  shows "\<exists>mem1. bio_init n (mem, s) = (Ok (), (mem1, new_cache n s)) \<and> free_list mem1 (drop n ps)"
  using init_bufs_run [OF assms(2), of "[0..<n]" n] assms(1,3)
  by (auto simp: bio_init_def new_cache_def kop_simps)

lemma init_bufs_out_of_memory:
  "free_list mem ps \<Longrightarrow> length ps < length ks \<Longrightarrow> fst (init_bufs n ks mem) = Panic ''buffer data alloc failed''"
proof (induction ks arbitrary: mem ps)
  case (Cons k ks)
  show ?case
  proof (cases ps)
    case Nil
    then show ?thesis using Cons.prems(1) by (simp add: kalloc_def fl_get_nil)
  next
    case ps: (Cons p qs)
    then obtain mem1 where 1: "kalloc mem = (Some p, mem1)" "free_list mem1 qs"
      using fl_get_cons [of mem p qs] Cons.prems(1) by (auto simp: kalloc_def)
    have "fst (init_bufs n ks mem1) = Panic ''buffer data alloc failed''"
      using Cons.IH [OF 1(2)] Cons.prems(2) ps by simp
    then show ?thesis using 1(1) by (cases "init_bufs n ks mem1") (simp add: kop_simps)
  qed
qed simp

lemma new_cache_spec:
  assumes "1 < n" "n < LIST_NONE" "curpid s \<noteq> 0" "\<And>a. length (disk s a) = BSIZE"
  shows "\<exists>t. new_cache n s = t \<and> binv t {} \<and> dirty_ix t = {} \<and> length (bufs t) = n \<and>
    disk t = disk s \<and> wlog t = wlog s \<and> curpid t = curpid s \<and> bio_state.more t = bio_state.more s \<and>
    (\<forall>a. fst a \<noteq> 0 \<longrightarrow> bview t a = disk s a)"
proof -
  define t where "t = s\<lparr>bufs := map (\<lambda>k. init_buf n k page_empty) [0..<n], bc_head := 0, bc_tail := n - 1\<rparr>"
  have r: "new_cache n s = t" by (simp add: new_cache_def t_def)
  have b: "bufs t ! k = init_buf n k page_empty" if "k < n" for k using that by (simp add: t_def)
  have "lru t [0..<n]"
    using assms(1,2) unfolding lru_def links_def by (auto simp: t_def init_buf_def)
  moreover have "buf_ok (curpid t) (disk t) False (bufs t ! k)" if "k < n" for k
    using b [OF that] by (simp add: buf_ok_def init_buf_def buf_new_def flags_empty_def page_empty_def)
  moreover have "b_dev (bufs t ! k) = 0" "\<not> DIRTY (b_flags (bufs t ! k))" if "k < n" for k
    using b [OF that] by (simp_all add: init_buf_def buf_new_def flags_empty_def)
  ultimately have B: "binv t {}" "dirty_ix t = {}"
    using assms(3,4) unfolding binv_def dirty_ix_def by (auto simp: t_def)
  have "bview t a = disk s a" if "fst a \<noteq> 0" for a
  proof -
    have "buf_addr (bufs t ! k) = (0, 0)" if "k < length (bufs t)" for k
      using b [of k] that by (simp add: t_def buf_addr_def init_buf_def buf_new_def)
    then have "bview t a = disk t a" using bview_uncached [of t a] that by force
    then show ?thesis by (simp add: t_def)
  qed
  then show ?thesis using r B by (auto simp: t_def)
qed

section \<open>Properties\<close>

text \<open>
  C3: Reading a block returns its current contents. While the invariant holds and the block is
  cached and not held, or some buffer is free to be recycled, \<open>bread\<close> returns a buffer locked by the
  caller that holds the block's contents as last written through the cache or to the device; no
  other block changes, nothing is written, and the invariant (in particular that no block is cached
  twice) holds again with the buffer held.
\<close>

theorem bread_returns_contents:
  assumes "binv s H" "dev \<noteq> 0" "room s H (dev, blockno)"
  shows "\<exists>k t. bread dev blockno s = (Ok k, t) \<and> k \<notin> H \<and> binv t (insert k H) \<and> buf_is_locked k t \<and>
    buf_addr (bufs t ! k) = (dev, blockno) \<and> data_ref k t = bview s (dev, blockno) \<and>
    disk t = disk s \<and> wlog t = wlog s \<and> dirty_addrs t = dirty_addrs s \<and>
    (\<forall>a. fst a \<noteq> 0 \<longrightarrow> bview t a = bview s a)"
proof -
  obtain k t where t: "bread dev blockno s = (Ok k, t)" "k \<notin> H" "binv t (insert k H)"
    "buf_addr (bufs t ! k) = (dev, blockno)" "b_data (bufs t ! k) = bview s (dev, blockno)"
    "same_outside s t" "dirty_addrs t = dirty_addrs s" "\<forall>a. fst a \<noteq> 0 \<longrightarrow> bview t a = bview s a"
    using bread_spec [OF assms] by blast
  then show ?thesis
    using binv_heldD(2) [OF t(3), of k]
    by (auto simp: same_outside_def buf_is_locked_def data_ref_def)
qed

definition fresh_cache :: bio_state where
  "fresh_cache = \<lparr>curpid = 1, bc_head = 0, bc_tail = 2, bufs = map (\<lambda>k. init_buf 3 k page_empty) [0..<3],
     disk = (\<lambda>_. page_empty), wlog = []\<rparr>"

lemma fresh_cache_inv: "binv fresh_cache {}" "dirty_ix fresh_cache = {}" "length (bufs fresh_cache) = 3"
proof -
  obtain t where "new_cache 3 fresh_cache = t" "binv t {}" "dirty_ix t = {}" "length (bufs t) = 3"
    using new_cache_spec [of 3 fresh_cache] by (auto simp: fresh_cache_def page_empty_def)
  moreover have "new_cache 3 fresh_cache = fresh_cache"
    by (simp add: new_cache_def fresh_cache_def)
  ultimately show "binv fresh_cache {}" "dirty_ix fresh_cache = {}" "length (bufs fresh_cache) = 3" by auto
qed

theorem bread_returns_contents_witness:
  "\<exists>k t. bread 1 77 fresh_cache = (Ok k, t) \<and> data_ref k t = bview fresh_cache (1, 77) \<and> buf_is_locked k t"
  using bread_returns_contents [OF fresh_cache_inv(1), of 1 77] room_empty [of fresh_cache "(1, 77)"]
    fresh_cache_inv by auto







end
