(* ===== verification/Fslog.thy ===== *)
theory Fslog
  imports BioInv
begin

text \<open>
  The write-ahead log (\<open>kernel/src/fslog.rs\<close>): the in-memory log, the transaction brackets, the
  commit and the recovery at boot. The state extends the buffer cache's.
\<close>

section \<open>The log\<close>

abbreviation LOGSIZE :: nat where "LOGSIZE \<equiv> 511"

record log =
  log_dev :: u32
  log_start :: u64
  log_size :: nat
  log_len :: nat
  log_blocks :: "u64 list"

definition log_new :: log where
  "log_new = \<lparr>log_dev = 0, log_start = 0, log_size = 0, log_len = 0, log_blocks = replicate LOGSIZE 0\<rparr>"

record log_state =
  outstanding :: nat
  committing :: bool

definition log_state_new :: log_state where
  "log_state_new = \<lparr>outstanding = 0, committing = False\<rparr>"

record fslog_state = bio_state +
  the_log :: log
  lstate :: log_state

definition set_metadata :: "u32 \<Rightarrow> u64 \<Rightarrow> nat \<Rightarrow> log \<Rightarrow> log" where
  "set_metadata dev start sz l = l\<lparr>log_dev := dev, log_start := start, log_size := sz\<rparr>"

definition header :: "log \<Rightarrow> u64 list" where
  "header l = take (log_len l) (log_blocks l)"

definition log_insert :: "u64 \<Rightarrow> log \<Rightarrow> log res" where
  "log_insert blockno l =
     (if blockno \<in> set (header l) then Ok l
      else if log_len l \<ge> length (log_blocks l) then Panic ''index out of bounds''
      else Ok (l\<lparr>log_blocks := (log_blocks l)[log_len l := blockno], log_len := log_len l + 1\<rparr>))"

definition log_clear :: "log \<Rightarrow> log" where
  "log_clear l = l\<lparr>log_len := 0\<rparr>"

definition log_is_empty :: "log \<Rightarrow> bool" where
  "log_is_empty l \<longleftrightarrow> log_len l = 0"

definition log_is_full :: "log \<Rightarrow> bool res" where
  "log_is_full l =
     (if log_size l = 0 then Panic ''attempt to subtract with overflow''
      else Ok (log_len l \<ge> log_size l - 1 \<or> log_len l \<ge> LOGSIZE))"

text \<open>\<open>*(hb.data() as *const u64).add(i)\<close>\<close>

definition data_u64 :: "bytes \<Rightarrow> nat \<Rightarrow> u64" where
  "data_u64 d i = of_nat (from_le (slice d (8 * i) (8 * i + 8)))"

fun insert_all :: "u64 list \<Rightarrow> log \<Rightarrow> log res" where
  "insert_all [] l = Ok l"
| "insert_all (b # bs) l = rbind (log_insert b l) (insert_all bs)"

definition upd_log :: "(log \<Rightarrow> log) \<Rightarrow> 'a fslog_state_scheme \<Rightarrow> 'a fslog_state_scheme" where
  "upd_log f s = s\<lparr>the_log := f (the_log s)\<rparr>"

text \<open>Reading the header block at recovery. A count that does not fit is a panic.\<close>

definition log_read :: "('a fslog_state_scheme, unit) kop" where
  "log_read = bnd (gets the_log) (\<lambda>l.
     expectk ''unwrap'' (with_block (log_dev l) (log_start l) (\<lambda>hb.
       bnd (gets (data_ref hb)) (\<lambda>d.
         let len = unat (data_u64 d 0)
         in if log_size l = 0 then panic ''attempt to subtract with overflow''
            else if len \<ge> LOGSIZE \<or> len \<ge> log_size l - 1 then panic ''corrupt log too large''
            else bnd (lift_res (\<lambda>s. insert_all (map (data_u64 d) [1..<len + 1]) (log_clear (the_log s))))
                   (\<lambda>l1. modify (upd_log (\<lambda>_. l1)))))))"

definition header_bytes :: "log \<Rightarrow> bytes" where
  "header_bytes l = to_le 8 (log_len l) @ concat (map (\<lambda>b. to_le 8 (unat b)) (header l))"

definition log_write :: "('a fslog_state_scheme, unit) kop" where
  "log_write = bnd (gets the_log) (\<lambda>l.
     expectk ''unwrap'' (with_block (log_dev l) (log_start l) (\<lambda>hb.
       bnd (gets (data_ref hb)) (\<lambda>d.
         seqk (set_data hb (overwrite d 0 (header_bytes l))) (buf_write hb)))))"

text \<open>\<open>self.start + tail as u64 + 1\<close>\<close>

definition log_block :: "log \<Rightarrow> nat \<Rightarrow> u64" where
  "log_block l i = log_start l + of_nat i + 1"

definition log_block_check :: "log \<Rightarrow> nat \<Rightarrow> ('a fslog_state_scheme, unit) kop" where
  "log_block_check l i =
     assertk (unat (log_start l) + i + 1 < 2 ^ 64) ''attempt to add with overflow''"

definition log_sync :: "('a fslog_state_scheme, unit) kop" where
  "log_sync = bnd (gets the_log) (\<lambda>l.
     run_all (\<lambda>(i, b). seqk (log_block_check l i) (copy_into (log_dev l) b (log_block l i)))
       (enumerate 0 (header l)))"

definition log_commit :: "('a fslog_state_scheme, unit) kop" where
  "log_commit = bnd (gets the_log) (\<lambda>l.
     run_all (\<lambda>(i, b). seqk (log_block_check l i) (copy_from (log_dev l) (log_block l i) b))
       (enumerate 0 (header l)))"

section \<open>Transactions\<close>

text \<open>\<open>op::begin\<close>: one round of its loop; waiting is \<open>Block\<close>.\<close>

definition op_begin :: "('a fslog_state_scheme, unit) kop" where
  "op_begin s =
     (if committing (lstate s) then (Block, s)
      else if log_len (the_log s) + (outstanding (lstate s) + 1) * MAXOPBLOCKS > LOGSIZE then (Block, s)
      else (Ok (), s\<lparr>lstate := (lstate s)\<lparr>outstanding := outstanding (lstate s) + 1\<rparr>\<rparr>))"

definition op_commit :: "('a fslog_state_scheme, unit) kop" where
  "op_commit s =
     (if log_is_empty (the_log s) then (Ok (), s)
      else seqk log_sync (seqk log_write (seqk log_commit (seqk (modify (upd_log log_clear)) log_write))) s)"

text \<open>The two critical sections of \<open>op::end\<close>: the first says whether the caller commits.\<close>

definition op_end_enter :: "('a fslog_state_scheme, bool) kop" where
  "op_end_enter s =
     (if committing (lstate s) then (Panic ''op end during commit'', s)
      else if outstanding (lstate s) = 0 then (Panic ''attempt to subtract with overflow'', s)
      else let n = outstanding (lstate s) - 1
           in (Ok (n = 0), s\<lparr>lstate := \<lparr>outstanding = n, committing = (n = 0)\<rparr>\<rparr>))"

definition op_end_leave :: "('a fslog_state_scheme, unit) kop" where
  "op_end_leave = modify (\<lambda>s. s\<lparr>lstate := (lstate s)\<lparr>committing := False\<rparr>\<rparr>)"

definition op_end :: "('a fslog_state_scheme, unit) kop" where
  "op_end = bnd op_end_enter (\<lambda>do_commit.
     if do_commit then seqk op_commit op_end_leave else ret ())"

text \<open>\<open>with_op\<close>: the closure's value is handed on after \<open>end\<close>, an error included.\<close>

definition with_op :: "('a fslog_state_scheme, 'r) kop \<Rightarrow> ('a fslog_state_scheme, 'r) kop" where
  "with_op thunk =
     seqk op_begin (catchk thunk (\<lambda>r. seqk op_end (ret r)) (\<lambda>e. seqk op_end (throw e)))"

text \<open>\<open>fslog::write\<close>: log a modified, locked buffer; pinning it in the cache.\<close>

definition fslog_write :: "nat \<Rightarrow> ('a fslog_state_scheme, unit) kop" where
  "fslog_write k s =
     (if \<not> buf_is_locked k s then (Panic ''assertion failed: bp.is_locked()'', s)
      else case log_is_full (the_log s) of
        Ok full \<Rightarrow>
          if full then (Panic ''transaction too big'', s)
          else if outstanding (lstate s) < 1 then (Panic ''logged write outside of transaction'', s)
          else (case log_insert (b_blockno (bufs s ! k)) (the_log s) of
                  Ok l \<Rightarrow> (Ok (), upd_buf k (\<lambda>b. b\<lparr>b_flags := (b_flags b)\<lparr>DIRTY := True\<rparr>\<rparr>)
                                    (s\<lparr>the_log := l\<rparr>))
                | Panic e \<Rightarrow> (Panic e, s) | Err e \<Rightarrow> (Err e, s) | Block \<Rightarrow> (Block, s) | Diverge \<Rightarrow> (Diverge, s))
      | Panic e \<Rightarrow> (Panic e, s) | Err e \<Rightarrow> (Err e, s) | Block \<Rightarrow> (Block, s) | Diverge \<Rightarrow> (Diverge, s))"

section \<open>Recovery\<close>

definition recover :: "('a fslog_state_scheme, unit) kop" where
  "recover = seqk log_read (seqk log_commit (seqk (modify (upd_log log_clear)) log_write))"

definition fslog_init :: "u32 \<Rightarrow> u64 \<Rightarrow> nat \<Rightarrow> ('a fslog_state_scheme, unit) kop" where
  "fslog_init dev sb_log_start sb_nlog =
     seqk (modify (upd_log (set_metadata dev sb_log_start sb_nlog))) recover"

end
