(* ===== verification/Fs.thy ===== *)
theory Fs
  imports Fslog
begin

text \<open>
  The file system (\<open>kernel/src/fs.rs\<close>): the on-disk structures and their byte layout, block and inode
  allocation, the inode cache, the block map of a file, reading and writing, directories, path names
  and \<open>create\<close>. The state extends the log's with the superblock, the inode cache and the current
  directory of the running process; an \<open>&Inode\<close> is an index into the cache.
\<close>

section \<open>On-disk structures\<close>

abbreviation ROOTINO :: u64 where "ROOTINO \<equiv> 1"
abbreviation ROOTDEV :: u32 where "ROOTDEV \<equiv> 1"
abbreviation NDIRECT :: nat where "NDIRECT \<equiv> 12"
abbreviation NINDIRECT :: nat where "NINDIRECT \<equiv> 512"
abbreviation MAXFILE :: nat where "MAXFILE \<equiv> 524"
abbreviation IPB :: nat where "IPB \<equiv> 32"
abbreviation BPB :: nat where "BPB \<equiv> 32768"
abbreviation DIRSIZ :: nat where "DIRSIZ \<equiv> 24"
abbreviation DIRENT_SIZE :: nat where "DIRENT_SIZE \<equiv> 32"
abbreviation DINODE_SIZE :: nat where "DINODE_SIZE \<equiv> 128"
abbreviation NINODE :: nat where "NINODE \<equiv> 1024"

record superblock =
  sb_size :: u64
  sb_nblocks :: u64
  sb_ninodes :: u64
  sb_nlog :: u64
  sb_log_start :: u64
  sb_inode_start :: u64
  sb_bmap_start :: u64

text \<open>The sums are checked: a superblock that places the table past the end of the numbers panics.\<close>

definition checked_add :: "u64 \<Rightarrow> u64 \<Rightarrow> u64 res" where
  "checked_add a b = (if unat a + unat b < 2 ^ 64 then Ok (a + b) else Panic ''attempt to add with overflow'')"

definition iblock :: "superblock \<Rightarrow> u64 \<Rightarrow> u64 res" where
  "iblock sb inum = checked_add (inum div 32) (sb_inode_start sb)"

definition bblock :: "superblock \<Rightarrow> u64 \<Rightarrow> u64 res" where
  "bblock sb b = checked_add (b div 32768) (sb_bmap_start sb)"

definition superblock_new :: superblock where
  "superblock_new = \<lparr>sb_size = 0, sb_nblocks = 0, sb_ninodes = 0, sb_nlog = 0, sb_log_start = 0,
     sb_inode_start = 0, sb_bmap_start = 0\<rparr>"

definition superblock_of_bytes :: "bytes \<Rightarrow> superblock" where
  "superblock_of_bytes d = \<lparr>sb_size = data_u64 d 0, sb_nblocks = data_u64 d 1, sb_ninodes = data_u64 d 2,
     sb_nlog = data_u64 d 3, sb_log_start = data_u64 d 4, sb_inode_start = data_u64 d 5,
     sb_bmap_start = data_u64 d 6\<rparr>"

definition superblock_read :: "u32 \<Rightarrow> ('a fslog_state_scheme, superblock) kop" where
  "superblock_read dev = with_block dev ROOTINO (\<lambda>bp. gets (\<lambda>s. superblock_of_bytes (data_ref bp s)))"

record dinode =
  di_typ :: u32
  di_major :: u32
  di_minor :: u32
  di_nlink :: u32
  di_size :: u64
  di_addrs :: "u64 list"

definition dinode_new :: dinode where
  "dinode_new = \<lparr>di_typ = 0, di_major = 0, di_minor = 0, di_nlink = 0, di_size = 0,
     di_addrs = replicate (NDIRECT + 1) 0\<rparr>"

definition data_u32 :: "bytes \<Rightarrow> nat \<Rightarrow> u32" where
  "data_u32 d off = of_nat (from_le (slice d off (off + 4)))"

text \<open>The \<open>repr(C)\<close> layout of \<open>DInode\<close>: four 32-bit fields, the size, thirteen block addresses.\<close>

definition dinode_of_bytes :: "bytes \<Rightarrow> dinode" where
  "dinode_of_bytes d = \<lparr>di_typ = data_u32 d 0, di_major = data_u32 d 4, di_minor = data_u32 d 8,
     di_nlink = data_u32 d 12, di_size = data_u64 d 2, di_addrs = map (\<lambda>i. data_u64 d (3 + i)) [0..<NDIRECT + 1]\<rparr>"

definition bytes_of_dinode :: "dinode \<Rightarrow> bytes" where
  "bytes_of_dinode di = to_le 4 (unat (di_typ di)) @ to_le 4 (unat (di_major di)) @ to_le 4 (unat (di_minor di)) @
     to_le 4 (unat (di_nlink di)) @ to_le 8 (unat (di_size di)) @
     concat (map (\<lambda>a. to_le 8 (unat a)) (di_addrs di))"

record dirent =
  de_inum :: u64
  de_name :: bytes

definition dirent_of_bytes :: "bytes \<Rightarrow> dirent" where
  "dirent_of_bytes d = \<lparr>de_inum = data_u64 d 0, de_name = slice d 8 DIRENT_SIZE\<rparr>"

definition dirent_name :: "dirent \<Rightarrow> bytes" where
  "dirent_name e = (case position (\<lambda>b. b = 0) (de_name e) of
     Some nul \<Rightarrow> take nul (de_name e) | None \<Rightarrow> de_name e)"

definition dirent_bytes :: "u64 \<Rightarrow> bytes \<Rightarrow> bytes" where
  "dirent_bytes inum name =
     (let len = min DIRSIZ (length name)
      in overwrite (overwrite (replicate DIRENT_SIZE 0) 0 (to_le 8 (unat inum))) 8 (take len name))"

section \<open>State\<close>

record inode =
  i_dev :: u32
  i_inum :: u64
  i_sb :: "superblock option"
  i_ref :: u32
  i_lock :: sleeplock
  i_valid :: bool
  i_dinode :: dinode

definition inode_new :: inode where
  "inode_new = \<lparr>i_dev = 0, i_inum = 0, i_sb = None, i_ref = 0, i_lock = sleeplock_new, i_valid = False,
     i_dinode = dinode_new\<rparr>"

record fs_state = fslog_state +
  the_sb :: superblock
  icache :: "inode list"
  cwd :: nat

definition geti :: "nat \<Rightarrow> (inode \<Rightarrow> 'r) \<Rightarrow> ('a fs_state_scheme, 'r) kop" where
  "geti ip f = gets (\<lambda>s. f (icache s ! ip))"

definition modi :: "nat \<Rightarrow> (inode \<Rightarrow> inode) \<Rightarrow> ('a fs_state_scheme, unit) kop" where
  "modi ip f = modify (\<lambda>s. s\<lparr>icache := (icache s)[ip := f (icache s ! ip)]\<rparr>)"

definition modd :: "nat \<Rightarrow> (dinode \<Rightarrow> dinode) \<Rightarrow> ('a fs_state_scheme, unit) kop" where
  "modd ip f = modi ip (\<lambda>i. i\<lparr>i_dinode := f (i_dinode i)\<rparr>)"

definition sb_of :: "string \<Rightarrow> nat \<Rightarrow> ('a fs_state_scheme, superblock) kop" where
  "sb_of msg ip = bnd (geti ip i_sb) (\<lambda>r. case r of Some sb \<Rightarrow> ret sb | None \<Rightarrow> panic msg)"

definition holding_inode :: "nat \<Rightarrow> ('a fs_state_scheme, bool) kop" where
  "holding_inode ip = gets (\<lambda>s. sl_holding (curpid s) (i_lock (icache s ! ip)))"

definition fs_init :: "u32 \<Rightarrow> ('a fs_state_scheme, unit) kop" where
  "fs_init dev = bnd (expectk ''superblock read failed'' (superblock_read dev))
     (\<lambda>sb. modify (\<lambda>s. s\<lparr>the_sb := sb\<rparr>))"

section \<open>Blocks\<close>

definition bzero :: "u32 \<Rightarrow> u64 \<Rightarrow> ('a fslog_state_scheme, unit) kop" where
  "bzero dev blockno =
     bnd (expectk ''block read'' (bread dev blockno)) (\<lambda>bp.
     bnd (gets (data_ref bp)) (\<lambda>d.
     seqk (set_data bp (replicate (length d) 0))
       (seqk (fslog_write bp) (relse bp))))"

definition bit_clear :: "bytes \<Rightarrow> nat \<Rightarrow> bool" where
  "bit_clear d bi \<longleftrightarrow> (d ! (bi div 8)) AND push_bit (bi mod 8) 1 = 0"

definition mark_bit :: "bytes \<Rightarrow> nat \<Rightarrow> bytes" where
  "mark_bit d bi = d[bi div 8 := (d ! (bi div 8)) OR push_bit (bi mod 8) 1]"

definition unmark_bit :: "bytes \<Rightarrow> nat \<Rightarrow> bytes" where
  "unmark_bit d bi = d[bi div 8 := (d ! (bi div 8)) AND NOT (push_bit (bi mod 8) 1)]"

text \<open>The inner loop of \<open>balloc\<close>: the first free bit of a bitmap block below the size.\<close>

function scan_bits :: "bytes \<Rightarrow> nat \<Rightarrow> nat \<Rightarrow> nat \<Rightarrow> nat option" where
  "scan_bits d b sz bi =
     (if bi \<ge> BPB \<or> b + bi \<ge> sz then None
      else if bit_clear d bi then Some bi
      else scan_bits d b sz (bi + 1))"
  by pat_completeness auto
termination
  by (relation "measure (\<lambda>(d, b, sz, bi). BPB - bi)") auto

declare scan_bits.simps [simp del]

fun balloc_loop :: "u32 \<Rightarrow> superblock \<Rightarrow> nat list \<Rightarrow> ('a fslog_state_scheme, u64) kop" where
  "balloc_loop dev sb [] = throw ''balloc: out of blocks''"
| "balloc_loop dev sb (b # bs) =
     bnd (lift_res (\<lambda>_. bblock sb (of_nat b))) (\<lambda>bn.
     bnd (bread dev bn) (\<lambda>bp.
     bnd (gets (data_ref bp)) (\<lambda>d.
       case scan_bits d b (unat (sb_size sb)) 0 of
         Some bi \<Rightarrow>
           seqk (set_data bp (mark_bit d bi))
             (seqk (fslog_write bp)
               (seqk (relse bp)
                 (seqk (bzero dev (of_nat (b + bi))) (ret (of_nat (b + bi))))))
       | None \<Rightarrow> seqk (relse bp) (balloc_loop dev sb bs))))"

definition balloc :: "u32 \<Rightarrow> superblock \<Rightarrow> ('a fslog_state_scheme, u64) kop" where
  "balloc dev sb = balloc_loop dev sb (step_by 0 BPB (unat (sb_size sb)))"

definition bfree :: "u32 \<Rightarrow> u64 \<Rightarrow> superblock \<Rightarrow> ('a fslog_state_scheme, unit) kop" where
  "bfree dev blockno sb =
     bnd (lift_res (\<lambda>_. bblock sb blockno)) (\<lambda>bn.
     expectk ''bfree'' (with_block dev bn (\<lambda>bp.
       let bi = unat blockno mod BPB
       in bnd (gets (data_ref bp)) (\<lambda>d.
            seqk (assertk (\<not> bit_clear d bi) ''freeing free block'')
              (seqk (set_data bp (unmark_bit d bi)) (fslog_write bp))))))"

section \<open>Inodes\<close>

definition dinode_off :: "u64 \<Rightarrow> nat" where
  "dinode_off inum = (unat inum mod IPB) * DINODE_SIZE"

definition buf_to_dinode :: "nat \<Rightarrow> u64 \<Rightarrow> 'a bio_state_scheme \<Rightarrow> dinode" where
  "buf_to_dinode bp inum s =
     dinode_of_bytes (slice (data_ref bp s) (dinode_off inum) (dinode_off inum + DINODE_SIZE))"

definition set_dinode :: "nat \<Rightarrow> u64 \<Rightarrow> dinode \<Rightarrow> ('a bio_state_scheme, unit) kop" where
  "set_dinode bp inum di =
     bnd (gets (data_ref bp)) (\<lambda>d. set_data bp (overwrite d (dinode_off inum) (bytes_of_dinode di)))"

definition inc_ref_cnt :: "nat \<Rightarrow> ('a fs_state_scheme, unit) kop" where
  "inc_ref_cnt ip = bnd (geti ip i_ref) (\<lambda>r.
     if r = -1 then panic ''attempt to add with overflow'' else modi ip (\<lambda>i. i\<lparr>i_ref := r + 1\<rparr>))"

definition dec_ref_cnt :: "nat \<Rightarrow> ('a fs_state_scheme, unit) kop" where
  "dec_ref_cnt ip = bnd (geti ip i_ref) (\<lambda>r.
     if r = 0 then panic ''attempt to subtract with overflow'' else modi ip (\<lambda>i. i\<lparr>i_ref := r - 1\<rparr>))"

text \<open>\<open>Inode::get\<close>: the cached inode if there is one, otherwise the first free entry.\<close>

definition inode_get :: "u32 \<Rightarrow> u64 \<Rightarrow> superblock \<Rightarrow> ('a fs_state_scheme, nat) kop" where
  "inode_get dev inum sb = bnd (gets icache) (\<lambda>ic.
     case position (\<lambda>i. i_ref i > 0 \<and> i_dev i = dev \<and> i_inum i = inum) ic of
       Some ip \<Rightarrow> seqk (inc_ref_cnt ip) (ret ip)
     | None \<Rightarrow>
         (case position (\<lambda>i. i_ref i = 0) ic of
            None \<Rightarrow> throw ''Inode::get: no inodes''
          | Some ip \<Rightarrow>
              seqk (modi ip (\<lambda>i. i\<lparr>i_dev := dev, i_inum := inum, i_sb := Some sb\<rparr>))
                (seqk (inc_ref_cnt ip)
                  (seqk (modi ip (\<lambda>i. i\<lparr>i_valid := False\<rparr>)) (ret ip)))))"

datatype file_type = Unused | Dir | File | Dev

fun file_type_num :: "file_type \<Rightarrow> u32" where
  "file_type_num Unused = 0"
| "file_type_num Dir = 1"
| "file_type_num File = 2"
| "file_type_num Dev = 3"

definition typ_of :: "u32 \<Rightarrow> file_type res" where
  "typ_of t = (if t = 0 then Ok Unused else if t = 1 then Ok Dir else if t = 2 then Ok File
     else if t = 3 then Ok Dev else Panic ''bad inode file type'')"

definition inode_typ :: "nat \<Rightarrow> ('a fs_state_scheme, file_type) kop" where
  "inode_typ ip = lift_res (\<lambda>s. typ_of (di_typ (i_dinode (icache s ! ip))))"

fun ialloc_loop :: "u32 \<Rightarrow> file_type \<Rightarrow> superblock \<Rightarrow> nat list \<Rightarrow> ('a fs_state_scheme, nat) kop" where
  "ialloc_loop dev ty sb [] = throw ''ialloc: no inodes''"
| "ialloc_loop dev ty sb (inum # inums) =
     bnd (lift_res (\<lambda>_. iblock sb (of_nat inum))) (\<lambda>bn.
     bnd (bread dev bn) (\<lambda>bp.
     bnd (gets (buf_to_dinode bp (of_nat inum))) (\<lambda>di.
       if di_typ di = 0 then
         seqk (set_dinode bp (of_nat inum) (dinode_new\<lparr>di_typ := file_type_num ty\<rparr>))
           (seqk (fslog_write bp)
             (seqk (relse bp) (inode_get dev (of_nat inum) sb)))
       else seqk (relse bp) (ialloc_loop dev ty sb inums))))"

definition ialloc :: "u32 \<Rightarrow> file_type \<Rightarrow> superblock \<Rightarrow> ('a fs_state_scheme, nat) kop" where
  "ialloc dev ty sb = ialloc_loop dev ty sb [1..<unat (sb_ninodes sb)]"

definition nlink_inc :: "nat \<Rightarrow> ('a fs_state_scheme, unit) kop" where
  "nlink_inc ip = bnd (geti ip (\<lambda>i. di_nlink (i_dinode i))) (\<lambda>n.
     if n = -1 then panic ''attempt to add with overflow'' else modd ip (\<lambda>d. d\<lparr>di_nlink := n + 1\<rparr>))"

definition nlink_dec :: "nat \<Rightarrow> ('a fs_state_scheme, u32) kop" where
  "nlink_dec ip = bnd (geti ip (\<lambda>i. di_nlink (i_dinode i))) (\<lambda>n.
     if n = 0 then panic ''attempt to subtract with overflow''
     else seqk (modd ip (\<lambda>d. d\<lparr>di_nlink := n - 1\<rparr>)) (ret n))"

definition inode_update :: "nat \<Rightarrow> ('a fs_state_scheme, unit) kop" where
  "inode_update ip = bnd (sb_of ''update requires superblock'' ip) (\<lambda>sb.
     bnd (geti ip id) (\<lambda>i.
       bnd (lift_res (\<lambda>_. iblock sb (i_inum i))) (\<lambda>bn.
       with_block (i_dev i) bn (\<lambda>bp.
         seqk (set_dinode bp (i_inum i) (i_dinode i)) (fslog_write bp)))))"

definition inode_dup :: "nat \<Rightarrow> ('a fs_state_scheme, nat) kop" where
  "inode_dup ip = seqk (inc_ref_cnt ip) (ret ip)"

definition acquire_inode :: "nat \<Rightarrow> ('a fs_state_scheme, unit) kop" where
  "acquire_inode ip = bnd (lift_res (\<lambda>s. sl_acquire (curpid s) (i_lock (icache s ! ip))))
     (\<lambda>l. modi ip (\<lambda>i. i\<lparr>i_lock := l\<rparr>))"

definition release_inode :: "nat \<Rightarrow> ('a fs_state_scheme, unit) kop" where
  "release_inode ip = bnd (lift_res (\<lambda>s. sl_release (curpid s) (i_lock (icache s ! ip))))
     (\<lambda>l. modi ip (\<lambda>i. i\<lparr>i_lock := l\<rparr>))"

definition inode_lock :: "nat \<Rightarrow> ('a fs_state_scheme, unit) kop" where
  "inode_lock ip =
     bnd (geti ip i_ref) (\<lambda>r. seqk (assertk (r > 0) ''ilock unref inode'')
     (bnd (sb_of ''update requires superblock'' ip) (\<lambda>sb.
     seqk (acquire_inode ip)
     (bnd (geti ip id) (\<lambda>i.
       if i_valid i then ret ()
       else bnd (lift_res (\<lambda>_. iblock sb (i_inum i))) (\<lambda>bn.
            bnd (expectk ''block read'' (with_block (i_dev i) bn
                   (\<lambda>bp. gets (buf_to_dinode bp (i_inum i))))) (\<lambda>di.
            seqk (modi ip (\<lambda>i. i\<lparr>i_dinode := di, i_valid := True\<rparr>))
            (bnd (inode_typ ip) (\<lambda>ty. assertk (ty \<noteq> Unused) ''ilock: no type'')))))))))"

definition inode_unlock :: "nat \<Rightarrow> ('a fs_state_scheme, unit) kop" where
  "inode_unlock ip =
     bnd (holding_inode ip) (\<lambda>h. bnd (geti ip i_ref) (\<lambda>r.
       seqk (assertk (h \<and> r > 0) ''inode unlock'') (release_inode ip)))"

section \<open>File contents\<close>

text \<open>\<open>bmap\<close>: the address of a file's block, allocated if the file has none there.\<close>

definition bmap_indirect :: "u32 \<Rightarrow> superblock \<Rightarrow> u64 \<Rightarrow> nat \<Rightarrow> ('a fs_state_scheme, u64) kop" where
  "bmap_indirect dev sb addr bn =
     with_block dev addr (\<lambda>bp.
       bnd (gets (data_ref bp)) (\<lambda>d.
         if data_u64 d bn = 0 then
           bnd (balloc dev sb) (\<lambda>a.
             seqk (set_data bp (overwrite d (8 * bn) (to_le 8 (unat a))))
               (seqk (fslog_write bp) (ret a)))
         else ret (data_u64 d bn)))"

definition bmap :: "nat \<Rightarrow> u64 \<Rightarrow> ('a fs_state_scheme, u64) kop" where
  "bmap ip bn0 =
     bnd (holding_inode ip) (\<lambda>h. seqk (assertk h ''bmap on unlocked inode'')
     (bnd (sb_of ''bmap requires superblock'' ip) (\<lambda>sb.
     bnd (geti ip id) (\<lambda>i.
       let bn = unat bn0; addrs = di_addrs (i_dinode i); dev = i_dev i
       in if bn < NDIRECT then
            (if addrs ! bn = 0
             then bnd (balloc dev sb) (\<lambda>a.
                    seqk (modd ip (\<lambda>d. d\<lparr>di_addrs := (di_addrs d)[bn := a]\<rparr>)) (ret a))
             else ret (addrs ! bn))
          else if bn - NDIRECT < NINDIRECT then
            bnd (if addrs ! NDIRECT = 0
                 then bnd (balloc dev sb) (\<lambda>a.
                        seqk (modd ip (\<lambda>d. d\<lparr>di_addrs := (di_addrs d)[NDIRECT := a]\<rparr>)) (ret a))
                 else ret (addrs ! NDIRECT))
              (\<lambda>addr. bmap_indirect dev sb addr (bn - NDIRECT))
          else throw ''bmap: out of range''))))"

text \<open>\<open>trunc1\<close>: free every direct block, then the blocks of the indirect block and the block itself.\<close>

definition trunc_direct :: "nat \<Rightarrow> u32 \<Rightarrow> superblock \<Rightarrow> nat \<Rightarrow> ('a fs_state_scheme, unit) kop" where
  "trunc_direct ip dev sb k =
     bnd (geti ip (\<lambda>i. di_addrs (i_dinode i) ! k)) (\<lambda>a.
       if a = 0 then ret ()
       else seqk (bfree dev a sb) (modd ip (\<lambda>d. d\<lparr>di_addrs := (di_addrs d)[k := 0]\<rparr>)))"

definition trunc_indirect :: "u32 \<Rightarrow> superblock \<Rightarrow> nat \<Rightarrow> nat \<Rightarrow> ('a fs_state_scheme, unit) kop" where
  "trunc_indirect dev sb bp k =
     bnd (gets (data_ref bp)) (\<lambda>d.
       if data_u64 d k = 0 then ret ()
       else seqk (bfree dev (data_u64 d k) sb)
              (bnd (gets (data_ref bp)) (\<lambda>d. set_data bp (overwrite d (8 * k) (to_le 8 0)))))"

definition trunc1 :: "nat \<Rightarrow> ('a fs_state_scheme, unit) kop" where
  "trunc1 ip =
     bnd (sb_of ''allocated inode sans superblock ref'' ip) (\<lambda>sb.
     bnd (geti ip i_dev) (\<lambda>dev.
     seqk (run_all (trunc_direct ip dev sb) [0..<NDIRECT])
     (bnd (geti ip (\<lambda>i. di_addrs (i_dinode i) ! NDIRECT)) (\<lambda>ind.
     seqk (if ind = 0 then ret ()
           else seqk (with_block dev ind (\<lambda>bp. run_all (trunc_indirect dev sb bp) [0..<NINDIRECT]))
                  (seqk (bfree dev ind sb)
                    (modd ip (\<lambda>d. d\<lparr>di_addrs := (di_addrs d)[NDIRECT := 0]\<rparr>))))
       (modd ip (\<lambda>d. d\<lparr>di_size := 0\<rparr>))))))"

definition inode_trunc :: "nat \<Rightarrow> ('a fs_state_scheme, unit) kop" where
  "inode_trunc ip =
     bnd (holding_inode ip) (\<lambda>h. seqk (assertk h ''truncating unlocked inode'')
       (seqk (trunc1 ip) (inode_update ip)))"

text \<open>\<open>put\<close>: an error of \<open>trunc\<close> or \<open>update\<close> returns early, with the inode still locked.\<close>

definition inode_put :: "nat \<Rightarrow> ('a fs_state_scheme, unit) kop" where
  "inode_put ip =
     seqk (acquire_inode ip)
     (bnd (geti ip id) (\<lambda>i.
     seqk (if i_valid i \<and> di_nlink (i_dinode i) = 0 \<and> i_ref i = 1
           then seqk (inode_trunc ip)
                  (seqk (modd ip (\<lambda>d. d\<lparr>di_typ := 0\<rparr>))
                    (seqk (inode_update ip) (modi ip (\<lambda>i. i\<lparr>i_valid := False\<rparr>))))
           else ret ())
       (seqk (release_inode ip) (dec_ref_cnt ip))))"

definition unlock_put :: "nat \<Rightarrow> ('a fs_state_scheme, unit) kop" where
  "unlock_put ip = seqk (inode_unlock ip) (inode_put ip)"

record stat =
  st_typ :: file_type
  st_dev :: u32
  st_ino :: u64
  st_nlink :: u32
  st_size :: u64

definition stati :: "nat \<Rightarrow> ('a fs_state_scheme, stat) kop" where
  "stati ip = bnd (inode_typ ip) (\<lambda>ty. geti ip (\<lambda>i.
     \<lparr>st_typ = ty, st_dev = i_dev i, st_ino = i_inum i, st_nlink = di_nlink (i_dinode i),
      st_size = di_size (i_dinode i)\<rparr>))"

text \<open>
  \<open>readi\<close>: the destination slice is given by its length; the bytes stored into it are the result.
\<close>

function readi_loop :: "nat \<Rightarrow> nat \<Rightarrow> nat \<Rightarrow> bytes \<Rightarrow> ('a fs_state_scheme, bytes) kop" where
  "readi_loop ip off left acc =
     (if left = 0 then ret acc
      else let boff = off mod BSIZE; m = min left (BSIZE - boff)
           in bnd (geti ip i_dev) (\<lambda>dev.
              bnd (bmap ip (of_nat (off div BSIZE))) (\<lambda>a.
              bnd (with_block dev a (\<lambda>bp. gets (\<lambda>s. slice (data_ref bp s) boff (boff + m)))) (\<lambda>src.
                readi_loop ip (off + m) (left - m) (acc @ src)))))"
  by pat_completeness auto
termination
  by (relation "measure (\<lambda>(ip, off, left, acc). left)") (auto simp: Let_def)

declare readi_loop.simps [simp del]

definition readi :: "nat \<Rightarrow> nat \<Rightarrow> u64 \<Rightarrow> ('a fs_state_scheme, bytes) kop" where
  "readi ip len off =
     bnd (geti ip (\<lambda>i. di_size (i_dinode i))) (\<lambda>sz.
       if off > sz then throw ''offset beyond end of file''
       else if off + of_nat len < off then throw ''offset and length wrap''
       else readi_loop ip (unat off) (min len (unat sz - unat off)) [])"

function writei_loop :: "nat \<Rightarrow> bytes \<Rightarrow> nat \<Rightarrow> ('a fs_state_scheme, unit) kop" where
  "writei_loop ip src off =
     (if src = [] then ret ()
      else let boff = off mod BSIZE; m = min (length src) (BSIZE - boff)
           in bnd (geti ip i_dev) (\<lambda>dev.
              bnd (bmap ip (of_nat (off div BSIZE))) (\<lambda>a.
              seqk (with_block dev a (\<lambda>bp.
                      bnd (gets (data_ref bp)) (\<lambda>d.
                        seqk (set_data bp (overwrite d boff (take m src))) (fslog_write bp))))
                (writei_loop ip (drop m src) (off + m)))))"
  by pat_completeness auto
termination
  by (relation "measure (\<lambda>(ip, src, off). length src)") (auto simp: Let_def)

declare writei_loop.simps [simp del]

definition writei :: "nat \<Rightarrow> bytes \<Rightarrow> u64 \<Rightarrow> ('a fs_state_scheme, nat) kop" where
  "writei ip src off =
     bnd (geti ip (\<lambda>i. di_size (i_dinode i))) (\<lambda>sz.
       if off > sz then throw ''offset beyond end of file''
       else if off + of_nat (length src) < off then throw ''offset and length wrap''
       else if unat off + length src > MAXFILE * BSIZE then throw ''write makes file too big''
       else seqk (writei_loop ip src (unat off))
         (seqk (if length src > 0 \<and> unat off + length src > unat sz
                then seqk (modd ip (\<lambda>d. d\<lparr>di_size := of_nat (unat off + length src)\<rparr>)) (inode_update ip)
                else ret ())
           (ret (length src))))"

section \<open>Directories\<close>

fun dir_scan :: "nat \<Rightarrow> bytes \<Rightarrow> nat list \<Rightarrow> ('a fs_state_scheme, nat \<times> u64) kop" where
  "dir_scan ip name [] = throw ''file not found''"
| "dir_scan ip name (off # offs) =
     bnd (readi ip DIRENT_SIZE (of_nat off)) (\<lambda>bs.
     seqk (assertk (length bs = DIRENT_SIZE) ''dir_lookup read'')
     (let e = dirent_of_bytes bs
      in if de_inum e = 0 then dir_scan ip name offs
         else if dirent_name e = name then
           bnd (sb_of ''superblockless inode'' ip) (\<lambda>sb.
           bnd (geti ip i_dev) (\<lambda>dev.
           bnd (inode_get dev (de_inum e) sb) (\<lambda>jp. ret (jp, of_nat off))))
         else dir_scan ip name offs))"

definition dir_lookup_offset :: "nat \<Rightarrow> bytes \<Rightarrow> ('a fs_state_scheme, nat \<times> u64) kop" where
  "dir_lookup_offset ip name =
     bnd (inode_typ ip) (\<lambda>ty. seqk (assertk (ty = Dir) ''dir_lookup not in a directory'')
     (bnd (geti ip (\<lambda>i. di_size (i_dinode i))) (\<lambda>sz.
       dir_scan ip name (step_by 0 DIRENT_SIZE (unat sz)))))"

definition dir_lookup :: "nat \<Rightarrow> bytes \<Rightarrow> ('a fs_state_scheme, nat) kop" where
  "dir_lookup ip name = bnd (dir_lookup_offset ip name) (\<lambda>(jp, off). ret jp)"

text \<open>The offset of the first free entry of a directory, its end if there is none.\<close>

fun dir_free_slot :: "nat \<Rightarrow> nat \<Rightarrow> nat list \<Rightarrow> ('a fs_state_scheme, nat) kop" where
  "dir_free_slot ip fin [] = ret fin"
| "dir_free_slot ip fin (off # offs) =
     bnd (readi ip DIRENT_SIZE (of_nat off)) (\<lambda>bs.
     seqk (assertk (length bs = DIRENT_SIZE) ''dir_lookup read'')
     (if data_u64 bs 0 = 0 then ret off else dir_free_slot ip (off + DIRENT_SIZE) offs))"

definition dir_link :: "nat \<Rightarrow> bytes \<Rightarrow> u64 \<Rightarrow> ('a fs_state_scheme, unit) kop" where
  "dir_link ip name inum =
     catchk (dir_lookup ip name)
       (\<lambda>jp. seqk (inode_put jp) (throw ''file already exists''))
       (\<lambda>_. bnd (geti ip (\<lambda>i. di_size (i_dinode i))) (\<lambda>sz.
          bnd (dir_free_slot ip 0 (step_by 0 DIRENT_SIZE (unat sz))) (\<lambda>off.
          bnd (writei ip (dirent_bytes inum name) (of_nat off)) (\<lambda>n.
            assertk (n = DIRENT_SIZE) ''assertion failed: nwrite''))))"

fun all_free :: "nat \<Rightarrow> nat list \<Rightarrow> ('a fs_state_scheme, bool) kop" where
  "all_free ip [] = ret True"
| "all_free ip (off # offs) =
     bnd (readi ip DIRENT_SIZE (of_nat off)) (\<lambda>bs.
     seqk (assertk (length bs = DIRENT_SIZE) ''dir_lookup read'')
     (if de_inum (dirent_of_bytes bs) \<noteq> 0 then ret False else all_free ip offs))"

definition is_unlinkable :: "nat \<Rightarrow> ('a fs_state_scheme, bool) kop" where
  "is_unlinkable ip = bnd (inode_typ ip) (\<lambda>ty.
     if ty = Dir
     then bnd (geti ip (\<lambda>i. di_size (i_dinode i))) (\<lambda>sz.
            all_free ip (step_by (2 * DIRENT_SIZE) DIRENT_SIZE (unat sz)))
     else ret True)"

definition with_putlock :: "nat \<Rightarrow> (nat \<Rightarrow> ('a fs_state_scheme, 'r) kop) \<Rightarrow> ('a fs_state_scheme, 'r) kop" where
  "with_putlock ip thunk =
     seqk (inode_lock ip)
       (catchk (thunk ip)
         (\<lambda>r. seqk (unlock_put ip) (ret r))
         (\<lambda>e. catchk (unlock_put ip) (\<lambda>_. throw e) (\<lambda>_. throw e)))"

text \<open>\<open>Inode::with_lock\<close> for a closure that returns a \<open>Result\<close>.\<close>

definition with_ilock :: "nat \<Rightarrow> (nat \<Rightarrow> ('a fs_state_scheme, 'r) kop) \<Rightarrow> ('a fs_state_scheme, 'r) kop" where
  "with_ilock ip thunk =
     seqk (inode_lock ip)
       (catchk (thunk ip)
         (\<lambda>r. seqk (inode_unlock ip) (ret r))
         (\<lambda>e. seqk (inode_unlock ip) (throw e)))"

text \<open>Dropping an active \<open>PutLockGuard\<close>: the result of \<open>unlock_put\<close> is ignored.\<close>

definition drop_guard :: "nat \<Rightarrow> ('a fs_state_scheme, unit) kop" where
  "drop_guard ip = catchk (unlock_put ip) ret (\<lambda>_. ret ())"

definition guard_err :: "nat \<Rightarrow> ('a fs_state_scheme, 'r) kop \<Rightarrow> ('a fs_state_scheme, 'r) kop" where
  "guard_err ip m = catchk m ret (\<lambda>e. seqk (drop_guard ip) (throw e))"

text \<open>
  \<open>dir_unlink\<close>: the guard on the directory is active until it is released inside the closure, so an
  error before that point drops it and an error after it does not.
\<close>

definition dir_unlink_body :: "nat \<Rightarrow> u64 \<Rightarrow> nat \<Rightarrow> ('a fs_state_scheme, bool \<times> string option) kop" where
  "dir_unlink_body dp offset ip =
     bnd (geti ip (\<lambda>i. di_nlink (i_dinode i))) (\<lambda>n. seqk (assertk (n > 0) ''unlink inode < 1 links'')
     (catchk (bnd (is_unlinkable ip) (\<lambda>ok.
        if \<not> ok then throw ''not linkable''
        else bnd (expectk ''unlink: writei'' (writei dp (replicate DIRENT_SIZE 0) offset)) (\<lambda>n.
             seqk (assertk (n = DIRENT_SIZE) ''unlink: writei write'')
             (bnd (inode_typ ip) (\<lambda>ty.
                if ty = Dir then bnd (nlink_dec dp) (\<lambda>_. inode_update dp) else ret ())))))
       (\<lambda>_. catchk (seqk (unlock_put dp) (bnd (nlink_dec ip) (\<lambda>_. inode_update ip)))
              (\<lambda>_. ret (False, None)) (\<lambda>e. ret (False, Some e)))
       (\<lambda>e. ret (True, Some e))))"

definition dir_unlink :: "nat \<Rightarrow> bytes \<Rightarrow> ('a fs_state_scheme, unit) kop" where
  "dir_unlink dp name =
     seqk (inode_lock dp)
     (bnd (guard_err dp (dir_lookup_offset dp name)) (\<lambda>(ip, offset).
       seqk (inode_lock ip)
       (bnd (dir_unlink_body dp offset ip) (\<lambda>(active, e).
         case e of
           None \<Rightarrow> unlock_put ip
         | Some m \<Rightarrow> seqk (drop_guard ip)
             (seqk (if active then drop_guard dp else ret ()) (throw m))))))"

section \<open>Path names\<close>

abbreviation slash :: u8 where "slash \<equiv> 0x2F"

definition skip_elem :: "bytes \<Rightarrow> (bytes \<times> bytes) option" where
  "skip_elem path0 =
     (case position (\<lambda>p. p \<noteq> slash) path0 of
        None \<Rightarrow> None
      | Some start \<Rightarrow>
          let path = drop start path0;
              fin = (case position (\<lambda>b. b = slash) path of Some k \<Rightarrow> k | None \<Rightarrow> length path);
              name = take (min fin DIRSIZ) path;
              path1 = drop fin path;
              next_start = (case position (\<lambda>b. b \<noteq> slash) path1 of Some k \<Rightarrow> k | None \<Rightarrow> length path1)
          in Some (name, drop next_start path1))"

definition split_name :: "bytes \<Rightarrow> bytes \<times> bytes" where
  "split_name path = (case rposition (\<lambda>b. b = slash) path of
     Some pos \<Rightarrow> (take pos path, drop (pos + 1) path)
   | None \<Rightarrow> ([], path))"

definition is_dir :: "nat \<Rightarrow> ('a fs_state_scheme, nat) kop" where
  "is_dir ip = bnd (inode_typ ip) (\<lambda>ty. if ty \<noteq> Dir then throw ''not a directory'' else ret ip)"

lemma position_drop:
  "drop (case position P xs of Some k \<Rightarrow> k | None \<Rightarrow> length xs) xs = dropWhile (\<lambda>x. \<not> P x) xs"
  "take (case position P xs of Some k \<Rightarrow> k | None \<Rightarrow> length xs) xs = takeWhile (\<lambda>x. \<not> P x) xs"
  by (induction xs) (auto split: option.splits)

lemma skip_elem_while:
  "skip_elem path =
     (let p = dropWhile (\<lambda>b. b = slash) path
      in if p = [] then None
         else Some (take DIRSIZ (takeWhile (\<lambda>b. b \<noteq> slash) p),
                    dropWhile (\<lambda>b. b = slash) (dropWhile (\<lambda>b. b \<noteq> slash) p)))"
proof (cases "position (\<lambda>p. p \<noteq> slash) path")
  case None
  moreover from this have "dropWhile (\<lambda>b. b = slash) path = []" by (simp add: position_None)
  ultimately show ?thesis by (simp add: skip_elem_def)
next
  case (Some k)
  then have d: "drop k path = dropWhile (\<lambda>b. b = slash) path" using position_drop(1) [where P = "\<lambda>p. p \<noteq> slash" and xs = path] by simp
  have n: "drop k path \<noteq> []" using Some by (simp add: position_Some)
  have m: "take (min f DIRSIZ) q = take DIRSIZ (take f q)" for f and q :: bytes by (simp add: min.commute)
  show ?thesis
    unfolding skip_elem_def Some option.case Let_def m position_drop d [symmetric]
    using n by simp
qed

lemma skip_elem_shorter: "skip_elem path = Some (name, rest) \<Longrightarrow> length rest < length path"
proof -
  assume a: "skip_elem path = Some (name, rest)"
  define p where "p = dropWhile (\<lambda>b. b = slash) path"
  have p: "p \<noteq> []" "rest = dropWhile (\<lambda>b. b = slash) (dropWhile (\<lambda>b. b \<noteq> slash) p)"
    using a by (auto simp: skip_elem_while Let_def p_def split: if_splits)
  have "hd p \<noteq> slash" using p(1) hd_dropWhile [of "\<lambda>b. b = slash" path] by (simp add: p_def)
  then have "length (dropWhile (\<lambda>b. b \<noteq> slash) p) < length p" using p(1) by (cases p) (auto simp: le_imp_less_Suc length_dropWhile_le)
  moreover have "length p \<le> length path" by (simp add: p_def length_dropWhile_le)
  ultimately show ?thesis using p(2) length_dropWhile_le [of "\<lambda>b. b = slash" "dropWhile (\<lambda>b. b \<noteq> slash) p"] by simp
qed

function namex_loop :: "bytes \<Rightarrow> nat \<Rightarrow> ('a fs_state_scheme, nat) kop" where
  "namex_loop path ip =
     (case skip_elem path of
        None \<Rightarrow> ret ip
      | Some (name, rest) \<Rightarrow>
          if name = [] then ret ip
          else bnd (with_putlock ip (\<lambda>ip. seqk (is_dir ip) (dir_lookup ip name))) (namex_loop rest))"
  by pat_completeness auto
termination
  by (relation "measure (\<lambda>(path, ip). length path)") (auto dest: skip_elem_shorter)

declare namex_loop.simps [simp del]

definition namex :: "bytes \<Rightarrow> ('a fs_state_scheme, nat) kop" where
  "namex path =
     bnd (if path \<noteq> [] \<and> path ! 0 = slash
          then bnd (gets the_sb) (\<lambda>sb. inode_get ROOTDEV ROOTINO sb)
          else bnd (gets cwd) inode_dup)
       (namex_loop path)"

definition namei :: "bytes \<Rightarrow> ('a fs_state_scheme, nat) kop" where
  "namei path = (if path = [] then throw ''path empty'' else namex path)"

definition namei_parent :: "bytes \<Rightarrow> ('a fs_state_scheme, nat \<times> bytes) kop" where
  "namei_parent path =
     (if path = [] then throw ''empty path''
      else let (dir0, file) = split_name path;
               dir = (if dir0 = [] \<and> path ! 0 = slash then [slash] else dir0)
           in bnd (namex dir) (\<lambda>ip.
              seqk (inode_lock ip)
              (bnd (inode_typ ip) (\<lambda>ty.
                if ty \<noteq> Dir then seqk (drop_guard ip) (throw ''not a dir'')
                else seqk (inode_unlock ip) (ret (ip, file))))))"

datatype create_type = CFile | CDir | CDev u32 u32

fun create_file_type :: "create_type \<Rightarrow> file_type" where
  "create_file_type CFile = File"
| "create_file_type CDir = Dir"
| "create_file_type (CDev _ _) = Dev"

definition create_existing :: "nat \<Rightarrow> nat \<Rightarrow> file_type \<Rightarrow> ('a fs_state_scheme, nat) kop" where
  "create_existing dp ip ty =
     seqk (drop_guard dp)
     (seqk (inode_lock ip)
     (bnd (inode_typ ip) (\<lambda>ity.
       if File \<noteq> ty \<or> ity \<noteq> ty then seqk (drop_guard ip) (throw ''create mismatch type'')
       else ret ip)))"

text \<open>The dots of a new directory, and the parent's link count for its \<open>..\<close>.\<close>

definition create_dots :: "nat \<Rightarrow> nat \<Rightarrow> u64 \<Rightarrow> u64 \<Rightarrow> ('a fs_state_scheme, unit) kop" where
  "create_dots dp ip inum dinum =
     seqk (nlink_inc dp)
     (seqk (expectk ''create new dir update'' (inode_update dp))
     (seqk (expectk ''create new dir `.` link'' (dir_link ip [0x2E] inum))
       (expectk ''create new dir `..` link'' (dir_link ip [0x2E, 0x2E] dinum))))"

definition create_new :: "nat \<Rightarrow> bytes \<Rightarrow> create_type \<Rightarrow> ('a fs_state_scheme, nat) kop" where
  "create_new dp name ty =
     bnd (geti dp i_dev) (\<lambda>dev. bnd (gets the_sb) (\<lambda>sb.
     bnd (guard_err dp (ialloc dev (create_file_type ty) sb)) (\<lambda>ip.
     bnd (geti ip i_inum) (\<lambda>inum. bnd (geti dp i_inum) (\<lambda>dinum.
       seqk (inode_lock ip)
       (seqk (nlink_inc ip)
       (seqk (case ty of CDev major minor \<Rightarrow> modd ip (\<lambda>d. d\<lparr>di_major := major, di_minor := minor\<rparr>) | _ \<Rightarrow> ret ())
       (seqk (expectk ''create new inode update'' (inode_update ip))
       (seqk (if ty = CDir then create_dots dp ip inum dinum else ret ())
       (seqk (expectk ''create new link'' (dir_link dp name inum))
       (seqk (drop_guard dp) (ret ip))))))))))))"

definition create :: "bytes \<Rightarrow> create_type \<Rightarrow> ('a fs_state_scheme, nat) kop" where
  "create path ty =
     bnd (namei_parent path) (\<lambda>(dp, name).
     seqk (inode_lock dp)
     (catchk (dir_lookup dp name)
       (\<lambda>ip. create_existing dp ip (create_file_type ty))
       (\<lambda>_. create_new dp name ty)))"

end
