(* ===== verification/Ring.thy ===== *)
theory Ring
  imports Prelude
begin

text \<open>
  Ring buffers addressed by free-running 64-bit indices, as the pipe and the console reader use
  them: a slot is the index modulo the buffer's length, and indices wrap. The segment between
  two indices is the list of bytes in flight. The locale \<open>fifo\<close> is the interface of a bounded
  queue; what holds of any sequence of insertions and removals is proved in it once.
\<close>

section \<open>Segments of a ring\<close>

definition ring_seg :: "'a list \<Rightarrow> usize \<Rightarrow> nat \<Rightarrow> 'a list" where
  "ring_seg d r n = map (\<lambda>i. d ! (unat (r + of_nat i) mod length d)) [0..<n]"

abbreviation ring_between :: "'a list \<Rightarrow> usize \<Rightarrow> usize \<Rightarrow> 'a list" where
  "ring_between d r w \<equiv> ring_seg d r (unat (w - r))"

text \<open>A buffer length that divides the index space, so that wrapping does not move a slot.\<close>

definition ring_len :: "nat \<Rightarrow> bool" where
  "ring_len n \<longleftrightarrow> 0 < n \<and> n dvd 2 ^ 64"

lemma ring_len_4096 [simp]: "ring_len 4096"
  by (simp add: ring_len_def)

lemma ring_len_256 [simp]: "ring_len 256"
  by (simp add: ring_len_def)

lemma length_ring_seg [simp]: "length (ring_seg d r n) = n"
  by (simp add: ring_seg_def)

lemma ring_seg_0 [simp]: "ring_seg d r 0 = []"
  by (simp add: ring_seg_def)

lemma ring_slot: "ring_len n \<Longrightarrow> unat (r + of_nat i :: usize) mod n = (unat r + i) mod n"
proof -
  assume n: "ring_len n"
  have "unat (r + of_nat i :: usize) = (unat r + i) mod 2 ^ 64"
    by (simp add: unat_word_ariths unat_of_nat mod_add_right_eq take_bit_eq_mod)
  then show ?thesis using n by (simp add: ring_len_def mod_mod_cancel)
qed

lemma mod_window_le:
  fixes a i j n :: nat
  assumes "i \<le> j" "j < n" "(a + i) mod n = (a + j) mod n"
  shows "i = j"
proof -
  have "n dvd j - i"
    using assms mod_eq_dvd_iff_nat [of "a + i" "a + j" n] by simp
  then show ?thesis using assms by (auto dest: dvd_imp_le)
qed

lemma mod_window_inj:
  fixes a i j n :: nat
  shows "i < n \<Longrightarrow> j < n \<Longrightarrow> (a + i) mod n = (a + j) mod n \<Longrightarrow> i = j"
  using mod_window_le [of i j n a] mod_window_le [of j i n a] by (cases "i \<le> j") simp_all

lemma ring_seg_push:
  assumes "ring_len (length d)" "n < length d"
  shows "ring_seg (d[unat (r + of_nat n) mod length d := b]) r (Suc n) = ring_seg d r n @ [b]"
proof -
  have "(unat r + n) mod length d \<noteq> (unat r + i) mod length d" if "i < n" for i
    using mod_window_inj [of i "length d" n "unat r"] that assms by auto
  then show ?thesis
    using assms by (auto simp: ring_seg_def ring_slot ring_len_def nth_list_update_neq)
qed

lemma ring_seg_pop: "ring_seg d r (Suc n) = d ! (unat r mod length d) # ring_seg d (r + 1) n"
proof -
  have "[0..<Suc n] = 0 # map Suc [0..<n]" by (simp add: map_Suc_upt upt_conv_Cons)
  then show ?thesis by (simp add: ring_seg_def comp_def add.assoc del: upt_Suc)
qed

lemma ring_seg_snoc: "ring_seg d r (Suc n) = ring_seg d r n @ [d ! (unat (r + of_nat n) mod length d)]"
  by (simp add: ring_seg_def)

lemma ring_seg_append:
  "ring_seg d r (m + n) = ring_seg d r m @ ring_seg d (r + of_nat m) n"
  by (induction n) (simp_all add: ring_seg_snoc add.assoc)

text \<open>Distances between wrapping indices.\<close>

lemma unat_diff_Suc: "unat (w - r :: usize) < 2 ^ 64 - 1 \<Longrightarrow> unat (w + 1 - r) = Suc (unat (w - r))"
  using unat_add64_small [of "w - r" 1] by (simp add: algebra_simps)

lemma unat_diff_pred: "r \<noteq> w \<Longrightarrow> unat (w - (r + 1) :: usize) = unat (w - r) - 1"
  using unat_minus_one [of "w - r"] by (simp add: algebra_simps)

lemma unat_diff_eq_0 [simp]: "unat (w - r :: usize) = 0 \<longleftrightarrow> w = r"
  by (simp add: unat_eq_0)

section \<open>Bounded queues\<close>

locale fifo =
  fixes wf :: "'s \<Rightarrow> bool"
    and contents :: "'s \<Rightarrow> 'a list"
    and space :: "'s \<Rightarrow> nat"
    and enq :: "'a \<Rightarrow> ('s, unit) kop"
    and deq :: "('s, 'a) kop"
  assumes enq_law: "wf s \<Longrightarrow> 0 < space s \<Longrightarrow>
      \<exists>t. enq x s = (Ok (), t) \<and> wf t \<and> contents t = contents s @ [x] \<and> space t = space s - 1"
    and deq_law: "wf s \<Longrightarrow> contents s \<noteq> [] \<Longrightarrow>
      \<exists>t. deq s = (Ok (hd (contents s)), t) \<and> wf t \<and> contents t = tl (contents s)"
begin

lemma enq_all:
  "wf s \<Longrightarrow> length xs \<le> space s \<Longrightarrow>
   \<exists>t. run_all enq xs s = (Ok (), t) \<and> wf t \<and> contents t = contents s @ xs
     \<and> space t = space s - length xs"
proof (induction xs arbitrary: s)
  case Nil
  then show ?case by (simp add: kop_simps)
next
  case (Cons x xs)
  obtain t where t: "enq x s = (Ok (), t)" "wf t" "contents t = contents s @ [x]"
    "space t = space s - 1"
    using enq_law [of s x] Cons.prems by auto
  with Cons.IH [of t] Cons.prems show ?case by (auto simp: kop_simps)
qed

end

end
