(* ===== verification/Pipe.thy ===== *)
theory Pipe
  imports Ring Kalloc "HOL-Library.Sublist"
begin

text \<open>
  Pipes (\<open>kernel/src/pipe.rs\<close>): the byte ring in a page, the reading and writing ends with their
  sleeps and wakeups, and the slab of pipes with its bitmap. A pipe owns the page its \<open>data\<close>
  pointer names, so the pointer is kept together with the bytes behind it. The mutex of a pipe
  makes everything between two sleeps one step: a read or a write ends in its result, or in a
  status that says what is left to do when the process is woken.
\<close>

section \<open>The ring of bytes\<close>

record pipe =
  nread :: usize
  nwrite :: usize
  data :: "(usize \<times> bytes) option"
  read_open :: bool
  write_open :: bool

definition pipe_new :: pipe where
  "pipe_new = \<lparr>nread = 0, nwrite = 0, data = None, read_open = False, write_open = False\<rparr>"

definition pipe_reset :: "usize \<times> bytes \<Rightarrow> pipe \<Rightarrow> pipe" where
  "pipe_reset page p =
     p\<lparr>data := Some page, read_open := True, write_open := True, nread := 0, nwrite := 0\<rparr>"

definition pipe_data :: "pipe \<Rightarrow> bytes res" where
  "pipe_data p = (case data p of Some (a, d) \<Rightarrow> Ok d | None \<Rightarrow> Panic ''unwrap on None'')"

definition pipe_is_empty :: "pipe \<Rightarrow> bool" where
  "pipe_is_empty p \<longleftrightarrow> nread p = nwrite p"

definition pipe_readable :: "pipe \<Rightarrow> bool" where
  "pipe_readable p \<longleftrightarrow> \<not> pipe_is_empty p \<or> \<not> write_open p"

definition read_byte :: "(pipe, u8) kop" where
  "read_byte =
     seqk (bnd (gets pipe_is_empty) (\<lambda>e. assertk (\<not> e) ''assertion failed''))
     (bnd (lift_res pipe_data) (\<lambda>d.
      bnd (gets nread) (\<lambda>r.
      seqk (modify (\<lambda>p. p\<lparr>nread := r + 1\<rparr>))
      (ret (d ! (unat r mod length d))))))"

text \<open>\<open>self.nread + data.len()\<close> is a checked addition.\<close>

definition pipe_is_full :: "pipe \<Rightarrow> bool res" where
  "pipe_is_full p = rbind (pipe_data p) (\<lambda>d.
     if unat (nread p) + length d \<ge> 2 ^ 64 then Panic ''attempt to add with overflow''
     else Ok (nread p + of_nat (length d) = nwrite p))"

definition pipe_broken :: "pipe \<Rightarrow> bool" where
  "pipe_broken p \<longleftrightarrow> \<not> read_open p"

definition set_byte :: "nat \<Rightarrow> u8 \<Rightarrow> pipe \<Rightarrow> pipe" where
  "set_byte k b p = p\<lparr>data := map_option (\<lambda>(a, d). (a, d[k := b])) (data p)\<rparr>"

definition write_byte :: "u8 \<Rightarrow> (pipe, unit) kop" where
  "write_byte b =
     seqk (bnd (lift_res pipe_is_full) (\<lambda>f. assertk (\<not> f) ''assertion failed''))
     (bnd (lift_res pipe_data) (\<lambda>d.
      seqk (modify (\<lambda>p. set_byte (unat (nwrite p) mod length d) b p))
      (modify (\<lambda>p. p\<lparr>nwrite := nwrite p + 1\<rparr>))))"

section \<open>The two ends\<close>

text \<open>The pipe under its lock, with the channels on which \<open>proc::wakeup\<close> was called.\<close>

datatype pipe_chan = ReadChan | WriteChan

record lpipe =
  pipe_of :: pipe
  woken :: "pipe_chan list"

definition on_pipe :: "(pipe, 'a) kop \<Rightarrow> (lpipe, 'a) kop" where
  "on_pipe m s = (let (r, p) = m (pipe_of s) in (r, s\<lparr>pipe_of := p\<rparr>))"

definition wakeup_pipe :: "pipe_chan \<Rightarrow> (lpipe, unit) kop" where
  "wakeup_pipe c = modify (\<lambda>s. s\<lparr>woken := woken s @ [c]\<rparr>)"

text \<open>A call that has to wait on a channel reports so; woken, it starts over with what is left.\<close>

datatype read_status = RDone bytes | RSleep
datatype write_status = WDone | WSleep bytes

fun read_loop :: "nat \<Rightarrow> (pipe, bytes) kop" where
  "read_loop 0 = ret []"
| "read_loop (Suc n) = bnd (gets pipe_is_empty) (\<lambda>e.
     if e then ret []
     else bnd read_byte (\<lambda>b. bnd (read_loop n) (\<lambda>bs. ret (b # bs))))"

definition pipe_read :: "bool \<Rightarrow> nat \<Rightarrow> (lpipe, read_status) kop" where
  "pipe_read dead len = bnd (gets (\<lambda>s. pipe_readable (pipe_of s))) (\<lambda>ready.
     if \<not> ready then (if dead then throw ''dead'' else ret RSleep)
     else bnd (on_pipe (read_loop len)) (\<lambda>bs.
          seqk (wakeup_pipe WriteChan) (ret (RDone bs))))"

fun pipe_write :: "bytes \<Rightarrow> (lpipe, write_status) kop" where
  "pipe_write [] = seqk (wakeup_pipe ReadChan) (ret WDone)"
| "pipe_write (b # bs) = bnd (lift_res (\<lambda>s. pipe_is_full (pipe_of s))) (\<lambda>full.
     if full then bnd (gets (\<lambda>s. pipe_broken (pipe_of s))) (\<lambda>br.
       if br then throw ''broken pipe''
       else seqk (wakeup_pipe ReadChan) (ret (WSleep (b # bs))))
     else seqk (on_pipe (write_byte b)) (pipe_write bs))"

text \<open>The closing of an end; the result says whether both are closed now.\<close>

definition reader_close :: "(lpipe, bool) kop" where
  "reader_close =
     seqk (modify (\<lambda>s. s\<lparr>pipe_of := (pipe_of s)\<lparr>read_open := False\<rparr>\<rparr>))
     (seqk (wakeup_pipe WriteChan) (gets (\<lambda>s. \<not> write_open (pipe_of s))))"

definition writer_close :: "(lpipe, bool) kop" where
  "writer_close =
     seqk (modify (\<lambda>s. s\<lparr>pipe_of := (pipe_of s)\<lparr>write_open := False\<rparr>\<rparr>))
     (seqk (wakeup_pipe ReadChan) (gets (\<lambda>s. \<not> read_open (pipe_of s))))"

section \<open>Slabs of pipes\<close>

text \<open>
  \<open>size_of\<close> and \<open>align_of\<close> of \<open>PipeAlloc\<close> are the compiler's choice, so they are parameters.
\<close>

definition paspace :: "usize \<Rightarrow> usize \<Rightarrow> usize" where
  "paspace pasize palign = pasize + (0 - pasize mod palign)"

definition SLAB_NPIPES :: "usize \<Rightarrow> nat" where
  "SLAB_NPIPES ps = (PAGE_SIZE - 64) div unat ps"

record pipe_slab =
  bitmap :: u64
  slab_pipes :: "pipe list"

definition trailing_ones :: "u64 \<Rightarrow> nat" where
  "trailing_ones w = length (takeWhile (bit w) [0..<64])"

record pipes =
  kmem_of :: pagemem
  slabs :: "usize \<Rightarrow> pipe_slab option"
  current :: "usize option"

definition slab_new :: "usize \<Rightarrow> (pipes, usize) kop" where
  "slab_new ps s = (case kalloc (kmem_of s) of
      (None, m) \<Rightarrow> (Err ''cannot allocate pipe slab'', s\<lparr>kmem_of := m\<rparr>)
    | (Some a, m) \<Rightarrow>
        (Ok a, s\<lparr>kmem_of := m,
                 slabs := (slabs s)(a := Some \<lparr>bitmap = of_nat (from_le (take 8 (pages m a))),
                                        slab_pipes = replicate (SLAB_NPIPES ps) pipe_new\<rparr>)\<rparr>))"

definition slab_is_empty :: "usize \<Rightarrow> pipe_slab \<Rightarrow> bool" where
  "slab_is_empty ps sl \<longleftrightarrow> trailing_ones (bitmap sl) \<ge> SLAB_NPIPES ps"

definition slab_is_full :: "pipe_slab \<Rightarrow> bool" where
  "slab_is_full sl \<longleftrightarrow> bitmap sl = 0"

definition pipe_addr :: "usize \<Rightarrow> usize \<Rightarrow> nat \<Rightarrow> usize" where
  "pipe_addr ps a k = a + 64 + of_nat k * ps"

definition the_slab :: "usize \<Rightarrow> pipes \<Rightarrow> pipe_slab res" where
  "the_slab a s = (case slabs s a of Some sl \<Rightarrow> Ok sl | None \<Rightarrow> Panic ''no slab'')"

definition slab_alloc :: "usize \<Rightarrow> usize \<Rightarrow> (pipes, nat option) kop" where
  "slab_alloc ps a = bnd (lift_res (the_slab a)) (\<lambda>sl.
     if slab_is_empty ps sl then ret None
     else bnd (\<lambda>s. let (r, m) = kalloc (kmem_of s) in (Ok r, s\<lparr>kmem_of := m\<rparr>)) (\<lambda>page.
       case page of None \<Rightarrow> ret None
       | Some pg \<Rightarrow>
           let k = trailing_ones (bitmap sl)
           in seqk (modify (\<lambda>s. s\<lparr>slabs := (slabs s)(a := Some (sl\<lparr>
                  bitmap := bitmap sl OR push_bit k 1,
                  slab_pipes := (slab_pipes sl)[k :=
                    pipe_reset (pg, pages (kmem_of s) pg) (slab_pipes sl ! k)]\<rparr>))\<rparr>))
              (ret (Some k))))"

definition slab_index :: "usize \<Rightarrow> usize \<Rightarrow> nat" where
  "slab_index ps pa = unat ((pa mod of_nat PAGE_SIZE - 64) div ps)"

definition slab_base :: "usize \<Rightarrow> usize" where
  "slab_base pa = pa AND NOT (of_nat PAGE_SIZE - 1)"

definition kfree_pipes :: "usize \<Rightarrow> (pipes, unit) kop" where
  "kfree_pipes a s = (let (r, m) = kfree a (kmem_of s) in (r, s\<lparr>kmem_of := m\<rparr>))"

definition slab_dealloc :: "usize \<Rightarrow> usize \<Rightarrow> usize \<Rightarrow> (pipes, unit) kop" where
  "slab_dealloc ps a pa = bnd (lift_res (the_slab a)) (\<lambda>sl.
     let k = slab_index ps pa
     in seqk (assertk (64 \<le> pa mod of_nat PAGE_SIZE) ''attempt to subtract with overflow'')
        (seqk (assertk (k < SLAB_NPIPES ps) ''assertion failed'')
        (seqk (modify (\<lambda>s. s\<lparr>slabs := (slabs s)(a := Some (sl\<lparr>
             bitmap := bitmap sl AND NOT (push_bit k 1)\<rparr>))\<rparr>))
        (case data (slab_pipes sl ! k) of
           Some (pg, d) \<Rightarrow> kfree_pipes pg
         | None \<Rightarrow> panic ''null page''))))"

definition pipes_init :: "usize \<Rightarrow> (pipes, unit) kop" where
  "pipes_init ps = bnd (expectk ''allocated initial pipe slab'' (slab_new ps))
     (\<lambda>a. modify (\<lambda>s. s\<lparr>current := Some a\<rparr>))"

text \<open>The part of \<open>alloc\<close> under the \<open>PIPES\<close> lock: the address of the pipe of the new pair.\<close>

definition pipes_take :: "usize \<Rightarrow> (pipes, usize) kop" where
  "pipes_take ps =
     seqk (bnd (gets current) (\<lambda>c. if c = None
             then bnd (slab_new ps) (\<lambda>a. modify (\<lambda>s. s\<lparr>current := Some a\<rparr>)) else ret ()))
     (bnd (gets current) (\<lambda>c. case c of None \<Rightarrow> panic ''unwrap on None''
       | Some a \<Rightarrow>
           seqk (modify (\<lambda>s. s\<lparr>current := None\<rparr>))
           (seqk (bnd (lift_res (the_slab a)) (\<lambda>sl.
                assertk (\<not> slab_is_empty ps sl) ''assertion failed''))
           (bnd (slab_alloc ps a) (\<lambda>r. case r of
              None \<Rightarrow> throw ''pipe allocation failed''
            | Some k \<Rightarrow>
                seqk (bnd (lift_res (the_slab a)) (\<lambda>sl.
                    if \<not> slab_is_empty ps sl then modify (\<lambda>s. s\<lparr>current := Some a\<rparr>) else ret ()))
                (ret (pipe_addr ps a k)))))))"

definition pipes_dealloc :: "usize \<Rightarrow> usize \<Rightarrow> (pipes, unit) kop" where
  "pipes_dealloc ps pa =
     (let a = slab_base pa
      in seqk (slab_dealloc ps a pa)
         (bnd (lift_res (the_slab a)) (\<lambda>sl.
            if slab_is_full sl then
              seqk (bnd (gets current) (\<lambda>c. case c of
                  Some b \<Rightarrow> modify (\<lambda>s. s\<lparr>current := (if b \<noteq> a then Some b else None)\<rparr>)
                | None \<Rightarrow> ret ()))
              (seqk (modify (\<lambda>s. s\<lparr>slabs := (slabs s)(a := None)\<rparr>)) (kfree_pipes a))
            else modify (\<lambda>s. s\<lparr>current := Some a\<rparr>))))"

section \<open>The ring is a bounded queue\<close>

definition pipe_wf :: "pipe \<Rightarrow> bool" where
  "pipe_wf p \<longleftrightarrow> (case data p of
      Some (a, d) \<Rightarrow> length d = PAGE_SIZE \<and> unat (nwrite p - nread p) \<le> PAGE_SIZE
    | None \<Rightarrow> False)"

definition pipe_contents :: "pipe \<Rightarrow> bytes" where
  "pipe_contents p = (case data p of
      Some (a, d) \<Rightarrow> ring_between d (nread p) (nwrite p) | None \<Rightarrow> [])"

text \<open>Free slots; none once the checked addition of \<open>is_full\<close> would overflow.\<close>

definition pipe_space :: "pipe \<Rightarrow> nat" where
  "pipe_space p = (if unat (nread p) + PAGE_SIZE < 2 ^ 64
     then PAGE_SIZE - unat (nwrite p - nread p) else 0)"

lemma pipe_wfE:
  assumes "pipe_wf p"
  obtains a d where "data p = Some (a, d)" "length d = PAGE_SIZE"
    "unat (nwrite p - nread p) \<le> PAGE_SIZE" "pipe_contents p = ring_between d (nread p) (nwrite p)"
  using assms by (auto simp: pipe_wf_def pipe_contents_def split: option.splits)

lemma pipe_close_simps [simp]:
  "pipe_wf (p\<lparr>read_open := b\<rparr>) = pipe_wf p" "pipe_wf (p\<lparr>write_open := b\<rparr>) = pipe_wf p"
  "pipe_contents (p\<lparr>read_open := b\<rparr>) = pipe_contents p"
  "pipe_contents (p\<lparr>write_open := b\<rparr>) = pipe_contents p"
  by (simp_all add: pipe_wf_def pipe_contents_def split: option.split)

lemma pipe_contents_empty: "pipe_wf p \<Longrightarrow> pipe_contents p = [] \<longleftrightarrow> pipe_is_empty p"
  by (erule pipe_wfE) (auto simp: pipe_is_empty_def simp flip: length_0_conv)

lemma pipe_is_full_run:
  assumes "pipe_wf p" "unat (nread p) + PAGE_SIZE < 2 ^ 64"
  shows "pipe_is_full p = Ok (length (pipe_contents p) = PAGE_SIZE)"
proof -
  obtain a d where p: "data p = Some (a, d)" "length d = PAGE_SIZE"
    "pipe_contents p = ring_between d (nread p) (nwrite p)"
    using assms by (blast elim: pipe_wfE)
  have "nread p + 4096 = nwrite p \<longleftrightarrow> nwrite p - nread p = 4096" by (auto simp: algebra_simps)
  also have "\<dots> \<longleftrightarrow> unat (nwrite p - nread p) = 4096" by (simp add: word_unat_eq_iff)
  finally show ?thesis using p assms by (simp add: pipe_is_full_def pipe_data_def)
qed

lemma write_byte_spec:
  assumes "pipe_wf p" "0 < pipe_space p"
  obtains q where "write_byte b p = (Ok (), q)" "pipe_wf q" "pipe_contents q = pipe_contents p @ [b]"
    "pipe_space q = pipe_space p - 1" "read_open q = read_open p" "write_open q = write_open p"
    "nread q = nread p"
proof -
  obtain a d where p: "data p = Some (a, d)" "length d = PAGE_SIZE"
    "pipe_contents p = ring_between d (nread p) (nwrite p)"
    using assms by (blast elim: pipe_wfE)
  have sp: "unat (nread p) + PAGE_SIZE < 2 ^ 64" "unat (nwrite p - nread p) < PAGE_SIZE"
    using assms by (auto simp: pipe_space_def split: if_splits)
  define q where "q = (set_byte (unat (nwrite p) mod length d) b p)\<lparr>nwrite := nwrite p + 1\<rparr>"
  have d1: "unat (nwrite p + 1 - nread p) = Suc (unat (nwrite p - nread p))"
    using sp by (intro unat_diff_Suc) simp
  have "pipe_is_full p = Ok False"
    using pipe_is_full_run [OF assms(1) sp(1)] p sp by simp
  then have run: "write_byte b p = (Ok (), q)"
    using p by (simp add: write_byte_def kop_direct kop_simps pipe_data_def q_def set_byte_def)
  have c: "pipe_contents q = pipe_contents p @ [b]"
    using ring_seg_push [of d "unat (nwrite p - nread p)" "nread p" b] p sp d1
    by (simp add: pipe_contents_def q_def set_byte_def)
  show thesis
    by (rule that [OF run _ c]) (use p sp d1 in \<open>auto simp: q_def set_byte_def pipe_wf_def pipe_space_def\<close>)
qed

lemma read_byte_spec:
  assumes "pipe_wf p" "pipe_contents p \<noteq> []"
  obtains q where "read_byte p = (Ok (hd (pipe_contents p)), q)" "pipe_wf q"
    "pipe_contents q = tl (pipe_contents p)" "read_open q = read_open p" "write_open q = write_open p"
    "nwrite q = nwrite p" "nread q = nread p + 1"
proof -
  obtain a d where p: "data p = Some (a, d)" "length d = PAGE_SIZE"
    "unat (nwrite p - nread p) \<le> PAGE_SIZE" "pipe_contents p = ring_between d (nread p) (nwrite p)"
    using assms by (blast elim: pipe_wfE)
  have ne: "nread p \<noteq> nwrite p"
    using assms pipe_contents_empty [of p] by (simp add: pipe_is_empty_def)
  then have "0 < unat (nwrite p - nread p)" by (simp add: unat_gt_0)
  then obtain n where n: "unat (nwrite p - nread p) = Suc n" using gr0_implies_Suc by blast
  have n': "unat (nwrite p - (nread p + 1)) = n" using n ne by (simp add: unat_diff_pred)
  define q where "q = p\<lparr>nread := nread p + 1\<rparr>"
  have c: "pipe_contents p = d ! (unat (nread p) mod length d) # pipe_contents q"
    using p n n' by (simp add: q_def pipe_contents_def ring_seg_pop)
  have run: "read_byte p = (Ok (hd (pipe_contents p)), q)"
    unfolding c using p(1) ne by (simp add: read_byte_def kop_simps pipe_data_def pipe_is_empty_def q_def)
  show thesis
    by (rule that [OF run, unfolded c]) (use p n n' in \<open>auto simp: q_def pipe_wf_def\<close>)
qed

interpretation pq: fifo pipe_wf pipe_contents pipe_space write_byte read_byte
proof
  fix s :: pipe and x
  assume "pipe_wf s" "0 < pipe_space s"
  then show "\<exists>t. write_byte x s = (Ok (), t) \<and> pipe_wf t \<and> pipe_contents t = pipe_contents s @ [x]
      \<and> pipe_space t = pipe_space s - 1"
    by (metis write_byte_spec)
next
  fix s :: pipe
  assume "pipe_wf s" "pipe_contents s \<noteq> []"
  then show "\<exists>t. read_byte s = (Ok (hd (pipe_contents s)), t) \<and> pipe_wf t \<and> pipe_contents t = tl (pipe_contents s)"
    by (metis read_byte_spec)
qed

section \<open>Reading and writing\<close>

lemma read_loop_spec:
  "pipe_wf p \<Longrightarrow> \<exists>q. read_loop n p = (Ok (take n (pipe_contents p)), q) \<and> pipe_wf q
     \<and> pipe_contents q = drop n (pipe_contents p) \<and> read_open q = read_open p \<and> write_open q = write_open p"
proof (induction n arbitrary: p)
  case 0
  then show ?case by (simp add: kop_simps)
next
  case (Suc n)
  show ?case
  proof (cases "pipe_contents p = []")
    case True
    with pipe_contents_empty [OF Suc.prems] Suc.prems show ?thesis
      by (simp add: kop_direct kop_simps)
  next
    case False
    then obtain b bs where c: "pipe_contents p = b # bs" by (cases "pipe_contents p") auto
    have ne: "\<not> pipe_is_empty p" using False Suc.prems by (simp add: pipe_contents_empty)
    obtain q where q: "read_byte p = (Ok b, q)" "pipe_wf q" "pipe_contents q = bs"
      "read_open q = read_open p" "write_open q = write_open p"
      using read_byte_spec [OF Suc.prems False] c by auto
    with Suc.IH [of q] ne c show ?thesis by (auto simp: kop_direct kop_simps)
  qed
qed

definition room :: "lpipe \<Rightarrow> nat" where
  "room s = PAGE_SIZE - length (pipe_contents (pipe_of s))"

definition no_overflow :: "lpipe \<Rightarrow> bool" where
  "no_overflow s \<longleftrightarrow> unat (nread (pipe_of s)) + PAGE_SIZE < 2 ^ 64"

lemma length_pipe_contents: "pipe_wf p \<Longrightarrow> length (pipe_contents p) \<le> PAGE_SIZE"
  by (auto elim: pipe_wfE)

lemma pipe_space_room: "no_overflow s \<Longrightarrow> pipe_wf (pipe_of s) \<Longrightarrow> pipe_space (pipe_of s) = room s"
  by (auto simp: no_overflow_def pipe_space_def room_def elim!: pipe_wfE)

text \<open>What a write does, whatever the room: the branch taken and the bytes that went in.\<close>

definition write_outcome :: "nat \<Rightarrow> bool \<Rightarrow> bytes \<Rightarrow> write_status res" where
  "write_outcome k op bs =
     (if length bs \<le> k then Ok WDone
      else if op then Ok (WSleep (drop k bs)) else Err ''broken pipe'')"

lemma pipe_write_spec:
  "pipe_wf (pipe_of s) \<Longrightarrow> no_overflow s \<Longrightarrow>
   \<exists>t. pipe_write bs s = (write_outcome (room s) (read_open (pipe_of s)) bs, t) \<and> pipe_wf (pipe_of t)
     \<and> pipe_contents (pipe_of t) = pipe_contents (pipe_of s) @ take (room s) bs
     \<and> read_open (pipe_of t) = read_open (pipe_of s) \<and> write_open (pipe_of t) = write_open (pipe_of s)
     \<and> no_overflow t
     \<and> woken t = woken s @ (if length bs \<le> room s \<or> read_open (pipe_of s) then [ReadChan] else [])"
proof (induction bs arbitrary: s)
  case Nil
  then show ?case by (simp add: kop_direct kop_simps wakeup_pipe_def write_outcome_def no_overflow_def)
next
  case (Cons b bs)
  have full: "pipe_is_full (pipe_of s) = Ok (room s = 0)"
    using pipe_is_full_run [OF Cons.prems(1)] Cons.prems length_pipe_contents [of "pipe_of s"]
    by (auto simp: no_overflow_def room_def)
  show ?case
  proof (cases "room s = 0")
    case True
    then show ?thesis using Cons.prems full
      by (simp add: kop_direct kop_simps wakeup_pipe_def write_outcome_def pipe_broken_def no_overflow_def)
  next
    case False
    then obtain q where q: "write_byte b (pipe_of s) = (Ok (), q)" "pipe_wf q"
      "pipe_contents q = pipe_contents (pipe_of s) @ [b]" "read_open q = read_open (pipe_of s)"
      "write_open q = write_open (pipe_of s)" "nread q = nread (pipe_of s)"
      using write_byte_spec [of "pipe_of s" b] Cons.prems pipe_space_room [of s] by auto
    define t where "t = s\<lparr>pipe_of := q\<rparr>"
    have t: "on_pipe (write_byte b) s = (Ok (), t)" "room t = room s - 1" "no_overflow t"
      using q Cons.prems by (auto simp: on_pipe_def t_def room_def no_overflow_def)
    obtain k where k: "room s = Suc k" using False by (cases "room s") auto
    show ?thesis
      using Cons.IH [of t] t q k full
      by (auto simp: kop_direct kop_simps t_def write_outcome_def)
  qed
qed

lemma pipe_write_overflow:
  "pipe_wf (pipe_of s) \<Longrightarrow> \<not> no_overflow s \<Longrightarrow> bs \<noteq> [] \<Longrightarrow>
   pipe_write bs s = (Panic ''attempt to add with overflow'', s)"
  by (cases bs) (auto simp: kop_direct kop_simps pipe_is_full_def pipe_data_def no_overflow_def elim!: pipe_wfE)

lemma pipe_read_spec:
  assumes "pipe_wf (pipe_of s)" "pipe_readable (pipe_of s)"
  obtains t where "pipe_read dead n s = (Ok (RDone (take n (pipe_contents (pipe_of s)))), t)"
    "pipe_wf (pipe_of t)" "pipe_contents (pipe_of t) = drop n (pipe_contents (pipe_of s))"
    "read_open (pipe_of t) = read_open (pipe_of s)" "write_open (pipe_of t) = write_open (pipe_of s)"
    "woken t = woken s @ [WriteChan]"
proof -
  obtain q where "read_loop n (pipe_of s) = (Ok (take n (pipe_contents (pipe_of s))), q)" "pipe_wf q"
    "pipe_contents q = drop n (pipe_contents (pipe_of s))" "read_open q = read_open (pipe_of s)"
    "write_open q = write_open (pipe_of s)"
    using read_loop_spec [OF assms(1)] by blast
  then show thesis
    using assms(2) by (intro that [of "s\<lparr>pipe_of := q, woken := woken s @ [WriteChan]\<rparr>"])
      (simp_all add: pipe_read_def kop_direct kop_simps on_pipe_def wakeup_pipe_def)
qed

text \<open>
  A write on a pipe that is not about to exhaust its 64-bit counters puts bytes into the ring
  until the buffer is used up or the ring is full. In the first case it returns; in the second it
  goes to sleep with exactly the bytes that did not fit, or fails with a broken pipe when the
  reading end is closed. The bytes that fit are behind those already there, in order, and the
  reader is woken in every case but the failure.
\<close>
theorem pipe_write_fills:
  assumes "pipe_wf (pipe_of s)" "no_overflow s"
  shows "\<exists>t. pipe_write bs s = (write_outcome (room s) (read_open (pipe_of s)) bs, t)
     \<and> pipe_wf (pipe_of t) \<and> pipe_contents (pipe_of t) = pipe_contents (pipe_of s) @ take (room s) bs
     \<and> woken t = woken s @ (if length bs \<le> room s \<or> read_open (pipe_of s) then [ReadChan] else [])"
  using pipe_write_spec [OF assms] by blast

section \<open>Any interleaving of readers, writers and closes\<close>

text \<open>
  Any number of processes may write; each is named by a number. \<open>got\<close> is everything that reads
  returned, \<open>offered w\<close> the concatenation of the buffers that process \<open>w\<close> has handed to \<open>write\<close>, \<open>pending w\<close> what it
  still has to put in when it is asleep inside a \<open>write\<close>, and \<open>trace\<close> the bytes that went into the ring, in
  order, each with its writer. A process that is not asleep in a \<open>write\<close> may start one whatever the other
  processes are doing, and a sleeping one may be resumed at any time.
\<close>

record pipe_sys =
  lp :: lpipe
  got :: bytes
  offered :: "nat \<Rightarrow> bytes"
  pending :: "nat \<Rightarrow> bytes"
  trace :: "(nat \<times> u8) list"

fun left_over :: "write_status res \<Rightarrow> bytes" where
  "left_over (Ok (WSleep rest)) = rest"
| "left_over _ = []"

fun returned :: "write_status res \<Rightarrow> bool" where
  "returned (Ok _) = True"
| "returned (Err _) = True"
| "returned _ = False"

definition put_in :: "lpipe \<Rightarrow> lpipe \<Rightarrow> bytes" where
  "put_in l m = drop (length (pipe_contents (pipe_of l))) (pipe_contents (pipe_of m))"

definition bytes_of :: "nat \<Rightarrow> (nat \<times> u8) list \<Rightarrow> bytes" where
  "bytes_of w tr = map snd (filter (\<lambda>x. fst x = w) tr)"

inductive pipe_step :: "pipe_sys \<Rightarrow> pipe_sys \<Rightarrow> bool" where
  step_read: "read_open (pipe_of (lp \<sigma>)) \<Longrightarrow> pipe_read dead n (lp \<sigma>) = (Ok (RDone bs), l) \<Longrightarrow>
    pipe_step \<sigma> (\<sigma>\<lparr>lp := l, got := got \<sigma> @ bs\<rparr>)"
| step_write: "pending \<sigma> w = [] \<Longrightarrow> pipe_write bs (lp \<sigma>) = (r, l) \<Longrightarrow> returned r \<Longrightarrow>
    pipe_step \<sigma> (\<sigma>\<lparr>lp := l, offered := (offered \<sigma>)(w := offered \<sigma> w @ bs),
      pending := (pending \<sigma>)(w := left_over r), trace := trace \<sigma> @ map (Pair w) (put_in (lp \<sigma>) l)\<rparr>)"
| step_resume: "pending \<sigma> w \<noteq> [] \<Longrightarrow> pipe_write (pending \<sigma> w) (lp \<sigma>) = (r, l) \<Longrightarrow> returned r \<Longrightarrow>
    pipe_step \<sigma> (\<sigma>\<lparr>lp := l, pending := (pending \<sigma>)(w := left_over r),
      trace := trace \<sigma> @ map (Pair w) (put_in (lp \<sigma>) l)\<rparr>)"
| step_close_read: "reader_close (lp \<sigma>) = (Ok c, l) \<Longrightarrow> pipe_step \<sigma> (\<sigma>\<lparr>lp := l\<rparr>)"
| step_close_write: "writer_close (lp \<sigma>) = (Ok c, l) \<Longrightarrow> pipe_step \<sigma> (\<sigma>\<lparr>lp := l\<rparr>)"

definition pipe_sys_init :: "usize \<times> bytes \<Rightarrow> pipe_sys" where
  "pipe_sys_init page = \<lparr>lp = \<lparr>pipe_of = pipe_reset page pipe_new, woken = []\<rparr>,
     got = [], offered = (\<lambda>_. []), pending = (\<lambda>_. []), trace = []\<rparr>"

text \<open>What was read is the beginning of the trace; each writer's part of it is the beginning of what it offered.\<close>

definition read_back :: "pipe_sys \<Rightarrow> bool" where
  "read_back \<sigma> \<longleftrightarrow> (\<exists>rd rest. trace \<sigma> = rd @ rest \<and> got \<sigma> = map snd rd \<and> (\<forall>w. prefix (bytes_of w rd) (offered \<sigma> w)))"

definition in_flight :: "pipe_sys \<Rightarrow> bool" where
  "in_flight \<sigma> \<longleftrightarrow> map snd (trace \<sigma>) = got \<sigma> @ pipe_contents (pipe_of (lp \<sigma>)) \<and>
     (\<forall>w. bytes_of w (trace \<sigma>) @ pending \<sigma> w = offered \<sigma> w)"

definition pipe_inv :: "pipe_sys \<Rightarrow> bool" where
  "pipe_inv \<sigma> \<longleftrightarrow> pipe_wf (pipe_of (lp \<sigma>)) \<and> read_back \<sigma> \<and> (read_open (pipe_of (lp \<sigma>)) \<longrightarrow> in_flight \<sigma>)"

lemma bytes_of_simps [simp]:
  "bytes_of w [] = []" "bytes_of w (tr @ us) = bytes_of w tr @ bytes_of w us"
  "bytes_of w (map (Pair v) bs) = (if v = w then bs else [])"
  by (simp_all add: bytes_of_def filter_map comp_def)

lemma write_outcome_left:
  "returned (write_outcome k op bs) \<Longrightarrow> op \<Longrightarrow> take k bs @ left_over (write_outcome k op bs) = bs"
  by (auto simp: write_outcome_def)

lemma pipe_write_keeps:
  assumes "pipe_wf (pipe_of s)" "pipe_write bs s = (r, t)" "returned r"
  shows "pipe_wf (pipe_of t) \<and> read_open (pipe_of t) = read_open (pipe_of s) \<and>
    (read_open (pipe_of s) \<longrightarrow> pipe_contents (pipe_of t) = pipe_contents (pipe_of s) @ put_in s t \<and>
       put_in s t @ left_over r = bs)"
proof (cases "no_overflow s")
  case True
  obtain u where "pipe_write bs s = (write_outcome (room s) (read_open (pipe_of s)) bs, u)"
    "pipe_wf (pipe_of u)" "pipe_contents (pipe_of u) = pipe_contents (pipe_of s) @ take (room s) bs"
    "read_open (pipe_of u) = read_open (pipe_of s)"
    using pipe_write_spec [OF assms(1) True] by blast
  then show ?thesis using assms write_outcome_left [of "room s" True bs] by (auto simp: put_in_def)
next
  case False
  then have "bs = []" using assms pipe_write_overflow [of s bs] by (cases "bs = []") auto
  then show ?thesis using assms by (auto simp: kop_direct kop_simps wakeup_pipe_def put_in_def)
qed

lemma read_back_more:
  assumes "read_back \<sigma>" "got \<tau> = got \<sigma>" "prefix (trace \<sigma>) (trace \<tau>)" "\<forall>w. prefix (offered \<sigma> w) (offered \<tau> w)"
  shows "read_back \<tau>"
proof -
  obtain rd rest us where "trace \<sigma> = rd @ rest" "got \<sigma> = map snd rd" "\<forall>w. prefix (bytes_of w rd) (offered \<sigma> w)"
    "trace \<tau> = trace \<sigma> @ us"
    using assms(1,3) by (auto simp: read_back_def elim!: prefixE)
  then have "trace \<tau> = rd @ rest @ us" "got \<tau> = map snd rd" "\<forall>w. prefix (bytes_of w rd) (offered \<tau> w)"
    using assms(2,4) prefix_order.trans [of "bytes_of w rd" "offered \<sigma> w" "offered \<tau> w" for w] by auto
  then show ?thesis unfolding read_back_def by blast
qed

text \<open>While the reading end is open, what was read and what is in the ring give back the trace.\<close>

lemma in_flight_read_back:
  assumes "in_flight \<sigma>"
  shows "read_back \<sigma>"
proof -
  define rd rest where "rd = take (length (got \<sigma>)) (trace \<sigma>)" and "rest = drop (length (got \<sigma>)) (trace \<sigma>)"
  have tr: "trace \<sigma> = rd @ rest" by (simp add: rd_def rest_def)
  have "map snd rd = got \<sigma>" using assms by (simp add: in_flight_def rd_def take_map [symmetric])
  moreover have "prefix (bytes_of w rd) (offered \<sigma> w)" for w
  proof -
    have "bytes_of w rd @ bytes_of w rest @ pending \<sigma> w = offered \<sigma> w"
      using assms by (simp add: in_flight_def tr)
    then show ?thesis by (metis prefixI)
  qed
  ultimately show ?thesis using tr unfolding read_back_def by metis
qed

lemma in_flight_write:
  assumes "in_flight \<sigma>" "pipe_contents (pipe_of (lp \<tau>)) = pipe_contents (pipe_of (lp \<sigma>)) @ bs" "got \<tau> = got \<sigma>"
    "trace \<tau> = trace \<sigma> @ map (Pair w) bs" "bs @ pending \<tau> w = pending \<sigma> w @ new" "offered \<tau> w = offered \<sigma> w @ new"
    "\<forall>v. v \<noteq> w \<longrightarrow> pending \<tau> v = pending \<sigma> v \<and> offered \<tau> v = offered \<sigma> v"
  shows "in_flight \<tau>"
proof -
  have o: "bytes_of v (trace \<sigma>) @ pending \<sigma> v = offered \<sigma> v" for v
    using assms(1) by (simp add: in_flight_def)
  have "bytes_of v (trace \<tau>) @ pending \<tau> v = offered \<tau> v" for v
  proof (cases "v = w")
    case True
    have "bytes_of w (trace \<sigma>) @ bs @ pending \<tau> w = (bytes_of w (trace \<sigma>) @ pending \<sigma> w) @ new"
      by (simp add: assms(5))
    then show ?thesis using assms(4,6) True by (simp add: o)
  next
    case False
    then show ?thesis using assms(4,7) o [of v] by simp
  qed
  moreover have "map snd (map (Pair w) bs) = bs" by (simp add: comp_def)
  ultimately show ?thesis using assms(1-4) by (simp add: in_flight_def)
qed

lemma pipe_inv_step:
  assumes "pipe_step \<sigma> \<tau>" "pipe_inv \<sigma>"
  shows "pipe_inv \<tau>"
  using assms
proof cases
  case (step_read dead n bs l)
  have wf: "pipe_wf (pipe_of (lp \<sigma>))" and f: "in_flight \<sigma>" using assms(2) step_read(2) by (simp_all add: pipe_inv_def)
  have "pipe_readable (pipe_of (lp \<sigma>))"
    using step_read(3) by (auto simp: pipe_read_def kop_direct kop_simps split: if_splits)
  from pipe_read_spec [OF wf this, of dead n] step_read(3)
  have "bs = take n (pipe_contents (pipe_of (lp \<sigma>)))" "pipe_wf (pipe_of l)"
    "pipe_contents (pipe_of l) = drop n (pipe_contents (pipe_of (lp \<sigma>)))"
    by (metis (no_types, lifting) Pair_inject read_status.inject res.inject(1))+
  then have "pipe_wf (pipe_of (lp \<tau>))" "in_flight \<tau>" using f step_read(1) by (auto simp: in_flight_def)
  then show ?thesis using in_flight_read_back by (simp add: pipe_inv_def)
next
  case (step_write w bs r l)
  have "read_back \<tau>" by (rule read_back_more [of \<sigma>]) (use assms(2) step_write(1) in \<open>auto simp: pipe_inv_def\<close>)
  moreover have "in_flight \<tau>" if "read_open (pipe_of (lp \<tau>))"
    by (rule in_flight_write [of \<sigma> _ "put_in (lp \<sigma>) l" w bs])
      (use that assms(2) step_write pipe_write_keeps [of "lp \<sigma>" bs r l] in \<open>auto simp: pipe_inv_def\<close>)
  ultimately show ?thesis
    using step_write pipe_write_keeps [of "lp \<sigma>" bs r l] assms(2) by (auto simp: pipe_inv_def)
next
  case (step_resume w r l)
  have "read_back \<tau>" by (rule read_back_more [of \<sigma>]) (use assms(2) step_resume(1) in \<open>auto simp: pipe_inv_def\<close>)
  moreover have "in_flight \<tau>" if "read_open (pipe_of (lp \<tau>))"
    by (rule in_flight_write [of \<sigma> _ "put_in (lp \<sigma>) l" w "[]"])
      (use that assms(2) step_resume pipe_write_keeps [of "lp \<sigma>" "pending \<sigma> w" r l] in \<open>auto simp: pipe_inv_def\<close>)
  ultimately show ?thesis
    using step_resume pipe_write_keeps [of "lp \<sigma>" "pending \<sigma> w" r l] assms(2) by (auto simp: pipe_inv_def)
next
  case (step_close_read c l)
  have "read_back \<tau>" by (rule read_back_more [of \<sigma>]) (use assms(2) step_close_read(1) in \<open>auto simp: pipe_inv_def\<close>)
  with step_close_read assms(2) show ?thesis
    by (auto simp: pipe_inv_def reader_close_def kop_direct kop_simps wakeup_pipe_def)
next
  case (step_close_write c l)
  have "read_back \<tau>" by (rule read_back_more [of \<sigma>]) (use assms(2) step_close_write(1) in \<open>auto simp: pipe_inv_def\<close>)
  with step_close_write assms(2) show ?thesis
    by (auto simp: pipe_inv_def in_flight_def writer_close_def kop_direct kop_simps wakeup_pipe_def)
qed

lemma pipe_reachable_inv:
  assumes "pipe_step\<^sup>*\<^sup>* (pipe_sys_init (a, d)) \<sigma>" "length d = PAGE_SIZE"
  shows "pipe_inv \<sigma>"
  using assms
proof (induction rule: rtranclp_induct)
  case base
  then show ?case
    by (simp add: pipe_inv_def pipe_sys_init_def pipe_reset_def pipe_wf_def pipe_contents_def read_back_def in_flight_def)
next
  case (step \<sigma> \<tau>)
  then show ?case using pipe_inv_step by blast
qed

text \<open>
  C6: Take any interleaving of reads, writes by any number of processes, sleeps, resumptions and closes on a new pipe; a
  process may start a write while others sleep inside theirs. The bytes that reads return are a prefix of the sequence of bytes that
  writers put into the ring: nothing is lost, repeated or reordered, across any number of wraps of the ring. In what was read, the bytes of each
  writer are a prefix of the bytes it has handed to its writes, in its order (bytes of different writers may alternate). While the
  reading end is open, what was put in is exactly what was returned followed by what is in the ring, and the bytes a writer put in, followed
  by those it still holds while it sleeps, are exactly those it handed to its writes.
\<close>
theorem pipe_fifo:
  assumes "pipe_step\<^sup>*\<^sup>* (pipe_sys_init (a, d)) \<sigma>" "length d = PAGE_SIZE"
  shows "(\<exists>rd rest. trace \<sigma> = rd @ rest \<and> got \<sigma> = map snd rd \<and> (\<forall>w. prefix (bytes_of w rd) (offered \<sigma> w)))
    \<and> (read_open (pipe_of (lp \<sigma>)) \<longrightarrow>
         map snd (trace \<sigma>) = got \<sigma> @ pipe_contents (pipe_of (lp \<sigma>)) \<and>
         (\<forall>w. bytes_of w (trace \<sigma>) @ pending \<sigma> w = offered \<sigma> w))"
  using pipe_reachable_inv [OF assms] by (simp add: pipe_inv_def read_back_def in_flight_def)

definition demo_page :: bytes where
  "demo_page = replicate PAGE_SIZE 0"

definition demo_lpipe :: lpipe where
  "demo_lpipe = \<lparr>pipe_of = \<lparr>nread = 0, nwrite = 2, data = Some (0x1000, demo_page[0 := 5, 1 := 6]),
     read_open = True, write_open = True\<rparr>, woken = [ReadChan]\<rparr>"

text \<open>Two processes write a byte each.\<close>

definition demo_lpipe1 :: lpipe where
  "demo_lpipe1 = \<lparr>pipe_of = \<lparr>nread = 0, nwrite = 1, data = Some (0x1000, demo_page[0 := 5]),
     read_open = True, write_open = True\<rparr>, woken = [ReadChan]\<rparr>"

definition demo_sys1 :: pipe_sys where
  "demo_sys1 = \<lparr>lp = demo_lpipe1, got = [], offered = (\<lambda>_. [])(1 := [5]), pending = (\<lambda>_. []), trace = [(1, 5)]\<rparr>"

definition demo_sys2 :: pipe_sys where
  "demo_sys2 = \<lparr>lp = demo_lpipe\<lparr>woken := [ReadChan, ReadChan]\<rparr>, got = [],
     offered = (\<lambda>_. [])(1 := [5], 2 := [6]), pending = (\<lambda>_. []), trace = [(1, 5), (2, 6)]\<rparr>"

lemma no_pending: "(\<lambda>_. [])(w := []) = (\<lambda>_. [])"
  by auto

lemmas demo_defs = demo_sys1_def demo_sys2_def pipe_sys_init_def demo_lpipe_def demo_lpipe1_def pipe_reset_def
  pipe_new_def

lemma demo_put_in:
  "put_in (lp (pipe_sys_init (0x1000, demo_page))) demo_lpipe1 = [5]"
  "put_in demo_lpipe1 (demo_lpipe\<lparr>woken := [ReadChan, ReadChan]\<rparr>) = [6]"
  by (simp_all add: put_in_def demo_defs pipe_contents_def ring_seg_def upt_rec demo_page_def)

lemma demo_reached: "pipe_step\<^sup>*\<^sup>* (pipe_sys_init (0x1000, demo_page)) demo_sys2"
proof -
  have "pipe_write [5] (lp (pipe_sys_init (0x1000, demo_page))) = (Ok WDone, demo_lpipe1)"
    "pipe_write [6] demo_lpipe1 = (Ok WDone, demo_lpipe\<lparr>woken := [ReadChan, ReadChan]\<rparr>)"
    by (simp_all add: demo_defs demo_page_def kop_direct kop_simps pipe_is_full_def pipe_data_def write_byte_def set_byte_def
        on_pipe_def wakeup_pipe_def)
  then have "pipe_step (pipe_sys_init (0x1000, demo_page)) demo_sys1" "pipe_step demo_sys1 demo_sys2"
    using step_write [of "pipe_sys_init (0x1000, demo_page)" 1 "[5]" "Ok WDone" demo_lpipe1]
      step_write [of demo_sys1 2 "[6]" "Ok WDone" "demo_lpipe\<lparr>woken := [ReadChan, ReadChan]\<rparr>"]
    by (simp_all add: demo_put_in demo_sys1_def demo_sys2_def no_pending del: pipe_write.simps fun_upd_apply)
      (simp_all add: pipe_sys_init_def no_pending del: pipe_write.simps)
  then show ?thesis by (meson converse_rtranclp_into_rtranclp rtranclp.rtrancl_refl)
qed

theorem pipe_fifo_witness:
  "map snd (trace demo_sys2) = got demo_sys2 @ pipe_contents (pipe_of (lp demo_sys2)) \<and>
   bytes_of 1 (trace demo_sys2) @ pending demo_sys2 1 = [5] \<and> bytes_of 2 (trace demo_sys2) @ pending demo_sys2 2 = [6]"
proof -
  have "length demo_page = PAGE_SIZE" by (simp add: demo_page_def)
  from pipe_fifo [OF demo_reached this]
  have "map snd (trace demo_sys2) = got demo_sys2 @ pipe_contents (pipe_of (lp demo_sys2)) \<and>
    (\<forall>w. bytes_of w (trace demo_sys2) @ pending demo_sys2 w = offered demo_sys2 w)"
    by (simp add: demo_sys2_def demo_lpipe_def)
  then show ?thesis by (simp add: demo_sys2_def)
qed

theorem pipe_write_fills_witness:
  "\<exists>t. pipe_write [7] demo_lpipe = (write_outcome (room demo_lpipe) (read_open (pipe_of demo_lpipe)) [7], t)
     \<and> pipe_wf (pipe_of t) \<and> pipe_contents (pipe_of t) = [5, 6, 7] \<and> woken t = [ReadChan, ReadChan]"
proof -
  have c: "pipe_contents (pipe_of demo_lpipe) = [5, 6]"
    by (simp add: demo_lpipe_def pipe_contents_def ring_seg_def upt_rec demo_page_def)
  have "pipe_wf (pipe_of demo_lpipe)" "no_overflow demo_lpipe"
    by (simp_all add: demo_lpipe_def pipe_wf_def no_overflow_def demo_page_def)
  from pipe_write_fills [OF this, of "[7]"] c show ?thesis
    by (simp add: room_def) (simp add: demo_lpipe_def)
qed

text \<open>
  A read returns at once whenever the ring holds bytes or the writing end is closed: it takes
  as many of the oldest bytes as fit in the buffer and wakes the writer, so with both conditions
  absent it is the end of file (zero bytes) or the sleep. It sleeps only on an empty ring whose
  writing end is open, and a killed process gets an error instead of sleeping.
\<close>
theorem pipe_read_takes:
  assumes "pipe_wf (pipe_of s)"
  shows "if pipe_contents (pipe_of s) = [] \<and> write_open (pipe_of s)
    then pipe_read dead n s = (if dead then Err ''dead'' else Ok RSleep, s)
    else \<exists>t. pipe_read dead n s = (Ok (RDone (take n (pipe_contents (pipe_of s)))), t)
           \<and> pipe_contents (pipe_of t) = drop n (pipe_contents (pipe_of s))
           \<and> pipe_wf (pipe_of t) \<and> woken t = woken s @ [WriteChan]"
proof (cases "pipe_readable (pipe_of s)")
  case True
  from pipe_read_spec [OF assms True, of dead n] show ?thesis
    using True pipe_contents_empty [OF assms] by (simp add: pipe_readable_def) metis
next
  case False
  then show ?thesis
    using pipe_contents_empty [OF assms] by (simp add: pipe_readable_def pipe_read_def kop_direct kop_simps)
qed

theorem pipe_read_takes_witness:
  "\<exists>t. pipe_read False 1 demo_lpipe = (Ok (RDone [5]), t) \<and> pipe_contents (pipe_of t) = [6]
     \<and> pipe_wf (pipe_of t) \<and> woken t = [ReadChan, WriteChan]"
proof -
  have c: "pipe_contents (pipe_of demo_lpipe) = [5, 6]"
    by (simp add: demo_lpipe_def pipe_contents_def ring_seg_def upt_rec demo_page_def)
  have w: "pipe_wf (pipe_of demo_lpipe)"
    by (simp add: demo_lpipe_def pipe_wf_def demo_page_def)
  show ?thesis
    using pipe_read_takes [OF w, of False 1] by (simp add: c) (simp add: demo_lpipe_def)
qed

section \<open>The slab\<close>

lemma trailing_ones_bound: "trailing_ones w \<le> 64"
  unfolding trailing_ones_def using length_takeWhile_le [of "bit w" "[0..<64]"] by simp

lemma trailing_ones_clear: "trailing_ones w < 64 \<Longrightarrow> \<not> bit w (trailing_ones w)"
  unfolding trailing_ones_def
  using nth_length_takeWhile [of "bit w" "[0..<64]"] by (simp add: nth_upt)

lemma SLAB_NPIPES_bound: "64 \<le> ps \<Longrightarrow> SLAB_NPIPES ps < 64"
proof -
  assume "64 \<le> ps"
  then have "64 \<le> unat ps" by (simp add: word_le_nat_alt)
  then have "4032 div unat ps \<le> 4032 div 64" by (intro div_le_mono2) simp_all
  then show ?thesis by (simp add: SLAB_NPIPES_def)
qed

lemma pipe_offset_bound:
  assumes "64 \<le> ps" "k < SLAB_NPIPES ps"
  shows "unat (of_nat k * ps) = k * unat ps \<and> k * unat ps + unat ps \<le> 4032"
proof -
  have ps: "64 \<le> unat ps" using assms(1) by (simp add: word_le_nat_alt)
  have "Suc k * unat ps \<le> 4032 div unat ps * unat ps"
    using assms(2) by (intro mult_le_mono1) (simp add: SLAB_NPIPES_def)
  also have "\<dots> \<le> 4032" by simp
  finally have b: "k * unat ps + unat ps \<le> 4032" by (simp add: algebra_simps)
  have "k < 64" using assms SLAB_NPIPES_bound [of ps] by simp
  then have "unat (of_nat k * ps) = k * unat ps"
    using b by (simp add: unat_word_ariths unat_of_nat)
  with b show ?thesis by simp
qed

lemma unat_pipe_addr:
  assumes "64 \<le> ps" "k < SLAB_NPIPES ps" "unat a mod PAGE_SIZE = 0"
  shows "unat (pipe_addr ps a k) = unat a + (64 + k * unat ps)"
proof -
  note off = pipe_offset_bound [OF assms(1,2)]
  obtain q where q: "unat a = 4096 * q" using assms(3) by auto
  have "unat a < 2 ^ 64" using unsigned_less [of a] by simp
  then have "unat a + 4096 \<le> 2 ^ 64" using q by simp
  moreover have "64 \<le> unat ps" using assms(1) by (simp add: word_le_nat_alt)
  ultimately show ?thesis using off by (simp add: pipe_addr_def unat_word_ariths)
qed

lemma page_split:
  assumes "x mod 4096 = 0" "y < 4096"
  shows "(x + y) div 4096 * 4096 = x" "(x + y) mod 4096 = (y :: nat)"
proof -
  show "(x + y) mod 4096 = y" using assms by (metis add_0 mod_add_left_eq mod_less)
  then show "(x + y) div 4096 * 4096 = x"
    using div_mult_mod_eq [of "x + y" 4096] by simp
qed

lemma slab_pointer:
  assumes "64 \<le> ps" "k < SLAB_NPIPES ps" "unat a mod PAGE_SIZE = 0"
  shows "slab_base (pipe_addr ps a k) = a \<and> slab_index ps (pipe_addr ps a k) = k
    \<and> 64 \<le> pipe_addr ps a k mod 4096"
proof (intro conjI)
  note u = unat_pipe_addr [OF assms]
  note off = pipe_offset_bound [OF assms(1,2)]
  have ps: "64 \<le> unat ps" using assms(1) by (simp add: word_le_nat_alt)
  have small: "64 + k * unat ps < 4096" using off ps by simp
  have "unat (slab_base (pipe_addr ps a k)) = unat a"
    using unat_page_round_down [of "pipe_addr ps a k"] u page_split [OF _ small, of "unat a"] assms(3)
    by (simp add: slab_base_def page_round_down_def)
  then show "slab_base (pipe_addr ps a k) = a" by (simp add: word_unat_eq_iff)
  have m: "unat (pipe_addr ps a k mod 4096) = 64 + k * unat ps"
    using u page_split [OF _ small, of "unat a"] assms(3) by (simp add: unat_mod_distrib)
  then show c: "64 \<le> pipe_addr ps a k mod 4096" by (simp add: word_le_nat_alt)
  from c have "unat (pipe_addr ps a k mod 4096 - 64) = k * unat ps" using m by (simp add: unat_sub)
  then show "slab_index ps (pipe_addr ps a k) = k"
    using ps by (simp add: slab_index_def unat_div_distrib)
qed

text \<open>
  The address of a pipe in a slab determines the slab and the pipe's position in it: rounding
  down to the page gives the slab's address and dividing the offset past the header by the spacing
  gives the index, for every aligned slab address and every spacing the alignment allows.
\<close>
theorem slab_pointer_roundtrip:
  assumes "64 \<le> ps" "k < SLAB_NPIPES ps" "unat a mod PAGE_SIZE = 0"
  shows "slab_base (pipe_addr ps a k) = a \<and> slab_index ps (pipe_addr ps a k) = k"
  using slab_pointer [OF assms] by simp

theorem slab_pointer_roundtrip_witness:
  "slab_base (pipe_addr 192 0xFFFF800000200000 20) = 0xFFFF800000200000
   \<and> slab_index 192 (pipe_addr 192 0xFFFF800000200000 20) = 20"
  by (rule slab_pointer_roundtrip) (simp_all add: SLAB_NPIPES_def)

lemma slab_alloc_run:
  assumes "slabs s a = Some sl" "trailing_ones (bitmap sl) < SLAB_NPIPES ps"
    and "kalloc (kmem_of s) = (Some pg, m)"
  shows "slab_alloc ps a s = (Ok (Some (trailing_ones (bitmap sl))),
     s\<lparr>kmem_of := m, slabs := (slabs s)(a := Some (sl\<lparr>
        bitmap := bitmap sl OR push_bit (trailing_ones (bitmap sl)) 1,
        slab_pipes := (slab_pipes sl)[trailing_ones (bitmap sl) :=
          pipe_reset (pg, pages m pg) (slab_pipes sl ! trailing_ones (bitmap sl))]\<rparr>))\<rparr>)"
  using assms by (simp add: slab_alloc_def kop_direct kop_simps bnd_def the_slab_def slab_is_empty_def Let_def)

lemma bitmap_set_clear:
  assumes "\<not> bit (w :: u64) k"
  shows "(w OR push_bit k 1) AND NOT (push_bit k 1) = w"
  using assms by (intro bit_word_eqI) (auto simp: bit_simps)

text \<open>
  Taking a pipe from a slab with a free position and giving it back: the pipe handed out is at
  a position whose bit was clear, it is freshly reset with the page the allocator returned and both
  ends open, no other pipe of the slab changes, and deallocating it by its address restores the
  bitmap exactly and puts the page back at the head of the free list.
\<close>
theorem slab_alloc_dealloc:
  assumes "slabs s a = Some sl" "\<not> slab_is_empty ps sl" "length (slab_pipes sl) = SLAB_NPIPES ps"
    and "64 \<le> ps" "unat a mod PAGE_SIZE = 0"
    and "kalloc (kmem_of s) = (Some pg, m)" "pg mod 4096 = 0"
  shows "\<exists>k t sl' u sl''. slab_alloc ps a s = (Ok (Some k), t) \<and> slabs t a = Some sl'
    \<and> k < SLAB_NPIPES ps \<and> \<not> bit (bitmap sl) k
    \<and> slab_pipes sl' = (slab_pipes sl)[k := pipe_reset (pg, pages m pg) (slab_pipes sl ! k)]
    \<and> slab_dealloc ps a (pipe_addr ps a k) t = (Ok (), u) \<and> slabs u a = Some sl''
    \<and> bitmap sl'' = bitmap sl \<and> free_head (kmem_of u) = pg"
proof -
  define k where "k = trailing_ones (bitmap sl)"
  have k: "k < SLAB_NPIPES ps" using assms(2) by (simp add: slab_is_empty_def k_def)
  then have nb: "\<not> bit (bitmap sl) k"
    using trailing_ones_clear SLAB_NPIPES_bound [OF assms(4)] by (simp add: k_def)
  define sl' where "sl' = sl\<lparr>bitmap := bitmap sl OR push_bit k 1,
        slab_pipes := (slab_pipes sl)[k := pipe_reset (pg, pages m pg) (slab_pipes sl ! k)]\<rparr>"
  define t where "t = s\<lparr>kmem_of := m, slabs := (slabs s)(a := Some sl')\<rparr>"
  have run: "slab_alloc ps a s = (Ok (Some k), t)"
    using slab_alloc_run [OF assms(1) _ assms(6)] k by (simp add: k_def t_def sl'_def)
  have idx: "slab_index ps (pipe_addr ps a k) = k" "64 \<le> pipe_addr ps a k mod 4096"
    using slab_pointer [OF assms(4) k assms(5)] by simp_all
  have d: "data (slab_pipes sl' ! k) = Some (pg, pages m pg)"
    using k assms(3) by (simp add: sl'_def pipe_reset_def)
  define t1 where "t1 = t\<lparr>slabs := (slabs t)(a := Some (sl'\<lparr>bitmap := bitmap sl\<rparr>))\<rparr>"
  have bm: "bitmap sl' AND NOT (push_bit k 1) = bitmap sl"
    using bitmap_set_clear [OF nb] by (simp add: sl'_def)
  have de: "slab_dealloc ps a (pipe_addr ps a k) t = kfree_pipes pg t1"
    using idx k d bm by (simp add: slab_dealloc_def kop_direct the_slab_def Let_def t_def t1_def)
  have "\<exists>u. kfree_pipes pg t1 = (Ok (), u) \<and> slabs u = slabs t1 \<and> free_head (kmem_of u) = pg"
    using assms(7) by (simp add: kfree_pipes_def kfree_def fl_put_def kop_direct kop_simps Let_def)
  then obtain u where u: "slab_dealloc ps a (pipe_addr ps a k) t = (Ok (), u)"
    "slabs u = slabs t1" "free_head (kmem_of u) = pg" using de by auto
  have "slabs t a = Some sl'" "slabs u a = Some (sl'\<lparr>bitmap := bitmap sl\<rparr>)"
    using u by (simp_all add: t_def t1_def)
  then show ?thesis using run k nb u
    by (intro exI [of _ k] exI [of _ t] exI [of _ sl'] exI [of _ u] exI [of _ "sl'\<lparr>bitmap := bitmap sl\<rparr>"])
      (simp add: sl'_def)
qed

text \<open>
  When no page is left for the data of a new pipe, the slab that was current is dropped from
  \<open>PIPES\<close> by the failing call: it stays allocated and the next request starts a new slab.
\<close>
theorem pipes_take_loses_slab:
  assumes "current s = Some a" "slabs s a = Some sl" "\<not> slab_is_empty ps sl"
    and "kalloc (kmem_of s) = (None, m)"
  shows "\<exists>t. pipes_take ps s = (Err ''pipe allocation failed'', t) \<and> current t = None \<and> slabs t a = Some sl"
  using assms by (simp add: pipes_take_def slab_alloc_def kop_direct kop_simps bnd_def the_slab_def)

definition demo_slab :: pipe_slab where
  "demo_slab = \<lparr>bitmap = 1, slab_pipes = replicate 21 pipe_new\<rparr>"

definition demo_pipes :: "usize \<Rightarrow> pipes" where
  "demo_pipes fh = \<lparr>kmem_of = \<lparr>pages = (\<lambda>_. demo_page), free_head = fh\<rparr>,
     slabs = [0x1000 \<mapsto> demo_slab], current = Some 0x1000\<rparr>"

lemma demo_slab_facts:
  "slabs (demo_pipes fh) 0x1000 = Some demo_slab" "\<not> slab_is_empty 192 demo_slab"
  "length (slab_pipes demo_slab) = SLAB_NPIPES 192" "current (demo_pipes fh) = Some 0x1000"
  by (simp_all add: demo_pipes_def demo_slab_def slab_is_empty_def SLAB_NPIPES_def trailing_ones_def
      upt_rec bit_1_iff)

theorem slab_alloc_dealloc_witness:
  "\<exists>k t sl' u sl''. slab_alloc 192 0x1000 (demo_pipes 0x2000) = (Ok (Some k), t)
    \<and> slabs t 0x1000 = Some sl' \<and> k < 21 \<and> \<not> bit (bitmap demo_slab) k
    \<and> slab_pipes sl' = (slab_pipes demo_slab)[k := pipe_reset
        (0x2000, pages (snd (kalloc (kmem_of (demo_pipes 0x2000)))) 0x2000) (slab_pipes demo_slab ! k)]
    \<and> slab_dealloc 192 0x1000 (pipe_addr 192 0x1000 k) t = (Ok (), u) \<and> slabs u 0x1000 = Some sl''
    \<and> bitmap sl'' = bitmap demo_slab \<and> free_head (kmem_of u) = 0x2000"
proof -
  have k: "kalloc (kmem_of (demo_pipes 0x2000)) = (Some 0x2000, snd (kalloc (kmem_of (demo_pipes 0x2000))))"
    by (simp add: kalloc_def fl_get_def demo_pipes_def Let_def)
  show ?thesis
    using slab_alloc_dealloc [OF demo_slab_facts(1-3) _ _ k]
    by (simp add: SLAB_NPIPES_def)
qed

theorem pipes_take_loses_slab_witness:
  "\<exists>t. pipes_take 192 (demo_pipes 0) = (Err ''pipe allocation failed'', t) \<and> current t = None
     \<and> slabs t 0x1000 = Some demo_slab"
proof -
  have k: "kalloc (kmem_of (demo_pipes 0)) = (None, kmem_of (demo_pipes 0))"
    by (simp add: kalloc_def fl_get_def demo_pipes_def)
  show ?thesis
    by (rule pipes_take_loses_slab [OF demo_slab_facts(4) demo_slab_facts(1) demo_slab_facts(2) k])
qed

end
