(* ===== verification/Cga.thy ===== *)
theory Cga
  imports Prelude
begin

text \<open>
  The text display (\<open>kernel/src/cga.rs\<close>). The video memory is the byte list \<open>buffer\<close>, the writes to
  the CRT controller are a trace of port and byte. Line and column are kept as natural numbers:
  the invariant bounds them by the display, and every subtraction of the code that could go below
  zero is checked. The abstract screen at the end is a grid of cells with a cursor; the driver
  refines it, byte by byte.
\<close>

abbreviation DISPLAY_HEIGHT :: nat where "DISPLAY_HEIGHT \<equiv> 25"
abbreviation DISPLAY_WIDTH :: nat where "DISPLAY_WIDTH \<equiv> 80"
abbreviation DISPLAY_LINE_SIZE :: nat where "DISPLAY_LINE_SIZE \<equiv> 160"
abbreviation DISPLAY_SIZE :: nat where "DISPLAY_SIZE \<equiv> 4000"
abbreviation ATTRIBUTE :: u8 where "ATTRIBUTE \<equiv> 0x07"

record cga =
  line :: nat
  column :: nat
  buffer :: bytes
  ports :: "(u16 \<times> u8) list"

section \<open>The driver\<close>

definition bshift :: "nat \<Rightarrow> bytes \<Rightarrow> bytes res" where
  "bshift offset dst =
     (if offset > length dst then Panic ''offset''
      else let len = length dst - offset in Ok (overwrite dst 0 (slice dst offset (offset + len))))"

definition cga_new :: "bytes \<Rightarrow> cga" where
  "cga_new vmem = \<lparr>line = 0, column = 0, buffer = vmem, ports = []\<rparr>"

definition blank :: "cga \<Rightarrow> cga" where
  "blank s = s\<lparr>line := 0, column := 0, buffer := replicate (length (buffer s)) 0\<rparr>"

text \<open>\<open>copy_slice(&mut buffer[off..off + 2], &buf)\<close>.\<close>

definition put_cell :: "nat \<Rightarrow> bytes \<Rightarrow> (cga, unit) kop" where
  "put_cell off cell = bnd (gets (\<lambda>s. length (buffer s))) (\<lambda>n.
     seqk (assertk (off + 2 \<le> n) ''slice index'')
     (modify (\<lambda>s. s\<lparr>buffer := overwrite (buffer s) off cell\<rparr>)))"

definition outb :: "u16 \<Rightarrow> u8 \<Rightarrow> (cga, unit) kop" where
  "outb port b = modify (\<lambda>s. s\<lparr>ports := ports s @ [(port, b)]\<rparr>)"

definition set_cursor :: "(cga, unit) kop" where
  "set_cursor = bnd (gets line) (\<lambda>l. bnd (gets column) (\<lambda>c.
     seqk (put_cell (l * DISPLAY_LINE_SIZE + c * 2) [0x20, 0x07])
     (let pos = l * DISPLAY_WIDTH + c in
      seqk (outb 0x3d4 0x0E) (seqk (outb 0x3d5 (of_nat (pos div 256)))
      (seqk (outb 0x3d4 0x0F) (outb 0x3d5 (of_nat pos)))))))"

definition scroll :: "(cga, unit) kop" where
  "scroll =
     (let len = DISPLAY_SIZE - DISPLAY_LINE_SIZE in
      bnd (lift_res (\<lambda>s. bshift DISPLAY_LINE_SIZE (buffer s))) (\<lambda>b.
      seqk (modify (\<lambda>s. s\<lparr>buffer := b\<rparr>))
      (seqk (modify (\<lambda>s. s\<lparr>buffer := overwrite (buffer s) len (replicate DISPLAY_LINE_SIZE 0)\<rparr>))
      (bnd (gets line) (\<lambda>l.
      seqk (assertk (l > 0) ''attempt to subtract with overflow'')
      (seqk (modify (\<lambda>s. s\<lparr>line := l - 1\<rparr>)) set_cursor))))))"

definition newline :: "(cga, unit) kop" where
  "newline =
     seqk (modify (\<lambda>s. s\<lparr>column := 0\<rparr>))
     (seqk (modify (\<lambda>s. s\<lparr>line := line s + 1\<rparr>))
     (bnd (gets line) (\<lambda>l. if l = DISPLAY_HEIGHT then scroll else ret ())))"

text \<open>
  \<open>putb\<close> calls itself on a newline (at the end of a line) and on a space (for tabs and for the
  erasing backspace); the calls are written out, innermost first.
\<close>

definition putb_newline :: "(cga, unit) kop" where
  "putb_newline = seqk newline set_cursor"

definition putb_plain :: "u8 \<Rightarrow> (cga, unit) kop" where
  "putb_plain b =
     bnd (gets (\<lambda>s. column s * 2 + line s * DISPLAY_LINE_SIZE)) (\<lambda>off.
     seqk (put_cell off [b, ATTRIBUTE])
     (seqk (modify (\<lambda>s. s\<lparr>column := column s + 1\<rparr>))
     (seqk (bnd (gets column) (\<lambda>c. if c \<ge> DISPLAY_WIDTH then putb_newline else ret ()))
     set_cursor)))"

fun tab_loop :: "nat \<Rightarrow> nat \<Rightarrow> (cga, unit) kop" where
  "tab_loop 0 tabstop = (\<lambda>s. (Diverge, s))"
| "tab_loop (Suc fuel) tabstop = bnd (gets column) (\<lambda>c.
     if c < tabstop then seqk (putb_plain 0x20) (tab_loop fuel tabstop) else ret ())"

definition putb_tab :: "(cga, unit) kop" where
  "putb_tab = bnd (gets column) (\<lambda>c.
     let tabstop = c + 8 - c mod 8 in
     if tabstop \<ge> DISPLAY_WIDTH
     then seqk newline (tab_loop 81 (tabstop - DISPLAY_WIDTH))
     else tab_loop 81 tabstop)"

definition putb_backspace :: "(cga, unit) kop" where
  "putb_backspace = bnd (gets column) (\<lambda>c.
     if c > 0 then
       seqk (modify (\<lambda>s. s\<lparr>column := c - 1\<rparr>))
       (seqk (putb_plain 0x20)
       (bnd (gets column) (\<lambda>c1.
        seqk (assertk (c1 > 0) ''attempt to subtract with overflow'')
        (modify (\<lambda>s. s\<lparr>column := c1 - 1\<rparr>)))))
     else ret ())"

definition cga_putb :: "u8 \<Rightarrow> (cga, unit) kop" where
  "cga_putb b =
     (if b = 0x0A then seqk newline set_cursor
      else if b = 0x0D then seqk (ret ()) set_cursor
      else if b = 0x09 then seqk putb_tab set_cursor
      else if b = 0x08 then seqk putb_backspace set_cursor
      else putb_plain b)"

section \<open>The abstract screen\<close>

record screen =
  row :: nat
  col :: nat
  cells :: "nat \<Rightarrow> nat \<Rightarrow> u8 \<times> u8"

definition scr_set :: "nat \<Rightarrow> nat \<Rightarrow> u8 \<times> u8 \<Rightarrow> screen \<Rightarrow> screen" where
  "scr_set r c x S = S\<lparr>cells := (\<lambda>r' c'. if r' = r \<and> c' = c then x else cells S r' c')\<rparr>"

definition scr_cursor :: "screen \<Rightarrow> screen" where
  "scr_cursor S = scr_set (row S) (col S) (0x20, 7) S"

definition scr_scroll :: "screen \<Rightarrow> screen" where
  "scr_scroll S = S\<lparr>row := row S - 1,
     cells := (\<lambda>r c. if Suc r < DISPLAY_HEIGHT \<and> c < DISPLAY_WIDTH then cells S (Suc r) c
                     else if r < DISPLAY_HEIGHT \<and> c < DISPLAY_WIDTH then (0, 0) else cells S r c)\<rparr>"

definition scr_newline :: "screen \<Rightarrow> screen" where
  "scr_newline S =
     (let S1 = S\<lparr>col := 0, row := row S + 1\<rparr>
      in if row S1 = DISPLAY_HEIGHT then scr_cursor (scr_scroll S1) else S1)"

definition scr_plain :: "u8 \<Rightarrow> screen \<Rightarrow> screen" where
  "scr_plain b S =
     (let S1 = (scr_set (row S) (col S) (b, 7) S)\<lparr>col := col S + 1\<rparr>
      in scr_cursor (if col S1 \<ge> DISPLAY_WIDTH then scr_cursor (scr_newline S1) else S1))"

definition scr_tab :: "screen \<Rightarrow> screen" where
  "scr_tab S = (if col S + 8 - col S mod 8 \<ge> DISPLAY_WIDTH then scr_newline S
                else (scr_plain 0x20 ^^ (8 - col S mod 8)) S)"

definition scr_putb :: "u8 \<Rightarrow> screen \<Rightarrow> screen" where
  "scr_putb b S =
     (if b = 0x0A then scr_cursor (scr_newline S)
      else if b = 0x0D then scr_cursor S
      else if b = 0x09 then scr_cursor (scr_tab S)
      else if b = 0x08 then
        scr_cursor (if col S > 0
          then (let S1 = scr_plain 0x20 (S\<lparr>col := col S - 1\<rparr>) in S1\<lparr>col := col S1 - 1\<rparr>) else S)
      else scr_plain b S)"

definition cga_inv :: "cga \<Rightarrow> bool" where
  "cga_inv s \<longleftrightarrow> line s < DISPLAY_HEIGHT \<and> column s < DISPLAY_WIDTH \<and> length (buffer s) = DISPLAY_SIZE"

definition cell_at :: "bytes \<Rightarrow> nat \<Rightarrow> nat \<Rightarrow> u8 \<times> u8" where
  "cell_at d r c = (if r < DISPLAY_HEIGHT \<and> c < DISPLAY_WIDTH
     then (d ! (r * DISPLAY_LINE_SIZE + c * 2), d ! (r * DISPLAY_LINE_SIZE + c * 2 + 1)) else (0, 0))"

definition screen_of :: "cga \<Rightarrow> screen" where
  "screen_of s = \<lparr>row = line s, col = column s, cells = cell_at (buffer s)\<rparr>"

section \<open>The driver refines the screen\<close>

text \<open>\<open>refines m f s\<close>: run on \<open>s\<close>, the operation returns with the invariant and does \<open>f\<close> to the screen.\<close>

definition refines :: "(cga, unit) kop \<Rightarrow> (screen \<Rightarrow> screen) \<Rightarrow> cga \<Rightarrow> bool" where
  "refines m f s \<longleftrightarrow> (\<exists>t. m s = (Ok (), t) \<and> screen_of t = f (screen_of s) \<and> cga_inv t)"

lemma refinesI: "m s = (Ok (), t) \<Longrightarrow> screen_of t = f (screen_of s) \<Longrightarrow> cga_inv t \<Longrightarrow> refines m f s"
  by (auto simp: refines_def)

lemma refines_seq:
  assumes "refines m f s" and "\<And>t. cga_inv t \<Longrightarrow> screen_of t = f (screen_of s) \<Longrightarrow> refines n g t"
  shows "refines (seqk m n) (\<lambda>S. g (f S)) s"
proof -
  obtain t where t: "m s = (Ok (), t)" "screen_of t = f (screen_of s)" "cga_inv t"
    using assms(1) by (auto simp: refines_def)
  then obtain u where "n t = (Ok (), u)" "screen_of u = g (screen_of t)" "cga_inv u"
    using assms(2) [of t] by (auto simp: refines_def)
  with t show ?thesis by (intro refinesI [of _ _ u]) (simp_all add: kop_simps)
qed

lemma screen_of_simps [simp]:
  "row (screen_of s) = line s" "col (screen_of s) = column s" "cells (screen_of s) = cell_at (buffer s)"
  "screen_of (s\<lparr>ports := x\<rparr>) = screen_of s"
  by (simp_all add: screen_of_def)

lemma offsets_apart:
  fixes r c r' c' :: nat
  assumes "\<not> (r' = r \<and> c' = c)" "c < DISPLAY_WIDTH" "c' < DISPLAY_WIDTH"
  shows "r' * 160 + c' * 2 + 2 \<le> r * 160 + c * 2 \<or> r * 160 + c * 2 + 2 \<le> r' * 160 + c' * 2"
proof -
  consider "r' = r" "c' < c" | "r' = r" "c < c'" | "Suc r' \<le> r" | "Suc r \<le> r'"
    using assms(1) by linarith
  then show ?thesis using assms by cases linarith+
qed

lemma cell_at_overwrite:
  assumes "length d = DISPLAY_SIZE" "r < DISPLAY_HEIGHT" "c < DISPLAY_WIDTH"
  shows "cell_at (overwrite d (r * DISPLAY_LINE_SIZE + c * 2) [x, y]) =
    (\<lambda>r' c'. if r' = r \<and> c' = c then (x, y) else cell_at d r' c')"
proof (intro ext)
  fix r' c' :: nat
  let ?o = "r * DISPLAY_LINE_SIZE + c * 2" and ?o' = "r' * DISPLAY_LINE_SIZE + c' * 2"
  have o: "?o + 2 \<le> 4000" using assms by linarith
  consider (same) "r' = r" "c' = c" | (out) "\<not> (r' < DISPLAY_HEIGHT \<and> c' < DISPLAY_WIDTH)"
    | (other) "\<not> (r' = r \<and> c' = c)" "r' < DISPLAY_HEIGHT" "c' < DISPLAY_WIDTH" by blast
  then show "cell_at (overwrite d ?o [x, y]) r' c' =
      (if r' = r \<and> c' = c then (x, y) else cell_at d r' c')"
  proof cases
    case same
    then show ?thesis using assms o by (simp add: cell_at_def nth_overwrite)
  next
    case out
    then show ?thesis using assms by (auto simp: cell_at_def)
  next
    case other
    have "?o' + 2 \<le> ?o \<or> ?o + 2 \<le> ?o'" using offsets_apart [OF other(1)] other assms by blast
    moreover have "?o' + 2 \<le> 4000" using other by linarith
    ultimately show ?thesis using assms o other by (auto simp: cell_at_def nth_overwrite)
  qed
qed

lemma put_cell_run:
  assumes "length (buffer s) = DISPLAY_SIZE" "r < DISPLAY_HEIGHT" "c < DISPLAY_WIDTH"
  shows "put_cell (r * DISPLAY_LINE_SIZE + c * 2) [x, y] s =
    (Ok (), s\<lparr>buffer := overwrite (buffer s) (r * DISPLAY_LINE_SIZE + c * 2) [x, y]\<rparr>)"
proof -
  have "r * 160 + c * 2 + 2 \<le> 4000" using assms by linarith
  then show ?thesis using assms by (simp add: put_cell_def kop_direct kop_simps)
qed

lemma cell_offset_bound: "r < DISPLAY_HEIGHT \<Longrightarrow> c < DISPLAY_WIDTH \<Longrightarrow> r * 160 + c * 2 + 2 \<le> (4000 :: nat)"
  by linarith

lemma set_cursor_refines: "cga_inv s \<Longrightarrow> refines set_cursor scr_cursor s"
  by (simp add: refines_def cga_inv_def set_cursor_def kop_direct kop_simps put_cell_run outb_def
      Let_def screen_of_def scr_cursor_def scr_set_def cell_at_overwrite cell_offset_bound
      fun_eq_iff)

lemma scroll_buffer:
  assumes "length d = DISPLAY_SIZE"
  defines "d' \<equiv> overwrite (overwrite d 0 (slice d 160 4000)) 3840 (replicate 160 0)"
  shows "length d' = DISPLAY_SIZE" "cell_at d' = (\<lambda>r c.
    if Suc r < DISPLAY_HEIGHT \<and> c < DISPLAY_WIDTH then cell_at d (Suc r) c
    else if r < DISPLAY_HEIGHT \<and> c < DISPLAY_WIDTH then (0, 0) else cell_at d r c)"
proof -
  have nth: "d' ! i = (if i < 3840 then d ! (i + 160) else 0)" if "i < 4000" for i
    using assms that by (auto simp: nth_overwrite nth_slice add.commute)
  show "length d' = DISPLAY_SIZE" using assms by simp
  show "cell_at d' = (\<lambda>r c. if Suc r < DISPLAY_HEIGHT \<and> c < DISPLAY_WIDTH then cell_at d (Suc r) c
    else if r < DISPLAY_HEIGHT \<and> c < DISPLAY_WIDTH then (0, 0) else cell_at d r c)"
  proof (intro ext)
    fix r c :: nat
    consider "Suc r < 25" "c < 80" | "r = 24" "c < 80" | "\<not> (r < 25 \<and> c < 80)" by linarith
    then show "cell_at d' r c = (if Suc r < DISPLAY_HEIGHT \<and> c < DISPLAY_WIDTH then cell_at d (Suc r) c
      else if r < DISPLAY_HEIGHT \<and> c < DISPLAY_WIDTH then (0, 0) else cell_at d r c)"
      by cases (auto simp: cell_at_def nth algebra_simps)
  qed
qed

lemma scroll_refines:
  assumes "0 < line s" "line s \<le> DISPLAY_HEIGHT" "column s < DISPLAY_WIDTH" "length (buffer s) = DISPLAY_SIZE"
  shows "refines scroll (\<lambda>S. scr_cursor (scr_scroll S)) s"
proof -
  define t where "t = s\<lparr>buffer := overwrite (overwrite (buffer s) 0 (slice (buffer s) 160 4000)) 3840
    (replicate 160 0), line := line s - 1\<rparr>"
  have "scroll s = set_cursor t"
    using assms by (simp add: scroll_def kop_direct bshift_def Let_def t_def)
  moreover have "cga_inv t" "screen_of t = scr_scroll (screen_of s)"
    using assms scroll_buffer [of "buffer s"]
    by (auto simp: t_def cga_inv_def screen_of_def scr_scroll_def fun_eq_iff)
  ultimately show ?thesis using set_cursor_refines [of t] by (simp add: refines_def)
qed

lemma newline_refines: "cga_inv s \<Longrightarrow> refines newline scr_newline s"
proof -
  assume inv: "cga_inv s"
  define t where "t = s\<lparr>column := 0, line := line s + 1\<rparr>"
  have t: "screen_of t = (screen_of s)\<lparr>col := 0, row := row (screen_of s) + 1\<rparr>"
    and lt: "line t = row (screen_of s) + 1"
    by (simp_all add: t_def screen_of_def)
  have run: "newline s = (if line t = DISPLAY_HEIGHT then scroll t else (Ok (), t))"
    by (simp add: newline_def kop_direct kop_simps t_def)
  show ?thesis
  proof (cases "line t = DISPLAY_HEIGHT")
    case True
    then have "refines scroll (\<lambda>S. scr_cursor (scr_scroll S)) t"
      using inv by (intro scroll_refines) (auto simp: t_def cga_inv_def)
    with True run t lt show ?thesis by (simp add: refines_def scr_newline_def)
  next
    case False
    moreover have "cga_inv t" using inv False by (auto simp: cga_inv_def t_def)
    ultimately show ?thesis using run t lt by (simp add: refines_def scr_newline_def)
  qed
qed

lemma putb_newline_refines: "cga_inv s \<Longrightarrow> refines putb_newline (\<lambda>S. scr_cursor (scr_newline S)) s"
  unfolding putb_newline_def by (intro refines_seq newline_refines set_cursor_refines)

lemma putb_plain_refines: "cga_inv s \<Longrightarrow> refines (putb_plain b) (scr_plain b) s"
proof -
  assume inv: "cga_inv s"
  define t where "t = s\<lparr>buffer := overwrite (buffer s) (line s * 160 + column s * 2) [b, 7],
    column := column s + 1\<rparr>"
  have t: "screen_of t = (scr_set (line s) (column s) (b, 7) (screen_of s))\<lparr>col := column s + 1\<rparr>"
    using inv by (auto simp: t_def screen_of_def scr_set_def cga_inv_def cell_at_overwrite fun_eq_iff)
  have run: "putb_plain b s =
      (if column t \<ge> DISPLAY_WIDTH then seqk putb_newline set_cursor t else set_cursor t)"
    using inv put_cell_run [of s "line s" "column s" b 7]
    by (simp add: putb_plain_def kop_direct kop_simps cga_inv_def add.commute t_def)
  show ?thesis
  proof (cases "column t \<ge> DISPLAY_WIDTH")
    case True
    define t0 where "t0 = t\<lparr>column := 79\<rparr>"
    have "newline t = newline t0"
      by (simp add: newline_def kop_direct t0_def)
    then have "putb_newline t = putb_newline t0"
      by (simp add: putb_newline_def seqk_def bnd_def)
    moreover have "cga_inv t0" using inv by (auto simp: t0_def t_def cga_inv_def cell_offset_bound)
    moreover have "scr_newline (screen_of t0) = scr_newline (screen_of t)"
      by (simp add: scr_newline_def t0_def screen_of_def Let_def scr_cursor_def scr_scroll_def)
    ultimately have "refines putb_newline (\<lambda>S. scr_cursor (scr_newline S)) t"
      using putb_newline_refines [of t0] by (simp add: refines_def)
    then have "refines (seqk putb_newline set_cursor) (\<lambda>S. scr_cursor (scr_cursor (scr_newline S))) t"
      by (rule refines_seq) (rule set_cursor_refines)
    moreover have "column s + 1 \<ge> DISPLAY_WIDTH" using True by (simp add: t_def)
    ultimately show ?thesis using run True t by (simp add: refines_def scr_plain_def Let_def)
  next
    case False
    then have "cga_inv t" using inv by (auto simp: t_def cga_inv_def cell_offset_bound)
    moreover have "\<not> column s + 1 \<ge> DISPLAY_WIDTH" using False by (simp add: t_def)
    ultimately show ?thesis using run False t set_cursor_refines [of t]
      by (simp add: refines_def scr_plain_def Let_def)
  qed
qed

lemma scr_plain_col: "col S + 1 < DISPLAY_WIDTH \<Longrightarrow> col (scr_plain b S) = col S + 1"
  by (simp add: scr_plain_def Let_def scr_cursor_def scr_set_def)

lemma scr_newline_col [simp]: "col (scr_newline S) = 0"
  by (simp add: scr_newline_def Let_def scr_cursor_def scr_set_def scr_scroll_def)

lemma refines_col: "screen_of t = S \<Longrightarrow> column t = col S"
  by auto

lemma tab_loop_refines:
  "cga_inv s \<Longrightarrow> column s \<le> tabstop \<Longrightarrow> tabstop < DISPLAY_WIDTH \<Longrightarrow> tabstop - column s < fuel \<Longrightarrow>
   refines (tab_loop fuel tabstop) (scr_plain 0x20 ^^ (tabstop - column s)) s"
proof (induction fuel arbitrary: s)
  case 0
  then show ?case by simp
next
  case (Suc fuel)
  show ?case
  proof (cases "column s < tabstop")
    case False
    then show ?thesis using Suc.prems by (simp add: refines_def kop_direct kop_simps)
  next
    case True
    have "refines (seqk (putb_plain 0x20) (tab_loop fuel tabstop))
        (\<lambda>S. (scr_plain 0x20 ^^ (tabstop - Suc (column s))) (scr_plain 0x20 S)) s"
    proof (rule refines_seq [OF putb_plain_refines [OF Suc.prems(1)]])
      fix t assume t: "cga_inv t" "screen_of t = scr_plain 0x20 (screen_of s)"
      have "column t = Suc (column s)"
        using refines_col [OF t(2)] True Suc.prems by (simp add: scr_plain_col)
      then show "refines (tab_loop fuel tabstop) (scr_plain 0x20 ^^ (tabstop - Suc (column s))) t"
        using Suc.IH [of t] Suc.prems True t by simp
    qed
    moreover have "tabstop - column s = Suc (tabstop - Suc (column s))" using True by simp
    ultimately show ?thesis using True
      by (simp add: refines_def kop_direct funpow_swap1)
  qed
qed

lemma putb_tab_refines: "cga_inv s \<Longrightarrow> refines putb_tab scr_tab s"
proof -
  assume inv: "cga_inv s"
  let ?stop = "column s + 8 - column s mod 8"
  have c: "column s < 80" using inv by (simp add: cga_inv_def)
  have stop: "?stop = (column s div 8 + 1) * 8"
    by (metis (no_types, lifting) add.commute add_diff_assoc add_mult_distrib2 diff_add_inverse2
        minus_mod_eq_mult_div mod_less_eq_dividend mult.commute mult.right_neutral)
  have "column s div 8 < 10" using c by (intro less_mult_imp_div_less) simp
  then have le: "?stop \<le> 80" unfolding stop by simp
  show ?thesis
  proof (cases "?stop \<ge> DISPLAY_WIDTH")
    case True
    then have "?stop - DISPLAY_WIDTH = 0" using le by simp
    moreover have "refines (seqk newline (tab_loop 81 0)) (\<lambda>S. id (scr_newline S)) s"
    proof (rule refines_seq [OF newline_refines [OF inv]])
      fix t assume "cga_inv t" "screen_of t = scr_newline (screen_of s)"
      then show "refines (tab_loop 81 0) id t" using tab_loop_refines [of t 0 81] refines_col [of t]
        by (simp add: id_def)
    qed
    ultimately show ?thesis using True
      by (simp add: putb_tab_def refines_def kop_direct scr_tab_def Let_def)
  next
    case False
    have "?stop - column s = 8 - column s mod 8" by (simp add: diff_diff_eq2)
    moreover have "refines (tab_loop 81 ?stop) (scr_plain 0x20 ^^ (?stop - column s)) s"
      using False by (intro tab_loop_refines inv) (auto simp: c)
    ultimately show ?thesis using False
      by (simp add: putb_tab_def refines_def kop_direct scr_tab_def Let_def)
  qed
qed

lemma putb_backspace_refines:
  "cga_inv s \<Longrightarrow> refines putb_backspace (\<lambda>S. if col S > 0
     then (let S1 = scr_plain 0x20 (S\<lparr>col := col S - 1\<rparr>) in S1\<lparr>col := col S1 - 1\<rparr>) else S) s"
proof -
  assume inv: "cga_inv s"
  show ?thesis
  proof (cases "column s > 0")
    case False
    then show ?thesis using inv by (simp add: putb_backspace_def refines_def kop_direct kop_simps)
  next
    case True
    define t where "t = s\<lparr>column := column s - 1\<rparr>"
    have t: "cga_inv t" "screen_of t = (screen_of s)\<lparr>col := column s - 1\<rparr>"
      using inv by (auto simp: t_def cga_inv_def screen_of_def)
    from putb_plain_refines [OF t(1), of "0x20"] obtain u
      where u: "putb_plain 0x20 t = (Ok (), u)" "screen_of u = scr_plain 0x20 (screen_of t)" "cga_inv u"
      by (auto simp: refines_def)
    have cu: "column u = column s"
      using refines_col [OF u(2)] t True inv by (simp add: scr_plain_col cga_inv_def)
    have "putb_backspace s = (Ok (), u\<lparr>column := column u - 1\<rparr>)"
      using True cu u(1) by (simp add: putb_backspace_def kop_direct kop_simps t_def)
    moreover have "screen_of (u\<lparr>column := column u - 1\<rparr>) = (screen_of u)\<lparr>col := col (screen_of u) - 1\<rparr>"
      "cga_inv (u\<lparr>column := column u - 1\<rparr>)"
      using u(3) by (auto simp: screen_of_def cga_inv_def)
    ultimately show ?thesis using True
      by (intro refinesI) (simp_all only: u(2) t(2) Let_def screen_of_simps if_True)
  qed
qed

lemma cga_putb_step:
  assumes "cga_inv s"
  shows "\<exists>t. cga_putb b s = (Ok (), t) \<and> screen_of t = scr_putb b (screen_of s) \<and> cga_inv t"
proof -
  note ops = newline_refines putb_tab_refines putb_backspace_refines
  have "refines (seqk newline set_cursor) (\<lambda>S. scr_cursor (scr_newline S)) s"
    "refines (seqk putb_tab set_cursor) (\<lambda>S. scr_cursor (scr_tab S)) s"
    "refines (seqk putb_backspace set_cursor) (\<lambda>S. scr_cursor (if col S > 0
       then (let S1 = scr_plain 0x20 (S\<lparr>col := col S - 1\<rparr>) in S1\<lparr>col := col S1 - 1\<rparr>) else S)) s"
    by (rule refines_seq [OF ops(1) [OF assms]], erule set_cursor_refines)
      (rule refines_seq [OF ops(2) [OF assms]], erule set_cursor_refines,
       rule refines_seq [OF ops(3) [OF assms]], erule set_cursor_refines)
  with set_cursor_refines [OF assms] putb_plain_refines [OF assms, of b]
  show ?thesis by (simp add: refines_def cga_putb_def scr_putb_def kop_simps)
qed

lemma cga_putb_safe: "cga_inv s \<Longrightarrow> \<exists>t. cga_putb b s = (Ok (), t) \<and> cga_inv t"
  using cga_putb_step [of s b] by blast

text \<open>
  C31: Writing any byte to the display with the cursor on it returns without a panic, with the
  cursor still on the display, and does to the grid of cells what the abstract screen says: a
  printable byte appears at the cursor and the cursor advances, a full line or a newline moves to
  the next line, the last line scrolls every row up by one and clears the bottom one, a tab fills
  with spaces to the next multiple of eight, a backspace blanks the cell to the left on the same line.
\<close>
theorem cga_refines_screen:
  assumes "cga_inv s"
  shows "\<exists>t. cga_putb b s = (Ok (), t) \<and> screen_of t = scr_putb b (screen_of s) \<and> cga_inv t"
  by (rule cga_putb_step [OF assms])

theorem cga_refines_screen_witness:
  "\<exists>t. cga_putb 0x41 (cga_new (replicate DISPLAY_SIZE 0)) = (Ok (), t)
     \<and> screen_of t = scr_putb 0x41 (screen_of (cga_new (replicate DISPLAY_SIZE 0))) \<and> cga_inv t"
  by (rule cga_refines_screen) (simp add: cga_inv_def cga_new_def)

end
