(* ===== verification/Kbd.thy ===== *)
theory Kbd
  imports Prelude
begin

text \<open>
  The keyboard (\<open>kernel/src/kbd.rs\<close>): scan codes to bytes through three maps chosen by the modifier
  keys, which the driver tracks in a static bit set. One call of \<open>getb\<close> is a function of what the
  status and data ports hold and of that bit set.
\<close>

section \<open>Codes and maps\<close>

abbreviation (input) M_SHIFT :: usize where "M_SHIFT \<equiv> 1"
abbreviation (input) M_CTL :: usize where "M_CTL \<equiv> 2"
abbreviation (input) M_ALT :: usize where "M_ALT \<equiv> 4"
abbreviation (input) M_CAPSLOCK :: usize where "M_CAPSLOCK \<equiv> 8"
abbreviation (input) M_NUMLOCK :: usize where "M_NUMLOCK \<equiv> 16"
abbreviation (input) M_SCROLLLOCK :: usize where "M_SCROLLLOCK \<equiv> 32"
abbreviation (input) M_E0ESC :: usize where "M_E0ESC \<equiv> 64"

abbreviation NO :: u8 where "NO \<equiv> 0"
abbreviation K_HOME :: u8 where "K_HOME \<equiv> 0xE0"
abbreviation K_END :: u8 where "K_END \<equiv> 0xE1"
abbreviation K_UP :: u8 where "K_UP \<equiv> 0xE2"
abbreviation K_DOWN :: u8 where "K_DOWN \<equiv> 0xE3"
abbreviation K_LEFT :: u8 where "K_LEFT \<equiv> 0xE4"
abbreviation K_RIGHT :: u8 where "K_RIGHT \<equiv> 0xE5"
abbreviation K_PGUP :: u8 where "K_PGUP \<equiv> 0xE6"
abbreviation K_PGDN :: u8 where "K_PGDN \<equiv> 0xE7"
abbreviation K_INS :: u8 where "K_INS \<equiv> 0xE8"
abbreviation K_DEL :: u8 where "K_DEL \<equiv> 0xE9"

definition kctl :: "u8 \<Rightarrow> u8" where
  "kctl b = b - 0x40"

definition shift_code :: "u8 \<Rightarrow> usize" where
  "shift_code b =
     (if b = 0x1D \<or> b = 0x9D then M_CTL
      else if b = 0x2A \<or> b = 0x36 then M_SHIFT
      else if b = 0x38 \<or> b = 0xB8 then M_ALT
      else 0)"

definition toggle_code :: "u8 \<Rightarrow> usize" where
  "toggle_code b =
     (if b = 0x3A then M_CAPSLOCK
      else if b = 0x45 then M_NUMLOCK
      else if b = 0x46 then M_SCROLLLOCK
      else 0)"

definition NORMAL_MAP :: "u8 list" where
  "NORMAL_MAP = [
    NO, 0x1B, 0x31, 0x32, 0x33, 0x34, 0x35, 0x36,
    0x37, 0x38, 0x39, 0x30, 0x2D, 0x3D, 0x07, 0x09,
    0x71, 0x77, 0x65, 0x72, 0x74, 0x79, 0x75, 0x69,
    0x6F, 0x70, 0x5B, 0x5D, 0x0A, NO, 0x61, 0x73,
    0x64, 0x66, 0x67, 0x68, 0x6A, 0x6B, 0x6C, 0x3B,
    0x27, 0x60, NO, 0x5C, 0x7A, 0x78, 0x63, 0x76,
    0x62, 0x6E, 0x6D, 0x2C, 0x2E, 0x2F, NO, 0x2A,
    NO, 0x20, NO, NO, NO, NO, NO, NO,
    NO, NO, NO, NO, NO, NO, NO, 0x37,
    0x38, 0x39, 0x2D, 0x34, 0x35, 0x36, 0x2B, 0x31,
    0x32, 0x33, 0x30, 0x2E, NO, NO, NO, NO,
    NO, NO, NO, NO, NO, NO, NO, NO,
    NO, NO, NO, NO, NO, NO, NO, NO,
    NO, NO, NO, NO, NO, NO, NO, NO,
    NO, NO, NO, NO, NO, NO, NO, NO,
    NO, NO, NO, NO, NO, NO, NO, NO,
    NO, NO, NO, NO, NO, 0x2F, NO, NO,
    NO, NO, NO, NO, NO, NO, NO, NO,
    NO, NO, NO, NO, NO, NO, NO, NO,
    NO, NO, NO, NO, 0x0A, NO, NO, NO,
    NO, NO, NO, NO, NO, NO, NO, NO,
    NO, NO, NO, NO, NO, NO, NO, NO,
    NO, NO, NO, NO, NO, NO, NO, NO,
    NO, NO, NO, NO, NO, NO, NO, NO,
    NO, NO, NO, NO, NO, NO, NO, K_HOME,
    K_UP, K_PGUP, NO, K_LEFT, NO, K_RIGHT, NO, K_END,
    K_DOWN, K_PGDN, K_INS, K_DEL, NO, NO, NO, NO,
    NO, NO, NO, NO, NO, NO, NO, NO,
    NO, NO, NO, NO, NO, NO, NO, NO,
    NO, NO, NO, NO, NO, NO, NO, NO,
    NO, NO, NO, NO, NO, NO, NO, NO,
    NO, NO, NO, NO, NO, NO, NO, NO]"

definition SHIFT_MAP :: "u8 list" where
  "SHIFT_MAP = [
    NO, 0x1B, 0x21, 0x40, 0x23, 0x24, 0x25, 0x5E,
    0x26, 0x2A, 0x28, 0x29, 0x5F, 0x2B, 0x07, 0x09,
    0x51, 0x57, 0x45, 0x52, 0x54, 0x59, 0x55, 0x49,
    0x4F, 0x50, 0x7B, 0x7D, 0x0A, NO, 0x41, 0x53,
    0x44, 0x46, 0x47, 0x48, 0x4A, 0x4B, 0x4C, 0x3A,
    0x22, 0x7E, NO, 0x7C, 0x5A, 0x58, 0x43, 0x56,
    0x42, 0x4E, 0x4D, 0x3C, 0x3E, 0x3F, NO, 0x2A,
    NO, 0x20, NO, NO, NO, NO, NO, NO,
    NO, NO, NO, NO, NO, NO, NO, 0x37,
    0x38, 0x39, 0x2D, 0x34, 0x35, 0x36, 0x2B, 0x31,
    0x32, 0x33, 0x30, 0x2E, NO, NO, NO, NO,
    NO, NO, NO, NO, NO, NO, NO, NO,
    NO, NO, NO, NO, NO, NO, NO, NO,
    NO, NO, NO, NO, NO, NO, NO, NO,
    NO, NO, NO, NO, NO, NO, NO, NO,
    NO, NO, NO, NO, NO, NO, NO, NO,
    NO, NO, NO, NO, NO, 0x2F, NO, NO,
    NO, NO, NO, NO, NO, NO, NO, NO,
    NO, NO, NO, NO, NO, NO, NO, NO,
    NO, NO, NO, NO, 0x0A, NO, NO, NO,
    NO, NO, NO, NO, NO, NO, NO, NO,
    NO, NO, NO, NO, NO, NO, NO, NO,
    NO, NO, NO, NO, NO, NO, NO, NO,
    NO, NO, NO, NO, NO, NO, NO, NO,
    NO, NO, NO, NO, NO, NO, NO, K_HOME,
    K_UP, K_PGUP, NO, K_LEFT, NO, K_RIGHT, NO, K_END,
    K_DOWN, K_PGDN, K_INS, K_DEL, NO, NO, NO, NO,
    NO, NO, NO, NO, NO, NO, NO, NO,
    NO, NO, NO, NO, NO, NO, NO, NO,
    NO, NO, NO, NO, NO, NO, NO, NO,
    NO, NO, NO, NO, NO, NO, NO, NO,
    NO, NO, NO, NO, NO, NO, NO, NO]"

definition CTL_MAP :: "u8 list" where
  "CTL_MAP = [
    NO, NO, NO, NO, NO, NO, NO, NO,
    NO, NO, NO, NO, NO, NO, NO, NO,
    kctl 0x51, kctl 0x57, kctl 0x45, kctl 0x52, kctl 0x54, kctl 0x59, kctl 0x55, kctl 0x49,
    kctl 0x4F, kctl 0x50, NO, NO, 0x0D, NO, kctl 0x41, kctl 0x53,
    kctl 0x44, kctl 0x46, kctl 0x47, kctl 0x48, kctl 0x4A, kctl 0x4B, kctl 0x4C, NO,
    NO, NO, NO, kctl 0x5C, kctl 0x5A, kctl 0x58, kctl 0x43, kctl 0x56,
    kctl 0x42, kctl 0x4E, kctl 0x4D, NO, NO, 0x2F, NO, NO,
    NO, 0x20, NO, NO, NO, NO, NO, NO,
    NO, NO, NO, NO, NO, NO, NO, 0x37,
    0x38, 0x39, 0x2D, 0x34, 0x35, 0x36, 0x2B, 0x31,
    0x32, 0x33, 0x30, 0x2E, NO, NO, NO, NO,
    NO, NO, NO, NO, NO, NO, NO, NO,
    NO, NO, NO, NO, NO, NO, NO, NO,
    NO, NO, NO, NO, NO, NO, NO, NO,
    NO, NO, NO, NO, NO, NO, NO, NO,
    NO, NO, NO, NO, NO, NO, NO, NO,
    NO, NO, NO, NO, NO, 0x2F, NO, NO,
    NO, NO, NO, NO, NO, NO, NO, NO,
    NO, NO, NO, NO, NO, NO, NO, NO,
    NO, NO, NO, NO, 0x0D, NO, NO, NO,
    NO, NO, NO, NO, NO, NO, NO, NO,
    NO, NO, NO, NO, NO, NO, NO, NO,
    NO, NO, NO, NO, NO, NO, NO, NO,
    NO, NO, NO, NO, NO, NO, NO, NO,
    NO, NO, NO, NO, NO, NO, NO, K_HOME,
    K_UP, K_PGUP, NO, K_LEFT, NO, K_RIGHT, NO, K_END,
    K_DOWN, K_PGDN, K_INS, K_DEL, NO, NO, NO, NO,
    NO, NO, NO, NO, NO, NO, NO, NO,
    NO, NO, NO, NO, NO, NO, NO, NO,
    NO, NO, NO, NO, NO, NO, NO, NO,
    NO, NO, NO, NO, NO, NO, NO, NO,
    NO, NO, NO, NO, NO, NO, NO, NO]"

section \<open>One byte from the keyboard\<close>

text \<open>\<open>bitflags\<close>: \<open>contains\<close> asks for all bits of its argument.\<close>

definition has :: "usize \<Rightarrow> usize \<Rightarrow> bool" where
  "has m f \<longleftrightarrow> m AND f = f"

definition is_lower :: "u8 \<Rightarrow> bool" where
  "is_lower b \<longleftrightarrow> 0x61 \<le> b \<and> b \<le> 0x7A"

definition is_upper :: "u8 \<Rightarrow> bool" where
  "is_upper b \<longleftrightarrow> 0x41 \<le> b \<and> b \<le> 0x5A"

definition caps :: "usize \<Rightarrow> u8 \<Rightarrow> u8" where
  "caps m b = (if has m M_CAPSLOCK
     then (if is_lower b then b - 0x20 else if is_upper b then b + 0x20 else b) else b)"

definition key_map :: "usize \<Rightarrow> u8 list" where
  "key_map m = (if has m M_CTL then CTL_MAP else if has m M_SHIFT then SHIFT_MAP else NORMAL_MAP)"

definition key_down :: "u8 \<Rightarrow> usize \<Rightarrow> u8 option \<times> usize" where
  "key_down data m =
     (let m1 = m OR shift_code data;
          m2 = m1 XOR toggle_code data;
          b = caps m2 (key_map m2 ! unat data)
      in (if b = 0 then None else Some b, m2))"

definition kbd_getb :: "u8 \<Rightarrow> u8 \<Rightarrow> usize \<Rightarrow> u8 option \<times> usize" where
  "kbd_getb status data m =
     (if status AND 1 \<noteq> 1 then (None, m)
      else if data = 0xE0 then (None, m OR M_E0ESC)
      else if data AND 0x80 \<noteq> 0 then
        let data1 = (if has m M_E0ESC then data else data AND 0x7F)
        in (None, m AND NOT (M_E0ESC OR shift_code data1))
      else if has m M_E0ESC then key_down (data OR 0x80) (m AND NOT M_E0ESC)
      else key_down data m)"

section \<open>Properties\<close>

lemma has_E0ESC: "has m M_E0ESC \<longleftrightarrow> bit m 6"
proof -
  have "m AND 64 = (if bit m 6 then 64 else 0)"
  proof (rule bit_word_eqI)
    fix n assume "n < LENGTH(64)"
    have "bit (64 :: usize) n \<longleftrightarrow> n = 6" using bit_exp_iff [of 6 n, where 'a = usize] \<open>n < LENGTH(64)\<close> by simp
    then show "bit (m AND 64) n = bit (if bit m 6 then 64 else 0 :: usize) n"
      by (auto simp: bit_simps)
  qed
  then show ?thesis by (simp add: has_def)
qed

lemma not_E0ESC: "\<not> has m M_E0ESC \<Longrightarrow> m AND M_E0ESC = 0"
  using and_exp_eq_0_iff_not_bit [of m 6] by (simp add: has_E0ESC)

lemma codes_disjoint: "shift_code d = 0 \<or> toggle_code d = 0"
  by (simp add: shift_code_def toggle_code_def)

lemma codes_not_E0: "shift_code d AND M_E0ESC = 0" "toggle_code d AND M_E0ESC = 0"
  by (simp_all add: shift_code_def toggle_code_def)

lemma and_disjointD: "a AND b = (0 :: usize) \<Longrightarrow> bit a n \<Longrightarrow> \<not> bit b n"
  by (metis bit_0_eq bit_and_iff bot_apply bot_bool_def)

lemma press_release_bits:
  fixes m e sc tc :: usize
  assumes "m AND e = 0" "tc AND e = 0" "sc = 0 \<or> tc = 0"
  shows "((m OR sc) XOR tc) AND NOT (e OR sc) = (m XOR tc) AND NOT sc"
proof (rule bit_word_eqI)
  fix n assume "n < LENGTH(64)"
  then show "bit (((m OR sc) XOR tc) AND NOT (e OR sc)) n = bit ((m XOR tc) AND NOT sc) n"
    using assms and_disjointD [OF assms(1), of n] and_disjointD [OF assms(2), of n]
    by (auto simp: bit_simps)
qed

lemma down_up:
  assumes "d AND 0x80 = 0" "d \<noteq> 0x60"
  shows "d \<noteq> 0xE0" "(d OR 0x80) AND 0x7F = d" "(d OR 0x80) AND 0x80 \<noteq> 0" "d OR 0x80 \<noteq> (0xE0 :: u8)"
proof -
  have d: "\<not> bit d 7" using and_exp_eq_0_iff_not_bit [of d 7] assms(1) by simp
  have b80: "bit (0x80 :: u8) n \<longleftrightarrow> n = 7" if "n < 8" for n
    using bit_exp_iff [of 7 n, where 'a = u8] that by simp
  have b7F: "bit (0x7F :: u8) n \<longleftrightarrow> n < 7" if "n < 8" for n
    using bit_mask_iff [of 7 n, where 'a = u8] that by (simp add: mask_eq_exp_minus_1)
  show "d \<noteq> 0xE0" using assms(1) by auto
  show r: "(d OR 0x80) AND 0x7F = d"
  proof (rule bit_word_eqI)
    fix n assume "n < LENGTH(8)"
    then show "bit ((d OR 0x80) AND 0x7F) n = bit d n"
      using d b80 [of n] b7F [of n] by (cases "n = 7") (auto simp: bit_simps)
  qed
  show "(d OR 0x80) AND 0x80 \<noteq> 0"
    using and_exp_eq_0_iff_not_bit [of "d OR 0x80" 7] b80 [of 7] by (simp add: bit_simps)
  show "d OR 0x80 \<noteq> 0xE0" using r assms(2) by auto
qed

text \<open>
  Pressing and releasing a key, with no escape prefix pending, leaves the modifiers as they were
  but for the lock the key toggles, and with the key's own shift, control or alt bit off. The scan
  code \<open>0x60\<close> is left out: its release code is the escape prefix \<open>0xE0\<close>.
\<close>
theorem kbd_press_release:
  assumes "d AND 0x80 = 0" "d \<noteq> 0x60" "\<not> has m M_E0ESC"
  shows "snd (kbd_getb 1 (d OR 0x80) (snd (kbd_getb 1 d m))) = (m XOR toggle_code d) AND NOT (shift_code d)"
proof -
  note du = down_up [OF assms(1,2)]
  define m1 where "m1 = (m OR shift_code d) XOR toggle_code d"
  have m1: "snd (kbd_getb 1 d m) = m1"
    using assms du(1) by (simp add: kbd_getb_def key_down_def Let_def m1_def)
  have b6: "\<not> bit m 6" "\<not> bit (shift_code d) 6" "\<not> bit (toggle_code d) 6"
    using assms(3) codes_not_E0 [of d] and_exp_eq_0_iff_not_bit [of "shift_code d" 6]
      and_exp_eq_0_iff_not_bit [of "toggle_code d" 6] by (simp_all add: has_E0ESC)
  then have "\<not> has m1 M_E0ESC" by (simp add: has_E0ESC m1_def bit_simps)
  then have "snd (kbd_getb 1 (d OR 0x80) m1) = m1 AND NOT (M_E0ESC OR shift_code d)"
    using du by (simp add: kbd_getb_def Let_def)
  then show ?thesis
    using press_release_bits [OF not_E0ESC [OF assms(3)] codes_not_E0(2) codes_disjoint] m1
    by (simp add: m1_def)
qed

theorem kbd_press_release_witness:
  "snd (kbd_getb 1 (0x2A OR 0x80) (snd (kbd_getb 1 0x2A M_CAPSLOCK)))
     = (M_CAPSLOCK XOR toggle_code 0x2A) AND NOT (shift_code 0x2A)"
  by (rule kbd_press_release) (simp_all add: has_def)

definition key_consistent :: "nat \<Rightarrow> bool" where
  "key_consistent k =
     (if is_lower (NORMAL_MAP ! k)
      then SHIFT_MAP ! k = NORMAL_MAP ! k - 0x20 \<and> CTL_MAP ! k = NORMAL_MAP ! k - 0x60
      else \<not> is_lower (SHIFT_MAP ! k))"

text \<open>
  The three maps cover every scan code and agree on the letters: wherever the plain map has a
  letter, the shift map has its capital and the control map its control code, and no other key is
  a lower-case letter under shift. The backspace key, in both maps that have it, is the bell
  character \<open>0x07\<close> and not the \<open>0x08\<close> that the console takes as the erase character.
\<close>
theorem kbd_maps_agree:
  "length NORMAL_MAP = 256 \<and> length SHIFT_MAP = 256 \<and> length CTL_MAP = 256
    \<and> list_all key_consistent [0..<256]
    \<and> kbd_getb 1 0x0E 0 = (Some 0x07, 0) \<and> kbd_getb 1 0x0E M_SHIFT = (Some 0x07, M_SHIFT)"
  by (intro conjI) code_simp+

end
