(* ===== verification/Console.thy ===== *)
theory Console
  imports Ring Cga Kbd
begin

text \<open>
  The console (\<open>kernel/src/console.rs\<close>): output to the serial line and the display, and the line
  discipline on input, a ring of 256 bytes with a third index for the line being edited. The
  abstract line discipline is a pair of byte lists, the committed input and the line under the
  cursor; the ring implements it. What \<open>proc::dump\<close> prints on control-P is a parameter, the text.
\<close>

section \<open>Output\<close>

definition ctrl :: "u8 \<Rightarrow> u8" where
  "ctrl b = b - 0x40"

abbreviation BACKSPACE :: u8 where "BACKSPACE \<equiv> 0x08"
abbreviation DELETE :: u8 where "DELETE \<equiv> 0x7F"
abbreviation CTLD :: u8 where "CTLD \<equiv> 0x04"
abbreviation CTLP :: u8 where "CTLP \<equiv> 0x10"
abbreviation CTLU :: u8 where "CTLU \<equiv> 0x15"

lemma ctrl_codes: "ctrl 0x48 = BACKSPACE" "ctrl 0x44 = CTLD" "ctrl 0x50 = CTLP" "ctrl 0x55 = CTLU"
  by (simp_all add: ctrl_def)

text \<open>The bytes sent on the serial line, and the display.\<close>

record writers =
  uart :: "bytes option"
  disp :: "cga option"

definition uart_out :: "u8 \<Rightarrow> writers \<Rightarrow> writers" where
  "uart_out b w = w\<lparr>uart := map_option (\<lambda>bs. bs @ [b]) (uart w)\<rparr>"

definition uart_seq :: "u8 \<Rightarrow> bytes" where
  "uart_seq b =
     (if b = 0x0A then [0x0D] else if b = BACKSPACE then [b, 0x20] else []) @ [b]"

definition writers_putb :: "u8 \<Rightarrow> (writers, unit) kop" where
  "writers_putb b =
     seqk (modify (\<lambda>w. fold uart_out (uart_seq b) w))
     (\<lambda>w. case disp w of None \<Rightarrow> (Ok (), w)
          | Some c \<Rightarrow> (let (r, c') = cga_putb b c in (r, w\<lparr>disp := Some c'\<rparr>)))"

section \<open>Input\<close>

abbreviation CAPACITY :: nat where "CAPACITY \<equiv> 256"

record reader =
  rbuf :: bytes
  read_index :: usize
  write_index :: usize
  edit_index :: usize

record console =
  rdr :: reader
  wtr :: writers
  wakeups :: nat

definition rd_len :: "reader \<Rightarrow> usize" where
  "rd_len r = write_index r - read_index r"

definition rd_is_empty :: "reader \<Rightarrow> bool" where
  "rd_is_empty r \<longleftrightarrow> read_index r = write_index r"

definition rd_is_full :: "reader \<Rightarrow> bool" where
  "rd_is_full r \<longleftrightarrow> edit_index r - read_index r = of_nat CAPACITY"

definition echo :: "u8 \<Rightarrow> (console, unit) kop" where
  "echo b s = (let (r, w) = writers_putb b (wtr s) in (r, s\<lparr>wtr := w\<rparr>))"

definition mod_rdr :: "(reader \<Rightarrow> reader) \<Rightarrow> (console, unit) kop" where
  "mod_rdr f = modify (\<lambda>s. s\<lparr>rdr := f (rdr s)\<rparr>)"

definition rd_backspace :: "(console, unit) kop" where
  "rd_backspace = bnd (gets rdr) (\<lambda>r.
     if edit_index r \<noteq> write_index r
     then seqk (mod_rdr (\<lambda>r. r\<lparr>edit_index := edit_index r - 1\<rparr>)) (echo BACKSPACE)
     else ret ())"

text \<open>The loop of \<open>kill\<close> erases one byte a round, at most as many as the two indices are apart.\<close>

fun rd_kill_loop :: "nat \<Rightarrow> (console, unit) kop" where
  "rd_kill_loop 0 = (\<lambda>s. (Diverge, s))"
| "rd_kill_loop (Suc fuel) = bnd (gets rdr) (\<lambda>r.
     if edit_index r \<noteq> write_index r then seqk rd_backspace (rd_kill_loop fuel) else ret ())"

definition rd_kill :: "(console, unit) kop" where
  "rd_kill = bnd (gets rdr) (\<lambda>r. rd_kill_loop (Suc (unat (edit_index r - write_index r))))"

definition rd_store :: "u8 \<Rightarrow> (console, unit) kop" where
  "rd_store b =
     seqk (mod_rdr (\<lambda>r. r\<lparr>rbuf := (rbuf r)[unat (edit_index r) mod CAPACITY := b]\<rparr>))
     (seqk (mod_rdr (\<lambda>r. r\<lparr>edit_index := edit_index r + 1\<rparr>))
     (seqk (echo b)
     (bnd (gets rdr) (\<lambda>r.
        if b = 0x0A \<or> b = CTLD \<or> edit_index r = read_index r + of_nat CAPACITY
        then seqk (mod_rdr (\<lambda>r. r\<lparr>write_index := edit_index r\<rparr>))
             (modify (\<lambda>s. s\<lparr>wakeups := wakeups s + 1\<rparr>))
        else ret ()))))"

definition rd_put :: "bytes \<Rightarrow> u8 \<Rightarrow> (console, usize) kop" where
  "rd_put dump b =
     seqk (if b = BACKSPACE \<or> b = DELETE then rd_backspace
           else if b = CTLP then run_all echo dump
           else if b = CTLU then rd_kill
           else bnd (gets rdr) (\<lambda>r.
             if rd_is_full r then throw ''console overflow''
             else rd_store (if b = 0x0D then 0x0A else b)))
     (gets (\<lambda>s. rd_len (rdr s)))"

definition rd_peek :: "(console, u8) kop" where
  "rd_peek = bnd (gets rdr) (\<lambda>r.
     if rd_is_empty r then throw ''console underflow''
     else ret (rbuf r ! (unat (read_index r) mod CAPACITY)))"

definition rd_get :: "(console, u8) kop" where
  "rd_get = bnd rd_peek (\<lambda>b.
     seqk (mod_rdr (\<lambda>r. r\<lparr>read_index := read_index r + 1\<rparr>)) (ret b))"

section \<open>The device\<close>

text \<open>
  A read of the device sleeps when the committed input runs out; woken, it goes on with the bytes it
  has already stored in the buffer (\<open>acc\<close>) and the room that is left.
\<close>

datatype cons_status = CDone bytes | CSleep bytes

fun console_read_loop :: "bool \<Rightarrow> nat \<Rightarrow> bytes \<Rightarrow> (console, cons_status) kop" where
  "console_read_loop dead 0 acc = ret (CDone acc)"
| "console_read_loop dead (Suc n) acc = bnd (gets rdr) (\<lambda>r.
     if rd_is_empty r then (if dead then throw ''killed'' else ret (CSleep acc))
     else bnd (expectk ''console buffer empty'' rd_peek) (\<lambda>b.
       if b = CTLD then seqk rd_get (ret (CDone acc))
       else bnd (expectk ''unwrap'' rd_get) (\<lambda>b1.
         if b = 0x0A then ret (CDone (acc @ [b1]))
         else console_read_loop dead n (acc @ [b1]))))"

definition console_read :: "bool \<Rightarrow> nat \<Rightarrow> (console, cons_status) kop" where
  "console_read dead len = console_read_loop dead len []"

definition console_write :: "bytes \<Rightarrow> (console, nat) kop" where
  "console_write bs = seqk (run_all echo bs) (ret (length bs))"

definition console_puts :: "bytes \<Rightarrow> (console, unit) kop" where
  "console_puts bs = seqk (run_all echo bs) (echo 0x0A)"

definition console_init :: "console \<Rightarrow> console" where
  "console_init s = s\<lparr>wtr := (wtr s)\<lparr>disp := map_option blank (disp (wtr s))\<rparr>\<rparr>"

text \<open>\<open>interrupt\<close>: the bytes \<open>getb\<close> delivers before it returns \<open>None\<close>; a result \<open>Err\<close> is dropped.\<close>

definition put_drop :: "bytes \<Rightarrow> u8 \<Rightarrow> (console, unit) kop" where
  "put_drop dump b = catchk (rd_put dump b) (\<lambda>_. ret ()) (\<lambda>_. ret ())"

definition console_interrupt :: "bytes \<Rightarrow> bytes \<Rightarrow> (console, unit) kop" where
  "console_interrupt dump bs = run_all (put_drop dump) bs"

section \<open>The abstract line discipline\<close>

record lines =
  committed :: bytes
  editing :: bytes

definition ld_full :: "lines \<Rightarrow> bool" where
  "ld_full d \<longleftrightarrow> length (committed d) + length (editing d) = CAPACITY"

definition ld_store :: "u8 \<Rightarrow> lines \<Rightarrow> lines" where
  "ld_store b d =
     (let d1 = d\<lparr>editing := editing d @ [b]\<rparr>
      in if b = 0x0A \<or> b = CTLD \<or> ld_full d1
         then \<lparr>committed = committed d @ editing d @ [b], editing = []\<rparr> else d1)"

definition ld_put :: "u8 \<Rightarrow> lines \<Rightarrow> lines" where
  "ld_put b d =
     (if b = BACKSPACE \<or> b = DELETE then d\<lparr>editing := butlast (editing d)\<rparr>
      else if b = CTLP then d
      else if b = CTLU then d\<lparr>editing := []\<rparr>
      else if ld_full d then d
      else ld_store (if b = 0x0D then 0x0A else b) d)"

fun ld_read :: "nat \<Rightarrow> bytes \<Rightarrow> bytes \<Rightarrow> (cons_status \<times> bytes)" where
  "ld_read 0 c acc = (CDone acc, c)"
| "ld_read (Suc n) [] acc = (CSleep acc, [])"
| "ld_read (Suc n) (b # c) acc =
     (if b = CTLD then (CDone acc, c)
      else if b = 0x0A then (CDone (acc @ [b]), c)
      else ld_read n c (acc @ [b]))"

section \<open>The ring implements it\<close>

definition rd_wf :: "reader \<Rightarrow> bool" where
  "rd_wf r \<longleftrightarrow> length (rbuf r) = CAPACITY \<and>
     unat (write_index r - read_index r) + unat (edit_index r - write_index r) \<le> CAPACITY"

definition lines_of :: "reader \<Rightarrow> lines" where
  "lines_of r = \<lparr>committed = ring_between (rbuf r) (read_index r) (write_index r),
     editing = ring_between (rbuf r) (write_index r) (edit_index r)\<rparr>"

definition wtr_ok :: "writers \<Rightarrow> bool" where
  "wtr_ok w \<longleftrightarrow> (case disp w of None \<Rightarrow> True | Some c \<Rightarrow> cga_inv c)"

definition cons_inv :: "console \<Rightarrow> bool" where
  "cons_inv s \<longleftrightarrow> rd_wf (rdr s) \<and> wtr_ok (wtr s)"

lemma lines_of_simps [simp]:
  "length (committed (lines_of r)) = unat (write_index r - read_index r)"
  "length (editing (lines_of r)) = unat (edit_index r - write_index r)"
  by (simp_all add: lines_of_def)

lemma uart_out_disp [simp]: "disp (fold uart_out bs w) = disp w"
  by (induction bs arbitrary: w) (simp_all add: uart_out_def)

lemma writers_putb_ok: "wtr_ok w \<Longrightarrow> \<exists>v. writers_putb b w = (Ok (), v) \<and> wtr_ok v"
proof (cases "disp w")
  case None
  then show ?thesis by (simp add: writers_putb_def kop_direct wtr_ok_def)
next
  case (Some c)
  assume "wtr_ok w"
  then have "cga_inv c" using Some by (simp add: wtr_ok_def)
  from cga_putb_safe [OF this, of b] show ?thesis
    using Some by (auto simp: writers_putb_def kop_direct wtr_ok_def)
qed

lemma echo_ok:
  assumes "wtr_ok (wtr s)"
  obtains v where "echo b s = (Ok (), s\<lparr>wtr := v\<rparr>)" "wtr_ok v"
  using writers_putb_ok [OF assms, of b] by (auto simp: echo_def)

lemma echo_all_ok:
  "wtr_ok (wtr s) \<Longrightarrow> \<exists>v. run_all echo bs s = (Ok (), s\<lparr>wtr := v\<rparr>) \<and> wtr_ok v"
proof (induction bs arbitrary: s)
  case Nil
  then show ?case by (auto simp: kop_simps intro!: exI [of _ "wtr s"])
next
  case (Cons b bs)
  obtain v where v: "echo b s = (Ok (), s\<lparr>wtr := v\<rparr>)" "wtr_ok v" by (rule echo_ok [OF Cons.prems])
  from Cons.IH [of "s\<lparr>wtr := v\<rparr>"] v show ?case by (auto simp: kop_simps)
qed

lemma edit_distance:
  assumes "rd_wf r"
  shows "unat (edit_index r - read_index r) =
    unat (write_index r - read_index r) + unat (edit_index r - write_index r)"
proof -
  have "unat ((write_index r - read_index r) + (edit_index r - write_index r)) =
      unat (write_index r - read_index r) + unat (edit_index r - write_index r)"
    using assms by (intro unat_add64_small) (simp add: rd_wf_def)
  then show ?thesis by simp
qed

lemma ld_full_iff: "rd_wf r \<Longrightarrow> ld_full (lines_of r) \<longleftrightarrow> unat (edit_index r - read_index r) = CAPACITY"
  by (simp add: ld_full_def edit_distance)

lemma rd_is_full_iff: "rd_wf r \<Longrightarrow> rd_is_full r \<longleftrightarrow> ld_full (lines_of r)"
  by (simp add: ld_full_iff rd_is_full_def word_unat_eq_iff)

lemma rd_is_empty_iff: "rd_is_empty r \<longleftrightarrow> committed (lines_of r) = []"
  by (auto simp: rd_is_empty_def simp flip: length_0_conv)

lemma lines_append:
  "rd_wf r \<Longrightarrow> committed (lines_of r) @ editing (lines_of r) = ring_between (rbuf r) (read_index r) (edit_index r)"
  by (simp add: lines_of_def edit_distance ring_seg_append)

text \<open>Erasing the last byte of the line being edited.\<close>

lemma erase_lines:
  assumes "rd_wf r" "edit_index r \<noteq> write_index r"
  defines "r' \<equiv> r\<lparr>edit_index := edit_index r - 1\<rparr>"
  shows "rd_wf r'" "lines_of r' = (lines_of r)\<lparr>editing := butlast (editing (lines_of r))\<rparr>"
    "unat (edit_index r' - write_index r') = unat (edit_index r - write_index r) - 1"
    "0 < unat (edit_index r - write_index r)"
proof -
  have pos: "0 < unat (edit_index r - write_index r)" using assms(2) by (simp add: unat_gt_0)
  then obtain n where n: "unat (edit_index r - write_index r) = Suc n" using gr0_implies_Suc by blast
  have "unat (edit_index r - 1 - write_index r) = unat (edit_index r - write_index r) - 1"
    using unat_minus_one [of "edit_index r - write_index r"] assms(2) by (simp add: algebra_simps)
  then have n1: "unat (edit_index r - 1 - write_index r) = n" using n by simp
  show "0 < unat (edit_index r - write_index r)" by (rule pos)
  show "unat (edit_index r' - write_index r') = unat (edit_index r - write_index r) - 1"
    using n n1 by (simp add: r'_def)
  show "rd_wf r'" using assms(1) n n1 by (simp add: r'_def rd_wf_def)
  show "lines_of r' = (lines_of r)\<lparr>editing := butlast (editing (lines_of r))\<rparr>"
    using n n1 by (simp add: r'_def lines_of_def ring_seg_snoc)
qed

lemma rd_backspace_spec:
  assumes "cons_inv s"
  obtains t where "rd_backspace s = (Ok (), t)" "cons_inv t" "wakeups t = wakeups s"
    "lines_of (rdr t) = (lines_of (rdr s))\<lparr>editing := butlast (editing (lines_of (rdr s)))\<rparr>"
    "unat (edit_index (rdr t) - write_index (rdr t)) =
     unat (edit_index (rdr s) - write_index (rdr s)) - 1"
proof (cases "edit_index (rdr s) = write_index (rdr s)")
  case True
  then have "editing (lines_of (rdr s)) = []" by (simp add: lines_of_def)
  with True assms show thesis
    by (intro that [of s]) (simp_all add: rd_backspace_def kop_direct kop_simps)
next
  case False
  have wf: "rd_wf (rdr s)" and w: "wtr_ok (wtr s)" using assms by (auto simp: cons_inv_def)
  note er = erase_lines [OF wf False]
  define s1 where "s1 = s\<lparr>rdr := (rdr s)\<lparr>edit_index := edit_index (rdr s) - 1\<rparr>\<rparr>"
  have "wtr_ok (wtr s1)" using w by (simp add: s1_def)
  then obtain v where v: "echo BACKSPACE s1 = (Ok (), s1\<lparr>wtr := v\<rparr>)" "wtr_ok v" by (rule echo_ok)
  have "rd_backspace s = (Ok (), s1\<lparr>wtr := v\<rparr>)"
    using False v by (simp add: rd_backspace_def mod_rdr_def kop_direct s1_def)
  then show thesis
    by (rule that) (use er v in \<open>simp_all add: s1_def cons_inv_def\<close>)
qed

lemma rd_kill_loop_spec:
  "cons_inv s \<Longrightarrow> unat (edit_index (rdr s) - write_index (rdr s)) < fuel \<Longrightarrow>
   \<exists>t. rd_kill_loop fuel s = (Ok (), t) \<and> cons_inv t \<and> wakeups t = wakeups s
     \<and> lines_of (rdr t) = (lines_of (rdr s))\<lparr>editing := []\<rparr>"
proof (induction fuel arbitrary: s)
  case 0
  then show ?case by simp
next
  case (Suc fuel)
  show ?case
  proof (cases "edit_index (rdr s) = write_index (rdr s)")
    case True
    then show ?thesis using Suc.prems by (simp add: kop_direct kop_simps lines_of_def)
  next
    case False
    obtain t where t: "rd_backspace s = (Ok (), t)" "cons_inv t" "wakeups t = wakeups s"
      "lines_of (rdr t) = (lines_of (rdr s))\<lparr>editing := butlast (editing (lines_of (rdr s)))\<rparr>"
      "unat (edit_index (rdr t) - write_index (rdr t)) =
       unat (edit_index (rdr s) - write_index (rdr s)) - 1"
      by (rule rd_backspace_spec [OF Suc.prems(1)])
    have "0 < unat (edit_index (rdr s) - write_index (rdr s))" using False by (simp add: unat_gt_0)
    then have "unat (edit_index (rdr t) - write_index (rdr t)) < fuel" using t(5) Suc.prems(2) by simp
    from Suc.IH [OF t(2) this] t False show ?thesis by (auto simp: kop_direct kop_simps)
  qed
qed

text \<open>Storing a byte behind the line being edited.\<close>

lemma append_lines:
  fixes b :: u8
  assumes "rd_wf r" "\<not> ld_full (lines_of r)"
  defines "r' \<equiv> r\<lparr>rbuf := (rbuf r)[unat (edit_index r) mod CAPACITY := b], edit_index := edit_index r + 1\<rparr>"
  shows "rd_wf r'" "lines_of r' = (lines_of r)\<lparr>editing := editing (lines_of r) @ [b]\<rparr>"
proof -
  let ?n = "unat (edit_index r - read_index r)"
  have len: "length (rbuf r) = 256" using assms(1) by (simp add: rd_wf_def)
  have n: "?n < 256" using assms(1,2) ld_full_iff [OF assms(1)] edit_distance [OF assms(1)]
    by (simp add: rd_wf_def)
  have ed: "unat (edit_index r + 1 - write_index r) = Suc (unat (edit_index r - write_index r))"
    using assms(1) by (intro unat_diff_Suc) (auto simp: rd_wf_def)
  show wf: "rd_wf r'" using assms(1) n ed edit_distance [OF assms(1)] by (simp add: rd_wf_def r'_def)
  have er: "unat (edit_index r + 1 - read_index r) = Suc ?n" using n by (intro unat_diff_Suc) simp
  have "ring_seg (rbuf r') (read_index r) (Suc ?n) = ring_seg (rbuf r) (read_index r) ?n @ [b]"
    using ring_seg_push [of "rbuf r" ?n "read_index r" b] len n by (simp add: r'_def)
  then have "committed (lines_of r') @ editing (lines_of r') = committed (lines_of r) @ editing (lines_of r) @ [b]"
    using lines_append [OF wf] lines_append [OF assms(1)] er by (simp add: r'_def flip: append_assoc)
  moreover have "length (committed (lines_of r')) = length (committed (lines_of r))"
    by (simp add: r'_def)
  ultimately have "committed (lines_of r') = committed (lines_of r)"
    "editing (lines_of r') = editing (lines_of r) @ [b]"
    by simp_all
  then show "lines_of r' = (lines_of r)\<lparr>editing := editing (lines_of r) @ [b]\<rparr>"
    by (simp add: lines_of_def)
qed

lemma commit_lines:
  assumes "rd_wf r"
  shows "rd_wf (r\<lparr>write_index := edit_index r\<rparr>)"
    "lines_of (r\<lparr>write_index := edit_index r\<rparr>) =
       \<lparr>committed = committed (lines_of r) @ editing (lines_of r), editing = []\<rparr>"
  using assms edit_distance [OF assms] lines_append [OF assms]
  by (simp_all add: rd_wf_def) (simp add: lines_of_def)

lemma rd_store_spec:
  assumes "cons_inv s" "\<not> ld_full (lines_of (rdr s))"
  obtains t where "rd_store b s = (Ok (), t)" "cons_inv t" "lines_of (rdr t) = ld_store b (lines_of (rdr s))"
    "wakeups t = wakeups s + (if editing (lines_of (rdr t)) = [] then 1 else 0)"
proof -
  have wf: "rd_wf (rdr s)" and w: "wtr_ok (wtr s)" using assms by (auto simp: cons_inv_def)
  define r where "r = (rdr s)\<lparr>rbuf := (rbuf (rdr s))[unat (edit_index (rdr s)) mod CAPACITY := b],
    edit_index := edit_index (rdr s) + 1\<rparr>"
  note ap = append_lines [OF wf assms(2), where b = b, folded r_def]
  have "wtr_ok (wtr (s\<lparr>rdr := r\<rparr>))" using w by simp
  then obtain v where v: "echo b (s\<lparr>rdr := r\<rparr>) = (Ok (), s\<lparr>rdr := r, wtr := v\<rparr>)" "wtr_ok v"
    by (rule echo_ok [where b = b]) simp
  have "edit_index r = read_index r + 256 \<longleftrightarrow> edit_index r - read_index r = 256" by (auto simp: algebra_simps)
  then have full: "edit_index r = read_index r + of_nat CAPACITY \<longleftrightarrow> ld_full (lines_of r)"
    using rd_is_full_iff [OF ap(1)] by (simp add: rd_is_full_def)
  define C where "C \<longleftrightarrow> b = 0x0A \<or> b = CTLD \<or> ld_full (lines_of r)"
  have run: "rd_store b s = (Ok (), if C then s\<lparr>rdr := r\<lparr>write_index := edit_index r\<rparr>, wtr := v,
      wakeups := wakeups s + 1\<rparr> else s\<lparr>rdr := r, wtr := v\<rparr>)"
    using v full by (simp add: rd_store_def mod_rdr_def kop_direct kop_simps r_def [symmetric] C_def)
  show thesis
    by (rule that [OF run])
      (use ap commit_lines [OF ap(1)] v in \<open>auto simp: cons_inv_def ld_store_def Let_def C_def\<close>)
qed

lemma rd_put_spec:
  assumes "cons_inv s"
  obtains r t where "rd_put dump b s = (r, t)" "cons_inv t"
    "lines_of (rdr t) = ld_put b (lines_of (rdr s))"
    "r = (if ld_full (lines_of (rdr s)) \<and> b \<notin> {BACKSPACE, DELETE, CTLP, CTLU}
          then Err ''console overflow'' else Ok (rd_len (rdr t)))"
proof -
  have wf: "rd_wf (rdr s)" and w: "wtr_ok (wtr s)" using assms by (auto simp: cons_inv_def)
  consider (bs) "b = BACKSPACE \<or> b = DELETE" | (p) "b = CTLP" | (u) "b = CTLU"
    | (full) "b \<notin> {BACKSPACE, DELETE, CTLP, CTLU}" "ld_full (lines_of (rdr s))"
    | (st) "b \<notin> {BACKSPACE, DELETE, CTLP, CTLU}" "\<not> ld_full (lines_of (rdr s))" by blast
  then show thesis
  proof cases
    case bs
    obtain t where "rd_backspace s = (Ok (), t)" "cons_inv t"
      "lines_of (rdr t) = (lines_of (rdr s))\<lparr>editing := butlast (editing (lines_of (rdr s)))\<rparr>"
      by (rule rd_backspace_spec [OF assms])
    with bs show thesis
      by (intro that [of "Ok (rd_len (rdr t))" t]) (auto simp: rd_put_def kop_simps ld_put_def)
  next
    case p
    obtain v where "run_all echo dump s = (Ok (), s\<lparr>wtr := v\<rparr>)" "wtr_ok v" using echo_all_ok [OF w] by blast
    with p wf show thesis
      by (intro that [of "Ok (rd_len (rdr s))" "s\<lparr>wtr := v\<rparr>"])
        (auto simp: rd_put_def kop_simps ld_put_def cons_inv_def)
  next
    case u
    obtain t where "rd_kill s = (Ok (), t)" "cons_inv t" "lines_of (rdr t) = (lines_of (rdr s))\<lparr>editing := []\<rparr>"
      using rd_kill_loop_spec [OF assms lessI] by (auto simp: rd_kill_def kop_direct)
    with u show thesis
      by (intro that [of "Ok (rd_len (rdr t))" t]) (auto simp: rd_put_def kop_simps ld_put_def)
  next
    case full
    then show thesis using assms rd_is_full_iff [OF wf]
      by (intro that [of "Err ''console overflow''" s])
        (auto simp: rd_put_def kop_direct kop_simps ld_put_def)
  next
    case st
    obtain t where "rd_store (if b = 0x0D then 0x0A else b) s = (Ok (), t)" "cons_inv t"
      "lines_of (rdr t) = ld_store (if b = 0x0D then 0x0A else b) (lines_of (rdr s))"
      by (rule rd_store_spec [OF assms st(2)])
    with st rd_is_full_iff [OF wf] show thesis
      by (intro that [of "Ok (rd_len (rdr t))" t]) (auto simp: rd_put_def kop_direct kop_simps ld_put_def)
  qed
qed

lemma interrupt_spec:
  "cons_inv s \<Longrightarrow> \<exists>t. console_interrupt dump bs s = (Ok (), t) \<and> cons_inv t
     \<and> lines_of (rdr t) = fold ld_put bs (lines_of (rdr s))"
proof (induction bs arbitrary: s)
  case Nil
  then show ?case by (simp add: console_interrupt_def kop_simps)
next
  case (Cons b bs)
  obtain r t where t: "rd_put dump b s = (r, t)" "cons_inv t" "lines_of (rdr t) = ld_put b (lines_of (rdr s))"
    "r = (if ld_full (lines_of (rdr s)) \<and> b \<notin> {BACKSPACE, DELETE, CTLP, CTLU}
          then Err ''console overflow'' else Ok (rd_len (rdr t)))"
    by (rule rd_put_spec [OF Cons.prems])
  then have "put_drop dump b s = (Ok (), t)"
    by (auto simp: put_drop_def catchk_def kop_simps split: if_splits)
  with Cons.IH [OF t(2)] t show ?case by (auto simp: console_interrupt_def kop_simps)
qed

lemma rd_get_spec:
  assumes "cons_inv s" "committed (lines_of (rdr s)) = b # c"
  obtains t where "rd_peek s = (Ok b, s)" "rd_get s = (Ok b, t)" "cons_inv t"
    "lines_of (rdr t) = (lines_of (rdr s))\<lparr>committed := c\<rparr>"
proof -
  define r where "r = rdr s"
  have wf: "rd_wf r" using assms(1) by (simp add: cons_inv_def r_def)
  have ne: "read_index r \<noteq> write_index r" using assms(2) by (auto simp: lines_of_def r_def)
  then have "0 < unat (write_index r - read_index r)" by (simp add: unat_gt_0)
  then obtain n where n: "unat (write_index r - read_index r) = Suc n" using gr0_implies_Suc by blast
  have n1: "unat (write_index r - (read_index r + 1)) = n" using n ne by (simp add: unat_diff_pred)
  have b: "b = rbuf r ! (unat (read_index r) mod 256)" "c = ring_seg (rbuf r) (read_index r + 1) n"
    using assms(2) n wf by (auto simp: lines_of_def ring_seg_pop rd_wf_def simp flip: r_def)
  have pk: "rd_peek s = (Ok b, s)"
    using ne b by (simp add: rd_peek_def kop_direct kop_simps rd_is_empty_def r_def)
  have gt: "rd_get s = (Ok b, s\<lparr>rdr := r\<lparr>read_index := read_index r + 1\<rparr>\<rparr>)"
    using pk by (simp add: rd_get_def kop_simps mod_rdr_def r_def)
  show thesis
    by (rule that [OF pk gt])
      (use assms(1) n n1 b wf in \<open>auto simp: cons_inv_def rd_wf_def lines_of_def simp flip: r_def\<close>)
qed

definition read_result :: "bool \<Rightarrow> cons_status \<Rightarrow> cons_status res" where
  "read_result dead st = (case st of CSleep acc \<Rightarrow> if dead then Err ''killed'' else Ok st | CDone bs \<Rightarrow> Ok st)"

lemma read_loop_refines:
  "cons_inv s \<Longrightarrow> \<exists>t. console_read_loop dead n acc s =
       (read_result dead (fst (ld_read n (committed (lines_of (rdr s))) acc)), t) \<and> cons_inv t
     \<and> lines_of (rdr t) = (lines_of (rdr s))\<lparr>committed := snd (ld_read n (committed (lines_of (rdr s))) acc)\<rparr>"
proof (induction n arbitrary: s acc)
  case 0
  then show ?case by (simp add: kop_simps read_result_def)
next
  case (Suc n)
  show ?case
  proof (cases "committed (lines_of (rdr s))")
    case Nil
    then have "rd_is_empty (rdr s)" by (simp add: rd_is_empty_iff)
    with Nil Suc.prems show ?thesis
      by (simp add: kop_direct kop_simps read_result_def)
  next
    case (Cons b c)
    then have ne: "\<not> rd_is_empty (rdr s)" by (simp add: rd_is_empty_iff)
    obtain t where t: "rd_peek s = (Ok b, s)" "rd_get s = (Ok b, t)" "cons_inv t"
      "lines_of (rdr t) = (lines_of (rdr s))\<lparr>committed := c\<rparr>"
      by (rule rd_get_spec [OF Suc.prems Cons])
    show ?thesis
      using Suc.IH [OF t(3), of "acc @ [b]"] ne t Cons
      by (auto simp: kop_direct kop_simps read_result_def)
  qed
qed

text \<open>
  C19: The input side implements the line discipline: whatever bytes the interrupt handler delivers,
  it returns without a panic and the ring then holds the committed input and the line being edited
  that the abstract discipline computes: erase and kill remove only bytes of the line being edited,
  a carriage return becomes a newline, a newline, control-D or a full buffer commits the line, and a
  byte that finds the buffer full is dropped. Free-running 64-bit indices may wrap at any point.
\<close>
theorem console_line_discipline:
  assumes "cons_inv s"
  shows "\<exists>t. console_interrupt dump bs s = (Ok (), t) \<and> cons_inv t
     \<and> lines_of (rdr t) = fold ld_put bs (lines_of (rdr s))"
  by (rule interrupt_spec [OF assms])

text \<open>
  A read of the console takes committed bytes only, in order: it stops behind a newline, at a
  control-D, which it consumes, or when the buffer is full; it sleeps (or, for a killed process,
  fails) exactly when the committed input runs out before that. The line being edited is untouched.
\<close>
theorem console_read_line:
  assumes "cons_inv s"
  shows "\<exists>t. console_read dead n s =
       (read_result dead (fst (ld_read n (committed (lines_of (rdr s))) [])), t) \<and> cons_inv t
     \<and> committed (lines_of (rdr t)) = snd (ld_read n (committed (lines_of (rdr s))) [])
     \<and> editing (lines_of (rdr t)) = editing (lines_of (rdr s))"
  using read_loop_refines [OF assms, of dead n "[]"] by (auto simp: console_read_def)

text \<open>An idle console whose indices are about to wrap, with the line \<open>ac\<close> typed with a correction.\<close>

definition demo_console :: console where
  "demo_console = \<lparr>rdr = \<lparr>rbuf = replicate CAPACITY 0, read_index = -1, write_index = -1, edit_index = -1\<rparr>,
     wtr = \<lparr>uart = Some [], disp = None\<rparr>, wakeups = 0\<rparr>"

lemma demo_console_inv: "cons_inv demo_console"
  by (simp add: cons_inv_def rd_wf_def wtr_ok_def demo_console_def)

lemma demo_console_lines: "lines_of (rdr demo_console) = \<lparr>committed = [], editing = []\<rparr>"
  by (simp add: lines_of_def demo_console_def)

theorem console_line_discipline_witness:
  "\<exists>t. console_interrupt [] [0x61, 0x62, BACKSPACE, 0x63, 0x0D] demo_console = (Ok (), t) \<and> cons_inv t
     \<and> lines_of (rdr t) = \<lparr>committed = [0x61, 0x63, 0x0A], editing = []\<rparr>"
  using console_line_discipline [OF demo_console_inv, of "[]" "[0x61, 0x62, BACKSPACE, 0x63, 0x0D]"]
  by (simp add: demo_console_lines ld_put_def ld_store_def ld_full_def)

definition demo_line :: console where
  "demo_line = demo_console\<lparr>rdr := \<lparr>rbuf = (replicate CAPACITY 0)[0 := 0x68, 1 := 0x0A, 2 := 0x78],
     read_index = 0, write_index = 2, edit_index = 3\<rparr>\<rparr>"

lemma demo_line_inv: "cons_inv demo_line"
  by (simp add: cons_inv_def rd_wf_def wtr_ok_def demo_line_def demo_console_def)

lemma demo_line_lines: "lines_of (rdr demo_line) = \<lparr>committed = [0x68, 0x0A], editing = [0x78]\<rparr>"
  by (simp add: lines_of_def demo_line_def ring_seg_def upt_rec)

theorem console_read_line_witness:
  "\<exists>t. console_read False 4 demo_line = (Ok (CDone [0x68, 0x0A]), t) \<and> cons_inv t
     \<and> committed (lines_of (rdr t)) = [] \<and> editing (lines_of (rdr t)) = [0x78]"
proof -
  have "ld_read 4 [0x68, 0x0A] [] = (CDone [0x68, 0x0A], [])" by code_simp
  then show ?thesis
    using console_read_line [OF demo_line_inv, of False 4]
    by (simp add: demo_line_lines read_result_def)
qed

end
