(* ===== verification/File.thy ===== *)
theory File
  imports Fs Pipe Console
begin

text \<open>
  Open files (\<open>kernel/src/file.rs\<close>): the table of reference-counted files and the trait \<open>Like\<close> with
  its four implementations, the inodes of \<open>fs.rs\<close>, the two ends of a pipe of \<open>pipe.rs\<close> and the
  console. A \<open>&'static dyn Like\<close> is a value of \<open>like\<close> and a call through it a case distinction. The
  state extends that of the file system by the table, the pipes and the console. A read or a write
  that has to wait returns \<open>Sleep\<close> with what it carries over the sleep: the bytes already stored in
  the buffer, or the bytes still to be written.
\<close>

section \<open>The table\<close>

abbreviation NFILE :: nat where "NFILE \<equiv> 1024"

datatype open_flags = NoAccess | Read | Write | ReadWrite

datatype like = LInode nat | LReader usize | LWriter usize | LConsole

record ofile =
  flags :: open_flags
  fp :: "like option"
  f_off :: usize
  ref_cnt :: u32

definition file_new :: ofile where
  "file_new = \<lparr>flags = NoAccess, fp = None, f_off = 0, ref_cnt = 0\<rparr>"

record file_state = fs_state +
  files :: "ofile list"
  kcons :: console
  kpipes :: pipes
  pa_space :: usize
  pipe_wakes :: "(usize \<times> pipe_chan) list"
  my_dead :: bool

definition modf :: "nat \<Rightarrow> (ofile \<Rightarrow> ofile) \<Rightarrow> ('a file_state_scheme, unit) kop" where
  "modf f g = modify (\<lambda>s. s\<lparr>files := (files s)[f := g (files s ! f)]\<rparr>)"

definition getf :: "nat \<Rightarrow> (ofile \<Rightarrow> 'r) \<Rightarrow> ('a file_state_scheme, 'r) kop" where
  "getf f g = gets (\<lambda>s. g (files s ! f))"

definition inc_off :: "nat \<Rightarrow> nat \<Rightarrow> ('a file_state_scheme, unit) kop" where
  "inc_off f n = bnd (getf f f_off) (\<lambda>o1.
     seqk (assertk (unat o1 + n < 2 ^ 64) ''attempt to add with overflow'')
     (modf f (\<lambda>x. x\<lparr>f_off := o1 + of_nat n\<rparr>)))"

definition f_inc_ref :: "nat \<Rightarrow> ('a file_state_scheme, unit) kop" where
  "f_inc_ref f = bnd (getf f ref_cnt) (\<lambda>c.
     seqk (assertk (unat c + 1 < 2 ^ 32) ''attempt to add with overflow'')
     (modf f (\<lambda>x. x\<lparr>ref_cnt := c + 1\<rparr>)))"

definition f_dec_ref :: "nat \<Rightarrow> ('a file_state_scheme, u32) kop" where
  "f_dec_ref f = bnd (getf f ref_cnt) (\<lambda>c.
     seqk (assertk (c > 0) ''attempt to subtract with overflow'')
     (seqk (modf f (\<lambda>x. x\<lparr>ref_cnt := c - 1\<rparr>)) (ret (c - 1))))"

definition file_dup :: "nat \<Rightarrow> ('a file_state_scheme, nat) kop" where
  "file_dup f = seqk (f_inc_ref f) (ret f)"

definition file_alloc :: "open_flags \<Rightarrow> like \<Rightarrow> ('a file_state_scheme, nat option) kop" where
  "file_alloc fl l = bnd (gets files) (\<lambda>fs.
     case position (\<lambda>x. ref_cnt x = 0) fs of
       None \<Rightarrow> ret None
     | Some f \<Rightarrow> seqk (f_inc_ref f) (seqk (modf f (\<lambda>x. x\<lparr>flags := fl, fp := Some l\<rparr>)) (ret (Some f))))"

section \<open>Inodes as files\<close>

datatype io = Done bytes | Sleep bytes

definition inode_close :: "nat \<Rightarrow> ('a file_state_scheme, unit) kop" where
  "inode_close ip = with_op (expectk ''close failed'' (inode_put ip))"

definition inode_stat :: "nat \<Rightarrow> ('a file_state_scheme, stat) kop" where
  "inode_stat ip = with_ilock ip stati"

definition inode_read :: "nat \<Rightarrow> nat \<Rightarrow> nat \<Rightarrow> ('a file_state_scheme, bytes) kop" where
  "inode_read ip f len = with_ilock ip (\<lambda>i.
     bnd (getf f f_off) (\<lambda>o1. bnd (readi i len o1) (\<lambda>bs.
       seqk (inc_off f (length bs)) (ret bs))))"

abbreviation MAX_WRITE :: nat where "MAX_WRITE \<equiv> ((MAXOPBLOCKS - 1 - 1 - 2) div 2) * BSIZE"

text \<open>The loop ends because \<open>writei\<close> consumes its whole slice; the bound is one round a byte.\<close>

fun inode_write_loop :: "nat \<Rightarrow> nat \<Rightarrow> nat \<Rightarrow> bytes \<Rightarrow> nat \<Rightarrow> ('a file_state_scheme, nat) kop" where
  "inode_write_loop 0 ip f buf i = (\<lambda>s. (Diverge, s))"
| "inode_write_loop (Suc fuel) ip f buf i =
     (if i < length buf then
        let n = min (length buf - i) MAX_WRITE
        in bnd (with_op (with_ilock ip (\<lambda>j. bnd (getf f f_off) (\<lambda>o1.
              bnd (writei j (slice buf i (i + n)) o1) (\<lambda>r. seqk (inc_off f r) (ret r))))))
           (\<lambda>r. inode_write_loop fuel ip f buf (i + r))
      else ret i)"

definition inode_write :: "nat \<Rightarrow> nat \<Rightarrow> bytes \<Rightarrow> ('a file_state_scheme, nat) kop" where
  "inode_write ip f buf = inode_write_loop (Suc (length buf)) ip f buf 0"

section \<open>Pipes as files\<close>

text \<open>An operation on the pipe at an address, with the wakeups it made.\<close>

definition at_pipe :: "usize \<Rightarrow> (lpipe, 'r) kop \<Rightarrow> ('a file_state_scheme, 'r) kop" where
  "at_pipe pa m s =
     (let a = slab_base pa; k = slab_index (pa_space s) pa
      in case slabs (kpipes s) a of
           None \<Rightarrow> (Panic ''no slab'', s)
         | Some sl \<Rightarrow>
             (let (r, l) = m \<lparr>pipe_of = slab_pipes sl ! k, woken = []\<rparr>
              in (r, s\<lparr>kpipes := (kpipes s)\<lparr>slabs := (slabs (kpipes s))(a := Some
                        (sl\<lparr>slab_pipes := (slab_pipes sl)[k := pipe_of l]\<rparr>))\<rparr>,
                       pipe_wakes := pipe_wakes s @ map (Pair pa) (woken l)\<rparr>)))"

definition on_pipes :: "(pipes, 'r) kop \<Rightarrow> ('a file_state_scheme, 'r) kop" where
  "on_pipes m s = (let (r, p) = m (kpipes s) in (r, s\<lparr>kpipes := p\<rparr>))"

definition pipe_dealloc :: "usize \<Rightarrow> ('a file_state_scheme, unit) kop" where
  "pipe_dealloc pa = bnd (gets pa_space) (\<lambda>ps. on_pipes (pipes_dealloc ps pa))"

definition preader_close :: "usize \<Rightarrow> ('a file_state_scheme, unit) kop" where
  "preader_close pa = bnd (at_pipe pa reader_close) (\<lambda>closed. if closed then pipe_dealloc pa else ret ())"

definition pwriter_close :: "usize \<Rightarrow> ('a file_state_scheme, unit) kop" where
  "pwriter_close pa = bnd (at_pipe pa writer_close) (\<lambda>closed. if closed then pipe_dealloc pa else ret ())"

fun io_of_read :: "read_status \<Rightarrow> io" where
  "io_of_read (RDone bs) = Done bs"
| "io_of_read RSleep = Sleep []"

fun io_of_write :: "write_status \<Rightarrow> io" where
  "io_of_write WDone = Done []"
| "io_of_write (WSleep rest) = Sleep rest"

fun io_of_cons :: "cons_status \<Rightarrow> io" where
  "io_of_cons (CDone bs) = Done bs"
| "io_of_cons (CSleep acc) = Sleep acc"

definition on_cons :: "(console, 'r) kop \<Rightarrow> ('a file_state_scheme, 'r) kop" where
  "on_cons m s = (let (r, c) = m (kcons s) in (r, s\<lparr>kcons := c\<rparr>))"

section \<open>The trait\<close>

fun like_close :: "like \<Rightarrow> ('a file_state_scheme, unit) kop" where
  "like_close (LInode ip) = inode_close ip"
| "like_close (LReader pa) = preader_close pa"
| "like_close (LWriter pa) = pwriter_close pa"
| "like_close LConsole = ret ()"

definition console_stat :: stat where
  "console_stat = \<lparr>st_typ = Dev, st_dev = 0, st_ino = 0, st_nlink = 0, st_size = 0\<rparr>"

fun like_stat :: "like \<Rightarrow> ('a file_state_scheme, stat) kop" where
  "like_stat (LInode ip) = inode_stat ip"
| "like_stat (LReader pa) = throw ''cannot stat''"
| "like_stat (LWriter pa) = throw ''cannot stat''"
| "like_stat LConsole = ret console_stat"

fun like_read :: "like \<Rightarrow> nat \<Rightarrow> nat \<Rightarrow> ('a file_state_scheme, io) kop" where
  "like_read (LInode ip) f len = bnd (inode_read ip f len) (\<lambda>bs. ret (Done bs))"
| "like_read (LReader pa) f len = bnd (gets my_dead) (\<lambda>dead.
     bnd (at_pipe pa (pipe_read dead len)) (\<lambda>r. ret (io_of_read r)))"
| "like_read (LWriter pa) f len = throw ''unimplemented''"
| "like_read LConsole f len = bnd (gets my_dead) (\<lambda>dead.
     bnd (on_cons (console_read dead len)) (\<lambda>r. ret (io_of_cons r)))"

fun like_write :: "like \<Rightarrow> nat \<Rightarrow> bytes \<Rightarrow> ('a file_state_scheme, io) kop" where
  "like_write (LInode ip) f buf = seqk (inode_write ip f buf) (ret (Done []))"
| "like_write (LReader pa) f buf = throw ''unimplemented''"
| "like_write (LWriter pa) f buf = bnd (at_pipe pa (pipe_write buf)) (\<lambda>r. ret (io_of_write r))"
| "like_write LConsole f buf = seqk (on_cons (console_write buf)) (ret (Done []))"

definition devsw :: "u32 \<Rightarrow> like res" where
  "devsw major = (if major = 0 then Ok LConsole else Err ''bad device major number'')"

section \<open>Operations on a file\<close>

definition the_fp :: "string \<Rightarrow> nat \<Rightarrow> ('a file_state_scheme, like) kop" where
  "the_fp msg f = bnd (getf f fp) (\<lambda>p. case p of Some l \<Rightarrow> ret l | None \<Rightarrow> panic msg)"

definition file_stat :: "nat \<Rightarrow> ('a file_state_scheme, stat) kop" where
  "file_stat f = bnd (the_fp ''stat nil file'' f) like_stat"

definition file_unref :: "nat \<Rightarrow> ('a file_state_scheme, like option) kop" where
  "file_unref f =
     seqk (bnd (getf f ref_cnt) (\<lambda>c. assertk (c > 0) ''closing unref file''))
     (bnd (f_dec_ref f) (\<lambda>rc.
        if rc > 0 then ret None
        else bnd (the_fp ''close nil file'' f) (\<lambda>l.
          seqk (modf f (\<lambda>x. x\<lparr>flags := NoAccess, fp := None, f_off := 0\<rparr>)) (ret (Some l)))))"

definition file_close :: "nat \<Rightarrow> ('a file_state_scheme, unit) kop" where
  "file_close f = bnd (file_unref f) (\<lambda>r. case r of Some l \<Rightarrow> like_close l | None \<Rightarrow> ret ())"

definition f_readable :: "ofile \<Rightarrow> bool" where
  "f_readable x \<longleftrightarrow> flags x = Read \<or> flags x = ReadWrite"

definition f_writable :: "ofile \<Rightarrow> bool" where
  "f_writable x \<longleftrightarrow> flags x = Write \<or> flags x = ReadWrite"

definition file_read :: "nat \<Rightarrow> nat \<Rightarrow> ('a file_state_scheme, io) kop" where
  "file_read f len = bnd (getf f f_readable) (\<lambda>ok.
     if \<not> ok then throw ''file not readable''
     else bnd (the_fp ''read nil file'' f) (\<lambda>l. like_read l f len))"

definition file_write :: "nat \<Rightarrow> bytes \<Rightarrow> ('a file_state_scheme, io) kop" where
  "file_write f buf = bnd (getf f f_writable) (\<lambda>ok.
     if \<not> ok then throw ''file not writable''
     else bnd (the_fp ''write nil file'' f) (\<lambda>l. like_write l f buf))"

text \<open>\<open>pipe::alloc\<close>: the two guards close the ends, and the file guard the file, on the error paths.\<close>

definition pipe_alloc :: "('a file_state_scheme, nat \<times> nat) kop" where
  "pipe_alloc = bnd (gets pa_space) (\<lambda>ps. bnd (on_pipes (pipes_take ps)) (\<lambda>pa.
     bnd (file_alloc Read (LReader pa)) (\<lambda>r. case r of
       None \<Rightarrow> seqk (pwriter_close pa) (seqk (preader_close pa) (throw ''pipe read file alloc failed''))
     | Some rfd \<Rightarrow>
         bnd (file_alloc Write (LWriter pa)) (\<lambda>w. case w of
           None \<Rightarrow> seqk (file_close rfd) (seqk (pwriter_close pa) (throw ''pipe write file alloc failed''))
         | Some wfd \<Rightarrow> ret (rfd, wfd)))))"

section \<open>Reference counts\<close>

definition with_refs :: "nat \<Rightarrow> u32 \<Rightarrow> 'a file_state_scheme \<Rightarrow> 'a file_state_scheme" where
  "with_refs f c s = s\<lparr>files := (files s)[f := (files s ! f)\<lparr>ref_cnt := c\<rparr>]\<rparr>"

lemma with_refs_simps [simp]:
  "f < length (files s) \<Longrightarrow> files (with_refs f c s) ! f = (files s ! f)\<lparr>ref_cnt := c\<rparr>"
  "length (files (with_refs f c s)) = length (files s)"
  "f < length (files s) \<Longrightarrow> with_refs f c (with_refs f d s) = with_refs f c s"
  by (simp_all add: with_refs_def)

lemma with_refs_same: "with_refs f (ref_cnt (files s ! f)) s = s"
  by (simp add: with_refs_def)

lemma file_dup_run:
  "unat (ref_cnt (files s ! f)) + 1 < 2 ^ 32 \<Longrightarrow>
   file_dup f s = (Ok f, with_refs f (ref_cnt (files s ! f) + 1) s)"
  by (simp add: file_dup_def f_inc_ref_def getf_def modf_def kop_direct kop_simps with_refs_def)

lemma file_unref_shared:
  "f < length (files s) \<Longrightarrow> ref_cnt (files s ! f) > 1 \<Longrightarrow>
   file_unref f s = (Ok None, with_refs f (ref_cnt (files s ! f) - 1) s)"
proof -
  assume f: "f < length (files s)" and c: "ref_cnt (files s ! f) > 1"
  have "0 < ref_cnt (files s ! f)" "0 < ref_cnt (files s ! f) - 1"
    using c by (auto simp: word_less_nat_alt unat_sub word_le_nat_alt)
  then show ?thesis using f
    by (simp add: file_unref_def f_dec_ref_def getf_def modf_def kop_direct kop_simps with_refs_def)
qed

lemma file_close_shared:
  "f < length (files s) \<Longrightarrow> ref_cnt (files s ! f) > 1 \<Longrightarrow>
   file_close f s = (Ok (), with_refs f (ref_cnt (files s ! f) - 1) s)"
  by (simp add: file_close_def file_unref_shared kop_simps)

lemma file_close_last:
  "f < length (files s) \<Longrightarrow> ref_cnt (files s ! f) = 1 \<Longrightarrow> fp (files s ! f) = Some l \<Longrightarrow>
   file_close f s = like_close l (s\<lparr>files := (files s)[f := file_new]\<rparr>)"
  by (cases "files s ! f") (simp add: file_close_def file_unref_def f_dec_ref_def the_fp_def getf_def
      modf_def kop_direct kop_simps file_new_def)

lemma dups_run:
  "f < length (files s) \<Longrightarrow> c + n < 2 ^ 32 \<Longrightarrow>
   run_all (\<lambda>_. seqk (file_dup f) (ret ())) (replicate n ()) (with_refs f (of_nat c) s)
     = (Ok (), with_refs f (of_nat (c + n)) s)"
proof (induction n arbitrary: c)
  case 0
  then show ?case by (simp add: kop_simps)
next
  case (Suc n)
  have "unat (of_nat c :: u32) = c" using Suc.prems by simp
  then have "file_dup f (with_refs f (of_nat c) s) = (Ok f, with_refs f (of_nat (Suc c)) s)"
    using Suc.prems file_dup_run [of "with_refs f (of_nat c) s" f] by (simp add: add.commute)
  then show ?case using Suc.IH [of "Suc c"] Suc.prems by (simp add: kop_simps)
qed

lemma closes_run:
  "f < length (files s) \<Longrightarrow> 0 < c \<Longrightarrow> c + n < 2 ^ 32 \<Longrightarrow>
   run_all (\<lambda>_. file_close f) (replicate n ()) (with_refs f (of_nat (c + n)) s)
     = (Ok (), with_refs f (of_nat c) s)"
proof (induction n)
  case 0
  then show ?case by (simp add: kop_simps)
next
  case (Suc n)
  have "unat (of_nat (c + Suc n) :: u32) = c + Suc n" using Suc.prems by (intro unat_of_nat32) simp
  then have "(of_nat (c + Suc n) :: u32) > 1" using Suc.prems by (simp add: word_less_nat_alt)
  then have "file_close f (with_refs f (of_nat (c + Suc n)) s) = (Ok (), with_refs f (of_nat (c + n)) s)"
    using Suc.prems file_close_shared [of f "with_refs f (of_nat (c + Suc n)) s"] by simp
  then show ?case using Suc.IH Suc.prems by (simp add: kop_simps)
qed

text \<open>
  C33: References are counted exactly. Duplicating an open file any number of times and closing it as
  often gives back the state before, so none of those closes reaches the object behind the file; the
  close of the one reference that remains first makes the table entry free, with access mode,
  pointer and offset reset, and then closes the object, once.
\<close>
theorem file_references:
  assumes "f < length (files s)" "ref_cnt (files s ! f) = 1" "fp (files s ! f) = Some l" "n + 1 < 2 ^ 32"
  shows "\<exists>t. run_all (\<lambda>_. seqk (file_dup f) (ret ())) (replicate n ()) s = (Ok (), t)
    \<and> run_all (\<lambda>_. file_close f) (replicate n ()) t = (Ok (), s)
    \<and> file_close f s = like_close l (s\<lparr>files := (files s)[f := file_new]\<rparr>)"
proof -
  have s: "with_refs f (of_nat 1) s = s" using with_refs_same [of f s] assms(2) by simp
  show ?thesis
    using dups_run [of f s 1 n] closes_run [of f s 1 n] file_close_last [OF assms(1-3)] assms s by simp
qed

text \<open>
  Opening a file takes the first entry nobody refers to, gives it one reference, the access mode
  and the object, and leaves every other entry and the rest of the kernel alone; it fails, changing
  nothing, exactly when every entry is in use.
\<close>
theorem file_alloc_first_free:
  "case position (\<lambda>x. ref_cnt x = 0) (files s) of
     None \<Rightarrow> file_alloc fl l s = (Ok None, s)
   | Some f \<Rightarrow> file_alloc fl l s = (Ok (Some f), s\<lparr>files := (files s)[f := (files s ! f)\<lparr>
         ref_cnt := 1, flags := fl, fp := Some l\<rparr>]\<rparr>) \<and> f < length (files s) \<and> ref_cnt (files s ! f) = 0"
proof (cases "position (\<lambda>x. ref_cnt x = 0) (files s)")
  case None
  then show ?thesis by (simp add: file_alloc_def kop_direct kop_simps)
next
  case (Some f)
  then have "f < length (files s)" "ref_cnt (files s ! f) = 0" by (auto simp: position_Some)
  with Some show ?thesis
    by (simp add: file_alloc_def f_inc_ref_def getf_def modf_def kop_direct kop_simps)
qed

text \<open>
  Access modes are enforced before the object is reached: a read of a file not opened for
  reading, or a write to one not opened for writing, returns an error and changes nothing; with the
  mode right, the call is the object's own.
\<close>
theorem file_modes_enforced:
  assumes "fp (files s ! f) = Some l"
  shows "file_read f n s = (if flags (files s ! f) \<in> {Read, ReadWrite}
           then like_read l f n s else (Err ''file not readable'', s))
    \<and> file_write f buf s = (if flags (files s ! f) \<in> {Write, ReadWrite}
           then like_write l f buf s else (Err ''file not writable'', s))"
  using assms by (simp add: file_read_def file_write_def f_readable_def f_writable_def the_fp_def getf_def
      kop_direct kop_simps)

section \<open>A pipe seen through its two files\<close>

definition pipe_at :: "usize \<Rightarrow> 'a file_state_scheme \<Rightarrow> pipe option" where
  "pipe_at pa s = (case slabs (kpipes s) (slab_base pa) of
     Some sl \<Rightarrow> if slab_index (pa_space s) pa < length (slab_pipes sl)
       then Some (slab_pipes sl ! slab_index (pa_space s) pa) else None
   | None \<Rightarrow> None)"

lemma at_pipe_run:
  assumes "pipe_at pa s = Some p" "m \<lparr>pipe_of = p, woken = []\<rparr> = (r, l)"
  obtains t where "at_pipe pa m s = (r, t)" "pipe_at pa t = Some (pipe_of l)" "files t = files s"
    "my_dead t = my_dead s" "pipe_wakes t = pipe_wakes s @ map (Pair pa) (woken l)"
proof -
  obtain sl where sl: "slabs (kpipes s) (slab_base pa) = Some sl"
    "slab_index (pa_space s) pa < length (slab_pipes sl)" "slab_pipes sl ! slab_index (pa_space s) pa = p"
    using assms(1) by (auto simp: pipe_at_def split: option.splits if_splits)
  show thesis
    by (rule that [of "snd (at_pipe pa m s)"])
      (use sl assms(2) in \<open>simp_all add: at_pipe_def pipe_at_def Let_def\<close>)
qed

lemma file_write_pipe:
  assumes "fp (files s ! wfd) = Some (LWriter pa)" "flags (files s ! wfd) = Write"
    and "pipe_at pa s = Some p" "pipe_wf p" "unat (nread p) + PAGE_SIZE < 2 ^ 64"
    and "length (pipe_contents p) + length bs \<le> PAGE_SIZE"
  obtains t q where "file_write wfd bs s = (Ok (Done []), t)" "pipe_at pa t = Some q" "pipe_wf q"
    "pipe_contents q = pipe_contents p @ bs" "files t = files s" "pipe_wakes t = pipe_wakes s @ [(pa, ReadChan)]"
proof -
  define l0 where "l0 = \<lparr>pipe_of = p, woken = []\<rparr>"
  have room: "length bs \<le> room l0" using assms(6) by (simp add: room_def l0_def)
  obtain l where l: "pipe_write bs l0 = (Ok WDone, l)" "pipe_wf (pipe_of l)"
    "pipe_contents (pipe_of l) = pipe_contents p @ bs" "woken l = [ReadChan]"
    using pipe_write_spec [of l0 bs] assms(4,5) room
    by (auto simp: l0_def no_overflow_def write_outcome_def)
  obtain t where t: "at_pipe pa (pipe_write bs) s = (Ok WDone, t)" "pipe_at pa t = Some (pipe_of l)"
    "files t = files s" "my_dead t = my_dead s" "pipe_wakes t = pipe_wakes s @ map (Pair pa) (woken l)"
    by (rule at_pipe_run [OF assms(3), of "pipe_write bs"]) (use l in \<open>auto simp: l0_def\<close>)
  have "file_write wfd bs s = (Ok (Done []), t)"
    using assms(1,2) t(1) by (simp add: file_write_def f_writable_def getf_def the_fp_def kop_direct kop_simps)
  then show thesis by (rule that [OF _ t(2) l(2,3) t(3)]) (use t l in simp)
qed

lemma file_read_pipe:
  assumes "fp (files s ! rfd) = Some (LReader pa)" "flags (files s ! rfd) = Read"
    and "pipe_at pa s = Some p" "pipe_wf p" "pipe_contents p \<noteq> []"
  obtains t q where "file_read rfd n s = (Ok (Done (take n (pipe_contents p))), t)" "pipe_at pa t = Some q"
    "pipe_wf q" "pipe_contents q = drop n (pipe_contents p)" "pipe_wakes t = pipe_wakes s @ [(pa, WriteChan)]"
proof -
  define l0 where "l0 = \<lparr>pipe_of = p, woken = []\<rparr>"
  have rd: "pipe_readable p" using assms(4,5) by (simp add: pipe_readable_def pipe_contents_empty)
  obtain l where l: "pipe_read (my_dead s) n l0 = (Ok (RDone (take n (pipe_contents p))), l)"
    "pipe_wf (pipe_of l)" "pipe_contents (pipe_of l) = drop n (pipe_contents p)" "woken l = [WriteChan]"
    using pipe_read_spec [of l0 "my_dead s" n] assms(4) rd by (auto simp: l0_def)
  obtain t where t: "at_pipe pa (pipe_read (my_dead s) n) s = (Ok (RDone (take n (pipe_contents p))), t)"
    "pipe_at pa t = Some (pipe_of l)" "pipe_wakes t = pipe_wakes s @ map (Pair pa) (woken l)"
    by (rule at_pipe_run [OF assms(3), of "pipe_read (my_dead s) n"]) (use l in \<open>auto simp: l0_def\<close>)
  have "file_read rfd n s = (Ok (Done (take n (pipe_contents p))), t)"
    using assms(1,2) t(1) by (simp add: file_read_def f_readable_def getf_def the_fp_def kop_direct kop_simps)
  then show thesis by (rule that [OF _ t(2) l(2,3)]) (use t l in simp)
qed

text \<open>
  What is written to the writing file of an empty pipe is what a read of the reading file
  returns, whole and in order, when it fits the ring; the write wakes the reader, the read wakes the
  writer, and the pipe is empty again.
\<close>
theorem pipe_files_transfer:
  assumes "fp (files s ! wfd) = Some (LWriter pa)" "flags (files s ! wfd) = Write"
    and "fp (files s ! rfd) = Some (LReader pa)" "flags (files s ! rfd) = Read"
    and "pipe_at pa s = Some p" "pipe_wf p" "pipe_contents p = []" "unat (nread p) + PAGE_SIZE < 2 ^ 64"
    and "bs \<noteq> []" "length bs \<le> PAGE_SIZE"
  shows "\<exists>t u q. file_write wfd bs s = (Ok (Done []), t) \<and> file_read rfd (length bs) t = (Ok (Done bs), u)
     \<and> pipe_at pa u = Some q \<and> pipe_contents q = []
     \<and> pipe_wakes u = pipe_wakes s @ [(pa, ReadChan), (pa, WriteChan)]"
proof -
  obtain t q where t: "file_write wfd bs s = (Ok (Done []), t)" "pipe_at pa t = Some q" "pipe_wf q"
    "pipe_contents q = bs" "files t = files s" "pipe_wakes t = pipe_wakes s @ [(pa, ReadChan)]"
    using file_write_pipe [OF assms(1,2,5,6,8), of bs] assms(7,10) by auto
  obtain u v where "file_read rfd (length bs) t = (Ok (Done (take (length bs) (pipe_contents q))), u)"
    "pipe_at pa u = Some v" "pipe_wf v" "pipe_contents v = drop (length bs) (pipe_contents q)"
    "pipe_wakes u = pipe_wakes t @ [(pa, WriteChan)]"
    by (rule file_read_pipe [of t rfd pa q "length bs"]) (use assms(3,4,9) t in auto)
  with t show ?thesis by auto
qed

text \<open>A kernel with an open pipe: a slab at \<open>0x1000\<close> with the first of its 21 pipes in use.\<close>

definition pipe_kernel :: file_state where
  "pipe_kernel = \<lparr>curpid = 1, bc_head = 0, bc_tail = 0, bufs = [], disk = (\<lambda>_. []), wlog = [],
     the_log = log_new, lstate = log_state_new, the_sb = superblock_new, icache = [], cwd = 0,
     files = [\<lparr>flags = Read, fp = Some (LReader 0x1040), f_off = 0, ref_cnt = 1\<rparr>,
              \<lparr>flags = Write, fp = Some (LWriter 0x1040), f_off = 0, ref_cnt = 1\<rparr>],
     kcons = demo_console,
     kpipes = \<lparr>kmem_of = \<lparr>pages = (\<lambda>_. demo_page), free_head = 0\<rparr>,
       slabs = [0x1000 \<mapsto> \<lparr>bitmap = 1, slab_pipes =
         pipe_reset (0x2000, demo_page) pipe_new # replicate 20 pipe_new\<rparr>], current = Some 0x1000\<rparr>,
     pa_space = 192, pipe_wakes = [], my_dead = False\<rparr>"

lemma pipe_kernel_files:
  "fp (files pipe_kernel ! 1) = Some (LWriter 0x1040)" "flags (files pipe_kernel ! 1) = Write"
  "fp (files pipe_kernel ! 0) = Some (LReader 0x1040)" "flags (files pipe_kernel ! 0) = Read"
  "length (files pipe_kernel) = 2" "ref_cnt (files pipe_kernel ! 0) = 1"
  by (simp_all add: pipe_kernel_def)

lemma pipe_kernel_pipe:
  "pipe_at 0x1040 pipe_kernel = Some (pipe_reset (0x2000, demo_page) pipe_new)"
proof -
  have "slab_base 0x1040 = 0x1000" by (simp add: slab_base_def)
  moreover have "slab_index 192 0x1040 = 0" by (simp add: slab_index_def)
  ultimately show ?thesis by (simp add: pipe_at_def pipe_kernel_def)
qed

theorem pipe_files_transfer_witness:
  "\<exists>t u q. file_write 1 [1, 2, 3] pipe_kernel = (Ok (Done []), t) \<and> file_read 0 3 t = (Ok (Done [1, 2, 3]), u)
     \<and> pipe_at 0x1040 u = Some q \<and> pipe_contents q = []
     \<and> pipe_wakes u = [(0x1040, ReadChan), (0x1040, WriteChan)]"
proof -
  have p: "pipe_wf (pipe_reset (0x2000, demo_page) pipe_new)"
    "pipe_contents (pipe_reset (0x2000, demo_page) pipe_new) = []"
    "unat (nread (pipe_reset (0x2000, demo_page) pipe_new)) + PAGE_SIZE < 2 ^ 64"
    by (simp_all add: pipe_reset_def pipe_wf_def pipe_contents_def demo_page_def)
  have "pipe_wakes pipe_kernel = []" by (simp add: pipe_kernel_def)
  then show ?thesis
    using pipe_files_transfer [OF pipe_kernel_files(1-4) pipe_kernel_pipe p, of "[1, 2, 3]"]
    by (simp add: numeral_3_eq_3)
qed

theorem file_references_witness:
  "\<exists>t. run_all (\<lambda>_. seqk (file_dup 0) (ret ())) (replicate 5 ()) pipe_kernel = (Ok (), t)
    \<and> run_all (\<lambda>_. file_close 0) (replicate 5 ()) t = (Ok (), pipe_kernel)
    \<and> file_close 0 pipe_kernel
        = like_close (LReader 0x1040) (pipe_kernel\<lparr>files := (files pipe_kernel)[0 := file_new]\<rparr>)"
  using file_references [of 0 pipe_kernel "LReader 0x1040" 5] by (simp add: pipe_kernel_files)

theorem file_modes_enforced_witness:
  "file_read 1 8 pipe_kernel = (Err ''file not readable'', pipe_kernel)
    \<and> file_write 0 [7] pipe_kernel = (Err ''file not writable'', pipe_kernel)"
  using file_modes_enforced [OF pipe_kernel_files(1), of 8] file_modes_enforced [OF pipe_kernel_files(3), of 0 "[7]"]
  by (simp add: pipe_kernel_files del: One_nat_def)

end
