(* ===== verification/Vm.thy ===== *)
theory Vm
  imports Kalloc
begin

text \<open>
  Virtual memory (\<open>kernel/src/vm.rs\<close>). Page tables live in the same store of pages as everything
  else the page allocator hands out: a table is the address of its page, an entry eight bytes of
  it. Walking, mapping, freeing and copying address spaces are the code's loops over that store;
  virtual addresses in loops are natural numbers, with the checked additions written out.
\<close>

section \<open>Entries\<close>

abbreviation (input) PF_PRESENT :: u64 where "PF_PRESENT \<equiv> 1"
abbreviation (input) PF_WRITE :: u64 where "PF_WRITE \<equiv> 2"
abbreviation (input) PF_USER :: u64 where "PF_USER \<equiv> 4"
abbreviation (input) PF_WRTHRU :: u64 where "PF_WRTHRU \<equiv> 8"
abbreviation (input) PF_NOCACHE :: u64 where "PF_NOCACHE \<equiv> 16"
abbreviation (input) PF_NX :: u64 where "PF_NX \<equiv> 0x8000000000000000"

text \<open>\<open>from_bits_truncate\<close> keeps the ten bits that are declared.\<close>

abbreviation (input) PF_ALL :: u64 where "PF_ALL \<equiv> 0x80000000000001FF"

abbreviation (input) MIB :: nat where "MIB \<equiv> 1048576"
abbreviation (input) GIB :: nat where "GIB \<equiv> 1073741824"
abbreviation (input) PHYS_PAGE_MASK :: u64 where "PHYS_PAGE_MASK \<equiv> 0x00007FFFFFFFF000"

type_synonym entry = u64

definition entry_new :: "u64 \<Rightarrow> u64 \<Rightarrow> entry" where
  "entry_new pa fl = (pa AND PHYS_PAGE_MASK) OR fl"

definition entry_flags :: "entry \<Rightarrow> u64" where
  "entry_flags e = e AND PF_ALL"

definition is_present :: "entry \<Rightarrow> bool" where
  "is_present e \<longleftrightarrow> entry_flags e AND PF_PRESENT = PF_PRESENT"

definition is_user_entry :: "entry \<Rightarrow> bool" where
  "is_user_entry e \<longleftrightarrow> entry_flags e AND PF_USER = PF_USER"

definition is_zero :: "entry \<Rightarrow> bool" where
  "is_zero e \<longleftrightarrow> e = 0"

definition phys_page_addr :: "entry \<Rightarrow> u64" where
  "phys_page_addr e = e AND PHYS_PAGE_MASK"

definition enable :: "entry \<Rightarrow> entry" where
  "enable e = e OR PF_PRESENT"

definition virt_page_addr :: "entry \<Rightarrow> usize" where
  "virt_page_addr e = phys_page_addr e + KERNBASE"

section \<open>Tables\<close>

definition level_index :: "nat \<Rightarrow> usize \<Rightarrow> nat" where
  "level_index lvl va = unat (drop_bit (12 + 9 * (lvl - 1)) va AND 0x1FF)"

definition entry_at :: "pagemem \<Rightarrow> usize \<Rightarrow> nat \<Rightarrow> entry" where
  "entry_at m tbl k = of_nat (from_le (slice (pages m tbl) (8 * k) (8 * k + 8)))"

definition set_entry :: "usize \<Rightarrow> nat \<Rightarrow> entry \<Rightarrow> (pagemem, unit) kop" where
  "set_entry tbl k e = modify (\<lambda>m.
     m\<lparr>pages := (pages m)(tbl := overwrite (pages m tbl) (8 * k) (to_le 8 (unat e)))\<rparr>)"

definition next_table :: "nat \<Rightarrow> pagemem \<Rightarrow> usize \<Rightarrow> usize \<Rightarrow> usize option" where
  "next_table lvl m tbl va =
     (let e = entry_at m tbl (level_index lvl va)
      in if \<not> is_present e then None else Some (virt_page_addr e))"

definition kalloc_op :: "(pagemem, usize option) kop" where
  "kalloc_op m = (let (r, m1) = kalloc m in (Ok r, m1))"

definition next_mut :: "nat \<Rightarrow> usize \<Rightarrow> usize \<Rightarrow> (pagemem, usize option) kop" where
  "next_mut lvl tbl va =
     (let index = level_index lvl va
      in bnd (gets (\<lambda>m. entry_at m tbl index)) (\<lambda>e.
         if is_present e then ret (Some (virt_page_addr e))
         else bnd kalloc_op (\<lambda>r. case r of
           None \<Rightarrow> ret None
         | Some pg \<Rightarrow>
             seqk (modify (\<lambda>m. m\<lparr>pages := (pages m)(pg := page_clear (pages m pg))\<rparr>))
             (let e1 = entry_new (addr_to_phys pg) (PF_PRESENT OR PF_USER OR PF_WRITE)
              in seqk (set_entry tbl index e1) (ret (Some (virt_page_addr e1)))))))"

definition table_is_empty :: "pagemem \<Rightarrow> usize \<Rightarrow> bool" where
  "table_is_empty m tbl = list_all (\<lambda>k. is_zero (entry_at m tbl k)) [0..<512]"

definition l1_entry :: "pagemem \<Rightarrow> usize \<Rightarrow> usize \<Rightarrow> entry option" where
  "l1_entry m tbl va = (let e = entry_at m tbl (level_index 1 va)
     in if is_present e then Some e else None)"

section \<open>Freeing the pages of a range\<close>

definition check_range :: "nat \<Rightarrow> nat \<Rightarrow> nat \<Rightarrow> (pagemem, unit) kop" where
  "check_range span start fin =
     seqk (assertk (start mod PAGE_SIZE = 0) ''assertion failed'')
     (seqk (assertk (fin mod PAGE_SIZE = 0) ''assertion failed'')
     (assertk (fin - start \<le> span) ''assertion failed''))"

definition free_l1_page :: "usize \<Rightarrow> nat \<Rightarrow> (pagemem, unit) kop" where
  "free_l1_page tbl va =
     (let k = level_index 1 (of_nat va)
      in bnd (gets (\<lambda>m. entry_at m tbl k)) (\<lambda>e.
         if \<not> is_present e then ret ()
         else seqk (kfree (virt_page_addr e)) (set_entry tbl k 0)))"

definition free_user_l1 :: "usize \<Rightarrow> nat \<Rightarrow> nat \<Rightarrow> (pagemem, unit) kop" where
  "free_user_l1 tbl start fin =
     (if start < fin then seqk (check_range (2 * MIB) start fin)
        (run_all (free_l1_page tbl) (step_by start PAGE_SIZE fin))
      else ret ())"

text \<open>
  The body of the loops at the upper levels: the part of the range under one entry goes to the next
  table, which is freed when that leaves it empty.
\<close>

definition free_subtree ::
    "nat \<Rightarrow> nat \<Rightarrow> (usize \<Rightarrow> nat \<Rightarrow> nat \<Rightarrow> (pagemem, unit) kop) \<Rightarrow> usize \<Rightarrow> nat \<Rightarrow> nat \<Rightarrow> nat \<Rightarrow> (pagemem, unit) kop"
  where
  "free_subtree lvl span child tbl start fin va =
     seqk (assertk (va + span < 2 ^ 64) ''attempt to add with overflow'')
     (let fin1 = min fin (va + span); k = level_index lvl (of_nat va)
      in bnd (gets (\<lambda>m. entry_at m tbl k)) (\<lambda>e.
         if \<not> is_present e then ret ()
         else let nxt = virt_page_addr e
              in seqk (child nxt (max start va) fin1)
                 (bnd (gets (\<lambda>m. table_is_empty m nxt)) (\<lambda>em.
                    if em then seqk (kfree nxt) (set_entry tbl k 0) else ret ()))))"

definition free_user_l2 :: "usize \<Rightarrow> nat \<Rightarrow> nat \<Rightarrow> (pagemem, unit) kop" where
  "free_user_l2 tbl start fin =
     (if start < fin then seqk (check_range GIB start fin)
        (run_all (free_subtree 2 (2 * MIB) free_user_l1 tbl start fin)
          (step_by (start div (2 * MIB) * (2 * MIB)) (2 * MIB) fin))
      else ret ())"

definition free_user_l3 :: "usize \<Rightarrow> nat \<Rightarrow> nat \<Rightarrow> (pagemem, unit) kop" where
  "free_user_l3 tbl start fin =
     (if start < fin then seqk (check_range (512 * GIB) start fin)
        (run_all (free_subtree 3 GIB free_user_l2 tbl start fin)
          (step_by (start div GIB * GIB) GIB fin))
      else ret ())"

definition free_user_pages :: "usize \<Rightarrow> usize \<Rightarrow> usize \<Rightarrow> (pagemem, unit) kop" where
  "free_user_pages root start fin =
     (if start < fin then
        bnd (lift_res (\<lambda>_. page_round_up start)) (\<lambda>start.
        bnd (lift_res (\<lambda>_. page_round_up fin)) (\<lambda>fin.
          let a = unat start; b = unat fin
          in seqk (assertk (root \<noteq> 0) ''unwrap on None'')
             (run_all (free_subtree 4 (512 * GIB) free_user_l3 root a b)
               (step_by (a div (512 * GIB) * (512 * GIB)) (512 * GIB) b))))
      else ret ())"

section \<open>Address spaces\<close>

text \<open>A \<open>PageTable\<close> is the address of its level 4 table, or null.\<close>

definition entry_for :: "pagemem \<Rightarrow> usize \<Rightarrow> usize \<Rightarrow> entry option" where
  "entry_for m root va =
     (if root = 0 then None
      else Option.bind (next_table 4 m root va) (\<lambda>p3.
           Option.bind (next_table 3 m p3 va) (\<lambda>p2.
           Option.bind (next_table 2 m p2 va) (\<lambda>p1. l1_entry m p1 va))))"

definition translate :: "pagemem \<Rightarrow> usize \<Rightarrow> usize \<Rightarrow> u64 option" where
  "translate m root va = map_option (\<lambda>e. phys_page_addr e + va mod 4096) (entry_for m root va)"

definition and_then :: "('s, 'x option) kop \<Rightarrow> ('x \<Rightarrow> ('s, 'y option) kop) \<Rightarrow> ('s, 'y option) kop" where
  "and_then m f = bnd m (\<lambda>r. case r of None \<Rightarrow> ret None | Some x \<Rightarrow> f x)"

definition map_to :: "usize \<Rightarrow> u64 \<Rightarrow> usize \<Rightarrow> u64 \<Rightarrow> (pagemem, unit) kop" where
  "map_to root pa va fl =
     (if root = 0 then throw ''No page table to map into''
      else bnd (and_then (next_mut 4 root va) (\<lambda>p3. and_then (next_mut 3 p3 va) (\<lambda>p2. next_mut 2 p2 va)))
        (\<lambda>r. case r of
           Some p1 \<Rightarrow> set_entry p1 (level_index 1 va) (enable (entry_new pa fl))
         | None \<Rightarrow> throw ''Allocation failed''))"

definition map_phys_range :: "usize \<Rightarrow> u64 \<Rightarrow> u64 \<Rightarrow> u64 \<Rightarrow> (pagemem, unit) kop" where
  "map_phys_range root start fin fl =
     run_all (\<lambda>pa. map_to root (of_nat pa) (phys_to_addr (of_nat pa)) fl)
       (step_by (unat start) PAGE_SIZE (Suc (unat fin)))"

definition map_phys_dev_range :: "usize \<Rightarrow> u64 \<Rightarrow> u64 \<Rightarrow> (pagemem, unit) kop" where
  "map_phys_dev_range root start fin =
     map_phys_range root start fin (PF_WRITE OR PF_WRTHRU OR PF_NOCACHE OR PF_NX)"

definition dup_kern :: "usize \<Rightarrow> (pagemem, usize option) kop" where
  "dup_kern root =
     (if root = 0 then ret None
      else and_then kalloc_op (\<lambda>t.
        seqk (modify (\<lambda>m. m\<lparr>pages := (pages m)(t :=
               overwrite (pages m t) 2048 (slice (pages m root) 2048 4096))\<rparr>))
        (ret (Some t))))"

definition vm_free :: "usize \<Rightarrow> (pagemem, unit) kop" where
  "vm_free root = seqk (free_user_pages root 0 USEREND) (kfree root)"

definition copy_page :: "usize \<Rightarrow> usize \<Rightarrow> nat \<Rightarrow> (pagemem, unit option) kop" where
  "copy_page src dst k = bnd (gets (\<lambda>m. entry_for m src (of_nat k))) (\<lambda>eo. case eo of
     None \<Rightarrow> panic ''entry should exist''
   | Some e \<Rightarrow>
       seqk (assertk (is_present e) ''dup: page not present'')
       (and_then kalloc_op (\<lambda>pg.
         seqk (modify (\<lambda>m. m\<lparr>pages := (pages m)(pg := pages m (virt_page_addr e))\<rparr>))
         (catchk (map_to dst (addr_to_phys pg) (of_nat k) (entry_flags e))
            (\<lambda>_. ret (Some ())) (\<lambda>_. seqk (kfree pg) (ret None))))))"

fun copy_region :: "usize \<Rightarrow> usize \<Rightarrow> nat list \<Rightarrow> (pagemem, unit option) kop" where
  "copy_region src dst [] = ret (Some ())"
| "copy_region src dst (k # ks) = and_then (copy_page src dst k) (\<lambda>_. copy_region src dst ks)"

text \<open>\<open>dup\<close>: on a failure the new address space is dropped, which frees it.\<close>

definition dup :: "usize \<Rightarrow> usize \<Rightarrow> (pagemem, usize option) kop" where
  "dup root sz = and_then (dup_kern root) (\<lambda>t.
     bnd (and_then (copy_region root t (step_by 0 PAGE_SIZE (unat sz))) (\<lambda>_.
            copy_region root t (step_by (unat USERSTACK) PAGE_SIZE (unat USEREND))))
       (\<lambda>r. case r of Some _ \<Rightarrow> ret (Some t) | None \<Rightarrow> seqk (vm_free t) (ret None)))"

definition dealloc_user :: "usize \<Rightarrow> usize \<Rightarrow> usize \<Rightarrow> (pagemem, usize) kop" where
  "dealloc_user root old_size new_size =
     (if new_size \<ge> old_size then ret old_size
      else seqk (free_user_pages root new_size old_size) (ret new_size))"

fun alloc_user_loop :: "usize \<Rightarrow> usize \<Rightarrow> usize \<Rightarrow> u64 \<Rightarrow> nat list \<Rightarrow> (pagemem, usize) kop" where
  "alloc_user_loop root old_size new_size fl [] = ret new_size"
| "alloc_user_loop root old_size new_size fl (a # as) = bnd kalloc_op (\<lambda>r. case r of
     None \<Rightarrow> seqk (dealloc_user root new_size old_size) (throw ''alloc_user: failed to alloc user page'')
   | Some pg \<Rightarrow>
       catchk (map_to root (addr_to_phys pg) (of_nat a) (fl OR PF_USER))
         (\<lambda>_. alloc_user_loop root old_size new_size fl as)
         (\<lambda>e. seqk (dealloc_user root new_size old_size) (throw e)))"

definition alloc_user :: "usize \<Rightarrow> usize \<Rightarrow> usize \<Rightarrow> u64 \<Rightarrow> (pagemem, usize) kop" where
  "alloc_user root old_size new_size fl =
     (if new_size > USEREND then throw ''alloc_user: new size extends into kernel''
      else if new_size \<le> old_size then ret old_size
      else bnd (lift_res (\<lambda>_. page_round_up old_size)) (\<lambda>old_end.
           bnd (lift_res (\<lambda>_. page_round_up new_size)) (\<lambda>new_end.
             alloc_user_loop root old_size new_size fl
               (step_by (unat old_end) PAGE_SIZE (unat new_end)))))"

definition user_addr_to_kern_page :: "pagemem \<Rightarrow> usize \<Rightarrow> usize \<Rightarrow> usize res" where
  "user_addr_to_kern_page m root va =
     (case entry_for m root va of
        None \<Rightarrow> Err ''no mapping for user address''
      | Some e \<Rightarrow> if \<not> is_present e \<or> \<not> is_user_entry e then Err ''bad user address''
                 else Ok (virt_page_addr e))"

lemma page_offset_less: "unat va - unat (page_round_down va) < PAGE_SIZE"
  unfolding unat_page_round_down by (simp add: minus_div_mult_eq_mod)

function copy_out :: "usize \<Rightarrow> bytes \<Rightarrow> usize \<Rightarrow> (pagemem, unit) kop" where
  "copy_out root src va =
     (if src = [] then ret ()
      else let va0 = page_round_down va; off = unat va - unat va0;
               n = min (PAGE_SIZE - off) (length src)
           in bnd (lift_res (\<lambda>m. user_addr_to_kern_page m root va0)) (\<lambda>pg.
              seqk (modify (\<lambda>m. m\<lparr>pages := (pages m)(pg := overwrite (pages m pg) off (take n src))\<rparr>))
              (seqk (assertk (unat va0 + PAGE_SIZE < 2 ^ 64) ''attempt to add with overflow'')
              (copy_out root (drop n src) (va0 + of_nat PAGE_SIZE)))))"
  by pat_completeness auto
termination
  by (relation "measure (\<lambda>(root, src, va). length src)") (auto simp: Let_def page_offset_less)

declare copy_out.simps [simp del]

section \<open>The kernel's address space\<close>

record kernel_layout =
  text_phys :: u64
  etext_phys :: u64
  erodata_phys :: u64
  end_phys :: u64

abbreviation (input) DEVSPACE :: u64 where "DEVSPACE \<equiv> 0xFE000000"
abbreviation (input) GIG4 :: u64 where "GIG4 \<equiv> 0x100000000"

definition devflags :: u64 where
  "devflags = PF_WRITE OR PF_WRTHRU OR PF_NOCACHE OR PF_NX"

definition map_mem_entry :: "usize \<Rightarrow> u64 \<Rightarrow> mem_map_entry \<Rightarrow> (pagemem, unit) kop" where
  "map_mem_entry root endp e =
     (case (case me_typ e of Memory \<Rightarrow> Some (PF_WRITE OR PF_NX) | System \<Rightarrow> Some devflags | _ \<Rightarrow> None) of
        None \<Rightarrow> ret ()
      | Some fl \<Rightarrow>
          if me_end e < endp then ret ()
          else expectk ''init map failed'' (map_phys_range root (max (me_start e) endp) (me_end e) fl))"

definition custom_map :: "kernel_layout \<Rightarrow> (u64 \<times> u64 \<times> u64) list" where
  "custom_map L = [
     (0x01000, 0x07000, PF_WRITE OR PF_NX),
     (0x07000, 0x08000, PF_WRITE OR PF_NX),
     (0x08000, 0x80000, PF_WRITE OR PF_NX),
     (0x80000, 0xA0000, PF_NX),
     (0xA0000, 0xC0000, devflags),
     (0xC0000, 0x100000, PF_NX),
     (text_phys L, etext_phys L, 0),
     (etext_phys L, erodata_phys L, PF_NX),
     (erodata_phys L, end_phys L, PF_WRITE OR PF_NX),
     (end_phys L, 64 * 1024 * 1024, PF_WRITE OR PF_NX),
     (DEVSPACE, GIG4, devflags)]"

definition vm_init :: "kernel_layout \<Rightarrow> mem_map_entry list \<Rightarrow> (pagemem, usize) kop" where
  "vm_init L mem_map = bnd kalloc_op (\<lambda>r. case r of
     None \<Rightarrow> panic ''alloc kernel page table root''
   | Some root \<Rightarrow>
       seqk (modify (\<lambda>m. m\<lparr>pages := (pages m)(root := page_clear (pages m root))\<rparr>))
       (seqk (run_all (map_mem_entry root (end_phys L)) mem_map)
       (seqk (run_all (\<lambda>(start, fin, fl). expectk ''init mapping failed'' (map_phys_range root start fin fl))
               (custom_map L))
       (ret root))))"

definition new_pgtbl :: "usize \<Rightarrow> (pagemem, usize) kop" where
  "new_pgtbl kroot = bnd (dup_kern kroot) (\<lambda>r. case r of
     None \<Rightarrow> throw ''exec: cannot allocate new page table'' | Some t \<Rightarrow> ret t)"

definition switch_cr3 :: "usize \<Rightarrow> u64 res" where
  "switch_cr3 root = (if root = 0 then Panic ''unwrap on None'' else Ok (addr_to_phys root))"

section \<open>Entries and their fields\<close>

lemma bit_phys_mask: "bit PHYS_PAGE_MASK n \<longleftrightarrow> 12 \<le> n \<and> n < 47"
proof -
  have "PHYS_PAGE_MASK = push_bit 12 (mask 35)" by (simp add: mask_eq_exp_minus_1 push_bit_eq_mult)
  then show ?thesis by (simp only: bit_push_bit_iff bit_mask_iff) auto
qed

text \<open>The pages the allocator manages are aligned and in the kernel's window on physical memory.\<close>

definition kpage :: "usize \<Rightarrow> bool" where
  "kpage p \<longleftrightarrow> p \<noteq> 0 \<and> p mod 4096 = 0 \<and> addr_to_phys p < 2 ^ 47"

lemma kpage_bits:
  assumes "kpage p" "bit (addr_to_phys p) n"
  shows "12 \<le> n \<and> n < 47"
proof
  have "4096 dvd unat p"
    using assms(1) unat_mod_distrib [of p 4096] by (simp add: kpage_def dvd_eq_mod_eq_0)
  moreover have "(4096 :: nat) dvd 0x800000000000" by (rule dvdI [of _ _ 34359738368]) simp
  moreover have "(4096 :: nat) dvd 2 ^ 64" using le_imp_power_dvd [of 12 64 "2 :: nat"] by simp
  ultimately have "4096 dvd (unat p + 0x800000000000) mod 2 ^ 64" by (intro dvd_mod dvd_add)
  moreover have "unat (addr_to_phys p) = (unat p + 0x800000000000) mod 2 ^ 64"
    using unat_add64 [of p "- KERNBASE"] by (simp add: addr_to_phys_def)
  ultimately have "4096 dvd unat (addr_to_phys p)" by (simp only:)
  then have "unat (addr_to_phys p mod 4096) = 0" by (simp add: unat_mod_distrib)
  then have "take_bit 12 (addr_to_phys p) = 0" by (simp add: take_bit_eq_mod unat_eq_0)
  then have "\<not> (n < 12 \<and> bit (addr_to_phys p) n)" by (metis bit_0_eq bit_take_bit_iff bot_apply bot_bool_def)
  then show "12 \<le> n" using assms(2) by simp
  have "unat (addr_to_phys p) < 2 ^ 47" using assms(1) by (simp add: kpage_def word_less_nat_alt)
  then have "unat (take_bit 47 (addr_to_phys p)) = unat (addr_to_phys p)"
    by (simp only: unsigned_take_bit_eq take_bit_nat_eq_self)
  then have "take_bit 47 (addr_to_phys p) = addr_to_phys p" by (simp add: word_unat_eq_iff)
  then show "n < 47" using assms(2) by (metis bit_take_bit_iff)
qed

lemma phys_of_entry_new:
  assumes "kpage p" "fl AND PHYS_PAGE_MASK = 0"
  shows "phys_page_addr (entry_new (addr_to_phys p) fl) = addr_to_phys p"
proof (rule bit_word_eqI)
  fix n assume "n < LENGTH(64)"
  have "\<not> (bit fl n \<and> bit PHYS_PAGE_MASK n)" using assms(2) by (metis bit_0_eq bit_and_iff bot_apply bot_bool_def)
  then show "bit (phys_page_addr (entry_new (addr_to_phys p) fl)) n = bit (addr_to_phys p) n"
    using kpage_bits [OF assms(1), of n] bit_phys_mask [of n]
    by (auto simp: phys_page_addr_def entry_new_def bit_and_iff bit_or_iff)
qed

lemma virt_of_entry_new:
  "kpage p \<Longrightarrow> fl AND PHYS_PAGE_MASK = 0 \<Longrightarrow> virt_page_addr (entry_new (addr_to_phys p) fl) = p"
  by (simp add: virt_page_addr_def phys_of_entry_new) (simp add: addr_to_phys_def)

lemma is_present_bit: "is_present e \<longleftrightarrow> bit e 0"
proof -
  have "x AND 1 = 1 \<longleftrightarrow> bit x 0" for x :: u64 by (simp add: and_one_eq bit_0 odd_iff_mod_2_eq_one)
  then have "is_present e \<longleftrightarrow> bit e 0 \<and> bit PF_ALL 0"
    by (simp only: is_present_def entry_flags_def bit_and_iff)
  then show ?thesis by simp
qed

lemma present_new_table: "is_present (entry_new pa (PF_PRESENT OR PF_USER OR PF_WRITE))"
  by (simp only: is_present_bit entry_new_def bit_or_iff) simp

lemma present_enable: "is_present (enable e)"
  by (simp only: is_present_bit enable_def bit_or_iff) simp

lemma not_present_0 [simp]: "\<not> is_present 0"
  by (simp add: is_present_bit)

lemma level_index_less: "level_index lvl va < 512"
proof -
  have "unat (drop_bit (12 + 9 * (lvl - 1)) va AND mask 9) < 2 ^ 9"
    by (metis take_bit_eq_mask take_bit_nat_less_exp unsigned_take_bit_eq)
  then show ?thesis by (simp add: level_index_def mask_eq_exp_minus_1)
qed

section \<open>Reading and writing entries\<close>

definition upd_entry :: "usize \<Rightarrow> nat \<Rightarrow> entry \<Rightarrow> pagemem \<Rightarrow> pagemem" where
  "upd_entry tbl k e m =
     m\<lparr>pages := (pages m)(tbl := overwrite (pages m tbl) (8 * k) (to_le 8 (unat e)))\<rparr>"

definition pages_wf :: "pagemem \<Rightarrow> bool" where
  "pages_wf m \<longleftrightarrow> (\<forall>p. length (pages m p) = PAGE_SIZE)"

lemma set_entry_run [kop_simps]: "set_entry tbl k e m = (Ok (), upd_entry tbl k e m)"
  by (simp add: set_entry_def upd_entry_def kop_simps)

lemma entry_at_upd:
  assumes "pages_wf m" "k < 512" "j < 512"
  shows "entry_at (upd_entry tbl k e m) t j = (if t = tbl \<and> j = k then e else entry_at m t j)"
proof -
  have len: "length (pages m tbl) = 4096" using assms(1) by (simp add: pages_wf_def)
  consider "t \<noteq> tbl" | "t = tbl" "j = k" | "t = tbl" "j \<noteq> k" by blast
  then show ?thesis
  proof cases
    case 1
    then show ?thesis by (simp add: entry_at_def upd_entry_def)
  next
    case 2
    then show ?thesis
      using slice_overwrite_same [of "8 * k" "to_le 8 (unat e)" "pages m tbl"] assms len
      by (simp add: entry_at_def upd_entry_def)
  next
    case 3
    then show ?thesis
      using slice_overwrite_other [of "8 * k" "to_le 8 (unat e)" "pages m tbl" "8 * j + 8" "8 * j"] assms len
      by (cases "j < k") (auto simp: entry_at_def upd_entry_def)
  qed
qed

lemma entry_at_cong: "pages m t = pages m' t \<Longrightarrow> entry_at m t j = entry_at m' t j"
  by (simp add: entry_at_def)

lemma entry_at_empty: "pages m t = page_empty \<Longrightarrow> j < 512 \<Longrightarrow> entry_at m t j = 0"
proof -
  assume "pages m t = page_empty" "j < 512"
  then have "slice (pages m t) (8 * j) (8 * j + 8) = replicate 8 0"
    by (simp add: slice_def page_empty_def)
  then show ?thesis by (simp add: entry_at_def eval_nat_numeral)
qed

section \<open>Trees of tables\<close>

text \<open>The table reached from \<open>t\<close> by following entries at the given indices.\<close>

fun walk :: "pagemem \<Rightarrow> usize \<Rightarrow> nat list \<Rightarrow> usize option" where
  "walk m t [] = Some t"
| "walk m t (i # is) =
     (if is_present (entry_at m t i) then walk m (virt_page_addr (entry_at m t i)) is else None)"

definition vpath :: "usize \<Rightarrow> nat list" where
  "vpath va = [level_index 4 va, level_index 3 va, level_index 2 va]"

definition idxs :: "nat list \<Rightarrow> bool" where
  "idxs is \<longleftrightarrow> length is \<le> 3 \<and> (\<forall>i \<in> set is. i < 512)"

lemma walk_append: "walk m t (is @ js) = Option.bind (walk m t is) (\<lambda>a. walk m a js)"
  by (induction "is" arbitrary: t) auto

lemma walk_snoc: "walk m t (is @ [i]) = Option.bind (walk m t is) (\<lambda>a.
   if is_present (entry_at m a i) then Some (virt_page_addr (entry_at m a i)) else None)"
  by (simp add: walk_append cong: if_cong)

lemma next_table_walk: "next_table lvl m t va = walk m t [level_index lvl va]"
  by (simp add: next_table_def Let_def)

lemma entry_for_walk:
  "root \<noteq> 0 \<Longrightarrow> entry_for m root va = Option.bind (walk m root (vpath va)) (\<lambda>p1. l1_entry m p1 va)"
  by (simp add: entry_for_def vpath_def next_table_def Let_def)

text \<open>
  An address space in order: no table is shared between two places of the tree, no table is on the
  free list, and the free pages are ones that an entry can name.
\<close>

definition pt_ok :: "pagemem \<Rightarrow> usize \<Rightarrow> usize list \<Rightarrow> bool" where
  "pt_ok m root ps \<longleftrightarrow> root \<noteq> 0 \<and> free_list m ps \<and> (\<forall>p \<in> set ps. kpage p) \<and>
     (\<forall>is js a. idxs is \<longrightarrow> idxs js \<longrightarrow> walk m root is = Some a \<longrightarrow> walk m root js = Some a \<longrightarrow> is = js) \<and>
     (\<forall>is a. idxs is \<longrightarrow> walk m root is = Some a \<longrightarrow> a \<notin> set ps)"

lemma pt_okD:
  assumes "pt_ok m root ps"
  shows "root \<noteq> 0" "free_list m ps" "pages_wf m"
    "\<And>is js a. idxs is \<Longrightarrow> idxs js \<Longrightarrow> walk m root is = Some a \<Longrightarrow> walk m root js = Some a \<Longrightarrow> is = js"
    "\<And>is a. idxs is \<Longrightarrow> walk m root is = Some a \<Longrightarrow> a \<notin> set ps"
    "\<And>p. p \<in> set ps \<Longrightarrow> kpage p"
  using assms by (auto simp: pt_ok_def pages_wf_def free_list_def)

lemma idxs_snoc: "idxs (js @ [j]) \<Longrightarrow> idxs js \<and> j < 512 \<and> length js < 3"
  by (auto simp: idxs_def)

lemma idxs_vpath: "idxs (vpath va)"
  by (simp add: idxs_def vpath_def level_index_less)

lemma free_list_upd_entry:
  assumes "free_list m ps" "tbl \<notin> set ps" "k < 512"
  shows "free_list (upd_entry tbl k e m) ps"
proof -
  have "length (pages m tbl) = 4096" using assms(1) by (simp add: free_list_def)
  then have "length (overwrite (pages m tbl) (8 * k) (to_le 8 (unat e))) = 4096" using assms(3) by simp
  then show ?thesis using assms(1,2) by (auto simp: free_list_def upd_entry_def chain_upd)
qed

text \<open>A tree whose tables are not written to.\<close>

lemma walk_frame:
  assumes "\<And>is a. idxs is \<Longrightarrow> walk m root is = Some a \<Longrightarrow> pages m2 a = pages m a"
  shows "idxs js \<Longrightarrow> walk m2 root js = walk m root js"
proof (induction js rule: rev_induct)
  case (snoc j js)
  note js = idxs_snoc [OF snoc.prems]
  then have IH: "walk m2 root js = walk m root js" using snoc.IH by simp
  show ?case
  proof (cases "walk m root js")
    case (Some a)
    then have "pages m2 a = pages m a" using assms js by blast
    then show ?thesis using IH Some entry_at_cong [of m2 a m j] by (simp add: walk_snoc)
  qed (use IH in \<open>simp add: walk_snoc\<close>)
qed simp

lemma entry_for_frame:
  assumes "\<And>is a. idxs is \<Longrightarrow> walk m root is = Some a \<Longrightarrow> pages m2 a = pages m a" "root \<noteq> 0"
  shows "entry_for m2 root va = entry_for m root va"
proof (cases "walk m root (vpath va)")
  case (Some a)
  then have "pages m2 a = pages m a" using assms(1) idxs_vpath by blast
  then have "l1_entry m2 a va = l1_entry m a va" using entry_at_cong [of m2 a m] by (simp add: l1_entry_def)
  then show ?thesis using assms Some walk_frame [OF assms(1) idxs_vpath] by (simp add: entry_for_walk)
qed (use assms walk_frame [OF assms(1) idxs_vpath] in \<open>simp add: entry_for_walk\<close>)

lemma entry_for_present: "entry_for m root va = Some e \<Longrightarrow> is_present e"
  by (auto simp: entry_for_def l1_entry_def Let_def bind_eq_Some_conv split: if_splits)

text \<open>Writing an entry of a last-level table does not change the tree.\<close>

lemma walk_upd_leaf:
  assumes ok: "pt_ok m root ps" and t: "walk m root is = Some t" "idxs is" "length is = 3" and k: "k < 512"
  shows "idxs js \<Longrightarrow> walk (upd_entry t k e m) root js = walk m root js"
proof (induction js rule: rev_induct)
  case Nil
  then show ?case by simp
next
  case (snoc j js)
  note js = idxs_snoc [OF snoc.prems]
  then have IH: "walk (upd_entry t k e m) root js = walk m root js" using snoc.IH by simp
  show ?case
  proof (cases "walk m root js")
    case None
    then show ?thesis using IH by (simp add: walk_snoc)
  next
    case (Some a)
    have "a \<noteq> t" using pt_okD(4) [OF ok _ t(2) Some] js t by auto
    then have "entry_at (upd_entry t k e m) a j = entry_at m a j"
      using entry_at_upd [OF pt_okD(3) [OF ok] k, of j] js by simp
    then show ?thesis using Some IH by (simp add: walk_snoc)
  qed
qed

lemma pt_ok_upd_leaf:
  assumes ok: "pt_ok m root ps" and t: "walk m root is = Some t" "idxs is" "length is = 3" and k: "k < 512"
  shows "pt_ok (upd_entry t k e m) root ps"
proof -
  have "t \<notin> set ps" using pt_okD(5) [OF ok t(2,1)] .
  then have "free_list (upd_entry t k e m) ps" using free_list_upd_entry pt_okD(2) [OF ok] k by blast
  then show ?thesis
    using ok walk_upd_leaf [OF ok t k] unfolding pt_ok_def by metis
qed

text \<open>Hanging a fresh, empty table \<open>p\<close> under an entry that was not present.\<close>

lemma walk_grow:
  assumes ok: "pt_ok m root (p # ps)" and t: "walk m root is = Some tbl" "idxs (is @ [i])"
    and np: "\<not> is_present (entry_at m tbl i)" and e1: "is_present e1" "virt_page_addr e1 = p"
    and E: "\<And>a j. j < 512 \<Longrightarrow> entry_at m2 a j =
        (if a = tbl \<and> j = i then e1 else if a = p then 0 else entry_at m a j)"
  shows "idxs js \<Longrightarrow> walk m2 root js = (if js = is @ [i] then Some p else walk m root js)"
proof (induction js rule: rev_induct)
  case Nil
  then show ?case by simp
next
  case (snoc j js)
  note js = idxs_snoc [OF snoc.prems]
  have i_is: "idxs is" using idxs_snoc [OF t(2)] by simp
  have none: "walk m root (is @ [i]) = None" using t np by (simp add: walk_snoc)
  have IH: "walk m2 root js = (if js = is @ [i] then Some p else walk m root js)" using snoc.IH js by simp
  have tp: "tbl \<noteq> p" using pt_okD(5) [OF ok i_is t(1)] by auto
  show ?case
  proof (cases "js = is @ [i]")
    case True
    then have "walk m2 root js = Some p" using IH by simp
    then have "walk m2 root (js @ [j]) = None" using E [of j p] js tp by (simp add: walk_snoc)
    moreover have "walk m root (js @ [j]) = None" using True none by (simp only: walk_append) simp
    ultimately show ?thesis using True by simp
  next
    case False
    show ?thesis
    proof (cases "walk m root js")
      case None
      then show ?thesis using IH False t(1) by (auto simp: walk_snoc)
    next
      case (Some a)
      have ap: "a \<noteq> p" using pt_okD(5) [OF ok _ Some] js by auto
      have "a = tbl \<longleftrightarrow> js = is" using pt_okD(4) [OF ok _ i_is Some] js t(1) Some by auto
      then show ?thesis using Some IH False ap E [of j a] js e1 by (auto simp: walk_snoc)
    qed
  qed
qed

lemma pt_ok_grow:
  assumes ok: "pt_ok m root (p # ps)" and fl: "free_list m2 ps" and i: "idxs (is @ [i])"
    and W: "\<And>js. idxs js \<Longrightarrow> walk m2 root js = (if js = is @ [i] then Some p else walk m root js)"
  shows "pt_ok m2 root ps"
proof -
  have p: "p \<notin> set ps" using kpages.avail_distinct [OF pt_okD(2) [OF ok]] by simp
  have old: "a \<noteq> p \<and> a \<notin> set ps" if "walk m root js = Some a" "idxs js" for js a
    using pt_okD(5) [OF ok that(2,1)] by auto
  have "js = ks" if "idxs js" "idxs ks" "walk m2 root js = Some a" "walk m2 root ks = Some a" for js ks a
    using that pt_okD(4) [OF ok that(1,2)] old W by (auto split: if_splits)
  moreover have "a \<notin> set ps" if "idxs js" "walk m2 root js = Some a" for js a
    using that old p W by (auto split: if_splits)
  moreover have "kpage q" if "q \<in> set ps" for q using pt_okD(6) [OF ok, of q] that by simp
  ultimately show ?thesis
    unfolding pt_ok_def using pt_okD(1) [OF ok] fl by blast
qed

text \<open>
  What one step of the descent does: it stays in the tree or grows it by one table, takes pages
  only from the free list, and no last-level entry appears, changes or disappears.
\<close>

definition same_map :: "usize \<Rightarrow> pagemem \<Rightarrow> pagemem \<Rightarrow> bool" where
  "same_map root m m2 \<longleftrightarrow> (\<forall>va. entry_for m2 root va = entry_for m root va)"

lemma next_mut_present:
  "is_present (entry_at m tbl (level_index lvl va)) \<Longrightarrow>
   next_mut lvl tbl va m = (Ok (Some (virt_page_addr (entry_at m tbl (level_index lvl va)))), m)"
  by (simp add: next_mut_def Let_def kop_direct kop_simps)

lemma next_mut_full:
  "\<not> is_present (entry_at m tbl (level_index lvl va)) \<Longrightarrow> free_list m [] \<Longrightarrow>
   next_mut lvl tbl va m = (Ok None, m)"
  by (simp add: next_mut_def Let_def kop_direct kop_simps kalloc_op_def kpages.alloc_none)

text \<open>
  What a step may touch: free pages and the tables \<open>T\<close>. Tables that are new in the tree were free.
\<close>

definition grows :: "usize set \<Rightarrow> usize \<Rightarrow> pagemem \<Rightarrow> usize list \<Rightarrow> pagemem \<Rightarrow> usize list \<Rightarrow> bool" where
  "grows T root m ps m2 ps2 \<longleftrightarrow> set ps2 \<subseteq> set ps \<and> (\<forall>q. q \<notin> set ps \<longrightarrow> q \<notin> T \<longrightarrow> pages m2 q = pages m q) \<and>
     (\<forall>js a. idxs js \<longrightarrow> walk m2 root js = Some a \<longrightarrow> walk m root js = Some a \<or> a \<in> set ps)"

lemma grows_refl: "grows T root m ps m ps"
  by (simp add: grows_def)

lemma grows_trans:
  assumes "grows T root m ps m2 ps2" "grows U root m2 ps2 m3 ps3" "U \<subseteq> T \<union> set ps"
  shows "grows T root m ps m3 ps3"
proof -
  have "pages m3 q = pages m q" if "q \<notin> set ps" "q \<notin> T" for q
  proof -
    have "set ps2 \<subseteq> set ps" "pages m2 q = pages m q" using assms(1) that by (simp_all add: grows_def)
    moreover from this(1) have "pages m3 q = pages m2 q" using assms(2,3) that unfolding grows_def by blast
    ultimately show ?thesis by simp
  qed
  then show ?thesis using assms(1,2) unfolding grows_def by blast
qed

lemma grows_walk: "grows T root m ps m2 ps2 \<Longrightarrow> idxs js \<Longrightarrow> walk m2 root js = Some a \<Longrightarrow> walk m root js = Some a \<or> a \<in> set ps"
  by (simp add: grows_def)

text \<open>The fresh table has no entries, so no translation changes.\<close>

lemma entry_for_grow:
  assumes ok: "pt_ok m root (p # ps)" and t: "walk m root is = Some tbl" and i: "idxs (is @ [i])"
    and np: "\<not> is_present (entry_at m tbl i)"
    and E: "\<And>a j. j < 512 \<Longrightarrow> entry_at m2 a j = (if a = tbl \<and> j = i then e1 else if a = p then 0 else entry_at m a j)"
    and W: "\<And>js. idxs js \<Longrightarrow> walk m2 root js = (if js = is @ [i] then Some p else walk m root js)"
  shows "entry_for m2 root x = entry_for m root x"
proof (cases "vpath x = is @ [i]")
  case True
  have "tbl \<noteq> p" using pt_okD(5) [OF ok _ t] idxs_snoc [OF i] by auto
  then have "l1_entry m2 p x = None" using E [OF level_index_less, of p] by (simp add: l1_entry_def)
  moreover have "walk m root (vpath x) = None" using True t np by (simp add: walk_snoc)
  moreover have "walk m2 root (vpath x) = Some p" using W [OF i] True by simp
  ultimately show ?thesis using pt_okD(1) [OF ok] by (simp add: entry_for_walk)
next
  case False
  have same: "walk m2 root (vpath x) = walk m root (vpath x)" using W [OF idxs_vpath] False by simp
  show ?thesis
  proof (cases "walk m root (vpath x)")
    case None
    then show ?thesis using same pt_okD(1) [OF ok] by (simp add: entry_for_walk)
  next
    case (Some a)
    have "a \<noteq> p" using pt_okD(5) [OF ok idxs_vpath Some] by auto
    moreover have "a = tbl \<Longrightarrow> vpath x = is" using pt_okD(4) [OF ok idxs_vpath _ Some] t idxs_snoc [OF i] by simp
    then have "a \<noteq> tbl" using idxs_snoc [OF i] by (auto simp: vpath_def)
    ultimately have "l1_entry m2 a x = l1_entry m a x"
      using E [OF level_index_less, of a] by (simp add: l1_entry_def)
    then show ?thesis using same Some pt_okD(1) [OF ok] by (simp add: entry_for_walk)
  qed
qed

lemma next_mut_grow:
  assumes ok: "pt_ok m root (p # ps)" and t: "walk m root is = Some tbl"
    and i: "idxs (is @ [level_index lvl va])" and np: "\<not> is_present (entry_at m tbl (level_index lvl va))"
  obtains m2 where "next_mut lvl tbl va m = (Ok (Some p), m2)" "pt_ok m2 root ps"
    "walk m2 root (is @ [level_index lvl va]) = Some p" "same_map root m m2" "grows {tbl} root m (p # ps) m2 ps"
proof -
  let ?i = "level_index lvl va"
  let ?e1 = "entry_new (addr_to_phys p) (PF_PRESENT OR PF_USER OR PF_WRITE)"
  have kp: "kpage p" using pt_okD(6) [OF ok] by simp
  have v: "virt_page_addr ?e1 = p" using virt_of_entry_new [OF kp, of 7] by simp
  obtain m1 where m1: "kalloc m = (Some p, m1)" "free_list m1 ps" "pages m1 p = page_empty"
    "\<And>q. q \<noteq> p \<Longrightarrow> pages m1 q = pages m q"
    using kpages.alloc_some [OF pt_okD(2) [OF ok]] by blast
  have clr: "m1\<lparr>pages := (pages m1)(p := page_clear (pages m1 p))\<rparr> = m1"
    using m1(3) by (simp add: page_clear_def page_empty_def fun_upd_idem)
  define m2 where "m2 = upd_entry tbl ?i ?e1 m1"
  have run: "next_mut lvl tbl va m = (Ok (Some p), m2)"
    using np m1(1) clr v by (simp add: next_mut_def Let_def kop_direct kop_simps kalloc_op_def bnd_def m2_def)
  have i_is: "idxs is" and l512: "?i < 512" using idxs_snoc [OF i] by auto
  have tps: "tbl \<notin> set ps" using pt_okD(5) [OF ok i_is t] by auto
  have fl: "free_list m2 ps" unfolding m2_def using free_list_upd_entry [OF m1(2) tps l512] .
  have wf1: "pages_wf m1" using m1(2) by (simp add: pages_wf_def free_list_def)
  have E: "entry_at m2 a j = (if a = tbl \<and> j = ?i then ?e1 else if a = p then 0 else entry_at m a j)"
    if "j < 512" for a j
    using entry_at_upd [OF wf1 l512 that, of tbl ?e1 a] entry_at_empty [OF m1(3) that]
      entry_at_cong [of m1 a m j] m1(4) [of a] by (auto simp: m2_def)
  have W: "walk m2 root js = (if js = is @ [?i] then Some p else walk m root js)" if "idxs js" for js
    using walk_grow [OF ok t i np present_new_table v E that] .
  have "same_map root m m2" using entry_for_grow [OF ok t i np E W] by (simp add: same_map_def)
  moreover have "grows {tbl} root m (p # ps) m2 ps" using W m1(4) by (auto simp: grows_def m2_def upd_entry_def split: if_splits)
  ultimately show thesis using that run W [OF i] pt_ok_grow [OF ok fl i W] by simp
qed

lemma same_map_refl: "same_map root m m"
  by (simp add: same_map_def)

lemma same_map_trans: "same_map root a b \<Longrightarrow> same_map root b c \<Longrightarrow> same_map root a c"
  by (simp add: same_map_def)

lemma next_mut_spec:
  assumes ok: "pt_ok m root ps" and t: "walk m root is = Some tbl" and i: "idxs (is @ [level_index lvl va])"
  obtains (found) t m2 ps2 where "next_mut lvl tbl va m = (Ok (Some t), m2)" "pt_ok m2 root ps2"
      "walk m2 root (is @ [level_index lvl va]) = Some t" "same_map root m m2" "length ps \<le> Suc (length ps2)" "grows {tbl} root m ps m2 ps2"
  | (full) "next_mut lvl tbl va m = (Ok None, m)" "ps = []"
proof (cases "is_present (entry_at m tbl (level_index lvl va))")
  case True
  then show thesis
    using found [OF next_mut_present ok _ same_map_refl] t by (simp add: walk_snoc grows_refl)
next
  case False
  show thesis
  proof (cases ps)
    case Nil
    then show thesis using full next_mut_full [OF False] pt_okD(2) [OF ok] by simp
  next
    case (Cons p qs)
    with ok have "pt_ok m root (p # qs)" by simp
    from next_mut_grow [OF this t i False] obtain m2 where
      "next_mut lvl tbl va m = (Ok (Some p), m2)" "pt_ok m2 root qs"
      "walk m2 root (is @ [level_index lvl va]) = Some p" "same_map root m m2" "grows {tbl} root m (p # qs) m2 qs" by blast
    then show thesis using found Cons by simp
  qed
qed

text \<open>The three steps to the last-level table.\<close>

definition descend :: "usize \<Rightarrow> usize \<Rightarrow> (pagemem, usize option) kop" where
  "descend root va =
     and_then (next_mut 4 root va) (\<lambda>p3. and_then (next_mut 3 p3 va) (\<lambda>p2. next_mut 2 p2 va))"

lemma and_then_run [kop_simps]:
  "m s = (Ok None, t) \<Longrightarrow> and_then m f s = (Ok None, t)"
  "m s = (Ok (Some x), t) \<Longrightarrow> and_then m f s = f x t"
  by (simp_all add: and_then_def kop_simps)

lemma idxs_levels:
  "idxs [level_index a va]" "idxs [level_index a va, level_index b va]"
  "idxs [level_index a va, level_index b va, level_index c va]"
  by (simp_all add: idxs_def level_index_less)

text \<open>The tables on the way to an address.\<close>

definition path_tables :: "pagemem \<Rightarrow> usize \<Rightarrow> usize \<Rightarrow> usize set" where
  "path_tables m root va = {a. \<exists>n. walk m root (take n (vpath va)) = Some a}"

lemma path_tablesI:
  "root \<in> path_tables m root va"
  "walk m root [level_index 4 va] = Some a \<Longrightarrow> a \<in> path_tables m root va"
  "walk m root [level_index 4 va, level_index 3 va] = Some a \<Longrightarrow> a \<in> path_tables m root va"
  "walk m root (vpath va) = Some a \<Longrightarrow> a \<in> path_tables m root va"
proof -
  show "root \<in> path_tables m root va" by (auto simp: path_tables_def intro!: exI [of _ 0])
  show "walk m root [level_index 4 va] = Some a \<Longrightarrow> a \<in> path_tables m root va"
    by (auto simp: path_tables_def vpath_def intro!: exI [of _ "Suc 0"])
  show "walk m root [level_index 4 va, level_index 3 va] = Some a \<Longrightarrow> a \<in> path_tables m root va"
    by (auto simp: path_tables_def vpath_def intro!: exI [of _ "Suc (Suc 0)"])
  show "walk m root (vpath va) = Some a \<Longrightarrow> a \<in> path_tables m root va"
    by (auto simp: path_tables_def intro!: exI [of _ "length (vpath va)"])
qed

lemma descend_spec:
  assumes ok: "pt_ok m root ps"
  obtains (found) t m2 ps2 where "descend root va m = (Ok (Some t), m2)" "pt_ok m2 root ps2"
      "walk m2 root (vpath va) = Some t" "same_map root m m2" "grows (path_tables m root va) root m ps m2 ps2"
      "length ps \<le> length ps2 + 3"
  | (full) m2 ps2 where "descend root va m = (Ok None, m2)" "pt_ok m2 root ps2" "same_map root m m2"
      "length ps < 3"
proof -
  have r: "walk m root [] = Some root" by simp
  let ?T = "path_tables m root va"
  show thesis
  proof (cases rule: next_mut_spec [OF ok r, of 4 va])
    case 1
    then show ?case by (simp add: idxs_levels)
  next
    case A: (2 t4 m4 ps4)
    from A(3) have w4: "walk m4 root [level_index 4 va] = Some t4" by simp
    have gA: "grows ?T root m ps m4 ps4" using grows_trans [OF grows_refl A(6)] path_tablesI(1) [of root m va] by auto
    show thesis
    proof (cases rule: next_mut_spec [OF A(2) w4, of 3 va])
      case 1
      then show ?case by (simp add: idxs_levels)
    next
      case B: (2 t3 m3 ps3)
      from B(3) have w3: "walk m3 root [level_index 4 va, level_index 3 va] = Some t3" by simp
      note AB = same_map_trans [OF A(4) B(4)]
      have gB: "grows ?T root m ps m3 ps3"
        using grows_trans [OF gA B(6)] grows_walk [OF gA _ w4] path_tablesI(2) [of m root va t4] by (auto simp: idxs_levels)
      show thesis
      proof (cases rule: next_mut_spec [OF B(2) w3, of 2 va])
        case 1
        then show ?case by (simp add: idxs_levels)
      next
        case C: (2 t2 m2 ps2)
        have gC: "grows ?T root m ps m2 ps2"
          using grows_trans [OF gB C(6)] grows_walk [OF gB _ w3] path_tablesI(3) [of m root va t3] by (auto simp: idxs_levels)
        show thesis
          by (rule found [OF _ C(2) _ same_map_trans [OF AB C(4)] gC])
            (use A(1,5) B(1,5) C(1,3,5) in \<open>simp_all add: descend_def kop_simps vpath_def\<close>)
      next
        case C: 3
        show thesis
          by (rule full [OF _ B(2) AB]) (use A B C in \<open>simp_all add: descend_def kop_simps\<close>)
      qed
    next
      case B: 3
      show thesis
        by (rule full [OF _ A(2,4)]) (use A B in \<open>simp_all add: descend_def kop_simps\<close>)
    qed
  next
    case A: 3
    show thesis
      by (rule full [OF _ ok same_map_refl]) (use A in \<open>simp_all add: descend_def kop_simps\<close>)
  qed
qed

text \<open>Two addresses that the four indices do not tell apart.\<close>

definition same_page :: "usize \<Rightarrow> usize \<Rightarrow> bool" where
  "same_page va vb \<longleftrightarrow> take_bit 36 (drop_bit 12 va) = take_bit 36 (drop_bit 12 vb)"

lemma bit_level_index:
  "lvl \<in> {1, 2, 3, 4} \<Longrightarrow> bit (level_index lvl va) n \<longleftrightarrow> n < 9 \<and> bit va (12 + 9 * (lvl - 1) + n)"
proof -
  have "level_index lvl va = unat (take_bit 9 (drop_bit (12 + 9 * (lvl - 1)) va))"
    by (simp add: level_index_def take_bit_eq_mask mask_eq_exp_minus_1)
  then show "lvl \<in> {1, 2, 3, 4} \<Longrightarrow> ?thesis"
    by (auto simp: bit_unsigned_iff bit_take_bit_iff bit_drop_bit_eq dest: bit_imp_le_length)
qed

lemma page_bit: "bit (take_bit 36 (drop_bit 12 va)) k \<longleftrightarrow> k < 36 \<and> bit (va :: usize) (12 + k)"
  by (simp add: bit_take_bit_iff bit_drop_bit_eq)

lemma same_page_indices:
  "same_page va vb \<longleftrightarrow> vpath va = vpath vb \<and> level_index 1 va = level_index 1 vb"
proof
  assume s: "same_page va vb"
  have b: "bit va (12 + k) = bit vb (12 + k)" if "k < 36" for k
    using s that page_bit [of va k] page_bit [of vb k] by (simp only: same_page_def) simp
  have "level_index lvl va = level_index lvl vb" if "lvl \<in> {1, 2, 3, 4}" for lvl
  proof (rule bit_eqI)
    fix n
    have "9 * (lvl - 1) + n < 36" if "n < 9" using that \<open>lvl \<in> {1, 2, 3, 4}\<close> by auto
    then show "bit (level_index lvl va) n = bit (level_index lvl vb) n"
      using that b [of "9 * (lvl - 1) + n"] by (auto simp only: bit_level_index add.assoc)
  qed
  then show "vpath va = vpath vb \<and> level_index 1 va = level_index 1 vb" by (simp add: vpath_def)
next
  assume e: "vpath va = vpath vb \<and> level_index 1 va = level_index 1 vb"
  have b: "bit va (12 + 9 * (lvl - 1) + n) = bit vb (12 + 9 * (lvl - 1) + n)"
    if "n < 9" "lvl \<in> {1, 2, 3, 4}" for n lvl
  proof -
    have "level_index lvl va = level_index lvl vb" using e that by (auto simp: vpath_def)
    then show ?thesis using bit_level_index [OF that(2), of va n] bit_level_index [OF that(2), of vb n] that(1) by simp
  qed
  have "bit va (12 + k) = bit vb (12 + k)" if "k < 36" for k
  proof -
    have "k div 9 < 4" using that by simp
    then have "Suc (k div 9) \<in> {1, 2, 3, 4}" by auto
    then show ?thesis using b [of "k mod 9" "Suc (k div 9)"] by (simp add: add.assoc)
  qed
  then show "same_page va vb"
    unfolding same_page_def by (intro bit_word_eqI) (auto simp only: page_bit)
qed

lemma map_to_run:
  assumes ok: "pt_ok m root ps"
  obtains (mapped) m2 ps2 where "map_to root pa va fl m = (Ok (), m2)" "pt_ok m2 root ps2"
      "\<And>vb. entry_for m2 root vb =
        (if same_page vb va then Some (enable (entry_new pa fl)) else entry_for m root vb)"
      "grows (path_tables m root va) root m ps m2 ps2" "length ps \<le> length ps2 + 3"
  | (failed) m2 ps2 where "map_to root pa va fl m = (Err ''Allocation failed'', m2)" "pt_ok m2 root ps2"
      "length ps < 3" "same_map root m m2"
proof (cases rule: descend_spec [OF ok, of va])
  case A: (1 t m1 ps1)
  let ?k = "level_index 1 va"
  let ?e = "enable (entry_new pa fl)"
  have k: "?k < 512" by (rule level_index_less)
  have len: "length (vpath va) = 3" by (simp add: vpath_def)
  note leaf = A(2,3) idxs_vpath len k
  have run: "map_to root pa va fl m = (Ok (), upd_entry t ?k ?e m1)"
    using A(1) pt_okD(1) [OF ok] by (simp add: map_to_def kop_simps flip: descend_def)
  have "entry_for (upd_entry t ?k ?e m1) root vb =
      (if same_page vb va then Some ?e else entry_for m1 root vb)" for vb
  proof -
    have w: "walk (upd_entry t ?k ?e m1) root (vpath vb) = walk m1 root (vpath vb)"
      by (rule walk_upd_leaf [OF leaf idxs_vpath])
    have E: "entry_at (upd_entry t ?k ?e m1) a (level_index 1 vb) =
        (if a = t \<and> level_index 1 vb = ?k then ?e else entry_at m1 a (level_index 1 vb))" for a
      by (rule entry_at_upd [OF pt_okD(3) [OF A(2)] k level_index_less])
    have "walk m1 root (vpath vb) = Some t \<longleftrightarrow> vpath vb = vpath va"
      using pt_okD(4) [OF A(2) idxs_vpath idxs_vpath _ A(3), of vb] A(3) by auto
    then show ?thesis
      using pt_okD(1) [OF A(2)] w
      by (cases "walk m1 root (vpath vb)")
        (auto simp: entry_for_walk l1_entry_def Let_def E same_page_indices present_enable
          simp del: One_nat_def)
  qed
  moreover have "grows {t} root m1 ps1 (upd_entry t ?k ?e m1) ps1"
    using walk_upd_leaf [OF leaf] by (simp add: grows_def upd_entry_def)
  then have "grows (path_tables m root va) root m ps (upd_entry t ?k ?e m1) ps1"
    using grows_trans [OF A(5)] grows_walk [OF A(5) idxs_vpath A(3)] path_tablesI(4) [of m root va t] by auto
  ultimately show thesis
    using mapped [OF run pt_ok_upd_leaf [OF leaf]] A(4,6) by (simp add: same_map_def)
next
  case (2 m2 ps2)
  then show thesis
    using failed [of m2 ps2] pt_okD(1) [OF ok] by (simp add: map_to_def kop_simps flip: descend_def)
qed

text \<open>
  C5: Mapping a page. In an address space whose tables are in order, \<open>map_to\<close> either succeeds, and
  then the page of the given address has the new entry while every other page translates as before,
  or fails for want of pages (it never needs more than three), and then no translation has changed.
  In both cases the tables are still in order: no table is shared or on the free list.
\<close>
theorem map_to_lookup:
  assumes "pt_ok m root ps"
  shows "\<exists>r m2 ps2. map_to root pa va fl m = (r, m2) \<and> pt_ok m2 root ps2 \<and>
    (r = Ok () \<and> (\<forall>vb. entry_for m2 root vb =
        (if same_page vb va then Some (enable (entry_new pa fl)) else entry_for m root vb))
     \<or> r = Err ''Allocation failed'' \<and> length ps < 3 \<and> (\<forall>vb. entry_for m2 root vb = entry_for m root vb))"
  by (cases rule: map_to_run [OF assms, of pa va fl]) (auto simp: same_map_def)

text \<open>A kernel page table with an empty root and three free pages.\<close>

definition vm_mem :: pagemem where
  "vm_mem = \<lparr>pages = (\<lambda>p. if p = KERNBASE + 0x2000 then write_next page_empty (KERNBASE + 0x3000)
      else if p = KERNBASE + 0x3000 then write_next page_empty (KERNBASE + 0x4000) else page_empty),
     free_head = KERNBASE + 0x2000\<rparr>"

lemma vm_mem_free: "free_list vm_mem [KERNBASE + 0x2000, KERNBASE + 0x3000, KERNBASE + 0x4000]"
  by (simp add: free_list_def vm_mem_def read_write_next page_empty_def)
    (simp add: read_next_def eval_nat_numeral)

lemma vm_mem_ok: "pt_ok vm_mem (KERNBASE + 0x1000) [KERNBASE + 0x2000, KERNBASE + 0x3000, KERNBASE + 0x4000]"
proof -
  have z: "entry_at vm_mem (KERNBASE + 0x1000) i = 0" if "i < 512" for i
    using that by (intro entry_at_empty) (simp_all add: vm_mem_def)
  have w: "walk vm_mem (KERNBASE + 0x1000) is = Some a \<longleftrightarrow> is = [] \<and> a = KERNBASE + 0x1000"
    if "idxs is" for "is" a
    using that z by (cases "is") (auto simp: idxs_def)
  have "kpage (KERNBASE + 0x2000)" "kpage (KERNBASE + 0x3000)" "kpage (KERNBASE + 0x4000)"
    by (simp_all add: kpage_def addr_to_phys_def)
  then show ?thesis unfolding pt_ok_def using vm_mem_free w by auto
qed

theorem map_to_lookup_witness:
  "\<exists>m2. map_to (KERNBASE + 0x1000) 0x5000 0x400000 (PF_USER OR PF_WRITE) vm_mem = (Ok (), m2)
    \<and> entry_for m2 (KERNBASE + 0x1000) 0x400123 = Some (enable (entry_new 0x5000 (PF_USER OR PF_WRITE)))
    \<and> entry_for m2 (KERNBASE + 0x1000) 0x401000 = entry_for vm_mem (KERNBASE + 0x1000) 0x401000"
proof -
  have "same_page 0x400123 0x400000" "\<not> same_page 0x401000 0x400000"
    by (simp_all add: same_page_def)
  then show ?thesis
    using map_to_lookup [OF vm_mem_ok, of "0x5000" "0x400000" "PF_USER OR PF_WRITE"] by auto
qed

lemma step_by_inclusive:
  assumes "start \<le> fin" "n dvd fin - start" "0 < n"
  shows "step_by start n (Suc fin) = step_by start n fin @ [fin]"
proof -
  obtain q where q: "fin = start + q * n" using assms(1,2) by (metis dvd_def le_add_diff_inverse mult.commute)
  have "(q * n + n - 1) div n = q" "(Suc (q * n) + n - 1) div n = Suc q"
    using assms(3) by (auto intro!: div_nat_eqI simp: algebra_simps)
  then show ?thesis by (simp add: step_by_def q Suc_diff_le)
qed

lemma run_all_append: "run_all f (xs @ ys) = seqk (run_all f xs) (run_all f ys)"
  by (induction xs) (auto simp: seqk_def bnd_def ret_def fun_eq_iff split: prod.splits res.splits)

text \<open>
  \<open>map_phys_range(start, end)\<close> with page-aligned bounds maps the pages up to and including the one
  that begins at \<open>end\<close>: after the pages of the half-open range it also maps the page at \<open>end\<close> itself.
\<close>
theorem map_phys_range_inclusive:
  assumes "start \<le> fin" "PAGE_SIZE dvd unat fin - unat start"
  shows "map_phys_range root start fin fl =
    seqk (run_all (\<lambda>pa. map_to root (of_nat pa) (phys_to_addr (of_nat pa)) fl)
            (step_by (unat start) PAGE_SIZE (unat fin)))
         (seqk (map_to root fin (phys_to_addr fin) fl) (ret ()))"
  using step_by_inclusive [of "unat start" "unat fin" PAGE_SIZE] assms
  by (simp add: map_phys_range_def run_all_append word_le_nat_alt)

theorem map_phys_range_inclusive_witness:
  "map_phys_range (KERNBASE + 0x1000) DEVSPACE GIG4 devflags =
    seqk (run_all (\<lambda>pa. map_to (KERNBASE + 0x1000) (of_nat pa) (phys_to_addr (of_nat pa)) devflags)
            (step_by (unat DEVSPACE) PAGE_SIZE (unat GIG4)))
         (seqk (map_to (KERNBASE + 0x1000) GIG4 (phys_to_addr GIG4) devflags) (ret ()))"
proof (rule map_phys_range_inclusive)
  show "PAGE_SIZE dvd unat GIG4 - unat DEVSPACE" by (rule dvdI [of _ _ 8192]) simp
qed simp

end
