(* ===== verification/Proc.thy ===== *)
theory Proc
  imports File Vm
begin

text \<open>
  Processes (\<open>kernel/src/proc.rs\<close>): the process table and the life of a process, from \<open>alloc\<close> and
  \<open>fork\<close> through sleeping and waking to \<open>exit\<close> and \<open>wait\<close> (the scheduler is in \<open>Sched\<close>). The state extends that of
  the open files by the table; page tables and kernel stacks are pages of the one page store. A
  process is named by its index in the table, and its channel is the address of its entry. The lock
  \<open>PROCS\<close> makes each operation one step; a switch of context is the return of the step, with the
  process's state saying why it left the processor.
\<close>

section \<open>The process table\<close>

abbreviation NPROC :: nat where "NPROC \<equiv> 256"
abbreviation NOFILE :: nat where "NOFILE \<equiv> 64"
abbreviation TRAP_FRAME_SIZE :: nat where "TRAP_FRAME_SIZE \<equiv> 208"
abbreviation CONTEXT_SIZE :: nat where "CONTEXT_SIZE \<equiv> 72"

datatype pstate = UNUSED | EMBRYO | SLEEPING usize | RUNNABLE | RUNNING | ZOMBIE u32

record proc =
  p_state :: pstate
  p_pid :: u32
  p_parent :: "usize option"
  p_killed :: bool
  pd_pgtbl :: "usize option"
  pd_kstack :: "usize option"
  pd_context :: usize
  pd_name :: bytes
  p_size :: usize
  p_files :: "nat option list"
  p_cwd :: "nat option"

definition proc_new :: proc where
  "proc_new = \<lparr>p_state = UNUSED, p_pid = 0, p_parent = None, p_killed = False, pd_pgtbl = None,
     pd_kstack = None, pd_context = 0, pd_name = replicate 16 0, p_size = 0,
     p_files = replicate NOFILE None, p_cwd = None\<rparr>"

text \<open>The addresses of the table and of the code a new process returns to come from the linker.\<close>

record proc_state = file_state +
  procs :: "proc list"
  pid_next :: u32
  init_proc_chan :: usize
  procs_base :: usize
  proc_bytes :: usize
  kroot :: usize
  sym_syscallret :: usize
  sym_forkret :: usize
  sym_firstret :: usize

definition as_chan :: "nat \<Rightarrow> 'a proc_state_scheme \<Rightarrow> usize" where
  "as_chan k s = procs_base s + of_nat k * proc_bytes s"

definition getp :: "nat \<Rightarrow> (proc \<Rightarrow> 'r) \<Rightarrow> ('a proc_state_scheme, 'r) kop" where
  "getp k f = gets (\<lambda>s. f (procs s ! k))"

definition modp :: "nat \<Rightarrow> (proc \<Rightarrow> proc) \<Rightarrow> ('a proc_state_scheme, unit) kop" where
  "modp k f = modify (\<lambda>s. s\<lparr>procs := (procs s)[k := f (procs s ! k)]\<rparr>)"

definition on_mem :: "(pagemem, 'r) kop \<Rightarrow> ('a proc_state_scheme, 'r) kop" where
  "on_mem m = on_pipes (\<lambda>p. let (r, x) = m (kmem_of p) in (r, p\<lparr>kmem_of := x\<rparr>))"

definition mem :: "'a proc_state_scheme \<Rightarrow> pagemem" where
  "mem s = kmem_of (kpipes s)"

text \<open>A call of the file layer by process \<open>k\<close>: \<open>myproc()\<close> is \<open>k\<close> there.\<close>

definition as_proc :: "nat \<Rightarrow> ('a proc_state_scheme, 'r) kop \<Rightarrow> ('a proc_state_scheme, 'r) kop" where
  "as_proc k m s = m (s\<lparr>curpid := p_pid (procs s ! k),
     cwd := (case p_cwd (procs s ! k) of Some ip \<Rightarrow> ip | None \<Rightarrow> cwd s), my_dead := p_killed (procs s ! k)\<rparr>)"

definition set_name :: "bytes \<Rightarrow> proc \<Rightarrow> proc" where
  "set_name nm p = (let len = min (length nm) (length (pd_name p))
     in p\<lparr>pd_name := overwrite (pd_name p) 0 (take len nm)\<rparr>)"

definition initialized :: "proc \<Rightarrow> bool" where
  "initialized p \<longleftrightarrow> p_state p \<noteq> UNUSED \<and> p_state p \<noteq> EMBRYO"

definition parent_of :: "proc \<Rightarrow> usize" where
  "parent_of p = (case p_parent p of Some c \<Rightarrow> c | None \<Rightarrow> 0)"

definition init_chan :: "('a proc_state_scheme, usize) kop" where
  "init_chan = bnd (gets init_proc_chan) (\<lambda>c. seqk (assertk (c \<noteq> 0) ''assertion failed'') (ret c))"

definition next_pid :: "('a proc_state_scheme, u32) kop" where
  "next_pid = bnd (gets pid_next) (\<lambda>p. seqk (modify (\<lambda>s. s\<lparr>pid_next := p + 1\<rparr>)) (ret p))"

definition kstack_top :: "nat \<Rightarrow> ('a proc_state_scheme, usize) kop" where
  "kstack_top k = bnd (getp k pd_kstack) (\<lambda>st. case st of None \<Rightarrow> panic ''kstack''
     | Some a \<Rightarrow> ret (a + of_nat PAGE_SIZE))"

section \<open>Sleeping and waking\<close>

definition wake_one :: "usize \<Rightarrow> proc \<Rightarrow> proc" where
  "wake_one chan p = (if p_state p = SLEEPING chan then p\<lparr>p_state := RUNNABLE\<rparr> else p)"

definition wakeup1 :: "usize \<Rightarrow> ('a proc_state_scheme, unit) kop" where
  "wakeup1 chan = modify (\<lambda>s. s\<lparr>procs := map (wake_one chan) (procs s)\<rparr>)"

definition wakeup :: "usize \<Rightarrow> ('a proc_state_scheme, unit) kop" where
  "wakeup chan = wakeup1 chan"

text \<open>
  \<open>sched\<close>: its four assertions, on whether the lock is held, how deep interrupts are disabled,
  and whether they are enabled; then the process is off the processor.
\<close>

definition sched :: "bool \<Rightarrow> nat \<Rightarrow> bool \<Rightarrow> nat \<Rightarrow> ('a proc_state_scheme, unit) kop" where
  "sched holding nintr intr_on k =
     seqk (assertk holding ''sched proc lock'')
     (seqk (assertk (nintr = 1) ''sched locks'')
     (seqk (bnd (getp k p_state) (\<lambda>st. assertk (st \<noteq> RUNNING) ''sched running''))
     (assertk (\<not> intr_on) ''sched interruptible'')))"

definition psleep :: "nat \<Rightarrow> usize \<Rightarrow> ('a proc_state_scheme, unit) kop" where
  "psleep k chan = seqk (modp k (\<lambda>p. p\<lparr>p_state := SLEEPING chan\<rparr>)) (sched True 1 False k)"

definition sched_yield :: "nat \<Rightarrow> ('a proc_state_scheme, unit) kop" where
  "sched_yield k = seqk (modp k (\<lambda>p. p\<lparr>p_state := RUNNABLE\<rparr>)) (sched True 1 False k)"

text \<open>The result of \<open>yield_if_running\<close> says whether the processor was given up.\<close>

definition yield_if_running :: "nat option \<Rightarrow> ('a proc_state_scheme, bool) kop" where
  "yield_if_running me = (case me of None \<Rightarrow> ret False
     | Some k \<Rightarrow> bnd (getp k p_state) (\<lambda>st. if st = RUNNING then seqk (sched_yield k) (ret True) else ret False))"

definition kill_at :: "nat \<Rightarrow> ('a proc_state_scheme, unit) kop" where
  "kill_at k = seqk (modp k (\<lambda>p. p\<lparr>p_killed := True\<rparr>))
     (modp k (\<lambda>p. case p_state p of SLEEPING _ \<Rightarrow> p\<lparr>p_state := RUNNABLE\<rparr> | _ \<Rightarrow> p))"

definition kill :: "u32 \<Rightarrow> ('a proc_state_scheme, u32 option) kop" where
  "kill pid = bnd (gets procs) (\<lambda>ps. case position (\<lambda>p. p_pid p = pid) ps of
     None \<Rightarrow> ret None | Some k \<Rightarrow> seqk (kill_at k) (ret (Some pid)))"

section \<open>Creating processes\<close>

definition write_u64 :: "usize \<Rightarrow> nat \<Rightarrow> u64 \<Rightarrow> (pagemem, unit) kop" where
  "write_u64 pg off v = modify (\<lambda>m. m\<lparr>pages := (pages m)(pg := overwrite (pages m pg) off (to_le 8 (unat v)))\<rparr>)"

abbreviation (input) TF_OFF :: nat where "TF_OFF \<equiv> PAGE_SIZE - TRAP_FRAME_SIZE"
abbreviation (input) CTX_OFF :: nat where "CTX_OFF \<equiv> PAGE_SIZE - TRAP_FRAME_SIZE - 8 - CONTEXT_SIZE"

definition init_proc :: "nat \<Rightarrow> usize \<Rightarrow> ('a proc_state_scheme, u32) kop" where
  "init_proc k stack =
     seqk (modp k (\<lambda>p. p\<lparr>p_state := EMBRYO\<rparr>))
     (bnd (gets sym_syscallret) (\<lambda>ra.
      seqk (on_mem (write_u64 stack (TF_OFF - 8) ra))
      (seqk (on_mem (write_u64 stack CTX_OFF (stack + of_nat CTX_OFF)))
      (seqk (modp k (\<lambda>p. p\<lparr>pd_context := stack + of_nat CTX_OFF, pd_kstack := Some stack\<rparr>))
      (bnd next_pid (\<lambda>pid. seqk (modp k (\<lambda>p. p\<lparr>p_pid := pid\<rparr>)) (ret pid)))))))"

definition proc_alloc :: "(nat \<Rightarrow> ('a proc_state_scheme, unit option) kop) \<Rightarrow> ('a proc_state_scheme, u32 option) kop" where
  "proc_alloc thunk = and_then (on_mem kalloc_op) (\<lambda>stack.
     bnd (gets procs) (\<lambda>ps. case position (\<lambda>p. p_state p = UNUSED) ps of
       None \<Rightarrow> seqk (on_mem (kfree stack)) (ret None)
     | Some k \<Rightarrow> bnd (init_proc k stack) (\<lambda>pid. and_then (thunk k) (\<lambda>_. ret (Some pid)))))"

text \<open>\<open>context_mut().set_return\<close> writes the last field of the context on the stack.\<close>

definition ctx_set_return :: "nat \<Rightarrow> usize \<Rightarrow> ('a proc_state_scheme, unit) kop" where
  "ctx_set_return k ra = bnd (getp k id) (\<lambda>p.
     seqk (assertk (pd_context p \<noteq> 0) ''bad stack'')
     (on_mem (write_u64 (page_round_down (pd_context p)) (unat (pd_context p mod 4096) + 64) ra)))"

definition dup_pgtbl :: "nat \<Rightarrow> ('a proc_state_scheme, usize option) kop" where
  "dup_pgtbl k = bnd (getp k id) (\<lambda>p. case pd_pgtbl p of None \<Rightarrow> ret None
     | Some root \<Rightarrow> on_mem (dup root (p_size p)))"

fun dup_files :: "nat option list \<Rightarrow> ('a proc_state_scheme, nat option list) kop" where
  "dup_files [] = ret []"
| "dup_files (None # fs) = bnd (dup_files fs) (\<lambda>gs. ret (None # gs))"
| "dup_files (Some f # fs) = bnd (file_dup f) (\<lambda>g. bnd (dup_files fs) (\<lambda>gs. ret (Some g # gs)))"

definition copy_user_context :: "nat \<Rightarrow> nat \<Rightarrow> ('a proc_state_scheme, unit) kop" where
  "copy_user_context k np = bnd (getp k pd_kstack) (\<lambda>a. bnd (getp np pd_kstack) (\<lambda>b.
     case (a, b) of
       (Some src, Some dst) \<Rightarrow> on_mem (modify (\<lambda>m. m\<lparr>pages := (pages m)(dst :=
          overwrite (pages m dst) TF_OFF (slice (pages m src) TF_OFF PAGE_SIZE))\<rparr>))
     | _ \<Rightarrow> panic ''kstack''))"

definition proc_cwd :: "nat \<Rightarrow> ('a proc_state_scheme, nat) kop" where
  "proc_cwd k = bnd (getp k p_cwd) (\<lambda>c. case c of Some ip \<Rightarrow> ret ip | None \<Rightarrow> panic ''proc with no pwd'')"

definition fork_child :: "nat \<Rightarrow> nat \<Rightarrow> ('a proc_state_scheme, unit option) kop" where
  "fork_child k np = bnd (dup_pgtbl k) (\<lambda>pt. case pt of
     None \<Rightarrow> bnd (getp np pd_kstack) (\<lambda>st. case st of None \<Rightarrow> panic ''unwrap on None''
       | Some a \<Rightarrow> seqk (modp np (\<lambda>p. p\<lparr>pd_kstack := None\<rparr>))
           (seqk (on_mem (kfree a)) (seqk (modp np (\<lambda>p. p\<lparr>p_state := UNUSED\<rparr>)) (ret None))))
   | Some t \<Rightarrow>
       bnd (getp k id) (\<lambda>me.
       seqk (modp np (\<lambda>p. set_name (pd_name me) (p\<lparr>pd_pgtbl := Some t\<rparr>)))
       (seqk (copy_user_context k np)
       (bnd (gets sym_forkret) (\<lambda>ra. seqk (ctx_set_return np ra)
       (bnd (gets (as_chan k)) (\<lambda>c.
       seqk (modp np (\<lambda>p. p\<lparr>p_parent := Some c, p_size := p_size me\<rparr>))
       (bnd (dup_files (p_files me)) (\<lambda>fs.
       seqk (modp np (\<lambda>p. p\<lparr>p_files := fs\<rparr>))
       (bnd (proc_cwd k) (\<lambda>ip. bnd (inode_dup ip) (\<lambda>ip1.
       seqk (modp np (\<lambda>p. p\<lparr>p_cwd := Some ip1, p_state := RUNNABLE\<rparr>))
       (ret (Some ()))))))))))))))"

definition fork :: "nat \<Rightarrow> ('a proc_state_scheme, u32 option) kop" where
  "fork k = proc_alloc (fork_child k)"

text \<open>\<open>proc::init\<close>: the first process, with the code of \<open>initcode.rs\<close> in one page at address 0.\<close>

definition make_init_user_page :: "bytes \<Rightarrow> (pagemem, usize) kop" where
  "make_init_user_page init_code = bnd kalloc_op (\<lambda>r. case r of None \<Rightarrow> panic ''init user alloc failed''
     | Some pg \<Rightarrow> seqk (assertk (length init_code \<le> PAGE_SIZE) ''slice index'')
         (seqk (modify (\<lambda>m. m\<lparr>pages := (pages m)(pg := overwrite (pages m pg) 0 init_code)\<rparr>)) (ret pg)))"

definition first_proc :: "usize \<Rightarrow> nat \<Rightarrow> ('a proc_state_scheme, unit option) kop" where
  "first_proc t k =
     seqk (modp k (\<lambda>p. set_name (map (of_nat \<circ> of_char) ''init'') (p\<lparr>pd_pgtbl := Some t\<rparr>)))
     (bnd (gets (as_chan k)) (\<lambda>c.
     seqk (modp k (\<lambda>p. p\<lparr>p_parent := Some c, p_size := of_nat PAGE_SIZE\<rparr>))
     (bnd (gets sym_firstret) (\<lambda>ra. seqk (ctx_set_return k ra)
     (seqk (modify (\<lambda>s. s\<lparr>init_proc_chan := c\<rparr>))
     (bnd (kstack_top k) (\<lambda>top.
     seqk (on_mem (write_u64 (top - of_nat PAGE_SIZE) (TF_OFF + 23 * 8) (RFLAGS_INTR_EN OR 2)))
     (seqk (modp k (\<lambda>p. p\<lparr>p_state := RUNNABLE\<rparr>)) (ret (Some ()))))))))))"

definition proc_init :: "bytes \<Rightarrow> ('a proc_state_scheme, unit) kop" where
  "proc_init init_code = bnd (on_mem (make_init_user_page init_code)) (\<lambda>pg.
     bnd (gets kroot) (\<lambda>kr. bnd (on_mem (dup_kern kr)) (\<lambda>r. case r of
       None \<Rightarrow> panic ''init address space alloc failed''
     | Some t \<Rightarrow>
         seqk (on_mem (expectk ''init code map failed'' (map_to t (addr_to_phys pg) 0 (PF_USER OR PF_WRITE))))
         (bnd (proc_alloc (first_proc t)) (\<lambda>a. case a of
            None \<Rightarrow> panic ''allocating init proc failed'' | Some _ \<Rightarrow> ret ())))))"

section \<open>Memory of a process\<close>

definition with_pgtbl :: "nat \<Rightarrow> (usize \<Rightarrow> (pagemem, 'r) kop) \<Rightarrow> ('a proc_state_scheme, 'r) kop" where
  "with_pgtbl k f = bnd (getp k pd_pgtbl) (\<lambda>t. case t of None \<Rightarrow> panic ''pgtbl'' | Some root \<Rightarrow> on_mem (f root))"

definition adjsize :: "nat \<Rightarrow> u64 \<Rightarrow> ('a proc_state_scheme, usize) kop" where
  "adjsize k delta = bnd (getp k p_size) (\<lambda>old_size.
     let new_size = old_size + delta
     in seqk
       (if sint delta < 0 then
          if new_size > old_size then throw ''grow: underflow''
          else with_pgtbl k (\<lambda>r. dealloc_user r old_size new_size)
        else
          if old_size > new_size then throw ''grow: overflow''
          else with_pgtbl k (\<lambda>r. alloc_user r old_size new_size (PF_USER OR PF_WRITE)))
       (seqk (modp k (\<lambda>p. p\<lparr>p_size := new_size\<rparr>)) (ret old_size)))"

definition is_user_addr :: "proc \<Rightarrow> usize \<Rightarrow> bool" where
  "is_user_addr p va \<longleftrightarrow> va < p_size p \<or> (USERSTACK \<le> va \<and> va < USEREND)"

definition user_region_end :: "proc \<Rightarrow> usize \<Rightarrow> usize option" where
  "user_region_end p va = (if is_user_addr p va
     then Some (if va < p_size p then p_size p else USEREND) else None)"

text \<open>Accesses of the kernel to user addresses go through the process's page table.\<close>

definition hw_load :: "usize \<Rightarrow> usize \<Rightarrow> pagemem \<Rightarrow> u8 res" where
  "hw_load root va m = (case entry_for m root va of
     None \<Rightarrow> Panic ''page fault'' | Some e \<Rightarrow> Ok (pages m (virt_page_addr e) ! unat (va mod 4096)))"

definition hw_store :: "usize \<Rightarrow> usize \<Rightarrow> u8 \<Rightarrow> (pagemem, unit) kop" where
  "hw_store root va b = bnd (gets (\<lambda>m. entry_for m root va)) (\<lambda>eo. case eo of
     None \<Rightarrow> panic ''page fault''
   | Some e \<Rightarrow> seqk (assertk (entry_flags e AND PF_WRITE = PF_WRITE) ''page fault'')
       (modify (\<lambda>m. m\<lparr>pages := (pages m)(virt_page_addr e :=
          (pages m (virt_page_addr e))[unat (va mod 4096) := b])\<rparr>)))"

fun hw_loads :: "usize \<Rightarrow> usize \<Rightarrow> nat \<Rightarrow> pagemem \<Rightarrow> bytes res" where
  "hw_loads root va 0 m = Ok []"
| "hw_loads root va (Suc n) m =
     rbind (hw_load root va m) (\<lambda>b. rbind (hw_loads root (va + 1) n m) (\<lambda>bs. Ok (b # bs)))"

fun hw_stores :: "usize \<Rightarrow> usize \<Rightarrow> bytes \<Rightarrow> (pagemem, unit) kop" where
  "hw_stores root va [] = ret ()"
| "hw_stores root va (b # bs) = seqk (hw_store root va b) (hw_stores root (va + 1) bs)"

fun hw_scan :: "usize \<Rightarrow> usize \<Rightarrow> nat \<Rightarrow> pagemem \<Rightarrow> bytes option res" where
  "hw_scan root va 0 m = Ok None"
| "hw_scan root va (Suc n) m = rbind (hw_load root va m) (\<lambda>b.
     if b = 0 then Ok (Some []) else rbind (hw_scan root (va + 1) n m) (\<lambda>r. Ok (map_option (Cons b) r)))"

definition root_of :: "proc \<Rightarrow> usize" where
  "root_of p = (case pd_pgtbl p of Some r \<Rightarrow> r | None \<Rightarrow> 0)"

definition fetch_range :: "proc \<Rightarrow> usize \<Rightarrow> usize \<Rightarrow> (usize \<times> usize) option" where
  "fetch_range p off len = (case user_region_end p off of None \<Rightarrow> None
     | Some rend \<Rightarrow> if len > rend - off then None else Some (off, len))"

definition fetch_usize :: "nat \<Rightarrow> usize \<Rightarrow> ('a proc_state_scheme, usize option) kop" where
  "fetch_usize k off = bnd (getp k id) (\<lambda>p. case fetch_range p off 8 of None \<Rightarrow> ret None
     | Some _ \<Rightarrow> bnd (lift_res (\<lambda>s. hw_loads (root_of p) off 8 (mem s))) (\<lambda>bs.
         ret (Some (of_nat (from_le bs)))))"

definition fetch_str :: "nat \<Rightarrow> usize \<Rightarrow> ('a proc_state_scheme, bytes option) kop" where
  "fetch_str k off = bnd (getp k id) (\<lambda>p. case user_region_end p off of None \<Rightarrow> ret None
     | Some rend \<Rightarrow> lift_res (\<lambda>s. hw_scan (root_of p) off (unat (rend - off)) (mem s)))"

definition fetch_slice :: "nat \<Rightarrow> usize \<Rightarrow> usize \<Rightarrow> ('a proc_state_scheme, (usize \<times> usize) option) kop" where
  "fetch_slice k off len = getp k (\<lambda>p. fetch_range p off len)"

definition fetch_slice_mut :: "nat \<Rightarrow> usize \<Rightarrow> usize \<Rightarrow> ('a proc_state_scheme, (usize \<times> usize) option) kop" where
  "fetch_slice_mut k off len = getp k (\<lambda>p. fetch_range p off len)"

text \<open>\<open>fetch_ptr_mut\<close> for elements of \<open>sz\<close> bytes; the product is a checked multiplication.\<close>

definition fetch_ptr_mut :: "nat \<Rightarrow> nat \<Rightarrow> usize \<Rightarrow> usize \<Rightarrow> ('a proc_state_scheme, usize option) kop" where
  "fetch_ptr_mut sz k off len = bnd (getp k id) (\<lambda>p. case user_region_end p off of None \<Rightarrow> ret None
     | Some rend \<Rightarrow>
         seqk (assertk (unat len * sz < 2 ^ 64) ''attempt to multiply with overflow'')
         (ret (if unat len * sz > unat (rend - off) then None else Some off)))"

section \<open>Exit and wait\<close>

fun close_files :: "nat \<Rightarrow> nat list \<Rightarrow> ('a proc_state_scheme, unit) kop" where
  "close_files k [] = ret ()"
| "close_files k (fd # fds) = bnd (getp k (\<lambda>p. p_files p ! fd)) (\<lambda>fo. case fo of
     None \<Rightarrow> close_files k fds
   | Some f \<Rightarrow> seqk (modp k (\<lambda>p. p\<lparr>p_files := (p_files p)[fd := None]\<rparr>))
       (seqk (as_proc k (file_close f)) (close_files k fds)))"

definition put_cwd :: "nat \<Rightarrow> ('a proc_state_scheme, unit) kop" where
  "put_cwd k = bnd (getp k p_cwd) (\<lambda>c. seqk (modp k (\<lambda>p. p\<lparr>p_cwd := None\<rparr>))
     (case c of None \<Rightarrow> panic ''unwrap on None''
      | Some ip \<Rightarrow> as_proc k (expectk ''iput cwd'' (inode_put ip))))"

fun reparent :: "usize \<Rightarrow> usize \<Rightarrow> nat list \<Rightarrow> ('a proc_state_scheme, unit) kop" where
  "reparent c ic [] = ret ()"
| "reparent c ic (j # js) = seqk (bnd (getp j id) (\<lambda>p.
     if initialized p \<and> parent_of p = c
     then seqk (modp j (\<lambda>p. p\<lparr>p_parent := Some ic\<rparr>))
       (case p_state p of ZOMBIE _ \<Rightarrow> wakeup1 ic | _ \<Rightarrow> ret ()) else ret ()))
     (reparent c ic js)"

text \<open>The part of \<open>exit\<close> under the table's lock.\<close>

definition exit_table :: "nat \<Rightarrow> u32 \<Rightarrow> ('a proc_state_scheme, unit) kop" where
  "exit_table k status = bnd (gets (as_chan k)) (\<lambda>c.
     seqk (bnd (getp k parent_of) wakeup1)
     (bnd init_chan (\<lambda>ic. bnd (gets (\<lambda>s. length (procs s))) (\<lambda>n.
      seqk (reparent c ic [0..<n])
      (seqk (modp k (\<lambda>p. p\<lparr>p_state := ZOMBIE status\<rparr>)) (sched True 1 False k))))))"

definition exit :: "nat \<Rightarrow> u32 \<Rightarrow> ('a proc_state_scheme, unit) kop" where
  "exit k status =
     seqk (bnd (gets (as_chan k)) (\<lambda>c. bnd init_chan (\<lambda>ic. assertk (c \<noteq> ic) ''init exiting'')))
     (bnd (getp k (\<lambda>p. length (p_files p))) (\<lambda>n.
      seqk (close_files k [0..<n])
      (seqk (with_op (put_cwd k)) (exit_table k status))))"

text \<open>\<open>die_if_dead\<close> does not return when the process exits: the result \<open>True\<close>.\<close>

definition die_if_dead :: "nat option \<Rightarrow> ('a proc_state_scheme, bool) kop" where
  "die_if_dead me = (case me of None \<Rightarrow> ret False
     | Some k \<Rightarrow> bnd (getp k p_killed) (\<lambda>d. if d then seqk (exit k 1) (ret True) else ret False))"

datatype wait_status = WGot u32 u32 usize usize | WNone | WSleepKids

definition reap :: "nat \<Rightarrow> u32 \<Rightarrow> ('a proc_state_scheme, wait_status) kop" where
  "reap j status = bnd (getp j id) (\<lambda>p. case pd_kstack p of None \<Rightarrow> panic ''stackless zombie''
     | Some ks \<Rightarrow> (case pd_pgtbl p of None \<Rightarrow> panic ''stranded zombie''
     | Some pt \<Rightarrow>
         seqk (modp j (\<lambda>p. p\<lparr>pd_kstack := None, pd_pgtbl := None, pd_name := replicate 16 0, p_pid := 0,
                  p_parent := None, p_killed := False, p_size := 0, p_state := UNUSED\<rparr>))
         (ret (WGot (p_pid p) status ks pt))))"

fun scan_kids :: "usize \<Rightarrow> bool \<Rightarrow> nat list \<Rightarrow> ('a proc_state_scheme, wait_status) kop" where
  "scan_kids c have_kids [] = ret (if have_kids then WSleepKids else WNone)"
| "scan_kids c have_kids (j # js) = bnd (getp j id) (\<lambda>p.
     if \<not> initialized p \<or> parent_of p \<noteq> c then scan_kids c have_kids js
     else case p_state p of ZOMBIE status \<Rightarrow> reap j status | _ \<Rightarrow> scan_kids c True js)"

text \<open>One round of the loop of \<open>wait1\<close>: a child, no child, or asleep until a child exits.\<close>

definition wait1 :: "nat \<Rightarrow> ('a proc_state_scheme, wait_status) kop" where
  "wait1 k = bnd (gets (as_chan k)) (\<lambda>c. bnd (gets (\<lambda>s. length (procs s))) (\<lambda>n.
     bnd (scan_kids c False [0..<n]) (\<lambda>r. case r of
       WSleepKids \<Rightarrow> bnd (getp k p_killed) (\<lambda>d.
         if d then ret WNone else seqk (psleep k c) (ret WSleepKids))
     | _ \<Rightarrow> ret r)))"

definition wait :: "nat \<Rightarrow> usize \<Rightarrow> ('a proc_state_scheme, u32 option option) kop" where
  "wait k status_ptr = bnd (fetch_ptr_mut 4 k status_ptr 1) (\<lambda>sp. case sp of
     None \<Rightarrow> ret (Some None)
   | Some statusp \<Rightarrow> bnd (wait1 k) (\<lambda>r. case r of
       WNone \<Rightarrow> ret (Some None)
     | WSleepKids \<Rightarrow> ret None
     | WGot pid status ks pt \<Rightarrow>
         seqk (on_mem (kfree ks)) (seqk (on_mem (vm_free pt))
         (seqk (if statusp = 0 then bnd (getp k root_of) (\<lambda>root.
                  on_mem (hw_stores root statusp (to_le 4 (unat status)))) else ret ())
         (ret (Some (Some pid)))))))"

section \<open>File descriptors\<close>

definition get_fd :: "nat \<Rightarrow> usize \<Rightarrow> ('a proc_state_scheme, nat option) kop" where
  "get_fd k fd = getp k (\<lambda>p. if unat fd \<ge> length (p_files p) then None else p_files p ! unat fd)"

definition alloc_fd :: "nat \<Rightarrow> nat \<Rightarrow> ('a proc_state_scheme, nat option) kop" where
  "alloc_fd k f = bnd (getp k p_files) (\<lambda>fs. case position (\<lambda>x. x = None) fs of
     None \<Rightarrow> ret None
   | Some fd \<Rightarrow> seqk (modp k (\<lambda>p. p\<lparr>p_files := fs[fd := Some f]\<rparr>)) (ret (Some fd)))"

definition free_fd :: "nat \<Rightarrow> usize \<Rightarrow> ('a proc_state_scheme, nat option) kop" where
  "free_fd k fd = bnd (getp k p_files) (\<lambda>fs.
     if unat fd \<ge> length fs then ret None
     else seqk (modp k (\<lambda>p. p\<lparr>p_files := fs[unat fd := None]\<rparr>)) (ret (fs ! unat fd)))"

section \<open>The first process\<close>

text \<open>\<open>firstret\<close>: the first process brings up the file system and takes the root as its directory.\<close>

definition firstret :: "nat \<Rightarrow> ('a proc_state_scheme, unit) kop" where
  "firstret k =
     seqk (fs_init ROOTDEV)
     (bnd (gets the_sb) (\<lambda>sb. seqk (fslog_init ROOTDEV (sb_log_start sb) (unat (sb_nlog sb)))
     (bnd (expectk ''root filesystem exists'' (as_proc k (namei [slash]))) (\<lambda>ip.
       modp k (\<lambda>p. p\<lparr>p_cwd := Some ip\<rparr>)))))"

end
