(* ===== verification/ProcProps.thy ===== *)
theory ProcProps
  imports Proc
begin

text \<open>
  Properties of processes: what waking, killing, exiting and waiting do to the table, and the bounds
  of user memory accesses.
\<close>

section \<open>Bounds of user memory\<close>

lemma region_bounds:
  assumes "user_region_end p off = Some rend" "i < rend - off"
  shows "is_user_addr p (off + i)"
proof -
  have lt: "off < rend" "rend = p_size p \<or> (USERSTACK \<le> off \<and> rend = USEREND)"
    using assms(1) by (auto simp: user_region_end_def is_user_addr_def split: if_splits)
  then have "unat (rend - off) = unat rend - unat off" by (simp add: unat_sub)
  then have i: "unat i + unat off < unat rend" using assms(2) by (simp add: word_less_nat_alt)
  have "unat off + unat i < 2 ^ 64" using order.strict_trans [OF i, of "2 ^ 64"] by (simp add: add.commute)
  then have u: "unat (off + i) = unat off + unat i" by (rule unat_add64_small)
  then have "off + i < rend" "off \<le> off + i" using i by (simp_all add: word_less_nat_alt word_le_nat_alt)
  then show ?thesis using lt(2) by (auto simp: is_user_addr_def)
qed

text \<open>
  C32: A range of user memory that the checks on system call arguments accept lies in the process:
  each of its addresses is below the process's size or in its stack, whatever the length, with no
  wrap-around of the address arithmetic.
\<close>
theorem fetch_range_sound:
  assumes "fetch_range p off len = Some r" "i < len"
  shows "is_user_addr p (off + i)"
proof -
  obtain rend where "user_region_end p off = Some rend" "\<not> rend - off < len"
    using assms(1) by (auto simp: fetch_range_def split: option.splits if_splits)
  then show ?thesis using assms(2) by (intro region_bounds) auto
qed

theorem fetch_range_sound_witness:
  "is_user_addr (proc_new\<lparr>p_size := 0x2000\<rparr>) (0x1FF0 + 0xF)"
  by (rule fetch_range_sound [of _ _ 16 "(0x1FF0, 16)"])
    (simp_all add: fetch_range_def user_region_end_def is_user_addr_def proc_new_def)

section \<open>Exit and wait\<close>

lemma length_wakeup [simp]: "length (procs (s\<lparr>procs := map f (procs s)\<rparr>)) = length (procs s)"
  by simp

lemma wake_one_fields [simp]:
  "p_parent (wake_one c p) = p_parent p" "p_pid (wake_one c p) = p_pid p" "p_killed (wake_one c p) = p_killed p"
  "pd_pgtbl (wake_one c p) = pd_pgtbl p" "pd_kstack (wake_one c p) = pd_kstack p"
  "parent_of (wake_one c p) = parent_of p" "initialized (wake_one c p) = initialized p"
  "p_state (wake_one c p) = (if p_state p = SLEEPING c then RUNNABLE else p_state p)"
  by (auto simp: wake_one_def parent_of_def initialized_def)

text \<open>The effect of a list of wakeups and of a change of parent on one entry.\<close>

definition reparented :: "usize \<Rightarrow> usize \<Rightarrow> proc \<Rightarrow> proc" where
  "reparented c ic p = (if initialized p \<and> parent_of p = c then p\<lparr>p_parent := Some ic\<rparr> else p)"

definition same_but_woken :: "usize \<Rightarrow> proc \<Rightarrow> proc \<Rightarrow> bool" where
  "same_but_woken ic p q \<longleftrightarrow> q = p \<or> q = wake_one ic p"

lemma wake_one_idem [simp]: "wake_one c (wake_one c p) = wake_one c p"
  by (simp add: wake_one_def)

lemma same_but_woken_wake: "same_but_woken ic p q \<Longrightarrow> same_but_woken ic p (wake_one ic q)"
  by (auto simp: same_but_woken_def)

lemma reparented_wake_one: "reparented c ic (wake_one w p) = wake_one w (reparented c ic p)"
  by (cases "p_state p = SLEEPING w") (simp_all add: reparented_def wake_one_def initialized_def parent_of_def)

lemma reparented_woken:
  "same_but_woken ic p q \<Longrightarrow> same_but_woken ic (reparented c ic p) (reparented c ic q)"
  by (elim disjE [OF same_but_woken_def [THEN iffD1]])
    (simp_all add: same_but_woken_def reparented_wake_one)

lemma reparent_spec:
  "distinct js \<Longrightarrow> (\<forall>j \<in> set js. j < length (procs s)) \<Longrightarrow>
   \<exists>ps. reparent c ic js s = (Ok (), s\<lparr>procs := ps\<rparr>) \<and> length ps = length (procs s) \<and>
     (\<forall>j < length ps. same_but_woken ic
        (if j \<in> set js then reparented c ic (procs s ! j) else procs s ! j) (ps ! j))"
proof (induction js arbitrary: s)
  case Nil
  then show ?case by (intro exI [of _ "procs s"]) (simp add: kop_simps same_but_woken_def)
next
  case (Cons j js)
  let ?p = "procs s ! j"
  define f where "f = (if initialized ?p \<and> parent_of ?p = c \<and> (\<exists>st. p_state ?p = ZOMBIE st)
    then wake_one ic else id)"
  define ps where "ps = map f ((procs s)[j := reparented c ic ?p])"
  have run: "reparent c ic (j # js) s = reparent c ic js (s\<lparr>procs := ps\<rparr>)"
  proof (cases "initialized ?p \<and> parent_of ?p = c")
    case True
    then show ?thesis
      by (cases "p_state ?p")
        (simp_all add: getp_def modp_def wakeup1_def kop_direct kop_simps ps_def f_def reparented_def)
  next
    case False
    then have "f = id" "reparented c ic ?p = ?p" by (auto simp: f_def reparented_def)
    then have same: "ps = procs s" by (simp add: ps_def)
    have "reparent c ic (j # js) s = reparent c ic js s"
      unfolding reparent.simps seqk_def bnd_def getp_def gets_def ret_def using False by auto
    then show ?thesis by (simp add: same)
  qed
  have fw: "same_but_woken ic x (f x)" for x by (simp add: same_but_woken_def f_def)
  have j: "j < length (procs s)" "j \<notin> set js" using Cons.prems by auto
  have sel: "procs (s\<lparr>procs := ps\<rparr>) = ps" by simp
  have len: "length ps = length (procs s)" by (simp add: ps_def)
  have "\<exists>qs. reparent c ic js (s\<lparr>procs := ps\<rparr>) = (Ok (), s\<lparr>procs := ps\<rparr>\<lparr>procs := qs\<rparr>) \<and>
    length qs = length ps \<and> (\<forall>i < length qs. same_but_woken ic
      (if i \<in> set js then reparented c ic (ps ! i) else ps ! i) (qs ! i))"
    using Cons.prems len by (intro Cons.IH [of "s\<lparr>procs := ps\<rparr>", unfolded sel]) auto
  then obtain qs where qs: "reparent c ic js (s\<lparr>procs := ps\<rparr>) = (Ok (), s\<lparr>procs := qs\<rparr>)"
    "length qs = length (procs s)"
    "\<And>i. i < length qs \<Longrightarrow> same_but_woken ic (if i \<in> set js then reparented c ic (ps ! i) else ps ! i) (qs ! i)"
    using len by auto
  have "same_but_woken ic (if i \<in> set (j # js) then reparented c ic (procs s ! i) else procs s ! i) (qs ! i)"
    if i: "i < length qs" for i
  proof -
    have "same_but_woken ic (if i = j then reparented c ic ?p else procs s ! i) (ps ! i)"
      using fw i j qs(2) by (simp add: ps_def nth_list_update)
    then show ?thesis
      using qs(3) [OF i] j reparented_woken [of ic "procs s ! i" "ps ! i" c]
      by (auto simp: same_but_woken_def split: if_splits)
  qed
  then show ?case using run qs(1,2) by (intro exI [of _ qs]) (simp del: reparent.simps)
qed

text \<open>What \<open>exit\<close> does to each entry of the table.\<close>

definition exited :: "usize \<Rightarrow> usize \<Rightarrow> proc \<Rightarrow> proc \<Rightarrow> bool" where
  "exited c ic p q \<longleftrightarrow> p_pid q = p_pid p \<and> pd_kstack q = pd_kstack p \<and> pd_pgtbl q = pd_pgtbl p \<and>
     p_parent q = (if initialized p \<and> parent_of p = c then Some ic else p_parent p)"

lemma exited_state [simp]: "exited c ic p (q\<lparr>p_state := x\<rparr>) = exited c ic p q"
  by (simp add: exited_def)

lemma same_but_woken_exited:
  "same_but_woken ic (reparented c ic (wake_one w p)) q \<Longrightarrow> exited c ic p q"
  by (elim disjE [OF same_but_woken_def [THEN iffD1]]) (simp_all add: reparented_def exited_def)

lemma same_but_woken_state:
  "same_but_woken ic (reparented c ic (wake_one w p)) q \<Longrightarrow>
   (p_state p = SLEEPING w \<longrightarrow> p_state q = RUNNABLE) \<and>
   (\<forall>x. p_state q = ZOMBIE x \<longleftrightarrow> p_state p = ZOMBIE x)"
  by (elim disjE [OF same_but_woken_def [THEN iffD1]]) (simp_all add: reparented_def)

lemma exit_table_run:
  assumes k: "k < length (procs s)" and ic: "init_proc_chan s \<noteq> 0"
  obtains qs where
    "exit_table k status s = (Ok (), s\<lparr>procs := qs[k := (qs ! k)\<lparr>p_state := ZOMBIE status\<rparr>]\<rparr>)"
    "length qs = length (procs s)"
    "\<And>j. j < length qs \<Longrightarrow> same_but_woken (init_proc_chan s)
       (reparented (as_chan k s) (init_proc_chan s) (wake_one (parent_of (procs s ! k)) (procs s ! j))) (qs ! j)"
proof -
  let ?w = "parent_of (procs s ! k)" and ?c = "as_chan k s" and ?ic = "init_proc_chan s"
  let ?s1 = "s\<lparr>procs := map (wake_one ?w) (procs s)\<rparr>"
  obtain qs where qs: "reparent ?c ?ic [0..<length (procs s)] ?s1 = (Ok (), ?s1\<lparr>procs := qs\<rparr>)"
    "length qs = length (procs s)" and
    "\<And>j. j < length qs \<Longrightarrow> same_but_woken ?ic (if j \<in> set [0..<length (procs s)]
       then reparented ?c ?ic (procs ?s1 ! j) else procs ?s1 ! j) (qs ! j)"
    using reparent_spec [of "[0..<length (procs s)]" ?s1 ?c ?ic] by auto
  then have woken: "same_but_woken ?ic (reparented ?c ?ic (wake_one ?w (procs s ! j))) (qs ! j)"
    if "j < length qs" for j using that by force
  have "exit_table k status s = (Ok (), s\<lparr>procs := qs[k := (qs ! k)\<lparr>p_state := ZOMBIE status\<rparr>]\<rparr>)"
    using qs k ic by (simp add: exit_table_def init_chan_def sched_def wakeup1_def getp_def modp_def
        kop_direct kop_simps)
  then show thesis using that qs(2) woken by blast
qed

lemma exit_table_spec:
  assumes k: "k < length (procs s)" and ic: "init_proc_chan s \<noteq> 0"
  obtains ps where "exit_table k status s = (Ok (), s\<lparr>procs := ps\<rparr>)" "length ps = length (procs s)"
    "p_state (ps ! k) = ZOMBIE status"
    "\<And>j. j < length ps \<Longrightarrow> exited (as_chan k s) (init_proc_chan s) (procs s ! j) (ps ! j)"
    "\<And>j. j < length ps \<Longrightarrow> j \<noteq> k \<Longrightarrow> p_state (procs s ! j) = SLEEPING (parent_of (procs s ! k)) \<Longrightarrow>
       p_state (ps ! j) = RUNNABLE"
    "\<And>j x. j < length ps \<Longrightarrow> j \<noteq> k \<Longrightarrow> p_state (ps ! j) = ZOMBIE x \<longleftrightarrow> p_state (procs s ! j) = ZOMBIE x"
proof -
  let ?w = "parent_of (procs s ! k)" and ?c = "as_chan k s" and ?ic = "init_proc_chan s"
  obtain qs where run: "exit_table k status s = (Ok (), s\<lparr>procs := qs[k := (qs ! k)\<lparr>p_state := ZOMBIE status\<rparr>]\<rparr>)"
    and len: "length qs = length (procs s)"
    and woken: "\<And>j. j < length qs \<Longrightarrow> same_but_woken ?ic (reparented ?c ?ic (wake_one ?w (procs s ! j))) (qs ! j)"
    by (rule exit_table_run [OF assms, of status]) (rule that; assumption)
  let ?ps = "qs[k := (qs ! k)\<lparr>p_state := ZOMBIE status\<rparr>]"
  note ex = same_but_woken_exited [OF woken] and st = same_but_woken_state [OF woken]
  have "exited ?c ?ic (procs s ! j) (?ps ! j)" if "j < length ?ps" for j
    using ex [of j] that by (cases "j = k") simp_all
  moreover have "p_state (?ps ! j) = RUNNABLE"
    if "j < length ?ps" "j \<noteq> k" "p_state (procs s ! j) = SLEEPING ?w" for j
    using st [of j] that by simp
  moreover have "p_state (?ps ! j) = ZOMBIE x \<longleftrightarrow> p_state (procs s ! j) = ZOMBIE x"
    if "j < length ?ps" "j \<noteq> k" for j x
    using st [of j] that by simp
  ultimately show thesis using k len run by (intro that [of ?ps]) simp_all
qed

lemma scan_kids_finds:
  assumes "k \<in> set js" "distinct js" "p_state (procs s ! k) = ZOMBIE status" "parent_of (procs s ! k) = c"
    "\<And>j x. j \<in> set js \<Longrightarrow> j \<noteq> k \<Longrightarrow> parent_of (procs s ! j) = c \<Longrightarrow> p_state (procs s ! j) \<noteq> ZOMBIE x"
  shows "scan_kids c h js s = reap k status s"
  using assms
proof (induction js arbitrary: h)
  case Nil
  then show ?case by simp
next
  case (Cons j js)
  show ?case
  proof (cases "j = k")
    case True
    then show ?thesis using Cons.prems by (simp add: getp_def kop_direct initialized_def)
  next
    case False
    have rest: "scan_kids c h' js s = reap k status s" for h'
      using Cons.prems False by (intro Cons.IH) auto
    show ?thesis
      using Cons.prems(5) [of j] False
      by (cases "p_state (procs s ! j)") (auto simp: getp_def kop_direct initialized_def rest)
  qed
qed

lemma reap_run:
  "pd_kstack (procs s ! j) = Some ks \<Longrightarrow> pd_pgtbl (procs s ! j) = Some pt \<Longrightarrow>
   reap j status s = (Ok (WGot (p_pid (procs s ! j)) status ks pt),
     s\<lparr>procs := (procs s)[j := (procs s ! j)\<lparr>pd_kstack := None, pd_pgtbl := None, pd_name := replicate 16 0,
        p_pid := 0, p_parent := None, p_killed := False, p_size := 0, p_state := UNUSED\<rparr>]\<rparr>)"
  by (simp add: reap_def getp_def modp_def kop_direct kop_simps)

text \<open>
  C7: The exit of a process reaches the parent that waits for it. If process \<open>k\<close> has parent \<open>q\<close>,
  which sleeps on its own channel in \<open>wait\<close>, then \<open>exit\<close> of \<open>k\<close> makes the parent runnable, and the
  parent's next look at the table returns \<open>k\<close>'s pid, its exit status, and its kernel stack and page
  table to be freed, and leaves the entry of \<open>k\<close> unused and every other entry as it was. (No other
  exited child of \<open>q\<close> or of \<open>k\<close> is waiting to be collected.)
\<close>
theorem exit_wait_handshake:
  assumes kq: "k < length (procs s)" "q < length (procs s)" "k \<noteq> q" "as_chan k s \<noteq> as_chan q s"
    and parent: "p_parent (procs s ! k) = Some (as_chan q s)" "p_state (procs s ! q) = SLEEPING (as_chan q s)"
    and res: "pd_kstack (procs s ! k) = Some ks" "pd_pgtbl (procs s ! k) = Some pt"
    and ic: "init_proc_chan s \<noteq> 0"
    and others: "\<And>j x. j < length (procs s) \<Longrightarrow> j \<noteq> k \<Longrightarrow>
      parent_of (procs s ! j) \<in> {as_chan q s, as_chan k s} \<Longrightarrow> p_state (procs s ! j) \<noteq> ZOMBIE x"
  shows "\<exists>t u. exit_table k status s = (Ok (), t) \<and> p_state (procs t ! q) = RUNNABLE \<and>
    wait1 q t = (Ok (WGot (p_pid (procs s ! k)) status ks pt), u) \<and>
    p_state (procs u ! k) = UNUSED \<and> (\<forall>j. j \<noteq> k \<longrightarrow> procs u ! j = procs t ! j)"
proof -
  have par: "parent_of (procs s ! k) = as_chan q s" using parent(1) by (simp add: parent_of_def)
  obtain ps where ps: "exit_table k status s = (Ok (), s\<lparr>procs := ps\<rparr>)" "length ps = length (procs s)"
    "p_state (ps ! k) = ZOMBIE status"
    and ex: "\<And>j. j < length ps \<Longrightarrow> exited (as_chan k s) (init_proc_chan s) (procs s ! j) (ps ! j)"
    and slept: "\<And>j. j < length ps \<Longrightarrow> j \<noteq> k \<Longrightarrow> p_state (procs s ! j) = SLEEPING (parent_of (procs s ! k)) \<Longrightarrow>
       p_state (ps ! j) = RUNNABLE"
    and st: "\<And>j x. j < length ps \<Longrightarrow> j \<noteq> k \<Longrightarrow> p_state (ps ! j) = ZOMBIE x \<longleftrightarrow> p_state (procs s ! j) = ZOMBIE x"
    by (rule exit_table_spec [OF kq(1) ic, of status]) (rule that; assumption)
  let ?t = "s\<lparr>procs := ps\<rparr>"
  have chan: "as_chan q ?t = as_chan q s" by (simp add: as_chan_def)
  have k: "p_pid (ps ! k) = p_pid (procs s ! k)" "pd_kstack (ps ! k) = Some ks" "pd_pgtbl (ps ! k) = Some pt"
    "parent_of (ps ! k) = as_chan q s"
    using ex [of k] kq ps(2) res par by (auto simp: exited_def parent_of_def parent(1))
  have "p_state (ps ! j) \<noteq> ZOMBIE x" if "j < length ps" "j \<noteq> k" "parent_of (ps ! j) = as_chan q s" for j x
  proof -
    have "parent_of (procs s ! j) \<in> {as_chan q s, as_chan k s}"
      using ex [of j] that by (auto simp: exited_def parent_of_def split: if_splits)
    then show ?thesis using st [of j] others [of j] that ps(2) by simp
  qed
  then have "scan_kids (as_chan q s) False [0..<length ps] ?t = reap k status ?t"
    using ps k kq by (intro scan_kids_finds) auto
  then show ?thesis
    using ps slept [of q] kq parent(2) par k chan
    by (simp add: wait1_def kop_direct bnd_run basic_run reap_run del: upt_Suc)
qed

text \<open>A table with \<open>init\<close> and a process asleep in \<open>wait\<close> whose child runs.\<close>

definition family_kernel :: proc_state where
  "family_kernel = file_state.extend pipe_kernel (proc_state.fields
     ([proc_new\<lparr>p_state := RUNNABLE, p_pid := 1, p_parent := Some 0x8000, pd_kstack := Some 0x10000,
         pd_pgtbl := Some 0x11000\<rparr>,
       proc_new\<lparr>p_state := SLEEPING 0x8300, p_pid := 2, p_parent := Some 0x8000, pd_kstack := Some 0x12000,
         pd_pgtbl := Some 0x13000\<rparr>,
       proc_new\<lparr>p_state := RUNNING, p_pid := 3, p_parent := Some 0x8300, pd_kstack := Some 0x14000,
         pd_pgtbl := Some 0x15000\<rparr>] @ replicate 253 proc_new)
     4 0x8000 0x8000 0x300 0x1000 0x90000 0x91000 0x92000)"

lemma family_fields:
  "init_proc_chan family_kernel = 0x8000" "length (procs family_kernel) = NPROC"
  "as_chan 0 family_kernel = 0x8000" "as_chan 1 family_kernel = 0x8300" "as_chan 2 family_kernel = 0x8600"
  "p_parent (procs family_kernel ! 2) = Some 0x8300" "p_state (procs family_kernel ! 1) = SLEEPING 0x8300"
  "pd_kstack (procs family_kernel ! 2) = Some 0x14000" "pd_pgtbl (procs family_kernel ! 2) = Some 0x15000"
  "p_pid (procs family_kernel ! 2) = 3"
  by (simp_all add: family_kernel_def as_chan_def proc_new_def file_state.defs proc_state.defs)

lemma family_no_zombie: "j < NPROC \<Longrightarrow> p_state (procs family_kernel ! j) \<noteq> ZOMBIE x"
  by (simp add: family_kernel_def proc_new_def file_state.defs proc_state.defs nth_Cons' nth_append)

theorem exit_wait_handshake_witness:
  "\<exists>t u. exit_table 2 7 family_kernel = (Ok (), t) \<and> p_state (procs t ! 1) = RUNNABLE \<and>
    wait1 1 t = (Ok (WGot 3 7 0x14000 0x15000), u) \<and> p_state (procs u ! 2) = UNUSED"
  using exit_wait_handshake [of 2 family_kernel 1 "0x14000" "0x15000" 7]
  by (auto simp: family_fields family_no_zombie simp del: One_nat_def)

section \<open>The status of an exited child\<close>

lemma seqk_ret: "seqk (ret x) m = m"
  by (simp add: fun_eq_iff seqk_def bnd_def ret_def)

text \<open>
  C38: \<open>wait\<close> with a pointer for the status never stores it: the test for a null pointer is the wrong
  way round, so once a child is collected the call only frees its stack and its address space and
  returns the pid, whatever the status was.
\<close>
theorem wait_status_not_stored:
  assumes "is_user_addr (procs s ! k) sp" "the (user_region_end (procs s ! k) sp) - sp \<ge> 4" "sp \<noteq> 0"
    and "wait1 k s = (Ok (WGot pid status ks pt), t)"
  shows "wait k sp s = seqk (on_mem (kfree ks)) (seqk (on_mem (vm_free pt)) (ret (Some (Some pid)))) t"
proof -
  have "fetch_ptr_mut 4 k sp 1 s = (Ok (Some sp), s)"
    using assms(1,2) by (simp add: fetch_ptr_mut_def getp_def user_region_end_def kop_direct basic_run
        word_le_nat_alt not_less)
  then show ?thesis using assms(3,4) by (simp add: wait_def bnd_run seqk_ret)
qed

text \<open>\<open>family_kernel\<close> after the child's exit.\<close>

definition orphan_kernel :: proc_state where
  "orphan_kernel = family_kernel\<lparr>procs := (procs family_kernel)[2 := (procs family_kernel ! 2)\<lparr>p_state := ZOMBIE 7\<rparr>]\<rparr>"

theorem wait_status_not_stored_witness:
  "\<exists>t. wait 1 USERSTACK orphan_kernel =
     seqk (on_mem (kfree 0x14000)) (seqk (on_mem (vm_free 0x15000)) (ret (Some (Some 3)))) t"
proof -
  let ?s = "orphan_kernel"
  have f: "length (procs ?s) = NPROC" "as_chan 1 ?s = 0x8300"
    "p_state (procs ?s ! 2) = ZOMBIE 7" "parent_of (procs ?s ! 2) = 0x8300"
    "pd_kstack (procs ?s ! 2) = Some 0x14000" "pd_pgtbl (procs ?s ! 2) = Some 0x15000" "p_pid (procs ?s ! 2) = 3"
    "p_size (procs ?s ! 1) = 0"
    by (simp_all add: orphan_kernel_def family_kernel_def as_chan_def proc_new_def parent_of_def
        file_state.defs proc_state.defs)
  have "p_state (procs ?s ! j) \<noteq> ZOMBIE x" if "j < NPROC" "j \<noteq> 2" for j x
    using family_no_zombie [OF that(1)] that(2) by (simp add: orphan_kernel_def)
  then have "scan_kids 0x8300 False [0..<NPROC] ?s = reap 2 7 ?s"
    using f by (intro scan_kids_finds) (auto simp del: upt_conv_Cons)
  then obtain t where "wait1 1 ?s = (Ok (WGot 3 7 0x14000 0x15000), t)"
    using f by (simp add: wait1_def kop_direct bnd_run reap_run basic_run del: upt_Suc One_nat_def)
  then show ?thesis
    using wait_status_not_stored [of ?s 1 USERSTACK 3 7 "0x14000" "0x15000" t] f
    by (auto simp: is_user_addr_def user_region_end_def simp del: One_nat_def)
qed

section \<open>Killing\<close>

lemma on_mem_modify [kop_simps]:
  "on_mem (modify f) s = (Ok (), s\<lparr>kpipes := (kpipes s)\<lparr>kmem_of := f (kmem_of (kpipes s))\<rparr>\<rparr>)"
  by (simp add: on_mem_def on_pipes_def modify_def)

text \<open>
  \<open>kill\<close> takes the first entry of the table with the pid, in use or not. Entries not in use have
  pid 0, so \<open>kill(0)\<close> succeeds and marks a free entry, and since nothing clears the mark when the
  entry is taken, the next process that \<open>fork\<close> puts there is killed before it runs.
\<close>
theorem kill_zero_marks_free_entry:
  assumes "position (\<lambda>p. p_pid p = 0) (procs s) = Some k" "p_state (procs s ! k) = UNUSED"
  shows "\<exists>t. kill 0 s = (Ok (Some 0), t) \<and> p_state (procs t ! k) = UNUSED \<and>
    (\<forall>stack. \<exists>pid u. init_proc k stack t = (Ok pid, u) \<and> p_state (procs u ! k) = EMBRYO \<and> p_killed (procs u ! k))"
proof -
  let ?t = "s\<lparr>procs := (procs s)[k := (procs s ! k)\<lparr>p_killed := True\<rparr>]\<rparr>"
  have k: "k < length (procs s)" using position_bound [OF assms(1)] .
  have "kill 0 s = (Ok (Some 0), ?t)"
    using assms k by (simp add: kill_def kill_at_def modp_def kop_direct kop_simps)
  then show ?thesis using k assms(2)
    by (intro exI [of _ ?t]) (simp add: init_proc_def modp_def next_pid_def write_u64_def kop_direct kop_simps)
qed

theorem kill_zero_marks_free_entry_witness:
  "\<exists>t. kill 0 family_kernel = (Ok (Some 0), t) \<and> p_state (procs t ! 3) = UNUSED"
proof -
  have "position (\<lambda>p. p_pid p = 0) (procs family_kernel) = Some 3" "p_state (procs family_kernel ! 3) = UNUSED"
    unfolding position_Some
    by (simp_all add: family_kernel_def proc_new_def file_state.defs proc_state.defs 
        numeral_3_eq_3 less_Suc_eq nth_append)
  then show ?thesis using kill_zero_marks_free_entry by blast
qed

end
