(* ===== verification/ForkProps.thy ===== *)
theory ForkProps
  imports ProcProps
begin

text \<open>What \<open>fork\<close> does: the entry of the child, the references it takes, and what it leaves alone.\<close>

lemma on_mem_run: "on_mem m s = (fst (m (mem s)), s\<lparr>kpipes := (kpipes s)\<lparr>kmem_of := snd (m (mem s))\<rparr>\<rparr>)"
  by (simp add: on_mem_def on_pipes_def mem_def split: prod.splits)

definition set_mem :: "pagemem \<Rightarrow> 'a proc_state_scheme \<Rightarrow> 'a proc_state_scheme" where
  "set_mem m s = s\<lparr>kpipes := (kpipes s)\<lparr>kmem_of := m\<rparr>\<rparr>"

lemma on_mem_Ok: "m (mem s) = (r, m2) \<Longrightarrow> on_mem m s = (r, set_mem m2 s)"
  by (simp add: on_mem_run set_mem_def)

lemma set_mem_simps [simp]:
  "mem (set_mem m s) = m" "set_mem m (set_mem m1 s) = set_mem m s"
  "procs (set_mem m s) = procs s" "files (set_mem m s) = files s" "icache (set_mem m s) = icache s"
  "pid_next (set_mem m s) = pid_next s" "sym_syscallret (set_mem m s) = sym_syscallret s"
  "sym_forkret (set_mem m s) = sym_forkret s" "as_chan k (set_mem m s) = as_chan k s"
  by (simp_all add: set_mem_def mem_def as_chan_def)

lemma dup_files_run:
  assumes "\<And>f. Some f \<in> set fs \<Longrightarrow> f < length (files s) \<and> unat (ref_cnt (files s ! f)) + length fs < 2 ^ 32"
  shows "\<exists>F. dup_files fs s = (Ok fs, s\<lparr>files := F\<rparr>) \<and> length F = length (files s) \<and>
    (\<forall>f < length F. F ! f = (files s ! f)\<lparr>ref_cnt := ref_cnt (files s ! f) + of_nat (count_list fs (Some f))\<rparr>)"
  using assms
proof (induction fs arbitrary: s rule: dup_files.induct)
  case 1
  then show ?case by (intro exI [of _ "files s"]) (simp add: kop_simps)
next
  case (2 fs)
  obtain F where F: "dup_files fs s = (Ok fs, s\<lparr>files := F\<rparr>)" "length F = length (files s)"
    "\<forall>f < length F. F ! f = (files s ! f)\<lparr>ref_cnt := ref_cnt (files s ! f) + of_nat (count_list fs (Some f))\<rparr>"
    using "2.IH" [of s] "2.prems" by fastforce
  then show ?case by (intro exI [of _ F]) (simp add: bnd_run basic_run)
next
  case (3 f fs)
  let ?c = "ref_cnt (files s ! f)"
  have f: "f < length (files s)" "unat ?c + 1 < 2 ^ 32" using "3.prems" [of f] by simp_all
  let ?s = "with_refs f (?c + 1) s"
  have dup: "file_dup f s = (Ok f, ?s)" by (rule file_dup_run [OF f(2)])
  have uc: "unat (?c + 1) = unat ?c + 1" using f(2) by (simp add: unat_word_ariths)
  have refs: "files ?s ! g = (files s ! g)\<lparr>ref_cnt := ref_cnt (files s ! g) + (if g = f then 1 else 0)\<rparr>"
    if "g < length (files s)" for g using that by (simp add: with_refs_def)
  have "\<exists>F. dup_files fs ?s = (Ok fs, ?s\<lparr>files := F\<rparr>) \<and> length F = length (files ?s) \<and>
    (\<forall>g < length F. F ! g = (files ?s ! g)\<lparr>ref_cnt := ref_cnt (files ?s ! g) + of_nat (count_list fs (Some g))\<rparr>)"
  proof (rule "3.IH")
    fix g assume "Some g \<in> set fs"
    then have g: "g < length (files s)" "unat (ref_cnt (files s ! g)) + Suc (length fs) < 2 ^ 32"
      using "3.prems" [of g] by simp_all
    then show "g < length (files ?s) \<and> unat (ref_cnt (files ?s ! g)) + length fs < 2 ^ 32"
      using refs [OF g(1)] uc by (cases "g = f") simp_all
  qed
  then obtain F where F: "dup_files fs ?s = (Ok fs, s\<lparr>files := F\<rparr>)" "length F = length (files s)"
    "\<And>g. g < length F \<Longrightarrow> F ! g = (files ?s ! g)\<lparr>ref_cnt := ref_cnt (files ?s ! g) + of_nat (count_list fs (Some g))\<rparr>"
    by (auto simp: with_refs_def)
  have "F ! g = (files s ! g)\<lparr>ref_cnt := ref_cnt (files s ! g) + of_nat (count_list (Some f # fs) (Some g))\<rparr>"
    if "g < length F" for g using F(3) [OF that] refs [of g] that F(2) by auto
  then show ?case using dup F(1,2) by (intro exI [of _ F]) (simp add: bnd_run basic_run)
qed

definition put_u64 :: "usize \<Rightarrow> nat \<Rightarrow> u64 \<Rightarrow> pagemem \<Rightarrow> pagemem" where
  "put_u64 pg off v m = m\<lparr>pages := (pages m)(pg := overwrite (pages m pg) off (to_le 8 (unat v)))\<rparr>"

definition copy_frame :: "usize \<Rightarrow> usize \<Rightarrow> pagemem \<Rightarrow> pagemem" where
  "copy_frame src dst m = m\<lparr>pages := (pages m)(dst :=
     overwrite (pages m dst) TF_OFF (slice (pages m src) TF_OFF PAGE_SIZE))\<rparr>"

lemma on_mem_put: "on_mem (write_u64 pg off v) s = (Ok (), set_mem (put_u64 pg off v (mem s)) s)"
  by (simp add: write_u64_def on_mem_modify set_mem_def put_u64_def mem_def)

definition stack_init :: "usize \<Rightarrow> u64 \<Rightarrow> pagemem \<Rightarrow> pagemem" where
  "stack_init stack ra m = put_u64 stack CTX_OFF (stack + of_nat CTX_OFF) (put_u64 stack (TF_OFF - 8) ra m)"

definition embryo :: "usize \<Rightarrow> u32 \<Rightarrow> proc \<Rightarrow> proc" where
  "embryo stack pid p = p\<lparr>p_state := EMBRYO, pd_context := stack + of_nat CTX_OFF, pd_kstack := Some stack, p_pid := pid\<rparr>"

lemma set_mem_procs [simp]: "set_mem m (s\<lparr>procs := ps\<rparr>) = (set_mem m s)\<lparr>procs := ps\<rparr>"
  "set_mem m (s\<lparr>pid_next := n\<rparr>) = (set_mem m s)\<lparr>pid_next := n\<rparr>" "mem (s\<lparr>procs := ps\<rparr>) = mem s"
  "mem (s\<lparr>pid_next := n\<rparr>) = mem s" "mem (s\<lparr>files := F\<rparr>) = mem s" "mem (s\<lparr>icache := I\<rparr>) = mem s"
  by (simp_all add: set_mem_def mem_def)

lemma as_chan_update [simp]: "as_chan k (s\<lparr>procs := ps\<rparr>) = as_chan k s" "as_chan k (s\<lparr>pid_next := n\<rparr>) = as_chan k s"
  by (simp_all add: as_chan_def)

lemma init_proc_run:
  assumes "np < length (procs s)"
  shows "init_proc np stack s = (Ok (pid_next s), (set_mem (stack_init stack (sym_syscallret s) (mem s)) s)
    \<lparr>procs := (procs s)[np := embryo stack (pid_next s) (procs s ! np)], pid_next := pid_next s + 1\<rparr>)"
  using assms by (simp add: init_proc_def modp_def next_pid_def kop_direct on_mem_put seqk_run bnd_run basic_run
      stack_init_def embryo_def)

definition child_of :: "proc \<Rightarrow> usize \<Rightarrow> usize \<Rightarrow> proc \<Rightarrow> proc" where
  "child_of me c t p = (set_name (pd_name me) (p\<lparr>pd_pgtbl := Some t\<rparr>))
     \<lparr>p_parent := Some c, p_size := p_size me, p_files := p_files me, p_cwd := p_cwd me, p_state := RUNNABLE\<rparr>"

lemma inode_dup_run:
  "i_ref (icache s ! ip) \<noteq> - 1 \<Longrightarrow> inode_dup ip s =
    (Ok ip, s\<lparr>icache := (icache s)[ip := (icache s ! ip)\<lparr>i_ref := i_ref (icache s ! ip) + 1\<rparr>]\<rparr>)"
  by (simp add: inode_dup_def inc_ref_cnt_def geti_def modi_def kop_direct kop_simps)

lemma dup_pgtbl_run:
  assumes "pd_pgtbl (procs s ! k) = Some root" "dup root (p_size (procs s ! k)) (mem s) = (Ok t, m)"
  shows "dup_pgtbl k s = (Ok t, set_mem m s)"
  using assms by (simp add: dup_pgtbl_def getp_def kop_direct on_mem_Ok)

lemma copy_user_context_run:
  assumes "pd_kstack (procs s ! k) = Some ks" "pd_kstack (procs s ! np) = Some stack"
  shows "copy_user_context k np s = (Ok (), set_mem (copy_frame ks stack (mem s)) s)"
  using assms by (simp add: copy_user_context_def getp_def kop_direct on_mem_modify set_mem_def copy_frame_def mem_def)

lemma ctx_set_return_run:
  assumes "pd_context (procs s ! np) \<noteq> 0"
  shows "ctx_set_return np ra s = (Ok (), set_mem (put_u64 (page_round_down (pd_context (procs s ! np)))
    (unat (pd_context (procs s ! np) mod 4096) + 64) ra (mem s)) s)"
  using assms by (simp add: ctx_set_return_def getp_def kop_direct on_mem_put)

lemma context_address:
  assumes "stack mod 4096 = 0" "n < 4096"
  shows "page_round_down (stack + of_nat n) = stack" "unat ((stack + of_nat n) mod 4096) = n"
    "0 < n \<Longrightarrow> stack + of_nat n \<noteq> 0"
proof -
  have "unat stack mod 4096 = 0" using assms(1) unat_mod_distrib [of stack 4096] by simp
  then obtain q where q: "unat stack = 4096 * q" by (auto simp: mod_eq_0_iff_dvd)
  have "4096 * q < 2 ^ 64" using unat_less_pow64 [of stack] by (simp add: q)
  then have "q < 2 ^ 52" by simp
  then have sum: "unat (stack + of_nat n) = 4096 * q + n"
    using unat_add64_small [of stack "of_nat n"] assms(2) q by simp
  show "page_round_down (stack + of_nat n) = stack"
    unfolding word_unat_eq_iff unat_page_round_down sum q using assms(2) by simp
  show "unat ((stack + of_nat n) mod 4096) = n" using assms(2) by (simp add: unat_mod_distrib sum)
  show "0 < n \<Longrightarrow> stack + of_nat n \<noteq> 0" using sum by (metis add_is_0 less_numeral_extra(3) unat_0)
qed

text \<open>The state of a process that can be forked, and the room for what the child refers to.\<close>

definition forkable :: "nat \<Rightarrow> 'a proc_state_scheme \<Rightarrow> bool" where
  "forkable k s \<longleftrightarrow> k < length (procs s) \<and> p_state (procs s ! k) \<noteq> UNUSED \<and>
     (\<exists>ip. p_cwd (procs s ! k) = Some ip \<and> i_ref (icache s ! ip) \<noteq> - 1) \<and>
     (\<forall>f. Some f \<in> set (p_files (procs s ! k)) \<longrightarrow> f < length (files s) \<and>
        unat (ref_cnt (files s ! f)) + length (p_files (procs s ! k)) < 2 ^ 32)"

lemma fork_child_run:
  assumes fk: "forkable k s" "np < length (procs s)" "np \<noteq> k"
    and pt: "pd_pgtbl (procs s ! k) = Some root" "dup root (p_size (procs s ! k)) (mem s) = (Ok (Some t), m)"
    and ks: "pd_kstack (procs s ! k) = Some ks" "pd_kstack (procs s ! np) = Some stack"
    and ctx: "pd_context (procs s ! np) = stack + of_nat CTX_OFF" "stack mod 4096 = 0"
  shows "\<exists>F u. fork_child k np s = (Ok (Some ()), u) \<and>
    u = (set_mem (put_u64 stack (CTX_OFF + 64) (sym_forkret s) (copy_frame ks stack m)) s)
      \<lparr>procs := (procs s)[np := child_of (procs s ! k) (as_chan k s) t (procs s ! np)], files := F,
       icache := icache u\<rparr> \<and> length F = length (files s) \<and>
    (\<forall>f < length F. F ! f = (files s ! f)\<lparr>ref_cnt := ref_cnt (files s ! f) +
       of_nat (count_list (p_files (procs s ! k)) (Some f))\<rparr>)"
proof -
  let ?me = "procs s ! k"
  obtain ip where ip: "p_cwd ?me = Some ip" "i_ref (icache s ! ip) \<noteq> - 1" using fk(1) by (auto simp: forkable_def)
  have k: "k < length (procs s)" using fk(1) by (simp add: forkable_def)
  let ?m4 = "put_u64 stack (CTX_OFF + 64) (sym_forkret s) (copy_frame ks stack m)"
  define s5 where "s5 = (set_mem ?m4 s)\<lparr>procs := (procs s)[np := (set_name (pd_name ?me)
    ((procs s ! np)\<lparr>pd_pgtbl := Some t\<rparr>))\<lparr>p_parent := Some (as_chan k s), p_size := p_size ?me\<rparr>]\<rparr>"
  obtain F where F: "dup_files (p_files ?me) s5 = (Ok (p_files ?me), s5\<lparr>files := F\<rparr>)" "length F = length (files s)"
    "\<forall>f < length F. F ! f = (files s ! f)\<lparr>ref_cnt := ref_cnt (files s ! f) + of_nat (count_list (p_files ?me) (Some f))\<rparr>"
    using dup_files_run [of "p_files ?me" s5] fk(1) by (auto simp: forkable_def s5_def)
  note C = context_address [OF ctx(2), of CTX_OFF, simplified]
  have fields: "pd_kstack (set_name x p) = pd_kstack p" "pd_context (set_name x p) = pd_context p" for x p
    by (simp_all add: set_name_def)
  have "fork_child k np s = bnd (dup_files (p_files ?me)) (\<lambda>fs.
       seqk (modp np (\<lambda>p. p\<lparr>p_files := fs\<rparr>))
       (bnd (proc_cwd k) (\<lambda>ip. bnd (inode_dup ip) (\<lambda>ip1.
       seqk (modp np (\<lambda>p. p\<lparr>p_cwd := Some ip1, p_state := RUNNABLE\<rparr>))
       (ret (Some ())))))) s5"
    using k fk(2,3) ks ctx C
    by (simp add: fork_child_def bnd_run(1) [where m = "dup_pgtbl k", OF dup_pgtbl_run [OF pt]] getp_def modp_def
        kop_direct seqk_run copy_user_context_run ctx_set_return_run fields s5_def)
  also have "\<dots> = (Ok (Some ()), s5\<lparr>files := F, procs := (procs s)[np := child_of ?me (as_chan k s) t (procs s ! np)],
      icache := (icache s)[ip := (icache s ! ip)\<lparr>i_ref := i_ref (icache s ! ip) + 1\<rparr>]\<rparr>)"
    using F(1) ip k fk(2,3)
    by (simp add: bnd_run seqk_run kop_direct modp_def proc_cwd_def getp_def inode_dup_run basic_run s5_def child_of_def)
  finally show ?thesis using F(2,3) by (intro exI [of _ F] exI conjI) (auto simp: s5_def)
qed

lemma fork_child_fails:
  assumes "np < length (procs s)" "np \<noteq> k"
    and pt: "pd_pgtbl (procs s ! k) = Some root" "dup root (p_size (procs s ! k)) (mem s) = (Ok None, m)"
    and ks: "pd_kstack (procs s ! np) = Some stack" "kfree stack m = (Ok (), m2)"
  shows "fork_child k np s = (Ok None, (set_mem m2 s)
    \<lparr>procs := (procs s)[np := (procs s ! np)\<lparr>pd_kstack := None, p_state := UNUSED\<rparr>]\<rparr>)"
  using assms on_mem_Ok [of "kfree stack" "(set_mem m s)\<lparr>procs := (procs s)[np := (procs s ! np)\<lparr>pd_kstack := None\<rparr>]\<rparr>"]
  by (simp add: fork_child_def bnd_run(1) [where m = "dup_pgtbl k", OF dup_pgtbl_run [OF pt]] getp_def modp_def
      kop_direct seqk_run basic_run)

lemma slice_frame:
  assumes "length (pages m stack) = PAGE_SIZE" "length (pages m ks) = PAGE_SIZE"
  shows "slice (pages (put_u64 stack (CTX_OFF + 64) ra (copy_frame ks stack m)) stack) TF_OFF PAGE_SIZE =
    slice (pages m ks) TF_OFF PAGE_SIZE"
proof -
  let ?fr = "slice (pages m ks) TF_OFF PAGE_SIZE"
  have len: "length ?fr = TRAP_FRAME_SIZE" using assms(2) by simp
  have "slice (overwrite (pages m stack) TF_OFF ?fr) TF_OFF (TF_OFF + length ?fr) = ?fr"
    using assms(1) len by (intro slice_overwrite_same) simp
  then show ?thesis
    using assms(1) len by (simp add: put_u64_def copy_frame_def slice_overwrite_other)
qed

text \<open>The state in which the child's entry is filled in.\<close>

definition fork_start :: "nat \<Rightarrow> usize \<Rightarrow> pagemem \<Rightarrow> 'a proc_state_scheme \<Rightarrow> 'a proc_state_scheme" where
  "fork_start np stack m1 s = (set_mem (stack_init stack (sym_syscallret s) m1) s)
    \<lparr>procs := (procs s)[np := embryo stack (pid_next s) (procs s ! np)], pid_next := pid_next s + 1\<rparr>"

lemma fork_start_fields:
  assumes "np < length (procs s)" "np \<noteq> k"
  shows "procs (fork_start np stack m1 s) ! k = procs s ! k"
    "procs (fork_start np stack m1 s) ! np = embryo stack (pid_next s) (procs s ! np)"
    "\<And>j. j \<noteq> np \<Longrightarrow> procs (fork_start np stack m1 s) ! j = procs s ! j"
    "length (procs (fork_start np stack m1 s)) = length (procs s)" "files (fork_start np stack m1 s) = files s"
    "mem (fork_start np stack m1 s) = stack_init stack (sym_syscallret s) m1"
    "as_chan k (fork_start np stack m1 s) = as_chan k s" "forkable k (fork_start np stack m1 s) = forkable k s"
  using assms by (simp_all add: fork_start_def forkable_def)

lemma fork_run:
  assumes "position (\<lambda>p. p_state p = UNUSED) (procs s) = Some np" "kalloc (mem s) = (Some stack, m1)"
  shows "fork k s = and_then (fork_child k np) (\<lambda>_. ret (Some (pid_next s))) (fork_start np stack m1 s)"
proof -
  have "on_mem kalloc_op s = (Ok (Some stack), set_mem m1 s)" using assms(2) by (intro on_mem_Ok) (simp add: kalloc_op_def)
  then show ?thesis
    using assms(1) init_proc_run [of np "set_mem m1 s" stack] position_bound [OF assms(1)]
    by (simp add: fork_def proc_alloc_def and_then_def bnd_run kop_direct fork_start_def)
qed

lemma fork_succeeds:
  assumes fk: "forkable k s" and slot: "position (\<lambda>p. p_state p = UNUSED) (procs s) = Some np"
    and stk: "kalloc (mem s) = (Some stack, m1)" "stack mod 4096 = 0"
    and pt: "pd_pgtbl (procs s ! k) = Some root" "pd_kstack (procs s ! k) = Some ks"
    and dup: "dup root (p_size (procs s ! k)) (stack_init stack (sym_syscallret s) m1) = (Ok (Some t), m2)"
  obtains u where "fork k s = (Ok (Some (pid_next s)), u)"
    "procs u = (procs s)[np := child_of (procs s ! k) (as_chan k s) t (embryo stack (pid_next s) (procs s ! np))]"
    "mem u = put_u64 stack (CTX_OFF + 64) (sym_forkret s) (copy_frame ks stack m2)"
    "\<And>f. f < length (files s) \<Longrightarrow> ref_cnt (files u ! f) =
       ref_cnt (files s ! f) + of_nat (count_list (p_files (procs s ! k)) (Some f))"
proof -
  have np: "np < length (procs s)" "np \<noteq> k" using slot fk by (auto simp: position_Some forkable_def)
  define s2 where "s2 = fork_start np stack m1 s"
  note f2 = fork_start_fields [OF np, where stack = stack and ?m1.0 = m1, folded s2_def]
  have ps2: "procs s2 = (procs s)[np := embryo stack (pid_next s) (procs s ! np)]" "sym_forkret s2 = sym_forkret s"
    by (simp_all add: s2_def fork_start_def)
  have emb: "pd_kstack (procs s2 ! np) = Some stack" "pd_context (procs s2 ! np) = stack + of_nat CTX_OFF"
    by (simp_all add: f2 embryo_def)
  note run = fork_run [OF slot stk(1), of k, folded s2_def]
  obtain F u where u: "fork_child k np s2 = (Ok (Some ()), u)"
    "u = (set_mem (put_u64 stack (CTX_OFF + 64) (sym_forkret s2) (copy_frame ks stack m2)) s2)
      \<lparr>procs := (procs s2)[np := child_of (procs s2 ! k) (as_chan k s2) t (procs s2 ! np)], files := F,
       icache := icache u\<rparr>"
    and F: "length F = length (files s2)" "\<forall>f < length F. F ! f = (files s2 ! f)\<lparr>ref_cnt := ref_cnt (files s2 ! f) +
       of_nat (count_list (p_files (procs s2 ! k)) (Some f))\<rparr>"
    using fork_child_run [of k s2 np root t m2 ks stack] fk np pt dup f2 emb stk(2) by auto
  have eq: "procs u = (procs s2)[np := child_of (procs s ! k) (as_chan k s) t (procs s2 ! np)]" "files u = F"
    "mem u = put_u64 stack (CTX_OFF + 64) (sym_forkret s2) (copy_frame ks stack m2)"
    by (subst u(2), simp add: f2)+
  have "fork k s = (Ok (Some (pid_next s)), u)" using run u(1) by (simp add: and_then_def bnd_run basic_run)
  then show thesis using that eq F f2(1,2,5) ps2 by simp
qed

text \<open>
  C9: \<open>fork\<close> makes a copy of the calling process. It takes the first unused entry of the table and a page
  for the kernel stack. If the address space can be copied, the child is runnable, with the next pid,
  the caller as its parent, and the caller's size, open files and directory, its saved registers are
  the caller's, the count of every file is higher by the number of descriptors that refer to it, and
  no other entry has changed. If the address space cannot be copied, the stack is given back and the
  entry is unused again, and no file and no other entry has changed.
\<close>
theorem fork_creates_child:
  assumes fk: "forkable k s" and slot: "position (\<lambda>p. p_state p = UNUSED) (procs s) = Some np"
    and stk: "kalloc (mem s) = (Some stack, m1)" "stack mod 4096 = 0" "stack \<noteq> 0"
    and pt: "pd_pgtbl (procs s ! k) = Some root" "pd_kstack (procs s ! k) = Some ks"
    and dup: "dup root (p_size (procs s ! k)) (stack_init stack (sym_syscallret s) m1) = (Ok r, m2)" "pages_wf m2"
  shows "case r of
    Some t \<Rightarrow> \<exists>u. fork k s = (Ok (Some (pid_next s)), u) \<and> p_state (procs u ! np) = RUNNABLE \<and>
      p_pid (procs u ! np) = pid_next s \<and> p_parent (procs u ! np) = Some (as_chan k s) \<and>
      pd_pgtbl (procs u ! np) = Some t \<and> pd_kstack (procs u ! np) = Some stack \<and>
      p_size (procs u ! np) = p_size (procs s ! k) \<and> p_files (procs u ! np) = p_files (procs s ! k) \<and>
      p_cwd (procs u ! np) = p_cwd (procs s ! k) \<and>
      slice (pages (mem u) stack) TF_OFF PAGE_SIZE = slice (pages m2 ks) TF_OFF PAGE_SIZE \<and>
      (\<forall>f < length (files s). ref_cnt (files u ! f) =
         ref_cnt (files s ! f) + of_nat (count_list (p_files (procs s ! k)) (Some f))) \<and>
      (\<forall>j. j \<noteq> np \<longrightarrow> procs u ! j = procs s ! j)
  | None \<Rightarrow> \<exists>u. fork k s = (Ok None, u) \<and> p_state (procs u ! np) = UNUSED \<and> pd_kstack (procs u ! np) = None \<and>
      free_head (mem u) = stack \<and> files u = files s \<and> (\<forall>j. j \<noteq> np \<longrightarrow> procs u ! j = procs s ! j)"
proof -
  have np: "np < length (procs s)" "np \<noteq> k" using slot fk by (auto simp: position_Some forkable_def)
  define s2 where "s2 = fork_start np stack m1 s"
  note f2 = fork_start_fields [OF np, where stack = stack and ?m1.0 = m1, folded s2_def]
  have emb: "pd_kstack (procs s2 ! np) = Some stack" "pd_context (procs s2 ! np) = stack + of_nat CTX_OFF"
    "p_pid (procs s2 ! np) = pid_next s" by (simp_all add: f2 embryo_def)
  note run = fork_run [OF slot stk(1), of k, folded s2_def]
  show ?thesis
  proof (cases r)
    case None
    obtain m3 where m3: "kfree stack m2 = (Ok (), m3)" "free_head m3 = stack"
      using stk(2) by (simp add: kfree_def fl_put_def kop_direct basic_run Let_def)
    have "fork_child k np s2 = (Ok None, (set_mem m3 s2)
        \<lparr>procs := (procs s2)[np := (procs s2 ! np)\<lparr>pd_kstack := None, p_state := UNUSED\<rparr>]\<rparr>)"
      using np pt(1) dup(1) f2 emb None m3(1) by (intro fork_child_fails) simp_all
    then have "fork k s = (Ok None, (set_mem m3 s2)
        \<lparr>procs := (procs s2)[np := (procs s2 ! np)\<lparr>pd_kstack := None, p_state := UNUSED\<rparr>]\<rparr>)"
      using run by (simp add: and_then_def bnd_run basic_run)
    then show ?thesis using None np(1) f2 m3(2) by simp
  next
    case (Some t)
    then have d: "dup root (p_size (procs s ! k)) (stack_init stack (sym_syscallret s) m1) = (Ok (Some t), m2)" using dup(1) by simp
    obtain u where u: "fork k s = (Ok (Some (pid_next s)), u)"
      "procs u = (procs s)[np := child_of (procs s ! k) (as_chan k s) t (embryo stack (pid_next s) (procs s ! np))]"
      "mem u = put_u64 stack (CTX_OFF + 64) (sym_forkret s) (copy_frame ks stack m2)"
      "\<And>f. f < length (files s) \<Longrightarrow> ref_cnt (files u ! f) =
         ref_cnt (files s ! f) + of_nat (count_list (p_files (procs s ! k)) (Some f))"
      by (rule fork_succeeds [OF fk slot stk(1,2) pt d]) blast
    have "slice (pages (mem u) stack) TF_OFF PAGE_SIZE = slice (pages m2 ks) TF_OFF PAGE_SIZE"
      unfolding u(3) using dup(2) by (intro slice_frame) (simp_all add: pages_wf_def)
    then show ?thesis using u np Some by (auto simp: child_of_def embryo_def set_name_def Let_def)
  qed
qed

text \<open>A process with a directory, and one free page left in the machine.\<close>

definition one_page :: pagemem where
  "one_page = \<lparr>pages = (\<lambda>_. page_empty), free_head = 0x2000\<rparr>"

definition full_kernel :: proc_state where
  "full_kernel = set_mem one_page (family_kernel\<lparr>icache := [inode_new],
     procs := (procs family_kernel)[2 := (procs family_kernel ! 2)\<lparr>p_cwd := Some 0\<rparr>]\<rparr>)"

lemma full_fields:
  "length (procs full_kernel) = NPROC" "p_cwd (procs full_kernel ! 2) = Some 0" "p_state (procs full_kernel ! 2) = RUNNING"
  "p_files (procs full_kernel ! 2) = replicate NOFILE None" "i_ref (icache full_kernel ! 0) = 0"
  "pd_pgtbl (procs full_kernel ! 2) = Some 0x15000" "pd_kstack (procs full_kernel ! 2) = Some 0x14000"
  "mem full_kernel = one_page" "p_size (procs full_kernel ! 2) = 0" "sym_syscallret full_kernel = 0x90000"
  by (simp_all add: full_kernel_def set_mem_def mem_def family_kernel_def proc_new_def inode_new_def
      file_state.defs proc_state.defs)

lemma full_slot: "position (\<lambda>p. p_state p = UNUSED) (procs full_kernel) = Some 3"
  unfolding position_Some
  by (simp add: full_kernel_def set_mem_def family_kernel_def proc_new_def file_state.defs proc_state.defs
      numeral_3_eq_3 less_Suc_eq nth_append)

theorem fork_creates_child_witness:
  "\<exists>u. fork 2 full_kernel = (Ok None, u) \<and> p_state (procs u ! 3) = UNUSED \<and> free_head (mem u) = 0x2000"
proof -
  have next0: "read_next page_empty = 0" by (simp add: read_next_def page_empty_def eval_nat_numeral)
  let ?m1 = "\<lparr>pages = (\<lambda>_. page_empty), free_head = 0\<rparr>"
  have "(\<lambda>_. page_empty)(0x2000 := page_clear page_empty) = (\<lambda>_. page_empty)"
    by (auto simp: page_clear_def page_empty_def)
  then have ka: "kalloc (mem full_kernel) = (Some 0x2000, ?m1)"
    by (simp add: full_fields one_page_def kalloc_def fl_get_def next0 Let_def)
  let ?m2 = "stack_init 0x2000 (sym_syscallret full_kernel) ?m1"
  have d: "dup 0x15000 (p_size (procs full_kernel ! 2)) ?m2 = (Ok None, ?m2)"
    by (simp add: dup_def dup_kern_def and_then_def kalloc_op_def kalloc_def fl_get_def stack_init_def put_u64_def
        bnd_run basic_run)
  have w: "pages_wf ?m2" by (simp add: pages_wf_def stack_init_def put_u64_def page_empty_def)
  have f: "forkable 2 full_kernel" by (simp add: forkable_def full_fields)
  from fork_creates_child [OF f full_slot ka _ _ full_fields(6,7) d w] show ?thesis by auto
qed

end
