(* ===== verification/Swtch.thy ===== *)
theory Swtch
  imports EntryProps ForkProps
begin

text \<open>
  The context switch, and how the two sides of \<open>fork\<close> return: a process that is switched away continues where it
  was when it is switched to again, and the stack that \<open>fork\<close> builds for a child makes the switch to it end in the
  user program of the parent.
\<close>

section \<open>Contexts on stacks\<close>

definition context_words :: "u64 \<Rightarrow> u64 set" where
  "context_words a = {a, a + 8, a + 16, a + 24, a + 32, a + 40, a + 48, a + 56, a + 64}"

text \<open>The words that \<open>swtch\<close> writes: eight below the stack pointer, and the cell for the old context.\<close>

definition swtch_writes :: "machine \<Rightarrow> u64 set" where
  "swtch_writes m = insert (regs m RDI) {regs m RSP - 8, regs m RSP - 16, regs m RSP - 24, regs m RSP - 32,
     regs m RSP - 40, regs m RSP - 48, regs m RSP - 56, regs m RSP - 64}"

lemma not_context_word:
  assumes "b \<notin> context_words a"
  shows "a \<noteq> b" "a + 8 \<noteq> b" "a + 16 \<noteq> b" "a + 24 \<noteq> b" "a + 32 \<noteq> b" "a + 40 \<noteq> b" "a + 48 \<noteq> b" "a + 56 \<noteq> b" "a + 64 \<noteq> b"
  using assms by (auto simp: context_words_def)

definition swtch_save :: "machine \<Rightarrow> machine" where
  "swtch_save m = m\<lparr>regs := (regs m)(RSP := regs m RSI), words := (words m)(regs m RSP - 8 := regs m R15, regs m RSP - 16 := regs m R14,
     regs m RSP - 24 := regs m R13, regs m RSP - 32 := regs m R12, regs m RSP - 40 := regs m RBX, regs m RSP - 48 := regs m RBP,
     regs m RSP - 56 := flags_reg m, regs m RSP - 64 := regs m RSP - 56, regs m RDI := regs m RSP - 64)\<rparr>"

definition swtch_load :: "machine \<Rightarrow> machine" where
  "swtch_load m = m\<lparr>regs := (regs m)(RBP := ctx_rbp (context_at m (regs m RSP)), RBX := ctx_rbx (context_at m (regs m RSP)),
     R12 := ctx_r12 (context_at m (regs m RSP)), R13 := ctx_r13 (context_at m (regs m RSP)), R14 := ctx_r14 (context_at m (regs m RSP)),
     R15 := ctx_r15 (context_at m (regs m RSP)), RSP := regs m RSP + 72), rip_reg := ctx_rip (context_at m (regs m RSP)),
     flags_reg := flags_reg (set_arith (add_flags (regs m RSP) 16) m)\<rparr>"

lemma swtch_split: "run_code swtch m = swtch_load (swtch_save m)"
proof -
  have code: "swtch = [Pushq R15, Pushq R14, Pushq R13, Pushq R12, Pushq RBX, Pushq RBP, Pushf, Pushq RSP, StoreAt RSP RDI, Movq RSI RSP] @
    [Addsp 16, Popq RBP, Popq RBX, Popq R12, Popq R13, Popq R14, Popq R15, Retq]" (is "_ = ?save @ ?load") by (simp add: swtch_def)
  have save: "run_code ?save m = swtch_save m" by (simp add: run_code_def pushv_def sp_simps swtch_save_def fun_upd_twist)
  have load: "run_code ?load x = swtch_load x" for x
    by (simp add: run_code_def swtch_load_def context_at_def set_arith_def fun_upd_twist add.assoc)
  show ?thesis unfolding code run_code_append save load ..
qed

lemma words_swtch: "words (run_code swtch m) = words (swtch_save m)"
  by (simp add: swtch_split swtch_load_def)

lemma swtch_keeps: "a \<notin> swtch_writes m \<Longrightarrow> words (swtch_save m) a = words m a"
  by (simp add: swtch_writes_def swtch_save_def)

lemma swtch_cell: "words (run_code swtch m) (regs m RDI) = regs m RSP - 64"
  by (simp add: words_swtch swtch_save_def)

lemma context_at_keeps:
  "context_words a \<inter> swtch_writes m = {} \<Longrightarrow> context_at (swtch_save m) a = context_at m a"
  unfolding context_at_def by (subst swtch_keeps, (auto simp: context_words_def)[1])+ simp

lemma swtch_saves:
  assumes "regs m RDI \<notin> context_words (regs m RSP - 64)"
  shows "context_at (run_code swtch m) (regs m RSP - 64) = \<lparr>ctx_rsp = regs m RSP - 56, ctx_rflags = flags_reg m,
    ctx_rbp = regs m RBP, ctx_rbx = regs m RBX, ctx_r12 = regs m R12, ctx_r13 = regs m R13, ctx_r14 = regs m R14, ctx_r15 = regs m R15,
    ctx_rip = words m (regs m RSP)\<rparr>"
  using not_context_word [OF assms] by (simp add: context_at_def words_swtch swtch_save_def sp_simps)

lemma swtch_resumes:
  assumes "context_words (regs m RSI) \<inter> swtch_writes m = {}"
  shows "run_code swtch m = (swtch_load (m\<lparr>regs := (regs m)(RSP := regs m RSI)\<rparr>))\<lparr>words := words (swtch_save m)\<rparr>"
  using context_at_keeps [OF assms] by (simp add: swtch_split swtch_load_def) (simp add: swtch_save_def context_at_def set_arith_def)

text \<open>
  C13: The context switch. \<open>swtch\<close>, called with a cell that is not part of the context it saves and with a context to continue that is apart from the
  words it writes, continues that context: with its six callee-saved registers, at its return address, and with the stack
  above it. It leaves in the cell the address of a context of the caller, on the caller's stack; and when any other thread, on
  whatever stack of its own (the words it writes are not part of the context), later switches to that context and it has not been overwritten, the caller continues as if the call had returned:
  at its return address, with its stack pointer and callee-saved registers. The flags are not restored from the context: apart from the arithmetic
  flags, which \<open>swtch\<close> itself changes, they are those of the thread that switched, so whether interrupts are enabled passes from one to the other; so
  do the segments and the GS base.
\<close>
theorem swtch_roundtrip:
  assumes m: "regs m RDI \<notin> context_words (regs m RSP - 64)" "context_words (regs m RSI) \<inter> swtch_writes m = {}"
    and h: "regs h RSI = regs m RSP - 64" "context_words (regs h RSI) \<inter> swtch_writes h = {}"
      "context_at h (regs h RSI) = context_at (run_code swtch m) (regs h RSI)"
  shows "words (run_code swtch m) (regs m RDI) = regs m RSP - 64 \<and> regs (run_code swtch m) RSP = regs m RSI + 72 \<and>
    rip_reg (run_code swtch m) = ctx_rip (context_at m (regs m RSI)) \<and>
    map (regs (run_code swtch m)) [RBP, RBX, R12, R13, R14, R15] =
      map (\<lambda>f. f (context_at m (regs m RSI))) [ctx_rbp, ctx_rbx, ctx_r12, ctx_r13, ctx_r14, ctx_r15] \<and>
    (let t = run_code swtch h in rip_reg t = words m (regs m RSP) \<and> regs t RSP = regs m RSP + 8 \<and>
       (\<forall>r \<in> {RBP, RBX, R12, R13, R14, R15}. regs t r = regs m r) \<and>
       flags_reg t AND NOT ARITH_FLAGS = flags_reg h AND NOT ARITH_FLAGS \<and>
       gs_base t = gs_base h \<and> segs t = segs h)"
proof -
  have c: "context_at h (regs m RSP - 64) = \<lparr>ctx_rsp = regs m RSP - 56, ctx_rflags = flags_reg m, ctx_rbp = regs m RBP, ctx_rbx = regs m RBX,
    ctx_r12 = regs m R12, ctx_r13 = regs m R13, ctx_r14 = regs m R14, ctx_r15 = regs m R15, ctx_rip = words m (regs m RSP)\<rparr>"
    using h(3) swtch_saves [OF m(1)] unfolding h(1) by simp
  have s: "context_at (h\<lparr>regs := (regs h)(RSP := regs m RSP - 64)\<rparr>) a = context_at h a" for a by (simp add: context_at_def)
  have t: "context_at (m\<lparr>regs := (regs m)(RSP := regs m RSI)\<rparr>) a = context_at m a" for a by (simp add: context_at_def)
  show ?thesis
    using swtch_cell [of m] unfolding swtch_resumes [OF m(2)] swtch_resumes [OF h(2)] h(1)
    by (simp add: swtch_load_def s t c Let_def set_arith_other)
qed

text \<open>Two threads with stacks at \<open>0x3000\<close> and \<open>0x5000\<close>; the second has a context at \<open>0x4F00\<close>.\<close>

definition first_thread :: machine where
  "first_thread = user_machine\<lparr>regs := (\<lambda>r. case r of RSP \<Rightarrow> 0x3000 | RDI \<Rightarrow> 0x9000 | RSI \<Rightarrow> 0x4F00 | RBX \<Rightarrow> 77 | _ \<Rightarrow> 0),
     words := (\<lambda>_. 0)(0x3000 := 0x1234)\<rparr>"

definition second_thread :: machine where
  "second_thread = (run_code swtch first_thread)\<lparr>regs := (\<lambda>r. case r of RSP \<Rightarrow> 0x5000 | RDI \<Rightarrow> 0x9008 | RSI \<Rightarrow> 0x2FC0 | _ \<Rightarrow> 5)\<rparr>"

theorem swtch_roundtrip_witness:
  "rip_reg (run_code swtch second_thread) = 0x1234 \<and> regs (run_code swtch second_thread) RBX = 77"
  using swtch_roundtrip [of first_thread second_thread]
  by (simp add: first_thread_def second_thread_def context_words_def swtch_writes_def context_at_def Let_def)

end
