(* ===== verification/Acpi.thy ===== *)
theory Acpi
  imports Arch
begin

text \<open>
  Discovery of the machine from the tables of its firmware (\<open>kernel/src/acpi.rs\<close>): the root pointer, the table
  of tables, the interrupt controllers and processors (\<open>madt\<close>) and the PCI configuration spaces (\<open>mcfg\<close>, with
  the record \<open>Config\<close> of \<open>pci.rs\<close>). Memory is read at physical addresses; the static arrays with their counts
  are the state.
\<close>

type_synonym phys_mem = "u64 \<Rightarrow> u8"

definition mem_bytes :: "phys_mem \<Rightarrow> u64 \<Rightarrow> nat \<Rightarrow> bytes" where
  "mem_bytes pm a n = map (\<lambda>i. pm (a + of_nat i)) [0..<n]"

definition checksum :: "bytes \<Rightarrow> u8" where
  "checksum table = fold (\<lambda>x sm. sm + x) table 0"

section \<open>Tables\<close>

text \<open>A table is named by its physical address.\<close>

definition tbl_signature :: "phys_mem \<Rightarrow> u64 \<Rightarrow> bytes" where
  "tbl_signature pm a = mem_bytes pm a 4"

definition tbl_len :: "phys_mem \<Rightarrow> u64 \<Rightarrow> nat" where
  "tbl_len pm a = from_le (mem_bytes pm (a + 4) 4)"

definition tbl_as_bytes :: "phys_mem \<Rightarrow> u64 \<Rightarrow> bytes" where
  "tbl_as_bytes pm a = mem_bytes pm a (tbl_len pm a)"

abbreviation TABLE_SIZE :: nat where "TABLE_SIZE \<equiv> 36"

definition tbl_data :: "phys_mem \<Rightarrow> u64 \<Rightarrow> bytes res" where
  "tbl_data pm a = slice_get (tbl_as_bytes pm a) TABLE_SIZE (length (tbl_as_bytes pm a))"

definition tbl_new :: "phys_mem \<Rightarrow> u64 \<Rightarrow> u64 res" where
  "tbl_new pm a = (if checksum (tbl_as_bytes pm a) = 0 then Ok a else Panic ''corrupt ACPI table'')"

datatype acpi_version = V1 | V2

record sdt =
  sdt_oem_id :: bytes
  sdt_revision :: u8
  sdt_tables :: bytes
  sdt_version :: acpi_version

definition sdt_new :: "phys_mem \<Rightarrow> u64 \<Rightarrow> acpi_version \<Rightarrow> sdt res" where
  "sdt_new pm a v =
     rbind (tbl_new pm a) (\<lambda>t.
     rbind (tbl_data pm t) (\<lambda>d.
     Ok \<lparr>sdt_oem_id = mem_bytes pm (t + 10) 6, sdt_revision = pm (t + 8), sdt_tables = d, sdt_version = v\<rparr>))"

definition ptr_size :: "sdt \<Rightarrow> nat" where
  "ptr_size t = (case sdt_version t of V1 \<Rightarrow> 4 | V2 \<Rightarrow> 8)"

definition as_phys_addr :: "sdt \<Rightarrow> bytes \<Rightarrow> u64 res" where
  "as_phys_addr t raw = (case sdt_version t of V1 \<Rightarrow> rbind (read_u32 raw) (\<lambda>a. Ok (ucast a)) | V2 \<Rightarrow> read_u64 raw)"

section \<open>The root pointer\<close>

abbreviation RSDP_KEY :: bytes where
  "RSDP_KEY \<equiv> [0x52, 0x53, 0x44, 0x20, 0x50, 0x54, 0x52, 0x20]"
abbreviation ACPI_REGION_START :: u64 where "ACPI_REGION_START \<equiv> 0xE0000"
abbreviation ACPI_REGION_LEN :: nat where "ACPI_REGION_LEN \<equiv> 0x20000"
abbreviation RSDP_RAW_LEN :: nat where "RSDP_RAW_LEN \<equiv> 20"
abbreviation XSDP_RAW_LEN :: nat where "XSDP_RAW_LEN \<equiv> 36"

definition firmware_region :: "phys_mem \<Rightarrow> bytes" where
  "firmware_region pm = mem_bytes pm ACPI_REGION_START ACPI_REGION_LEN"

text \<open>\<open>windows(8).position(..)\<close>\<close>

definition rsdp_find :: "bytes \<Rightarrow> bytes res" where
  "rsdp_find region =
     (case position (\<lambda>i. slice region i (i + 8) = RSDP_KEY) [0..<length region - 7] of
        None \<Rightarrow> Panic ''ACPI rquired''
      | Some offset \<Rightarrow> Ok (drop offset region))"

definition is_acpi_v1 :: "bytes \<Rightarrow> bool" where
  "is_acpi_v1 raw = (raw ! 15 = 0)"

definition rsdp_init :: "phys_mem \<Rightarrow> sdt res" where
  "rsdp_init pm =
     rbind (rsdp_find (firmware_region pm)) (\<lambda>acpi_region.
     rbind (slice_get acpi_region 0 RSDP_RAW_LEN) (\<lambda>raw_rsdp.
     if checksum raw_rsdp \<noteq> 0 then Panic ''corrupt RSDPv1''
     else if is_acpi_v1 raw_rsdp then
       rbind (slice_get raw_rsdp 16 20) (\<lambda>p.
       rbind (read_u32 p) (\<lambda>a.
       sdt_new pm (ucast a) V1))
     else
       rbind (slice_get acpi_region 0 XSDP_RAW_LEN) (\<lambda>raw.
       rbind (slice_get raw 20 24) (\<lambda>l.
       rbind (read_u32 l) (\<lambda>len.
       if unat len \<noteq> XSDP_RAW_LEN then Panic ''short RSDPv2''
       else if checksum raw \<noteq> 0 then Panic ''corrupt RSDPv2''
       else
         rbind (slice_get raw 24 32) (\<lambda>p.
         rbind (read_u64 p) (\<lambda>a.
         sdt_new pm a V2)))))))"

section \<open>What is found\<close>

abbreviation NCPUMAX :: nat where "NCPUMAX \<equiv> 256"
abbreviation NPCICFGMAX :: nat where "NPCICFGMAX \<equiv> 256"

record ioapict =
  ioapic_id :: u32
  global_intr_base :: u32
  ioapic_phys_addr :: u64

definition ioapict_new :: "u32 \<Rightarrow> u32 \<Rightarrow> u64 \<Rightarrow> ioapict" where
  "ioapict_new i g p = \<lparr>ioapic_id = i, global_intr_base = g, ioapic_phys_addr = p\<rparr>"

definition ioapict_empty :: ioapict where
  "ioapict_empty = ioapict_new 0 0 0"

record pci_config =
  cfg_phys_addr :: u64
  segment_group :: u16
  start_bus :: u8
  end_bus :: u8

definition config_new :: "u64 \<Rightarrow> u16 \<Rightarrow> u8 \<Rightarrow> u8 \<Rightarrow> pci_config" where
  "config_new p g s e = \<lparr>cfg_phys_addr = p, segment_group = g, start_bus = s, end_bus = e\<rparr>"

definition config_empty :: pci_config where
  "config_empty = config_new 0 0 0 0"

record acpi =
  CPUS :: "u32 list"
  NCPUS :: nat
  IOAPICS :: "ioapict list"
  NIOAPICS :: nat
  CONFIGS :: "pci_config list"
  NCONFIGS :: nat

definition acpi_start :: acpi where
  "acpi_start = \<lparr>CPUS = replicate NCPUMAX 0, NCPUS = 0, IOAPICS = replicate NCPUMAX ioapict_empty, NIOAPICS = 0,
     CONFIGS = replicate NPCICFGMAX config_empty, NCONFIGS = 0\<rparr>"

definition madt_cpus :: "acpi \<Rightarrow> u32 list" where
  "madt_cpus s = take (NCPUS s) (CPUS s)"

definition madt_ioapics :: "acpi \<Rightarrow> ioapict list" where
  "madt_ioapics s = take (NIOAPICS s) (IOAPICS s)"

definition pci_configs :: "acpi \<Rightarrow> pci_config list" where
  "pci_configs s = take (NCONFIGS s) (CONFIGS s)"

section \<open>Processors and interrupt controllers\<close>

definition byte_at :: "bytes \<Rightarrow> nat \<Rightarrow> u8 res" where
  "byte_at xs i = (if i < length xs then Ok (xs ! i) else Panic ''index out of bounds'')"

definition add_cpu :: "u32 \<Rightarrow> (acpi, unit) kop" where
  "add_cpu i = bnd (gets (\<lambda>s. i \<in> set (madt_cpus s))) (\<lambda>known. if known then ret () else
     bnd (gets (\<lambda>s. NCPUS s < length (CPUS s))) (\<lambda>r.
     seqk (assertk r ''index out of bounds'')
     (modify (\<lambda>s. s\<lparr>CPUS := (CPUS s)[NCPUS s := i], NCPUS := NCPUS s + 1\<rparr>))))"

text \<open>\<open>init_lapic\<close> and \<open>init_lsapic\<close> differ in the type they expect.\<close>

definition init_apic :: "u8 \<Rightarrow> bytes \<Rightarrow> (acpi, unit) kop" where
  "init_apic typ data =
     bnd (lift_res (\<lambda>_. byte_at data 0)) (\<lambda>t. seqk (assertk (t = typ) ''assertion failed'')
     (bnd (lift_res (\<lambda>_. byte_at data 1)) (\<lambda>l. seqk (assertk (unat l = length data) ''assertion failed'')
     (bnd (lift_res (\<lambda>_. byte_at data 3)) (\<lambda>i.
      bnd (lift_res (\<lambda>_. rbind (slice_get data 4 8) read_u32)) (\<lambda>flags.
      if flags AND 1 = 1 then add_cpu (ucast i) else ret ()))))))"

definition init_lapic :: "bytes \<Rightarrow> (acpi, unit) kop" where
  "init_lapic = init_apic 0"

definition init_lsapic :: "bytes \<Rightarrow> (acpi, unit) kop" where
  "init_lsapic = init_apic 7"

definition store_ioapic :: "ioapict \<Rightarrow> (acpi, unit) kop" where
  "store_ioapic a = bnd (gets (\<lambda>s. NIOAPICS s < length (IOAPICS s))) (\<lambda>r.
     seqk (assertk r ''index out of bounds'')
     (modify (\<lambda>s. s\<lparr>IOAPICS := (IOAPICS s)[NIOAPICS s := a], NIOAPICS := NIOAPICS s + 1\<rparr>)))"

definition init_ioapic :: "bytes \<Rightarrow> (acpi, unit) kop" where
  "init_ioapic data =
     bnd (lift_res (\<lambda>_. byte_at data 0)) (\<lambda>t. seqk (assertk (t = 1) ''assertion failed'')
     (bnd (lift_res (\<lambda>_. byte_at data 1)) (\<lambda>l. seqk (assertk (unat l = length data) ''assertion failed'')
     (bnd (lift_res (\<lambda>_. byte_at data 2)) (\<lambda>i.
      bnd (lift_res (\<lambda>_. rbind (slice_get data 4 8) read_u32)) (\<lambda>p.
      bnd (lift_res (\<lambda>_. rbind (slice_get data 8 12) read_u32)) (\<lambda>g.
      store_ioapic (ioapict_new (ucast i) g (ucast p)))))))))"

definition init_entry :: "u8 \<Rightarrow> bytes \<Rightarrow> (acpi, unit) kop" where
  "init_entry typ data =
     (if typ = 0 then init_lapic data else if typ = 1 then init_ioapic data
      else if typ = 7 then init_lsapic data else ret ())"

text \<open>
  The loop over the entries, for a number of rounds: an entry of length 0 that is of no known type is not
  left, and then no number of rounds is enough.
\<close>

fun madt_loop :: "nat \<Rightarrow> bytes \<Rightarrow> nat \<Rightarrow> (acpi, unit) kop" where
  "madt_loop 0 raw start = (\<lambda>s. (Diverge, s))"
| "madt_loop (Suc n) raw start =
     (if start \<ge> length raw then ret ()
      else seqk (assertk (start + 1 < length raw) ''assertion failed'')
      (let typ = raw ! start; len = unat (raw ! (start + 1))
       in seqk (assertk (start + len \<le> length raw) ''assertion failed'')
          (seqk (init_entry typ (slice raw start (start + len)))
          (madt_loop n raw (start + len)))))"

definition madt_init :: "bytes \<Rightarrow> (acpi, unit) kop" where
  "madt_init raw = madt_loop (length raw + 1) raw 8"

section \<open>PCI configuration spaces\<close>

definition store_config :: "pci_config \<Rightarrow> (acpi, unit) kop" where
  "store_config c = bnd (gets (\<lambda>s. NCONFIGS s < length (CONFIGS s))) (\<lambda>r.
     seqk (assertk r ''index out of bounds'')
     (modify (\<lambda>s. s\<lparr>CONFIGS := (CONFIGS s)[NCONFIGS s := c], NCONFIGS := NCONFIGS s + 1\<rparr>)))"

definition add_config :: "bytes \<Rightarrow> (acpi, unit) kop" where
  "add_config data =
     bnd (lift_res (\<lambda>_. rbind (slice_get data 0 8) read_u64)) (\<lambda>p.
     bnd (lift_res (\<lambda>_. rbind (slice_get data 8 10) read_u16)) (\<lambda>g.
     bnd (lift_res (\<lambda>_. byte_at data 10)) (\<lambda>b.
     bnd (lift_res (\<lambda>_. byte_at data 11)) (\<lambda>e.
     store_config (config_new p g b e)))))"

function mcfg_loop :: "bytes \<Rightarrow> nat \<Rightarrow> (acpi, unit) kop" where
  "mcfg_loop raw start =
     (if start \<ge> length raw then ret ()
      else seqk (assertk (start + 16 \<le> length raw) ''assertion failed'')
        (seqk (add_config (slice raw start (start + 16)))
        (mcfg_loop raw (start + 16))))"
  by pat_completeness auto
termination by (relation "measure (\<lambda>(raw, start). length raw - start)") auto

declare mcfg_loop.simps [simp del]

definition mcfg_init :: "bytes \<Rightarrow> (acpi, unit) kop" where
  "mcfg_init raw = mcfg_loop raw 8"

section \<open>All tables\<close>

abbreviation SIG_APIC :: bytes where "SIG_APIC \<equiv> [0x41, 0x50, 0x49, 0x43]"
abbreviation SIG_MCFG :: bytes where "SIG_MCFG \<equiv> [0x4D, 0x43, 0x46, 0x47]"

definition init_table :: "phys_mem \<Rightarrow> sdt \<Rightarrow> bytes \<Rightarrow> (acpi, unit) kop" where
  "init_table pm t raw =
     bnd (lift_res (\<lambda>_. as_phys_addr t raw)) (\<lambda>a.
     if tbl_signature pm a = SIG_APIC then bnd (lift_res (\<lambda>_. tbl_data pm a)) madt_init
     else if tbl_signature pm a = SIG_MCFG then bnd (lift_res (\<lambda>_. tbl_data pm a)) mcfg_init
     else ret ())"

function chunks :: "nat \<Rightarrow> 'a list \<Rightarrow> 'a list list" where
  "chunks n xs = (if n = 0 \<or> xs = [] then [] else take n xs # chunks n (drop n xs))"
  by pat_completeness auto
termination by (relation "measure (\<lambda>(n, xs). length xs)") auto

declare chunks.simps [simp del]

definition sdt_init :: "phys_mem \<Rightarrow> sdt \<Rightarrow> (acpi, unit) kop" where
  "sdt_init pm t = run_all (init_table pm t) (chunks (ptr_size t) (sdt_tables t))"

definition acpi_init :: "phys_mem \<Rightarrow> (acpi, unit) kop" where
  "acpi_init pm = bnd (lift_res (\<lambda>_. rsdp_init pm)) (sdt_init pm)"

end
