(* ===== verification/Cpu.thy ===== *)
theory Cpu
  imports Acpi EntryProps
begin

text \<open>
  A processor's own structures (\<open>CPU\<close>, the descriptor table and the task state of \<open>kernel/src/x86_64.rs\<close>, \<open>syscall::init\<close> of
  \<open>kernel/src/syscall.rs\<close>, \<open>trap::init\<close>): a page of memory that the processor reaches through its GS base, with the tables that the
  processor reads by itself. The structures are bytes in memory, laid out as \<open>repr(C)\<close> says, because it is the processor that reads
  them. What it makes of them is compared with the entries to the kernel as \<open>Entry\<close> has them.
\<close>

section \<open>Structures in memory\<close>

text \<open>Fields of a structure at \<open>p\<close>, by their offset.\<close>

definition put :: "u64 \<Rightarrow> nat \<Rightarrow> bytes \<Rightarrow> phys_mem \<Rightarrow> phys_mem" where
  "put p off bs m = (\<lambda>a. let k = unat (a - p) in if off \<le> k \<and> k < off + length bs then bs ! (k - off) else m a)"

definition fld :: "u64 \<Rightarrow> nat \<Rightarrow> nat \<Rightarrow> phys_mem \<Rightarrow> bytes" where
  "fld p off n m = mem_bytes m (p + of_nat off) n"

definition fld64 :: "u64 \<Rightarrow> nat \<Rightarrow> phys_mem \<Rightarrow> u64" where
  "fld64 p off m = of_nat (from_le (fld p off 8 m))"

abbreviation le64 :: "u64 \<Rightarrow> bytes" where "le64 w \<equiv> to_le 8 (unat w)"

text \<open>The processor's state that the sources set up. \<open>pr_task\<close> is the base that it keeps with the task register.\<close>

record processor =
  pr_mem :: phys_mem
  pr_rsp :: u64
  pr_cs :: u16
  pr_gs :: u64
  pr_gdtr :: "u16 \<times> u64"
  pr_idtr :: "u16 \<times> u64"
  pr_task :: u64
  pr_msrs :: "u32 \<Rightarrow> u64"

section \<open>Model-specific registers and the system call entry\<close>

definition rdmsr :: "u32 \<Rightarrow> processor \<Rightarrow> u64" where
  "rdmsr index s = (let val_lo = ucast (pr_msrs s index) :: u32; val_hi = ucast (drop_bit 32 (pr_msrs s index)) :: u32
     in push_bit 32 (ucast val_hi) OR ucast val_lo)"

definition wrmsr :: "u32 \<Rightarrow> u64 \<Rightarrow> processor \<Rightarrow> processor" where
  "wrmsr index value s = (let eax = ucast value :: u32; edx = ucast (drop_bit 32 value) :: u32
     in s\<lparr>pr_msrs := (pr_msrs s)(index := push_bit 32 (ucast edx) OR ucast eax)\<rparr>)"

abbreviation MSR_STAR :: u32 where "MSR_STAR \<equiv> 0xC0000081"
abbreviation MSR_LSTAR :: u32 where "MSR_LSTAR \<equiv> 0xC0000082"
abbreviation MSR_FMASK :: u32 where "MSR_FMASK \<equiv> 0xC0000084"

text \<open>\<open>syscall::init\<close>; the address of \<open>enter\<close> is chosen by the linker.\<close>

definition syscall_init :: "u64 \<Rightarrow> processor \<Rightarrow> processor" where
  "syscall_init enter s = wrmsr MSR_FMASK sfmask (wrmsr MSR_STAR star (wrmsr MSR_LSTAR enter s))"

section \<open>The structures\<close>

definition SMALL_STACK_SIZE :: u64 where "SMALL_STACK_SIZE = 512"

text \<open>\<open>add\<close> on a pointer counts in elements, here of 512 bytes.\<close>

definition top_as_u64 :: "u64 \<Rightarrow> u64" where
  "top_as_u64 self = self + SMALL_STACK_SIZE * 512"

record gdt =
  g_null :: u64
  g_ktext :: u64
  g_kdata :: u64
  g_udata :: u64
  g_utext :: u64
  g_unused :: u64
  g_task :: "u64 \<times> u64"

definition gdt_new :: "u64 \<Rightarrow> gdt" where
  "gdt_new task = \<lparr>g_null = 0, g_ktext = ktext64, g_kdata = kdata64, g_udata = udata64, g_utext = utext64, g_unused = 0, g_task = task64 task\<rparr>"

definition gdt_bytes :: "gdt \<Rightarrow> bytes" where
  "gdt_bytes g = le64 (g_null g) @ le64 (g_ktext g) @ le64 (g_kdata g) @ le64 (g_udata g) @ le64 (g_utext g) @ le64 (g_unused g) @
     le64 (fst (g_task g)) @ le64 (snd (g_task g))"

definition task_state_bytes :: "task_state \<Rightarrow> bytes" where
  "task_state_bytes t = replicate 4 0 @ le64 (rsp0 t) @ replicate 24 0 @ le64 (ist1 t) @ le64 (ist2 t) @ le64 (ist3 t) @ replicate 42 0 @
     to_le 2 (unat (io_map_base t))"

record percpu =
  self_ptr :: u64
  ureg :: u64
  pc_kstack :: u64
  pc_id :: u32
  clock_freq :: u64
  pc_scheduler :: u64
  pc_ts :: task_state
  pc_gdt :: gdt
  pc_ncli :: u32
  pc_saved_intr_status :: bool
  pc_proc :: u64

text \<open>The structure written to its page. There are gaps after the number, after the saved status and up to the end of the page.\<close>

definition write_percpu :: "u64 \<Rightarrow> percpu \<Rightarrow> phys_mem \<Rightarrow> phys_mem" where
  "write_percpu p c m =
     put p 224 (le64 (pc_proc c)) (put p 220 [if pc_saved_intr_status c then 1 else 0] (put p 216 (to_le 4 (unat (pc_ncli c)))
     (put p 152 (gdt_bytes (pc_gdt c)) (put p 48 (task_state_bytes (pc_ts c)) (put p 40 (le64 (pc_scheduler c))
     (put p 32 (le64 (clock_freq c)) (put p 24 (to_le 4 (unat (pc_id c))) (put p 16 (le64 (pc_kstack c))
     (put p 8 (le64 (ureg c)) (put p 0 (le64 (self_ptr c)) m))))))))))"

definition tschz :: u64 where "tschz = 2000000000"

section \<open>Loading the tables\<close>

text \<open>
  The operand of \<open>lgdt\<close> and \<open>lidt\<close> is put together on the stack: the limit in two bytes at the address 6 and the base in eight
  bytes at 8 above the new stack pointer, and read back as two and eight bytes from the address 6.
\<close>

definition table_operand :: "u16 \<Rightarrow> u64 \<Rightarrow> processor \<Rightarrow> processor" where
  "table_operand limit base s = s\<lparr>pr_mem := put (pr_rsp s - 16) 6 (to_le 2 (unat limit)) (put (pr_rsp s - 16) 8 (le64 base) (pr_mem s))\<rparr>"

definition operand_at :: "u64 \<Rightarrow> phys_mem \<Rightarrow> u16 \<times> u64" where
  "operand_at sp m = (of_nat (from_le (fld sp 6 2 m)), fld64 sp 8 m)"

text \<open>After \<open>lgdt\<close> a far return to the next instruction, at \<open>here\<close>, loads the code segment.\<close>

definition lgdt :: "u64 \<Rightarrow> u64 \<Rightarrow> processor \<Rightarrow> processor" where
  "lgdt here gdt s =
     (let s1 = table_operand (of_nat 64 - 1) gdt s;
          s2 = s1\<lparr>pr_gdtr := operand_at (pr_rsp s - 16) (pr_mem s1)\<rparr>;
          s3 = s2\<lparr>pr_mem := put (pr_rsp s - 16) 0 (le64 here) (put (pr_rsp s - 16) 8 (le64 8) (pr_mem s2))\<rparr>
      in s3\<lparr>pr_cs := ucast (fld64 (pr_rsp s - 16) 8 (pr_mem s3))\<rparr>)"

definition lidt :: "u64 \<Rightarrow> processor \<Rightarrow> processor" where
  "lidt idt s = (let s1 = table_operand (of_nat 4096 - 1) idt s in s1\<lparr>pr_idtr := operand_at (pr_rsp s - 16) (pr_mem s1)\<rparr>)"

text \<open>\<open>ltr\<close> reads the descriptor from the table, keeps the base, and marks the descriptor as busy.\<close>

definition ltr :: "u16 \<Rightarrow> processor \<Rightarrow> processor" where
  "ltr sel s = (let g = snd (pr_gdtr s); lower = fld64 g (unat sel) (pr_mem s); upper = fld64 g (unat sel + 8) (pr_mem s)
     in s\<lparr>pr_task := tss_desc_base (lower, upper), pr_mem := put g (unat sel) (le64 (lower OR push_bit 41 1)) (pr_mem s)\<rparr>)"

definition segment_init :: "u64 \<Rightarrow> u64 \<Rightarrow> processor \<Rightarrow> processor" where
  "segment_init here gdt s = ltr TASK_SEL (lgdt here gdt s)"

text \<open>The interrupt table at \<open>idt\<close>: filled once by \<open>vector_init\<close>, and loaded by every processor.\<close>

definition gate_bytes :: "u64 \<times> u64 \<Rightarrow> bytes" where
  "gate_bytes g = le64 (fst g) @ le64 (snd g)"

definition vector_init :: "u64 \<Rightarrow> (nat \<Rightarrow> u64) \<Rightarrow> processor \<Rightarrow> processor" where
  "vector_init idt vectors s = s\<lparr>pr_mem := put idt 0 (concat (map gate_bytes (idt_init vectors))) (pr_mem s)\<rparr>"

definition trap_init :: "u64 \<Rightarrow> processor \<Rightarrow> processor" where
  "trap_init idt s = lidt idt s"

section \<open>Operations\<close>

definition cpu_init :: "u64 \<Rightarrow> u64 \<Rightarrow> u32 \<Rightarrow> processor \<Rightarrow> processor" where
  "cpu_init here page ident s =
     (let cpu = page; nmi_stack = page + 1024; db_stack = page + (1024 + 512); dbl_flt_stack = page + 2048;
          c = \<lparr>self_ptr = cpu, ureg = 0, pc_kstack = 0, pc_id = ident, clock_freq = tschz, pc_scheduler = 0,
               pc_ts = task_state_new (top_as_u64 nmi_stack) (top_as_u64 db_stack) (top_as_u64 dbl_flt_stack),
               pc_gdt = gdt_new (cpu + 48), pc_ncli = 0, pc_saved_intr_status = False, pc_proc = 0\<rparr>
      in segment_init here (cpu + 152) (s\<lparr>pr_mem := write_percpu cpu c (pr_mem s), pr_gs := cpu\<rparr>))"

definition mycpu :: "processor \<Rightarrow> u64" where
  "mycpu s = fld64 (pr_gs s) 0 (pr_mem s)"

definition mycpu_id :: "processor \<Rightarrow> u32" where
  "mycpu_id s = of_nat (from_le (fld (mycpu s) 24 4 (pr_mem s)))"

text \<open>The process that runs, by the address of its structure; and the page of its kernel stack, if it has one.\<close>

definition set_proc :: "u64 \<Rightarrow> u64 \<Rightarrow> usize option \<Rightarrow> cpu \<Rightarrow> processor \<Rightarrow> (cpu \<times> processor) res" where
  "set_proc self pr kst c s =
     rbind (without_intrs (\<lambda>_. case kst of None \<Rightarrow> Panic ''kstack''
       | Some a \<Rightarrow> let stack_top = a + of_nat PAGE_SIZE
           in Ok (s\<lparr>pr_mem := put self 52 (le64 stack_top) (put self 16 (le64 stack_top) (put self 224 (le64 pr) (pr_mem s)))\<rparr>)) c)
     (\<lambda>(r, c2). rbind r (\<lambda>s2. Ok (c2, s2)))"

definition clear_proc :: "u64 \<Rightarrow> processor \<Rightarrow> processor" where
  "clear_proc self s = s\<lparr>pr_mem := put self 52 (le64 0) (put self 224 (le64 0) (pr_mem s))\<rparr>"

definition cpu_proc :: "u64 \<Rightarrow> processor \<Rightarrow> u64 option" where
  "cpu_proc self s = (let p = fld64 self 224 (pr_mem s) in if p = 0 then None else Some p)"

definition try_myproc :: "cpu \<Rightarrow> processor \<Rightarrow> (u64 option \<times> cpu) res" where
  "try_myproc c s = without_intrs (\<lambda>_. cpu_proc (mycpu s) s) c"

definition myproc :: "cpu \<Rightarrow> processor \<Rightarrow> (u64 \<times> cpu) res" where
  "myproc c s = rbind (try_myproc c s) (\<lambda>(r, c2). case r of None \<Rightarrow> Panic ''myproc called with no proc'' | Some p \<Rightarrow> Ok (p, c2))"

text \<open>The old interrupt controllers are masked through their data ports.\<close>

definition pic_init :: "(u16 \<times> u8) list" where
  "pic_init = [(0x20 + 1, 0xFF), (0xA0 + 1, 0xFF)]"

section \<open>Waiting\<close>

text \<open>\<open>readings\<close> are the values that successive \<open>rdtsc\<close> return; the result is None when they end before the loop.\<close>

definition rdtsc :: "u32 \<Rightarrow> u32 \<Rightarrow> nat" where
  "rdtsc lo hi = unat hi * 2 ^ 32 + unat lo"

fun nano_wait :: "nat \<Rightarrow> nat \<Rightarrow> nat list \<Rightarrow> nat option res" where
  "nano_wait s delta [] = Ok None"
| "nano_wait s delta (t # ts) = (if t < s then Panic ''attempt to subtract with overflow''
     else if t - s < delta then nano_wait s delta ts else Ok (Some t))"

definition nanosleep :: "u64 \<Rightarrow> nat \<Rightarrow> nat list \<Rightarrow> nat option res" where
  "nanosleep freq n readings = (if 2 ^ 128 \<le> n * unat freq then Panic ''attempt to multiply with overflow''
     else case readings of [] \<Rightarrow> Ok None | s # ts \<Rightarrow> nano_wait s (n * unat freq div 1000000000) ts)"

section \<open>Fields\<close>

lemma fld_nth: "i < n \<Longrightarrow> off + n \<le> 4096 \<Longrightarrow> unat (of_nat off + of_nat i :: u64) = off + i"
  by (simp add: unat_of_nat take_bit_nat_eq_self flip: of_nat_add)

lemma fld_put [simp]: "n = length bs \<Longrightarrow> off + n \<le> 4096 \<Longrightarrow> fld p off n (put p off bs m) = bs"
  by (rule nth_equalityI) (simp_all add: fld_def mem_bytes_def put_def Let_def fld_nth [of _ "length bs"])

lemma fld_put_other [simp]:
  "off + n \<le> o2 \<or> o2 + length bs \<le> off \<Longrightarrow> off + n \<le> 4096 \<Longrightarrow> fld p off n (put p o2 bs m) = fld p off n m"
  by (rule nth_equalityI) (auto simp: fld_def mem_bytes_def put_def Let_def fld_nth [of _ n])

lemma fld_put_part:
  assumes "o2 \<le> off" "off + n \<le> o2 + length bs" "o2 + length bs \<le> 4096"
  shows "fld p off n (put p o2 bs m) = take n (drop (off - o2) bs)"
  using assms by (intro nth_equalityI) (auto simp: fld_def mem_bytes_def put_def Let_def fld_nth [of _ n])

lemma length_percpu_parts [simp]: "length (gdt_bytes g) = 64" "length (task_state_bytes t) = 104"
  by (simp_all add: gdt_bytes_def task_state_bytes_def)

text \<open>A store elsewhere, when the two ranges do not meet on the circle of addresses.\<close>

definition apart :: "u64 \<Rightarrow> nat \<Rightarrow> u64 \<Rightarrow> nat \<Rightarrow> bool" where
  "apart a n b k \<longleftrightarrow> k \<le> unat (a - b) \<and> n \<le> unat (b - a)"

lemma unat_neg: "d \<noteq> 0 \<Longrightarrow> unat (- d :: u64) = 2 ^ 64 - unat d"
  using unat_sub_if' [of 0 d] by (simp add: unat_eq_0 [symmetric])

lemma apart_outside:
  assumes "apart a n b k" "i < n"
  shows "k \<le> unat (a + of_nat i - b)"
proof (cases "a = b")
  case False
  then have "unat (b - a) = 2 ^ 64 - unat (a - b)" using unat_neg [of "a - b"] by simp
  then have "i < 2 ^ 64 - unat (a - b)" using assms unfolding apart_def by linarith
  then have lt: "unat (a - b) + i < 2 ^ 64" by linarith
  have "unat (of_nat i :: u64) = i" using lt by (simp add: unat_of_nat take_bit_nat_eq_self)
  then have "unat (a - b + of_nat i) = unat (a - b) + i" using lt by (simp add: unat_word_ariths)
  then show ?thesis using assms(1) by (simp add: apart_def algebra_simps)
qed (use assms in \<open>simp add: apart_def\<close>)

lemma fld_put_apart:
  "apart (p + of_nat off) n q (o2 + length bs) \<Longrightarrow> fld p off n (put q o2 bs m) = fld p off n m"
  using apart_outside [of "p + of_nat off" n q "o2 + length bs"]
  by (intro nth_equalityI) (force simp: fld_def mem_bytes_def put_def Let_def)+

lemma apart_sub:
  assumes "apart p N q k" "off + n \<le> N" "off < N"
  shows "apart (p + of_nat off) n q k"
proof -
  have "unat (of_nat off :: u64) = off"
    using assms unat_less_pow64 [of "q - p"] by (simp add: apart_def unat_of_nat take_bit_nat_eq_self del: unat_less_pow64)
  moreover have "off + n \<le> unat (q - p)" using assms by (simp add: apart_def)
  ultimately have "n \<le> unat (q - p - of_nat off)" by (simp add: unat_sub_if')
  then show ?thesis using apart_outside [OF assms(1,3)] by (simp add: apart_def algebra_simps)
qed

lemma put_shift: "b + off + length bs \<le> 4096 \<Longrightarrow> put (p + of_nat b) off bs m = put p (b + off) bs m"
proof
  fix a assume le: "b + off + length bs \<le> 4096"
  have b: "unat (of_nat b :: u64) = b" using le by (simp add: unat_of_nat take_bit_nat_eq_self)
  have d: "a - (p + of_nat b) = a - p - of_nat b" by simp
  have "unat (a - p - of_nat b) = (if b \<le> unat (a - p) then unat (a - p) - b else unat (a - p) + 2 ^ 64 - b)"
    by (subst unat_sub_if') (simp add: b)
  then show "put (p + of_nat b) off bs m a = put p (b + off) bs m a"
    using le unat_less_pow64 [of "a - p"] unfolding put_def Let_def d
    by (cases "b \<le> unat (a - p)") (auto simp del: unat_less_pow64)
qed

lemma fld_shift: "fld (p + of_nat b) off n m = fld p (b + off) n m"
  by (simp add: fld_def add.assoc)

lemma fld64_put [simp]: "off + 8 \<le> 4096 \<Longrightarrow> fld64 p off (put p off (le64 w) m) = w"
  by (simp add: fld64_def)

lemma fld64_put_0 [simp]: "off + 8 \<le> 4096 \<Longrightarrow> fld64 p off (put p off (to_le 8 0) m) = 0"
  using fld64_put [of off p 0 m] by simp

lemma fld64_put_other [simp]:
  "off + 8 \<le> o2 \<or> o2 + length bs \<le> off \<Longrightarrow> off + 8 \<le> 4096 \<Longrightarrow> fld64 p off (put p o2 bs m) = fld64 p off m"
  by (simp add: fld64_def)

lemma percpu_fields:
  "fld64 p 0 (write_percpu p c m) = self_ptr c" "fld64 p 16 (write_percpu p c m) = pc_kstack c"
  "fld p 24 4 (write_percpu p c m) = to_le 4 (unat (pc_id c))" "fld64 p 224 (write_percpu p c m) = pc_proc c"
  "fld64 p 160 (write_percpu p c m) = g_ktext (pc_gdt c)" "fld64 p 168 (write_percpu p c m) = g_kdata (pc_gdt c)"
  "fld64 p 176 (write_percpu p c m) = g_udata (pc_gdt c)" "fld64 p 184 (write_percpu p c m) = g_utext (pc_gdt c)"
  "fld64 p 200 (write_percpu p c m) = fst (g_task (pc_gdt c))" "fld64 p 208 (write_percpu p c m) = snd (g_task (pc_gdt c))"
  "fld64 p 52 (write_percpu p c m) = rsp0 (pc_ts c)" "fld64 p 84 (write_percpu p c m) = ist1 (pc_ts c)"
  "fld64 p 92 (write_percpu p c m) = ist2 (pc_ts c)" "fld64 p 100 (write_percpu p c m) = ist3 (pc_ts c)"
  by (simp_all add: write_percpu_def)
    (simp_all add: fld64_def fld_put_part gdt_bytes_def task_state_bytes_def)

section \<open>The tables as the processor reads them\<close>

lemma operand_back: "operand_at (pr_rsp s - 16) (pr_mem (table_operand limit base s)) = (limit, base)"
proof -
  have "unat limit < 2 ^ 16" using unsigned_less [of limit] by simp
  then show ?thesis by (simp add: operand_at_def table_operand_def from_le_to_le)
qed

lemma lgdt_fields:
  "pr_gdtr (lgdt here g s) = (63, g)" "pr_cs (lgdt here g s) = KTEXT_SEL" "pr_gs (lgdt here g s) = pr_gs s"
  using operand_back [of s 63 g] fld64_put [of 8 "pr_rsp s - 16" 8]
  by (simp_all add: lgdt_def table_operand_def Let_def KTEXT_SEL_def)

lemma lgdt_fld:
  assumes "apart p N (pr_rsp s - 16) 16" "off + n \<le> N" "off < N"
  shows "fld p off n (pr_mem (lgdt here g s)) = fld p off n (pr_mem s)"
proof -
  have "apart (p + of_nat off) n (pr_rsp s - 16) k" if "k \<le> 16" for k
    using apart_sub [OF assms] that by (simp add: apart_def)
  then show ?thesis by (simp add: lgdt_def table_operand_def Let_def fld_put_apart)
qed

lemma segment_init_fields:
  fixes here :: u64
  assumes "apart p 232 (pr_rsp s - 16) 16"
    and task: "fld64 p 200 (pr_mem s) = fst (task64 a)" "fld64 p 208 (pr_mem s) = snd (task64 a)"
  defines "t \<equiv> segment_init here (p + 152) s"
  shows "pr_gdtr t = (63, p + 152)" "pr_cs t = KTEXT_SEL" "pr_gs t = pr_gs s" "pr_task t = a"
    "off + n \<le> 200 \<or> 208 \<le> off \<and> off + n \<le> 232 \<Longrightarrow> off < 232 \<Longrightarrow> fld p off n (pr_mem t) = fld p off n (pr_mem s)"
proof -
  have sel: "unat TASK_SEL = 48" by (simp add: TASK_SEL_def)
  have b: "p + 152 = p + of_nat 152" by simp
  note lg = lgdt_fld [OF assms(1), where here = here and g = "p + 152"]
  have "fld64 (p + 152) 48 (pr_mem (lgdt here (p + 152) s)) = fst (task64 a)" "fld64 (p + 152) 56 (pr_mem (lgdt here (p + 152) s)) = snd (task64 a)"
    unfolding fld64_def b fld_shift using task lg by (simp_all add: fld64_def)
  then show "pr_gdtr t = (63, p + 152)" "pr_cs t = KTEXT_SEL" "pr_gs t = pr_gs s" "pr_task t = a"
    by (simp_all add: t_def segment_init_def ltr_def sel lgdt_fields Let_def tss_desc_base_task64)
  assume o: "off + n \<le> 200 \<or> 208 \<le> off \<and> off + n \<le> 232" "off < 232"
  have "fld p off n (put (p + of_nat 152) 48 (le64 w) m) = fld p off n m" for w m
    using o by (subst put_shift) auto
  then show "fld p off n (pr_mem t) = fld p off n (pr_mem s)"
    using o lg by (auto simp: t_def segment_init_def ltr_def sel lgdt_fields Let_def)
qed

lemma cpu_init_fields:
  fixes here :: u64 and n :: u32
  assumes "apart page 232 (pr_rsp s - 16) 16"
  defines "t \<equiv> cpu_init here page n s"
  shows "mycpu t = page" "mycpu_id t = n" "pr_gs t = page" "pr_gdtr t = (63, page + 152)" "pr_cs t = KTEXT_SEL" "pr_task t = page + 48"
    "fld64 page 160 (pr_mem t) = ktext64" "fld64 page 168 (pr_mem t) = kdata64" "fld64 page 176 (pr_mem t) = udata64"
    "fld64 page 184 (pr_mem t) = utext64" "fld64 page 52 (pr_mem t) = 0" "fld64 page 84 (pr_mem t) = page + 0x40400"
    "fld64 page 92 (pr_mem t) = page + 0x40600" "fld64 page 100 (pr_mem t) = page + 0x40800" "cpu_proc page t = None"
proof -
  define c where "c = \<lparr>self_ptr = page, ureg = 0, pc_kstack = 0, pc_id = n, clock_freq = tschz, pc_scheduler = 0,
    pc_ts = task_state_new (top_as_u64 (page + 1024)) (top_as_u64 (page + (1024 + 512))) (top_as_u64 (page + 2048)),
    pc_gdt = gdt_new (page + 48), pc_ncli = 0, pc_saved_intr_status = False, pc_proc = 0\<rparr>"
  define u where "u = s\<lparr>pr_mem := write_percpu page c (pr_mem s), pr_gs := page\<rparr>"
  have t: "t = segment_init here (page + 152) u" by (simp add: t_def cpu_init_def u_def c_def Let_def)
  have "apart page 232 (pr_rsp u - 16) 16" "fld64 page 200 (pr_mem u) = fst (task64 (page + 48))" "fld64 page 208 (pr_mem u) = snd (task64 (page + 48))"
    using assms(1) by (simp_all add: u_def percpu_fields c_def gdt_new_def)
  note si = segment_init_fields [OF this, where here = here, folded t]
  have si64: "fld64 page off (pr_mem t) = fld64 page off (pr_mem u)" if "off + 8 \<le> 200 \<or> 208 \<le> off \<and> off + 8 \<le> 232" for off
    unfolding fld64_def by (subst si(5)) (use that in auto)
  show gs: "pr_gs t = page" "pr_gdtr t = (63, page + 152)" "pr_cs t = KTEXT_SEL" "pr_task t = page + 48" using si(1-4) by (simp_all add: u_def)
  show cpu: "mycpu t = page" unfolding mycpu_def gs(1) by (simp add: si64 u_def percpu_fields c_def)
  show "mycpu_id t = n" unfolding mycpu_id_def cpu using si(5) [of 24 4] by (simp add: u_def percpu_fields c_def)
  show "fld64 page 160 (pr_mem t) = ktext64" "fld64 page 168 (pr_mem t) = kdata64" "fld64 page 176 (pr_mem t) = udata64"
    "fld64 page 184 (pr_mem t) = utext64" "fld64 page 52 (pr_mem t) = 0" "fld64 page 84 (pr_mem t) = page + 0x40400"
    "fld64 page 92 (pr_mem t) = page + 0x40600" "fld64 page 100 (pr_mem t) = page + 0x40800" "cpu_proc page t = None"
    by (simp_all add: cpu_proc_def si64 u_def percpu_fields c_def gdt_new_def task_state_new_def top_as_u64_def SMALL_STACK_SIZE_def)
qed

text \<open>
  \<open>syscall\<close> and \<open>sysretq\<close> as the processor derives them from the registers. Processors of one vendor do not set the privilege
  level of the stack segment on return.
\<close>

definition msr_syscall :: "processor \<Rightarrow> machine \<Rightarrow> machine" where
  "msr_syscall s m = (let sel = ucast (drop_bit 32 (pr_msrs s MSR_STAR)) :: u16
     in m\<lparr>regs := (regs m)(RCX := rip_reg m, R11 := flags_reg m), rip_reg := pr_msrs s MSR_LSTAR,
          cs_reg := sel AND 0xFFFC, ss_reg := sel + 8, flags_reg := flags_reg m AND NOT (pr_msrs s MSR_FMASK)\<rparr>)"

definition msr_sysret :: "bool \<Rightarrow> processor \<Rightarrow> machine \<Rightarrow> machine" where
  "msr_sysret keeps_rpl s m = (let sel = ucast (drop_bit 48 (pr_msrs s MSR_STAR)) :: u16
     in m\<lparr>rip_reg := regs m RCX, flags_reg := regs m R11, cs_reg := (sel + 16) OR 3,
          ss_reg := (if keeps_rpl then sel + 8 else (sel + 8) OR 3)\<rparr>)"

lemma wrmsr_halves: "push_bit 32 (ucast (ucast (drop_bit 32 v) :: u32)) OR ucast (ucast v :: u32) = (v :: u64)"
  by (rule bit_word_eqI) (auto simp: bit_simps)

lemma rdmsr_wrmsr: "rdmsr i (wrmsr i v s) = v"
  by (simp add: rdmsr_def wrmsr_def Let_def wrmsr_halves)

lemma syscall_init_msrs:
  "pr_msrs (syscall_init enter s) MSR_LSTAR = enter" "pr_msrs (syscall_init enter s) MSR_STAR = star"
  "pr_msrs (syscall_init enter s) MSR_FMASK = sfmask"
  by (simp_all add: syscall_init_def wrmsr_def Let_def wrmsr_halves)

lemma syscall_init_paths:
  "msr_syscall (syscall_init enter s) m = hw_syscall enter m" "msr_sysret b (syscall_init enter s) m = sysretq m"
proof -
  have star: "star = 0x0013000800000000" by (simp add: star_def UTEXT_SEL_def KTEXT_SEL_def)
  show "msr_syscall (syscall_init enter s) m = hw_syscall enter m"
    by (simp add: msr_syscall_def hw_syscall_def syscall_init_msrs star KTEXT_SEL_def KDATA_SEL_def)
  show "msr_sysret b (syscall_init enter s) m = sysretq m"
    by (simp add: msr_sysret_def sysretq_def syscall_init_msrs star UTEXT_SEL_def UDATA_SEL_def)
qed

lemma without_intrs_const:
  assumes "cpu_ok c" "ncli c \<noteq> -1"
  obtains c2 where "without_intrs (\<lambda>_. r) c = Ok (r, c2)" "intr_en c2 = intr_en c" "ncli c2 = ncli c" "cpu_ok c2"
proof -
  from push_intr_disable_Ok [OF assms(2)] obtain c1 where c1: "push_intr_disable c = Ok c1" by blast
  from push_pop_inverse [OF assms(1) c1] obtain c2 where
    "pop_intr_disable c1 = Ok c2" "intr_en c2 = intr_en c" "ncli c2 = ncli c" "cpu_ok c2" by blast
  then show thesis using c1 by (intro that) (simp_all add: without_intrs_def Let_def)
qed

lemma fld64_shift: "fld64 (p + of_nat b) off m = fld64 p (b + off) m"
  by (simp add: fld64_def fld_shift)

lemma set_proc_stacks:
  fixes t :: processor
  assumes t: "mycpu t = page" "pr_gs t = page" "pr_task t = page + of_nat 48" and c: "cpu_ok c" "ncli c \<noteq> -1" and pr: "pr \<noteq> 0"
  shows "\<exists>c2 u. set_proc (mycpu t) pr (Some a) c t = Ok (c2, u) \<and> intr_en c2 = intr_en c \<and> ncli c2 = ncli c \<and>
      (\<exists>c3. myproc c2 u = Ok (pr, c3)) \<and> fld64 (pr_task u) 4 (pr_mem u) = a + 4096 \<and>
      (\<forall>m. kernel_gs_base m = pr_gs u \<longrightarrow> (\<forall>x. words m x = fld64 x 0 (pr_mem u)) \<longrightarrow> kstack_of m = a + 4096) \<and>
      (let v = clear_proc (mycpu u) u in cpu_proc (mycpu v) v = None \<and> fld64 (pr_task v) 4 (pr_mem v) = 0)"
proof -
  define u where "u = t\<lparr>pr_mem := put page 52 (le64 (a + 4096)) (put page 16 (le64 (a + 4096)) (put page 224 (le64 pr) (pr_mem t)))\<rparr>"
  obtain c2 where c2: "set_proc page pr (Some a) c t = Ok (c2, u)" "intr_en c2 = intr_en c" "ncli c2 = ncli c" "cpu_ok c2"
    by (rule without_intrs_const [OF c, of "Ok u :: processor res"]) (auto simp: set_proc_def u_def Let_def)
  have gs: "pr_gs u = page" "pr_task u = page + of_nat 48" using t(2,3) by (simp_all add: u_def)
  have myu: "mycpu u = page" using t(1,2) by (simp add: mycpu_def u_def)
  have "cpu_proc page u = Some pr" using pr by (simp add: cpu_proc_def u_def)
  moreover obtain c3 where "without_intrs (\<lambda>_. cpu_proc page u) c2 = Ok (cpu_proc page u, c3)"
    by (rule without_intrs_const [of c2]) (use c2(3,4) c(2) in auto)
  ultimately have "\<exists>c3. myproc c2 u = Ok (pr, c3)" by (simp add: myproc_def try_myproc_def myu)
  moreover have "kstack_of m = a + 4096" if "kernel_gs_base m = pr_gs u" "\<forall>x. words m x = fld64 x 0 (pr_mem u)" for m
    using that gs(1) fld64_shift [of page 16 0 "pr_mem u"] by (simp add: kstack_of_def u_def)
  moreover have "fld64 (pr_task u) 4 (pr_mem u) = a + 4096" unfolding gs(2) fld64_shift by (simp add: u_def)
  moreover have "mycpu (clear_proc page u) = page" using myu gs(1) by (simp add: mycpu_def clear_proc_def)
  then have "let v = clear_proc (mycpu u) u in cpu_proc (mycpu v) v = None \<and> fld64 (pr_task v) 4 (pr_mem v) = 0"
    unfolding myu Let_def using gs(2) fld64_shift [of page 48 4] by (simp add: cpu_proc_def clear_proc_def Let_def)
  ultimately show ?thesis unfolding t(1) using c2(1-3) by blast
qed

text \<open>
  C14: A processor that has been initialised has its structures where it looks for them. After \<open>CPU::init\<close>, its GS base leads to the page
  with its number; each of the four selectors lies within the limit of the descriptor table and selects its descriptor there; and the
  task register refers to the task state in the page. After \<open>syscall::init\<close> the instructions \<open>syscall\<close> and \<open>sysretq\<close> change to the
  segments of the kernel and of user programs, whether or not the processor sets the privilege level of the stack segment. When
  a process is set as the running one, it is the result of \<open>myproc\<close>, and both ways into the kernel, by a trap through the
  task state and by a system call through the GS base, arrive at the top of its kernel stack; interrupts are then as they were. When it is
  cleared there is no process and no stack for traps.
\<close>
theorem processor_ready:
  assumes "apart page 232 (pr_rsp s - 16) 16" and c: "cpu_ok c" "ncli c \<noteq> -1" and pr: "pr \<noteq> 0"
  shows "let t = syscall_init enter (cpu_init here page n s) in
    mycpu t = page \<and> mycpu_id t = n \<and> pr_cs t = KTEXT_SEL \<and> pr_task t = page + 48 \<and>
    (\<forall>(sel, d) \<in> {(KTEXT_SEL, ktext64), (KDATA_SEL, kdata64), (UDATA_SEL, udata64), (UTEXT_SEL, utext64)}.
       unat sel + 7 \<le> unat (fst (pr_gdtr t)) \<and> fld64 (snd (pr_gdtr t)) (unat sel) (pr_mem t) = d) \<and>
    (\<forall>m b. msr_syscall t m = hw_syscall enter m \<and> msr_sysret b t m = sysretq m) \<and>
    (\<exists>c2 u. set_proc (mycpu t) pr (Some a) c t = Ok (c2, u) \<and> intr_en c2 = intr_en c \<and> ncli c2 = ncli c \<and>
      (\<exists>c3. myproc c2 u = Ok (pr, c3)) \<and> fld64 (pr_task u) 4 (pr_mem u) = a + 4096 \<and>
      (\<forall>m. kernel_gs_base m = pr_gs u \<longrightarrow> (\<forall>x. words m x = fld64 x 0 (pr_mem u)) \<longrightarrow> kstack_of m = a + 4096) \<and>
      (let v = clear_proc (mycpu u) u in cpu_proc (mycpu v) v = None \<and> fld64 (pr_task v) 4 (pr_mem v) = 0))"
proof -
  define t where "t = syscall_init enter (cpu_init here page n s)"
  note ci = cpu_init_fields [OF assms(1), where here = here and n = n]
  have same: "pr_mem t = pr_mem (cpu_init here page n s)" "pr_gs t = pr_gs (cpu_init here page n s)" "pr_cs t = pr_cs (cpu_init here page n s)"
    "pr_task t = pr_task (cpu_init here page n s)" "pr_gdtr t = pr_gdtr (cpu_init here page n s)"
    by (simp_all add: t_def syscall_init_def wrmsr_def Let_def)
  have my: "mycpu t = page" "mycpu_id t = n" using ci(1,2) unfolding mycpu_def mycpu_id_def same by simp_all
  have sel: "\<forall>(sel, d) \<in> {(KTEXT_SEL, ktext64), (KDATA_SEL, kdata64), (UDATA_SEL, udata64), (UTEXT_SEL, utext64)}.
       unat sel + 7 \<le> unat (fst (pr_gdtr t)) \<and> fld64 (snd (pr_gdtr t)) (unat sel) (pr_mem t) = d"
    using fld64_shift [of page 152] ci(7-10) unfolding same ci(4)
    by (simp add: KTEXT_SEL_def KDATA_SEL_def UDATA_SEL_def UTEXT_SEL_def)
  have task: "pr_task t = page + of_nat 48" using ci(6) by (simp add: same)
  have gs: "pr_gs t = page" "pr_cs t = KTEXT_SEL" using ci(3,5) by (simp_all add: same)
  show ?thesis unfolding t_def [symmetric] Let_def
    by (intro conjI allI my sel gs(2) set_proc_stacks [OF my(1) gs(1) task c pr, unfolded Let_def])
      (simp_all add: task, simp_all add: t_def syscall_init_paths)
qed

text \<open>The first processor, on a page of its own.\<close>

theorem processor_ready_witness:
  "\<exists>s :: processor. let t = syscall_init 0x8000 (cpu_init 0x9000 0xFFFF800000300000 0 s) in
     mycpu t = 0xFFFF800000300000 \<and> mycpu_id t = 0 \<and>
     (\<exists>c2 u. set_proc (mycpu t) 0xFFFF800000400000 (Some 0xFFFF800000500000) \<lparr>cpu_id = 0, ncli = 0, saved_intr_status = False, intr_en = True\<rparr> t = Ok (c2, u) \<and>
        intr_en c2 \<and> fld64 (pr_task u) 4 (pr_mem u) = 0xFFFF800000501000)"
proof -
  let ?s = "\<lparr>pr_mem = \<lambda>_. 0, pr_rsp = 0xFFFF800000200000, pr_cs = 0, pr_gs = 0, pr_gdtr = (0, 0), pr_idtr = (0, 0), pr_task = 0, pr_msrs = \<lambda>_. 0\<rparr> :: processor"
  have "apart 0xFFFF800000300000 232 (pr_rsp ?s - 16) 16" by (simp add: apart_def)
  from processor_ready [OF this, of "\<lparr>cpu_id = 0, ncli = 0, saved_intr_status = False, intr_en = True\<rparr>" "0xFFFF800000400000" "0x8000" "0x9000" 0 "0xFFFF800000500000"]
  show ?thesis unfolding Let_def by (intro exI [of _ ?s]) (auto simp: cpu_ok_def)
qed

text \<open>
  The stacks for the three interrupts that have their own do not lie in the page that has room for them: \<open>top_as_u64\<close> adds the size in
  elements, and the stack pointers are 256 KiB further on.
\<close>

theorem interrupt_stacks_outside:
  assumes "apart page 232 (pr_rsp s - 16) 16" "off \<in> {36, 44, 52}"
  shows "4096 < unat (fld64 (pr_task (cpu_init here page n s)) off (pr_mem (cpu_init here page n s)) - page)"
  using assms(2) cpu_init_fields(12-14) [OF assms(1), of here n] fld64_shift [of page 48]
  by (auto simp: cpu_init_fields(6) [OF assms(1)])

text \<open>Through the loaded table the processor finds for each vector the gate that was made for it.\<close>

theorem gates_found:
  fixes vectors :: "nat \<Rightarrow> u64"
  assumes "apart idt 4096 (pr_rsp s - 16) 16" "v < 256"
  defines "t \<equiv> trap_init idt (vector_init idt vectors s)"
  shows "16 * v + 15 \<le> unat (fst (pr_idtr t)) \<and>
    (fld64 (snd (pr_idtr t)) (16 * v) (pr_mem t), fld64 (snd (pr_idtr t)) (16 * v + 8) (pr_mem t)) = make_gate (vectors v) v"
proof -
  let ?bs = "concat (map gate_bytes (idt_init vectors))"
  have len: "length ?bs = 4096" by (simp add: length_concat comp_def gate_bytes_def sum_list_triv idt_init_def)
  have idtr: "pr_idtr t = (4095, idt)"
    using operand_back [of "vector_init idt vectors s" 4095 idt]
    by (simp add: t_def trap_init_def lidt_def vector_init_def table_operand_def Let_def)
  have sl: "take 16 (drop (16 * v) ?bs) = gate_bytes (make_gate (vectors v) v)"
    by (subst slice_concat) (use assms(2) in \<open>simp_all add: gate_bytes_def idt_init_def\<close>)
  have fl: "fld64 idt (16 * v + k) (pr_mem t) = of_nat (from_le (take 8 (drop (16 * v + k) ?bs)))" if "k \<le> 8" for k
  proof -
    have "apart (idt + of_nat (16 * v + k)) 8 (pr_rsp s - 16) b" if "b \<le> 16" for b
      using apart_sub [OF assms(1), of "16 * v + k" 8] that \<open>k \<le> 8\<close> assms(2) by (simp add: apart_def)
    then have "fld idt (16 * v + k) 8 (pr_mem t) = fld idt (16 * v + k) 8 (put idt 0 ?bs (pr_mem s))"
      by (simp add: t_def trap_init_def lidt_def vector_init_def table_operand_def Let_def fld_put_apart)
    also have "\<dots> = take 8 (drop (16 * v + k) ?bs)" by (subst fld_put_part) (use that assms(2) len in auto)
    finally show ?thesis by (simp add: fld64_def)
  qed
  have "take 8 (drop (16 * v) ?bs) = take 8 (gate_bytes (make_gate (vectors v) v))" "take 8 (drop (16 * v + 8) ?bs) = drop 8 (gate_bytes (make_gate (vectors v) v))"
    unfolding sl [symmetric] by (simp_all add: drop_take add.commute)
  then show ?thesis using fl [of 0] fl [of 8] assms(2) by (simp add: idtr gate_bytes_def)
qed

section \<open>Waiting long enough\<close>

lemma nano_wait_ends:
  "sorted (s # ts) \<Longrightarrow> \<exists>t \<in> set ts. delta \<le> t - s \<Longrightarrow> \<exists>t \<in> set ts. nano_wait s delta ts = Ok (Some t) \<and> delta \<le> t - s"
  by (induction ts) auto

theorem nanosleep_waits:
  assumes "n * unat freq < 2 ^ 128" "sorted (s # ts)" "\<exists>t \<in> set ts. n * unat freq \<le> (t - s) * 1000000000"
  shows "\<exists>t \<in> set ts. nanosleep freq n (s # ts) = Ok (Some t) \<and> n * unat freq div 1000000000 \<le> t - s"
proof -
  have "\<exists>t \<in> set ts. n * unat freq div 1000000000 \<le> t - s" using assms(3) by (metis div_le_mono nonzero_mult_div_cancel_right zero_neq_numeral)
  then show ?thesis using nano_wait_ends [OF assms(2)] assms(1) by (auto simp: nanosleep_def not_le)
qed

end
