(* ===== verification/DupProps.thy ===== *)
theory DupProps
  imports Vm
begin

text \<open>
  Copying an address space. \<open>PageTable::dup\<close> makes the new address space of a child out of free pages only: the
  pages and tables of the parent are left as they are, and every user page of the child is a copy on a page of its own.
\<close>

section \<open>Trees that are not written to\<close>

lemma pt_ok_frame:
  assumes ok: "pt_ok m root ps" and fl: "free_list m2 qs" "set qs \<subseteq> set ps"
    and same: "\<And>q. q \<notin> set ps \<Longrightarrow> pages m2 q = pages m q"
  shows "pt_ok m2 root qs" "\<And>js. idxs js \<Longrightarrow> walk m2 root js = walk m root js" "\<And>va. entry_for m2 root va = entry_for m root va"
proof -
  have s: "pages m2 a = pages m a" if "idxs is" "walk m root is = Some a" for "is" a
    using same pt_okD(5) [OF ok that] by blast
  show w: "walk m2 root js = walk m root js" if "idxs js" for js by (rule walk_frame [OF s that])
  show "entry_for m2 root va = entry_for m root va" for va by (rule entry_for_frame [OF s pt_okD(1) [OF ok]])
  have "js = ks" if "idxs js" "idxs ks" "walk m2 root js = Some a" "walk m2 root ks = Some a" for js ks a
    using that pt_okD(4) [OF ok that(1,2)] by (simp add: w)
  moreover have "a \<notin> set qs" if "idxs js" "walk m2 root js = Some a" for js a
    using that pt_okD(5) [OF ok that(1)] fl(2) by (auto simp: w)
  ultimately show "pt_ok m2 root qs" unfolding pt_ok_def using pt_okD(1,6) [OF ok] fl by blast
qed

text \<open>Addresses of the user half: the first index is below 256.\<close>

definition user_path :: "nat list \<Rightarrow> bool" where
  "user_path js \<longleftrightarrow> (js \<noteq> [] \<longrightarrow> hd js < 256)"

section \<open>The kernel half\<close>

lemma entry_at_half:
  assumes "length pg = PAGE_SIZE" "pages m t = overwrite page_empty 2048 (slice pg 2048 4096)" "j < 512"
  shows "entry_at m t j = (if j < 256 then 0 else of_nat (from_le (slice pg (8 * j) (8 * j + 8))))"
proof (cases "j < 256")
  case True
  have "slice (overwrite page_empty 2048 (slice pg 2048 4096)) (8 * j) (8 * j + 8) = slice page_empty (8 * j) (8 * j + 8)"
    using True assms(1) by (intro slice_overwrite_other) (simp_all add: page_empty_def)
  also have "\<dots> = replicate 8 0" using True by (simp add: slice_def page_empty_def)
  finally show ?thesis using True assms(2) by (simp add: entry_at_def eval_nat_numeral)
next
  case False
  have "slice (overwrite page_empty 2048 (slice pg 2048 4096)) (8 * j) (8 * j + 8) = slice pg (8 * j) (8 * j + 8)"
    using False assms(1,3) by (intro nth_equalityI) (auto simp: nth_slice nth_overwrite page_empty_def)
  then show ?thesis using False assms(2) by (simp add: entry_at_def)
qed

lemma dup_kern_run:
  assumes ok: "pt_ok m src (t # ps)"
  obtains m1 where "dup_kern src m = (Ok (Some t), m1)" "free_list m1 ps" "\<forall>q. q \<noteq> t \<longrightarrow> pages m1 q = pages m q"
    "\<forall>j < 512. entry_at m1 t j = (if j < 256 then 0 else entry_at m src j)"
proof -
  obtain m0 where m0: "kalloc m = (Some t, m0)" "free_list m0 ps" "pages m0 t = page_empty"
    "\<And>q. q \<noteq> t \<Longrightarrow> pages m0 q = pages m q"
    using kpages.alloc_some [OF pt_okD(2) [OF ok]] by blast
  have st: "src \<noteq> t" using pt_okD(5) [OF ok, of "[]" src] by (auto simp: idxs_def)
  have tps: "t \<notin> set ps" using kpages.avail_distinct [OF pt_okD(2) [OF ok]] by simp
  let ?pg = "overwrite page_empty 2048 (slice (pages m src) 2048 4096)"
  define m1 where "m1 = m0\<lparr>pages := (pages m0)(t := ?pg)\<rparr>"
  have len: "length (pages m src) = PAGE_SIZE" using pt_okD(3) [OF ok] by (simp add: pages_wf_def)
  have "dup_kern src m = (Ok (Some t), m1)"
    using m0 st pt_okD(1) [OF ok] by (simp add: dup_kern_def and_then_def kalloc_op_def bnd_run basic_run kop_direct m1_def)
  moreover have "free_list m1 ps" using m0(2) tps len by (auto simp: free_list_def m1_def chain_upd page_empty_def)
  moreover have "entry_at m1 t j = (if j < 256 then 0 else entry_at m src j)" if "j < 512" for j
    using entry_at_half [OF len _ that, of m1 t] by (simp add: m1_def entry_at_def)
  ultimately show thesis using that m0(4) by (simp add: m1_def)
qed

lemma dup_kern_tree:
  assumes ok: "pt_ok m src (t # ps)" and fl: "free_list m1 ps" and same: "\<forall>q. q \<noteq> t \<longrightarrow> pages m1 q = pages m q"
    and E: "\<forall>j < 512. entry_at m1 t j = (if j < 256 then 0 else entry_at m src j)"
  shows "idxs js \<Longrightarrow> walk m1 t js = (if js = [] then Some t else if hd js < 256 then None else walk m src js)"
proof (induction js rule: rev_induct)
  case (snoc j js)
  note js = idxs_snoc [OF snoc.prems]
  note IH = snoc.IH [OF conjunct1 [OF js]]
  show ?case
  proof (cases "js = []")
    case True
    then show ?thesis using E js by (simp add: walk_snoc)
  next
    case False
    show ?thesis
    proof (cases "hd js < 256 \<or> walk m src js = None")
      case True
      then show ?thesis using IH False by (auto simp: walk_snoc)
    next
      case F: False
      then obtain a where a: "walk m src js = Some a" by auto
      then have "a \<noteq> t" using pt_okD(5) [OF ok _ a] js by auto
      then have "entry_at m1 a j = entry_at m a j" using entry_at_cong same by blast
      then show ?thesis using IH False F a by (simp add: walk_snoc)
    qed
  qed
qed simp

lemma dup_kern_ok:
  assumes ok: "pt_ok m src (t # ps)" and fl: "free_list m1 ps" and same: "\<forall>q. q \<noteq> t \<longrightarrow> pages m1 q = pages m q"
    and E: "\<forall>j < 512. entry_at m1 t j = (if j < 256 then 0 else entry_at m src j)"
  shows "pt_ok m1 t ps"
proof -
  note w = dup_kern_tree [OF ok fl same E]
  have old: "a \<noteq> t \<and> a \<notin> set ps" if "idxs js" "walk m src js = Some a" for js a
    using pt_okD(5) [OF ok that] by auto
  have "js = ks" if "idxs js" "idxs ks" "walk m1 t js = Some a" "walk m1 t ks = Some a" for js ks a
    using that pt_okD(4) [OF ok that(1,2)] old by (auto simp: w split: if_splits)
  moreover have "a \<notin> set ps" if "idxs js" "walk m1 t js = Some a" for js a
    using that old kpages.avail_distinct [OF pt_okD(2) [OF ok]] by (auto simp: w split: if_splits)
  moreover have "kpage q" if "q \<in> set ps" for q using pt_okD(6) [OF ok, of q] that by simp
  moreover have "t \<noteq> 0" using pt_okD(6) [OF ok, of t] by (simp add: kpage_def)
  ultimately show ?thesis unfolding pt_ok_def using fl by blast
qed

lemma dup_kern_entries:
  assumes ok: "pt_ok m src (t # ps)" and fl: "free_list m1 ps" and same: "\<forall>q. q \<noteq> t \<longrightarrow> pages m1 q = pages m q"
    and E: "\<forall>j < 512. entry_at m1 t j = (if j < 256 then 0 else entry_at m src j)"
  shows "entry_for m1 t va = (if level_index 4 va < 256 then None else entry_for m src va)"
proof -
  have "walk m1 t (vpath va) = (if level_index 4 va < 256 then None else walk m src (vpath va))"
    using dup_kern_tree [OF ok fl same E idxs_vpath] by (simp add: vpath_def)
  moreover have "l1_entry m1 a va = l1_entry m a va" if "walk m src (vpath va) = Some a" for a
    using pt_okD(5) [OF ok idxs_vpath that] same entry_at_cong [of m1 a m] by (simp add: l1_entry_def)
  moreover have "t \<noteq> 0" using pt_okD(6) [OF ok, of t] by (simp add: kpage_def)
  ultimately show ?thesis using pt_okD(1) [OF ok] by (cases "walk m src (vpath va)") (auto simp: entry_for_walk)
qed

section \<open>Copying pages\<close>

text \<open>
  The state while pages are copied into \<open>t\<close>: \<open>U\<close> are the pages that were free at the start and \<open>D\<close> the addresses that have been
  copied, to the pages \<open>f\<close>.
\<close>

definition copied_entry :: "pagemem \<Rightarrow> usize \<Rightarrow> (usize \<Rightarrow> usize) \<Rightarrow> usize \<Rightarrow> entry" where
  "copied_entry m0 src f k = enable (entry_new (addr_to_phys (f k)) (entry_flags (the (entry_for m0 src k))))"

definition copying :: "pagemem \<Rightarrow> usize \<Rightarrow> usize set \<Rightarrow> pagemem \<Rightarrow> usize \<Rightarrow> usize set \<Rightarrow> (usize \<Rightarrow> usize) \<Rightarrow> pagemem \<Rightarrow> usize list \<Rightarrow> bool" where
  "copying m0 src U m1 t D f m ps \<longleftrightarrow> pt_ok m t ps \<and> set ps \<subseteq> U \<and> (\<forall>q. q \<notin> U \<longrightarrow> pages m q = pages m0 q) \<and>
     (\<forall>js a. idxs js \<longrightarrow> user_path js \<longrightarrow> walk m t js = Some a \<longrightarrow> a \<in> U) \<and>
     (\<forall>k \<in> D. f k \<in> U \<and> f k \<notin> set ps \<and> kpage (f k) \<and> (\<forall>js. idxs js \<longrightarrow> walk m t js \<noteq> Some (f k)) \<and>
        pages m (f k) = pages m0 (virt_page_addr (the (entry_for m0 src k))) \<and> entry_for m t k = Some (copied_entry m0 src f k)) \<and>
     inj_on f D \<and> (\<forall>vb. (\<forall>k \<in> D. \<not> same_page vb k) \<longrightarrow> entry_for m t vb = entry_for m1 t vb)"

lemma copyingD:
  assumes "copying m0 src U m1 t D f m ps"
  shows "pt_ok m t ps" "set ps \<subseteq> U" "\<And>q. q \<notin> U \<Longrightarrow> pages m q = pages m0 q"
    "\<And>js a. idxs js \<Longrightarrow> user_path js \<Longrightarrow> walk m t js = Some a \<Longrightarrow> a \<in> U"
    "\<And>k. k \<in> D \<Longrightarrow> f k \<in> U \<and> f k \<notin> set ps \<and> kpage (f k)" "\<And>k js. k \<in> D \<Longrightarrow> idxs js \<Longrightarrow> walk m t js \<noteq> Some (f k)"
    "\<And>k. k \<in> D \<Longrightarrow> pages m (f k) = pages m0 (virt_page_addr (the (entry_for m0 src k)))"
    "\<And>k. k \<in> D \<Longrightarrow> entry_for m t k = Some (copied_entry m0 src f k)"
    "inj_on f D" "\<And>vb. (\<forall>k \<in> D. \<not> same_page vb k) \<Longrightarrow> entry_for m t vb = entry_for m1 t vb"
  using assms unfolding copying_def by blast+

lemma path_tables_walk:
  assumes "a \<in> path_tables m t va"
  obtains n where "idxs (take n (vpath va))" "walk m t (take n (vpath va)) = Some a"
proof -
  obtain n where "walk m t (take n (vpath va)) = Some a" using assms by (auto simp: path_tables_def)
  moreover have "idxs (take n (vpath va))" using idxs_vpath [of va] by (auto simp: idxs_def dest: in_set_takeD)
  ultimately show thesis using that by blast
qed

lemma path_tables_user:
  assumes "\<And>js a. idxs js \<Longrightarrow> user_path js \<Longrightarrow> walk m t js = Some a \<Longrightarrow> a \<in> U" "level_index 4 va < 256"
  shows "path_tables m t va \<subseteq> U"
proof
  fix a assume "a \<in> path_tables m t va"
  then obtain n where n: "idxs (take n (vpath va))" "walk m t (take n (vpath va)) = Some a" by (rule path_tables_walk)
  have "user_path (take n (vpath va))" using assms(2) by (cases n) (simp_all add: user_path_def vpath_def)
  then show "a \<in> U" using assms(1) n by blast
qed

lemma same_page_sym: "same_page a b \<longleftrightarrow> same_page b a"
  by (auto simp: same_page_def)

text \<open>A fresh page that has been filled: nothing in the tree is different.\<close>

lemma copying_alloc:
  assumes c: "copying m0 src U m1 t D f m (p # ps)" and fl: "free_list m3 ps"
    and same: "\<forall>q. q \<noteq> p \<longrightarrow> pages m3 q = pages m q"
  shows "copying m0 src U m1 t D f m3 ps" "\<forall>js. idxs js \<longrightarrow> walk m3 t js \<noteq> Some p" "p \<notin> set ps" "kpage p" "p \<in> U"
    "\<forall>k \<in> D. f k \<noteq> p"
proof -
  note ok = copyingD(1) [OF c]
  have sub: "set ps \<subseteq> set (p # ps)" by auto
  note fr = pt_ok_frame [OF ok fl sub, simplified] 
  have w: "walk m3 t js = walk m t js" if "idxs js" for js using fr(2) same that by auto
  have ef: "entry_for m3 t va = entry_for m t va" for va using fr(3) same by auto
  have ok3: "pt_ok m3 t ps" using fr(1) same by auto
  show "\<forall>js. idxs js \<longrightarrow> walk m3 t js \<noteq> Some p" using pt_okD(5) [OF ok] w by fastforce
  show "p \<notin> set ps" "kpage p" "p \<in> U"
    using kpages.avail_distinct [OF pt_okD(2) [OF ok]] pt_okD(6) [OF ok] copyingD(2) [OF c] by auto
  show fp: "\<forall>k \<in> D. f k \<noteq> p" using copyingD(5) [OF c] by auto
  have "pages m3 q = pages m0 q" if "q \<notin> U" for q using that same copyingD(3) [OF c] \<open>p \<in> U\<close> by (cases "q = p") auto
  then show "copying m0 src U m1 t D f m3 ps"
    using c ok3 w same fp unfolding copying_def by (simp add: ef)
qed

lemma copying_map:
  assumes c: "copying m0 src U m1 t D f m ps" and k: "level_index 4 k < 256" "\<forall>j \<in> D. \<not> same_page k j"
    and p: "p \<in> U" "p \<notin> set ps" "kpage p" "\<forall>js. idxs js \<longrightarrow> walk m t js \<noteq> Some p"
      "pages m p = pages m0 (virt_page_addr (the (entry_for m0 src k)))" "\<forall>j \<in> D. f j \<noteq> p"
    and ok: "pt_ok m2 t ps2" and ef: "\<forall>vb. entry_for m2 t vb = (if same_page vb k
        then Some (enable (entry_new (addr_to_phys p) (entry_flags (the (entry_for m0 src k))))) else entry_for m t vb)"
    and g: "grows (path_tables m t k) t m ps m2 ps2"
  shows "copying m0 src U m1 t (insert k D) (f(k := p)) m2 ps2"
proof -
  note cD = copyingD [OF c]
  have pt: "path_tables m t k \<subseteq> U" by (rule path_tables_user [OF cD(4) k(1)])
  have ps2: "set ps2 \<subseteq> set ps" and pg: "\<And>q. q \<notin> set ps \<Longrightarrow> q \<notin> path_tables m t k \<Longrightarrow> pages m2 q = pages m q"
    using g by (auto simp: grows_def)
  have notab: "q \<notin> path_tables m t k" if "\<And>js. idxs js \<Longrightarrow> walk m t js \<noteq> Some q" for q
    using that by (metis path_tables_walk)
  have kD: "k \<notin> D" using k(2) by (auto simp: same_page_def)
  have all: "(f(k := p)) j \<in> U \<and> (f(k := p)) j \<notin> set ps \<and> kpage ((f(k := p)) j) \<and> (\<forall>js. idxs js \<longrightarrow> walk m t js \<noteq> Some ((f(k := p)) j)) \<and>
      pages m ((f(k := p)) j) = pages m0 (virt_page_addr (the (entry_for m0 src j)))" if "j \<in> insert k D" for j
    using that p cD(5-7) [of j] by (cases "j = k") auto
  have "(f(k := p)) j \<in> U \<and> (f(k := p)) j \<notin> set ps2 \<and> kpage ((f(k := p)) j) \<and> (\<forall>js. idxs js \<longrightarrow> walk m2 t js \<noteq> Some ((f(k := p)) j)) \<and>
      pages m2 ((f(k := p)) j) = pages m0 (virt_page_addr (the (entry_for m0 src j)))" if "j \<in> insert k D" for j
  proof -
    note a = all [OF that]
    then have "pages m2 ((f(k := p)) j) = pages m ((f(k := p)) j)" using pg notab by blast
    moreover have "walk m2 t js \<noteq> Some ((f(k := p)) j)" if "idxs js" for js using grows_walk [OF g that] a that by blast
    ultimately show ?thesis using a ps2 by auto
  qed
  moreover have "entry_for m2 t j = Some (copied_entry m0 src (f(k := p)) j)" if "j \<in> insert k D" for j
    using that k(2) kD cD(8) [of j] by (cases "j = k") (auto simp: ef copied_entry_def same_page_sym [of j k] same_page_def [of k k])
  moreover have "inj_on (f(k := p)) (insert k D)"
    using cD(9) kD p(6) by (auto simp: inj_on_def)
  moreover have "entry_for m2 t vb = entry_for m1 t vb" if "\<forall>j \<in> insert k D. \<not> same_page vb j" for vb
    using that cD(10) [of vb] by (simp add: ef)
  moreover have "a \<in> U" if "idxs js" "user_path js" "walk m2 t js = Some a" for js a
    using grows_walk [OF g that(1,3)] cD(2,4) that by blast
  moreover have "pages m2 q = pages m0 q" if "q \<notin> U" for q using pg [of q] pt cD(2,3) that by auto
  moreover have "set ps2 \<subseteq> U" using ps2 cD(2) by blast
  ultimately show ?thesis using ok by (simp only: copying_def) simp
qed

lemma copy_page_run:
  assumes c: "copying m0 src U m1 t D f m ps" and src: "\<forall>is a. idxs is \<longrightarrow> walk m0 src is = Some a \<longrightarrow> a \<notin> U" "src \<noteq> 0"
    and e: "entry_for m0 src (of_nat k) = Some e" "virt_page_addr e \<notin> U"
    and k: "level_index 4 (of_nat k) < 256" "\<forall>j \<in> D. \<not> same_page (of_nat k) j" and len: "4 \<le> length ps"
  obtains p m2 ps2 where "copy_page src t k m = (Ok (Some ()), m2)"
    "copying m0 src U m1 t (insert (of_nat k) D) (f(of_nat k := p)) m2 ps2" "length ps \<le> length ps2 + 4"
proof -
  note cD = copyingD [OF c]
  obtain p qs where ps: "ps = p # qs" using len by (cases ps) auto
  obtain m' where m': "kalloc m = (Some p, m')" "free_list m' qs" "\<And>q. q \<noteq> p \<Longrightarrow> pages m' q = pages m q"
    using kpages.alloc_some [of m p qs] pt_okD(2) [OF cD(1)] ps by blast
  define m3 where "m3 = m'\<lparr>pages := (pages m')(p := pages m' (virt_page_addr e))\<rparr>"
  have ef: "entry_for m src (of_nat k) = Some e"
    using entry_for_frame [of m0 src m "of_nat k"] cD(3) src e(1) by auto
  have pU: "p \<in> U" "p \<notin> set qs" using cD(2) kpages.avail_distinct [OF pt_okD(2) [OF cD(1)]] ps by auto
  have fl: "free_list m3 qs" using m'(2) pU(2) by (auto simp: free_list_def m3_def chain_upd)
  have "\<forall>q. q \<noteq> p \<longrightarrow> pages m3 q = pages m q" using m'(3) by (simp add: m3_def)
  note al = copying_alloc [OF c [unfolded ps] fl this]
  have pg: "pages m3 p = pages m0 (virt_page_addr (the (entry_for m0 src (of_nat k))))"
    using e pU(1) m'(3) [of "virt_page_addr e"] cD(3) [of "virt_page_addr e"] by (auto simp: m3_def)
  have run: "copy_page src t k m = catchk (map_to t (addr_to_phys p) (of_nat k) (entry_flags e))
      (\<lambda>_. ret (Some ())) (\<lambda>_. seqk (kfree p) (ret None)) m3"
    using ef m'(1) entry_for_present [OF e(1)]
    by (simp add: copy_page_def kop_direct and_then_def kalloc_op_def bnd_run seqk_run basic_run m3_def)
  show thesis
  proof (cases rule: map_to_run [OF copyingD(1) [OF al(1)], of "addr_to_phys p" "of_nat k" "entry_flags e"])
    case (1 m2 ps2)
    have "copying m0 src U m1 t (insert (of_nat k) D) (f(of_nat k := p)) m2 ps2"
      by (rule copying_map [OF al(1) k al(5,3,4,2) pg al(6) 1(2) _ 1(4)]) (simp_all add: 1(3) e(1))
    then show thesis using that run 1(1,5) ps by (simp add: kop_simps)
  next
    case 2
    then show thesis using len ps by simp
  qed
qed

lemma copy_region_run:
  assumes src: "\<forall>is a. idxs is \<longrightarrow> walk m0 src is = Some a \<longrightarrow> a \<notin> U" "src \<noteq> 0"
    and e: "\<And>k. k \<in> set ks \<Longrightarrow> \<exists>e. entry_for m0 src (of_nat k) = Some e \<and> virt_page_addr e \<notin> U"
    and k: "\<And>k. k \<in> set ks \<Longrightarrow> level_index 4 (of_nat k) < 256" "distinct ks"
      "\<And>j k. j \<in> set ks \<Longrightarrow> k \<in> set ks \<Longrightarrow> same_page (of_nat j) (of_nat k) \<Longrightarrow> j = k"
  shows "copying m0 src U m1 t D f m ps \<Longrightarrow> \<forall>k \<in> set ks. \<forall>j \<in> D. \<not> same_page (of_nat k) j \<Longrightarrow> 4 * length ks \<le> length ps \<Longrightarrow>
    \<exists>g m2 ps2. copy_region src t ks m = (Ok (Some ()), m2) \<and> copying m0 src U m1 t (D \<union> of_nat ` set ks) g m2 ps2"
  using e k
proof (induction ks arbitrary: D f m ps)
  case Nil
  then show ?case by (auto simp: basic_run)
next
  case (Cons k ks)
  obtain e where e: "entry_for m0 src (of_nat k) = Some e" "virt_page_addr e \<notin> U" using Cons.prems(4) [of k] by auto
  have h: "level_index 4 (of_nat k) < 256" "\<forall>j \<in> D. \<not> same_page (of_nat k) j" "4 \<le> length ps"
    using Cons.prems(2,3,5) by auto
  obtain p m2 ps2 where s: "copy_page src t k m = (Ok (Some ()), m2)"
    "copying m0 src U m1 t (insert (of_nat k) D) (f(of_nat k := p)) m2 ps2" "length ps \<le> length ps2 + 4"
    by (rule copy_page_run [OF Cons.prems(1) src e h])
  have "\<exists>g m3 ps3. copy_region src t ks m2 = (Ok (Some ()), m3) \<and> copying m0 src U m1 t (insert (of_nat k) D \<union> of_nat ` set ks) g m3 ps3"
    using Cons.prems s(2,3) by (intro Cons.IH) (auto)
  then show ?case using s(1) by (auto simp: kop_simps)
qed

section \<open>The pages of a process\<close>

text \<open>What \<open>dup\<close> copies: the pages below the size of the process, and its stack.\<close>

definition user_pages :: "usize \<Rightarrow> nat list" where
  "user_pages sz = step_by 0 PAGE_SIZE (unat sz) @ step_by (unat USERSTACK) PAGE_SIZE (unat USEREND)"

lemma step_by_elem:
  assumes "k \<in> set (step_by s n f)" "0 < n"
  shows "s \<le> k \<and> k < f \<and> n dvd k - s"
proof -
  obtain i where i: "k = s + i * n" "i < (f - s + n - 1) div n"
    using assms(1) by (auto simp only: step_by_def set_map set_upt atLeastLessThan_iff)
  have "i * n + n \<le> f - s + n - 1" using i(2) assms(2) by (metis Suc_leI add.commute less_eq_div_iff_mult_less_eq mult_Suc)
  then show ?thesis using i(1) assms(2) by auto
qed

lemma distinct_step_by: "0 < n \<Longrightarrow> distinct (step_by s n f)"
  by (auto simp: step_by_def distinct_map inj_on_def)

lemma user_pages_elem:
  assumes "k \<in> set (user_pages sz)" "unat sz \<le> unat USERSTACK"
  shows "k < 2 ^ 47 \<and> 4096 dvd k"
proof -
  consider "k < unat sz" "4096 dvd k" | "unat USERSTACK \<le> k" "k < unat USEREND" "4096 dvd k - unat USERSTACK"
    using assms(1) by (auto simp: user_pages_def dest!: step_by_elem)
  then show ?thesis
  proof cases
    case 2
    have "(4096 :: nat) dvd unat USERSTACK" by simp
    then show ?thesis using 2 dvd_add [of 4096 "k - unat USERSTACK" "unat USERSTACK"] by simp
  qed (use assms(2) in simp)
qed

lemma distinct_user_pages: "unat sz \<le> unat USERSTACK \<Longrightarrow> distinct (user_pages sz)"
  by (fastforce simp: user_pages_def distinct_step_by dest!: step_by_elem)

lemma page_number:
  assumes "k < 2 ^ 47"
  shows "unat (take_bit 36 (drop_bit 12 (of_nat k :: usize))) = k div 4096" "level_index 4 (of_nat k) < 256"
proof -
  have k: "unat (of_nat k :: usize) = k" using assms by (simp add: unat_of_nat take_bit_nat_eq_self)
  have "unat (drop_bit 12 (of_nat k :: usize)) = k div 4096" by (subst unat_drop_bit_eq) (simp add: k drop_bit_eq_div)
  then show "unat (take_bit 36 (drop_bit 12 (of_nat k :: usize))) = k div 4096"
    using assms by (simp add: unsigned_take_bit_eq) (simp add: take_bit_nat_eq_self_iff less_mult_imp_div_less)
  have "unat (drop_bit 39 (of_nat k :: usize)) = k div 2 ^ 39" by (subst unat_drop_bit_eq) (simp add: k drop_bit_eq_div)
  moreover have "level_index 4 (of_nat k) = unat (take_bit 9 (drop_bit 39 (of_nat k :: usize)))"
    by (simp add: level_index_def take_bit_eq_mask mask_eq_exp_minus_1)
  ultimately have "level_index 4 (of_nat k) = take_bit 9 (k div 2 ^ 39)" by (simp only: unsigned_take_bit_eq)
  then show "level_index 4 (of_nat k) < 256" using assms by (simp add: take_bit_eq_mod)
qed

lemma same_page_inj:
  assumes "j < 2 ^ 47" "k < 2 ^ 47" "4096 dvd j" "4096 dvd k" "same_page (of_nat j) (of_nat k)"
  shows "j = k"
proof -
  have "j div 4096 = k div 4096" using page_number(1) [OF assms(1)] page_number(1) [OF assms(2)] assms(5) by (simp add: same_page_def)
  then show ?thesis using assms(3,4) by (metis dvd_div_mult_self)
qed

lemma copied_entry_fields:
  assumes "is_present e" "entry_for m0 src k = Some e" "kpage (f k)"
  shows "virt_page_addr (copied_entry m0 src f k) = f k" "entry_flags (copied_entry m0 src f k) = entry_flags e"
proof -
  have "entry_flags e OR 1 = entry_flags e"
    using assms(1) by (simp add: is_present_def) (metis or.commute word_bw_assocs(1) word_ao_absorbs(6))
  then have c: "copied_entry m0 src f k = entry_new (addr_to_phys (f k)) (entry_flags e)"
    using assms(2) by (simp add: copied_entry_def enable_def entry_new_def or.assoc)
  have z: "entry_flags e AND PHYS_PAGE_MASK = 0" by (simp add: entry_flags_def and.assoc)
  show "virt_page_addr (copied_entry m0 src f k) = f k" unfolding c by (rule virt_of_entry_new [OF assms(3) z])
  show "entry_flags (copied_entry m0 src f k) = entry_flags e"
    unfolding c by (simp add: entry_flags_def entry_new_def bit.conj_disj_distrib2 and.assoc)
qed

lemma copy_region_append:
  "copy_region src t (as @ bs) = and_then (copy_region src t as) (\<lambda>_. copy_region src t bs)"
  by (induction as) (auto simp: and_then_def fun_eq_iff bnd_def ret_def split: prod.splits res.splits option.splits)

lemma dup_run:
  assumes ok: "pt_ok m src ps" and sz: "unat sz \<le> unat USERSTACK" and room: "4 * length (user_pages sz) < length ps"
    and mapped: "\<forall>k \<in> set (user_pages sz). \<exists>e. entry_for m src (of_nat k) = Some e \<and> virt_page_addr e \<notin> set ps"
  obtains t m1 m2 f ps2 where "dup src sz m = (Ok (Some t), m2)" "t \<in> set ps"
    "copying m src (set ps) m1 t (of_nat ` set (user_pages sz)) f m2 ps2"
    "\<And>va. entry_for m1 t va = (if level_index 4 va < 256 then None else entry_for m src va)"
proof -
  obtain t qs where ps: "ps = t # qs" using room by (cases ps) auto
  note okt = ok [unfolded ps]
  obtain m1 where m1: "dup_kern src m = (Ok (Some t), m1)" "free_list m1 qs" "\<forall>q. q \<noteq> t \<longrightarrow> pages m1 q = pages m q"
    "\<forall>j < 512. entry_at m1 t j = (if j < 256 then 0 else entry_at m src j)"
    by (rule dup_kern_run [OF okt]) blast
  note tree = dup_kern_tree [OF okt m1(2,3,4)] and entries = dup_kern_entries [OF okt m1(2,3,4)]
  have "a \<in> set ps" if "idxs js" "user_path js" "walk m1 t js = Some a" for js a
    using that tree [OF that(1)] ps by (auto simp: user_path_def split: if_splits)
  then have c0: "copying m src (set ps) m1 t {} id m1 qs"
    using dup_kern_ok [OF okt m1(2,3,4)] m1(3) ps by (auto simp: copying_def)
  have src: "\<forall>is a. idxs is \<longrightarrow> walk m src is = Some a \<longrightarrow> a \<notin> set ps" using pt_okD(5) [OF ok] by blast
  have el: "k < 2 ^ 47 \<and> 4096 dvd k" if "k \<in> set (user_pages sz)" for k using user_pages_elem [OF that sz] .
  obtain f m2 ps2 where r: "copy_region src t (user_pages sz) m1 = (Ok (Some ()), m2)"
    "copying m src (set ps) m1 t (of_nat ` set (user_pages sz)) f m2 ps2"
    using copy_region_run [OF src pt_okD(1) [OF ok], of "user_pages sz" m1 t "{}" id m1 qs] mapped el page_number(2)
      same_page_inj distinct_user_pages [OF sz] c0 room ps by (auto simp: Ball_def)
  have "dup src sz m = (Ok (Some t), m2)"
    using m1(1) r(1) unfolding user_pages_def by (simp add: dup_def kop_simps flip: copy_region_append)
  then show thesis using that r(2) entries ps by simp
qed

text \<open>
  C8: \<open>dup\<close> copies an address space. If the address space is in order, the pages of the process are mapped and there are
  enough free pages, it succeeds: every page of the process is mapped in the new address space with the same
  flags, to a page of its own (no two addresses share one, and it was free before) that has the same contents. No other user
  address is mapped, kernel addresses are mapped as in the old one, and no page that was not free has changed, so the old address space and
  its contents are what they were. The tables of the new one are in order.
\<close>
theorem dup_copies_address_space:
  assumes ok: "pt_ok m src ps" and sz: "unat sz \<le> unat USERSTACK" and room: "4 * length (user_pages sz) < length ps"
    and mapped: "\<forall>k \<in> set (user_pages sz). \<exists>e. entry_for m src (of_nat k) = Some e \<and> virt_page_addr e \<notin> set ps"
  shows "\<exists>t m2 f ps2. dup src sz m = (Ok (Some t), m2) \<and> t \<in> set ps \<and> pt_ok m2 t ps2 \<and> inj_on f (of_nat ` set (user_pages sz)) \<and>
    (\<forall>k \<in> of_nat ` set (user_pages sz). \<exists>e e2. entry_for m src k = Some e \<and> entry_for m2 t k = Some e2 \<and> virt_page_addr e2 = f k \<and>
       entry_flags e2 = entry_flags e \<and> f k \<in> set ps \<and> f k \<notin> set ps2 \<and> pages m2 (f k) = pages m (virt_page_addr e)) \<and>
    (\<forall>vb. (\<forall>k \<in> of_nat ` set (user_pages sz). \<not> same_page vb k) \<longrightarrow>
       entry_for m2 t vb = (if level_index 4 vb < 256 then None else entry_for m src vb)) \<and>
    (\<forall>q. q \<notin> set ps \<longrightarrow> pages m2 q = pages m q) \<and> (\<forall>vb. entry_for m2 src vb = entry_for m src vb)"
proof -
  let ?D = "of_nat ` set (user_pages sz)"
  obtain t m1 m2 f ps2 where r: "dup src sz m = (Ok (Some t), m2)" "t \<in> set ps" "copying m src (set ps) m1 t ?D f m2 ps2"
    "\<And>va. entry_for m1 t va = (if level_index 4 va < 256 then None else entry_for m src va)"
    by (rule dup_run [OF ok sz room mapped]) blast
  note cD = copyingD [OF r(3)]
  have "\<exists>e e2. entry_for m src k = Some e \<and> entry_for m2 t k = Some e2 \<and> virt_page_addr e2 = f k \<and>
       entry_flags e2 = entry_flags e \<and> f k \<in> set ps \<and> f k \<notin> set ps2 \<and> pages m2 (f k) = pages m (virt_page_addr e)" if "k \<in> ?D" for k
  proof -
    obtain e where e: "entry_for m src k = Some e" using mapped \<open>k \<in> ?D\<close> by auto
    then show ?thesis
      using cD(5,7,8) [OF that] copied_entry_fields [OF entry_for_present [OF e] e, of f] by auto
  qed
  moreover have "entry_for m2 t vb = (if level_index 4 vb < 256 then None else entry_for m src vb)" if "\<forall>k \<in> ?D. \<not> same_page vb k" for vb
    using cD(10) [OF that] r(4) by simp
  moreover have "entry_for m2 src vb = entry_for m src vb" for vb
    using entry_for_frame [of m src m2 vb] cD(3) pt_okD(1,5) [OF ok] by auto
  ultimately show ?thesis using r(1,2) cD(1,3,9) by (intro exI [of _ t] exI [of _ m2] exI [of _ f] exI [of _ ps2]) auto
qed

section \<open>A process with a stack\<close>

lemma pt_ok_empty_root:
  assumes "free_list m ps" "\<forall>p \<in> set ps. kpage p" "pages m root = page_empty" "root \<noteq> 0" "root \<notin> set ps"
  shows "pt_ok m root ps"
proof -
  have "walk m root js = Some a \<longleftrightarrow> js = [] \<and> a = root" if "idxs js" for js a
    using that entry_at_empty [OF assms(3)] by (cases js) (auto simp: idxs_def)
  then show ?thesis using assms unfolding pt_ok_def by auto
qed

lemma map_list_run:
  assumes "pt_ok m root ps" "3 * length xs \<le> length ps" "\<forall>x \<in> set xs. \<forall>y \<in> set xs. same_page (fst x) (fst y) \<longrightarrow> x = y" "distinct xs"
    and "\<forall>js a. idxs js \<longrightarrow> walk m root js = Some a \<longrightarrow> a \<in> U" "set ps \<subseteq> U"
  shows "\<exists>m2 ps2. run_all (\<lambda>(va, pa). map_to root pa va fl) xs m = (Ok (), m2) \<and> pt_ok m2 root ps2 \<and> set ps2 \<subseteq> set ps \<and>
    length ps \<le> length ps2 + 3 * length xs \<and> (\<forall>(va, pa) \<in> set xs. entry_for m2 root va = Some (enable (entry_new pa fl))) \<and>
    (\<forall>vb. (\<forall>x \<in> set xs. \<not> same_page vb (fst x)) \<longrightarrow> entry_for m2 root vb = entry_for m root vb) \<and> (\<forall>q. q \<notin> U \<longrightarrow> pages m2 q = pages m q)"
  using assms
proof (induction xs arbitrary: m ps)
  case (Cons x xs)
  obtain va pa where x: "x = (va, pa)" by force
  show ?case
  proof (cases rule: map_to_run [OF Cons.prems(1), of pa va fl])
    case A: (1 m1 ps1)
    have ps1: "set ps1 \<subseteq> set ps" using A(4) by (simp add: grows_def)
    have "\<forall>js a. idxs js \<longrightarrow> walk m1 root js = Some a \<longrightarrow> a \<in> U" using grows_walk [OF A(4)] Cons.prems(5,6) by blast
    then obtain m2 ps2 where B: "run_all (\<lambda>(va, pa). map_to root pa va fl) xs m1 = (Ok (), m2)" "pt_ok m2 root ps2" "set ps2 \<subseteq> set ps1"
      "length ps1 \<le> length ps2 + 3 * length xs" "\<forall>(va, pa) \<in> set xs. entry_for m2 root va = Some (enable (entry_new pa fl))"
      "\<forall>vb. (\<forall>x \<in> set xs. \<not> same_page vb (fst x)) \<longrightarrow> entry_for m2 root vb = entry_for m1 root vb" "\<forall>q. q \<notin> U \<longrightarrow> pages m2 q = pages m1 q"
      using Cons.IH [OF A(2)] Cons.prems(2-4) A(5) subset_trans [OF ps1 Cons.prems(6)] by auto
    have "path_tables m root va \<subseteq> U" using Cons.prems(5) by (metis path_tables_walk subsetI)
    then have "\<forall>q. q \<notin> U \<longrightarrow> pages m1 q = pages m q" using A(4) Cons.prems(6) by (auto simp: grows_def)
    moreover have "\<forall>y \<in> set xs. \<not> same_page va (fst y)" using Cons.prems(3,4) x by auto
    then have "entry_for m2 root va = Some (enable (entry_new pa fl))" using B(6) A(3) by (auto simp: same_page_def)
    ultimately show ?thesis
      using A B ps1 x by (intro exI [of _ m2] exI [of _ ps2]) (auto simp: kop_simps)
  next
    case 2
    then show ?thesis using Cons.prems(2) by simp
  qed
qed (auto simp: kop_simps basic_run)

lemma free_pages_frame: "free_pages ps m = (Ok (), m2) \<Longrightarrow> q \<notin> set ps \<Longrightarrow> pages m2 q = pages m q"
proof (induction ps arbitrary: m)
  case (Cons p ps)
  then show ?case
    by (auto simp: seqk_def bnd_def fl_put_def assertk_def panic_def ret_def modify_def Let_def split: if_splits prod.splits res.splits)
qed (simp add: ret_def)

text \<open>Forty free pages, an empty root, and four pages of a stack.\<close>

definition pool_pages :: "usize list" where
  "pool_pages = map (\<lambda>i. KERNBASE + 0x1000 * of_nat i) [2..<42]"

definition pool :: "pagemem \<Rightarrow> pagemem" where
  "pool b = snd (free_pages pool_pages b)"

definition stack_maps :: "(usize \<times> u64) list" where
  "stack_maps = [(USERSTACK, 0x100000), (USERSTACK + 0x1000, 0x101000), (USERSTACK + 0x2000, 0x102000), (USERSTACK + 0x3000, 0x103000)]"

definition proc_pages :: "pagemem \<Rightarrow> pagemem" where
  "proc_pages b = snd (run_all (\<lambda>(va, pa). map_to (KERNBASE + 0x1000) pa va (PF_USER OR PF_WRITE OR PF_PRESENT)) stack_maps (pool b))"

definition no_pages :: pagemem where
  "no_pages = \<lparr>pages = \<lambda>_. page_empty, free_head = 0\<rparr>"

lemma pool_pages_facts: "distinct pool_pages" "\<forall>p \<in> set pool_pages. kpage p \<and> p mod 4096 = 0 \<and> p \<noteq> 0 \<and> p \<noteq> KERNBASE + 0x1000 \<and> p < KERNBASE + 0x100000"
  "length pool_pages = 40"
  by (simp_all add: pool_pages_def upt_rec kpage_def addr_to_phys_def)

lemma pool_facts:
  assumes "free_list b []"
  shows "free_list (pool b) (rev pool_pages)" "\<And>q. q \<notin> set pool_pages \<Longrightarrow> pages (pool b) q = pages b q"
proof -
  obtain t where t: "free_pages pool_pages b = (Ok (), t)" "free_list t (rev pool_pages)"
    using free_pages_ok [OF assms, of pool_pages] pool_pages_facts by auto
  then show "free_list (pool b) (rev pool_pages)" "\<And>q. q \<notin> set pool_pages \<Longrightarrow> pages (pool b) q = pages b q"
    using free_pages_frame [OF t(1)] by (auto simp: pool_def)
qed

lemma proc_pages_facts:
  assumes "free_list b []" "pages b (KERNBASE + 0x1000) = page_empty"
  obtains ps where "pt_ok (proc_pages b) (KERNBASE + 0x1000) ps" "set ps \<subseteq> set pool_pages" "28 \<le> length ps"
    "\<forall>(va, pa) \<in> set stack_maps. entry_for (proc_pages b) (KERNBASE + 0x1000) va = Some (enable (entry_new pa (PF_USER OR PF_WRITE OR PF_PRESENT)))"
    "\<forall>q. q \<notin> set pool_pages \<longrightarrow> q \<noteq> KERNBASE + 0x1000 \<longrightarrow> pages (proc_pages b) q = pages b q"
proof -
  let ?root = "KERNBASE + 0x1000 :: usize" and ?U = "insert (KERNBASE + 0x1000) (set pool_pages)"
  have e: "pages (pool b) ?root = page_empty" using pool_facts(2) [OF assms(1), of ?root] assms(2) pool_pages_facts(2) by auto
  then have ok: "pt_ok (pool b) ?root (rev pool_pages)"
    using pool_facts(1) [OF assms(1)] pool_pages_facts by (intro pt_ok_empty_root) auto
  have tab: "\<forall>js a. idxs js \<longrightarrow> walk (pool b) ?root js = Some a \<longrightarrow> a \<in> ?U"
    using entry_at_empty [OF e] by (intro allI impI, case_tac js) (auto simp: idxs_def)
  have four: "length stack_maps = 4" "3 * length stack_maps \<le> length (rev pool_pages)" by (simp_all add: stack_maps_def pool_pages_facts(3))
  have apart: "\<forall>x \<in> set stack_maps. \<forall>y \<in> set stack_maps. same_page (fst x) (fst y) \<longrightarrow> x = y" "distinct stack_maps"
    by (simp_all add: stack_maps_def same_page_def)
  have "set (rev pool_pages) \<subseteq> ?U" by auto
  note mapped = map_list_run [OF ok four(2) apart tab this, of "PF_USER OR PF_WRITE OR PF_PRESENT"]
  then obtain m2 ps2 where m2: "run_all (\<lambda>(va, pa). map_to ?root pa va (PF_USER OR PF_WRITE OR PF_PRESENT)) stack_maps (pool b) = (Ok (), m2)"
    "pt_ok m2 ?root ps2" "set ps2 \<subseteq> set pool_pages" "28 \<le> length ps2"
    "\<forall>(va, pa) \<in> set stack_maps. entry_for m2 ?root va = Some (enable (entry_new pa (PF_USER OR PF_WRITE OR PF_PRESENT)))"
    "\<forall>q. q \<notin> ?U \<longrightarrow> pages m2 q = pages (pool b) q"
    using four(1) pool_pages_facts(3) by auto
  have "proc_pages b = m2" using m2(1) by (simp add: proc_pages_def)
  then show thesis using that [of ps2] m2(2-) pool_facts(2) [OF assms(1)] by auto
qed

lemma stack_user_pages: "user_pages 0 = [unat USERSTACK, unat USERSTACK + 0x1000, unat USERSTACK + 0x2000, unat USERSTACK + 0x3000]"
  by (simp add: user_pages_def step_by_def upt_rec)

text \<open>The four pages of the stack are mapped, to pages that are not free.\<close>

lemma proc_pages_mapped:
  assumes "\<forall>(va, pa) \<in> set stack_maps. entry_for m (KERNBASE + 0x1000) va = Some (enable (entry_new pa (PF_USER OR PF_WRITE OR PF_PRESENT)))"
    and "set ps \<subseteq> set pool_pages"
  shows "\<forall>k \<in> set (user_pages 0). \<exists>e. entry_for m (KERNBASE + 0x1000) (of_nat k) = Some e \<and> virt_page_addr e \<notin> set ps"
    "\<exists>e. entry_for m (KERNBASE + 0x1000) USERSTACK = Some e \<and> virt_page_addr e = KERNBASE + 0x100000"
proof -
  have v: "virt_page_addr (enable (entry_new pa (PF_USER OR PF_WRITE OR PF_PRESENT))) = KERNBASE + pa" if "pa \<in> {0x100000, 0x101000, 0x102000, 0x103000}" for pa
    using that by (auto simp: virt_page_addr_def phys_page_addr_def enable_def entry_new_def)
  have n: "KERNBASE + pa \<notin> set ps" if "pa \<in> {0x100000, 0x101000, 0x102000, 0x103000}" for pa
    using that assms(2) pool_pages_facts(2) by fastforce
  show "\<forall>k \<in> set (user_pages 0). \<exists>e. entry_for m (KERNBASE + 0x1000) (of_nat k) = Some e \<and> virt_page_addr e \<notin> set ps"
    using assms(1) v n [of "0x100000"] n [of "0x101000"] n [of "0x102000"] n [of "0x103000"] by (simp add: stack_user_pages stack_maps_def)
  show "\<exists>e. entry_for m (KERNBASE + 0x1000) USERSTACK = Some e \<and> virt_page_addr e = KERNBASE + 0x100000"
    using assms(1) v by (simp add: stack_maps_def)
qed

theorem dup_copies_address_space_witness:
  "\<exists>t m2 f. dup (KERNBASE + 0x1000) 0 (proc_pages no_pages) = (Ok (Some t), m2) \<and> inj_on f (of_nat ` set (user_pages 0)) \<and>
    pages m2 (f USERSTACK) = pages (proc_pages no_pages) (KERNBASE + 0x100000)"
proof -
  let ?m = "proc_pages no_pages"
  have b: "free_list no_pages []" "pages no_pages (KERNBASE + 0x1000) = page_empty" by (simp_all add: no_pages_def free_list_def page_empty_def)
  obtain ps where ps: "pt_ok ?m (KERNBASE + 0x1000) ps" "set ps \<subseteq> set pool_pages" "28 \<le> length ps"
    and e: "\<forall>(va, pa) \<in> set stack_maps. entry_for ?m (KERNBASE + 0x1000) va = Some (enable (entry_new pa (PF_USER OR PF_WRITE OR PF_PRESENT)))"
    by (rule proc_pages_facts [OF b])
  note mp = proc_pages_mapped [OF e ps(2)]
  have "4 * length (user_pages 0) < length ps" using ps(3) by (simp add: stack_user_pages)
  then obtain t m2 f where "dup (KERNBASE + 0x1000) 0 ?m = (Ok (Some t), m2)" "inj_on f (of_nat ` set (user_pages 0))"
    "\<forall>k \<in> of_nat ` set (user_pages 0). \<exists>e e2. entry_for ?m (KERNBASE + 0x1000) k = Some e \<and> pages m2 (f k) = pages ?m (virt_page_addr e)"
    using dup_copies_address_space [OF ps(1), of 0] mp(1) by fastforce
  then show ?thesis using mp(2) by (intro exI [of _ t] exI [of _ m2] exI [of _ f]) (auto simp: stack_user_pages)
qed

end
