(* ===== verification/ForkReturn.thy ===== *)
theory ForkReturn
  imports Swtch DupProps
begin

text \<open>
  \<open>fork\<close> returns twice. The table of processes, the allocator, the page tables and the kernel stack of the child are
  those of the kernel's model; the switch to the child and its return to user mode are code of the machine of \<open>Entry\<close>. What
  connects them is that the words of a kernel stack in memory are the contents of its page.
\<close>

section \<open>Kernel stacks as pages\<close>

text \<open>The words of the page \<open>a\<close> from the \<open>n\<close>-th on, and that a machine has the contents of the page there.\<close>

definition stack_words :: "nat \<Rightarrow> usize \<Rightarrow> u64 set" where
  "stack_words n a = (\<lambda>i. a + 8 * of_nat i) ` {n..<512}"

definition holds_from :: "nat \<Rightarrow> machine \<Rightarrow> usize \<Rightarrow> pagemem \<Rightarrow> bool" where
  "holds_from n c a pm \<longleftrightarrow> (\<forall>i. n \<le> i \<longrightarrow> i < 512 \<longrightarrow> words c (a + 8 * of_nat i) = entry_at pm a i)"

lemma put_u64_entry: "put_u64 pg (8 * k) v m = upd_entry pg k v m"
  by (simp add: put_u64_def upd_entry_def)

lemma entry_at_copy_frame:
  assumes "pages_wf m" "j < 512"
  shows "entry_at (copy_frame ks stack m) stack j = (if 486 \<le> j then entry_at m ks j else entry_at m stack j)"
proof -
  have len: "length (pages m q) = PAGE_SIZE" for q using assms(1) by (simp add: pages_wf_def)
  show ?thesis
  proof (cases "486 \<le> j")
    case True
    have "slice (overwrite (pages m stack) 3888 (slice (pages m ks) 3888 4096)) (8 * j) (8 * j + 8) = slice (pages m ks) (8 * j) (8 * j + 8)"
      using True assms(2) by (intro nth_equalityI) (auto simp: nth_slice nth_overwrite len)
    then show ?thesis using True by (simp add: entry_at_def copy_frame_def)
  next
    case False
    have "slice (overwrite (pages m stack) 3888 (slice (pages m ks) 3888 4096)) (8 * j) (8 * j + 8) = slice (pages m stack) (8 * j) (8 * j + 8)"
      using False by (intro slice_overwrite_other) (simp_all add: len)
    then show ?thesis using False by (simp add: entry_at_def copy_frame_def)
  qed
qed

lemma child_stack:
  fixes ks ra
  assumes wf: "pages_wf m1" "pages_wf m2" and same: "pages m2 stack = pages (stack_init stack sr m1) stack"
  defines "pm \<equiv> put_u64 stack (CTX_OFF + 64) ra (copy_frame ks stack m2)"
  shows "entry_at pm stack 484 = ra" "entry_at pm stack 485 = sr" "\<And>j. 486 \<le> j \<Longrightarrow> j < 512 \<Longrightarrow> entry_at pm stack j = entry_at m2 ks j"
proof -
  have wf3: "pages_wf (copy_frame ks stack m2)" using wf(2) by (auto simp: pages_wf_def copy_frame_def)
  have pm: "pm = upd_entry stack 484 ra (copy_frame ks stack m2)"
    using put_u64_entry [of stack 484 ra] by (simp add: pm_def)
  have st: "stack_init stack sr m1 = upd_entry stack 476 (stack + 3808) (upd_entry stack 485 sr m1)"
    using put_u64_entry [of stack 476 "stack + 3808"] put_u64_entry [of stack 485 sr] by (simp add: stack_init_def)
  have wf4: "pages_wf (upd_entry stack 485 sr m1)" using wf(1) by (auto simp: pages_wf_def upd_entry_def)
  have "entry_at m2 stack 485 = entry_at (stack_init stack sr m1) stack 485" by (rule entry_at_cong [OF same])
  then have sr: "entry_at m2 stack 485 = sr" by (simp add: st entry_at_upd wf4 wf(1))
  show "entry_at pm stack 484 = ra" "entry_at pm stack 485 = sr"
    by (simp_all add: pm entry_at_upd [OF wf3] entry_at_copy_frame [OF wf(2)] sr)
  show "entry_at pm stack j = entry_at m2 ks j" if "486 \<le> j" "j < 512" for j
    using that by (simp add: pm entry_at_upd [OF wf3] entry_at_copy_frame [OF wf(2)])
qed

lemma frame_at_cong:
  assumes "\<And>i. i < 26 \<Longrightarrow> words m (a + 8 * of_nat i) = words h (b + 8 * of_nat i)"
  shows "frame_at m a = frame_at h b"
proof -
  have "map (\<lambda>i. words m (a + 8 * of_nat i)) [0..<26] = map (\<lambda>i. words h (b + 8 * of_nat i)) [0..<26]" using assms by simp
  then show ?thesis by (simp add: upt_rec frame_at_def)
qed

section \<open>The child\<close>

text \<open>A function that returns \<open>r\<close>, by the calling convention; it leaves the caller's stack alone.\<close>

definition c_returns :: "u64 \<Rightarrow> machine \<Rightarrow> machine \<Rightarrow> bool" where
  "c_returns r d e \<longleftrightarrow> regs e RAX = r \<and> regs e RSP = regs d RSP + 8 \<and> rip_reg e = words d (regs d RSP) \<and> gs_base e = gs_base d \<and>
     kernel_gs_base e = kernel_gs_base d \<and> segs e = segs d \<and>
     (\<forall>i < 26. words e (regs e RSP + 8 * of_nat i) = words d (regs e RSP + 8 * of_nat i))"

lemma stack_init_frame: "q \<noteq> stack \<Longrightarrow> pages (stack_init stack sr m) q = pages m q"
  by (simp add: stack_init_def put_u64_def)

lemma fork_memory:
  assumes ok: "pt_ok m root (stack # ps)" and sz: "unat sz \<le> unat USERSTACK" and room: "4 * length (user_pages sz) < length ps"
    and mapped: "\<forall>k \<in> set (user_pages sz). \<exists>e. entry_for m root (of_nat k) = Some e \<and> virt_page_addr e \<notin> set (stack # ps)"
  obtains m1 t m2 where "kalloc m = (Some stack, m1)" "pages_wf m1" "dup root sz (stack_init stack sr m1) = (Ok (Some t), m2)" "pages_wf m2"
    "pages m2 stack = pages (stack_init stack sr m1) stack" "\<And>q. q \<notin> set (stack # ps) \<Longrightarrow> pages m2 q = pages m q"
proof -
  obtain m1 where m1: "kalloc m = (Some stack, m1)" "free_list m1 ps" "\<And>q. q \<noteq> stack \<Longrightarrow> pages m1 q = pages m q"
    using kpages.alloc_some [OF pt_okD(2) [OF ok]] by blast
  have st: "stack \<notin> set ps" using kpages.avail_distinct [OF pt_okD(2) [OF ok]] by simp
  have len: "length (pages m1 q) = PAGE_SIZE" for q using m1(2) by (simp add: free_list_def)
  let ?m = "stack_init stack sr m1"
  have fl: "free_list ?m ps" using m1(2) st by (auto simp: free_list_def stack_init_def put_u64_def chain_upd len)
  have same: "pages ?m q = pages m q" if "q \<noteq> stack" for q using m1(3) that by (simp add: stack_init_frame)
  have sub: "set ps \<subseteq> set (stack # ps)" by auto
  have ok1: "pt_ok ?m root ps" by (rule pt_ok_frame(1) [OF ok fl sub]) (simp add: same)
  have ef: "entry_for ?m root va = entry_for m root va" for va by (rule pt_ok_frame(3) [OF ok fl sub]) (simp add: same)
  have mp: "\<forall>k \<in> set (user_pages sz). \<exists>e. entry_for ?m root (of_nat k) = Some e \<and> virt_page_addr e \<notin> set ps"
    using mapped by (auto simp: ef)
  obtain t m1' m2 f ps2 where d: "dup root sz ?m = (Ok (Some t), m2)" "copying ?m root (set ps) m1' t (of_nat ` set (user_pages sz)) f m2 ps2"
    by (rule dup_run [OF ok1 sz room mp])
  note cD = copyingD [OF d(2)]
  show thesis
    by (rule that [OF m1(1) _ d(1)]) (use cD(3) st same len pt_okD(3) [OF cD(1)] in \<open>auto simp: pages_wf_def\<close>)
qed

lemma child_enters:
  assumes pm: "entry_at pm stack 484 = ra" "entry_at pm stack 485 = sr" "\<And>j. 486 \<le> j \<Longrightarrow> j < 512 \<Longrightarrow> entry_at pm stack j = w j"
    and c: "regs c RSI = stack + 3808" "holds_from 476 c stack pm" "stack_words 476 stack \<inter> swtch_writes c = {}"
    and frame: "\<And>i. i < 26 \<Longrightarrow> w (486 + i) = words b (x + 8 * of_nat i)"
  shows "rip_reg (run_code swtch c) = ra" "regs (run_code swtch c) RSP = stack + 3880"
    "words (run_code swtch c) (stack + 3880) = sr" "frame_at (run_code swtch c) (stack + 3888) = frame_at b x"
proof -
  have el: "stack + 8 * of_nat i \<in> stack_words 476 stack" if "476 \<le> i" "i < 512" for i using that by (auto simp: stack_words_def)
  have keep: "words (run_code swtch c) (stack + 8 * of_nat i) = entry_at pm stack i" if "476 \<le> i" "i < 512" for i
    using that el [OF that] c(2,3) by (simp add: words_swtch swtch_keeps disjoint_iff holds_from_def)
  have "context_words (stack + 3808) \<subseteq> stack_words 476 stack"
    using el [of 476] el [of 477] el [of 478] el [of 479] el [of 480] el [of 481] el [of 482] el [of 483] el [of 484]
    by (simp add: context_words_def add.commute)
  then have "context_words (regs c RSI) \<inter> swtch_writes c = {}" using c(1,3) by auto
  note r = swtch_resumes [OF this]
  have "words c (stack + 3872) = ra" using c(2) pm(1) by (auto simp: holds_from_def dest: spec [of _ 484])
  then show "rip_reg (run_code swtch c) = ra" by (simp add: r swtch_load_def context_at_def c(1) add.commute)
  show "regs (run_code swtch c) RSP = stack + 3880" by (simp add: r swtch_load_def c(1))
  show "words (run_code swtch c) (stack + 3880) = sr" using keep [of 485] pm(2) by simp
  show "frame_at (run_code swtch c) (stack + 3888) = frame_at b x"
  proof (rule frame_at_cong)
    fix i :: nat assume i: "i < 26"
    have "words (run_code swtch c) (stack + 3888 + 8 * of_nat i) = words (run_code swtch c) (stack + 8 * of_nat (486 + i))" by (simp add: algebra_simps)
    then show "words (run_code swtch c) (stack + 3888 + 8 * of_nat i) = words b (x + 8 * of_nat i)"
      using keep [of "486 + i"] pm(3) [of "486 + i"] frame [OF i] i by simp
  qed
qed

lemma child_leaves:
  assumes d: "regs d RSP = stack + 3880" "frame_at d (stack + 3888) = syscall_frame num p" and e: "c_returns 0 d e"
  defines "t \<equiv> sysretq (run_code syscallret e)"
  shows "regs t = (regs p)(RAX := 0, RCX := rip_reg p, R11 := flags_reg p, RDX := 0, RSI := 0, RDI := 0, R8 := 0, R9 := 0, R10 := 0)"
    "rip_reg t = rip_reg p" "flags_reg t = flags_reg p" "\<forall>g \<in> {DS, ES, FS}. segs t g = segs p g"
proof -
  have rsp: "regs e RSP = stack + 3888" using d(1) e by (simp add: c_returns_def)
  have "frame_at e (stack + 3888) = frame_at d (stack + 3888)"
    by (rule frame_at_cong) (use e rsp in \<open>simp add: c_returns_def\<close>)
  moreover have a: "stack + 4096 - 208 = stack + 3888" by (simp add: add.commute)
  ultimately have f: "frame_at e (stack + 4096 - 208) = syscall_frame num p" using d(2) by (simp only: a)
  have k: "regs e RSP = stack + 4096 - 208" using rsp by (simp only: a)
  note fields = syscallret_fields [OF k, unfolded f, folded t_def]
  have "regs t r = ((regs p)(RAX := 0, RCX := rip_reg p, R11 := flags_reg p, RDX := 0, RSI := 0, RDI := 0, R8 := 0, R9 := 0, R10 := 0)) r" for r
    unfolding fields(1) using e by (cases r) (simp_all add: syscall_frame_def c_returns_def)
  then show "regs t = (regs p)(RAX := 0, RCX := rip_reg p, R11 := flags_reg p, RDX := 0, RSI := 0, RDI := 0, R8 := 0, R9 := 0, R10 := 0)"
    by (rule ext)
  show "rip_reg t = rip_reg p" "flags_reg t = flags_reg p" "\<forall>g \<in> {DS, ES, FS}. segs t g = segs p g"
    unfolding fields(2-4) by (simp_all add: syscall_frame_def seg_word)
qed

text \<open>
  C10: \<open>fork\<close> returns twice. A user program in the state \<open>p\<close> enters the kernel, and its process calls \<open>fork\<close> with enough free pages. Then
  \<open>fork\<close> succeeds; and whenever a processor that has the child's kernel stack in memory switches to the child's context, it
  arrives in \<open>forkret\<close>, and from there, when \<open>forkret\<close> has returned 0, in \<open>syscallret\<close> and in the user program: after the
  stub that called \<open>fork\<close>, with the stack pointer, flags, callee-saved registers and segments of the parent, and with 0 as the result,
  while the parent has the number of the child.
\<close>
theorem fork_child_returns:
  assumes fk: "forkable k s" and slot: "position (\<lambda>p. p_state p = UNUSED) (procs s) = Some np"
    and pt: "pd_pgtbl (procs s ! k) = Some root" "pd_kstack (procs s ! k) = Some ks" and ok: "pt_ok (mem s) root (stack # ps)"
    and sz: "unat (p_size (procs s ! k)) \<le> unat USERSTACK" and room: "4 * length (user_pages (p_size (procs s ! k))) < length ps"
    and mapped: "\<forall>a \<in> set (user_pages (p_size (procs s ! k))). \<exists>e. entry_for (mem s) root (of_nat a) = Some e \<and> virt_page_addr e \<notin> set (stack # ps)"
    and ks: "ks \<notin> set (stack # ps)" and call: "kstack_of p = ks + 4096" "holds_from 486 (called lstar num p) ks (mem s)"
  shows "\<exists>u. fork k s = (Ok (Some (pid_next s)), u) \<and> p_state (procs u ! np) = RUNNABLE \<and>
    (\<forall>c. regs c RSI = pd_context (procs u ! np) \<longrightarrow> holds_from 476 c stack (mem u) \<longrightarrow> stack_words 476 stack \<inter> swtch_writes c = {} \<longrightarrow>
      rip_reg (run_code swtch c) = sym_forkret s \<and>
      (\<forall>e. c_returns 0 (run_code swtch c) e \<longrightarrow> rip_reg e = sym_syscallret s \<and>
        (let t = sysretq (run_code syscallret e) in
          regs t = (regs p)(RAX := 0, RCX := rip_reg p, R11 := flags_reg p, RDX := 0, RSI := 0, RDI := 0, R8 := 0, R9 := 0, R10 := 0) \<and>
          rip_reg t = rip_reg p \<and> flags_reg t = flags_reg p \<and> (\<forall>g \<in> {DS, ES, FS}. segs t g = segs p g))))"
proof -
  obtain m1 t m2 where m: "kalloc (mem s) = (Some stack, m1)" "pages_wf m1"
    "dup root (p_size (procs s ! k)) (stack_init stack (sym_syscallret s) m1) = (Ok (Some t), m2)" "pages_wf m2"
    "pages m2 stack = pages (stack_init stack (sym_syscallret s) m1) stack" "\<And>q. q \<notin> set (stack # ps) \<Longrightarrow> pages m2 q = pages (mem s) q"
    by (rule fork_memory [OF ok sz room mapped]) blast
  have kp: "stack mod 4096 = 0" using pt_okD(6) [OF ok, of stack] by (simp add: kpage_def)
  obtain u where u: "fork k s = (Ok (Some (pid_next s)), u)"
    "procs u = (procs s)[np := child_of (procs s ! k) (as_chan k s) t (embryo stack (pid_next s) (procs s ! np))]"
    "mem u = put_u64 stack (CTX_OFF + 64) (sym_forkret s) (copy_frame ks stack m2)"
    by (rule fork_succeeds [OF fk slot m(1) kp pt m(3)]) blast
  note pm = child_stack [OF m(2,4,5), where ra = "sym_forkret s" and ks = ks, folded u(3)]
  have np: "np < length (procs s)" using slot by (simp add: position_Some)
  have child: "p_state (procs u ! np) = RUNNABLE" "pd_context (procs u ! np) = stack + 3808"
    unfolding u(2) using np by (simp_all add: child_of_def embryo_def set_name_def Let_def)
  have w: "entry_at m2 ks (486 + i) = words (called lstar num p) (kstack_of p - 208 + 8 * of_nat i)" if "i < 26" for i
  proof -
    have "entry_at m2 ks (486 + i) = entry_at (mem s) ks (486 + i)" by (rule entry_at_cong [OF m(6) [OF ks]])
    also have "\<dots> = words (called lstar num p) (ks + 8 * of_nat (486 + i))" using call(2) [unfolded holds_from_def, rule_format, of "486 + i"] that by simp
    also have "ks + 8 * of_nat (486 + i) = kstack_of p - 208 + 8 * of_nat i" by (simp add: call(1) algebra_simps)
    finally show ?thesis .
  qed
  have "rip_reg (run_code swtch c) = sym_forkret s \<and> (\<forall>e. c_returns 0 (run_code swtch c) e \<longrightarrow> rip_reg e = sym_syscallret s \<and>
        (let t = sysretq (run_code syscallret e) in
          regs t = (regs p)(RAX := 0, RCX := rip_reg p, R11 := flags_reg p, RDX := 0, RSI := 0, RDI := 0, R8 := 0, R9 := 0, R10 := 0) \<and>
          rip_reg t = rip_reg p \<and> flags_reg t = flags_reg p \<and> (\<forall>g \<in> {DS, ES, FS}. segs t g = segs p g)))"
    if c: "regs c RSI = pd_context (procs u ! np)" "holds_from 476 c stack (mem u)" "stack_words 476 stack \<inter> swtch_writes c = {}" for c
  proof -
    note enter = child_enters [where pm = "mem u" and stack = stack and w = "entry_at m2 ks", OF pm c(1) [unfolded child(2)] c(2,3) w]
    have f: "frame_at (run_code swtch c) (stack + 3888) = syscall_frame num p" using enter(4) called_frame by simp
    show ?thesis
      using enter(1-3) child_leaves [OF enter(2) f] by (auto simp: c_returns_def Let_def)
  qed
  then show ?thesis using u(1) child(1) by blast
qed

section \<open>A fork\<close>

text \<open>A kernel stack with the words that a machine has there.\<close>

definition page_of :: "machine \<Rightarrow> usize \<Rightarrow> bytes" where
  "page_of c a = concat (map (\<lambda>i. to_le 8 (unat (words c (a + 8 * of_nat i)))) [0..<512])"

lemma length_page_of: "length (page_of c a) = PAGE_SIZE"
  by (simp add: page_of_def length_concat comp_def sum_list_triv)

lemma entry_at_page_of:
  assumes "pages m a = page_of c a" "i < 512"
  shows "entry_at m a i = words c (a + 8 * of_nat i)"
proof -
  have "slice (page_of c a) (8 * i) (8 * i + 8) = to_le 8 (unat (words c (a + 8 * of_nat ([0..<512] ! i))))"
    unfolding page_of_def slice_def diff_add_inverse by (rule slice_concat) (use assms(2) in simp_all)
  then show ?thesis using assms by (simp add: entry_at_def)
qed

definition forking_user :: machine where
  "forking_user = user_machine\<lparr>words := (\<lambda>_. 0)(0xFFFF800000300010 := 0x15000)\<rparr>"

definition fork_base :: pagemem where
  "fork_base = no_pages\<lparr>pages := (pages no_pages)(0x14000 := page_of (called 0x8000 1 forking_user) 0x14000)\<rparr>"

definition fork_kernel :: proc_state where
  "fork_kernel = set_mem (proc_pages fork_base) (family_kernel\<lparr>icache := [inode_new],
     procs := (procs family_kernel)[2 := (procs family_kernel ! 2)\<lparr>p_cwd := Some 0, pd_pgtbl := Some (KERNBASE + 0x1000)\<rparr>]\<rparr>)"

lemma fork_kernel_fields:
  "length (procs fork_kernel) = NPROC" "p_cwd (procs fork_kernel ! 2) = Some 0" "p_state (procs fork_kernel ! 2) = RUNNING"
  "p_files (procs fork_kernel ! 2) = replicate NOFILE None" "i_ref (icache fork_kernel ! 0) = 0"
  "pd_pgtbl (procs fork_kernel ! 2) = Some (KERNBASE + 0x1000)" "pd_kstack (procs fork_kernel ! 2) = Some 0x14000"
  "mem fork_kernel = proc_pages fork_base" "p_size (procs fork_kernel ! 2) = 0" "pid_next fork_kernel = pid_next family_kernel"
  by (simp_all add: fork_kernel_def set_mem_def mem_def family_kernel_def proc_new_def inode_new_def file_state.defs proc_state.defs)

lemma fork_kernel_slot: "position (\<lambda>p. p_state p = UNUSED) (procs fork_kernel) = Some 3"
  unfolding position_Some
  by (simp add: fork_kernel_def set_mem_def family_kernel_def proc_new_def file_state.defs proc_state.defs
      numeral_3_eq_3 less_Suc_eq nth_append)

theorem fork_child_returns_witness:
  "\<exists>u. fork 2 fork_kernel = (Ok (Some (pid_next family_kernel)), u) \<and> p_state (procs u ! 3) = RUNNABLE"
proof -
  have b: "free_list fork_base []" "pages fork_base (KERNBASE + 0x1000) = page_empty"
    using length_page_of by (auto simp: fork_base_def no_pages_def free_list_def page_empty_def)
  obtain qs where qs: "pt_ok (proc_pages fork_base) (KERNBASE + 0x1000) qs" "set qs \<subseteq> set pool_pages" "28 \<le> length qs"
    and e: "\<forall>(va, pa) \<in> set stack_maps. entry_for (proc_pages fork_base) (KERNBASE + 0x1000) va = Some (enable (entry_new pa (PF_USER OR PF_WRITE OR PF_PRESENT)))"
    and same: "\<forall>q. q \<notin> set pool_pages \<longrightarrow> q \<noteq> KERNBASE + 0x1000 \<longrightarrow> pages (proc_pages fork_base) q = pages fork_base q"
    by (rule proc_pages_facts [OF b])
  obtain stack ps where ps: "qs = stack # ps" using qs(3) by (cases qs) auto
  have "\<not> kpage 0x14000" by (simp add: kpage_def addr_to_phys_def)
  then have k: "0x14000 \<notin> set pool_pages" using pool_pages_facts(2) by blast
  then have "pages (proc_pages fork_base) 0x14000 = page_of (called 0x8000 1 forking_user) 0x14000"
    using same by (simp add: fork_base_def)
  then have "holds_from 486 (called 0x8000 1 forking_user) 0x14000 (mem fork_kernel)"
    by (simp add: holds_from_def fork_kernel_fields entry_at_page_of)
  moreover have "forkable 2 fork_kernel" by (simp add: forkable_def fork_kernel_fields)
  moreover have "kstack_of forking_user = 0x14000 + 4096" by (simp add: kstack_of_def forking_user_def user_machine_def)
  moreover have "4 * length (user_pages 0) < length ps" using qs(3) ps by (simp add: stack_user_pages)
  ultimately show ?thesis
    using fork_child_returns [of 2 fork_kernel 3 "KERNBASE + 0x1000" "0x14000" stack ps forking_user "0x8000" 1] fork_kernel_slot
      qs(1,2) ps k proc_pages_mapped(1) [OF e qs(2)] by (auto simp: fork_kernel_fields)
qed

end
