(* ===== verification/Boot.thy ===== *)
theory Boot
  imports Acpi Kalloc
begin

text \<open>
  Memory at boot (\<open>kernel/src/kmem.rs\<close>, \<open>kalloc::early_init\<close>): the map that the boot loader leaves in memory, the pages
  after the kernel that are handed to the allocator at once, and the rest of memory that is handed over when the kernel's own page
  table maps it. The end of the kernel image is chosen by the linker and is a parameter.
\<close>

section \<open>What the boot loader leaves\<close>

record boot_info =
  bi_flags :: u32
  bi_cmdline :: u32
  bi_memmap_len :: u32
  bi_memmap_addr :: u32

definition addr_to_boot_info :: "phys_mem \<Rightarrow> u64 \<Rightarrow> boot_info" where
  "addr_to_boot_info pm a = \<lparr>bi_flags = of_nat (from_le (mem_bytes pm a 4)), bi_cmdline = of_nat (from_le (mem_bytes pm (a + 16) 4)),
     bi_memmap_len = of_nat (from_le (mem_bytes pm (a + 44) 4)), bi_memmap_addr = of_nat (from_le (mem_bytes pm (a + 48) 4))\<rparr>"

text \<open>The result is the contents of \<open>MEM_MAP\<close> up to \<open>MEM_MAP_NENTRIES\<close>.\<close>

definition kmem_early_init :: "phys_mem \<Rightarrow> u64 \<Rightarrow> mem_map_entry list res" where
  "kmem_early_init pm boot_info_phys =
     (let boot_info = addr_to_boot_info pm boot_info_phys
      in if \<not> bit (bi_flags boot_info) 6 then Panic ''assertion failed''
         else mem_map_collect (mem_bytes pm (ucast (bi_memmap_addr boot_info)) (unat (bi_memmap_len boot_info))) 0 [])"

definition early_pages :: "usize \<Rightarrow> usize list res" where
  "early_pages end_addr = page_slice_mut end_addr (phys_to_addr EARLY_FREE_END)"

definition kalloc_early_init :: "usize list \<Rightarrow> (pagemem, unit) kop" where
  "kalloc_early_init ps = free_pages ps"

section \<open>The memory map\<close>

text \<open>An entry as the boot loader writes it: its size without this field, the start, the length and the type.\<close>

definition map_entry_bytes :: "u64 \<times> u64 \<times> u32 \<Rightarrow> bytes" where
  "map_entry_bytes e = (case e of (start, len, t) \<Rightarrow> to_le 4 20 @ to_le 8 (unat start) @ to_le 8 (unat len) @ to_le 4 (unat t))"

definition map_entry :: "u64 \<times> u64 \<times> u32 \<Rightarrow> mem_map_entry" where
  "map_entry e = (case e of (start, len, t) \<Rightarrow> \<lparr>me_start = start, me_end = start + len, me_typ = mem_type_of t\<rparr>)"

lemma length_map_entry_bytes: "length (map_entry_bytes e) = 24"
  by (cases e) (simp add: map_entry_bytes_def)

lemma mem_map_next_entry:
  assumes "case e of (start, len, t) \<Rightarrow> unat start + unat len < 2 ^ 64"
  shows "mem_map_next (pre @ map_entry_bytes e @ post) (length pre) = Ok (Some (map_entry e, length pre + 24))"
proof -
  obtain start len t where e: "e = (start, len, t)" by (cases e)
  have "slice (pre @ map_entry_bytes e @ post) (length pre) (length pre + 24) = map_entry_bytes e"
    by (simp add: slice_def length_map_entry_bytes)
  moreover have "slice (map_entry_bytes e) 0 4 = to_le 4 20" "slice (map_entry_bytes e) 4 12 = to_le 8 (unat start)"
    "slice (map_entry_bytes e) 12 20 = to_le 8 (unat len)" "slice (map_entry_bytes e) 20 24 = to_le 4 (unat t)"
    by (simp_all add: e map_entry_bytes_def slice_def)
  moreover have "unat (of_nat (from_le (to_le 4 20)) :: u32) = 20" by (simp add: from_le_to_le)
  ultimately show ?thesis
    using assms by (simp add: mem_map_next_def Let_def length_map_entry_bytes read_u32_def read_u64_def e map_entry_def)
qed

lemma mem_map_collect_entries:
  assumes "\<forall>e \<in> set es. case e of (start, len, t) \<Rightarrow> unat start + unat len < 2 ^ 64" "length acc + length es \<le> 256"
  shows "mem_map_collect (pre @ concat (map map_entry_bytes es)) (length pre) acc = Ok (acc @ map map_entry es)"
  using assms
proof (induction es arbitrary: pre acc)
  case Nil
  then show ?case by (subst mem_map_collect.simps) (simp add: mem_map_next_def)
next
  case (Cons e es)
  have "mem_map_collect (pre @ map_entry_bytes e @ concat (map map_entry_bytes es)) (length pre) acc =
      mem_map_collect ((pre @ map_entry_bytes e) @ concat (map map_entry_bytes es)) (length (pre @ map_entry_bytes e)) (acc @ [map_entry e])"
    using Cons.prems by (subst mem_map_collect.simps) (simp add: mem_map_next_entry length_map_entry_bytes)
  also have "\<dots> = Ok ((acc @ [map_entry e]) @ map map_entry es)" using Cons.prems by (intro Cons.IH) simp_all
  finally show ?case by simp
qed

text \<open>The memory map that the boot loader has written is the one that is read, entry by entry.\<close>

theorem early_init_reads_map:
  assumes info: "addr_to_boot_info pm a = \<lparr>bi_flags = fl, bi_cmdline = cl, bi_memmap_len = of_nat (24 * length es), bi_memmap_addr = addr\<rparr>"
    and fl: "bit fl 6" and es: "\<forall>e \<in> set es. case e of (start, len, t) \<Rightarrow> unat start + unat len < 2 ^ 64" "length es \<le> 256"
    and mem: "mem_bytes pm (ucast addr) (24 * length es) = concat (map map_entry_bytes es)"
  shows "kmem_early_init pm a = Ok (map map_entry es)"
proof -
  have "unat (of_nat (24 * length es) :: u32) = 24 * length es" using es(2) by (intro unat_of_nat32) simp
  then show ?thesis
    using mem_map_collect_entries [OF es(1), of "[]" "[]"] es(2) mem fl by (simp add: kmem_early_init_def info Let_def)
qed

section \<open>Ranges of pages\<close>

text \<open>The addresses, in the kernel's window, of the pages in a range of physical memory.\<close>

definition phys_pages :: "u64 \<Rightarrow> u64 \<Rightarrow> usize set" where
  "phys_pages a b = {p. p mod 4096 = 0 \<and> a \<le> addr_to_phys p \<and> addr_to_phys p < b}"

lemma phys_addr_inverse [simp]: "addr_to_phys (phys_to_addr x) = x" "phys_to_addr (addr_to_phys p) = p"
  by (simp_all add: addr_to_phys_def phys_to_addr_def)

lemma aligned_nat: "(x :: u64) mod 4096 = 0 \<longleftrightarrow> 4096 dvd unat x"
proof -
  have "unat (x mod 4096) = unat x mod 4096" by (simp add: unat_mod_distrib)
  then show ?thesis by (metis dvd_eq_mod_eq_0 unat_eq_zero)
qed

lemma phys_to_addr_aligned: "phys_to_addr x mod 4096 = 0 \<longleftrightarrow> x mod 4096 = 0"
proof -
  have K: "(4096 :: nat) dvd 18446603336221196288" and W: "(4096 :: nat) dvd 2 ^ 64"
    using le_imp_power_dvd [of 12 64 "2 :: nat"] by simp_all
  have "unat (phys_to_addr x) = (unat x + 18446603336221196288) mod 2 ^ 64" by (simp add: phys_to_addr_def unat_word_ariths)
  then have "4096 dvd unat (phys_to_addr x) \<longleftrightarrow> 4096 dvd unat x + 18446603336221196288" by (simp only: dvd_mod_iff [OF W])
  then show ?thesis by (simp only: aligned_nat dvd_add_left_iff [OF K])
qed

lemma phys_pages_disjoint: "b \<le> c \<or> d \<le> a \<Longrightarrow> phys_pages a b \<inter> phys_pages c d = {}"
  by (auto simp: phys_pages_def)

lemma phys_pages_nonnull: "p \<in> phys_pages a b \<Longrightarrow> b < 2 ^ 47 \<Longrightarrow> p \<noteq> 0 \<and> p mod 4096 = 0"
proof -
  assume p: "p \<in> phys_pages a b" "b < 2 ^ 47"
  have "\<not> addr_to_phys 0 < 2 ^ 47" by (simp add: addr_to_phys_def)
  then show ?thesis using p by (auto simp: phys_pages_def)
qed

lemma page_slice_range:
  assumes ab: "a < b" "b < 2 ^ 47" "a mod 4096 = 0" "b mod 4096 = 0"
  obtains ps where "page_slice_mut (phys_to_addr a) (phys_to_addr b) = Ok ps" "distinct ps" "set ps = phys_pages a b"
proof -
  let ?n = "unat (b - a) div 4096"
  let ?ps = "map (\<lambda>k. phys_to_addr a + of_nat (k * 4096)) [0..<?n]"
  have nb: "unat a < unat b" "unat b < 2 ^ 47" using ab(1,2) by (simp_all add: word_less_nat_alt word_le_nat_alt)
  have d: "4096 dvd unat a" "4096 dvd unat b" using ab(3,4) by (simp_all add: aligned_nat)
  have sub: "unat (b - a) = unat b - unat a" using ab(1) by (simp add: unat_sub order_less_imp_le)
  have n: "unat b = unat a + ?n * 4096" using d sub nb(1) by (simp add: dvd_diff_nat)
  have el: "unat (a + of_nat (k * 4096)) = unat a + k * 4096" if "k < ?n" for k
    using that n nb(2) unat_of_nat64 [of "unat a + k * 4096"] by (simp only: of_nat_add) simp
  have addr: "phys_to_addr a + of_nat (k * 4096) = phys_to_addr (a + of_nat (k * 4096))" for k by (simp add: phys_to_addr_def)
  have "distinct ?ps"
    unfolding distinct_map addr
    by (auto simp: inj_on_def simp del: of_nat_mult) (metis phys_addr_inverse(1) el add_left_cancel mult_right_cancel zero_neq_numeral)
  moreover have "phys_to_addr a < phys_to_addr b" using nb by (simp add: phys_to_addr_def word_less_nat_alt unat_add64_small)
  moreover have "set ?ps = phys_pages a b"
  proof (intro set_eqI iffI)
    fix p assume "p \<in> set ?ps"
    then obtain k where k: "k < ?n" "p = phys_to_addr (a + of_nat (k * 4096))" by (auto simp only: set_map set_upt atLeastLessThan_iff addr)
    have "(a + of_nat (k * 4096)) mod 4096 = 0" unfolding aligned_nat el [OF k(1)] using d(1) by simp
    then show "p \<in> phys_pages a b"
      using el [OF k(1)] n k by (simp add: phys_pages_def phys_to_addr_aligned word_le_nat_alt word_less_nat_alt del: of_nat_mult)
  next
    fix p assume "p \<in> phys_pages a b"
    then have x: "4096 dvd unat (addr_to_phys p)" "unat a \<le> unat (addr_to_phys p)" "unat (addr_to_phys p) < unat b"
      using phys_to_addr_aligned [of "addr_to_phys p"] by (auto simp: phys_pages_def aligned_nat word_le_nat_alt word_less_nat_alt)
    then obtain k where "unat (addr_to_phys p) - unat a = k * 4096" using d(1) by (metis dvd_def dvd_diff_nat mult.commute)
    then have k: "unat (addr_to_phys p) = unat a + k * 4096" using x(2) by simp
    then have kn: "k < ?n" using x(3) n by simp
    have "addr_to_phys p = a + of_nat (k * 4096)" unfolding word_unat_eq_iff el [OF kn] by (rule k)
    then have "p = phys_to_addr a + of_nat (k * 4096)" using addr phys_addr_inverse(2) by metis
    then show "p \<in> set ?ps" using kn by (auto simp del: of_nat_mult)
  qed
  ultimately show thesis
    using that [of ?ps] ab(3,4) by (simp add: page_slice_mut_def phys_to_addr_aligned) (simp add: phys_to_addr_def)
qed

lemma free_phys_range_ok:
  assumes ab: "a < b" "b < 2 ^ 47" "a mod 4096 = 0" "b mod 4096 = 0" and fl: "free_list m qs" "phys_pages a b \<inter> set qs = {}"
  obtains m2 qs2 where "free_phys_range a b m = (Ok (), m2)" "free_list m2 qs2" "set qs2 = phys_pages a b \<union> set qs"
proof -
  obtain ps where ps: "page_slice_mut (phys_to_addr a) (phys_to_addr b) = Ok ps" "distinct ps" "set ps = phys_pages a b"
    by (rule page_slice_range [OF ab])
  have "\<forall>p \<in> set ps. p mod 4096 = 0 \<and> p \<noteq> 0 \<and> p \<notin> set qs"
    using phys_pages_nonnull [OF _ ab(2)] fl(2) unfolding ps(3) by blast
  from free_pages_ok [OF fl(1) ps(2) this] obtain t where "free_pages ps m = (Ok (), t)" "free_list t (rev ps @ qs)" by blast
  moreover have "unat a < 2 ^ 47" "unat b < 2 ^ 47" using ab(1,2) by (simp_all add: word_less_nat_alt)
  ultimately show thesis using that [of t "rev ps @ qs"] ps by (simp add: free_phys_range_def)
qed

section \<open>The rest of memory\<close>

text \<open>The entries that \<open>kmem::init\<close> frees, with the range of each.\<close>

definition freed :: "mem_map_entry \<Rightarrow> bool" where
  "freed e \<longleftrightarrow> me_typ e = Memory \<and> EARLY_FREE_END \<le> me_end e"

definition entry_pages :: "mem_map_entry \<Rightarrow> usize set" where
  "entry_pages e = phys_pages (max (me_start e) EARLY_FREE_END) (me_end e)"

text \<open>
  A map in order: what is freed is aligned to pages, not empty above the early region and within the kernel's window, and no two such
  entries overlap.
\<close>

definition map_ok :: "mem_map_entry list \<Rightarrow> bool" where
  "map_ok mm \<longleftrightarrow> (\<forall>e \<in> set mm. freed e \<longrightarrow> me_start e mod 4096 = 0 \<and> me_end e mod 4096 = 0 \<and> me_start e < me_end e \<and>
       EARLY_FREE_END < me_end e \<and> me_end e < 2 ^ 47) \<and>
     sorted_wrt (\<lambda>e f. freed e \<longrightarrow> freed f \<longrightarrow> me_end e \<le> me_start f \<or> me_end f \<le> me_start e) mm"

lemma entry_pages_disjoint:
  "me_end e \<le> me_start f \<or> me_end f \<le> me_start e \<Longrightarrow> entry_pages e \<inter> entry_pages f = {}"
  unfolding entry_pages_def by (rule phys_pages_disjoint) (auto simp: max_def)

lemma kmem_init_entries_ok:
  assumes "map_ok mm" "free_list m qs" "\<forall>e \<in> set mm. freed e \<longrightarrow> entry_pages e \<inter> set qs = {}"
  shows "\<exists>m2 qs2. kmem_init_entries mm m = (Ok (), m2) \<and> free_list m2 qs2 \<and> set qs2 = set qs \<union> (\<Union>e \<in> {e \<in> set mm. freed e}. entry_pages e)"
  using assms
proof (induction mm arbitrary: m qs)
  case Nil
  then show ?case by (auto simp: ret_def)
next
  case (Cons e mm)
  have ok: "map_ok mm" using Cons.prems(1) by (simp add: map_ok_def)
  show ?case
  proof (cases "freed e")
    case False
    then have "kmem_init_entries (e # mm) m = kmem_init_entries mm m" by (auto simp: freed_def)
    moreover have "{f \<in> set (e # mm). freed f} = {f \<in> set mm. freed f}" using False by auto
    ultimately show ?thesis using Cons.IH [OF ok Cons.prems(2)] Cons.prems(3) by (simp del: kmem_init_entries.simps)
  next
    case True
    have e: "me_start e mod 4096 = 0" "me_end e mod 4096 = 0" "me_start e < me_end e" "EARLY_FREE_END < me_end e" "me_end e < 2 ^ 47"
      using Cons.prems(1) True by (auto simp: map_ok_def)
    have "max (me_start e) EARLY_FREE_END < me_end e" "max (me_start e) EARLY_FREE_END mod 4096 = 0" using e by (auto simp: max_def)
    then obtain m1 qs1 where m1: "free_phys_range (max (me_start e) EARLY_FREE_END) (me_end e) m = (Ok (), m1)" "free_list m1 qs1"
      "set qs1 = entry_pages e \<union> set qs"
      using free_phys_range_ok [of "max (me_start e) EARLY_FREE_END" "me_end e" m qs] e Cons.prems(2,3) True by (auto simp: entry_pages_def)
    have "entry_pages f \<inter> set qs1 = {}" if "f \<in> set mm" "freed f" for f
    proof -
      have "entry_pages e \<inter> entry_pages f = {}" using Cons.prems(1) True that by (intro entry_pages_disjoint) (auto simp: map_ok_def)
      then show ?thesis using m1(3) Cons.prems(3) that by auto
    qed
    then obtain m2 qs2 where m2: "kmem_init_entries mm m1 = (Ok (), m2)" "free_list m2 qs2"
      "set qs2 = set qs1 \<union> (\<Union>e \<in> {e \<in> set mm. freed e}. entry_pages e)"
      using Cons.IH [OF ok m1(2)] by auto
    have "kmem_init_entries (e # mm) m = (Ok (), m2)" using m1(1) m2(1) True by (auto simp: freed_def seqk_run)
    then show ?thesis using m2 m1(3) True by (intro exI [of _ m2] exI [of _ qs2]) auto
  qed
qed

lemma kmem_init_ok:
  assumes ok: "map_ok mm" and fl: "free_list m qs" and early: "set qs \<subseteq> phys_pages a EARLY_FREE_END" "0x80000 \<le> a"
  obtains m2 qs2 where "kmem_init mm m = (Ok (), m2)" "free_list m2 qs2"
    "set qs2 = set qs \<union> (\<Union>e \<in> {e \<in> set mm. freed e}. entry_pages e) \<union> phys_pages 0x1000 0x7000 \<union> phys_pages 0x8000 0x80000"
proof -
  let ?high = "\<Union>e \<in> {e \<in> set mm. freed e}. entry_pages e"
  have high: "entry_pages e \<subseteq> {p. EARLY_FREE_END \<le> addr_to_phys p}" for e by (auto simp: entry_pages_def phys_pages_def)
  have low: "p \<in> set qs \<Longrightarrow> a \<le> addr_to_phys p \<and> addr_to_phys p < EARLY_FREE_END" for p using early(1) by (auto simp: phys_pages_def)
  have "\<forall>e \<in> set mm. freed e \<longrightarrow> entry_pages e \<inter> set qs = {}"
  proof (intro ballI impI equals0I)
    fix e p assume "p \<in> entry_pages e \<inter> set qs"
    then have "EARLY_FREE_END \<le> addr_to_phys p" "addr_to_phys p < EARLY_FREE_END" using high low by blast+
    then show False by simp
  qed
  from kmem_init_entries_ok [OF ok fl this] obtain m1 qs1
    where m1: "kmem_init_entries mm m = (Ok (), m1)" "free_list m1 qs1" "set qs1 = set qs \<union> ?high" by blast
  have above: "0x80000 \<le> addr_to_phys p" if "p \<in> set qs1" for p
  proof (cases "p \<in> set qs")
    case True
    then show ?thesis using low [OF True] early(2) by (meson order_trans)
  next
    case False
    then have "EARLY_FREE_END \<le> addr_to_phys p" using that m1(3) high by blast
    then show ?thesis by (simp add: word_le_nat_alt)
  qed
  then have d1: "phys_pages 0x1000 0x7000 \<inter> set qs1 = {}" by (fastforce simp: phys_pages_def word_le_nat_alt word_less_nat_alt)
  have ar: "(0x1000 :: u64) < 0x7000" "(0x7000 :: u64) < 2 ^ 47" "(0x1000 :: u64) mod 4096 = 0" "(0x7000 :: u64) mod 4096 = 0"
    "(0x8000 :: u64) < 0x80000" "(0x80000 :: u64) < 2 ^ 47" "(0x8000 :: u64) mod 4096 = 0" "(0x80000 :: u64) mod 4096 = 0" by simp_all
  obtain m3 qs3 where m3: "free_phys_range 0x1000 0x7000 m1 = (Ok (), m3)" "free_list m3 qs3" "set qs3 = phys_pages 0x1000 0x7000 \<union> set qs1"
    by (rule free_phys_range_ok [of "0x1000" "0x7000", OF ar(1-4) m1(2) d1])
  have d3: "phys_pages 0x8000 0x80000 \<inter> set qs3 = {}" using above m3(3) by (fastforce simp: phys_pages_def word_le_nat_alt word_less_nat_alt)
  obtain m4 qs4 where m4: "free_phys_range 0x8000 0x80000 m3 = (Ok (), m4)" "free_list m4 qs4" "set qs4 = phys_pages 0x8000 0x80000 \<union> set qs3"
    by (rule free_phys_range_ok [of "0x8000" "0x80000", OF ar(5-8) m3(2) d3])
  have "kmem_init mm m = (Ok (), m4)" using m1(1) m3(1) m4(1) by (simp add: kmem_init_def seqk_run)
  then show thesis using that [OF _ m4(2)] m4(3) m3(3) m1(3) by (simp add: Un_ac)
qed

text \<open>A range of memory that ends exactly at 128 MiB passes the test for the early region and makes \<open>init\<close> panic.\<close>

lemma kmem_init_boundary:
  assumes "me_typ e = Memory" "me_end e = EARLY_FREE_END" "me_start e \<le> EARLY_FREE_END"
  shows "kmem_init (e # mm) m = (Panic ''page_slice_mut: bad range'', m)"
proof -
  have "max (me_start e) EARLY_FREE_END = EARLY_FREE_END" using assms(3) by (simp add: max_def)
  moreover have "page_slice_mut (phys_to_addr EARLY_FREE_END) (phys_to_addr EARLY_FREE_END) = Panic ''page_slice_mut: bad range''"
    by (simp add: page_slice_mut_def phys_to_addr_def)
  ultimately show ?thesis using assms by (simp add: kmem_init_def free_phys_range_def kop_simps)
qed

text \<open>
  C30: Memory at boot is freed once, and what is in use never. Let the kernel end at a page boundary between 512 KiB and 128 MiB of physical
  memory, and let the map be in order: every range of memory in it that ends at 128 MiB or above is not empty, begins and ends on page boundaries, ends
  strictly above 128 MiB and below the end of the kernel's window of 128 TiB, and no two of these ranges overlap (a range that ends exactly at
  128 MiB makes \<open>kmem::init\<close> panic; ranges that end below are ignored). Then the pages between the end of the kernel and 128 MiB go on the free list first. After
  the rest of the initialisation, which has allocated any of them, \<open>kmem::init\<close> succeeds and adds exactly the pages above 128 MiB of the
  ranges of memory in the map, and the pages of low memory. The list is still one on which no page occurs twice; and neither the page 0, nor the page
  \<open>0x7000\<close> that holds the start code of the other processors, nor any page from \<open>0x80000\<close> to the end of the kernel is on it.
\<close>
theorem boot_frees_once:
  assumes fin: "end_addr mod 4096 = 0" "0x80000 \<le> addr_to_phys end_addr" "addr_to_phys end_addr < EARLY_FREE_END"
    and ok: "map_ok mm" and m0: "free_list m0 []"
  shows "\<exists>early m1. early_pages end_addr = Ok early \<and> kalloc_early_init early m0 = (Ok (), m1) \<and> free_list m1 (rev early) \<and>
    (\<forall>m qs. free_list m qs \<longrightarrow> set qs \<subseteq> set early \<longrightarrow> (\<exists>m2 qs2. kmem_init mm m = (Ok (), m2) \<and> free_list m2 qs2 \<and>
      set qs2 = set qs \<union> (\<Union>e \<in> {e \<in> set mm. freed e}. entry_pages e) \<union> phys_pages 0x1000 0x7000 \<union> phys_pages 0x8000 0x80000 \<and>
      (\<forall>p \<in> set qs2. addr_to_phys p \<noteq> 0 \<and> addr_to_phys p \<noteq> 0x7000 \<and> (addr_to_phys p < 0x80000 \<or> addr_to_phys end_addr \<le> addr_to_phys p))))"
proof -
  have al: "addr_to_phys end_addr mod 4096 = 0" using fin(1) phys_to_addr_aligned [of "addr_to_phys end_addr"] by simp
  obtain ps where ps: "early_pages end_addr = Ok ps" "distinct ps" "set ps = phys_pages (addr_to_phys end_addr) EARLY_FREE_END"
    using page_slice_range [of "addr_to_phys end_addr" EARLY_FREE_END] fin(3) al by (auto simp: early_pages_def)
  have "\<forall>p \<in> set ps. p mod 4096 = 0 \<and> p \<noteq> 0 \<and> p \<notin> set []" using phys_pages_nonnull ps(3) by fastforce
  from free_pages_ok [OF m0 ps(2) this] obtain m1 where m1: "kalloc_early_init ps m0 = (Ok (), m1)" "free_list m1 (rev ps)"
    by (auto simp: kalloc_early_init_def)
  have "\<exists>m2 qs2. kmem_init mm m = (Ok (), m2) \<and> free_list m2 qs2 \<and>
      set qs2 = set qs \<union> (\<Union>e \<in> {e \<in> set mm. freed e}. entry_pages e) \<union> phys_pages 0x1000 0x7000 \<union> phys_pages 0x8000 0x80000 \<and>
      (\<forall>p \<in> set qs2. addr_to_phys p \<noteq> 0 \<and> addr_to_phys p \<noteq> 0x7000 \<and> (addr_to_phys p < 0x80000 \<or> addr_to_phys end_addr \<le> addr_to_phys p))"
    if q: "free_list m qs" "set qs \<subseteq> set ps" for m qs
  proof -
    obtain m2 qs2 where m2: "kmem_init mm m = (Ok (), m2)" "free_list m2 qs2"
      "set qs2 = set qs \<union> (\<Union>e \<in> {e \<in> set mm. freed e}. entry_pages e) \<union> phys_pages 0x1000 0x7000 \<union> phys_pages 0x8000 0x80000"
      by (rule kmem_init_ok [OF ok q(1) _ fin(2)]) (use q(2) ps(3) in blast)
    have "addr_to_phys p \<noteq> 0 \<and> addr_to_phys p \<noteq> 0x7000 \<and> (addr_to_phys p < 0x80000 \<or> addr_to_phys end_addr \<le> addr_to_phys p)" if "p \<in> set qs2" for p
    proof -
      consider "addr_to_phys end_addr \<le> addr_to_phys p" | "EARLY_FREE_END \<le> addr_to_phys p"
        | "0x1000 \<le> addr_to_phys p" "addr_to_phys p < 0x7000" | "0x8000 \<le> addr_to_phys p" "addr_to_phys p < 0x80000"
        using \<open>p \<in> set qs2\<close> q(2) unfolding m2(3) ps(3) by (auto simp: entry_pages_def phys_pages_def)
      then show ?thesis by cases (use fin(2,3) in \<open>auto simp: word_le_nat_alt word_less_nat_alt\<close>)
    qed
    then show ?thesis using m2 by blast
  qed
  then show ?thesis using ps(1) m1 by blast
qed

text \<open>A machine with 256 MiB and a kernel of 1 MiB.\<close>

theorem boot_frees_once_witness:
  "\<exists>early m1. early_pages (KERNBASE + 0x200000) = Ok early \<and> kalloc_early_init early \<lparr>pages = \<lambda>_. page_empty, free_head = 0\<rparr> = (Ok (), m1) \<and>
    (\<exists>m2 qs2. kmem_init [\<lparr>me_start = 0, me_end = 0x9F000, me_typ = Memory\<rparr>, \<lparr>me_start = 0x100000, me_end = 0x10000000, me_typ = Memory\<rparr>] m1 = (Ok (), m2) \<and>
      free_list m2 qs2 \<and> KERNBASE + 0x9000000 \<in> set qs2)"
proof -
  let ?mm = "[\<lparr>me_start = 0, me_end = 0x9F000, me_typ = Memory\<rparr>, \<lparr>me_start = 0x100000, me_end = 0x10000000, me_typ = Memory\<rparr>]"
  have fl: "free_list \<lparr>pages = \<lambda>_. page_empty, free_head = 0\<rparr> []" by (simp add: free_list_def page_empty_def)
  have ok: "map_ok ?mm" by (simp add: map_ok_def freed_def)
  have fin: "(KERNBASE + 0x200000) mod 4096 = 0" "0x80000 \<le> addr_to_phys (KERNBASE + 0x200000)" "addr_to_phys (KERNBASE + 0x200000) < EARLY_FREE_END"
    by (simp_all add: addr_to_phys_def)
  from boot_frees_once [OF fin ok fl] obtain early m1 where e: "early_pages (KERNBASE + 0x200000) = Ok early"
    "kalloc_early_init early \<lparr>pages = \<lambda>_. page_empty, free_head = 0\<rparr> = (Ok (), m1)" "free_list m1 (rev early)"
    and m: "\<forall>m qs. free_list m qs \<longrightarrow> set qs \<subseteq> set early \<longrightarrow> (\<exists>m2 qs2. kmem_init ?mm m = (Ok (), m2) \<and> free_list m2 qs2 \<and>
      set qs2 = set qs \<union> (\<Union>e \<in> {e \<in> set ?mm. freed e}. entry_pages e) \<union> phys_pages 0x1000 0x7000 \<union> phys_pages 0x8000 0x80000 \<and>
      (\<forall>p \<in> set qs2. addr_to_phys p \<noteq> 0 \<and> addr_to_phys p \<noteq> 0x7000 \<and>
        (addr_to_phys p < 0x80000 \<or> addr_to_phys (KERNBASE + 0x200000) \<le> addr_to_phys p)))"
    by (elim exE conjE) (rule that)
  obtain m2 qs2 where "kmem_init ?mm m1 = (Ok (), m2)" "free_list m2 qs2" "(\<Union>e \<in> {e \<in> set ?mm. freed e}. entry_pages e) \<subseteq> set qs2"
    using m [rule_format, OF e(3)] by auto
  moreover have "KERNBASE + 0x9000000 \<in> (\<Union>e \<in> {e \<in> set ?mm. freed e}. entry_pages e)"
  proof (rule UN_I [of "?mm ! 1"])
    show "?mm ! 1 \<in> {e \<in> set ?mm. freed e}" by (simp add: freed_def)
    show "KERNBASE + 0x9000000 \<in> entry_pages (?mm ! 1)" by (simp add: entry_pages_def phys_pages_def addr_to_phys_def max_def)
  qed
  ultimately show ?thesis using e by blast
qed

end
