(* ===== verification/Spinlock.thy ===== *)
theory Spinlock
  imports Arch
begin

text \<open>
  Spin locks (\<open>kernel/src/spinlock.rs\<close>). The lock word, the owner field and the calls made on
  the acquiring CPU are modelled as functions; \<open>smp_step\<close> interleaves them over any number of
  CPUs at the granularity of the code's memory accesses: entering \<open>acquire\<close>, one atomic exchange,
  the store of the owner, clearing the owner, and the exchange that frees the lock.
\<close>

section \<open>The lock\<close>

record spinlock =
  locked :: u64
  lock_cpu :: int

definition spinlock_new :: spinlock where
  "spinlock_new = \<lparr>locked = 0, lock_cpu = -1\<rparr>"

text \<open>\<open>lock; xchgq\<close>: returns the old word and leaves the new one.\<close>

definition xswap :: "u64 \<Rightarrow> u64 \<Rightarrow> u64 \<times> u64" where
  "xswap word value = (word, value)"

definition holding :: "spinlock \<Rightarrow> cpu \<Rightarrow> (bool \<times> cpu) res" where
  "holding lk c =
     without_intrs (\<lambda>c. locked lk \<noteq> 0 \<and> lock_cpu lk = uint (cpu_id c)) c"

text \<open>\<open>acquire\<close> up to its loop: interrupts off, then the assertion against nesting.\<close>

definition acquire_enter :: "spinlock \<Rightarrow> cpu \<Rightarrow> cpu res" where
  "acquire_enter lk c =
     rbind (push_intr_disable c) (\<lambda>c1.
     rbind (holding lk c1) (\<lambda>(h, c2).
       if h then Panic ''nested lock'' else Ok c2))"

text \<open>One evaluation of the loop condition: the lock after the exchange, and whether it was won.\<close>

definition acquire_try :: "spinlock \<Rightarrow> bool \<times> spinlock" where
  "acquire_try lk = (let (old, new) = xswap (locked lk) 1 in (old = 0, lk\<lparr>locked := new\<rparr>))"

definition acquire_own :: "spinlock \<Rightarrow> cpu \<Rightarrow> spinlock" where
  "acquire_own lk c = lk\<lparr>lock_cpu := uint (cpu_id c)\<rparr>"

definition release_check :: "spinlock \<Rightarrow> cpu \<Rightarrow> (spinlock \<times> cpu) res" where
  "release_check lk c =
     rbind (holding lk c) (\<lambda>(h, c1).
       if h then Ok (lk\<lparr>lock_cpu := -1\<rparr>, c1) else Panic ''unlocking unheld lock'')"

definition release_free :: "spinlock \<Rightarrow> cpu \<Rightarrow> (spinlock \<times> cpu) res" where
  "release_free lk c =
     (let (_, new) = xswap (locked lk) 0
      in rbind (pop_intr_disable c) (\<lambda>c1. Ok (lk\<lparr>locked := new\<rparr>, c1)))"

text \<open>The whole of \<open>acquire\<close> and \<open>release\<close>, as one CPU runs them; a held lock spins.\<close>

definition acquire :: "spinlock \<Rightarrow> cpu \<Rightarrow> (spinlock \<times> cpu) res" where
  "acquire lk c =
     rbind (acquire_enter lk c) (\<lambda>c1.
       let (won, lk1) = acquire_try lk
       in if won then Ok (acquire_own lk1 c1, c1) else Block)"

definition release :: "spinlock \<Rightarrow> cpu \<Rightarrow> (spinlock \<times> cpu) res" where
  "release lk c = rbind (release_check lk c) (\<lambda>(lk1, c1). release_free lk1 c1)"

text \<open>\<open>SpinMutex::with_lock\<close>: run a thunk on the protected data between the two.\<close>

definition with_lock :: "spinlock \<Rightarrow> cpu \<Rightarrow> ('d \<Rightarrow> 'a \<times> 'd) \<Rightarrow> 'd \<Rightarrow> ('a \<times> 'd \<times> spinlock \<times> cpu) res" where
  "with_lock lk c thunk d =
     rbind (acquire lk c) (\<lambda>(lk1, c1).
       let (r, d1) = thunk d
       in rbind (release lk1 c1) (\<lambda>(lk2, c2). Ok (r, d1, lk2, c2)))"

text \<open>
  \<open>SpinMutex\<close>: a lock with the data that it protects. A guard refers to both, so it is the mutex after \<open>lock\<close>; it is dropped at the
  end of its scope.
\<close>

record 'd spinmutex =
  mx_lock :: spinlock
  mx_data :: 'd

definition spinmutex_new :: "'d \<Rightarrow> 'd spinmutex" where
  "spinmutex_new d = \<lparr>mx_lock = spinlock_new, mx_data = d\<rparr>"

definition mutex_acquire :: "'d spinmutex \<Rightarrow> cpu \<Rightarrow> ('d spinmutex \<times> cpu) res" where
  "mutex_acquire mx c = rbind (acquire (mx_lock mx) c) (\<lambda>(l, c1). Ok (mx\<lparr>mx_lock := l\<rparr>, c1))"

definition mutex_release :: "'d spinmutex \<Rightarrow> cpu \<Rightarrow> ('d spinmutex \<times> cpu) res" where
  "mutex_release mx c = rbind (release (mx_lock mx) c) (\<lambda>(l, c1). Ok (mx\<lparr>mx_lock := l\<rparr>, c1))"

definition mutex_holding :: "'d spinmutex \<Rightarrow> cpu \<Rightarrow> (bool \<times> cpu) res" where
  "mutex_holding mx c = holding (mx_lock mx) c"

definition mutex_lock :: "'d spinmutex \<Rightarrow> cpu \<Rightarrow> ('d spinmutex \<times> cpu) res" where
  "mutex_lock mx c = mutex_acquire mx c"

definition guard_deref :: "'d spinmutex \<Rightarrow> 'd" where
  "guard_deref g = mx_data g"

definition guard_deref_mut :: "('d \<Rightarrow> 'a \<times> 'd) \<Rightarrow> 'd spinmutex \<Rightarrow> 'a \<times> 'd spinmutex" where
  "guard_deref_mut f g = (let (r, d) = f (mx_data g) in (r, g\<lparr>mx_data := d\<rparr>))"

definition guard_drop :: "'d spinmutex \<Rightarrow> cpu \<Rightarrow> ('d spinmutex \<times> cpu) res" where
  "guard_drop g c = rbind (release (mx_lock g) c) (\<lambda>(l, c1). Ok (g\<lparr>mx_lock := l\<rparr>, c1))"

section \<open>The lock on several processors\<close>

datatype lock_pc = Idle | Spinning | Won | Critical | Releasing

record smp =
  lk :: spinlock
  cpus :: "u32 \<Rightarrow> cpu"
  pcs :: "u32 \<Rightarrow> lock_pc"

inductive smp_step :: "smp \<Rightarrow> smp \<Rightarrow> bool" where
  enter: "pcs s i = Idle \<Longrightarrow> acquire_enter (lk s) (cpus s i) = Ok c \<Longrightarrow>
    smp_step s (s\<lparr>cpus := (cpus s)(i := c), pcs := (pcs s)(i := Spinning)\<rparr>)"
| lose: "pcs s i = Spinning \<Longrightarrow> acquire_try (lk s) = (False, l) \<Longrightarrow>
    smp_step s (s\<lparr>lk := l\<rparr>)"
| win: "pcs s i = Spinning \<Longrightarrow> acquire_try (lk s) = (True, l) \<Longrightarrow>
    smp_step s (s\<lparr>lk := l, pcs := (pcs s)(i := Won)\<rparr>)"
| own: "pcs s i = Won \<Longrightarrow>
    smp_step s (s\<lparr>lk := acquire_own (lk s) (cpus s i), pcs := (pcs s)(i := Critical)\<rparr>)"
| leave: "pcs s i = Critical \<Longrightarrow> release_check (lk s) (cpus s i) = Ok (l, c) \<Longrightarrow>
    smp_step s (s\<lparr>lk := l, cpus := (cpus s)(i := c), pcs := (pcs s)(i := Releasing)\<rparr>)"
| free: "pcs s i = Releasing \<Longrightarrow> release_free (lk s) (cpus s i) = Ok (l, c) \<Longrightarrow>
    smp_step s (s\<lparr>lk := l, cpus := (cpus s)(i := c), pcs := (pcs s)(i := Idle)\<rparr>)"

definition smp_init :: smp where
  "smp_init = \<lparr>lk = spinlock_new,
     cpus = (\<lambda>i. \<lparr>cpu_id = i, ncli = 0, saved_intr_status = False, intr_en = True\<rparr>),
     pcs = (\<lambda>_. Idle)\<rparr>"

inductive smp_reach :: "smp \<Rightarrow> bool" where
  start: "smp_reach smp_init"
| step: "smp_reach s \<Longrightarrow> smp_step s t \<Longrightarrow> smp_reach t"

definition owns :: "lock_pc \<Rightarrow> bool" where
  "owns p \<longleftrightarrow> p = Won \<or> p = Critical \<or> p = Releasing"

definition smp_inv :: "smp \<Rightarrow> bool" where
  "smp_inv s \<longleftrightarrow>
     (\<forall>i. cpu_id (cpus s i) = i \<and> cpu_ok (cpus s i) \<and> ncli (cpus s i) = (if pcs s i = Idle then 0 else 1)) \<and>
     (\<forall>i j. owns (pcs s i) \<longrightarrow> owns (pcs s j) \<longrightarrow> i = j) \<and>
     (locked (lk s) \<noteq> 0 \<longleftrightarrow> (\<exists>i. owns (pcs s i))) \<and>
     (\<forall>i. pcs s i = Critical \<longleftrightarrow> lock_cpu (lk s) = uint i)"

section \<open>Lemmas\<close>

lemma holding_Ok:
  assumes "cpu_ok c" "ncli c \<noteq> -1"
  shows "\<exists>c2. holding l c = Ok (locked l \<noteq> 0 \<and> lock_cpu l = uint (cpu_id c), c2) \<and>
    intr_en c2 = intr_en c \<and> ncli c2 = ncli c \<and> cpu_id c2 = cpu_id c \<and> cpu_ok c2"
proof -
  obtain c1 where c1: "push_intr_disable c = Ok c1" "cpu_id c1 = cpu_id c"
    using push_intr_disable_Ok [OF assms(2)] by blast
  moreover obtain c2 where "pop_intr_disable c1 = Ok c2" "intr_en c2 = intr_en c"
    "ncli c2 = ncli c" "cpu_id c2 = cpu_id c" "cpu_ok c2"
    using push_pop_inverse [OF assms(1) c1(1)] by blast
  ultimately show ?thesis by (simp add: holding_def without_intrs_def Let_def)
qed

lemma acquire_enter_idle:
  assumes "cpu_ok c" "ncli c = 0" "\<not> (locked l \<noteq> 0 \<and> lock_cpu l = uint (cpu_id c))"
  shows "\<exists>c2. acquire_enter l c = Ok c2 \<and> ncli c2 = 1 \<and> \<not> intr_en c2 \<and> cpu_id c2 = cpu_id c"
proof -
  obtain c1 where c1: "push_intr_disable c = Ok c1" "ncli c1 = 1" "\<not> intr_en c1" "cpu_id c1 = cpu_id c"
    using push_intr_disable_Ok [of c] assms(2) by force
  then obtain c2 where "holding l c1 = Ok (locked l \<noteq> 0 \<and> lock_cpu l = uint (cpu_id c), c2)"
    "intr_en c2 = intr_en c1" "ncli c2 = ncli c1" "cpu_id c2 = cpu_id c"
    using holding_Ok [of c1 l] by (auto simp: cpu_ok_def)
  with c1 assms(3) show ?thesis by (auto simp: acquire_enter_def)
qed

lemma minus_one_neq_uint [simp]: "-1 \<noteq> uint (w :: 'a :: len word)" "uint (w :: 'a :: len word) \<noteq> -1"
  using uint_ge_0 [of w] by linarith+

lemma smp_inv_init: "smp_inv smp_init"
  by (auto simp: smp_inv_def smp_init_def spinlock_new_def cpu_ok_def owns_def)

lemma smp_invD:
  assumes "smp_inv s"
  shows "cpu_id (cpus s i) = i" "cpu_ok (cpus s i)"
    "pcs s i = Idle \<Longrightarrow> ncli (cpus s i) = 0" "pcs s i \<noteq> Idle \<Longrightarrow> ncli (cpus s i) = 1"
    "owns (pcs s i) \<Longrightarrow> owns (pcs s j) \<Longrightarrow> i = j"
    "locked (lk s) \<noteq> 0 \<longleftrightarrow> (\<exists>i. owns (pcs s i))"
    "pcs s i = Critical \<longleftrightarrow> lock_cpu (lk s) = uint i"
  using assms unfolding smp_inv_def by auto

lemma smp_invI:
  assumes "\<And>j. cpu_id (cpus s j) = j \<and> cpu_ok (cpus s j) \<and> ncli (cpus s j) = (if pcs s j = Idle then 0 else 1)"
    and "\<And>j k. owns (pcs s j) \<Longrightarrow> owns (pcs s k) \<Longrightarrow> j = k"
    and "locked (lk s) \<noteq> 0 \<longleftrightarrow> (\<exists>j. owns (pcs s j))"
    and "\<And>j. pcs s j = Critical \<longleftrightarrow> lock_cpu (lk s) = uint j"
  shows "smp_inv s"
  using assms unfolding smp_inv_def by blast

lemma owns_simps [simp]:
  "owns Won" "owns Critical" "owns Releasing" "\<not> owns Idle" "\<not> owns Spinning"
  by (simp_all add: owns_def)

lemma sole_owner:
  assumes "smp_inv s" "owns (pcs s i)"
  shows "owns (pcs s j) \<longleftrightarrow> j = i" "pcs s j = Critical \<Longrightarrow> j = i"
  using smp_invD(5) [OF assms(1), of j i] assms(2) by auto

lemma holding_busy:
  assumes "smp_inv s" "pcs s i \<noteq> Idle"
  shows "\<exists>c2. holding (lk s) (cpus s i) = Ok (pcs s i = Critical, c2) \<and>
    ncli c2 = 1 \<and> cpu_id c2 = i \<and> cpu_ok c2"
proof -
  have "locked (lk s) \<noteq> 0 \<and> lock_cpu (lk s) = uint i \<longleftrightarrow> pcs s i = Critical"
    using smp_invD(6,7) [OF assms(1)] by (metis owns_def)
  then show ?thesis
    using holding_Ok [of "cpus s i" "lk s"] smp_invD [OF assms(1)] assms(2) by auto
qed

lemma enter_inv:
  assumes "smp_inv s" "pcs s i = Idle" "acquire_enter (lk s) (cpus s i) = Ok c"
  shows "smp_inv (s\<lparr>cpus := (cpus s)(i := c), pcs := (pcs s)(i := Spinning)\<rparr>)" (is "smp_inv ?t")
proof (rule smp_invI)
  note I = smp_invD [OF assms(1)]
  have "\<not> (locked (lk s) \<noteq> 0 \<and> lock_cpu (lk s) = uint (cpu_id (cpus s i)))"
    using I(1,7) [of i] assms(2) by auto
  then have c: "ncli c = 1 \<and> \<not> intr_en c \<and> cpu_id c = i"
    using acquire_enter_idle [of "cpus s i" "lk s"] I assms(2,3) by auto
  fix j k
  show "cpu_id (cpus ?t j) = j \<and> cpu_ok (cpus ?t j) \<and> ncli (cpus ?t j) = (if pcs ?t j = Idle then 0 else 1)"
    using c I by (simp add: cpu_ok_def)
  show "owns (pcs ?t j) \<Longrightarrow> owns (pcs ?t k) \<Longrightarrow> j = k"
    using I(5) [of j k] by (simp split: if_splits)
  show "pcs ?t j = Critical \<longleftrightarrow> lock_cpu (lk ?t) = uint j"
    using I(7) [of j] assms(2) by (auto split: if_splits)
next
  show "locked (lk ?t) \<noteq> 0 \<longleftrightarrow> (\<exists>j. owns (pcs ?t j))"
    using smp_invD(6) [OF assms(1)] assms(2) by (simp, metis owns_simps(4))
qed

lemma lose_inv:
  assumes "smp_inv s" "acquire_try (lk s) = (False, l)"
  shows "smp_inv (s\<lparr>lk := l\<rparr>)"
  using assms unfolding smp_inv_def by (auto simp: acquire_try_def xswap_def)

lemma win_inv:
  assumes "smp_inv s" "pcs s i = Spinning" "acquire_try (lk s) = (True, l)"
  shows "smp_inv (s\<lparr>lk := l, pcs := (pcs s)(i := Won)\<rparr>)" (is "smp_inv ?t")
proof (rule smp_invI)
  note I = smp_invD [OF assms(1)]
  have l: "locked (lk s) = 0" "l = (lk s)\<lparr>locked := 1\<rparr>"
    using assms(3) by (auto simp: acquire_try_def xswap_def)
  then have no: "\<not> owns (pcs s j)" for j using I(6) by blast
  fix j k
  show "cpu_id (cpus ?t j) = j \<and> cpu_ok (cpus ?t j) \<and> ncli (cpus ?t j) = (if pcs ?t j = Idle then 0 else 1)"
    using I assms(2) by simp
  show "owns (pcs ?t j) \<Longrightarrow> owns (pcs ?t k) \<Longrightarrow> j = k"
    using no by (simp split: if_splits)
  show "pcs ?t j = Critical \<longleftrightarrow> lock_cpu (lk ?t) = uint j"
    using I(7) [of j] assms(2) by (auto simp: l)
  show "locked (lk ?t) \<noteq> 0 \<longleftrightarrow> (\<exists>j. owns (pcs ?t j))"
    by (auto simp: l)
qed

lemma own_inv:
  assumes "smp_inv s" "pcs s i = Won"
  shows "smp_inv (s\<lparr>lk := acquire_own (lk s) (cpus s i), pcs := (pcs s)(i := Critical)\<rparr>)" (is "smp_inv ?t")
proof (rule smp_invI)
  note I = smp_invD [OF assms(1)]
  have o: "owns (pcs s j) \<longleftrightarrow> j = i" "pcs s j = Critical \<Longrightarrow> j = i" for j
    using sole_owner [OF assms(1), of i j] assms(2) by auto
  fix j k
  show "cpu_id (cpus ?t j) = j \<and> cpu_ok (cpus ?t j) \<and> ncli (cpus ?t j) = (if pcs ?t j = Idle then 0 else 1)"
    using I assms(2) by simp
  show "owns (pcs ?t j) \<Longrightarrow> owns (pcs ?t k) \<Longrightarrow> j = k"
    using o(1) by (simp split: if_splits)
  show "pcs ?t j = Critical \<longleftrightarrow> lock_cpu (lk ?t) = uint j"
    using I(1) [of i] o(2) [of j] by (auto simp: acquire_own_def simp flip: word_uint_eq_iff)
  show "locked (lk ?t) \<noteq> 0 \<longleftrightarrow> (\<exists>j. owns (pcs ?t j))"
    using I(6) o(1) by (auto simp: acquire_own_def)
qed

lemma leave_inv:
  assumes "smp_inv s" "pcs s i = Critical" "release_check (lk s) (cpus s i) = Ok (l, c)"
  shows "smp_inv (s\<lparr>lk := l, cpus := (cpus s)(i := c), pcs := (pcs s)(i := Releasing)\<rparr>)" (is "smp_inv ?t")
proof (rule smp_invI)
  note I = smp_invD [OF assms(1)]
  from holding_busy [OF assms(1), of i] assms(2,3)
  have l: "l = (lk s)\<lparr>lock_cpu := -1\<rparr>" and c: "ncli c = 1" "cpu_id c = i" "cpu_ok c"
    by (auto simp: release_check_def)
  have o: "owns (pcs s j) \<longleftrightarrow> j = i" "pcs s j = Critical \<Longrightarrow> j = i" for j
    using sole_owner [OF assms(1), of i j] assms(2) by auto
  fix j k
  show "cpu_id (cpus ?t j) = j \<and> cpu_ok (cpus ?t j) \<and> ncli (cpus ?t j) = (if pcs ?t j = Idle then 0 else 1)"
    using I assms(2) c by simp
  show "owns (pcs ?t j) \<Longrightarrow> owns (pcs ?t k) \<Longrightarrow> j = k"
    using o(1) by (simp split: if_splits)
  show "pcs ?t j = Critical \<longleftrightarrow> lock_cpu (lk ?t) = uint j"
    using o(2) [of j] by (auto simp: l)
  show "locked (lk ?t) \<noteq> 0 \<longleftrightarrow> (\<exists>j. owns (pcs ?t j))"
    using I(6) o(1) by (auto simp: l)
qed

lemma pop_last:
  assumes "cpu_ok c" "ncli c = 1" "pop_intr_disable c = Ok c1"
  shows "ncli c1 = 0 \<and> cpu_id c1 = cpu_id c \<and> cpu_ok c1"
  using assms by (auto simp: pop_intr_disable_def cpu_ok_def intr_enable_def Let_def split: if_splits)

lemma free_inv:
  assumes "smp_inv s" "pcs s i = Releasing" "release_free (lk s) (cpus s i) = Ok (l, c)"
  shows "smp_inv (s\<lparr>lk := l, cpus := (cpus s)(i := c), pcs := (pcs s)(i := Idle)\<rparr>)" (is "smp_inv ?t")
proof (rule smp_invI)
  note I = smp_invD [OF assms(1)]
  have l: "l = (lk s)\<lparr>locked := 0\<rparr>" and p: "pop_intr_disable (cpus s i) = Ok c"
    using assms(3) by (auto simp: release_free_def xswap_def rbind_Ok_iff)
  have c: "ncli c = 0 \<and> cpu_id c = i \<and> cpu_ok c"
    using pop_last [OF _ _ p] I assms(2) by auto
  have o: "owns (pcs s j) \<longleftrightarrow> j = i" for j
    using sole_owner [OF assms(1), of i j] assms(2) by auto
  fix j k
  show "cpu_id (cpus ?t j) = j \<and> cpu_ok (cpus ?t j) \<and> ncli (cpus ?t j) = (if pcs ?t j = Idle then 0 else 1)"
    using I c by simp
  show "owns (pcs ?t j) \<Longrightarrow> owns (pcs ?t k) \<Longrightarrow> j = k"
    using o by (simp split: if_splits)
  show "pcs ?t j = Critical \<longleftrightarrow> lock_cpu (lk ?t) = uint j"
    using I(7) [of j] assms(2) by (auto simp: l)
  show "locked (lk ?t) \<noteq> 0 \<longleftrightarrow> (\<exists>j. owns (pcs ?t j))"
    using o by (auto simp: l)
qed

lemma smp_step_inv: "smp_step s t \<Longrightarrow> smp_inv s \<Longrightarrow> smp_inv t"
  by (induction rule: smp_step.induct)
    (auto intro: enter_inv lose_inv win_inv own_inv leave_inv free_inv)

lemma smp_reach_inv: "smp_reach s \<Longrightarrow> smp_inv s"
  by (induction rule: smp_reach.induct) (auto intro: smp_inv_init smp_step_inv)

section \<open>Properties\<close>

text \<open>
  C2: Spin locks exclude. In every state that any number of processors can reach by entering
  \<open>acquire\<close>, exchanging the lock word, storing the owner and releasing, in any interleaving, a
  processor in its critical section is the only one that owns the lock, has interrupts off, and its
  \<open>release\<close> finds the lock held by itself, so the check in \<open>release\<close> does not panic.
\<close>

theorem spinlock_mutual_exclusion:
  assumes "smp_reach s" "pcs s i = Critical"
  shows "(\<forall>j. owns (pcs s j) \<longrightarrow> j = i) \<and> \<not> intr_en (cpus s i) \<and>
    (\<exists>l c. release_check (lk s) (cpus s i) = Ok (l, c) \<and> locked l \<noteq> 0 \<and> lock_cpu l = -1)"
proof -
  note inv = smp_reach_inv [OF assms(1)]
  have o: "owns (pcs s i)" using assms(2) by simp
  obtain c where "holding (lk s) (cpus s i) = Ok (True, c)"
    using holding_busy [OF inv, of i] assms(2) by auto
  moreover have "locked (lk s) \<noteq> 0" using smp_invD(6) [OF inv] o by blast
  moreover have "\<not> intr_en (cpus s i)"
    using smp_invD(2,4) [OF inv, of i] assms(2) by (simp add: cpu_ok_def)
  ultimately show ?thesis using smp_invD(5) [OF inv _ o] by (auto simp: release_check_def)
qed

definition smp_critical :: smp where
  "smp_critical = \<lparr>lk = \<lparr>locked = 1, lock_cpu = 0\<rparr>,
     cpus = (cpus smp_init)(0 := \<lparr>cpu_id = 0, ncli = 1, saved_intr_status = True, intr_en = False\<rparr>),
     pcs = (\<lambda>_. Idle)(0 := Critical)\<rparr>"

lemma smp_critical_reach: "smp_reach smp_critical"
proof -
  define c where "c = \<lparr>cpu_id = (0 :: u32), ncli = 1, saved_intr_status = True, intr_en = False\<rparr>"
  define s1 where "s1 = smp_init\<lparr>cpus := (cpus smp_init)(0 := c), pcs := (pcs smp_init)(0 := Spinning)\<rparr>"
  define s2 where "s2 = s1\<lparr>lk := (lk s1)\<lparr>locked := 1\<rparr>, pcs := (pcs s1)(0 := Won)\<rparr>"
  have "acquire_enter (lk smp_init) (cpus smp_init 0) = Ok c"
    by (simp add: acquire_enter_def holding_def without_intrs_def push_intr_disable_def pop_intr_disable_def
        intr_disable_def smp_init_def spinlock_new_def Let_def c_def)
  then have "smp_step smp_init s1" unfolding s1_def by (rule enter [rotated]) (simp add: smp_init_def)
  moreover have "smp_step s1 s2" unfolding s2_def
    by (rule win) (simp_all add: s1_def acquire_try_def xswap_def smp_init_def spinlock_new_def)
  moreover have "smp_step s2 (s2\<lparr>lk := acquire_own (lk s2) (cpus s2 0), pcs := (pcs s2)(0 := Critical)\<rparr>)"
    by (rule own) (simp add: s2_def)
  moreover have "s2\<lparr>lk := acquire_own (lk s2) (cpus s2 0), pcs := (pcs s2)(0 := Critical)\<rparr> = smp_critical"
    by (simp add: s2_def s1_def smp_critical_def acquire_own_def smp_init_def spinlock_new_def c_def fun_eq_iff)
  ultimately show ?thesis by (metis smp_reach.intros)
qed

theorem spinlock_mutual_exclusion_witness:
  "pcs smp_critical 0 = Critical \<and> \<not> intr_en (cpus smp_critical 0) \<and> \<not> owns (pcs smp_critical 1) \<and>
   (\<exists>l c. release_check (lk smp_critical) (cpus smp_critical 0) = Ok (l, c))"
proof -
  have "pcs smp_critical 0 = Critical" by (simp add: smp_critical_def)
  with spinlock_mutual_exclusion [OF smp_critical_reach this] show ?thesis by force
qed

text \<open>
  An uncontended \<open>with_lock\<close> runs its closure once and leaves everything but the data as it was:
  the lock is free again, and the processor's interrupt flag and nesting count are restored.
\<close>

theorem with_lock_uncontended:
  assumes "locked l = 0" "lock_cpu l = -1" "cpu_ok c" "ncli c = 0"
  shows "\<exists>c2. with_lock l c f d = Ok (fst (f d), snd (f d), l, c2) \<and> intr_en c2 = intr_en c \<and> ncli c2 = 0"
proof -
  obtain r e where f: "f d = (r, e)" by (cases "f d")
  have l: "l\<lparr>locked := 0, lock_cpu := -1\<rparr> = l" using assms(1,2) by (cases l) simp
  show ?thesis
    using assms l
    by (simp add: with_lock_def acquire_def acquire_enter_def acquire_try_def acquire_own_def xswap_def
        release_def release_check_def release_free_def holding_def without_intrs_def push_intr_disable_def
        pop_intr_disable_def intr_disable_def intr_enable_def cpu_ok_def Let_def f)
qed

theorem with_lock_uncontended_witness:
  "\<exists>c2. with_lock spinlock_new (cpus smp_init 3) (\<lambda>d. (d, d + 1)) (41 :: nat) = Ok (41, 42, spinlock_new, c2) \<and>
     intr_en c2 \<and> ncli c2 = 0"
  using with_lock_uncontended [of spinlock_new "cpus smp_init 3" "\<lambda>d. (d, d + 1)" "41 :: nat"]
  by (simp add: spinlock_new_def smp_init_def cpu_ok_def)

lemma rbind_assoc: "rbind (rbind r f) g = rbind r (\<lambda>x. rbind (f x) g)"
  by (cases r) simp_all

text \<open>
  A scope with a guard and \<open>with_lock\<close> do the same.
\<close>

theorem guard_scope_is_with_lock:
  "rbind (mutex_lock mx c) (\<lambda>(g, c1). let (r, g1) = guard_deref_mut f g in rbind (guard_drop g1 c1) (\<lambda>(mx2, c2). Ok (r, mx2, c2))) =
   rbind (with_lock (mx_lock mx) c f (mx_data mx)) (\<lambda>(r, d, l, c2). Ok (r, mx\<lparr>mx_lock := l, mx_data := d\<rparr>, c2))"
proof (cases "f (mx_data mx)")
  case f: (Pair r d)
  have swap: "mx\<lparr>mx_lock := l1, mx_data := d, mx_lock := l\<rparr> = mx\<lparr>mx_lock := l, mx_data := d\<rparr>" for l1 l by (cases mx) simp
  show ?thesis
    by (simp add: mutex_lock_def mutex_acquire_def guard_deref_mut_def guard_drop_def with_lock_def f rbind_assoc split_beta Let_def swap)
qed

end
