(* ===== verification/Crash.thy ===== *)
theory Crash
  imports Fslog
begin

text \<open>
  What the log guarantees. Copying a list of blocks is described by an interface, interpreted on the
  two loops of \<open>fslog.rs\<close>; on top of it, the exact sequence of device writes of a commit, the
  effect of recovery, and the theorem that a crash between any two of these writes leaves, after
  recovery, either the old or the new contents of every block.
\<close>

section \<open>Copying a list of blocks\<close>

definition apply_writes :: "('a \<Rightarrow> bytes) \<Rightarrow> ('a \<times> bytes) list \<Rightarrow> 'a \<Rightarrow> bytes" where
  "apply_writes D ws = foldl (\<lambda>D (a, v). D(a := v)) D ws"

lemma apply_writes_simps [simp]:
  "apply_writes D [] = D" "apply_writes D ((a, v) # ws) = apply_writes (D(a := v)) ws"
  "apply_writes D (xs @ ys) = apply_writes (apply_writes D xs) ys"
  by (simp_all add: apply_writes_def)

lemma apply_writes_other: "a \<notin> fst ` set ws \<Longrightarrow> apply_writes D ws a = D a"
  by (induction ws arbitrary: D) auto

lemma apply_writes_zip:
  "length as = length vs \<Longrightarrow> distinct as \<Longrightarrow> i < length as \<Longrightarrow> apply_writes D (zip as vs) (as ! i) = vs ! i"
proof (induction as vs arbitrary: D i rule: list_induct2)
  case Nil
  then show ?case by simp
next
  case (Cons a as v vs)
  show ?case
  proof (cases i)
    case 0
    have "a \<notin> fst ` set (zip as vs)" using Cons.prems by (auto dest: set_zip_leftD)
    then show ?thesis using 0 by (simp add: apply_writes_other)
  next
    case (Suc j)
    then show ?thesis using Cons by simp
  qed
qed

lemma apply_writes_Pair:
  "apply_writes D (zip (map (Pair d) as) vs) (d, b) = apply_writes (\<lambda>b. D (d, b)) (zip as vs) b"
proof (induction as arbitrary: D vs)
  case (Cons a as)
  then show ?case by (cases vs) (auto simp: fun_upd_def)
qed simp

locale block_copier =
  fixes cp :: "u64 \<Rightarrow> u64 \<Rightarrow> ('s, unit) kop"
    and inv :: "'s \<Rightarrow> bool"
    and view :: "'s \<Rightarrow> u64 \<Rightarrow> bytes"
    and addr :: "u64 \<Rightarrow> 'a"
    and dsk :: "'s \<Rightarrow> 'a \<Rightarrow> bytes"
    and journal :: "'s \<Rightarrow> ('a \<times> bytes) list"
    and unwritten :: "'s \<Rightarrow> 'a set"
    and rest :: "'s \<Rightarrow> 'r"
  assumes cp_law: "inv s \<Longrightarrow> src \<noteq> dst \<Longrightarrow> \<exists>t. cp src dst s = (Ok (), t) \<and> inv t \<and>
      view t = (view s)(dst := view s src) \<and> dsk t = (dsk s)(addr dst := view s src) \<and>
      journal t = journal s @ [(addr dst, view s src)] \<and> unwritten t = unwritten s - {addr dst} \<and>
      rest t = rest s"
begin

lemma copy_list:
  "length srcs = length dsts \<Longrightarrow> inv s \<Longrightarrow> distinct dsts \<Longrightarrow> set srcs \<inter> set dsts = {} \<Longrightarrow>
   \<exists>t. run_all (\<lambda>(x, y). cp x y) (zip srcs dsts) s = (Ok (), t) \<and> inv t \<and>
     view t = apply_writes (view s) (zip dsts (map (view s) srcs)) \<and>
     dsk t = apply_writes (dsk s) (zip (map addr dsts) (map (view s) srcs)) \<and>
     journal t = journal s @ zip (map addr dsts) (map (view s) srcs) \<and>
     unwritten t = unwritten s - addr ` set dsts \<and> rest t = rest s"
proof (induction srcs dsts arbitrary: s rule: list_induct2)
  case Nil
  then show ?case by (simp add: ret_def)
next
  case (Cons x xs y ys)
  then have "x \<noteq> y" by auto
  then obtain u where u: "cp x y s = (Ok (), u)" "inv u" "view u = (view s)(y := view s x)"
    "dsk u = (dsk s)(addr y := view s x)" "journal u = journal s @ [(addr y, view s x)]"
    "unwritten u = unwritten s - {addr y}" "rest u = rest s"
    using cp_law Cons.prems(1) by blast
  have m: "map (view u) xs = map (view s) xs" using u(3) Cons.prems(3) by auto
  obtain t where "run_all (\<lambda>(x, y). cp x y) (zip xs ys) u = (Ok (), t)" "inv t"
    "view t = apply_writes (view u) (zip ys (map (view s) xs))"
    "dsk t = apply_writes (dsk u) (zip (map addr ys) (map (view s) xs))"
    "journal t = journal u @ zip (map addr ys) (map (view s) xs)"
    "unwritten t = unwritten u - addr ` set ys" "rest t = rest u"
    using Cons.IH [OF u(2)] Cons.prems by (auto simp: m)
  then show ?case using u by (auto simp: kop_simps)
qed

end

definition lview :: "u32 \<Rightarrow> 'a bio_state_scheme \<Rightarrow> u64 \<Rightarrow> bytes" where
  "lview dev s b = bview s (dev, b)"

definition linv :: "u32 \<Rightarrow> 'a bio_state_scheme \<Rightarrow> bool" where
  "linv dev s \<longleftrightarrow> dev \<noteq> 0 \<and> binv s {} \<and> card (dirty_ix s) + 2 \<le> length (bufs s)"

definition bio_rest :: "'a bio_state_scheme \<Rightarrow> u32 \<times> nat \<times> 'a" where
  "bio_rest s = (curpid s, length (bufs s), bio_state.more s)"

lemma wrote_linv:
  assumes "linv dev s" "wrote dev dst d s t"
  shows "linv dev t" "lview dev t = (lview dev s)(dst := d)" "disk t = (disk s)((dev, dst) := d)"
    "wlog t = wlog s @ [((dev, dst), d)]" "dirty_addrs t = dirty_addrs s - {(dev, dst)}" "bio_rest t = bio_rest s"
proof -
  have "finite (dirty_ix s)" by (simp add: dirty_ix_def)
  then have "card (dirty_ix t) \<le> card (dirty_ix s)" using assms(2) by (simp add: wrote_def card_mono)
  then show "linv dev t" using assms by (simp add: linv_def wrote_def)
qed (use assms in \<open>auto simp: wrote_def linv_def lview_def bio_rest_def\<close>)

interpretation sync: block_copier "copy_into dev" "linv dev" "lview dev" "Pair dev" disk wlog dirty_addrs bio_rest
  for dev
proof
  fix s :: "'a bio_state_scheme" and src dst :: u64
  assume "linv dev s" "src \<noteq> dst"
  then obtain t where "copy_into dev src dst s = (Ok (), t)" "wrote dev dst (bview s (dev, src)) s t"
    using copy_into_spec [of s dev src dst] by (auto simp: linv_def)
  then show "\<exists>t. copy_into dev src dst s = (Ok (), t) \<and> linv dev t \<and>
      lview dev t = (lview dev s)(dst := lview dev s src) \<and> disk t = (disk s)((dev, dst) := lview dev s src) \<and>
      wlog t = wlog s @ [((dev, dst), lview dev s src)] \<and> dirty_addrs t = dirty_addrs s - {(dev, dst)} \<and>
      bio_rest t = bio_rest s"
    using wrote_linv [OF \<open>linv dev s\<close>] by (auto simp: lview_def)
qed

interpretation install: block_copier "copy_from dev" "linv dev" "lview dev" "Pair dev" disk wlog dirty_addrs bio_rest
  for dev
proof
  fix s :: "'a bio_state_scheme" and src dst :: u64
  assume "linv dev s" "src \<noteq> dst"
  then obtain t where "copy_from dev src dst s = (Ok (), t)" "wrote dev dst (bview s (dev, src)) s t"
    using copy_from_spec [of s dev src dst] by (auto simp: linv_def)
  then show "\<exists>t. copy_from dev src dst s = (Ok (), t) \<and> linv dev t \<and>
      lview dev t = (lview dev s)(dst := lview dev s src) \<and> disk t = (disk s)((dev, dst) := lview dev s src) \<and>
      wlog t = wlog s @ [((dev, dst), lview dev s src)] \<and> dirty_addrs t = dirty_addrs s - {(dev, dst)} \<and>
      bio_rest t = bio_rest s"
    using wrote_linv [OF \<open>linv dev s\<close>] by (auto simp: lview_def)
qed

section \<open>The log in memory and on the device\<close>

text \<open>
  \<open>log_ok\<close>: the log lies on a real device, its area does not wrap around, the logged blocks are
  different, lie outside the area, and leave one log block spare, as \<open>read\<close> demands at recovery.
\<close>

definition log_area :: "log \<Rightarrow> u64 set" where
  "log_area l = {b. unat (log_start l) \<le> unat b \<and> unat b < unat (log_start l) + log_size l}"

definition log_ok :: "log \<Rightarrow> bool" where
  "log_ok l \<longleftrightarrow> log_dev l \<noteq> 0 \<and> length (log_blocks l) = LOGSIZE \<and> log_len l < LOGSIZE \<and>
     log_len l + 1 < log_size l \<and> unat (log_start l) + log_size l \<le> 2 ^ 64 \<and>
     distinct (header l) \<and> set (header l) \<inter> log_area l = {}"

lemma log_okD:
  assumes "log_ok l"
  shows "log_dev l \<noteq> 0" "length (header l) = log_len l" "log_len l < LOGSIZE" "log_len l + 1 < log_size l"
    "unat (log_start l) + log_size l \<le> 2 ^ 64" "distinct (header l)" "set (header l) \<inter> log_area l = {}"
  using assms by (auto simp: log_ok_def header_def)

lemma unat_log_block:
  assumes "log_ok l" "i < log_len l"
  shows "unat (log_block l i) = unat (log_start l) + i + 1"
proof -
  have b: "unat (log_start l) + i + 1 < 2 ^ 64" using log_okD(4,5) [OF assms(1)] assms(2) by simp
  then have "unat (log_start l + of_nat i) = unat (log_start l) + i"
    by (subst unat_add64_small) simp_all
  with b show ?thesis unfolding log_block_def by (subst unat_add64_small) simp_all
qed

definition log_targets :: "log \<Rightarrow> u64 list" where
  "log_targets l = map (log_block l) [0..<log_len l]"

lemma log_targets:
  assumes "log_ok l"
  shows "length (log_targets l) = log_len l" "distinct (log_targets l)"
    "set (log_targets l) \<subseteq> log_area l - {log_start l}" "log_start l \<in> log_area l"
    "set (header l) \<inter> set (log_targets l) = {}"
proof -
  show "length (log_targets l) = log_len l" by (simp add: log_targets_def)
  have "inj_on (log_block l) {0..<log_len l}"
    by (rule inj_onI) (metis unat_log_block [OF assms] atLeastLessThan_iff add_right_cancel add_left_cancel)
  then show "distinct (log_targets l)" by (simp add: log_targets_def distinct_map)
  show t: "set (log_targets l) \<subseteq> log_area l - {log_start l}"
    using unat_log_block [OF assms] log_okD(4) [OF assms] by (force simp: log_targets_def log_area_def)
  show "log_start l \<in> log_area l" using log_okD(4) [OF assms] by (simp add: log_area_def)
  show "set (header l) \<inter> set (log_targets l) = {}" using t log_okD(7) [OF assms] by blast
qed

lemma run_all_cong:
  assumes "\<And>x s. x \<in> set xs \<Longrightarrow> f x s = g (h x) s"
  shows "run_all f xs s = run_all g (map h xs) s"
  using assms
proof (induction xs arbitrary: s)
  case (Cons x xs)
  have "run_all f xs = run_all g (map h xs)" by (rule ext) (rule Cons.IH, simp add: Cons.prems)
  moreover have "f x = g (h x)" by (rule ext) (simp add: Cons.prems)
  ultimately show ?case by simp
qed simp

lemma log_block_check_ok:
  "log_ok l \<Longrightarrow> i < log_len l \<Longrightarrow> seqk (log_block_check l i) f s = f s"
  using log_okD(4,5) [of l] by (simp add: log_block_check_def kop_simps)

lemma enumerate_header:
  "log_ok l \<Longrightarrow> zip (header l) (log_targets l) = map (\<lambda>(i, b). (b, log_block l i)) (enumerate 0 (header l))"
  "log_ok l \<Longrightarrow> zip (log_targets l) (header l) = map (\<lambda>(i, b). (log_block l i, b)) (enumerate 0 (header l))"
  by (rule nth_equalityI; simp add: log_targets log_okD(2) nth_enumerate_eq log_targets_def)+

lemma log_sync_eq:
  assumes "log_ok (the_log s)"
  shows "log_sync s = run_all (\<lambda>(x, y). copy_into (log_dev (the_log s)) x y) (zip (header (the_log s)) (log_targets (the_log s))) s"
proof -
  have "log_sync s = run_all (\<lambda>(i, b). seqk (log_block_check (the_log s) i)
      (copy_into (log_dev (the_log s)) b (log_block (the_log s) i))) (enumerate 0 (header (the_log s))) s"
    by (simp add: log_sync_def kop_simps)
  also have "\<dots> = run_all (\<lambda>(x, y). copy_into (log_dev (the_log s)) x y)
      (map (\<lambda>(i, b). (b, log_block (the_log s) i)) (enumerate 0 (header (the_log s)))) s"
    by (rule run_all_cong)
      (use assms in \<open>auto simp: in_set_enumerate_eq log_okD(2) log_block_check_ok\<close>)
  finally show ?thesis using assms by (simp add: enumerate_header)
qed

lemma log_commit_eq:
  assumes "log_ok (the_log s)"
  shows "log_commit s = run_all (\<lambda>(x, y). copy_from (log_dev (the_log s)) x y) (zip (log_targets (the_log s)) (header (the_log s))) s"
proof -
  have "log_commit s = run_all (\<lambda>(i, b). seqk (log_block_check (the_log s) i)
      (copy_from (log_dev (the_log s)) (log_block (the_log s) i) b)) (enumerate 0 (header (the_log s))) s"
    by (simp add: log_commit_def kop_simps)
  also have "\<dots> = run_all (\<lambda>(x, y). copy_from (log_dev (the_log s)) x y)
      (map (\<lambda>(i, b). (log_block (the_log s) i, b)) (enumerate 0 (header (the_log s)))) s"
    by (rule run_all_cong)
      (use assms in \<open>auto simp: in_set_enumerate_eq log_okD(2) log_block_check_ok\<close>)
  finally show ?thesis using assms by (simp add: enumerate_header)
qed

section \<open>The header block\<close>

lemma length_header_bytes: "log_ok l \<Longrightarrow> length (header_bytes l) = 8 + 8 * log_len l"
  by (simp add: header_bytes_def length_concat comp_def sum_list_triv log_okD(2))

lemma slice_overwrite_front: "b \<le> length ys \<Longrightarrow> slice (overwrite d 0 ys) a b = slice ys a b"
  by (simp add: slice_def overwrite_def)

lemma header_decode:
  assumes "log_ok l" "length d = BSIZE"
  shows "data_u64 (overwrite d 0 (header_bytes l)) 0 = of_nat (log_len l)"
    "i < log_len l \<Longrightarrow> data_u64 (overwrite d 0 (header_bytes l)) (Suc i) = header l ! i"
    "map (data_u64 (overwrite d 0 (header_bytes l))) [1..<log_len l + 1] = header l"
proof -
  note L = length_header_bytes [OF assms(1)]
  have "slice (header_bytes l) 0 8 = to_le 8 (log_len l)" by (simp add: slice_def header_bytes_def)
  then show "data_u64 (overwrite d 0 (header_bytes l)) 0 = of_nat (log_len l)"
    using L log_okD(3) [OF assms(1)] by (simp add: data_u64_def slice_overwrite_front from_le_to_le)
  show *: "data_u64 (overwrite d 0 (header_bytes l)) (Suc i) = header l ! i" if "i < log_len l" for i
  proof -
    have "slice (header_bytes l) (8 * Suc i) (8 * Suc i + 8) =
        take 8 (drop (8 * i) (concat (map (\<lambda>b. to_le 8 (unat b)) (header l))))"
      by (simp add: slice_def header_bytes_def)
    also have "\<dots> = to_le 8 (unat (header l ! i))"
      by (rule slice_concat) (use that log_okD(2) [OF assms(1)] in simp_all)
    finally show ?thesis
      using L that by (simp add: data_u64_def slice_overwrite_front)
  qed
  show "map (data_u64 (overwrite d 0 (header_bytes l))) [1..<log_len l + 1] = header l"
    by (rule nth_equalityI) (use * log_okD(2) [OF assms(1)] in \<open>simp_all del: upt_Suc\<close>)
qed

lemma bview_length: "binv s H \<Longrightarrow> fst a \<noteq> 0 \<Longrightarrow> length (bview s a) = BSIZE"
proof -
  assume B: "binv s H" and a: "fst a \<noteq> 0"
  from B a show ?thesis
  proof (cases rule: bview_cases [of s H a, consumes 2, case_names buffer device])
    case (buffer k)
    then show ?thesis using binvD(5) [OF B, of k] by (simp add: buf_ok_def)
  next
    case device
    then show ?thesis using binvD(4) [OF B] by simp
  qed
qed

lemma log_write_spec:
  assumes "linv (log_dev (the_log s)) s" "log_ok (the_log s)"
  shows "\<exists>t. log_write s = (Ok (), t) \<and>
    wrote (log_dev (the_log s)) (log_start (the_log s))
      (overwrite (lview (log_dev (the_log s)) s (log_start (the_log s))) 0 (header_bytes (the_log s))) s t"
proof -
  note I = assms(1) [unfolded linv_def]
  have "8 + 8 * log_len (the_log s) \<le> BSIZE" using log_okD(3) [OF assms(2)] by simp
  moreover have "length (bview s (log_dev (the_log s), log_start (the_log s))) = BSIZE"
    using bview_length [of s "{}" "(log_dev (the_log s), log_start (the_log s))"] I by simp
  ultimately show ?thesis
    using rewrite_block_spec [where g = "\<lambda>d. overwrite d 0 (header_bytes (the_log s))"
        and s = s and dev = "log_dev (the_log s)" and b = "log_start (the_log s)"] I
      length_header_bytes [OF assms(2)]
    by (auto simp: log_write_def kop_simps lview_def)
qed

lemma more_log:
  "bio_state.more t = bio_state.more s \<Longrightarrow> the_log t = the_log s \<and> lstate t = lstate s"
  by (cases s; cases t) simp

lemma log_upd_simps [simp]:
  "binv (s\<lparr>the_log := l\<rparr>) H = binv s H" "bview (s\<lparr>the_log := l\<rparr>) = bview s"
  "dirty_ix (s\<lparr>the_log := l\<rparr>) = dirty_ix s" "dirty_addrs (s\<lparr>the_log := l\<rparr>) = dirty_addrs s"
  "linv dev (s\<lparr>the_log := l\<rparr>) = linv dev s" "lview dev (s\<lparr>the_log := l\<rparr>) = lview dev s"
  by (simp_all add: binv_def lru_def bview_def dirty_ix_def dirty_addrs_def linv_def lview_def fun_eq_iff
      split: option.split)

section \<open>The writes of a commit\<close>

text \<open>
  The device writes a commit makes, in order: the logged blocks into the log, the header with
  their numbers, the blocks to their places, the empty header.
\<close>

definition hdr :: "log \<Rightarrow> bytes \<Rightarrow> bytes" where
  "hdr l d = overwrite d 0 (header_bytes l)"

definition commit_writes :: "log \<Rightarrow> (u64 \<Rightarrow> bytes) \<Rightarrow> (baddr \<times> bytes) list" where
  "commit_writes l v =
     (let vals = map v (header l); h1 = hdr l (v (log_start l)); h0 = hdr (log_clear l) h1
      in zip (map (Pair (log_dev l)) (log_targets l)) vals @ [((log_dev l, log_start l), h1)] @
         zip (map (Pair (log_dev l)) (header l)) vals @ [((log_dev l, log_start l), h0)])"

lemma log_clear_ok: "log_ok l \<Longrightarrow> log_ok (log_clear l)"
  by (simp add: log_ok_def log_clear_def header_def)

lemma log_clear_fields [simp]:
  "log_dev (log_clear l) = log_dev l" "log_start (log_clear l) = log_start l" "log_len (log_clear l) = 0"
  "header (log_clear l) = []" "log_size (log_clear l) = log_size l"
  by (simp_all add: log_clear_def header_def)

lemma rest_log: "bio_rest t = bio_rest s \<Longrightarrow> the_log t = the_log s \<and> lstate t = lstate s"
  using more_log [of t s] by (simp add: bio_rest_def)

lemma apply_writes_zip_map:
  assumes "length as = length bs" "distinct as" "i < length as"
  shows "apply_writes D (zip as (map f bs)) (as ! i) = f (bs ! i)"
  using apply_writes_zip [of as "map f bs" i D] assms by simp

lemma apply_zip_other: "a \<notin> set as \<Longrightarrow> apply_writes D (zip as vs) a = D a"
  by (rule apply_writes_other) (auto dest: set_zip_leftD)

text \<open>The two groups of writes in a commit: the blocks into the log, and the blocks to their places.\<close>

abbreviation log_copies :: "log \<Rightarrow> (u64 \<Rightarrow> bytes) \<Rightarrow> ((u32 \<times> u64) \<times> bytes) list" where
  "log_copies l v \<equiv> zip (map (Pair (log_dev l)) (log_targets l)) (map v (header l))"

abbreviation home_copies :: "log \<Rightarrow> (u64 \<Rightarrow> bytes) \<Rightarrow> ((u32 \<times> u64) \<times> bytes) list" where
  "home_copies l v \<equiv> zip (map (Pair (log_dev l)) (header l)) (map v (header l))"

lemma installed_view:
  assumes "distinct (header l)" "b \<noteq> a" "b \<notin> set ts"
  shows "apply_writes ((apply_writes v (zip ts ys))(a := h)) (zip (header l) (map v (header l))) b = v b"
proof (cases "b \<in> set (header l)")
  case True
  then obtain i where "i < length (header l)" "b = header l ! i" by (auto simp: in_set_conv_nth)
  then show ?thesis using apply_writes_zip_map [of "header l" "header l" i] assms(1) by simp
qed (use assms in \<open>simp add: apply_zip_other\<close>)

lemma commit_logs:
  assumes L: "log_ok (the_log s)" and I: "linv (log_dev (the_log s)) s"
  defines "l \<equiv> the_log s" and "v \<equiv> lview (log_dev (the_log s)) s"
  obtains t1 t2 where "log_sync s = (Ok (), t1)" "log_write t1 = (Ok (), t2)" "linv (log_dev l) t2" "the_log t2 = l" "lstate t2 = lstate s"
    "lview (log_dev l) t2 = (apply_writes v (zip (log_targets l) (map v (header l))))(log_start l := hdr l (v (log_start l)))"
    "disk t2 = (apply_writes (disk s) (log_copies l v))((log_dev l, log_start l) := hdr l (v (log_start l)))"
    "wlog t2 = wlog s @ log_copies l v @ [((log_dev l, log_start l), hdr l (v (log_start l)))]"
    "dirty_addrs t2 = dirty_addrs s - Pair (log_dev l) ` (set (log_targets l) \<union> {log_start l})"
proof -
  define d where "d = log_dev l"
  note T = log_targets [OF L, folded l_def]
  have len: "length (header l) = length (log_targets l)" using T(1) log_okD(2) [OF L] by (simp add: l_def)
  obtain t1 where 1: "log_sync s = (Ok (), t1)" "linv d t1"
    "lview d t1 = apply_writes v (zip (log_targets l) (map v (header l)))"
    "disk t1 = apply_writes (disk s) (zip (map (Pair d) (log_targets l)) (map v (header l)))"
    "wlog t1 = wlog s @ zip (map (Pair d) (log_targets l)) (map v (header l))"
    "dirty_addrs t1 = dirty_addrs s - Pair d ` set (log_targets l)" "bio_rest t1 = bio_rest s"
    using sync.copy_list [OF len, of d s] I T(2,5) log_sync_eq [OF L] by (auto simp: l_def d_def v_def)
  have l1: "the_log t1 = l" "lstate t1 = lstate s" using rest_log [OF 1(7)] by (simp_all add: l_def)
  have "log_start l \<notin> set (log_targets l)" using T(3) by blast
  then have vh1: "lview d t1 (log_start l) = v (log_start l)" using 1(3) by (simp add: apply_zip_other)
  obtain t2 where 2: "log_write t1 = (Ok (), t2)" "wrote d (log_start l) (hdr l (v (log_start l))) t1 t2"
    using log_write_spec [of t1] 1(2) l1 L vh1 by (auto simp: d_def hdr_def l_def)
  note W2 = wrote_linv [OF 1(2) 2(2)]
  show thesis
    by (rule that [OF 1(1) 2(1)]) (use rest_log [OF W2(6)] l1 W2(1-5) 1(3-6) in \<open>auto simp: d_def\<close>)
qed

lemma op_commit_trace:
  assumes L: "log_ok (the_log s)" and I: "linv (log_dev (the_log s)) s" and ne: "log_len (the_log s) \<noteq> 0"
  defines "v \<equiv> lview (log_dev (the_log s)) s" and "l \<equiv> the_log s"
  shows "\<exists>t. op_commit s = (Ok (), t) \<and> linv (log_dev l) t \<and> the_log t = log_clear l \<and> lstate t = lstate s \<and>
    wlog t = wlog s @ commit_writes l v \<and> disk t = apply_writes (disk s) (commit_writes l v) \<and>
    (\<forall>b. b \<notin> log_area l \<longrightarrow> lview (log_dev l) t b = v b) \<and>
    dirty_addrs t = dirty_addrs s - Pair (log_dev l) ` (set (header l) \<union> set (log_targets l) \<union> {log_start l})"
proof -
  define d where "d = log_dev l"
  note T = log_targets [OF L, folded l_def]
  have len: "length (header l) = length (log_targets l)" using T(1) log_okD(2) [OF L] by (simp add: l_def)
  obtain t1 t2 where 1: "log_sync s = (Ok (), t1)" "log_write t1 = (Ok (), t2)" and 2: "linv d t2" "the_log t2 = l" "lstate t2 = lstate s"
    "lview d t2 = (apply_writes v (zip (log_targets l) (map v (header l))))(log_start l := hdr l (v (log_start l)))"
    "disk t2 = (apply_writes (disk s) (log_copies l v))((d, log_start l) := hdr l (v (log_start l)))"
    "wlog t2 = wlog s @ log_copies l v @ [((d, log_start l), hdr l (v (log_start l)))]"
    "dirty_addrs t2 = dirty_addrs s - Pair d ` (set (log_targets l) \<union> {log_start l})"
    unfolding d_def v_def l_def by (rule commit_logs [OF L I])
  have vt: "lview d t2 (log_targets l ! i) = v (header l ! i)" if "i < length (log_targets l)" for i
  proof -
    have "log_targets l ! i \<noteq> log_start l" using T(3) that nth_mem by fastforce
    then show ?thesis using 2(4) apply_writes_zip_map [of "log_targets l" "header l" i v v] len T(2) that by simp
  qed
  then have mv: "map (lview d t2) (log_targets l) = map v (header l)"
    using len by (intro nth_equalityI) simp_all
  obtain t3 where 3: "log_commit t2 = (Ok (), t3)" "linv d t3"
    "lview d t3 = apply_writes (lview d t2) (zip (header l) (map v (header l)))"
    "disk t3 = apply_writes (disk t2) (zip (map (Pair d) (header l)) (map v (header l)))"
    "wlog t3 = wlog t2 @ zip (map (Pair d) (header l)) (map v (header l))"
    "dirty_addrs t3 = dirty_addrs t2 - Pair d ` set (header l)" "bio_rest t3 = bio_rest t2"
    using install.copy_list [OF len [symmetric], of d t2] 2(1) T(5) log_okD(6) [OF L] log_commit_eq [of t2] 2(2,3) L mv
    by (auto simp: l_def d_def)
  have l3: "the_log t3 = l" "lstate t3 = lstate s" using rest_log [OF 3(7)] 2(2,3) by simp_all
  define t4 where "t4 = t3\<lparr>the_log := log_clear l\<rparr>"
  have "log_start l \<notin> set (header l)" using T(4) log_okD(7) [OF L] by (auto simp: l_def)
  then have "lview d t4 (log_start l) = hdr l (v (log_start l))"
    using 3(3) 2(4) by (simp add: t4_def apply_zip_other)
  then obtain t5 where 5: "log_write t4 = (Ok (), t5)"
    "wrote d (log_start l) (hdr (log_clear l) (hdr l (v (log_start l)))) t4 t5"
    using log_write_spec [of t4] 3(2) log_clear_ok [OF L] by (auto simp: t4_def d_def hdr_def l_def)
  have "linv d t4" using 3(2) by (simp add: t4_def)
  note W5 = wrote_linv [OF this 5(2)]
  have "the_log t5 = log_clear l" "lstate t5 = lstate s" using rest_log [OF W5(6)] l3 by (simp_all add: t4_def)
  moreover have "wlog t5 = wlog s @ commit_writes l v" "disk t5 = apply_writes (disk s) (commit_writes l v)"
    using W5(3,4) 3(4,5) 2(5,6) by (simp_all add: t4_def commit_writes_def Let_def d_def)
  moreover have "lview d t5 b = v b" if "b \<notin> log_area l" for b
  proof -
    have nb: "b \<noteq> log_start l" "b \<notin> set (log_targets l)" using that T(3,4) by auto
    then show ?thesis using W5(2) 3(3) 2(4) installed_view [OF _ nb] log_okD(6) [OF L] by (simp add: t4_def l_def)
  qed
  moreover have "op_commit s = (Ok (), t5)"
    using 1 3(1) 5(1) ne l3 by (simp add: op_commit_def log_is_empty_def kop_simps upd_log_def t4_def)
  moreover have "dirty_addrs t5 = dirty_addrs s - Pair d ` (set (header l) \<union> set (log_targets l) \<union> {log_start l})"
    using W5(5) 3(6) 2(7) by (auto simp: t4_def)
  ultimately show ?thesis using W5(1) by (auto simp: d_def)
qed

section \<open>Recovery\<close>

lemma log_insert_fresh:
  assumes "b \<notin> set (header l)" "log_len l < length (log_blocks l)"
  shows "\<exists>m. log_insert b l = Ok m \<and> header m = header l @ [b] \<and> log_len m = log_len l + 1 \<and>
    length (log_blocks m) = length (log_blocks l) \<and> log_dev m = log_dev l \<and> log_start m = log_start l \<and>
    log_size m = log_size l"
  using assms by (simp add: log_insert_def header_def take_Suc_conv_app_nth)

lemma insert_all_spec:
  "distinct (header l @ es) \<Longrightarrow> log_len l + length es \<le> length (log_blocks l) \<Longrightarrow>
   \<exists>m. insert_all es l = Ok m \<and> header m = header l @ es \<and> log_len m = log_len l + length es \<and>
    length (log_blocks m) = length (log_blocks l) \<and> log_dev m = log_dev l \<and> log_start m = log_start l \<and>
    log_size m = log_size l"
proof (induction es arbitrary: l)
  case Nil
  then show ?case by simp
next
  case (Cons e es)
  then obtain m where m: "log_insert e l = Ok m" "header m = header l @ [e]" "log_len m = log_len l + 1"
    "length (log_blocks m) = length (log_blocks l)" "log_dev m = log_dev l" "log_start m = log_start l"
    "log_size m = log_size l"
    using log_insert_fresh [of e l] by auto
  from Cons.IH [of m] Cons.prems m show ?case by auto
qed

definition on_disk_header :: "bytes \<Rightarrow> u64 list" where
  "on_disk_header d = map (data_u64 d) [1..<unat (data_u64 d 0) + 1]"

lemma log_upd_more [simp]: "settled (s\<lparr>the_log := l\<rparr>) k = settled s k"
  by (simp add: settled_def)

lemma log_read_spec:
  fixes s :: "'a fslog_state_scheme"
  defines "l \<equiv> the_log s" and "h \<equiv> lview (log_dev (the_log s)) s (log_start (the_log s))"
  assumes I: "linv (log_dev l) s" and es: "distinct (on_disk_header h)" "length (on_disk_header h) < LOGSIZE"
      "length (on_disk_header h) + 1 < log_size l" and bl: "length (log_blocks l) = LOGSIZE"
  shows "\<exists>t m. log_read s = (Ok (), t) \<and> linv (log_dev l) t \<and> the_log t = m \<and> header m = on_disk_header h \<and>
    log_len m = length (on_disk_header h) \<and> length (log_blocks m) = LOGSIZE \<and> log_dev m = log_dev l \<and>
    log_start m = log_start l \<and> log_size m = log_size l \<and>
    lview (log_dev l) t = lview (log_dev l) s \<and> disk t = disk s \<and> wlog t = wlog s \<and> dirty_ix t = dirty_ix s"
proof -
  note II = I [unfolded linv_def]
  obtain k t1 where 1: "bread (log_dev l) (log_start l) s = (Ok k, t1)" "binv t1 {k}" "data_ref k t1 = h"
    "settled t1 k" "same_outside s t1" "dirty_ix t1 = dirty_ix s"
    "\<forall>a. fst a \<noteq> 0 \<longrightarrow> bview t1 a = bview s a"
    using read_block_spec [of s "log_dev l" "log_start l"] II by (auto simp: h_def lview_def l_def)
  have l1: "the_log t1 = l" using 1(5) more_log [of t1 s] by (simp add: same_outside_def l_def)
  obtain m where m: "insert_all (on_disk_header h) (log_clear l) = Ok m" "header m = on_disk_header h"
    "log_len m = length (on_disk_header h)" "length (log_blocks m) = LOGSIZE" "log_dev m = log_dev l"
    "log_start m = log_start l" "log_size m = log_size l"
    using insert_all_spec [of "log_clear l" "on_disk_header h"] es bl by (auto simp: log_clear_def header_def)
  define u where "u = t1\<lparr>the_log := m\<rparr>"
  obtain t where t: "relse k u = (Ok (), t)" "binv t {}" "same_outside u t" "dirty_ix t = dirty_ix u" "bview t = bview u"
    using relse_spec [of u "{k}" k] 1(2,4) by (auto simp: u_def)
  have lt: "the_log t = m" using t(3) more_log [of t u] by (simp add: same_outside_def u_def)
  have len: "unat (data_u64 h 0) = length (on_disk_header h)" by (simp add: on_disk_header_def)
  have n: "\<not> LOGSIZE \<le> unat (data_u64 h 0)" "\<not> log_size l - 1 \<le> unat (data_u64 h 0)" "log_size l \<noteq> 0"
    using es(2,3) len by simp_all
  have e: "insert_all (map (data_u64 h) [1..<unat (data_u64 h 0) + 1]) (log_clear l) = Ok m"
    using m(1) by (simp only: on_disk_header_def)
  have "log_read s = (Ok (), t)"
  proof -
    have "with_block (log_dev l) (log_start l) (\<lambda>hb.
       bnd (gets (data_ref hb)) (\<lambda>d.
         let len = unat (data_u64 d 0)
         in if log_size l = 0 then panic ''attempt to subtract with overflow''
            else if len \<ge> LOGSIZE \<or> len \<ge> log_size l - 1 then panic ''corrupt log too large''
            else bnd (lift_res (\<lambda>s. insert_all (map (data_u64 d) [1..<len + 1]) (log_clear (the_log s))))
                   (\<lambda>l1. modify (upd_log (\<lambda>_. l1))))) s = (Ok (), t)"
      by (rule with_block_run [OF 1(1) _ t(1)])
        (simp only: kop_simps Let_def 1(3) l1 e n if_False simp_thms upd_log_def u_def)
    then show ?thesis unfolding log_read_def by (simp only: kop_simps l_def [symmetric])
  qed
  moreover have "linv (log_dev l) t" "lview (log_dev l) t = lview (log_dev l) s" "disk t = disk s" "wlog t = wlog s"
      "dirty_ix t = dirty_ix s"
    using II t 1 by (auto simp: linv_def u_def same_outside_def lview_def fun_eq_iff)
  ultimately show ?thesis using lt m by blast
qed

lemma recover_spec:
  fixes s :: "'a fslog_state_scheme"
  defines "l \<equiv> the_log s" and "h \<equiv> lview (log_dev (the_log s)) s (log_start (the_log s))"
  assumes I: "linv (log_dev l) s" and es: "distinct (on_disk_header h)" "length (on_disk_header h) < LOGSIZE"
      "length (on_disk_header h) + 1 < log_size l" "set (on_disk_header h) \<inter> log_area l = {}"
    and bl: "length (log_blocks l) = LOGSIZE" and sz: "unat (log_start l) + log_size l \<le> 2 ^ 64"
  shows "\<exists>t. recover s = (Ok (), t) \<and> log_len (the_log t) = 0 \<and> (\<forall>b. b \<notin> log_area l \<longrightarrow>
    disk t (log_dev l, b) = apply_writes (\<lambda>b. disk s (log_dev l, b))
      (zip (on_disk_header h) (map (\<lambda>i. lview (log_dev l) s (log_block l i)) [0..<length (on_disk_header h)])) b)"
proof -
  define d where "d = log_dev l"
  obtain t1 m where 1: "log_read s = (Ok (), t1)" "linv d t1" "the_log t1 = m" "header m = on_disk_header h"
    "log_len m = length (on_disk_header h)" "length (log_blocks m) = LOGSIZE" "log_dev m = d"
    "log_start m = log_start l" "log_size m = log_size l" "lview d t1 = lview d s" "disk t1 = disk s"
    using log_read_spec [of s] I es(1-3) bl by (auto simp: l_def h_def d_def)
  have ar: "log_area m = log_area l" by (simp add: log_area_def 1)
  have M: "log_ok m"
    using 1 es sz ar I by (simp add: log_ok_def linv_def d_def)
  note T = log_targets [OF M]
  have len: "length (log_targets m) = length (header m)" using T(1) 1 by simp
  have tg: "map (lview d t1) (log_targets m) = map (\<lambda>i. lview d s (log_block l i)) [0..<length (on_disk_header h)]"
    by (simp add: log_targets_def 1 log_block_def)
  obtain t2 where 2: "log_commit t1 = (Ok (), t2)" "linv d t2"
    "disk t2 = apply_writes (disk t1) (zip (map (Pair d) (header m)) (map (lview d t1) (log_targets m)))"
    "bio_rest t2 = bio_rest t1"
    using install.copy_list [OF len, of d t1] 1(2,3,7) T(5) log_okD(6) [OF M] log_commit_eq [of t1] M by auto
  define t3 where "t3 = t2\<lparr>the_log := log_clear m\<rparr>"
  have l2: "the_log t2 = m" using rest_log [OF 2(4)] 1(3) by simp
  obtain t4 x where 4: "log_write t3 = (Ok (), t4)" "wrote d (log_start l) x t3 t4"
    using log_write_spec [of t3] 2(2) log_clear_ok [OF M] 1(7,8) by (auto simp: t3_def)
  have "linv d t3" using 2(2) by (simp add: t3_def)
  note W4 = wrote_linv [OF this 4(2)]
  have "recover s = (Ok (), t4)"
    using 1(1) 2(1) 4(1) l2 by (simp add: recover_def kop_simps upd_log_def t3_def)
  moreover have "log_len (the_log t4) = 0" using rest_log [OF W4(6)] by (simp add: t3_def)
  moreover have "disk t4 (d, b) = apply_writes (\<lambda>b. disk s (d, b))
      (zip (on_disk_header h) (map (\<lambda>i. lview d s (log_block l i)) [0..<length (on_disk_header h)])) b"
    if "b \<notin> log_area l" for b
  proof -
    have "b \<noteq> log_start l" using that T(4) 1(8) ar by auto
    then have "disk t4 (d, b) = apply_writes (disk s) (zip (map (Pair d) (on_disk_header h))
        (map (\<lambda>i. lview d s (log_block l i)) [0..<length (on_disk_header h)])) (d, b)"
      using W4(3) 2(3) tg 1(4,11) by (simp add: t3_def)
    then show ?thesis by (simp add: apply_writes_Pair)
  qed
  ultimately show ?thesis unfolding d_def by blast
qed

section \<open>Crashes\<close>

text \<open>A crash loses memory and keeps the device; booting builds the caches and recovers the log.\<close>

definition crash :: "(baddr \<Rightarrow> bytes) \<Rightarrow> fslog_state" where
  "crash D = \<lparr>curpid = 1, bc_head = 0, bc_tail = 0, bufs = [], disk = D, wlog = [],
     the_log = log_new, lstate = log_state_new\<rparr>"

definition boot :: "u32 \<Rightarrow> u64 \<Rightarrow> nat \<Rightarrow> (pagemem \<times> fslog_state, unit) kop" where
  "boot dev start nlog = seqk (bio_init NBUF)
     (\<lambda>(mem, s). case fslog_init dev start nlog s of (r, t) \<Rightarrow> (r, (mem, t)))"

lemma boot_spec:
  assumes M: "free_list mem ps" "NBUF \<le> length ps"
    and D: "\<And>a. length (D a) = BSIZE" and d: "dev \<noteq> 0" and sz: "unat st + n \<le> 2 ^ 64"
    and es: "distinct (on_disk_header (D (dev, st)))" "length (on_disk_header (D (dev, st))) < LOGSIZE"
      "length (on_disk_header (D (dev, st))) + 1 < n"
      "set (on_disk_header (D (dev, st))) \<inter> {b. unat st \<le> unat b \<and> unat b < unat st + n} = {}"
  shows "\<exists>mem1 t. boot dev st n (mem, crash D) = (Ok (), (mem1, t)) \<and> (\<forall>b. \<not> (unat st \<le> unat b \<and> unat b < unat st + n) \<longrightarrow>
    disk t (dev, b) = apply_writes (\<lambda>b. D (dev, b)) (zip (on_disk_header (D (dev, st)))
      (map (\<lambda>i. D (dev, st + of_nat i + 1)) [0..<length (on_disk_header (D (dev, st)))])) b)"
proof -
  obtain t0 where 0: "new_cache NBUF (crash D) = t0" "binv t0 {}" "dirty_ix t0 = {}"
    "length (bufs t0) = NBUF" "disk t0 = D" "bio_state.more t0 = bio_state.more (crash D)"
    "\<forall>a. fst a \<noteq> 0 \<longrightarrow> bview t0 a = D a"
    using new_cache_spec [of NBUF "crash D"] D by (auto simp: crash_def)
  obtain mem1 where b: "bio_init NBUF (mem, crash D) = (Ok (), (mem1, t0))"
    using bio_init_run [OF _ M] 0(1) by auto
  define l where "l = set_metadata dev st n log_new"
  define t1 where "t1 = t0\<lparr>the_log := l\<rparr>"
  have "the_log t0 = log_new" using more_log [OF 0(6)] by (simp add: crash_def)
  then have m: "modify (upd_log (set_metadata dev st n)) t0 = (Ok (), t1)"
    by (simp add: kop_simps upd_log_def t1_def l_def)
  have l: "log_dev l = dev" "log_start l = st" "log_size l = n" "length (log_blocks l) = LOGSIZE"
    "log_area l = {b. unat st \<le> unat b \<and> unat b < unat st + n}"
    by (simp_all add: l_def set_metadata_def log_new_def log_area_def)
  have v: "lview dev t1 b = D (dev, b)" for b using 0(7) d by (simp add: t1_def lview_def)
  have I: "linv dev t1" using 0 d by (simp add: t1_def linv_def)
  obtain t where "recover t1 = (Ok (), t)" "\<forall>b. b \<notin> log_area l \<longrightarrow>
    disk t (dev, b) = apply_writes (\<lambda>b. disk t1 (dev, b))
      (zip (on_disk_header (D (dev, st))) (map (\<lambda>i. lview dev t1 (log_block l i)) [0..<length (on_disk_header (D (dev, st)))])) b"
    using recover_spec [of t1] I es sz l v by (auto simp: t1_def)
  then show ?thesis
    using b 0(5) m l v by (auto simp: boot_def fslog_init_def kop_simps t1_def log_block_def)
qed

lemma commit_writes_length: "log_ok l \<Longrightarrow> length (commit_writes l v) = 2 * log_len l + 2"
  by (simp add: commit_writes_def Let_def log_targets(1) log_okD(2))

lemma on_disk_header_empty: "data_u64 d 0 = 0 \<Longrightarrow> on_disk_header d = []"
  by (simp add: on_disk_header_def)

lemma on_disk_header_hdr:
  assumes "log_ok l" "length d = BSIZE"
  shows "on_disk_header (hdr l d) = header l" "length (hdr l d) = BSIZE"
proof -
  have "unat (data_u64 (hdr l d) 0) = log_len l"
    using header_decode(1) [OF assms] log_okD(3) [OF assms(1)] by (simp add: hdr_def)
  then show "on_disk_header (hdr l d) = header l"
    using header_decode(3) [OF assms] unfolding on_disk_header_def hdr_def by simp
  show "length (hdr l d) = BSIZE"
    using length_header_bytes [OF assms(1)] log_okD(3) [OF assms(1)] assms(2) by (simp add: hdr_def)
qed

lemma apply_writes_length:
  "(\<And>a. length (D a) = n) \<Longrightarrow> (\<And>a v. (a, v) \<in> set ws \<Longrightarrow> length v = n) \<Longrightarrow> length (apply_writes D ws a) = n"
proof (induction ws arbitrary: D)
  case (Cons w ws)
  obtain x y where w: "w = (x, y)" by (cases w)
  then have "length y = n" using Cons.prems(2) [of x y] by simp
  then have "length (apply_writes (D(x := y)) ws a) = n"
    by (intro Cons.IH) (use Cons.prems in auto)
  then show ?case by (simp add: w)
qed simp

text \<open>The device after some of the writes of a commit, in the three phases.\<close>

lemma commit_prefix_cases:
  assumes "log_ok l" "k \<le> length (commit_writes l v)"
  defines "A \<equiv> zip (map (Pair (log_dev l)) (log_targets l)) (map v (header l))"
    and "B \<equiv> zip (map (Pair (log_dev l)) (header l)) (map v (header l))"
    and "h1 \<equiv> hdr l (v (log_start l))"
  obtains "k \<le> log_len l" "take k (commit_writes l v) = take k A"
  | j where "log_len l < k" "take k (commit_writes l v) = A @ [((log_dev l, log_start l), h1)] @ take j B"
  | "log_len l < k" "take k (commit_writes l v) =
      A @ [((log_dev l, log_start l), h1)] @ B @ [((log_dev l, log_start l), hdr (log_clear l) h1)]"
proof -
  have W: "commit_writes l v = A @ [((log_dev l, log_start l), h1)] @ B @ [((log_dev l, log_start l), hdr (log_clear l) h1)]"
    by (simp add: commit_writes_def Let_def A_def B_def h1_def)
  have n: "length A = log_len l" "length B = log_len l"
    using assms(1) by (simp_all add: A_def B_def log_targets(1) log_okD(2))
  consider "k \<le> log_len l" | "log_len l < k" "k \<le> 2 * log_len l + 1" | "k = 2 * log_len l + 2"
    using assms(2) commit_writes_length [OF assms(1), of v] by linarith
  then show thesis
  proof cases
    case 1
    then show thesis using that(1) W n by simp
  next
    case 2
    then have "take k (commit_writes l v) = A @ [((log_dev l, log_start l), h1)] @ take (k - Suc (log_len l)) B"
      using W n by (simp add: take_Cons')
    with 2 that(2) show thesis by blast
  next
    case 3
    then show thesis using that(3) W n by simp
  qed
qed

lemma copies_other:
  "b \<notin> set (log_targets l) \<Longrightarrow> apply_writes D (take k (log_copies l v)) (log_dev l, b) = D (log_dev l, b)"
  "b \<notin> set (log_targets l) \<Longrightarrow> apply_writes D (log_copies l v) (log_dev l, b) = D (log_dev l, b)"
  "b \<notin> set (header l) \<Longrightarrow> apply_writes D (take k (home_copies l v)) (log_dev l, b) = D (log_dev l, b)"
  "b \<notin> set (header l) \<Longrightarrow> apply_writes D (home_copies l v) (log_dev l, b) = D (log_dev l, b)"
  by (rule apply_writes_other; auto dest!: in_set_takeD set_zip_leftD)+

lemma log_start_apart:
  assumes "log_ok l"
  shows "log_start l \<notin> set (header l)" "log_start l \<notin> set (log_targets l)"
  using log_targets(3,4) [OF assms] log_okD(7) [OF assms] by auto

lemma installing:
  fixes D :: "(u32 \<times> u64) \<Rightarrow> bytes" and v :: "u64 \<Rightarrow> bytes" and h :: bytes and j :: nat
  assumes L: "log_ok l"
  defines "E \<equiv> apply_writes ((apply_writes D (log_copies l v))((log_dev l, log_start l) := h)) (take j (home_copies l v))"
  shows "E (log_dev l, log_start l) = h"
    "b \<notin> log_area l \<Longrightarrow> b \<notin> set (header l) \<Longrightarrow> E (log_dev l, b) = D (log_dev l, b)"
    "i < log_len l \<Longrightarrow> E (log_dev l, log_block l i) = v (header l ! i)"
proof -
  note T = log_targets [OF L]
  show "E (log_dev l, log_start l) = h" using log_start_apart [OF L] by (simp add: E_def copies_other)
  show "E (log_dev l, b) = D (log_dev l, b)" if "b \<notin> log_area l" "b \<notin> set (header l)"
  proof -
    have "b \<noteq> log_start l" "b \<notin> set (log_targets l)" using that T(3,4) by auto
    then show ?thesis using that by (simp add: E_def copies_other)
  qed
  show "E (log_dev l, log_block l i) = v (header l ! i)" if i: "i < log_len l"
  proof -
    have li: "log_block l i = log_targets l ! i" using i by (simp add: log_targets_def)
    then have "log_block l i \<in> set (log_targets l)" using i T(1) by simp
    then have "log_block l i \<notin> set (header l)" "log_block l i \<noteq> log_start l" using T(3,5) by auto
    then have "E (log_dev l, log_block l i) = apply_writes D (log_copies l v) (log_dev l, log_block l i)" by (simp add: E_def copies_other)
    also have "\<dots> = v (header l ! i)"
      using apply_writes_zip_map [of "log_targets l" "header l" i] T(1,2) i log_okD(2) [OF L] by (simp add: apply_writes_Pair li)
    finally show ?thesis .
  qed
qed

lemma installed:
  assumes L: "log_ok l" and b: "b \<notin> log_area l"
  shows "apply_writes ((apply_writes D (log_copies l v))((log_dev l, log_start l) := h)) (home_copies l v) (log_dev l, b) =
    (if b \<in> set (header l) then v b else D (log_dev l, b))"
proof (cases "b \<in> set (header l)")
  case True
  then obtain i where i: "i < length (header l)" "b = header l ! i" by (auto simp: in_set_conv_nth)
  then show ?thesis
    using apply_writes_zip_map [of "header l" "header l" i] log_okD(6) [OF L] by (simp add: apply_writes_Pair)
next
  case False
  moreover have "b \<noteq> log_start l" "b \<notin> set (log_targets l)" using b log_targets(3,4) [OF L] by auto
  ultimately show ?thesis by (simp add: copies_other)
qed

lemma on_disk_prefix:
  assumes L: "log_ok l" and e: "data_u64 (D (log_dev l, log_start l)) 0 = 0" and k: "k \<le> length (commit_writes l v)"
    and len: "length (v (log_start l)) = BSIZE"
  defines "E \<equiv> apply_writes D (take k (commit_writes l v))"
  shows "k \<le> log_len l \<and> on_disk_header (E (log_dev l, log_start l)) = [] \<and>
      (\<forall>b. b \<notin> log_area l \<longrightarrow> E (log_dev l, b) = D (log_dev l, b)) \<or>
    log_len l < k \<and> on_disk_header (E (log_dev l, log_start l)) = header l \<and>
      (\<forall>b. b \<notin> log_area l \<longrightarrow> b \<notin> set (header l) \<longrightarrow> E (log_dev l, b) = D (log_dev l, b)) \<and>
      (\<forall>i < log_len l. E (log_dev l, log_block l i) = v (header l ! i)) \<or>
    log_len l < k \<and> on_disk_header (E (log_dev l, log_start l)) = [] \<and>
      (\<forall>b. b \<notin> log_area l \<longrightarrow> E (log_dev l, b) = (if b \<in> set (header l) then v b else D (log_dev l, b)))"
  using L k
proof (cases rule: commit_prefix_cases)
  case 1
  then have "E (log_dev l, b) = D (log_dev l, b)" if "b \<notin> set (log_targets l)" for b
    using that by (simp add: E_def copies_other)
  then show ?thesis using 1 e log_start_apart [OF L] log_targets(3) [OF L] by (auto simp: on_disk_header_empty)
next
  case (2 j)
  then have "E = apply_writes ((apply_writes D (log_copies l v))((log_dev l, log_start l) := hdr l (v (log_start l)))) (take j (home_copies l v))"
    by (simp add: E_def)
  note E = installing [OF L, where D = D and v = v and h = "hdr l (v (log_start l))" and j = j, folded this]
  show ?thesis using 2 E on_disk_header_hdr [OF L len] by simp
next
  case 3
  then have E: "E = (apply_writes ((apply_writes D (log_copies l v))((log_dev l, log_start l) := hdr l (v (log_start l)))) (home_copies l v))
      ((log_dev l, log_start l) := hdr (log_clear l) (hdr l (v (log_start l))))"
    by (simp add: E_def)
  have "on_disk_header (E (log_dev l, log_start l)) = []"
    using on_disk_header_hdr [OF log_clear_ok [OF L] on_disk_header_hdr(2) [OF L len]] by (simp add: E)
  moreover have "E (log_dev l, b) = (if b \<in> set (header l) then v b else D (log_dev l, b))" if b: "b \<notin> log_area l" for b
  proof -
    have "b \<noteq> log_start l" using b log_targets(4) [OF L] by auto
    then show ?thesis using installed [OF L b, of D v "hdr l (v (log_start l))"] by (simp add: E)
  qed
  ultimately show ?thesis using 3 by simp
qed

lemma commit_writes_bsize:
  assumes "log_ok l" "\<And>b. length (v b) = BSIZE" "(a, x) \<in> set (commit_writes l v)"
  shows "length x = BSIZE"
proof -
  have h: "length (hdr l (v (log_start l))) = BSIZE" using on_disk_header_hdr(2) [OF assms(1)] assms(2) by simp
  then have "length (hdr (log_clear l) (hdr l (v (log_start l)))) = BSIZE"
    using on_disk_header_hdr(2) [OF log_clear_ok [OF assms(1)]] by simp
  with h assms show ?thesis by (auto simp: commit_writes_def Let_def dest!: set_zip_rightD)
qed

lemma apply_zip_installs:
  assumes "distinct hs" "length vs = length hs" "\<And>i. i < length hs \<Longrightarrow> vs ! i = v (hs ! i)"
  shows "apply_writes D (zip hs vs) b = (if b \<in> set hs then v b else D b)"
proof (cases "b \<in> set hs")
  case True
  then obtain i where "i < length hs" "b = hs ! i" by (auto simp: in_set_conv_nth)
  then show ?thesis using apply_writes_zip [of hs vs i D] assms by simp
next
  case False
  then show ?thesis by (simp add: apply_zip_other)
qed

text \<open>
  C1: The log makes a commit atomic. Take a state in which the buffer cache is consistent and no buffer is held, with
  two more buffers than there are modified ones; the log is on a device with a non-zero number and lists at least one block and at
  most \<open>size - 2\<close> (fewer than the 511 of its array), all distinct and none inside the log's own area, which does not wrap around the end of the device;
  and the header block on the device is empty. The commit then succeeds, and whichever of its device writes was the last before a crash,
  booting from the device, with a free page for every buffer, recovers without a panic. Afterwards every block outside the log's
  area has its old contents if the crash came before the header was written, and if it came after, the logged blocks have their
  new contents and the others their old. A log filled up to the limit that \<open>write\<close> enforces, one block more, is
  excluded here: recovery then panics, as the section on the spare block shows.
\<close>

theorem commit_crash_safe:
  assumes "log_ok (the_log s)" and "linv (log_dev (the_log s)) s" and "log_len (the_log s) \<noteq> 0"
    and "data_u64 (disk s (log_dev (the_log s), log_start (the_log s))) 0 = 0"
    and "free_list mem ps" "NBUF \<le> length ps"
  shows "\<exists>t. op_commit s = (Ok (), t) \<and>
    (\<forall>k \<le> length (wlog t) - length (wlog s). \<exists>mem1 r.
       boot (log_dev (the_log s)) (log_start (the_log s)) (log_size (the_log s))
         (mem, crash (apply_writes (disk s) (take k (drop (length (wlog s)) (wlog t))))) = (Ok (), (mem1, r)) \<and>
       (\<forall>b. b \<notin> log_area (the_log s) \<longrightarrow>
          disk r (log_dev (the_log s), b) =
            (if log_len (the_log s) < k \<and> b \<in> set (header (the_log s)) then bview s (log_dev (the_log s), b)
             else disk s (log_dev (the_log s), b))))"
proof -
  define l v dv where "l = the_log s" and "v = lview (log_dev (the_log s)) s" and "dv = log_dev (the_log s)"
  note L = assms(1) [folded l_def] and I = assms(2) [unfolded linv_def]
  note ok = log_okD [OF L]
  obtain t where t: "op_commit s = (Ok (), t)" "wlog t = wlog s @ commit_writes l v"
    using op_commit_trace [OF assms(1-3)] by (auto simp: l_def v_def)
  have vlen: "length (v b) = BSIZE" for b using bview_length [of s "{}" "(dv, b)"] I by (simp add: v_def lview_def dv_def)
  have "\<exists>mem1 r. boot dv (log_start l) (log_size l) (mem, crash (apply_writes (disk s) (take k (commit_writes l v)))) = (Ok (), (mem1, r)) \<and>
       (\<forall>b. b \<notin> log_area l \<longrightarrow> disk r (dv, b) = (if log_len l < k \<and> b \<in> set (header l) then v b else disk s (dv, b)))"
    if k: "k \<le> length (commit_writes l v)" for k
  proof -
    define E where "E = apply_writes (disk s) (take k (commit_writes l v))"
    have El: "length (E a) = BSIZE" for a
      unfolding E_def by (rule apply_writes_length)
        (rule binvD(4), use I in blast, rule commit_writes_bsize [OF L vlen in_set_takeD])
    have P: "k \<le> log_len l \<and> on_disk_header (E (dv, log_start l)) = [] \<and>
        (\<forall>b. b \<notin> log_area l \<longrightarrow> E (dv, b) = disk s (dv, b)) \<or>
      log_len l < k \<and> on_disk_header (E (dv, log_start l)) = header l \<and>
        (\<forall>b. b \<notin> log_area l \<longrightarrow> b \<notin> set (header l) \<longrightarrow> E (dv, b) = disk s (dv, b)) \<and>
        (\<forall>i < log_len l. E (dv, log_block l i) = v (header l ! i)) \<or>
      log_len l < k \<and> on_disk_header (E (dv, log_start l)) = [] \<and>
        (\<forall>b. b \<notin> log_area l \<longrightarrow> E (dv, b) = (if b \<in> set (header l) then v b else disk s (dv, b)))"
      using on_disk_prefix [OF L _ k vlen, of "disk s"] assms(4) unfolding E_def dv_def l_def by blast
    then have hs: "on_disk_header (E (dv, log_start l)) \<in> {[], header l}" by blast
    obtain mem1 r where r: "boot dv (log_start l) (log_size l) (mem, crash E) = (Ok (), (mem1, r))"
      "\<forall>b. b \<notin> log_area l \<longrightarrow> disk r (dv, b) = apply_writes (\<lambda>b. E (dv, b))
        (zip (on_disk_header (E (dv, log_start l)))
          (map (\<lambda>i. E (dv, log_block l i)) [0..<length (on_disk_header (E (dv, log_start l)))])) b"
      using boot_spec [OF assms(5,6), of E dv "log_start l" "log_size l"] El ok hs
      by (auto simp: dv_def l_def log_area_def log_block_def)
    have "disk r (dv, b) = (if log_len l < k \<and> b \<in> set (header l) then v b else disk s (dv, b))"
      if b: "b \<notin> log_area l" for b
      using P
    proof (elim disjE conjE)
      assume p: "log_len l < k" "on_disk_header (E (dv, log_start l)) = header l"
        "\<forall>b. b \<notin> log_area l \<longrightarrow> b \<notin> set (header l) \<longrightarrow> E (dv, b) = disk s (dv, b)"
        "\<forall>i < log_len l. E (dv, log_block l i) = v (header l ! i)"
      have "disk r (dv, b) = (if b \<in> set (header l) then v b else E (dv, b))"
        using r(2) b p(2) apply_zip_installs [OF ok(6), of "map (\<lambda>i. E (dv, log_block l i)) [0..<length (header l)]" v] p(4) ok(2)
        by simp
      then show ?thesis using p b by simp
    qed (use r(2) b in auto)
    then show ?thesis using r(1) by (auto simp: E_def)
  qed
  then show ?thesis using t unfolding l_def v_def dv_def lview_def by simp
qed

definition zero_disk :: "baddr \<Rightarrow> bytes" where
  "zero_disk a = page_empty"

definition one_block_log :: log where
  "one_block_log = \<lparr>log_dev = 1, log_start = 2, log_size = 5, log_len = 1, log_blocks = 100 # replicate 510 0\<rparr>"

definition logged_state :: fslog_state where
  "logged_state = (new_cache 4 (crash zero_disk))\<lparr>the_log := one_block_log\<rparr>"

lemma logged_state:
  "log_ok (the_log logged_state)" "linv 1 logged_state" "disk logged_state = zero_disk"
  "the_log logged_state = one_block_log"
proof -
  show l: "the_log logged_state = one_block_log" by (simp add: logged_state_def)
  show "log_ok (the_log logged_state)" unfolding l
    by (simp add: log_ok_def one_block_log_def header_def log_area_def)
  obtain t where "new_cache 4 (crash zero_disk) = t" "binv t {}" "dirty_ix t = {}" "length (bufs t) = 4"
    "disk t = zero_disk"
    using new_cache_spec [of 4 "crash zero_disk"] by (auto simp: crash_def zero_disk_def page_empty_def)
  then show "linv 1 logged_state" "disk logged_state = zero_disk"
    by (simp_all add: logged_state_def linv_def)
qed

lemma zero_disk_header: "data_u64 (zero_disk (1, 2)) 0 = 0"
  by (simp add: data_u64_def zero_disk_def page_empty_def slice_def eval_nat_numeral)

lemma one_block_log_fields:
  "100 \<notin> log_area one_block_log" "header one_block_log = [100]" "log_len one_block_log = 1"
  "log_start one_block_log = 2" "log_size one_block_log = 5" "log_dev one_block_log = 1"
  by (simp_all add: one_block_log_def header_def log_area_def)

text \<open>Memory with a free page for every buffer.\<close>

definition free_addrs :: "usize list" where
  "free_addrs = map (\<lambda>k. of_nat (4096 * (k + 1))) [0..<NBUF]"

definition free_memory :: pagemem where
  "free_memory = snd (free_pages free_addrs \<lparr>pages = (\<lambda>_. page_empty), free_head = 0\<rparr>)"

lemma free_memory: "free_list free_memory (rev free_addrs)" "NBUF \<le> length (rev free_addrs)"
proof -
  have u: "unat (of_nat (4096 * (k + 1)) :: usize) = 4096 * (k + 1)" if "k < NBUF" for k
    using that by (intro unat_of_nat64) simp
  have e: "p mod 4096 = 0 \<and> p \<noteq> 0" if "p \<in> set free_addrs" for p
  proof -
    from that obtain k where k: "k < NBUF" "p = of_nat (4096 * (k + 1))" by (auto simp: free_addrs_def)
    then have "unat p = 4096 * (k + 1)" using u by (simp only:)
    then have "unat (p mod 4096) = 0" "unat p \<noteq> 0" by (simp_all add: unat_mod_distrib)
    then show ?thesis by (auto simp: unat_eq_0)
  qed
  have "inj_on (\<lambda>k. of_nat (4096 * (k + 1)) :: usize) {0..<NBUF}"
    by (rule inj_onI) (metis u atLeastLessThan_iff add_right_cancel mult_left_cancel zero_neq_numeral)
  then have "distinct free_addrs" by (simp add: free_addrs_def distinct_map)
  moreover have "free_list \<lparr>pages = (\<lambda>_. page_empty), free_head = 0\<rparr> []"
    by (simp add: free_list_def page_empty_def)
  ultimately show "free_list free_memory (rev free_addrs)"
    using free_pages_ok [of "\<lparr>pages = (\<lambda>_. page_empty), free_head = 0\<rparr>" "[]" free_addrs] e
    by (auto simp: free_memory_def)
  show "NBUF \<le> length (rev free_addrs)" by (simp add: free_addrs_def)
qed

theorem commit_crash_safe_witness:
  "\<exists>t mem1 r. op_commit logged_state = (Ok (), t) \<and>
     boot 1 2 5 (free_memory, crash (apply_writes zero_disk (take 2 (drop (length (wlog logged_state)) (wlog t))))) = (Ok (), (mem1, r)) \<and>
     disk r (1, 100) = bview logged_state (1, 100)"
proof -
  have I: "linv (log_dev (the_log logged_state)) logged_state" "log_len (the_log logged_state) \<noteq> 0"
    "data_u64 (disk logged_state (log_dev (the_log logged_state), log_start (the_log logged_state))) 0 = 0"
    using logged_state zero_disk_header by (simp_all add: one_block_log_fields)
  obtain t where t: "op_commit logged_state = (Ok (), t)"
    "wlog t = wlog logged_state @ commit_writes one_block_log (lview 1 logged_state)"
    using op_commit_trace [OF logged_state(1) I(1,2)] by (auto simp: logged_state(4) one_block_log_fields)
  have "2 \<le> length (wlog t) - length (wlog logged_state)"
    using commit_writes_length [OF logged_state(1)] t(2) by (simp add: logged_state(4) one_block_log_fields)
  then obtain mem1 r where "boot 1 2 5 (free_memory, crash (apply_writes zero_disk (take 2 (drop (length (wlog logged_state)) (wlog t))))) = (Ok (), (mem1, r))"
    "\<forall>b. b \<notin> log_area one_block_log \<longrightarrow> disk r (1, b) = (if 1 < (2 :: nat) \<and> b \<in> set [100] then bview logged_state (1, b)
       else zero_disk (1, b))"
    using commit_crash_safe [OF logged_state(1) I free_memory] t(1)
    unfolding logged_state(3,4) one_block_log_fields by (elim exE conjE allE [where x = 2]) auto
  then show ?thesis using t(1) one_block_log_fields(1) by auto
qed

section \<open>The spare block\<close>

text \<open>
  \<open>is_full\<close> lets a transaction fill the log up to \<open>size - 1\<close> blocks, the number of blocks behind the
  header. \<open>read\<close> rejects that count.
\<close>

lemma full_header_count:
  assumes "length (log_blocks l) = LOGSIZE" "log_len l < LOGSIZE" "length d = BSIZE"
  shows "unat (data_u64 (hdr l d) 0) = log_len l"
proof -
  have h: "length (header_bytes l) = 8 + 8 * log_len l"
    using assms by (simp add: header_bytes_def header_def length_concat comp_def sum_list_triv)
  have "slice (header_bytes l) 0 8 = to_le 8 (log_len l)" by (simp add: slice_def header_bytes_def)
  then show ?thesis
    using h assms(2) by (simp add: hdr_def data_u64_def slice_overwrite_front from_le_to_le)
qed

lemma log_read_too_large:
  fixes s :: "'a fslog_state_scheme"
  assumes I: "linv (log_dev (the_log s)) s" and sz: "log_size (the_log s) \<noteq> 0"
    and n: "log_size (the_log s) - 1 \<le> unat (data_u64 (lview (log_dev (the_log s)) s (log_start (the_log s))) 0)"
  shows "fst (log_read s) = Panic ''corrupt log too large''"
proof -
  note II = I [unfolded linv_def]
  obtain k t1 where "bread (log_dev (the_log s)) (log_start (the_log s)) s = (Ok k, t1)"
    "data_ref k t1 = lview (log_dev (the_log s)) s (log_start (the_log s))"
    using read_block_spec [of s "log_dev (the_log s)" "log_start (the_log s)"] II by (auto simp: lview_def)
  then show ?thesis
    using sz n by (simp add: log_read_def with_block_def kop_simps catchk_def expectk_def Let_def)
qed

text \<open>
  C39: The bound that \<open>write\<close> enforces and the bound that recovery accepts differ by one. A log with
  \<open>size - 2\<close> blocks is not full, so one more block may be logged; the header a commit then writes
  makes every later boot panic, however much memory is free for the cache, so the committed transaction cannot be recovered.
\<close>

theorem full_log_unrecoverable:
  assumes "length (log_blocks l) = LOGSIZE" "log_len l + 2 = log_size l" "log_size l \<le> LOGSIZE"
    "log_dev l \<noteq> 0" "b \<notin> set (header l)" "\<And>a. length (D a) = BSIZE"
    "free_list mem ps" "NBUF \<le> length ps"
  shows "log_is_full l = Ok False \<and>
    (\<exists>m. log_insert b l = Ok m \<and> log_len m = log_size l - 1 \<and>
       fst (boot (log_dev l) (log_start l) (log_size l)
         (mem, crash (D((log_dev l, log_start l) := hdr m (D (log_dev l, log_start l)))))) =
           Panic ''corrupt log too large'')"
proof -
  obtain m where m: "log_insert b l = Ok m" "log_len m = log_len l + 1" "length (log_blocks m) = length (log_blocks l)"
    using log_insert_fresh [of b l] assms by auto
  define E where "E = D((log_dev l, log_start l) := hdr m (D (log_dev l, log_start l)))"
  have c: "unat (data_u64 (hdr m (D (log_dev l, log_start l))) 0) = log_size l - 1"
    using full_header_count [of m] m assms by simp
  have "8 + 8 * log_len m \<le> BSIZE" using m assms by simp
  moreover have "length (header_bytes m) = 8 + 8 * log_len m"
    using assms m by (simp add: header_bytes_def header_def length_concat comp_def sum_list_triv)
  ultimately have El: "length (E a) = BSIZE" for a using assms(6) by (simp add: E_def hdr_def)
  obtain t0 where 0: "new_cache NBUF (crash E) = t0" "binv t0 {}" "dirty_ix t0 = {}"
    "length (bufs t0) = NBUF" "bio_state.more t0 = bio_state.more (crash E)"
    "\<forall>a. fst a \<noteq> 0 \<longrightarrow> bview t0 a = E a"
    using new_cache_spec [of NBUF "crash E"] El by (auto simp: crash_def)
  obtain mem1 where b: "bio_init NBUF (mem, crash E) = (Ok (), (mem1, t0))"
    using bio_init_run [OF _ assms(7,8)] 0(1) by auto
  define t1 where "t1 = t0\<lparr>the_log := set_metadata (log_dev l) (log_start l) (log_size l) log_new\<rparr>"
  have "the_log t0 = log_new" using more_log [OF 0(5)] by (simp add: crash_def)
  then have t1: "modify (upd_log (set_metadata (log_dev l) (log_start l) (log_size l))) t0 = (Ok (), t1)"
    by (simp add: kop_simps upd_log_def t1_def)
  have "fst (log_read t1) = Panic ''corrupt log too large''"
    by (rule log_read_too_large)
      (use 0 assms c in \<open>simp_all add: t1_def set_metadata_def linv_def lview_def E_def\<close>)
  then obtain u where "log_read t1 = (Panic ''corrupt log too large'', u)" by (cases "log_read t1") auto
  then have "fst (boot (log_dev l) (log_start l) (log_size l) (mem, crash E)) = Panic ''corrupt log too large''"
    using b t1 by (simp add: boot_def fslog_init_def recover_def kop_simps)
  moreover have "log_is_full l = Ok False" "log_len m = log_size l - 1"
    using assms(2,3) m(2) by (auto simp: log_is_full_def)
  ultimately show ?thesis using m(1) by (simp add: E_def)
qed

theorem full_log_unrecoverable_witness:
  "\<exists>m. log_insert 101 (one_block_log\<lparr>log_size := 3\<rparr>) = Ok m \<and> log_len m = 2 \<and>
     fst (boot 1 2 3 (free_memory, crash (zero_disk((1, 2) := hdr m (zero_disk (1, 2)))))) = Panic ''corrupt log too large''"
  using full_log_unrecoverable [of "one_block_log\<lparr>log_size := 3\<rparr>" 101 zero_disk, OF _ _ _ _ _ _ free_memory]
  by (auto simp: one_block_log_def header_def zero_disk_def page_empty_def)

end
