(* ===== verification/FsProps.thy ===== *)
theory FsProps
  imports Fs Crash
begin

text \<open>
  Correctness of the file system's building blocks: path names against a reference that splits at
  slashes, the byte layouts of inodes and directory entries, the inode cache, and block allocation
  through the buffer cache and the log.
\<close>

section \<open>Path names\<close>

text \<open>The elements a path lookup visits, and the reference: the non-empty parts between slashes.\<close>

function path_elems :: "bytes \<Rightarrow> bytes list" where
  "path_elems path = (case skip_elem path of None \<Rightarrow> [] | Some (name, rest) \<Rightarrow> name # path_elems rest)"
  by pat_completeness auto
termination
  by (relation "measure length") (auto dest: skip_elem_shorter)

declare path_elems.simps [simp del]

fun split_slash :: "bytes \<Rightarrow> bytes list" where
  "split_slash [] = [[]]"
| "split_slash (b # bs) =
     (if b = slash then [] # split_slash bs
      else (case split_slash bs of c # cs \<Rightarrow> (b # c) # cs | [] \<Rightarrow> [[b]]))"

definition components :: "bytes \<Rightarrow> bytes list" where
  "components path = filter (\<lambda>c. c \<noteq> []) (split_slash path)"

lemma split_slash_ne: "split_slash bs \<noteq> []"
  by (induction bs) (auto split: list.splits)

lemma split_slash_no: "slash \<notin> set xs \<Longrightarrow> split_slash (xs @ ys) =
    (case split_slash ys of c # cs \<Rightarrow> (xs @ c) # cs | [] \<Rightarrow> [])"
  using split_slash_ne [of ys] by (induction xs) (auto split: list.splits)

lemma components_slashes: "components (dropWhile (\<lambda>b. b = slash) path) = components path"
  by (induction path) (auto simp: components_def)

lemma components_elem:
  assumes "p \<noteq> []" "hd p \<noteq> slash"
  shows "components p = takeWhile (\<lambda>b. b \<noteq> slash) p # components (dropWhile (\<lambda>b. b \<noteq> slash) p)"
proof -
  define a b where "a = takeWhile (\<lambda>b. b \<noteq> slash) p" and "b = dropWhile (\<lambda>b. b \<noteq> slash) p"
  have p: "p = a @ b" by (simp add: a_def b_def)
  have a: "slash \<notin> set a" by (auto simp: a_def dest: set_takeWhileD)
  have "a \<noteq> []" using assms by (cases p) (auto simp: a_def)
  moreover have "b = [] \<or> (\<exists>c. b = slash # c)"
    using hd_dropWhile [of "\<lambda>b. b \<noteq> slash" p] unfolding b_def [symmetric] by (cases b) simp_all
  ultimately have "components (a @ b) = a # components b"
    using split_slash_no [OF a, of b] by (auto simp: components_def)
  then show ?thesis unfolding p [symmetric] by (simp add: a_def b_def)
qed

text \<open>
  C36: Walking a path with \<open>skip_elem\<close> visits exactly the non-empty parts between the slashes, in
  order, each cut to the 24 bytes a directory entry can hold; leading, trailing and repeated
  slashes make no difference.
\<close>

theorem path_elems_components: "path_elems path = map (take DIRSIZ) (components path)"
proof (induction path rule: path_elems.induct)
  case (1 path)
  define p where "p = dropWhile (\<lambda>b. b = slash) path"
  show ?case
  proof (cases "p = []")
    case True
    then have "skip_elem path = None" by (simp add: skip_elem_while p_def)
    moreover have "components path = components []"
      using True components_slashes [of path] unfolding p_def by metis
    then have "components path = []" by (simp add: components_def)
    ultimately show ?thesis by (subst path_elems.simps) simp
  next
    case False
    define r where "r = dropWhile (\<lambda>b. b = slash) (dropWhile (\<lambda>b. b \<noteq> slash) p)"
    have s: "skip_elem path = Some (take DIRSIZ (takeWhile (\<lambda>b. b \<noteq> slash) p), r)"
      using False by (simp add: skip_elem_while p_def r_def Let_def)
    have "hd p \<noteq> slash" using False hd_dropWhile [of "\<lambda>b. b = slash" path] by (simp add: p_def)
    then have "components path = takeWhile (\<lambda>b. b \<noteq> slash) p # components r"
      using components_elem [OF False] components_slashes by (simp add: p_def r_def)
    moreover have "path_elems path = take DIRSIZ (takeWhile (\<lambda>b. b \<noteq> slash) p) # path_elems r"
      by (subst path_elems.simps) (simp add: s)
    ultimately show ?thesis using 1 [OF s refl] by simp
  qed
qed

text \<open>
  \<open>split_name\<close> cuts a path at its last slash: the parts give the path back, and the file part
  has no slash; a path without a slash has an empty directory part.
\<close>

theorem split_name_correct:
  "case split_name path of (dir, file) \<Rightarrow>
     slash \<notin> set file \<and> (if slash \<in> set path then path = dir @ slash # file else dir = [] \<and> file = path)"
proof (cases "rposition (\<lambda>b. b = slash) path")
  case None
  moreover from this have "slash \<notin> set path" by (auto simp: rposition_None)
  ultimately show ?thesis by (simp add: split_name_def)
next
  case (Some k)
  note k = rposition_Some [OF Some]
  have "slash \<notin> set (drop (Suc k) path)"
    using k by (auto simp: in_set_conv_nth)
  moreover have "path = take k path @ slash # drop (Suc k) path"
    using k id_take_nth_drop [of k path] by simp
  moreover have "slash \<in> set path" using k by (metis nth_mem)
  ultimately show ?thesis using Some by (simp add: split_name_def)
qed

section \<open>Byte layouts\<close>

lemma data_u32_at: "length a = off \<Longrightarrow> data_u32 (a @ to_le 4 (unat w) @ b) off = w"
  by (simp add: data_u32_def slice_def)

lemma data_u64_at: "length a = 8 * i \<Longrightarrow> data_u64 (a @ to_le 8 (unat w) @ b) i = w"
  by (simp add: data_u64_def slice_def)

text \<open>
  The inode layout loses nothing: reading back the 128 bytes written for an inode with its
  thirteen block addresses gives the inode.
\<close>

theorem dinode_roundtrip:
  assumes "length (di_addrs di) = NDIRECT + 1"
  shows "length (bytes_of_dinode di) = DINODE_SIZE \<and> dinode_of_bytes (bytes_of_dinode di) = di"
proof -
  define as where "as = concat (map (\<lambda>a. to_le 8 (unat a)) (di_addrs di))"
  define h where "h = to_le 4 (unat (di_typ di)) @ to_le 4 (unat (di_major di)) @ to_le 4 (unat (di_minor di)) @
     to_le 4 (unat (di_nlink di)) @ to_le 8 (unat (di_size di))"
  have b: "bytes_of_dinode di = h @ as" and h: "length h = 24"
    by (simp_all add: bytes_of_dinode_def h_def as_def)
  have la: "length as = 104" using assms by (simp add: as_def length_concat comp_def sum_list_triv)
  have "data_u64 (h @ as) (3 + i) = di_addrs di ! i" if "i < NDIRECT + 1" for i
  proof -
    have "slice (h @ as) (8 * (3 + i)) (8 * (3 + i) + 8) = take 8 (drop (8 * i) as)"
      using h by (simp add: slice_def)
    also have "\<dots> = to_le 8 (unat (di_addrs di ! i))"
      unfolding as_def by (rule slice_concat) (use that assms in simp_all)
    finally show ?thesis by (simp add: data_u64_def)
  qed
  then have "map (\<lambda>i. data_u64 (h @ as) (3 + i)) [0..<NDIRECT + 1] = di_addrs di"
    using assms by (intro nth_equalityI) (simp_all del: upt_Suc)
  moreover have "data_u32 (h @ as) 0 = di_typ di" "data_u32 (h @ as) 4 = di_major di"
    "data_u32 (h @ as) 8 = di_minor di" "data_u32 (h @ as) 12 = di_nlink di" "data_u64 (h @ as) 2 = di_size di"
    by (simp_all add: h_def data_u32_def data_u64_def slice_def)
  ultimately show ?thesis using b la h by (simp add: dinode_of_bytes_def del: upt_Suc)
qed

theorem dinode_roundtrip_witness:
  "dinode_of_bytes (bytes_of_dinode (dinode_new\<lparr>di_typ := 2, di_nlink := 1, di_size := 4097\<rparr>)) =
     dinode_new\<lparr>di_typ := 2, di_nlink := 1, di_size := 4097\<rparr>"
  using dinode_roundtrip [of "dinode_new\<lparr>di_typ := 2, di_nlink := 1, di_size := 4097\<rparr>"]
  by (simp add: dinode_new_def)

text \<open>
  A directory entry gives back the inode number it was made for, and its name cut to 24 bytes;
  so names of up to 24 bytes without a null byte are found again, and two longer names with the same
  first 24 bytes make the same entry, which equals neither name.
\<close>

theorem dirent_roundtrip:
  assumes "0 \<notin> set name"
  shows "length (dirent_bytes inum name) = DIRENT_SIZE \<and>
    de_inum (dirent_of_bytes (dirent_bytes inum name)) = inum \<and>
    dirent_name (dirent_of_bytes (dirent_bytes inum name)) = take DIRSIZ name"
proof -
  define n where "n = take DIRSIZ name"
  have n: "length n \<le> DIRSIZ" "0 \<notin> set n" using assms by (auto simp: n_def dest: in_set_takeD)
  have e: "dirent_bytes inum name = to_le 8 (unat inum) @ n @ replicate (DIRSIZ - length n) 0"
    by (simp add: dirent_bytes_def Let_def overwrite_def n_def min_def)
  have nm: "de_name (dirent_of_bytes (dirent_bytes inum name)) = n @ replicate (DIRSIZ - length n) 0"
    unfolding e using n(1) by (simp add: dirent_of_bytes_def slice_def)
  have "dirent_name (dirent_of_bytes (dirent_bytes inum name)) = n"
  proof (cases "length n = DIRSIZ")
    case True
    then have "position (\<lambda>b. b = 0) n = None" using n(2) by (auto simp: position_None)
    then show ?thesis using True by (simp add: dirent_name_def nm)
  next
    case False
    then have "position (\<lambda>b. b = 0) (n @ replicate (DIRSIZ - length n) 0) = Some (length n)"
      using n by (auto simp: position_Some nth_append in_set_conv_nth)
    then show ?thesis by (simp add: dirent_name_def nm)
  qed
  moreover have "length (dirent_bytes inum name) = DIRENT_SIZE" unfolding e using n(1) by simp
  moreover have "de_inum (dirent_of_bytes (dirent_bytes inum name)) = inum"
    unfolding e by (simp add: dirent_of_bytes_def data_u64_def slice_def)
  ultimately show ?thesis by (simp add: n_def)
qed

theorem dirent_roundtrip_witness:
  "dirent_name (dirent_of_bytes (dirent_bytes 7 [0x61, 0x62])) = [0x61, 0x62] \<and>
   de_inum (dirent_of_bytes (dirent_bytes 7 [0x61, 0x62])) = 7"
  using dirent_roundtrip [of "[0x61, 0x62]" 7] by simp

section \<open>Logged updates\<close>

text \<open>
  \<open>fsinv dev n s\<close>: a transaction is open, the caches are consistent, and \<open>n\<close> more blocks fit into the
  log and the cache. \<open>updated dev b d s t\<close>: block \<open>b\<close> has got the contents \<open>d\<close> and is in the log;
  nothing else is different.
\<close>

definition fsinv :: "u32 \<Rightarrow> nat \<Rightarrow> 'a fslog_state_scheme \<Rightarrow> bool" where
  "fsinv dev n s \<longleftrightarrow> dev \<noteq> 0 \<and> binv s {} \<and> 1 \<le> outstanding (lstate s) \<and> length (log_blocks (the_log s)) = LOGSIZE \<and>
     log_len (the_log s) + n + 1 \<le> log_size (the_log s) \<and> log_len (the_log s) + n \<le> LOGSIZE \<and>
     card (dirty_ix s) + n + 1 \<le> length (bufs s)"

definition updated :: "u32 \<Rightarrow> u64 \<Rightarrow> bytes \<Rightarrow> 'a fslog_state_scheme \<Rightarrow> 'a fslog_state_scheme \<Rightarrow> bool" where
  "updated dev b d s t \<longleftrightarrow> (\<forall>a. fst a \<noteq> 0 \<longrightarrow> bview t a = (if a = (dev, b) then d else bview s a)) \<and>
     disk t = disk s \<and> wlog t = wlog s \<and> set (header (the_log t)) = insert b (set (header (the_log s))) \<and>
     lstate t = lstate s \<and> curpid t = curpid s \<and> fslog_state.more t = fslog_state.more s"

lemma fsinv_mono: "fsinv dev n s \<Longrightarrow> m \<le> n \<Longrightarrow> fsinv dev m s"
  by (simp add: fsinv_def)

lemma log_insert_spec:
  assumes "log_len l < length (log_blocks l)"
  shows "\<exists>m. log_insert b l = Ok m \<and> set (header m) = insert b (set (header l)) \<and> log_len m \<le> log_len l + 1 \<and>
    length (log_blocks m) = length (log_blocks l) \<and> log_size m = log_size l"
proof (cases "b \<in> set (header l)")
  case True
  then show ?thesis by (auto simp: log_insert_def)
next
  case False
  then show ?thesis using log_insert_fresh [OF False assms] by auto
qed

lemma fslog_write_spec:
  assumes B: "binv s H" and k: "k \<in> H" and l: "log_len (the_log s) + 1 < log_size (the_log s)"
    "log_len (the_log s) < LOGSIZE" "length (log_blocks (the_log s)) = LOGSIZE" "1 \<le> outstanding (lstate s)"
  shows "\<exists>t. fslog_write k s = (Ok (), t) \<and> binv t H \<and> (\<forall>a. fst a \<noteq> 0 \<longrightarrow> bview t a = bview s a) \<and>
    disk t = disk s \<and> wlog t = wlog s \<and> curpid t = curpid s \<and> lstate t = lstate s \<and>
    fslog_state.more t = fslog_state.more s \<and> settled t k \<and> dirty_ix t = insert k (dirty_ix s) \<and>
    length (bufs t) = length (bufs s) \<and> set (header (the_log t)) = insert (b_blockno (bufs s ! k)) (set (header (the_log s))) \<and>
    log_len (the_log t) \<le> log_len (the_log s) + 1 \<and> length (log_blocks (the_log t)) = LOGSIZE \<and>
    log_size (the_log t) = log_size (the_log s)"
proof -
  note h = binv_heldD [OF B k]
  obtain m where m: "log_insert (b_blockno (bufs s ! k)) (the_log s) = Ok m"
    "set (header m) = insert (b_blockno (bufs s ! k)) (set (header (the_log s)))"
    "log_len m \<le> log_len (the_log s) + 1" "length (log_blocks m) = LOGSIZE" "log_size m = log_size (the_log s)"
    using log_insert_spec [of "the_log s" "b_blockno (bufs s ! k)"] l by auto
  define b where "b = (bufs s ! k)\<lparr>b_flags := (b_flags (bufs s ! k))\<lparr>DIRTY := True\<rparr>\<rparr>"
  define t where "t = s\<lparr>bufs := (bufs s)[k := b], the_log := m\<rparr>"
  have r: "fslog_write k s = (Ok (), t)"
    using h(2) m(1) l by (simp add: fslog_write_def buf_is_locked_def log_is_full_def upd_buf_def t_def b_def)
  have ok: "buf_ok (curpid s) (disk t) (k \<in> H) b"
    using binvD(5) [OF B h(1)] k h(4) by (auto simp: buf_ok_def b_def)
  have T: "binv t H"
    by (rule binv_replace [OF B h(1), where b = b])
      (use k h ok binvD [OF B] in \<open>auto simp: t_def b_def buf_addr_def\<close>)
  have "bview t a = bview s a" if "fst a \<noteq> 0" for a
    using bview_replace [OF B T h(1), where b = b and a = a] that h(4) bview_cached [OF B h(1,4), of a]
    by (auto simp: t_def b_def buf_addr_def)
  moreover have "dirty_ix t = insert k (dirty_ix s)"
    using h(1) by (auto simp: dirty_ix_def t_def b_def nth_list_update split: if_splits)
  ultimately show ?thesis
    using r T m h(1) by (auto simp: t_def b_def settled_def)
qed

lemma bread_more:
  assumes "same_outside s t"
  shows "the_log t = the_log s" "lstate t = lstate s" "fslog_state.more t = fslog_state.more s"
    "disk t = disk s" "wlog t = wlog s" "curpid t = curpid s" "length (bufs t) = length (bufs s)"
proof -
  have "bio_state.more t = bio_state.more s" using assms by (simp add: same_outside_def)
  then show "the_log t = the_log s" "lstate t = lstate s" "fslog_state.more t = fslog_state.more s"
    by (cases s; cases t; simp)+
qed (use assms in \<open>simp_all add: same_outside_def\<close>)

text \<open>The common body of every logged update, from the read to the release.\<close>

lemma logged_update:
  assumes I: "fsinv dev (Suc n) s" and g: "length (g (bview s (dev, b))) = BSIZE"
  shows "\<exists>k t1 t2 t3 t4. bread dev b s = (Ok k, t1) \<and> data_ref k t1 = bview s (dev, b) \<and>
    set_data k (g (bview s (dev, b))) t1 = (Ok (), t2) \<and> fslog_write k t2 = (Ok (), t3) \<and>
    relse k t3 = (Ok (), t4) \<and> fsinv dev n t4 \<and> updated dev b (g (bview s (dev, b))) s t4"
proof -
  note J = I [unfolded fsinv_def]
  define d where "d = g (bview s (dev, b))"
  obtain k t1 where 1: "bread dev b s = (Ok k, t1)" "binv t1 {k}" "buf_addr (bufs t1 ! k) = (dev, b)"
    "b_data (bufs t1 ! k) = bview s (dev, b)" "same_outside s t1" "dirty_ix t1 = dirty_ix s"
    "\<forall>a. fst a \<noteq> 0 \<longrightarrow> bview t1 a = bview s a"
    using bread_spec [of s "{}" dev b] room_empty [of s "(dev, b)"] J by auto
  note M1 = bread_more [OF 1(5)]
  obtain t2 where 2: "set_data k d t1 = (Ok (), t2)" "binv t2 {k}"
    "t2 = t1\<lparr>bufs := (bufs t1)[k := (bufs t1 ! k)\<lparr>b_data := d\<rparr>]\<rparr>" "dirty_ix t2 = dirty_ix t1"
    "\<forall>a. fst a \<noteq> 0 \<longrightarrow> bview t2 a = (if a = (dev, b) then d else bview t1 a)"
    using set_data_spec [OF 1(2), of k d] g 1(3) by (auto simp: d_def)
  have k: "k < length (bufs t1)" using binv_heldD(1) [OF 1(2)] by simp
  have bn: "b_blockno (bufs t2 ! k) = b" using 2(3) k 1(3) by (simp add: buf_addr_def)
  have S2: "the_log t2 = the_log s" "lstate t2 = lstate s" "fslog_state.more t2 = fslog_state.more s"
    "disk t2 = disk s" "wlog t2 = wlog s" "curpid t2 = curpid s" "length (bufs t2) = length (bufs s)"
    using 2(3) M1 by simp_all
  have "log_len (the_log t2) + 1 < log_size (the_log t2)" "log_len (the_log t2) < LOGSIZE"
    "length (log_blocks (the_log t2)) = LOGSIZE" "1 \<le> outstanding (lstate t2)"
    using J by (simp_all add: S2(1,2))
  from fslog_write_spec [OF 2(2) _ this, of k]
  obtain t3 where 3: "fslog_write k t2 = (Ok (), t3)" "binv t3 {k}" "\<forall>a. fst a \<noteq> 0 \<longrightarrow> bview t3 a = bview t2 a"
    "disk t3 = disk t2" "wlog t3 = wlog t2" "curpid t3 = curpid t2" "lstate t3 = lstate t2"
    "fslog_state.more t3 = fslog_state.more t2" "settled t3 k" "dirty_ix t3 = insert k (dirty_ix t2)"
    "length (bufs t3) = length (bufs t2)" "set (header (the_log t3)) = insert b (set (header (the_log t2)))"
    "log_len (the_log t3) \<le> log_len (the_log t2) + 1" "length (log_blocks (the_log t3)) = LOGSIZE"
    "log_size (the_log t3) = log_size (the_log t2)"
    by (auto simp: bn)
  obtain t4 where 4: "relse k t3 = (Ok (), t4)" "binv t4 {}" "same_outside t3 t4" "dirty_ix t4 = dirty_ix t3"
    "bview t4 = bview t3"
    using relse_spec [OF 3(2) _ 3(9)] by auto
  note M4 = bread_more [OF 4(3)]
  have "card (insert k (dirty_ix s)) \<le> Suc (card (dirty_ix s))" by (simp add: card_insert_le_m1 card_insert_if dirty_ix_def)
  then have "fsinv dev n t4" using J 4(2,4) 3 M4 S2 2(4) 1(6) by (simp add: fsinv_def)
  moreover have "updated dev b d s t4"
    using 4(5) 3 M4 S2 2(5) 1(7) by (auto simp: updated_def)
  ultimately show ?thesis using 1(1,4) 2(1) 3(1) 4(1) by (auto simp: data_ref_def d_def)
qed

section \<open>The free map\<close>

lemma bit_clear_iff: "bit_clear d bi \<longleftrightarrow> \<not> bit (d ! (bi div 8)) (bi mod 8)"
  by (simp add: bit_clear_def push_bit_eq_mult and_exp_eq_0_iff_not_bit)

lemma bit_clear_mark:
  assumes "bi < 8 * length d"
  shows "bit_clear (mark_bit d bi) j \<longleftrightarrow> bit_clear d j \<and> j \<noteq> bi"
proof (cases "j div 8 = bi div 8")
  case True
  have "bi div 8 < length d" using assms by simp
  moreover have "j = bi \<longleftrightarrow> j mod 8 = bi mod 8" using True by (metis div_mult_mod_eq)
  moreover have "bit (push_bit (bi mod 8) (1 :: u8)) (j mod 8) \<longleftrightarrow> j mod 8 = bi mod 8"
    by (auto simp: bit_exp_iff)
  ultimately show ?thesis using True by (simp add: bit_clear_iff mark_bit_def bit_or_iff)
next
  case False
  then have "j \<noteq> bi" by auto
  then show ?thesis using False by (simp add: bit_clear_iff mark_bit_def)
qed

lemma bit_clear_unmark:
  assumes "bi < 8 * length d"
  shows "bit_clear (unmark_bit d bi) j \<longleftrightarrow> bit_clear d j \<or> j = bi"
proof (cases "j div 8 = bi div 8")
  case True
  have "bi div 8 < length d" using assms by simp
  moreover have "j = bi \<longleftrightarrow> j mod 8 = bi mod 8" using True by (metis div_mult_mod_eq)
  moreover have "bit (push_bit (bi mod 8) (1 :: u8)) (j mod 8) \<longleftrightarrow> j mod 8 = bi mod 8"
    by (auto simp: bit_exp_iff)
  ultimately show ?thesis using True by (simp add: bit_clear_iff unmark_bit_def bit_and_iff bit_not_iff)
next
  case False
  then have "j \<noteq> bi" by auto
  then show ?thesis using False by (simp add: bit_clear_iff unmark_bit_def)
qed

lemma scan_bits_Some:
  "scan_bits d b sz bi = Some k \<Longrightarrow> bi \<le> k \<and> k < BPB \<and> b + k < sz \<and> bit_clear d k \<and> (\<forall>j. bi \<le> j \<longrightarrow> j < k \<longrightarrow> \<not> bit_clear d j)"
proof (induction d b sz bi rule: scan_bits.induct)
  case (1 d b sz bi)
  then show ?case
    by (subst (asm) (2) scan_bits.simps)
      (auto split: if_splits, metis Suc_leI le_neq_implies_less)
qed

lemma scan_bits_None:
  "scan_bits d b sz bi = None \<Longrightarrow> bi \<le> j \<Longrightarrow> j < BPB \<Longrightarrow> b + j < sz \<Longrightarrow> \<not> bit_clear d j"
proof (induction d b sz bi rule: scan_bits.induct)
  case (1 d b sz bi)
  then show ?case
    by (subst (asm) (2) scan_bits.simps)
      (auto split: if_splits, metis Suc_leI le_neq_implies_less)
qed

text \<open>
  Whether the bitmap says that a block is in use: its bit in the bitmap block that \<open>bblock\<close> returns,
  where it returns one.
\<close>

definition bmap_addr :: "superblock \<Rightarrow> u64 \<Rightarrow> u64" where
  "bmap_addr sb b = b div 32768 + sb_bmap_start sb"

lemma bblock_Ok: "bblock sb b = Ok B \<Longrightarrow> B = bmap_addr sb b"
  by (simp add: bblock_def checked_add_def bmap_addr_def split: if_splits)

definition block_used :: "'a bio_state_scheme \<Rightarrow> u32 \<Rightarrow> superblock \<Rightarrow> u64 \<Rightarrow> bool" where
  "block_used s dev sb b \<longleftrightarrow> \<not> bit_clear (bview s (dev, bmap_addr sb b)) (unat b mod BPB)"

lemma bmap_addr_eq_iff: "bmap_addr sb a = bmap_addr sb b \<longleftrightarrow> unat a div BPB = unat b div BPB"
proof -
  have "bmap_addr sb a = bmap_addr sb b \<longleftrightarrow> a div 32768 = b div 32768" by (simp add: bmap_addr_def)
  also have "\<dots> \<longleftrightarrow> unat (a div 32768) = unat (b div 32768)" by (rule word_unat_eq_iff)
  finally show ?thesis by (simp add: unat_div_distrib)
qed

lemma bzero_spec:
  assumes "fsinv dev (Suc n) s"
  shows "\<exists>t. bzero dev b s = (Ok (), t) \<and> fsinv dev n t \<and> updated dev b (replicate BSIZE 0) s t"
proof -
  have l: "length (bview s (dev, b)) = BSIZE" using bview_length [of s "{}" "(dev, b)"] assms by (simp add: fsinv_def)
  then show ?thesis
    using logged_update [OF assms, where g = "\<lambda>d. replicate (length d) 0" and b = b]
    by (auto simp: bzero_def kop_simps)
qed

definition unchanged :: "'a fslog_state_scheme \<Rightarrow> 'a fslog_state_scheme \<Rightarrow> bool" where
  "unchanged s t \<longleftrightarrow> (\<forall>a. fst a \<noteq> 0 \<longrightarrow> bview t a = bview s a) \<and> disk t = disk s \<and> wlog t = wlog s \<and>
     the_log t = the_log s \<and> lstate t = lstate s \<and> curpid t = curpid s \<and> fslog_state.more t = fslog_state.more s"

lemma read_release:
  assumes I: "fsinv dev n s" and n: "1 \<le> n"
  shows "\<exists>k t1 t2. bread dev b s = (Ok k, t1) \<and> data_ref k t1 = bview s (dev, b) \<and> relse k t1 = (Ok (), t2) \<and>
    fsinv dev n t2 \<and> unchanged s t2"
proof -
  note J = I [unfolded fsinv_def]
  obtain k t1 where 1: "bread dev b s = (Ok k, t1)" "binv t1 {k}" "data_ref k t1 = bview s (dev, b)"
    "settled t1 k" "same_outside s t1" "dirty_ix t1 = dirty_ix s" "\<forall>a. fst a \<noteq> 0 \<longrightarrow> bview t1 a = bview s a"
    using read_block_spec [of s dev b] J n by auto
  obtain t2 where 2: "relse k t1 = (Ok (), t2)" "binv t2 {}" "same_outside t1 t2" "dirty_ix t2 = dirty_ix t1" "bview t2 = bview t1"
    using relse_spec [OF 1(2) _ 1(4)] by auto
  note M = bread_more [OF 1(5)] bread_more [OF 2(3)]
  have "fsinv dev n t2" "unchanged s t2"
    using J 1(6,7) 2(2,4,5) M by (simp_all add: fsinv_def unchanged_def)
  then show ?thesis using 1(1,3) 2(1) by blast
qed

lemma unchanged_used: "unchanged s t \<Longrightarrow> dev \<noteq> 0 \<Longrightarrow> block_used t dev sb b = block_used s dev sb b"
  by (simp add: unchanged_def block_used_def)

text \<open>Two logged updates in a row, of a bitmap block and of the block it allocates.\<close>

definition allocated :: "u32 \<Rightarrow> superblock \<Rightarrow> nat \<Rightarrow> nat \<Rightarrow> 'a fslog_state_scheme \<Rightarrow> 'a fslog_state_scheme \<Rightarrow> bool" where
  "allocated dev sb b bi s t \<longleftrightarrow> fsinv dev 0 t \<and>
     (\<forall>a. fst a \<noteq> 0 \<longrightarrow> bview t a = (if a = (dev, of_nat (b + bi)) then replicate BSIZE 0
        else if a = (dev, bmap_addr sb (of_nat b)) then mark_bit (bview s a) bi else bview s a)) \<and>
     disk t = disk s \<and> wlog t = wlog s \<and> lstate t = lstate s \<and> curpid t = curpid s \<and>
     fslog_state.more t = fslog_state.more s"

lemma balloc_loop_spec:
  "fsinv dev 2 s \<Longrightarrow> \<forall>b \<in> set bs. bblock sb (of_nat b) = Ok (bmap_addr sb (of_nat b)) \<Longrightarrow>
   \<exists>b \<in> set bs. scan_bits (bview s (dev, bmap_addr sb (of_nat b))) b (unat (sb_size sb)) 0 \<noteq> None \<Longrightarrow>
   \<exists>b bi t. b \<in> set bs \<and> scan_bits (bview s (dev, bmap_addr sb (of_nat b))) b (unat (sb_size sb)) 0 = Some bi \<and>
     balloc_loop dev sb bs s = (Ok (of_nat (b + bi)), t) \<and> allocated dev sb b bi s t"
proof (induction bs arbitrary: s)
  case Nil
  then show ?case by simp
next
  case (Cons b bs)
  define B where "B = bmap_addr sb (of_nat b)"
  have d0: "dev \<noteq> 0" using Cons.prems(1) by (simp add: fsinv_def)
  show ?case
  proof (cases "scan_bits (bview s (dev, B)) b (unat (sb_size sb)) 0")
    case None
    obtain k t1 t2 where r: "bread dev B s = (Ok k, t1)" "data_ref k t1 = bview s (dev, B)" "relse k t1 = (Ok (), t2)"
      "fsinv dev 2 t2" "unchanged s t2"
      using read_release [OF Cons.prems(1), of B] by auto
    have v: "bview t2 (dev, x) = bview s (dev, x)" for x using r(5) d0 by (simp add: unchanged_def)
    have "\<exists>b \<in> set bs. scan_bits (bview t2 (dev, bmap_addr sb (of_nat b))) b (unat (sb_size sb)) 0 \<noteq> None"
      using Cons.prems(3) None by (simp add: v B_def)
    from Cons.IH [OF r(4) _ this] Cons.prems(2) obtain c bi t where c: "c \<in> set bs"
      "scan_bits (bview s (dev, bmap_addr sb (of_nat c))) c (unat (sb_size sb)) 0 = Some bi"
      "balloc_loop dev sb bs t2 = (Ok (of_nat (c + bi)), t)" "allocated dev sb c bi t2 t"
      by (auto simp: v)
    have "allocated dev sb c bi s t" using c(4) r(5) d0 by (auto simp: allocated_def unchanged_def)
    moreover have "balloc_loop dev sb (b # bs) s = (Ok (of_nat (c + bi)), t)"
      using r(1-3) None c(3) Cons.prems(2) by (simp add: kop_simps B_def)
    ultimately show ?thesis using c(1,2) by auto
  next
    case (Some bi)
    have l: "length (mark_bit (bview s (dev, B)) bi) = BSIZE"
      using bview_length [of s "{}" "(dev, B)"] Cons.prems(1) by (simp add: fsinv_def mark_bit_def)
    have f: "fsinv dev (Suc 1) s" using Cons.prems(1) by (simp add: numeral_2_eq_2)
    from logged_update [OF f, of "\<lambda>d. mark_bit d bi", OF l] obtain k t1 t2 t3 t4 where
      r: "bread dev B s = (Ok k, t1)" "data_ref k t1 = bview s (dev, B)"
        "set_data k (mark_bit (bview s (dev, B)) bi) t1 = (Ok (), t2)" "fslog_write k t2 = (Ok (), t3)"
        "relse k t3 = (Ok (), t4)" "fsinv dev (Suc 0) t4" "updated dev B (mark_bit (bview s (dev, B)) bi) s t4"
      by auto
    obtain t5 where z: "bzero dev (of_nat (b + bi)) t4 = (Ok (), t5)" "fsinv dev 0 t5"
      "updated dev (of_nat (b + bi)) (replicate BSIZE 0) t4 t5"
      using bzero_spec [OF r(6)] by blast
    have "allocated dev sb b bi s t5"
      using z r(7) d0 by (auto simp: allocated_def updated_def B_def)
    moreover have "balloc_loop dev sb (b # bs) s = (Ok (of_nat (b + bi)), t5)"
      using r(1-5) z(1) Some Cons.prems(2) by (simp add: kop_simps B_def)
    ultimately show ?thesis using Some by (auto simp: B_def)
  qed
qed

lemma set_step_by: "0 < n \<Longrightarrow> set (step_by 0 n sz) = {k. k < sz \<and> n dvd k}"
proof -
  assume n: "0 < n"
  have m: "i < (sz + n - 1) div n \<longleftrightarrow> i * n < sz" for i
  proof -
    have "i < (sz + n - 1) div n \<longleftrightarrow> Suc i * n \<le> sz + n - 1"
      unfolding Suc_le_eq [symmetric] by (rule less_eq_div_iff_mult_less_eq [OF n])
    also have "\<dots> \<longleftrightarrow> i * n < sz" using n by auto
    finally show ?thesis .
  qed
  have e: "set (step_by 0 n sz) = (\<lambda>i. i * n) ` {i. i * n < sz}"
    by (simp add: step_by_def m [symmetric] atLeast0LessThan lessThan_def)
  show ?thesis
  proof (intro set_eqI iffI)
    fix x assume "x \<in> {k. k < sz \<and> n dvd k}"
    then obtain i where "x = n * i" "x < sz" by (auto elim: dvdE)
    then show "x \<in> set (step_by 0 n sz)" unfolding e by (intro image_eqI [of _ _ i]) (simp_all add: mult.commute)
  qed (auto simp: e)
qed

lemma balloc_finds:
  assumes "fsinv dev 2 s" and "\<exists>a. unat a < unat (sb_size sb) \<and> \<not> block_used s dev sb a"
    and addr: "\<And>a. unat a < unat (sb_size sb) \<Longrightarrow> bblock sb a = Ok (bmap_addr sb a)"
  obtains b bi t where "b \<in> set (step_by 0 BPB (unat (sb_size sb)))"
    "scan_bits (bview s (dev, bmap_addr sb (of_nat b))) b (unat (sb_size sb)) 0 = Some bi"
    "balloc_loop dev sb (step_by 0 BPB (unat (sb_size sb))) s = (Ok (of_nat (b + bi)), t)" "allocated dev sb b bi s t"
proof -
  obtain a0 where a0: "unat a0 < unat (sb_size sb)" "\<not> block_used s dev sb a0" using assms(2) by blast
  define b0 where "b0 = unat a0 div BPB * BPB"
  have b0: "b0 \<in> set (step_by 0 BPB (unat (sb_size sb)))" "unat (of_nat b0 :: u64) = b0"
  proof -
    have le: "b0 \<le> unat a0" by (simp add: b0_def)
    then show "b0 \<in> set (step_by 0 BPB (unat (sb_size sb)))" using a0(1) by (simp add: set_step_by) (simp add: b0_def)
    show "unat (of_nat b0 :: u64) = b0" using le unat_less_pow64 [of a0] by (intro unat_of_nat64) linarith
  qed
  have eb: "bmap_addr sb (of_nat b0) = bmap_addr sb a0" by (simp add: bmap_addr_eq_iff b0(2)) (simp add: b0_def)
  have "scan_bits (bview s (dev, bmap_addr sb (of_nat b0))) b0 (unat (sb_size sb)) 0 \<noteq> None"
  proof
    assume "scan_bits (bview s (dev, bmap_addr sb (of_nat b0))) b0 (unat (sb_size sb)) 0 = None"
    moreover have "b0 + unat a0 mod BPB = unat a0" by (simp add: b0_def)
    ultimately have "\<not> bit_clear (bview s (dev, bmap_addr sb a0)) (unat a0 mod BPB)"
      using scan_bits_None [of "bview s (dev, bmap_addr sb a0)" b0 "unat (sb_size sb)" 0 "unat a0 mod BPB"] a0(1)
      by (simp only: eb) simp
    then show False using a0(2) by (simp add: block_used_def)
  qed
  moreover have "\<forall>b \<in> set (step_by 0 BPB (unat (sb_size sb))). bblock sb (of_nat b) = Ok (bmap_addr sb (of_nat b))"
  proof
    fix b assume "b \<in> set (step_by 0 BPB (unat (sb_size sb)))"
    then have "b < unat (sb_size sb)" by (simp add: set_step_by)
    then show "bblock sb (of_nat b) = Ok (bmap_addr sb (of_nat b))"
      using addr [of "of_nat b"] unat_less_pow64 [of "sb_size sb"] unat_of_nat64 [of b] by force
  qed
  ultimately show thesis using balloc_loop_spec [OF assms(1)] b0(1) that by blast
qed

text \<open>
  C18: Block allocation. Inside a transaction with room for two more blocks, if the bitmap has a free
  block, and the bitmap's own blocks exist (\<open>bblock\<close> does not overflow) and are marked as used, \<open>balloc\<close> returns a block that was free, marks that block
  and no other, fills it with zeros, and leaves every other block of the file system as it was.
\<close>

theorem balloc_allocates:
  assumes "fsinv dev 2 s" and "\<exists>a. unat a < unat (sb_size sb) \<and> \<not> block_used s dev sb a"
    and own: "\<And>a. unat a < unat (sb_size sb) \<Longrightarrow> \<exists>B. bblock sb a = Ok B \<and> block_used s dev sb B"
  shows "\<exists>a t. balloc dev sb s = (Ok a, t) \<and> unat a < unat (sb_size sb) \<and> \<not> block_used s dev sb a \<and>
    (\<forall>c. unat c < unat (sb_size sb) \<longrightarrow> (block_used t dev sb c \<longleftrightarrow> c = a \<or> block_used s dev sb c)) \<and>
    bview t (dev, a) = replicate BSIZE 0 \<and>
    (\<forall>c. c \<noteq> a \<longrightarrow> bblock sb a \<noteq> Ok c \<longrightarrow> bview t (dev, c) = bview s (dev, c)) \<and> fsinv dev 0 t"
proof -
  have d0: "dev \<noteq> 0" using assms(1) by (simp add: fsinv_def)
  have addr: "bblock sb a = Ok (bmap_addr sb a)" "block_used s dev sb (bmap_addr sb a)" if "unat a < unat (sb_size sb)" for a
    using own [OF that] bblock_Ok by auto
  obtain b bi t where r: "b \<in> set (step_by 0 BPB (unat (sb_size sb)))"
    "scan_bits (bview s (dev, bmap_addr sb (of_nat b))) b (unat (sb_size sb)) 0 = Some bi"
    "balloc_loop dev sb (step_by 0 BPB (unat (sb_size sb))) s = (Ok (of_nat (b + bi)), t)" "allocated dev sb b bi s t"
    by (rule balloc_finds [OF assms(1,2) addr(1)])
  define a :: u64 where "a = of_nat (b + bi)"
  have k: "bi < BPB" "b + bi < unat (sb_size sb)" "bit_clear (bview s (dev, bmap_addr sb (of_nat b))) bi"
    using scan_bits_Some [OF r(2)] by auto
  have ua: "unat a = b + bi" using k(2) unat_less_pow64 [of "sb_size sb"] unfolding a_def by (intro unat_of_nat64) linarith
  have ub: "unat (of_nat b :: u64) = b" using k(2) unat_less_pow64 [of "sb_size sb"] by (intro unat_of_nat64) linarith
  have bd: "b mod BPB = 0" using r(1) by (simp add: set_step_by)
  then have dm: "(b + bi) div BPB = b div BPB" "(b + bi) mod BPB = bi" using k(1) by (auto simp: mod_eq_0_iff_dvd elim!: dvdE)
  have ba: "bmap_addr sb (of_nat b) = bmap_addr sb a" by (simp add: bmap_addr_eq_iff ua ub dm)
  have free: "\<not> block_used s dev sb a" using k(3) by (simp add: block_used_def ua dm(2) flip: ba)
  have V: "bview t (dev, c) = (if c = a then replicate BSIZE 0 else if c = bmap_addr sb a
      then mark_bit (bview s (dev, bmap_addr sb a)) bi else bview s (dev, c))" for c
    using r(4) d0 ba by (auto simp: allocated_def a_def)
  have len: "length (bview s (dev, bmap_addr sb a)) = BSIZE"
    using bview_length [of s "{}" "(dev, bmap_addr sb a)"] assms(1) by (simp add: fsinv_def)
  have "block_used t dev sb c \<longleftrightarrow> c = a \<or> block_used s dev sb c" if c: "unat c < unat (sb_size sb)" for c
  proof -
    have "bmap_addr sb c \<noteq> a" using addr(2) [OF c] free by auto
    then have v: "bview t (dev, bmap_addr sb c) = (if bmap_addr sb c = bmap_addr sb a
        then mark_bit (bview s (dev, bmap_addr sb a)) bi else bview s (dev, bmap_addr sb c))" by (simp add: V)
    have "c = a \<longleftrightarrow> bmap_addr sb c = bmap_addr sb a \<and> unat c mod BPB = bi"
      unfolding bmap_addr_eq_iff word_unat_eq_iff [of c a] using ua dm(2) by (metis div_mult_mod_eq)
    then show ?thesis
      using bit_clear_mark [of bi "bview s (dev, bmap_addr sb a)" "unat c mod BPB"] k(1) len
      by (auto simp: block_used_def v)
  qed
  then show ?thesis
    using r(3,4) k(2) free V ua addr(1) [of a] by (intro exI [of _ a] exI [of _ t]) (auto simp: balloc_def a_def allocated_def)
qed

text \<open>A small file system: 64 blocks, bitmap in block 5, the first sixteen blocks in use.\<close>

definition small_sb :: superblock where
  "small_sb = superblock_new\<lparr>sb_size := 64, sb_bmap_start := 5\<rparr>"

definition small_disk :: "baddr \<Rightarrow> bytes" where
  "small_disk a = (if a = (1, 5) then 0xFF # 0xFF # replicate 4094 0 else page_empty)"

definition small_fs :: fslog_state where
  "small_fs = (new_cache 8 (crash small_disk))
     \<lparr>the_log := set_metadata 1 6 20 log_new, lstate := \<lparr>outstanding = 1, committing = False\<rparr>\<rparr>"

lemma lstate_upd_simps [simp]:
  "binv (s\<lparr>lstate := l\<rparr>) H = binv s H" "bview (s\<lparr>lstate := l\<rparr>) = bview s"
  "dirty_ix (s\<lparr>lstate := l\<rparr>) = dirty_ix s"
  by (simp_all add: binv_def lru_def bview_def dirty_ix_def fun_eq_iff split: option.split)

lemma crash_fields: "curpid (crash D) = 1" "disk (crash D) = D"
  by (simp_all add: crash_def)

lemma small_fs: "fsinv 1 2 small_fs" "fst a \<noteq> 0 \<Longrightarrow> bview small_fs a = small_disk a"
proof -
  have len: "length (small_disk a) = BSIZE" for a by (simp add: small_disk_def page_empty_def)
  obtain t where t: "new_cache 8 (crash small_disk) = t" "binv t {}" "dirty_ix t = {}" "length (bufs t) = 8"
    "\<forall>a. fst a \<noteq> 0 \<longrightarrow> bview t a = small_disk a"
    using new_cache_spec [of 8 "crash small_disk"] len crash_fields [of small_disk] by auto
  then show "fsinv 1 2 small_fs"
    by (simp add: small_fs_def fsinv_def set_metadata_def log_new_def)
  show "fst a \<noteq> 0 \<Longrightarrow> bview small_fs a = small_disk a" using t(1,5) by (cases a) (simp add: small_fs_def)
qed

lemma small_used: "unat b < 64 \<Longrightarrow> block_used small_fs 1 small_sb b \<longleftrightarrow> unat b < 16"
proof -
  assume b: "unat b < 64"
  have e: "bmap_addr small_sb b = 5"
  proof -
    have "unat (b div 32768) = 0" using b by (simp add: unat_div_distrib)
    then show ?thesis by (simp add: bmap_addr_def small_sb_def unat_eq_0)
  qed
  have "bit (0xFF :: u8) k" if "k < 8" for k
  proof -
    have "(0xFF :: u8) = mask 8" by (simp add: mask_eq_exp_minus_1)
    then show ?thesis using that by (simp only: bit_mask_iff) simp
  qed
  moreover have "small_disk (1, 5) ! (unat b div 8) = (if unat b < 16 then 0xFF else 0)"
    using b by (auto simp: small_disk_def nth_Cons' split: if_splits)
  ultimately show ?thesis
    using b by (simp add: block_used_def e small_fs(2) bit_clear_iff)
qed

theorem balloc_allocates_witness:
  "\<exists>a t. balloc 1 small_sb small_fs = (Ok a, t) \<and> 16 \<le> unat a \<and> unat a < 64 \<and> bview t (1, a) = replicate BSIZE 0"
proof -
  have sz: "unat (sb_size small_sb) = 64" by (simp add: small_sb_def)
  have "\<not> block_used small_fs 1 small_sb 20" by (subst small_used) simp_all
  then have ex: "\<exists>a. unat a < unat (sb_size small_sb) \<and> \<not> block_used small_fs 1 small_sb a"
    by (intro exI [of _ 20]) (simp add: sz)
  have own: "\<exists>B. bblock small_sb a = Ok B \<and> block_used small_fs 1 small_sb B" if "unat a < unat (sb_size small_sb)" for a
  proof -
    have "unat (a div 32768) = 0" using that sz by (simp add: unat_div_distrib)
    then have "bblock small_sb a = Ok 5" by (simp add: bblock_def checked_add_def small_sb_def unat_eq_0)
    then show ?thesis by (simp add: small_used)
  qed
  from balloc_allocates [OF small_fs(1) ex own] obtain a t where
    "balloc 1 small_sb small_fs = (Ok a, t)" "unat a < 64" "\<not> block_used small_fs 1 small_sb a"
    "bview t (1, a) = replicate BSIZE 0"
    by (auto simp: sz)
  then show ?thesis using small_used [of a] by (intro exI [of _ a] exI [of _ t]) auto
qed

text \<open>
  Freeing a block. A block that is in use becomes free and no other bit of the bitmap changes;
  freeing a block that is already free panics, so a double free never goes unnoticed.
\<close>

theorem bfree_frees:
  assumes I: "fsinv dev 1 s" and B: "bblock sb b = Ok (bmap_addr sb b)"
  shows "(block_used s dev sb b \<longrightarrow> (\<exists>t. bfree dev b sb s = (Ok (), t) \<and> fsinv dev 0 t \<and>
      (\<forall>c. block_used t dev sb c \<longleftrightarrow> c \<noteq> b \<and> block_used s dev sb c) \<and>
      (\<forall>c. c \<noteq> bmap_addr sb b \<longrightarrow> bview t (dev, c) = bview s (dev, c)))) \<and>
    (\<not> block_used s dev sb b \<longrightarrow> fst (bfree dev b sb s) = Panic ''freeing free block'')"
proof (intro conjI impI)
  define B bi where "B = bmap_addr sb b" and "bi = unat b mod BPB"
  have d0: "dev \<noteq> 0" using I by (simp add: fsinv_def)
  have len: "length (bview s (dev, B)) = BSIZE" using bview_length [of s "{}" "(dev, B)"] I by (simp add: fsinv_def)
  {
    assume u: "block_used s dev sb b"
    have I': "fsinv dev (Suc 0) s" using I by simp
    have "length (unmark_bit (bview s (dev, B)) bi) = BSIZE" using len by (simp add: unmark_bit_def)
    from logged_update [OF I', of "\<lambda>d. unmark_bit d bi", OF this] obtain k t1 t2 t3 t4 where
      r: "bread dev B s = (Ok k, t1)" "data_ref k t1 = bview s (dev, B)"
        "set_data k (unmark_bit (bview s (dev, B)) bi) t1 = (Ok (), t2)" "fslog_write k t2 = (Ok (), t3)"
        "relse k t3 = (Ok (), t4)" "fsinv dev 0 t4" "updated dev B (unmark_bit (bview s (dev, B)) bi) s t4"
      by auto
    have "bfree dev b sb s = (Ok (), t4)"
      using r(1-5) u B by (simp add: bfree_def with_block_def kop_simps B_def bi_def block_used_def Let_def)
    moreover have "block_used t4 dev sb c \<longleftrightarrow> c \<noteq> b \<and> block_used s dev sb c" for c
    proof -
      have "c = b \<longleftrightarrow> bmap_addr sb c = B \<and> unat c mod BPB = bi"
        unfolding B_def bi_def bmap_addr_eq_iff word_unat_eq_iff [of c b] by (metis div_mult_mod_eq)
      then show ?thesis
        using r(7) d0 bit_clear_unmark [of bi "bview s (dev, B)" "unat c mod BPB"] len
        by (auto simp: block_used_def updated_def bi_def)
    qed
    ultimately show "\<exists>t. bfree dev b sb s = (Ok (), t) \<and> fsinv dev 0 t \<and>
      (\<forall>c. block_used t dev sb c \<longleftrightarrow> c \<noteq> b \<and> block_used s dev sb c) \<and>
      (\<forall>c. c \<noteq> bmap_addr sb b \<longrightarrow> bview t (dev, c) = bview s (dev, c))"
      using r(6,7) d0 by (intro exI [of _ t4]) (auto simp: updated_def B_def)
  next
    assume u: "\<not> block_used s dev sb b"
    obtain k t1 where "bread dev B s = (Ok k, t1)" "data_ref k t1 = bview s (dev, B)"
      using read_release [OF I, of B] by auto
    then show "fst (bfree dev b sb s) = Panic ''freeing free block''"
      using u B by (simp add: bfree_def with_block_def kop_simps B_def bi_def block_used_def Let_def
          catchk_def expectk_def)
  }
qed

theorem bfree_frees_witness:
  "(\<exists>t. bfree 1 9 small_sb small_fs = (Ok (), t) \<and> \<not> block_used t 1 small_sb 9) \<and>
   fst (bfree 1 40 small_sb small_fs) = Panic ''freeing free block''"
proof -
  have i: "fsinv 1 1 small_fs" using fsinv_mono [OF small_fs(1), of 1] by simp
  have "block_used small_fs 1 small_sb 9" "\<not> block_used small_fs 1 small_sb 40"
    by (simp_all add: small_used)
  moreover have "bblock small_sb 9 = Ok (bmap_addr small_sb 9)" "bblock small_sb 40 = Ok (bmap_addr small_sb 40)"
    by (simp_all add: bblock_def checked_add_def bmap_addr_def small_sb_def)
  ultimately show ?thesis
    using bfree_frees [OF i, of small_sb 9] bfree_frees [OF i, of small_sb 40] by blast
qed

section \<open>The inode cache\<close>

definition icache_ok :: "inode list \<Rightarrow> bool" where
  "icache_ok ic \<longleftrightarrow> (\<forall>i < length ic. \<forall>j < length ic. i_ref (ic ! i) > 0 \<longrightarrow> i_ref (ic ! j) > 0 \<longrightarrow>
     i_dev (ic ! i) = i_dev (ic ! j) \<longrightarrow> i_inum (ic ! i) = i_inum (ic ! j) \<longrightarrow> i = j)"

definition in_use :: "inode list \<Rightarrow> u32 \<Rightarrow> u64 \<Rightarrow> nat \<Rightarrow> bool" where
  "in_use ic dev inum k \<longleftrightarrow> k < length ic \<and> i_ref (ic ! k) > 0 \<and> i_dev (ic ! k) = dev \<and> i_inum (ic ! k) = inum"

lemma icache_okD:
  "icache_ok ic \<Longrightarrow> in_use ic dev inum i \<Longrightarrow> in_use ic dev inum j \<Longrightarrow> i = j"
  unfolding icache_ok_def in_use_def by metis

lemma icache_okI: "(\<And>dev inum i j. in_use ic dev inum i \<Longrightarrow> in_use ic dev inum j \<Longrightarrow> i = j) \<Longrightarrow> icache_ok ic"
  unfolding icache_ok_def in_use_def by blast

lemma inode_get_hit:
  assumes "icache_ok (icache s)" "in_use (icache s) dev inum k" "i_ref (icache s ! k) \<noteq> -1"
  shows "inode_get dev inum sb s =
    (Ok k, s\<lparr>icache := (icache s)[k := (icache s ! k)\<lparr>i_ref := i_ref (icache s ! k) + 1\<rparr>]\<rparr>)"
proof -
  have "position (\<lambda>i. i_ref i > 0 \<and> i_dev i = dev \<and> i_inum i = inum) (icache s) = Some k"
    unfolding position_Some
  proof (intro conjI allI impI)
    fix j assume "j < k"
    then show "\<not> (i_ref (icache s ! j) > 0 \<and> i_dev (icache s ! j) = dev \<and> i_inum (icache s ! j) = inum)"
      using icache_okD [OF assms(1,2), of j] assms(2) unfolding in_use_def by linarith
  qed (use assms(2) in \<open>simp_all add: in_use_def\<close>)
  then show ?thesis
    using assms(3) by (simp add: inode_get_def kop_simps inc_ref_cnt_def geti_def modi_def)
qed

lemma inode_get_miss:
  assumes "\<not> (\<exists>k. in_use (icache s) dev inum k)"
  shows "inode_get dev inum sb s = (case position (\<lambda>i. i_ref i = 0) (icache s) of
     None \<Rightarrow> (Err ''Inode::get: no inodes'', s)
   | Some k \<Rightarrow> (Ok k, s\<lparr>icache := (icache s)[k := (icache s ! k)\<lparr>i_dev := dev, i_inum := inum, i_sb := Some sb,
        i_ref := 1, i_valid := False\<rparr>]\<rparr>))"
proof -
  have n: "position (\<lambda>i. i_ref i > 0 \<and> i_dev i = dev \<and> i_inum i = inum) (icache s) = None"
    using assms by (auto simp: position_None in_use_def in_set_conv_nth)
  show ?thesis
  proof (cases "position (\<lambda>i. i_ref i = 0) (icache s)")
    case None
    then show ?thesis by (simp add: inode_get_def kop_simps n)
  next
    case (Some k)
    then have "k < length (icache s)" "i_ref (icache s ! k) = 0" by (auto simp: position_Some)
    then show ?thesis
      using Some by (simp add: inode_get_def kop_simps n inc_ref_cnt_def geti_def modi_def)
  qed
qed

text \<open>
  C24: The inode cache has at most one entry per inode. \<open>Inode::get\<close> keeps this so: a cached inode is
  returned with one more reference; otherwise a free entry is taken over with one reference and
  marked invalid, so that the next \<open>lock\<close> reads it from the device; with no free entry the call fails
  and changes nothing. No other entry changes.
\<close>

theorem inode_get_unique:
  assumes "icache_ok (icache s)" "\<And>k. k < length (icache s) \<Longrightarrow> i_ref (icache s ! k) \<noteq> -1"
  shows "(\<exists>k t. inode_get dev inum sb s = (Ok k, t) \<and> icache_ok (icache t) \<and> in_use (icache t) dev inum k \<and>
      (\<forall>j. j \<noteq> k \<longrightarrow> icache t ! j = icache s ! j) \<and>
      (if in_use (icache s) dev inum k then i_ref (icache t ! k) = i_ref (icache s ! k) + 1 \<and>
          i_valid (icache t ! k) = i_valid (icache s ! k)
       else i_ref (icache t ! k) = 1 \<and> \<not> i_valid (icache t ! k))) \<or>
    (inode_get dev inum sb s = (Err ''Inode::get: no inodes'', s) \<and>
      (\<forall>k < length (icache s). i_ref (icache s ! k) > 0 \<and> \<not> in_use (icache s) dev inum k))"
proof (cases "\<exists>k. in_use (icache s) dev inum k")
  case True
  then obtain k where k: "in_use (icache s) dev inum k" by blast
  then have lk: "k < length (icache s)" "i_ref (icache s ! k) \<noteq> -1" using assms(2) by (auto simp: in_use_def)
  define ic where "ic = (icache s)[k := (icache s ! k)\<lparr>i_ref := i_ref (icache s ! k) + 1\<rparr>]"
  have p: "i_ref (icache s ! k) + 1 > 0" using lk(2) by (auto simp: word_neq_0_conv [symmetric] eq_neg_iff_add_eq_0)
  have same: "in_use ic d i j \<longleftrightarrow> in_use (icache s) d i j" for d i j
    using k p lk(1) by (cases "j = k") (auto simp: in_use_def ic_def)
  have "icache_ok ic" by (rule icache_okI) (simp add: same icache_okD [OF assms(1)])
  then show ?thesis
    using inode_get_hit [OF assms(1) k lk(2)] same k lk(1) by (intro disjI1) (auto simp: ic_def)
next
  case False
  note g = inode_get_miss [OF False, of sb]
  show ?thesis
  proof (cases "position (\<lambda>i. i_ref i = 0) (icache s)")
    case None
    then have "inode_get dev inum sb s = (Err ''Inode::get: no inodes'', s)" using g by simp
    moreover have "i_ref (icache s ! k) > 0" if "k < length (icache s)" for k
      using None that by (auto simp: position_None all_set_conv_all_nth word_neq_0_conv [symmetric])
    ultimately show ?thesis using False by blast
  next
    case (Some k)
    then have k: "k < length (icache s)" "i_ref (icache s ! k) = 0" by (auto simp: position_Some)
    define ic where "ic = (icache s)[k := (icache s ! k)\<lparr>i_dev := dev, i_inum := inum, i_sb := Some sb,
        i_ref := 1, i_valid := False\<rparr>]"
    have u: "in_use ic d i j \<longleftrightarrow> (if j = k then d = dev \<and> i = inum else in_use (icache s) d i j)" for d i j
      using k by (auto simp: in_use_def ic_def)
    have "icache_ok ic"
      by (rule icache_okI) (use False icache_okD [OF assms(1)] in \<open>auto simp: u split: if_splits\<close>)
    then show ?thesis
      using g Some k False u by (intro disjI1) (auto simp: ic_def in_use_def)
  qed
qed

definition tiny_icache :: "inode list" where
  "tiny_icache = [inode_new\<lparr>i_dev := 1, i_inum := 1, i_ref := 1\<rparr>, inode_new]"

definition tiny_fs :: fs_state where
  "tiny_fs = \<lparr>curpid = 1, bc_head = 0, bc_tail = 0, bufs = [], disk = small_disk, wlog = [], the_log = log_new,
     lstate = log_state_new, the_sb = small_sb, icache = tiny_icache, cwd = 0\<rparr>"

theorem inode_get_unique_witness:
  "\<exists>k t. inode_get 1 7 small_sb tiny_fs = (Ok k, t) \<and> in_use (icache t) 1 7 k \<and> icache_ok (icache t)"
proof -
  have ic: "icache tiny_fs = tiny_icache" by (simp add: tiny_fs_def)
  have o: "icache_ok (icache tiny_fs)"
    by (auto simp: ic icache_ok_def tiny_icache_def inode_new_def less_Suc_eq)
  have r: "i_ref (icache tiny_fs ! k) \<noteq> -1" if "k < length (icache tiny_fs)" for k
    using that by (auto simp: ic tiny_icache_def inode_new_def less_Suc_eq)
  have f: "i_ref (icache tiny_fs ! 1) = 0" "1 < length (icache tiny_fs)" by (simp_all add: ic tiny_icache_def inode_new_def)
  show ?thesis using inode_get_unique [OF o r, of 1 7 small_sb] f by fastforce
qed

end
