(* ===== verification/UserMem.thy ===== *)
theory UserMem
  imports Proc
begin

text \<open>
  The memory of a process as the processor sees it through the page table, and that \<open>copy_out\<close>
  (\<open>vm.rs\<close>) writes exactly the bytes it is given at the addresses it is given.
\<close>

section \<open>Areas of user memory\<close>

definition upage :: "pagemem \<Rightarrow> usize \<Rightarrow> nat \<Rightarrow> usize" where
  "upage m root a = virt_page_addr (the (entry_for m root (of_nat a)))"

definition ubyte :: "pagemem \<Rightarrow> usize \<Rightarrow> nat \<Rightarrow> u8" where
  "ubyte m root a = pages m (upage m root a) ! (a mod PAGE_SIZE)"

text \<open>
  The addresses from \<open>lo\<close> to \<open>hi\<close>, both at page boundaries, are mapped for the user; their pages are
  not tables of the address space, and different pages of the area are different pages of memory.
\<close>

definition user_area :: "pagemem \<Rightarrow> usize \<Rightarrow> nat \<Rightarrow> nat \<Rightarrow> bool" where
  "user_area m root lo hi \<longleftrightarrow> root \<noteq> 0 \<and> pages_wf m \<and> hi \<le> 2 ^ 47 \<and> PAGE_SIZE dvd lo \<and>
     (\<forall>a. lo \<le> a \<longrightarrow> a < hi \<longrightarrow> (\<exists>e. entry_for m root (of_nat a) = Some e \<and> is_user_entry e)) \<and>
     (\<forall>a is. lo \<le> a \<longrightarrow> a < hi \<longrightarrow> idxs is \<longrightarrow> walk m root is \<noteq> Some (upage m root a)) \<and>
     (\<forall>a b. lo \<le> a \<longrightarrow> a < hi \<longrightarrow> lo \<le> b \<longrightarrow> b < hi \<longrightarrow> upage m root a = upage m root b \<longrightarrow>
        a div PAGE_SIZE = b div PAGE_SIZE)"

lemma user_areaD:
  assumes "user_area m root lo hi"
  shows "root \<noteq> 0" "pages_wf m" "hi \<le> 2 ^ 47" "PAGE_SIZE dvd lo"
    "\<And>a. lo \<le> a \<Longrightarrow> a < hi \<Longrightarrow> \<exists>e. entry_for m root (of_nat a) = Some e \<and> is_user_entry e"
    "\<And>a is. lo \<le> a \<Longrightarrow> a < hi \<Longrightarrow> idxs is \<Longrightarrow> walk m root is \<noteq> Some (upage m root a)"
    "\<And>a b. lo \<le> a \<Longrightarrow> a < hi \<Longrightarrow> lo \<le> b \<Longrightarrow> b < hi \<Longrightarrow> upage m root a = upage m root b \<Longrightarrow>
       a div PAGE_SIZE = b div PAGE_SIZE"
  using assms unfolding user_area_def by blast+

lemma entry_for_same_page: "same_page va vb \<Longrightarrow> entry_for m root va = entry_for m root vb"
  by (simp add: same_page_indices entry_for_def next_table_def l1_entry_def vpath_def)

lemma same_page_div: "unat va div PAGE_SIZE = unat vb div PAGE_SIZE \<Longrightarrow> same_page va vb"
proof -
  assume "unat va div PAGE_SIZE = unat vb div PAGE_SIZE"
  then have "unat (drop_bit 12 va) = unat (drop_bit 12 vb)" by (simp add: drop_bit_eq_div unat_div_distrib)
  then have "drop_bit 12 va = drop_bit 12 vb" by (simp only: word_unat_eq_iff)
  then show ?thesis by (simp add: same_page_def)
qed

lemma upage_same:
  "a div PAGE_SIZE = b div PAGE_SIZE \<Longrightarrow> a < 2 ^ 64 \<Longrightarrow> b < 2 ^ 64 \<Longrightarrow> upage m root a = upage m root b"
  using entry_for_same_page [OF same_page_div, of "of_nat a" "of_nat b" m root]
  by (simp add: upage_def)

text \<open>A store into a page that is not a table changes no translation.\<close>

definition set_page :: "usize \<Rightarrow> bytes \<Rightarrow> pagemem \<Rightarrow> pagemem" where
  "set_page pg bs m = m\<lparr>pages := (pages m)(pg := bs)\<rparr>"

lemma walk_set_page:
  assumes "\<And>is. idxs is \<Longrightarrow> walk m root is \<noteq> Some pg" "idxs is"
  shows "walk (set_page pg bs m) root is = walk m root is"
  by (rule walk_frame [OF _ assms(2)]) (use assms(1) in \<open>auto simp: set_page_def\<close>)

lemma entry_for_set_page:
  assumes "root \<noteq> 0" "\<And>is. idxs is \<Longrightarrow> walk m root is \<noteq> Some pg"
  shows "entry_for (set_page pg bs m) root va = entry_for m root va"
  by (rule entry_for_frame [OF _ assms(1)]) (use assms(2) in \<open>auto simp: set_page_def\<close>)

section \<open>Stores\<close>

text \<open>Bytes stored at an address, within its page.\<close>

definition poke :: "usize \<Rightarrow> nat \<Rightarrow> bytes \<Rightarrow> pagemem \<Rightarrow> pagemem" where
  "poke root a xs m = set_page (upage m root a) (overwrite (pages m (upage m root a)) (a mod PAGE_SIZE) xs) m"

text \<open>Nothing has changed but the bytes of a range.\<close>

definition wrote :: "usize \<Rightarrow> nat \<Rightarrow> nat \<Rightarrow> nat \<Rightarrow> bytes \<Rightarrow> pagemem \<Rightarrow> pagemem \<Rightarrow> bool" where
  "wrote root lo hi a xs m m2 \<longleftrightarrow> user_area m2 root lo hi \<and>
     (\<forall>va. entry_for m2 root va = entry_for m root va) \<and> free_head m2 = free_head m \<and>
     (\<forall>p. p \<notin> upage m root ` {lo..<hi} \<longrightarrow> pages m2 p = pages m p) \<and>
     (\<forall>b. lo \<le> b \<longrightarrow> b < hi \<longrightarrow>
        ubyte m2 root b = (if a \<le> b \<and> b < a + length xs then xs ! (b - a) else ubyte m root b))"

lemma upage_eq: "(\<And>va. entry_for m2 root va = entry_for m root va) \<Longrightarrow> upage m2 root = upage m root"
  by (simp add: upage_def fun_eq_iff)

lemma user_area_cong:
  assumes "user_area m root lo hi" "pages_wf m2" "\<And>va. entry_for m2 root va = entry_for m root va"
    "\<And>is. idxs is \<Longrightarrow> walk m2 root is = walk m root is"
  shows "user_area m2 root lo hi"
proof -
  have up: "upage m2 root = upage m root" using upage_eq assms(3) by blast
  note D = user_areaD [OF assms(1)]
  have "walk m2 root is \<noteq> Some (upage m root a)" if "lo \<le> a" "a < hi" "idxs is" for a "is"
    using D(6) [OF that] assms(4) [OF that(3)] by simp
  then show ?thesis unfolding user_area_def up assms(3) using D assms(2) by blast
qed

lemma within_page:
  fixes a b :: nat
  assumes "a mod 4096 + n \<le> 4096"
  shows "a div 4096 = b div 4096 \<Longrightarrow> (a mod 4096 \<le> b mod 4096 \<and> b mod 4096 < a mod 4096 + n) = (a \<le> b \<and> b < a + n)"
    and "a div 4096 = b div 4096 \<Longrightarrow> b mod 4096 - a mod 4096 = b - a"
    and "a \<le> b \<and> b < a + n \<Longrightarrow> a div 4096 = b div 4096"
proof -
  have A: "a = 4096 * (a div 4096) + a mod 4096" and B: "b = 4096 * (b div 4096) + b mod 4096" by simp_all
  show "(a mod 4096 \<le> b mod 4096 \<and> b mod 4096 < a mod 4096 + n) = (a \<le> b \<and> b < a + n)"
    "b mod 4096 - a mod 4096 = b - a" if "a div 4096 = b div 4096" using A B that by linarith+
  show "a div 4096 = b div 4096" if "a \<le> b \<and> b < a + n"
  proof -
    have "4096 * (a div 4096) \<le> b" "b < 4096 * (a div 4096) + 4096" using A that assms by linarith+
    then show ?thesis by (intro div_nat_eqI [symmetric]) simp_all
  qed
qed

lemma poke_wrote:
  assumes area: "user_area m root lo hi" and a: "lo \<le> a" "a < hi" and fit: "a mod PAGE_SIZE + length xs \<le> PAGE_SIZE"
  shows "wrote root lo hi a xs m (poke root a xs m)"
proof -
  let ?pg = "upage m root a" and ?m = "poke root a xs m"
  note D = user_areaD [OF area]
  have tab: "\<And>is. idxs is \<Longrightarrow> walk m root is \<noteq> Some ?pg" using D(6) a by blast
  have ent: "entry_for ?m root va = entry_for m root va" for va
    unfolding poke_def by (rule entry_for_set_page [OF D(1) tab])
  have up: "upage ?m root = upage m root" using upage_eq ent by blast
  have wk: "idxs is \<Longrightarrow> walk ?m root is = walk m root is" for "is"
    unfolding poke_def by (rule walk_set_page [OF tab])
  have len: "length (pages m p) = PAGE_SIZE" for p using D(2) by (simp add: pages_wf_def)
  have "pages_wf ?m" using fit by (auto simp: pages_wf_def poke_def set_page_def len)
  then have "user_area ?m root lo hi" using user_area_cong [OF area] ent wk by blast
  moreover have "ubyte ?m root b = (if a \<le> b \<and> b < a + length xs then xs ! (b - a) else ubyte m root b)"
    if b: "lo \<le> b" "b < hi" for b
  proof (cases "a div PAGE_SIZE = b div PAGE_SIZE")
    case True
    then have "upage m root b = ?pg" using a b D(3) by (intro upage_same) simp_all
    then show ?thesis
      using within_page(1,2) [OF fit True] fit len
      by (simp add: ubyte_def up) (simp add: poke_def set_page_def nth_overwrite)
  next
    case False
    then have "upage m root b \<noteq> ?pg" using D(7) [OF a b] by auto
    moreover have "\<not> (a \<le> b \<and> b < a + length xs)" using within_page(3) [OF fit] False by blast
    ultimately show ?thesis by (auto simp: ubyte_def up) (simp_all add: poke_def set_page_def)
  qed
  moreover have "pages ?m p = pages m p" if "p \<notin> upage m root ` {lo..<hi}" for p
    using that a by (auto simp: poke_def set_page_def)
  ultimately show ?thesis unfolding wrote_def using ent by (auto simp: poke_def set_page_def)
qed

lemma wrote_refl: "user_area m root lo hi \<Longrightarrow> wrote root lo hi a [] m m"
  by (auto simp: wrote_def)

lemma wroteD:
  assumes "wrote root lo hi a xs m m2"
  shows "user_area m2 root lo hi" "\<And>va. entry_for m2 root va = entry_for m root va" "free_head m2 = free_head m"
    "\<And>p. p \<notin> upage m root ` {lo..<hi} \<Longrightarrow> pages m2 p = pages m p"
    "\<And>b. lo \<le> b \<Longrightarrow> b < hi \<Longrightarrow>
        ubyte m2 root b = (if a \<le> b \<and> b < a + length xs then xs ! (b - a) else ubyte m root b)"
    "upage m2 root = upage m root"
  using assms upage_eq [of m2 root m] unfolding wrote_def by blast+

lemma wrote_append:
  assumes "wrote root lo hi a xs m m1" "wrote root lo hi (a + length xs) ys m1 m2"
  shows "wrote root lo hi a (xs @ ys) m m2"
proof -
  note A = wroteD [OF assms(1)] and B = wroteD [OF assms(2)]
  have "ubyte m2 root b = (if a \<le> b \<and> b < a + length (xs @ ys) then (xs @ ys) ! (b - a) else ubyte m root b)"
    if "lo \<le> b" "b < hi" for b
    using A(5) [OF that] B(5) [OF that] by (auto simp: nth_append)
  moreover have "entry_for m2 root va = entry_for m root va" "free_head m2 = free_head m"
    "p \<notin> upage m root ` {lo..<hi} \<Longrightarrow> pages m2 p = pages m p" for va p
    using A(2-4,6) B(2-4) by simp_all
  ultimately show ?thesis unfolding wrote_def using B(1) by blast
qed

section \<open>Copying out\<close>

lemma user_page_found:
  assumes area: "user_area m root lo hi" and a: "lo \<le> unat va" "unat va < hi"
  shows "user_addr_to_kern_page m root (page_round_down va) = Ok (upage m root (unat va))"
proof -
  obtain e where e: "entry_for m root va = Some e" "is_user_entry e"
    using user_areaD(5) [OF area a] by auto
  have "same_page (page_round_down va) va" by (rule same_page_div) (simp add: unat_page_round_down)
  then show ?thesis
    using e entry_for_same_page [of "page_round_down va" va m root]
    by (simp add: user_addr_to_kern_page_def upage_def entry_for_present)
qed

lemma copy_out_step:
  assumes area: "user_area m root lo hi" and a: "lo \<le> unat va" "unat va < hi" and ne: "src \<noteq> []"
  defines "n \<equiv> min (PAGE_SIZE - unat va mod PAGE_SIZE) (length src)"
  shows "copy_out root src va m =
    copy_out root (drop n src) (page_round_down va + of_nat PAGE_SIZE) (poke root (unat va) (take n src) m)"
proof -
  have off: "unat va - unat (page_round_down va) = unat va mod PAGE_SIZE"
    unfolding unat_page_round_down by (simp add: minus_div_mult_eq_mod)
  have "unat (page_round_down va) \<le> unat va" unfolding unat_page_round_down by simp
  then have "unat (page_round_down va) + PAGE_SIZE < 2 ^ 64" using a(2) user_areaD(3) [OF area] by simp
  then show ?thesis
    using ne user_page_found [OF area a]
    by (subst copy_out.simps) (simp add: Let_def off kop_direct poke_def set_page_def n_def)
qed

lemma copy_out_wrote:
  assumes "user_area m root lo hi" "lo \<le> unat va" "unat va + length src \<le> hi"
  shows "\<exists>m2. copy_out root src va m = (Ok (), m2) \<and> wrote root lo hi (unat va) src m m2"
  using assms
proof (induction "length src" arbitrary: src va m rule: less_induct)
  case less
  note area = less.prems(1)
  show ?case
  proof (cases "src = []")
    case True
    then show ?thesis using wrote_refl [OF area] by (simp add: copy_out.simps kop_simps)
  next
    case False
    let ?off = "unat va mod PAGE_SIZE"
    let ?n = "min (PAGE_SIZE - ?off) (length src)" and ?va = "page_round_down va + of_nat PAGE_SIZE"
    let ?m = "poke root (unat va) (take ?n src) m"
    have "0 < length src" using False by simp
    then have a: "unat va < hi" and n: "0 < ?n" using less.prems(3) by (linarith, simp)
    have step: "copy_out root src va m = copy_out root (drop ?n src) ?va ?m"
      by (rule copy_out_step [OF area less.prems(2) a False])
    have w: "wrote root lo hi (unat va) (take ?n src) m ?m"
      using area less.prems(2) a by (intro poke_wrote) auto
    show ?thesis
    proof (cases "drop ?n src = []")
      case True
      then have "take ?n src = src" by simp
      then show ?thesis using step True w by (simp add: copy_out.simps kop_simps)
    next
      case False
      then have nn: "?n = PAGE_SIZE - ?off" by auto
      have "unat va = unat (page_round_down va) + ?off" unfolding unat_page_round_down by simp
      moreover have off: "?off < PAGE_SIZE" by simp
      ultimately have nxt: "unat (page_round_down va) + PAGE_SIZE = unat va + ?n" using nn by linarith
      have va: "unat ?va = unat va + ?n"
        using unat_add64_small [of "page_round_down va" "of_nat PAGE_SIZE"] nxt a user_areaD(3) [OF area] by simp
      obtain m2 where m2: "copy_out root (drop ?n src) ?va ?m = (Ok (), m2)"
        "wrote root lo hi (unat ?va) (drop ?n src) ?m m2"
        using less.hyps [of "drop ?n src" ?m ?va] less.prems va n \<open>0 < length src\<close> wroteD(1) [OF w] by auto
      have "wrote root lo hi (unat va) (take ?n src @ drop ?n src) m m2"
        using m2(2) va by (intro wrote_append [OF w]) simp
      then show ?thesis using step m2(1) by (simp only: append_take_drop_id) blast
    qed
  qed
qed

lemma hw_load_ubyte:
  assumes "user_area m root lo hi" "lo \<le> unat va" "unat va < hi"
  shows "hw_load root va m = Ok (ubyte m root (unat va))"
  using user_areaD(5) [OF assms] by (auto simp: hw_load_def ubyte_def upage_def unat_mod_distrib)

lemma hw_loads_ubytes:
  assumes area: "user_area m root lo hi"
  shows "lo \<le> unat va \<Longrightarrow> unat va + n \<le> hi \<Longrightarrow> hw_loads root va n m = Ok (map (ubyte m root) [unat va..<unat va + n])"
proof (induction n arbitrary: va)
  case 0
  then show ?case by simp
next
  case (Suc n)
  have "hi \<le> 2 ^ 47" using user_areaD(3) [OF area] .
  then have va: "unat (va + 1) = unat va + 1" using Suc.prems unat_add64_small [of va 1] by simp
  have "hw_loads root (va + 1) n m = Ok (map (ubyte m root) [unat va + 1..<unat va + 1 + n])"
    using Suc.IH [of "va + 1"] Suc.prems va by simp
  moreover have "[unat va..<unat va + Suc n] = unat va # [unat va + 1..<unat va + 1 + n]"
    by (subst upt_conv_Cons) (simp_all del: upt_Suc)
  ultimately show ?case
    using hw_load_ubyte [OF area Suc.prems(1)] Suc.prems by (simp del: upt_Suc)
qed

lemma wrote_loads:
  assumes w: "wrote root lo hi (unat va) src m m2" and "lo \<le> unat va" "unat va + length src \<le> hi"
  shows "hw_loads root va (length src) m2 = Ok src"
proof -
  have "map (ubyte m2 root) [unat va..<unat va + length src] = src"
    using wroteD(5) [OF w] assms(2,3) by (intro nth_equalityI) simp_all
  then show ?thesis using hw_loads_ubytes [OF wroteD(1) [OF w] assms(2,3)] by simp
qed

text \<open>
  C15: \<open>copy_out\<close> stores its bytes at the user addresses it is given and nowhere else. For any range
  of user memory that is mapped, however it lies across pages, the call succeeds; the processor then
  reads the bytes back at those addresses through the page table, every other byte of the process's
  area is as before, and so is every translation.
\<close>
theorem copy_out_writes:
  assumes area: "user_area m root lo hi" and range: "lo \<le> unat va" "unat va + length src \<le> hi"
  shows "\<exists>m2. copy_out root src va m = (Ok (), m2) \<and> hw_loads root va (length src) m2 = Ok src \<and>
    (\<forall>vb. entry_for m2 root vb = entry_for m root vb) \<and>
    (\<forall>vb. lo \<le> unat vb \<longrightarrow> unat vb < hi \<longrightarrow> unat vb < unat va \<or> unat va + length src \<le> unat vb \<longrightarrow>
       hw_load root vb m2 = hw_load root vb m)"
proof -
  obtain m2 where m2: "copy_out root src va m = (Ok (), m2)" "wrote root lo hi (unat va) src m m2"
    using copy_out_wrote [OF assms] by blast
  have "hw_load root vb m2 = hw_load root vb m"
    if "lo \<le> unat vb" "unat vb < hi" "unat vb < unat va \<or> unat va + length src \<le> unat vb" for vb
    using hw_load_ubyte [OF area that(1,2)] hw_load_ubyte [OF wroteD(1) [OF m2(2)] that(1,2)]
      wroteD(5) [OF m2(2) that(1,2)] that(3) by auto
  then show ?thesis using m2(1) wrote_loads [OF m2(2) range] wroteD(2) [OF m2(2)] by blast
qed

text \<open>An address space with the four pages of a user stack.\<close>

abbreviation (input) SROOT :: usize where "SROOT \<equiv> 0xFFFF800000001000"
abbreviation (input) STAB3 :: usize where "STAB3 \<equiv> 0xFFFF800000002000"
abbreviation (input) STAB2 :: usize where "STAB2 \<equiv> 0xFFFF800000003000"
abbreviation (input) STAB1 :: usize where "STAB1 \<equiv> 0xFFFF800000004000"

definition stack_page :: "nat \<Rightarrow> usize" where
  "stack_page k = KERNBASE + 0x5000 + of_nat k * 0x1000"

definition stack_entry :: "usize \<Rightarrow> entry" where
  "stack_entry p = entry_new (addr_to_phys p) (PF_PRESENT OR PF_USER OR PF_WRITE)"

definition stack_mem :: pagemem where
  "stack_mem = upd_entry SROOT 255 (stack_entry STAB3)
     (upd_entry STAB3 511 (stack_entry STAB2)
     (upd_entry STAB2 511 (stack_entry STAB1)
     (upd_entry STAB1 508 (stack_entry (stack_page 0))
     (upd_entry STAB1 509 (stack_entry (stack_page 1))
     (upd_entry STAB1 510 (stack_entry (stack_page 2))
     (upd_entry STAB1 511 (stack_entry (stack_page 3))
       \<lparr>pages = (\<lambda>_. page_empty), free_head = 0\<rparr>))))))"

lemma pages_wf_upd_entry [simp]: "pages_wf m \<Longrightarrow> k < 512 \<Longrightarrow> pages_wf (upd_entry t k e m)"
  by (simp add: pages_wf_def upd_entry_def)

lemma pages_wf_empty [simp]: "pages_wf \<lparr>pages = (\<lambda>_. page_empty), free_head = 0\<rparr>"
  by (simp add: pages_wf_def page_empty_def)

lemma stack_entries:
  assumes "j < 512"
  shows "entry_at stack_mem t j =
    (if t = SROOT \<and> j = 255 then stack_entry STAB3
     else if t = STAB3 \<and> j = 511 then stack_entry STAB2
     else if t = STAB2 \<and> j = 511 then stack_entry STAB1
     else if t = STAB1 \<and> 508 \<le> j then stack_entry (stack_page (j - 508)) else 0)"
proof -
  have "entry_at \<lparr>pages = (\<lambda>_. page_empty), free_head = 0\<rparr> t j = 0" using assms by (intro entry_at_empty) simp_all
  moreover have "508 \<le> j \<longleftrightarrow> j = 508 \<or> j = 509 \<or> j = 510 \<or> j = 511" using assms by auto
  ultimately show ?thesis using assms unfolding stack_mem_def by (auto simp: entry_at_upd)
qed

lemma stack_entry_page:
  assumes "kpage p"
  shows "is_present (stack_entry p)" "is_user_entry (stack_entry p)" "virt_page_addr (stack_entry p) = p"
proof -
  show "is_present (stack_entry p)" by (simp only: stack_entry_def present_new_table)
  show "virt_page_addr (stack_entry p) = p"
    unfolding stack_entry_def using assms by (rule virt_of_entry_new) simp
  have b4: "bit (4 :: u64) n \<longleftrightarrow> n = 2" for n using bit_exp_iff [of 2 n, where 'a = "64 word"] by auto
  have "x AND 4 = 4" if "bit x 2" for x :: u64
  proof (rule bit_word_eqI)
    show "bit (x AND 4) n = bit (4 :: u64) n" for n unfolding bit_and_iff b4 using that by blast
  qed
  moreover have "bit (entry_flags (stack_entry p)) 2"
    by (simp only: entry_flags_def stack_entry_def entry_new_def bit_and_iff bit_or_iff) simp
  ultimately show "is_user_entry (stack_entry p)" by (simp only: is_user_entry_def)
qed

lemma level_index_nat: "a < 2 ^ 64 \<Longrightarrow> level_index lvl (of_nat a) = a div 2 ^ (12 + 9 * (lvl - 1)) mod 512"
proof -
  assume "a < 2 ^ 64"
  have "(0x1FF :: usize) = mask 9" by (simp add: mask_eq_exp_minus_1)
  then have "level_index lvl (of_nat a) = unat (take_bit 9 (drop_bit (12 + 9 * (lvl - 1)) (of_nat a :: usize)))"
    by (simp only: level_index_def take_bit_eq_mask)
  then show ?thesis using \<open>a < 2 ^ 64\<close>
    by (simp only: unsigned_take_bit_eq unsigned_drop_bit_eq) (simp add: take_bit_eq_mod drop_bit_eq_div)
qed

lemma kpage_stack: "k < 4 \<Longrightarrow> kpage (stack_page k)" "kpage STAB3" "kpage STAB2"
  "kpage STAB1"
proof -
  assume "k < 4"
  then have "k = 0 \<or> k = 1 \<or> k = 2 \<or> k = 3" by auto
  then show "kpage (stack_page k)" by (auto simp: kpage_def stack_page_def addr_to_phys_def)
qed (simp_all add: kpage_def addr_to_phys_def)

lemma walk_stack:
  assumes "idxs is" "walk stack_mem SROOT is = Some t"
  shows "t \<in> {SROOT, STAB3, STAB2, STAB1}"
proof -
  have len: "length is \<le> 3" "\<forall>i \<in> set is. i < 512" using assms(1) by (auto simp: idxs_def)
  note E = stack_entries kpage_stack stack_entry_page
  show ?thesis
  proof (cases "is")
    case (Cons i js)
    then have i: "i = 255" "walk stack_mem STAB3 js = Some t"
      using assms(2) len by (auto simp: E split: if_splits)
    show ?thesis
    proof (cases js)
      case (Cons j ks)
      then have j: "walk stack_mem STAB2 ks = Some t"
        using i(2) len \<open>is = i # js\<close> by (auto simp: E split: if_splits)
      show ?thesis
        using j len \<open>is = i # js\<close> Cons by (cases ks) (auto simp: E split: if_splits)
    qed (use i in simp)
  qed (use assms in simp)
qed

text \<open>Where the addresses of the stack lie in the tables.\<close>

lemma stack_indices:
  assumes "unat USERSTACK \<le> a" "a < unat USEREND"
  obtains k where "k < 4" "a div PAGE_SIZE = 34359738364 + k" "vpath (of_nat a) = [255, 511, 511]"
    "level_index 1 (of_nat a) = 508 + k"
proof -
  have A: "140737488338944 \<le> a" "a < 140737488355328" using assms by simp_all
  then have lt: "a < 2 ^ 64" by simp
  define k where "k = a div PAGE_SIZE - 34359738364"
  have "34359738364 \<le> a div PAGE_SIZE" "a div PAGE_SIZE < 34359738368" using A by linarith+
  then have k: "a div PAGE_SIZE = 34359738364 + k" "k < 4" by (simp_all add: k_def)
  have d: "a div 2097152 = 67108863" "a div 1073741824 = 131071" "a div 549755813888 = 255" using A by linarith+
  have "(34359738364 + k) mod 512 = 508 + k"
    using k(2) mod_mult_self3 [of 67108863 512 "508 + k"] by simp
  then have "level_index 1 (of_nat a) = 508 + k" using lt k(1) by (simp add: level_index_nat)
  moreover have "vpath (of_nat a) = [255, 511, 511]" using lt d by (simp add: vpath_def level_index_nat)
  ultimately show thesis using that k by blast
qed

lemma stack_entry_for:
  assumes "unat USERSTACK \<le> a" "a < unat USEREND"
  obtains k where "k < 4" "a div PAGE_SIZE = 34359738364 + k"
    "entry_for stack_mem SROOT (of_nat a) = Some (stack_entry (stack_page k))" "upage stack_mem SROOT a = stack_page k"
proof -
  obtain k where k: "k < 4" "a div PAGE_SIZE = 34359738364 + k" "vpath (of_nat a) = [255, 511, 511]"
    "level_index 1 (of_nat a) = 508 + k" by (rule stack_indices [OF assms])
  note T = kpage_stack(2-4) kpage_stack(1) [OF k(1)]
  note P = T [THEN stack_entry_page(1)] T [THEN stack_entry_page(3)]
  have "walk stack_mem SROOT (vpath (of_nat a)) = Some STAB1" by (simp add: k(3) stack_entries P)
  then have e: "entry_for stack_mem SROOT (of_nat a) = Some (stack_entry (stack_page k))"
    using k(1,4) by (simp add: entry_for_walk l1_entry_def stack_entries P del: One_nat_def)
  then have "upage stack_mem SROOT a = stack_page k" by (simp add: upage_def P)
  then show thesis using that k e by blast
qed

lemma unat_stack_page: "k < 4 \<Longrightarrow> unat (stack_page k) = 0xFFFF800000005000 + k * 0x1000"
proof -
  assume "k < 4"
  then have "k = 0 \<or> k = 1 \<or> k = 2 \<or> k = 3" by auto
  then show ?thesis by (auto simp: stack_page_def)
qed

lemma stack_mem_area: "user_area stack_mem SROOT (unat USERSTACK) (unat USEREND)"
  unfolding user_area_def
proof (intro conjI allI impI)
  show "SROOT \<noteq> 0" "pages_wf stack_mem" "unat USEREND \<le> 2 ^ 47" by (simp_all add: stack_mem_def)
  show "PAGE_SIZE dvd unat USERSTACK" by (rule dvdI [of _ _ 34359738364]) simp
next
  fix a assume "unat USERSTACK \<le> a" "a < unat USEREND"
  then show "\<exists>e. entry_for stack_mem SROOT (of_nat a) = Some e \<and> is_user_entry e"
    by (rule stack_entry_for) (auto intro: stack_entry_page kpage_stack)
next
  fix a "is" assume a: "unat USERSTACK \<le> a" "a < unat USEREND" and i: "idxs is"
  obtain k where k: "k < 4" "upage stack_mem SROOT a = stack_page k" by (rule stack_entry_for [OF a])
  have "stack_page k \<notin> {SROOT, STAB3, STAB2, STAB1}" using unat_stack_page [OF k(1)] by (auto simp: word_unat_eq_iff)
  then show "walk stack_mem SROOT is \<noteq> Some (upage stack_mem SROOT a)" using walk_stack [OF i] k(2) by metis
next
  fix a b assume a: "unat USERSTACK \<le> a" "a < unat USEREND" and b: "unat USERSTACK \<le> b" "b < unat USEREND"
    and eq: "upage stack_mem SROOT a = upage stack_mem SROOT b"
  obtain k where k: "k < 4" "a div PAGE_SIZE = 34359738364 + k" "upage stack_mem SROOT a = stack_page k"
    by (rule stack_entry_for [OF a])
  obtain j where j: "j < 4" "b div PAGE_SIZE = 34359738364 + j" "upage stack_mem SROOT b = stack_page j"
    by (rule stack_entry_for [OF b])
  have "unat (stack_page k) = unat (stack_page j)" using eq k(3) j(3) by simp
  then show "a div PAGE_SIZE = b div PAGE_SIZE" using k j unat_stack_page by simp
qed

theorem copy_out_writes_witness:
  "\<exists>m2. copy_out SROOT [1, 2, 3, 4] (USERSTACK + 0xFFE) stack_mem = (Ok (), m2)
    \<and> hw_loads SROOT (USERSTACK + 0xFFE) 4 m2 = Ok [1, 2, 3, 4]"
proof -
  have len: "length [1, 2, 3, 4 :: u8] = 4" by simp
  have "unat USERSTACK \<le> unat (USERSTACK + 0xFFE)"
    "unat (USERSTACK + 0xFFE) + length [1, 2, 3, 4 :: u8] \<le> unat USEREND" by simp_all
  from copy_out_writes [OF stack_mem_area this] show ?thesis unfolding len by blast
qed

end
