(* ===== verification/Exec.thy ===== *)
theory Exec
  imports ProcProps UserMem
begin

text \<open>
  Loading of programs (\<open>kernel/src/exec.rs\<close>): the ELF header and the program headers as they lie in the
  file, the checks on them, the loading of segments, and the user stack with the arguments. The new
  address space is a value of \<open>exec\<close> until the end, so every error before that drops it.
\<close>

section \<open>Headers\<close>

abbreviation ELF_SIZE :: nat where "ELF_SIZE \<equiv> 64"
abbreviation PH_SIZE :: nat where "PH_SIZE \<equiv> 56"
abbreviation MAXARG :: nat where "MAXARG \<equiv> 32"

record elf_header =
  ident :: bytes
  object_file_type :: u16
  machine :: u16
  elf_version :: u32
  entry_addr :: u64
  program_header_offset :: u64
  section_header_offset :: u64
  elf_flags :: u32
  elf_header_size :: u16
  program_header_entry_size :: u16
  num_program_headers :: u16
  section_header_entry_size :: u16
  num_section_headers :: u16
  name_strings_section_index :: u16

definition le_field :: "bytes \<Rightarrow> nat \<Rightarrow> nat \<Rightarrow> nat" where
  "le_field bs off n = from_le (slice bs off (off + n))"

definition elf_of_bytes :: "bytes \<Rightarrow> elf_header" where
  "elf_of_bytes bs = \<lparr>ident = slice bs 0 16, object_file_type = of_nat (le_field bs 16 2),
     machine = of_nat (le_field bs 18 2), elf_version = of_nat (le_field bs 20 4),
     entry_addr = of_nat (le_field bs 24 8), program_header_offset = of_nat (le_field bs 32 8),
     section_header_offset = of_nat (le_field bs 40 8), elf_flags = of_nat (le_field bs 48 4),
     elf_header_size = of_nat (le_field bs 52 2), program_header_entry_size = of_nat (le_field bs 54 2),
     num_program_headers = of_nat (le_field bs 56 2), section_header_entry_size = of_nat (le_field bs 58 2),
     num_section_headers = of_nat (le_field bs 60 2), name_strings_section_index = of_nat (le_field bs 62 2)\<rparr>"

definition elf_read :: "nat \<Rightarrow> ('a fs_state_scheme, elf_header) kop" where
  "elf_read ip = bnd (readi ip ELF_SIZE 0) (\<lambda>bs.
     if length bs \<noteq> ELF_SIZE then throw ''exec: short ELF file'' else ret (elf_of_bytes bs))"

definition elf_validate :: "elf_header \<Rightarrow> unit res" where
  "elf_validate h =
     (if take 4 (ident h) \<noteq> [0x7F, 0x45, 0x4C, 0x46] then Err ''Bad magic ELF value''
      else if ident h ! 4 \<noteq> 2 then Err ''Not a 64-bit object file''
      else if object_file_type h \<noteq> 2 then Err ''Not an executable ELF file''
      else if machine h \<noteq> 62 then Err ''Wrong ELF executable architecture''
      else Ok ())"

record program_header =
  prog_type :: u32
  ph_flags :: u32
  ph_offset :: u64
  virt_addr :: u64
  phys_addr :: u64
  file_size :: u64
  mem_size :: u64
  ph_align :: u64

definition ph_of_bytes :: "bytes \<Rightarrow> program_header" where
  "ph_of_bytes bs = \<lparr>prog_type = of_nat (le_field bs 0 4), ph_flags = of_nat (le_field bs 4 4),
     ph_offset = of_nat (le_field bs 8 8), virt_addr = of_nat (le_field bs 16 8),
     phys_addr = of_nat (le_field bs 24 8), file_size = of_nat (le_field bs 32 8),
     mem_size = of_nat (le_field bs 40 8), ph_align = of_nat (le_field bs 48 8)\<rparr>"

definition ph_read :: "nat \<Rightarrow> u64 \<Rightarrow> ('a fs_state_scheme, program_header) kop" where
  "ph_read ip off = bnd (readi ip PH_SIZE off) (\<lambda>bs.
     if length bs \<noteq> PH_SIZE then throw ''exec: short program header read'' else ret (ph_of_bytes bs))"

definition ph_validate :: "program_header \<Rightarrow> unit res" where
  "ph_validate h =
     (if mem_size h < file_size h then Err ''exec: file and memory size mismatch''
      else if virt_addr h mod of_nat PAGE_SIZE \<noteq> 0 then Err ''exec: misaligned section load address''
      else if virt_addr h + mem_size h < virt_addr h then Err ''exec: program section too big''
      else Ok ())"

definition is_loadable :: "program_header \<Rightarrow> bool" where
  "is_loadable h \<longleftrightarrow> prog_type h = 1"

definition ph_page_flags :: "program_header \<Rightarrow> u64" where
  "ph_page_flags h =
     (let fl0 = PF_USER OR PF_NX;
          fl1 = if ph_flags h AND 2 = 2 then fl0 OR PF_WRITE else fl0
      in if ph_flags h AND 1 = 1 then fl1 AND NOT PF_NX else fl1)"

definition page_alloc_user :: "program_header \<Rightarrow> usize \<Rightarrow> usize \<Rightarrow> (pagemem, usize) kop" where
  "page_alloc_user h root sz =
     seqk (assertk (unat (virt_addr h) + unat (mem_size h) < 2 ^ 64) ''attempt to add with overflow'')
     (alloc_user root sz (virt_addr h + mem_size h) (ph_page_flags h))"

section \<open>Loading\<close>

fun load_pages :: "program_header \<Rightarrow> usize \<Rightarrow> nat \<Rightarrow> nat list \<Rightarrow> ('a proc_state_scheme, unit) kop" where
  "load_pages h root ip [] = ret ()"
| "load_pages h root ip (kp # kps) =
     seqk (assertk (unat (virt_addr h) + kp < 2 ^ 64) ''attempt to add with overflow'')
     (bnd (lift_res (\<lambda>s. user_addr_to_kern_page (mem s) root (virt_addr h + of_nat kp))) (\<lambda>pg.
      let n = min (unat (file_size h) - kp) PAGE_SIZE
      in seqk (assertk (unat (ph_offset h) + kp < 2 ^ 64) ''attempt to add with overflow'')
         (bnd (readi ip n (ph_offset h + of_nat kp)) (\<lambda>bs.
          seqk (on_mem (modify (\<lambda>m. m\<lparr>pages := (pages m)(pg := overwrite (pages m pg) 0 bs)\<rparr>)))
          (if length bs \<noteq> n then throw ''loaduvm: short read from file'' else load_pages h root ip kps)))))"

definition load_section :: "program_header \<Rightarrow> usize \<Rightarrow> nat \<Rightarrow> ('a proc_state_scheme, unit) kop" where
  "load_section h root ip =
     seqk (assertk (virt_addr h mod of_nat PAGE_SIZE = 0) ''assertion failed'')
     (load_pages h root ip (step_by 0 PAGE_SIZE (unat (file_size h))))"

text \<open>The loop over the program headers; \<open>n\<close> of them remain.\<close>

fun load_segments :: "usize \<Rightarrow> nat \<Rightarrow> nat \<Rightarrow> u64 \<Rightarrow> usize \<Rightarrow> ('a proc_state_scheme, usize) kop" where
  "load_segments root ip 0 off sz = ret sz"
| "load_segments root ip (Suc n) off sz = bnd (ph_read ip off) (\<lambda>h.
     seqk (assertk (unat off + PH_SIZE < 2 ^ 64) ''attempt to add with overflow'')
     (let off1 = off + of_nat PH_SIZE
      in if \<not> is_loadable h then load_segments root ip n off1 sz
         else seqk (lift_res (\<lambda>_. ph_validate h))
           (bnd (on_mem (page_alloc_user h root sz)) (\<lambda>sz1.
            seqk (load_section h root ip) (load_segments root ip n off1 sz1)))))"

definition load_program :: "usize \<Rightarrow> bytes \<Rightarrow> ('a proc_state_scheme, u64 \<times> usize) kop" where
  "load_program root path = with_op (bnd (namei path) (\<lambda>ip. with_putlock ip (\<lambda>ip.
     bnd (elf_read ip) (\<lambda>elf. seqk (lift_res (\<lambda>_. elf_validate elf))
     (bnd (load_segments root ip (unat (num_program_headers elf)) (program_header_offset elf) 0) (\<lambda>sz.
       ret (entry_addr elf, sz)))))))"

section \<open>The user stack\<close>

fun push_args :: "usize \<Rightarrow> bytes list \<Rightarrow> usize \<Rightarrow> (pagemem, usize list \<times> usize) kop" where
  "push_args root [] sp = ret ([], sp)"
| "push_args root (arg # args) sp =
     seqk (assertk (length arg + 1 \<le> unat sp) ''attempt to subtract with overflow'')
     (let sp1 = (sp - of_nat (length arg + 1)) AND NOT 0b111
      in seqk (copy_out root arg sp1)
         (if sp1 < USERSTACK then throw ''exec: arg stack overflow''
          else bnd (push_args root args sp1) (\<lambda>(us, sp2). ret (sp1 # us, sp2))))"

definition push_bytes :: "usize \<Rightarrow> bytes \<Rightarrow> usize \<Rightarrow> (pagemem, usize) kop" where
  "push_bytes root bs sp =
     seqk (assertk (length bs \<le> unat sp) ''attempt to subtract with overflow'')
     (let sp1 = sp - of_nat (length bs) in seqk (copy_out root bs sp1) (ret sp1))"

definition slice_as_bytes :: "usize list \<Rightarrow> bytes" where
  "slice_as_bytes us = concat (map (to_le 8 \<circ> unat) us)"

text \<open>The arguments, the vector of their addresses, and the frame: the result is \<open>argv\<close> and the pointer.\<close>

definition make_stack :: "usize \<Rightarrow> bytes list \<Rightarrow> (pagemem, usize \<times> usize) kop" where
  "make_stack root args =
     bnd (push_args root args USEREND) (\<lambda>(uargs, sp).
     bnd (push_bytes root (slice_as_bytes uargs) sp) (\<lambda>argv.
     bnd (if argv AND 0b1111 = 0 then push_bytes root (to_le 8 0) argv else ret argv) (\<lambda>sp1.
     bnd (push_bytes root (to_le 8 (unat (NOT 0 :: usize))) sp1) (\<lambda>sp2. ret (argv, sp2)))))"

section \<open>Exec\<close>

text \<open>The value \<open>pgtbl\<close> goes out of scope when the computation fails.\<close>

definition dropping :: "usize \<Rightarrow> ('a proc_state_scheme, 'r) kop \<Rightarrow> ('a proc_state_scheme, 'r) kop" where
  "dropping root m = catchk m ret (\<lambda>e. seqk (on_mem (vm_free root)) (throw e))"

definition exec_prepare :: "usize \<Rightarrow> bytes \<Rightarrow> bytes list \<Rightarrow> ('a proc_state_scheme, u64 \<times> usize \<times> usize \<times> usize) kop" where
  "exec_prepare root path args =
     bnd (load_program root path) (\<lambda>(entry, sz).
     seqk (on_mem (alloc_user root USERSTACK USEREND (PF_WRITE OR PF_NX)))
     (bnd (on_mem (make_stack root args)) (\<lambda>(argv, sp). ret (entry, sz, argv, sp))))"

definition switch_pgtbl :: "nat \<Rightarrow> usize \<Rightarrow> ('a proc_state_scheme, usize option) kop" where
  "switch_pgtbl k root = seqk (lift_res (\<lambda>_. switch_cr3 root))
     (bnd (getp k pd_pgtbl) (\<lambda>old. seqk (modp k (\<lambda>p. p\<lparr>pd_pgtbl := Some root\<rparr>)) (ret old)))"

text \<open>The four stores into the trap frame at the top of the kernel stack.\<close>

definition set_user_context :: "nat \<Rightarrow> (nat \<times> u64) list \<Rightarrow> ('a proc_state_scheme, unit) kop" where
  "set_user_context k regs = bnd (kstack_top k) (\<lambda>top.
     run_all (\<lambda>(off, v). on_mem (write_u64 (top - of_nat PAGE_SIZE) (TF_OFF + off) v)) regs)"

definition exec_commit :: "nat \<Rightarrow> usize \<Rightarrow> u64 \<Rightarrow> usize \<Rightarrow> nat \<Rightarrow> usize \<Rightarrow> usize \<Rightarrow> ('a proc_state_scheme, unit) kop" where
  "exec_commit k root entry sz argc argv sp =
     bnd (switch_pgtbl k root) (\<lambda>previous.
     seqk (modp k (\<lambda>p. p\<lparr>p_size := sz\<rparr>))
     (seqk (case previous of None \<Rightarrow> ret () | Some r \<Rightarrow> on_mem (vm_free r))
     (set_user_context k [(21 * 8, entry), (5 * 8, of_nat argc), (4 * 8, argv), (24 * 8, sp)])))"

definition exec :: "nat \<Rightarrow> bytes \<Rightarrow> bytes list \<Rightarrow> ('a proc_state_scheme, unit) kop" where
  "exec k path args =
     (if length args > MAXARG then throw ''exec: too many arguments''
      else bnd (gets kroot) (\<lambda>kr. bnd (on_mem (new_pgtbl kr)) (\<lambda>root.
        bnd (dropping root (as_proc k (exec_prepare root path args))) (\<lambda>(entry, sz, argv, sp).
          exec_commit k root entry sz (length args) argv sp))))"

end
