(* ===== verification/ExecProps.thy ===== *)
theory ExecProps
  imports Exec
begin

text \<open>
  What a program finds on its stack when \<open>exec\<close> starts it: user memory as a function from addresses
  to bytes, the layout of the arguments as an abstract computation on it, and that the code implements
  that layout.
\<close>

section \<open>User memory as a function\<close>

definition mem_is :: "usize \<Rightarrow> nat \<Rightarrow> nat \<Rightarrow> (nat \<Rightarrow> u8) \<Rightarrow> pagemem \<Rightarrow> bool" where
  "mem_is root lo hi f m \<longleftrightarrow> user_area m root lo hi \<and> (\<forall>b. lo \<le> b \<longrightarrow> b < hi \<longrightarrow> ubyte m root b = f b)"

definition put_at :: "nat \<Rightarrow> bytes \<Rightarrow> (nat \<Rightarrow> u8) \<Rightarrow> nat \<Rightarrow> u8" where
  "put_at a xs f b = (if a \<le> b \<and> b < a + length xs then xs ! (b - a) else f b)"

lemma copy_out_put:
  assumes "mem_is root lo hi f m" "lo \<le> unat va" "unat va + length src \<le> hi"
  obtains m2 where "copy_out root src va m = (Ok (), m2)" "mem_is root lo hi (put_at (unat va) src f) m2"
proof -
  obtain m2 where m2: "copy_out root src va m = (Ok (), m2)" "wrote root lo hi (unat va) src m m2"
    using copy_out_wrote [of m root lo hi va src] assms by (auto simp: mem_is_def)
  have "ubyte m2 root b = put_at (unat va) src f b" if "lo \<le> b" "b < hi" for b
    using wroteD(5) [OF m2(2) that] assms(1) that by (auto simp: mem_is_def put_at_def)
  then show thesis using that [OF m2(1)] wroteD(1) [OF m2(2)] by (simp add: mem_is_def)
qed

lemma mem_is_loads:
  assumes "mem_is root lo hi f m" "lo \<le> unat va" "unat va + n \<le> hi"
  shows "hw_loads root va n m = Ok (map f [unat va..<unat va + n])"
  using assms hw_loads_ubytes [of m root lo hi va n] by (auto simp: mem_is_def)

section \<open>The layout\<close>

definition room :: "bytes \<Rightarrow> nat" where
  "room arg = (length arg + 8) div 8 * 8"

definition args_room :: "bytes list \<Rightarrow> nat" where
  "args_room args = sum_list (map room args)"

fun arg_addrs :: "bytes list \<Rightarrow> nat \<Rightarrow> nat list" where
  "arg_addrs [] sp = []"
| "arg_addrs (arg # args) sp = (sp - room arg) # arg_addrs args (sp - room arg)"

fun pushed :: "bytes list \<Rightarrow> nat \<Rightarrow> (nat \<Rightarrow> u8) \<Rightarrow> nat \<Rightarrow> u8" where
  "pushed [] sp f = f"
| "pushed (arg # args) sp f = pushed args (sp - room arg) (put_at (sp - room arg) arg f)"

lemma room_gt: "length arg < room arg"
  unfolding room_def by linarith

lemma args_room_simps [simp]: "args_room [] = 0" "args_room (arg # args) = room arg + args_room args"
  by (simp_all add: args_room_def)

lemma pushed_above: "args_room args \<le> sp \<Longrightarrow> sp \<le> b \<Longrightarrow> pushed args sp f b = f b"
proof (induction args arbitrary: sp f)
  case (Cons arg args)
  have "sp - room arg + length arg \<le> b" using Cons.prems room_gt [of arg] by simp
  then show ?case using Cons by (simp add: put_at_def)
qed simp

lemma length_arg_addrs [simp]: "length (arg_addrs args sp) = length args"
  by (induction args arbitrary: sp) auto

lemma arg_addrs_bounds:
  "args_room args \<le> sp \<Longrightarrow> a \<in> set (arg_addrs args sp) \<Longrightarrow> sp - args_room args \<le> a \<and> a \<le> sp"
proof (induction args arbitrary: sp)
  case (Cons arg args)
  then obtain sp1 where sp: "sp = sp1 + room arg" by (metis add_leD1 args_room_simps(2) le_add_diff_inverse2)
  then show ?case using Cons.IH [of sp1] Cons.prems by auto
qed simp

lemma arg_addrs_end:
  "args_room args \<le> sp \<Longrightarrow> i < length args \<Longrightarrow> arg_addrs args sp ! i + room (args ! i) \<le> sp"
proof (induction args arbitrary: sp i)
  case (Cons arg args)
  show ?case
  proof (cases i)
    case (Suc j)
    then show ?thesis using Cons.IH [of "sp - room arg" j] Cons.prems by fastforce
  qed (use Cons.prems in simp)
qed simp

text \<open>Each argument is at its address, with the byte behind it untouched.\<close>

lemma pushed_arg:
  assumes "args_room args \<le> sp" "i < length args" "j \<le> length (args ! i)"
  shows "pushed args sp f (arg_addrs args sp ! i + j) =
    (if j < length (args ! i) then args ! i ! j else f (arg_addrs args sp ! i + j))"
  using assms
proof (induction args arbitrary: sp f i)
  case (Cons arg args)
  show ?case
  proof (cases i)
    case 0
    define a where "a = sp - room arg"
    have "pushed args a f' (a + j) = f' (a + j)" for f'
      using Cons.prems by (intro pushed_above) (simp_all add: a_def)
    then show ?thesis using 0 Cons.prems(3) by (simp add: put_at_def flip: a_def)
  next
    case (Suc n)
    let ?a = "arg_addrs args (sp - room arg) ! n"
    have "?a + room (args ! n) \<le> sp - room arg" using Cons.prems Suc by (intro arg_addrs_end) simp_all
    then have "?a + j < sp - room arg" using Cons.prems(3) Suc room_gt [of "args ! n"] by simp
    then show ?thesis using Cons.IH [of "sp - room arg" n] Cons.prems Suc by (simp add: put_at_def)
  qed
qed simp

section \<open>The code implements the layout\<close>

lemma unat_round8: "unat (w AND NOT 0b111 :: usize) = unat w div 8 * 8"
proof -
  have "(0b111 :: usize) = mask 3" by (simp add: mask_eq_exp_minus_1)
  then have "w AND NOT 0b111 = push_bit 3 (drop_bit 3 w)"
    by (intro bit_word_eqI)
      (simp only: bit_and_iff bit_not_iff bit_mask_iff bit_push_bit_iff bit_drop_bit_eq, auto)
  moreover have "unat (drop_bit 3 w) = unat w div 8" by (simp add: drop_bit_eq_div unat_div_distrib)
  moreover have "unat w div 8 * 8 < 2 ^ 64"
    by (rule order.strict_trans1 [OF div_times_less_eq_dividend]) simp
  ultimately show ?thesis by (simp add: push_bit_eq_mult unat_word_ariths)
qed

lemma arg_address:
  assumes "8 dvd unat sp" "room arg \<le> unat sp"
  shows "unat ((sp - of_nat (length arg + 1)) AND NOT 0b111 :: usize) = unat sp - room arg"
proof -
  have len: "length arg + 1 \<le> unat sp" using assms(2) room_gt [of arg] by linarith
  then have le: "of_nat (length arg + 1) \<le> sp" and u: "unat (of_nat (length arg + 1) :: usize) = length arg + 1"
    using unat_less_pow64 [of sp] by (simp_all add: word_le_nat_alt del: of_nat_add of_nat_Suc unat_less_pow64)
  obtain q where q: "unat sp = 8 * q" using assms(1) by blast
  have "unat (sp - of_nat (length arg + 1)) = unat sp - (length arg + 1)" using unat_sub [OF le] u by simp
  moreover have "(8 * q - (length arg + 1)) div 8 = q - (length arg + 8) div 8"
  proof -
    define c where "c = (length arg + 8) div 8"
    have "8 * c \<le> length arg + 8" "length arg + 8 < 8 * c + 8" unfolding c_def by linarith+
    then show ?thesis unfolding c_def [symmetric] using len q by (intro div_nat_eqI) (simp_all add: algebra_simps)
  qed
  ultimately show ?thesis unfolding unat_round8 room_def q by simp
qed

lemma push_args_layout:
  assumes "mem_is root lo hi f m" "8 dvd unat sp" "lo + args_room args \<le> unat sp" "unat sp \<le> hi"
    and stk: "unat USERSTACK \<le> lo"
  shows "\<exists>us sp2 m2. push_args root args sp m = (Ok (us, sp2), m2) \<and>
    mem_is root lo hi (pushed args (unat sp) f) m2 \<and> map unat us = arg_addrs args (unat sp) \<and>
    unat sp2 = unat sp - args_room args"
  using assms(1-4)
proof (induction args arbitrary: sp f m)
  case Nil
  then show ?case by (intro exI [of _ "[]"] exI [of _ sp] exI [of _ m]) (simp add: kop_simps)
next
  case (Cons arg args)
  define sp1 where "sp1 = (sp - of_nat (length arg + 1)) AND NOT 0b111"
  have r: "room arg \<le> unat sp" "length arg + 1 \<le> unat sp" "length arg < room arg"
    using Cons.prems(3) room_gt [of arg] by simp_all
  have sp: "unat sp1 = unat sp - room arg" unfolding sp1_def using Cons.prems(2) r(1) by (rule arg_address)
  have lo: "lo \<le> unat sp1" "unat sp1 + length arg \<le> hi" "lo + args_room args \<le> unat sp1" "unat sp1 \<le> hi"
    using Cons.prems(3,4) r sp by simp_all
  obtain m1 where m1: "copy_out root arg sp1 m = (Ok (), m1)" "mem_is root lo hi (put_at (unat sp1) arg f) m1"
    by (rule copy_out_put [OF Cons.prems(1) lo(1,2)])
  have "8 dvd unat sp1" unfolding sp using Cons.prems(2) by (rule dvd_diff_nat) (simp add: room_def)
  then obtain us sp2 m2 where A: "push_args root args sp1 m1 = (Ok (us, sp2), m2)"
    "mem_is root lo hi (pushed args (unat sp1) (put_at (unat sp1) arg f)) m2"
    "map unat us = arg_addrs args (unat sp1)" "unat sp2 = unat sp1 - args_room args"
    using Cons.IH [OF m1(2) _ lo(3,4)] by blast
  have "\<not> sp1 < USERSTACK" using lo(1) stk by (simp add: word_less_nat_alt)
  then have "push_args root (arg # args) sp m = (Ok (sp1 # us, sp2), m2)"
    using r(2) m1(1) A(1) unfolding push_args.simps Let_def sp1_def [symmetric]
    by (simp add: kop_direct seqk_run bnd_run basic_run)
  then show ?case using A(2-4) sp by (intro exI [of _ "sp1 # us"] exI [of _ sp2] exI [of _ m2]) simp
qed

lemma push_bytes_layout:
  assumes "mem_is root lo hi f m" "lo + length bs \<le> unat sp" "unat sp \<le> hi"
  obtains sp1 m2 where "push_bytes root bs sp m = (Ok sp1, m2)" "unat sp1 = unat sp - length bs"
    "mem_is root lo hi (put_at (unat sp - length bs) bs f) m2"
proof -
  have "length bs \<le> unat sp" using assms(2) by simp
  then have len: "of_nat (length bs) \<le> sp" "unat (of_nat (length bs) :: usize) = length bs"
    using order.strict_trans1 [OF _ unat_less_pow64 [of sp]] by (simp_all add: word_le_nat_alt)
  then have sp: "unat (sp - of_nat (length bs)) = unat sp - length bs" by (simp add: unat_sub)
  then have "lo \<le> unat (sp - of_nat (length bs))" "unat (sp - of_nat (length bs)) + length bs \<le> hi"
    using assms(2,3) by simp_all
  then obtain m2 where "copy_out root bs (sp - of_nat (length bs)) m = (Ok (), m2)"
    "mem_is root lo hi (put_at (unat (sp - of_nat (length bs))) bs f) m2"
    by (rule copy_out_put [OF assms(1)])
  then show thesis
    using \<open>length bs \<le> unat sp\<close> sp
    by (intro that [of "sp - of_nat (length bs)" m2]) (simp_all add: push_bytes_def Let_def kop_direct seqk_run basic_run)
qed

text \<open>The words pushed below the argument vector, which leave the stack pointer at a multiple of 16.\<close>

lemma push_frame_layout:
  assumes f: "mem_is root lo hi f m" "lo + 16 \<le> unat argv" "unat argv \<le> hi" "8 dvd unat argv"
  obtains sp m2 g where
    "bnd (if argv AND 0b1111 = 0 then push_bytes root (to_le 8 0) argv else ret argv) (\<lambda>sp1.
       bnd (push_bytes root (to_le 8 (unat (NOT 0 :: usize))) sp1) (\<lambda>sp2. ret (argv, sp2))) m = (Ok (argv, sp), m2)"
    "mem_is root lo hi g m2" "\<And>b. unat argv \<le> b \<Longrightarrow> g b = f b" "16 dvd unat sp" "unat sp + 8 \<le> unat argv" "lo \<le> unat sp"
proof -
  let ?zero = "argv AND 0b1111 = 0"
  have "(0b1111 :: usize) = mask 4" by (simp add: mask_eq_exp_minus_1)
  then have "unat (argv AND 0b1111) = unat argv mod 16"
    by (simp only: take_bit_eq_mask [symmetric] unsigned_take_bit_eq) (simp add: take_bit_eq_mod)
  then have z: "?zero \<longleftrightarrow> 16 dvd unat argv" by (simp add: unat_eq_0 [symmetric] dvd_eq_mod_eq_0 del: unat_eq_0)
  obtain sp1 m1 g1 where A: "(if ?zero then push_bytes root (to_le 8 0) argv else ret argv) m = (Ok sp1, m1)"
    "mem_is root lo hi g1 m1" "\<And>b. unat argv \<le> b \<Longrightarrow> g1 b = f b"
    "unat sp1 = (if ?zero then unat argv - 8 else unat argv)"
  proof (cases ?zero)
    case True
    obtain sp1 m1 where "push_bytes root (to_le 8 0) argv m = (Ok sp1, m1)" "unat sp1 = unat argv - 8"
      "mem_is root lo hi (put_at (unat argv - 8) (to_le 8 0) f) m1"
      using push_bytes_layout [of root lo hi f m "to_le 8 0" argv] f by auto
    then show ?thesis
      using True f(2) by (intro that [of sp1 m1 "put_at (unat argv - 8) (to_le 8 0) f"]) (auto simp: put_at_def)
  qed (use that f in \<open>auto simp: kop_simps\<close>)
  let ?ff = "to_le 8 (unat (NOT 0 :: usize))"
  have "lo + length ?ff \<le> unat sp1" "unat sp1 \<le> hi" using A(4) f(2,3) by (auto split: if_splits)
  then obtain sp m2 where B: "push_bytes root ?ff sp1 m1 = (Ok sp, m2)" "unat sp = unat sp1 - 8"
    "mem_is root lo hi (put_at (unat sp1 - 8) ?ff g1) m2"
    using push_bytes_layout [OF A(2)] by (metis length_to_le)
  have "16 dvd unat sp" using A(4) B(2) z f(2,4) by (auto split: if_splits) presburger+
  moreover have "put_at (unat sp1 - 8) ?ff g1 b = f b" if "unat argv \<le> b" for b
    using that A(3,4) f(2) by (auto simp: put_at_def split: if_splits)
  moreover have "unat sp + 8 \<le> unat argv" "lo \<le> unat sp" using A(4) B(2) f(2) by (auto split: if_splits)
  moreover have "bnd (if ?zero then push_bytes root (to_le 8 0) argv else ret argv) (\<lambda>sp1.
      bnd (push_bytes root ?ff sp1) (\<lambda>sp2. ret (argv, sp2))) m = (Ok (argv, sp), m2)"
    using A(1) B(1) by (simp only: bnd_run basic_run)
  ultimately show thesis by (intro that [OF _ B(3)])
qed

lemma length_slice_as_bytes [simp]: "length (slice_as_bytes us) = 8 * length us"
  by (induction us) (simp_all add: slice_as_bytes_def)

lemma make_stack_layout:
  assumes f: "mem_is root (unat USERSTACK) (unat USEREND) f m"
    and fit: "args_room args + 8 * length args + 16 \<le> unat USEREND - unat USERSTACK"
  obtains us argv sp m2 g where "make_stack root args m = (Ok (argv, sp), m2)"
    "mem_is root (unat USERSTACK) (unat USEREND) g m2" "map unat us = arg_addrs args (unat USEREND)"
    "unat argv = unat USEREND - args_room args - 8 * length args" "16 dvd unat sp" "unat sp + 8 \<le> unat argv"
    "unat USERSTACK \<le> unat sp"
    "\<And>b. unat argv \<le> b \<Longrightarrow> g b = put_at (unat argv) (slice_as_bytes us) (pushed args (unat USEREND) f) b"
proof -
  let ?lo = "unat USERSTACK" and ?hi = "unat USEREND"
  have dvd: "8 dvd ?hi" by (rule dvdI [of _ _ 17592186044416]) simp
  obtain us sp1 m1 where A: "push_args root args USEREND m = (Ok (us, sp1), m1)"
    "mem_is root ?lo ?hi (pushed args ?hi f) m1" "map unat us = arg_addrs args ?hi" "unat sp1 = ?hi - args_room args"
  proof -
    have "?lo + args_room args \<le> ?hi" using fit by simp
    from push_args_layout [OF f dvd this order_refl order_refl] show ?thesis using that by blast
  qed
  have n: "length us = length args" using arg_cong [OF A(3), of length] by simp
  have "?lo + length (slice_as_bytes us) \<le> unat sp1" "unat sp1 \<le> ?hi" using A(4) fit n by simp_all
  then obtain argv m2 where B: "push_bytes root (slice_as_bytes us) sp1 m1 = (Ok argv, m2)"
    "unat argv = unat sp1 - 8 * length args"
    "mem_is root ?lo ?hi (put_at (unat sp1 - 8 * length args) (slice_as_bytes us) (pushed args ?hi f)) m2"
    using push_bytes_layout [OF A(2)] n by (metis length_slice_as_bytes)
  have "8 dvd args_room args" by (induction args) (simp_all add: room_def)
  then have d8: "8 dvd unat argv" unfolding B(2) A(4) using dvd by (intro dvd_diff_nat) simp_all
  have ends: "?lo + 16 \<le> unat argv" "unat argv \<le> ?hi" using A(4) B(2) fit by simp_all
  obtain sp m3 g where C:
    "bnd (if argv AND 0b1111 = 0 then push_bytes root (to_le 8 0) argv else ret argv) (\<lambda>sp1.
       bnd (push_bytes root (to_le 8 (unat (NOT 0 :: usize))) sp1) (\<lambda>sp2. ret (argv, sp2))) m2 = (Ok (argv, sp), m3)"
    "mem_is root ?lo ?hi g m3"
    "\<And>b. unat argv \<le> b \<Longrightarrow>
       g b = put_at (unat sp1 - 8 * length args) (slice_as_bytes us) (pushed args ?hi f) b"
    "16 dvd unat sp" "unat sp + 8 \<le> unat argv" "?lo \<le> unat sp"
    by (rule push_frame_layout [OF B(3) ends d8]) (rule that; assumption)
  have "make_stack root args m = (Ok (argv, sp), m3)"
    using A(1) B(1) C(1) unfolding make_stack_def by (simp only: bnd_run case_prod_conv)
  then show thesis using C A(3,4) B(2) by (intro that [of argv sp m3 g us]) simp_all
qed

text \<open>
  C16: What a program started by \<open>exec\<close> finds on its stack. For arguments that fit the four pages of a
  fresh stack, the construction succeeds; through the new page table the program reads at \<open>argv\<close> a vector
  of as many pointers as there are arguments, at each of them its argument followed by a null byte, and
  the stack pointer it starts with is below all of this and a multiple of 16.
\<close>
theorem exec_stack_layout:
  assumes area: "user_area m root (unat USERSTACK) (unat USEREND)"
    and fresh: "\<And>b. unat USERSTACK \<le> b \<Longrightarrow> b < unat USEREND \<Longrightarrow> ubyte m root b = 0"
    and fit: "args_room args + 8 * length args + 16 \<le> unat USEREND - unat USERSTACK"
  shows "\<exists>argv sp m2 us. make_stack root args m = (Ok (argv, sp), m2) \<and> length us = length args \<and>
    hw_loads root argv (8 * length args) m2 = Ok (slice_as_bytes us) \<and>
    (\<forall>i < length args. hw_loads root (us ! i) (length (args ! i) + 1) m2 = Ok (args ! i @ [0])) \<and>
    16 dvd unat sp \<and> unat sp < unat argv"
proof -
  let ?lo = "unat USERSTACK" and ?hi = "unat USEREND"
  have "mem_is root ?lo ?hi (\<lambda>_. 0) m" using area fresh by (simp add: mem_is_def)
  then obtain us argv sp m2 g where A: "make_stack root args m = (Ok (argv, sp), m2)" "mem_is root ?lo ?hi g m2"
    "map unat us = arg_addrs args ?hi" "unat argv = ?hi - args_room args - 8 * length args"
    "16 dvd unat sp" "unat sp + 8 \<le> unat argv" "?lo \<le> unat sp"
    and g: "\<And>b. unat argv \<le> b \<Longrightarrow> g b = put_at (unat argv) (slice_as_bytes us) (pushed args ?hi (\<lambda>_. 0)) b"
    by (rule make_stack_layout [OF _ fit]) (rule that; assumption)
  have n: "length us = length args" using arg_cong [OF A(3), of length] by simp
  have "map g [unat argv..<unat argv + 8 * length args] = slice_as_bytes us"
    using n by (intro nth_equalityI) (simp_all add: g put_at_def)
  then have vec: "hw_loads root argv (8 * length args) m2 = Ok (slice_as_bytes us)"
    using mem_is_loads [OF A(2), of argv "8 * length args"] A(4,6,7) fit by simp
  have "hw_loads root (us ! i) (length (args ! i) + 1) m2 = Ok (args ! i @ [0])" if i: "i < length args" for i
  proof -
    let ?a = "arg_addrs args ?hi ! i"
    have a: "unat (us ! i) = ?a" using A(3) i n by (metis nth_map)
    have fits: "args_room args \<le> ?hi" using fit by simp
    have b: "?hi - args_room args \<le> ?a" "?a + room (args ! i) \<le> ?hi"
      using arg_addrs_bounds [OF fits, of ?a] arg_addrs_end [OF fits i] i by simp_all
    have "g (?a + j) = (args ! i @ [0]) ! j" if "j \<le> length (args ! i)" for j
    proof -
      have "unat argv + 8 * length args \<le> ?a + j" "unat argv \<le> ?a + j" using b(1) A(4) fit by simp_all
      then show ?thesis using g [of "?a + j"] pushed_arg [OF fits i that] n that
        by (simp add: put_at_def nth_append)
    qed
    then have "map g [?a..<?a + (length (args ! i) + 1)] = args ! i @ [0]"
      by (intro nth_equalityI) (simp_all del: upt_Suc)
    moreover have "?lo \<le> unat (us ! i)" "unat (us ! i) + (length (args ! i) + 1) \<le> ?hi"
      using a b room_gt [of "args ! i"] fit by simp_all
    ultimately show ?thesis using mem_is_loads [OF A(2), of "us ! i" "length (args ! i) + 1"] a by metis
  qed
  then show ?thesis using A(1,5,6) n vec by (intro exI [of _ argv] exI [of _ sp] exI [of _ m2] exI [of _ us]) simp
qed

lemma stack_mem_zero: "unat USERSTACK \<le> b \<Longrightarrow> b < unat USEREND \<Longrightarrow> ubyte stack_mem SROOT b = 0"
proof -
  assume b: "unat USERSTACK \<le> b" "b < unat USEREND"
  obtain k where k: "k < 4" "upage stack_mem SROOT b = stack_page k" by (rule stack_entry_for [OF b])
  have "stack_page k \<notin> {SROOT, STAB3, STAB2, STAB1}" using unat_stack_page [OF k(1)] by (auto simp: word_unat_eq_iff)
  then have "pages stack_mem (stack_page k) = page_empty" by (simp add: stack_mem_def upd_entry_def)
  then show ?thesis by (simp add: ubyte_def k(2) page_empty_def)
qed

theorem exec_stack_layout_witness:
  "\<exists>argv sp m2 us. make_stack SROOT [[0x6C, 0x73], [0x2F]] stack_mem = (Ok (argv, sp), m2) \<and>
    hw_loads SROOT argv 16 m2 = Ok (slice_as_bytes us) \<and>
    hw_loads SROOT (us ! 0) 3 m2 = Ok [0x6C, 0x73, 0] \<and> hw_loads SROOT (us ! 1) 2 m2 = Ok [0x2F, 0]"
proof -
  let ?args = "[[0x6C, 0x73], [0x2F]] :: bytes list"
  have n: "8 * length ?args = 16" "length (?args ! 0) + 1 = 3" "length (?args ! 1) + 1 = 2"
    "?args ! 0 @ [0] = [0x6C, 0x73, 0]" "?args ! 1 @ [0] = [0x2F, 0]" "0 < length ?args" "1 < length ?args" by simp_all
  have "args_room ?args + 8 * length ?args + 16 \<le> unat USEREND - unat USERSTACK" by (simp add: room_def)
  from exec_stack_layout [OF stack_mem_area stack_mem_zero this] obtain argv sp m2 us where
    A: "make_stack SROOT ?args stack_mem = (Ok (argv, sp), m2)"
    "hw_loads SROOT argv (8 * length ?args) m2 = Ok (slice_as_bytes us)"
    "\<And>i. i < length ?args \<Longrightarrow> hw_loads SROOT (us ! i) (length (?args ! i) + 1) m2 = Ok (?args ! i @ [0])"
    by blast
  from A(2) A(3) [OF n(6)] A(3) [OF n(7)] show ?thesis unfolding n using A(1) by blast
qed



end
