(* ===== verification/Sched.thy ===== *)
theory Sched
  imports ForkProps Exec
begin

text \<open>
  The scheduler (\<open>scheduler\<close> in \<open>kernel/src/proc.rs\<close>) as every processor runs it, at once, over the one
  process table, and the life of the table under it. Each processor is in its loop or runs a process;
  it leaves the loop by dispatching a runnable process and comes back when that process sleeps, yields
  or exits. Between the steps of one processor come those of all the others: the other loops, and the
  processes and interrupt handlers, which act on the table by the operations of \<open>Proc\<close>.
\<close>

section \<open>The loop of one processor\<close>

text \<open>
  What the loop keeps of a processor: the rest of the pass (the iterator over the table), the fields
  \<open>proc\<close> and \<open>kstack\<close> of its \<open>PerCPU\<close>, the stack for interrupts from user mode in its task state, and
  its page table register.
\<close>

record sched_cpu =
  sc_todo :: "nat list"
  sc_proc :: "nat option"
  sc_kstack :: u64
  sc_rsp0 :: u64
  sc_cr3 :: u64

definition sched_set_proc :: "nat \<Rightarrow> sched_cpu \<Rightarrow> ('a proc_state_scheme, sched_cpu) kop" where
  "sched_set_proc k cpu = bnd (kstack_top k) (\<lambda>top.
     ret (cpu\<lparr>sc_proc := Some k, sc_kstack := top, sc_rsp0 := top\<rparr>))"

definition sched_clear_proc :: "sched_cpu \<Rightarrow> sched_cpu" where
  "sched_clear_proc cpu = cpu\<lparr>sc_proc := None, sc_rsp0 := 0\<rparr>"

definition load_pgtbl :: "usize \<Rightarrow> sched_cpu \<Rightarrow> ('a proc_state_scheme, sched_cpu) kop" where
  "load_pgtbl root cpu = bnd (lift_res (\<lambda>_. switch_cr3 root)) (\<lambda>r. ret (cpu\<lparr>sc_cr3 := r\<rparr>))"

text \<open>The body of the loop up to the switch to the process.\<close>

definition sched_dispatch :: "nat \<Rightarrow> sched_cpu \<Rightarrow> ('a proc_state_scheme, sched_cpu) kop" where
  "sched_dispatch k cpu =
     seqk (modp k (\<lambda>p. p\<lparr>p_state := RUNNING\<rparr>))
     (bnd (sched_set_proc k cpu) (\<lambda>cpu1.
      bnd (getp k pd_pgtbl) (\<lambda>pt. case pt of
        None \<Rightarrow> panic ''unwrap on None''
      | Some root \<Rightarrow> bnd (load_pgtbl root cpu1) (\<lambda>cpu2.
          seqk (bnd (getp k pd_context) (\<lambda>ctx. assertk (ctx \<noteq> 0) ''bad stack'')) (ret cpu2)))))"

text \<open>The next step of the loop: a new pass, or the next entry of the table.\<close>

definition sched_next :: "sched_cpu \<Rightarrow> ('a proc_state_scheme, sched_cpu) kop" where
  "sched_next cpu = (case sc_todo cpu of
     [] \<Rightarrow> bnd (gets (\<lambda>s. length (procs s))) (\<lambda>n. ret (cpu\<lparr>sc_todo := [0..<n]\<rparr>))
   | k # ks \<Rightarrow> bnd (getp k p_state) (\<lambda>st.
       if st = RUNNABLE then sched_dispatch k (cpu\<lparr>sc_todo := ks\<rparr>) else ret (cpu\<lparr>sc_todo := ks\<rparr>)))"

text \<open>
  The body of the loop after the switch back. The switch has left the address of the process's saved
  context, which is on its kernel stack, in its entry.
\<close>

definition sched_back :: "nat \<Rightarrow> usize \<Rightarrow> sched_cpu \<Rightarrow> ('a proc_state_scheme, sched_cpu) kop" where
  "sched_back k sp cpu =
     seqk (modp k (\<lambda>p. p\<lparr>pd_context := sp\<rparr>))
     (bnd (gets kroot) (\<lambda>kr. bnd (load_pgtbl kr cpu) (\<lambda>cpu1. ret (sched_clear_proc cpu1))))"

section \<open>All processors\<close>

type_synonym sched_sys = "proc_state \<times> (nat \<Rightarrow> sched_cpu)"

datatype sched_event = Begin nat | Skip nat nat | Dispatch nat nat | Leave nat nat | Work

definition next_event :: "nat \<Rightarrow> sched_cpu \<Rightarrow> proc_state \<Rightarrow> sched_event" where
  "next_event c cpu s = (case sc_todo cpu of
     [] \<Rightarrow> Begin c
   | k # ks \<Rightarrow> if p_state (procs s ! k) = RUNNABLE then Dispatch c k else Skip c k)"

text \<open>The ways a running process gives up its processor.\<close>

definition gives_up :: "nat \<Rightarrow> proc_state \<Rightarrow> proc_state \<Rightarrow> bool" where
  "gives_up k s t \<longleftrightarrow> (\<exists>chan. psleep k chan s = (Ok (), t)) \<or> sched_yield k s = (Ok (), t) \<or>
     (\<exists>status. exit_table k status s = (Ok (), t)) \<or> wait1 k s = (Ok WSleepKids, t)"

text \<open>
  The rest of the kernel changes no entry's state (only \<open>proc.rs\<close> does), stack, saved context or page
  table.
\<close>

definition same_procs :: "proc_state \<Rightarrow> proc_state \<Rightarrow> bool" where
  "same_procs s t \<longleftrightarrow> length (procs t) = length (procs s) \<and> kroot t = kroot s \<and>
     (\<forall>j < length (procs s). p_state (procs t ! j) = p_state (procs s ! j) \<and>
        pd_kstack (procs t ! j) = pd_kstack (procs s ! j) \<and> pd_context (procs t ! j) = pd_context (procs s ! j) \<and>
        pd_pgtbl (procs t ! j) = pd_pgtbl (procs s ! j))"

text \<open>
  A step of the system. In \<open>leave\<close> the operation and the processor's return to the loop are one step,
  as the lock of the table is held from one to the other.
\<close>

inductive sched_step :: "sched_event \<Rightarrow> sched_sys \<Rightarrow> sched_sys \<Rightarrow> bool" where
  loop: "sc_proc (cpus c) = None \<Longrightarrow> sched_next (cpus c) s = (Ok cpu, t) \<Longrightarrow>
    sched_step (next_event c (cpus c) s) (s, cpus) (t, cpus(c := cpu))"
| leave: "sc_proc (cpus c) = Some k \<Longrightarrow> gives_up k s u \<Longrightarrow> sp \<noteq> 0 \<Longrightarrow>
    sched_back k sp (cpus c) u = (Ok cpu, t) \<Longrightarrow> sched_step (Leave c k) (s, cpus) (t, cpus(c := cpu))"
| wake: "wakeup chan s = (Ok (), t) \<Longrightarrow> sched_step Work (s, cpus) (t, cpus)"
| kill: "kill pid s = (Ok r, t) \<Longrightarrow> sched_step Work (s, cpus) (t, cpus)"
| fork: "sc_proc (cpus c) = Some k \<Longrightarrow> fork k s = (Ok r, t) \<Longrightarrow> sched_step Work (s, cpus) (t, cpus)"
| wait: "sc_proc (cpus c) = Some k \<Longrightarrow> wait1 k s = (Ok r, t) \<Longrightarrow> r \<noteq> WSleepKids \<Longrightarrow>
    sched_step Work (s, cpus) (t, cpus)"
| exec: "sc_proc (cpus c) = Some k \<Longrightarrow> switch_pgtbl k root s = (Ok r, t) \<Longrightarrow>
    sched_step Work (s, cpus) (t, cpus(c := (cpus c)\<lparr>sc_cr3 := addr_to_phys root\<rparr>))"
| rest: "same_procs s t \<Longrightarrow> sched_step Work (s, cpus) (t, cpus)"

inductive sched_run :: "sched_sys \<Rightarrow> sched_event list \<Rightarrow> sched_sys \<Rightarrow> bool" where
  start: "sched_run x [] x"
| more: "sched_run x es y \<Longrightarrow> sched_step e y z \<Longrightarrow> sched_run x (es @ [e]) z"


section \<open>What the operations do to the table\<close>

text \<open>A process past its creation can be given the processor: it has a page table, a stack and a context.\<close>

definition proc_ok :: "proc \<Rightarrow> bool" where
  "proc_ok p \<longleftrightarrow> (initialized p \<longrightarrow>
     (\<exists>root. pd_pgtbl p = Some root \<and> root \<noteq> 0) \<and> pd_kstack p \<noteq> None \<and> pd_context p \<noteq> 0)"

text \<open>
  The changes of state an entry can undergo while its process does not act: it is woken, it is
  collected, or a new process takes it. A process with a processor keeps its stack and page table.
\<close>

definition moved :: "proc \<Rightarrow> proc \<Rightarrow> bool" where
  "moved p q \<longleftrightarrow> (p_state q = p_state p \<or> (\<exists>chan. p_state p = SLEEPING chan) \<and> p_state q = RUNNABLE \<or>
       (\<exists>x. p_state p = ZOMBIE x) \<and> p_state q = UNUSED \<or> p_state p = UNUSED) \<and>
     (p_state p = RUNNING \<longrightarrow> pd_kstack q = pd_kstack p \<and> pd_pgtbl q = pd_pgtbl p) \<and>
     (proc_ok p \<longrightarrow> proc_ok q)"

definition table_frame :: "nat set \<Rightarrow> proc_state \<Rightarrow> proc_state \<Rightarrow> bool" where
  "table_frame K s t \<longleftrightarrow> length (procs t) = length (procs s) \<and> kroot t = kroot s \<and>
     (\<forall>j < length (procs s). j \<notin> K \<longrightarrow> moved (procs s ! j) (procs t ! j))"

lemma moved_refl [simp]: "moved p p"
  by (simp add: moved_def)

lemma moved_keeps:
  "moved p q \<Longrightarrow> p_state p = RUNNABLE \<Longrightarrow> p_state q = RUNNABLE"
  "moved p q \<Longrightarrow> p_state p = RUNNING \<Longrightarrow> p_state q = RUNNING \<and> pd_kstack q = pd_kstack p \<and> pd_pgtbl q = pd_pgtbl p"
  "moved p q \<Longrightarrow> proc_ok p \<Longrightarrow> proc_ok q"
  by (auto simp: moved_def)

lemma table_frame_entry:
  assumes "moved (procs s ! k) p \<or> k \<in> K"
  shows "table_frame K s (s\<lparr>procs := (procs s)[k := p]\<rparr>)"
proof -
  have "moved (procs s ! j) ((procs s)[k := p] ! j)" if "j < length (procs s)" "j \<notin> K" for j
    using that assms by (cases "j = k") auto
  then show ?thesis by (simp add: table_frame_def)
qed

lemma moved_wake [simp]: "moved p (wake_one chan p)"
  by (auto simp: moved_def wake_one_def proc_ok_def initialized_def)

lemma wakeup_frame: "wakeup chan s = (Ok r, t) \<Longrightarrow> table_frame {} s t"
  by (auto simp: wakeup_def wakeup1_def basic_run table_frame_def)

lemma kill_frame:
  assumes "kill pid s = (Ok r, t)"
  shows "table_frame {} s t"
proof (cases "position (\<lambda>p. p_pid p = pid) (procs s)")
  case None
  then show ?thesis using assms by (simp add: kill_def kop_direct basic_run table_frame_def)
next
  case (Some k)
  let ?p = "(procs s ! k)\<lparr>p_killed := True\<rparr>"
  let ?q = "case p_state ?p of SLEEPING _ \<Rightarrow> ?p\<lparr>p_state := RUNNABLE\<rparr> | _ \<Rightarrow> ?p"
  have "t = s\<lparr>procs := (procs s)[k := ?q]\<rparr>"
    using assms Some position_bound [OF Some] by (cases "p_state (procs s ! k)") (auto simp: kill_def kill_at_def modp_def kop_direct seqk_run basic_run)
  moreover have "moved (procs s ! k) ?q"
    by (cases "p_state (procs s ! k)") (auto simp: moved_def proc_ok_def initialized_def)
  ultimately show ?thesis using table_frame_entry by simp
qed

lemma sleep_frame:
  assumes "psleep k chan s = (Ok (), t) \<or> sched_yield k s = (Ok (), t)" "initialized (procs s ! k)"
  shows "table_frame {k} s t" "proc_ok (procs s ! k) \<Longrightarrow> k < length (procs s) \<Longrightarrow> proc_ok (procs t ! k)"
proof -
  obtain st where t: "t = s\<lparr>procs := (procs s)[k := (procs s ! k)\<lparr>p_state := st\<rparr>]\<rparr>" "st \<noteq> UNUSED" "st \<noteq> EMBRYO"
    using assms(1) by (auto simp: psleep_def sched_yield_def sched_def modp_def getp_def kop_direct
        kop_Ok_iffs basic_run split: if_splits)
  show "table_frame {k} s t" unfolding t(1) by (rule table_frame_entry) simp
  show "proc_ok (procs s ! k) \<Longrightarrow> k < length (procs s) \<Longrightarrow> proc_ok (procs t ! k)"
    using assms(2) by (simp add: t(1) proc_ok_def)
qed

lemma moved_same:
  "pd_kstack q = pd_kstack p \<Longrightarrow> pd_pgtbl q = pd_pgtbl p \<Longrightarrow> pd_context q = pd_context p \<Longrightarrow>
   p_state q = p_state p \<or> (\<exists>chan. p_state p = SLEEPING chan) \<and> p_state q = RUNNABLE \<Longrightarrow> moved p q"
  by (auto simp: moved_def proc_ok_def initialized_def)

lemma same_but_woken_moved:
  assumes "same_but_woken ic (reparented c ic (wake_one w p)) q"
  shows "moved p q" "pd_kstack q = pd_kstack p" "pd_pgtbl q = pd_pgtbl p" "pd_context q = pd_context p"
proof -
  have "p_state q \<in> {p_state p, RUNNABLE} \<and> (p_state q = p_state p \<or> (\<exists>chan. p_state p = SLEEPING chan))"
    using assms by (elim disjE [OF same_but_woken_def [THEN iffD1]]) (simp_all add: reparented_def)
  moreover show "pd_kstack q = pd_kstack p" "pd_pgtbl q = pd_pgtbl p" "pd_context q = pd_context p"
    using assms by (elim disjE [OF same_but_woken_def [THEN iffD1]], simp_all add: reparented_def wake_one_def)+
  ultimately show "moved p q" by (intro moved_same) auto
qed

lemma exit_frame:
  assumes "exit_table k status s = (Ok (), t)" "k < length (procs s)" "initialized (procs s ! k)"
  shows "table_frame {k} s t" "proc_ok (procs s ! k) \<Longrightarrow> proc_ok (procs t ! k)"
proof -
  let ?w = "parent_of (procs s ! k)" and ?c = "as_chan k s" and ?ic = "init_proc_chan s"
  have ic: "?ic \<noteq> 0" using assms(1) by (auto simp: exit_table_def init_chan_def kop_Ok_iffs basic_run getp_def wakeup1_def)
  obtain qs where run: "exit_table k status s = (Ok (), s\<lparr>procs := qs[k := (qs ! k)\<lparr>p_state := ZOMBIE status\<rparr>]\<rparr>)"
    and len: "length qs = length (procs s)"
    and woken: "\<And>j. j < length qs \<Longrightarrow> same_but_woken ?ic (reparented ?c ?ic (wake_one ?w (procs s ! j))) (qs ! j)"
    by (rule exit_table_run [OF assms(2) ic, of status]) (rule that; assumption)
  have t: "procs t = qs[k := (qs ! k)\<lparr>p_state := ZOMBIE status\<rparr>]" "kroot t = kroot s" using run assms(1) by auto
  note m = same_but_woken_moved [OF woken]
  show "table_frame {k} s t" using m(1) len by (simp add: table_frame_def t)
  show "proc_ok (procs s ! k) \<Longrightarrow> proc_ok (procs t ! k)"
    using m(2-4) [of k] assms(2,3) len by (simp add: t(1) proc_ok_def)
qed

lemma scan_kids_frame:
  "scan_kids c h js s = (Ok r, t) \<Longrightarrow> \<forall>j \<in> set js. j < length (procs s) \<Longrightarrow> table_frame {} s t"
proof (induction js arbitrary: h)
  case Nil
  then show ?case by (simp add: basic_run table_frame_def)
next
  case (Cons j js)
  show ?case
  proof (cases "\<exists>x. p_state (procs s ! j) = ZOMBIE x \<and> initialized (procs s ! j) \<and> parent_of (procs s ! j) = c")
    case True
    then obtain x where x: "p_state (procs s ! j) = ZOMBIE x" by blast
    then have "reap j x s = (Ok r, t)" using True Cons.prems(1) by (auto simp: getp_def kop_direct)
    then obtain q where q: "t = s\<lparr>procs := (procs s)[j := q]\<rparr>" "p_state q = UNUSED"
      by (auto simp: reap_def getp_def modp_def kop_direct basic_run split: option.splits)
    then have "moved (procs s ! j) q" using x by (simp add: moved_def proc_ok_def initialized_def)
    then show ?thesis unfolding q(1) by (intro table_frame_entry) simp
  next
    case False
    have "\<exists>h. scan_kids c h js s = (Ok r, t)"
      using Cons.prems(1) False by (cases "p_state (procs s ! j)") (auto simp: getp_def kop_direct split: if_splits)
    then show ?thesis using Cons.IH Cons.prems(2) by auto
  qed
qed

lemma scan_kids_asleep:
  "scan_kids c h js s = (Ok WSleepKids, t) \<Longrightarrow> t = s"
proof (induction js arbitrary: h)
  case Nil
  then show ?case by (simp add: basic_run)
next
  case (Cons j js)
  then show ?case
    by (cases "p_state (procs s ! j)")
      (auto simp: getp_def kop_direct reap_def modp_def basic_run split: if_splits option.splits)
qed

lemma wait1_frame:
  assumes "wait1 k s = (Ok r, t)"
  shows "r \<noteq> WSleepKids \<Longrightarrow> table_frame {} s t"
    and "r = WSleepKids \<Longrightarrow> \<exists>chan. psleep k chan s = (Ok (), t)"
proof -
  obtain q u where q: "scan_kids (as_chan k s) False [0..<length (procs s)] s = (Ok q, u)"
    and rest: "(case q of WSleepKids \<Rightarrow> bnd (getp k p_killed) (\<lambda>d.
         if d then ret WNone else seqk (psleep k (as_chan k s)) (ret WSleepKids)) | _ \<Rightarrow> ret q) u = (Ok r, t)"
    using assms by (auto simp: wait1_def kop_direct bnd_Ok_iff)
  have fr: "table_frame {} s u" by (rule scan_kids_frame [OF q]) simp
  show "r \<noteq> WSleepKids \<Longrightarrow> table_frame {} s t"
    using rest fr by (cases q) (auto simp: basic_run getp_def kop_direct kop_Ok_iffs split: if_splits)
  assume r: "r = WSleepKids"
  then have "q = WSleepKids" using rest by (cases q) (auto simp: basic_run)
  then show "\<exists>chan. psleep k chan s = (Ok (), t)"
    using rest r scan_kids_asleep [of "as_chan k s" False _ s u] q
    by (auto simp: basic_run getp_def kop_direct kop_Ok_iffs split: if_splits)
qed

text \<open>Operations that leave the table alone, and what \<open>fork\<close> does to it however it ends.\<close>

definition keeps_table :: "(proc_state, 'r) kop \<Rightarrow> bool" where
  "keeps_table m \<longleftrightarrow> (\<forall>s r t. m s = (Ok r, t) \<longrightarrow> procs t = procs s \<and> kroot t = kroot s)"

lemma keeps_table_bnd: "keeps_table m \<Longrightarrow> (\<And>x. keeps_table (f x)) \<Longrightarrow> keeps_table (bnd m f)"
  by (fastforce simp: keeps_table_def bnd_Ok_iff)

lemma keeps_table_seqk: "keeps_table m \<Longrightarrow> keeps_table n \<Longrightarrow> keeps_table (seqk m n)"
  by (simp add: seqk_def keeps_table_bnd)

lemma keeps_table_basic:
  "keeps_table (ret x)" "keeps_table (panic e)" "keeps_table (gets f)" "keeps_table (getp k g)"
  "keeps_table (assertk P e)" "keeps_table (on_mem m)"
  by (auto simp: keeps_table_def basic_run getp_def assertk_Ok_iff on_mem_run)

lemma keeps_inode_dup: "keeps_table (inode_dup ip)"
  by (auto simp: keeps_table_def inode_dup_def inc_ref_cnt_def geti_def modi_def kop_direct kop_Ok_iffs
      basic_run split: if_splits)

lemma keeps_file_dup: "keeps_table (file_dup f)"
  by (auto simp: keeps_table_def file_dup_def f_inc_ref_def getf_def modf_def kop_direct kop_Ok_iffs
      basic_run split: if_splits)

lemma keeps_dup_files: "keeps_table (dup_files fs)"
  by (induction fs rule: dup_files.induct) (auto intro!: keeps_table_bnd keeps_table_basic keeps_file_dup)

lemma keeps_fork_parts:
  "keeps_table (dup_pgtbl k)" "keeps_table (copy_user_context k np)" "keeps_table (ctx_set_return np ra)"
  "keeps_table (proc_cwd k)"
  unfolding dup_pgtbl_def copy_user_context_def ctx_set_return_def proc_cwd_def
  by (auto intro!: keeps_table_bnd keeps_table_seqk keeps_table_basic split: option.splits)

lemma keeps_tableD: "m s = (Ok r, t) \<Longrightarrow> keeps_table m \<Longrightarrow> procs t = procs s \<and> kroot t = kroot s"
  by (auto simp: keeps_table_def)

lemmas fork_parts_keep = keeps_tableD [OF _ keeps_fork_parts(1)] keeps_tableD [OF _ keeps_fork_parts(2)]
  keeps_tableD [OF _ keeps_fork_parts(4)]
  keeps_tableD [OF _ keeps_dup_files] keeps_tableD [OF _ keeps_inode_dup] keeps_tableD [OF _ keeps_table_basic(6)]

lemma dup_nonzero: "dup root sz m = (Ok (Some t), m1) \<Longrightarrow> t \<noteq> 0"
  by (auto simp: dup_def dup_kern_def and_then_def kalloc_op_def kalloc_def fl_get_def Let_def kop_Ok_iffs basic_run
      kop_direct split: option.splits if_splits)

lemma dup_pgtbl_nonzero: "dup_pgtbl k s = (Ok (Some t), u) \<Longrightarrow> t \<noteq> 0"
  by (auto simp: dup_pgtbl_def getp_def kop_direct basic_run on_mem_run split: option.splits dest: dup_nonzero)
    (metis dup_nonzero prod.collapse)

lemma ctx_set_return_keep:
  fixes s :: proc_state
  assumes "ctx_set_return np ra s = (Ok x, t)"
  shows "pd_context (procs s ! np) \<noteq> 0 \<and> procs t = procs s \<and> kroot t = kroot s"
  using keeps_tableD [OF assms keeps_fork_parts(3)] assms
  by (auto simp: ctx_set_return_def getp_def kop_direct kop_Ok_iffs split: if_splits)

lemma set_name_fields [simp]: "p_state (set_name nm p) = p_state p" "pd_pgtbl (set_name nm p) = pd_pgtbl p"
  "pd_kstack (set_name nm p) = pd_kstack p" "pd_context (set_name nm p) = pd_context p"
  by (simp_all add: set_name_def Let_def)

lemma fork_child_frame:
  fixes s :: proc_state
  assumes run: "fork_child k np s = (Ok r, t)" and np: "np < length (procs s)" "pd_kstack (procs s ! np) \<noteq> None"
  shows "kroot t = kroot s \<and> (\<exists>q. procs t = (procs s)[np := q] \<and> proc_ok q)"
proof -
  obtain pt s1 where d: "dup_pgtbl k s = (Ok pt, s1)" using run by (auto simp: fork_child_def bnd_Ok_iff)
  note k1 = fork_parts_keep(1) [OF d]
  show ?thesis
  proof (cases pt)
    case None
    then show ?thesis using run d k1 np
      by (auto simp: fork_child_def bnd_run getp_def modp_def kop_direct kop_Ok_iffs basic_run proc_ok_def
          initialized_def split: option.splits dest!: fork_parts_keep(6))
  next
    case (Some root)
    then show ?thesis using run d k1 np dup_pgtbl_nonzero [of k s root s1]
      by (auto simp: fork_child_def bnd_run getp_def modp_def kop_direct kop_Ok_iffs basic_run proc_ok_def
          initialized_def dest!: fork_parts_keep ctx_set_return_keep)
  qed
qed

lemma fork_frame:
  assumes "fork k s = (Ok r, t)"
  shows "table_frame {} s t"
proof (cases "position (\<lambda>p. p_state p = UNUSED) (procs s)")
  case None
  then show ?thesis using assms
    by (auto simp: fork_def proc_alloc_def and_then_def kop_Ok_iffs kop_direct basic_run on_mem_run table_frame_def
        split: option.splits)
next
  case (Some np)
  then have np: "np < length (procs s)" "p_state (procs s ! np) = UNUSED" by (auto simp: position_Some)
  obtain st m1 where st: "kalloc (mem s) = (st, m1)" by fastforce
  show ?thesis
  proof (cases st)
    case None
    then show ?thesis using assms st
      by (auto simp: fork_def proc_alloc_def and_then_def kalloc_op_def kop_Ok_iffs basic_run on_mem_run table_frame_def)
  next
    case (Some stack)
    define s2 where "s2 = fork_start np stack m1 s"
    have s2: "procs s2 = (procs s)[np := embryo stack (pid_next s) (procs s ! np)]" "kroot s2 = kroot s"
      by (simp_all add: s2_def fork_start_def set_mem_def)
    have "fork k s = and_then (fork_child k np) (\<lambda>_. ret (Some (pid_next s))) s2"
      unfolding s2_def using \<open>position _ _ = Some np\<close> st Some by (intro fork_run) simp_all
    then have "and_then (fork_child k np) (\<lambda>_. ret (Some (pid_next s))) s2 = (Ok r, t)" using assms by simp
    then obtain x where "fork_child k np s2 = (Ok x, t)"
      by (auto simp: and_then_def kop_Ok_iffs basic_run split: option.splits)
    then obtain q where q: "kroot t = kroot s" "procs t = (procs s)[np := q]" "proc_ok q"
      using fork_child_frame [of k np s2 x t] np s2 by (auto simp: embryo_def)
    have "moved (procs s ! np) q" using q(3) np(2) by (simp add: moved_def)
    then have "moved (procs s ! j) ((procs s)[np := q] ! j)" if "j < length (procs s)" for j
      using that by (cases "j = np") auto
    then show ?thesis by (simp add: table_frame_def q(1,2))
  qed
qed

lemma gives_up_frame:
  assumes "gives_up k s t" "k < length (procs s)" "p_state (procs s ! k) = RUNNING"
  shows "table_frame {k} s t" "proc_ok (procs s ! k) \<Longrightarrow> proc_ok (procs t ! k)"
proof -
  have i: "initialized (procs s ! k)" using assms(3) by (simp add: initialized_def)
  consider chan where "psleep k chan s = (Ok (), t) \<or> sched_yield k s = (Ok (), t)"
    | status where "exit_table k status s = (Ok (), t)"
    using assms(1) wait1_frame(2) [of k s WSleepKids t] by (auto simp: gives_up_def)
  then have "table_frame {k} s t \<and> (proc_ok (procs s ! k) \<longrightarrow> proc_ok (procs t ! k))"
    using sleep_frame [OF _ i, of _ t] exit_frame [OF _ assms(2) i, of _ t] assms(2) by cases auto
  then show "table_frame {k} s t" "proc_ok (procs s ! k) \<Longrightarrow> proc_ok (procs t ! k)" by auto
qed


section \<open>The invariant\<close>

text \<open>
  A processor in its loop is on the kernel's page table and takes no interrupt from user mode; one that
  runs a process has its entry marked as running, is on its page table and takes interrupts on its
  kernel stack; no process runs on two processors.
\<close>

definition cpu_at :: "proc_state \<Rightarrow> sched_cpu \<Rightarrow> bool" where
  "cpu_at s cpu \<longleftrightarrow> set (sc_todo cpu) \<subseteq> {..<length (procs s)} \<and>
     (case sc_proc cpu of
        None \<Rightarrow> sc_cr3 cpu = addr_to_phys (kroot s) \<and> sc_rsp0 cpu = 0
      | Some k \<Rightarrow> k < length (procs s) \<and> p_state (procs s ! k) = RUNNING \<and>
          (\<exists>root stack. pd_pgtbl (procs s ! k) = Some root \<and> sc_cr3 cpu = addr_to_phys root \<and>
             pd_kstack (procs s ! k) = Some stack \<and> sc_rsp0 cpu = stack + of_nat PAGE_SIZE \<and>
             sc_kstack cpu = stack + of_nat PAGE_SIZE))"

definition sched_inv :: "sched_sys \<Rightarrow> bool" where
  "sched_inv x \<longleftrightarrow> (let (s, cpus) = x in
     kroot s \<noteq> 0 \<and> (\<forall>j < length (procs s). proc_ok (procs s ! j)) \<and> (\<forall>c. cpu_at s (cpus c)) \<and>
     (\<forall>c d k. sc_proc (cpus c) = Some k \<longrightarrow> sc_proc (cpus d) = Some k \<longrightarrow> c = d))"

lemma cpu_at_frame:
  assumes "table_frame K s t" "cpu_at s cpu" "\<And>k. sc_proc cpu = Some k \<Longrightarrow> k \<notin> K"
  shows "cpu_at t cpu"
proof (cases "sc_proc cpu")
  case None
  then show ?thesis using assms by (simp add: cpu_at_def table_frame_def)
next
  case (Some k)
  then have "k \<notin> K" "k < length (procs s)" "p_state (procs s ! k) = RUNNING"
    using assms(2,3) by (auto simp: cpu_at_def)
  then have "moved (procs s ! k) (procs t ! k)" "p_state (procs s ! k) = RUNNING"
    using assms(1) by (simp_all add: table_frame_def)
  then show ?thesis using moved_keeps(2) Some assms(1,2) by (auto simp: cpu_at_def table_frame_def)
qed

text \<open>A step of processor \<open>c\<close>, or of none, on the table.\<close>

lemma sched_inv_update:
  assumes inv: "sched_inv (s, cpus)" and fr: "table_frame K s t"
    and own: "\<And>d k. sc_proc (cpus d) = Some k \<Longrightarrow> k \<in> K \<Longrightarrow> d = c"
    and ok: "\<And>k. k \<in> K \<Longrightarrow> k < length (procs s) \<Longrightarrow> proc_ok (procs t ! k)"
    and cpu: "cpu_at t cpu" "\<And>k d. sc_proc cpu = Some k \<Longrightarrow> sc_proc (cpus d) = Some k \<Longrightarrow> d = c"
  shows "sched_inv (t, cpus(c := cpu))"
proof -
  have s: "kroot s \<noteq> 0" "\<And>j. j < length (procs s) \<Longrightarrow> proc_ok (procs s ! j)" "\<And>d. cpu_at s (cpus d)"
    and inj: "\<And>d e k. sc_proc (cpus d) = Some k \<Longrightarrow> sc_proc (cpus e) = Some k \<Longrightarrow> d = e"
    using inv by (auto simp: sched_inv_def)
  have kr: "kroot t \<noteq> 0" and len: "length (procs t) = length (procs s)" using s(1) fr by (auto simp: table_frame_def)
  moreover have "proc_ok (procs t ! j)" if "j < length (procs t)" for j
    using ok [of j] s(2) [of j] fr that moved_keeps(3) len by (cases "j \<in> K") (auto simp: table_frame_def)
  moreover have "cpu_at t ((cpus(c := cpu)) d)" for d
    using cpu(1) cpu_at_frame [OF fr s(3)] own by (cases "d = c") auto
  moreover have "d = e" if "sc_proc ((cpus(c := cpu)) d) = Some k" "sc_proc ((cpus(c := cpu)) e) = Some k" for d e k
    using that inj cpu(2) by (metis fun_upd_apply)
  ultimately show ?thesis unfolding sched_inv_def Let_def prod.case by blast
qed

lemma sched_inv_work:
  assumes "sched_inv (s, cpus)" "table_frame {} s t"
  shows "sched_inv (t, cpus)"
proof -
  have "cpu_at t (cpus c)" for c using assms cpu_at_frame [OF assms(2)] by (auto simp: sched_inv_def)
  then have "sched_inv (t, cpus(0 := cpus 0))" using assms by (intro sched_inv_update) (auto simp: sched_inv_def)
  then show ?thesis by simp
qed

lemma sched_next_run:
  assumes inv: "sched_inv (s, cpus)" and idle: "sc_proc (cpus c) = None"
  obtains (Begin) "sc_todo (cpus c) = []" "sched_next (cpus c) s = (Ok ((cpus c)\<lparr>sc_todo := [0..<length (procs s)]\<rparr>), s)"
  | (Skip) k ks where "sc_todo (cpus c) = k # ks" "p_state (procs s ! k) \<noteq> RUNNABLE"
      "sched_next (cpus c) s = (Ok ((cpus c)\<lparr>sc_todo := ks\<rparr>), s)"
  | (Dispatch) k ks root stack where "sc_todo (cpus c) = k # ks" "p_state (procs s ! k) = RUNNABLE"
      "k < length (procs s)" "pd_pgtbl (procs s ! k) = Some root" "pd_kstack (procs s ! k) = Some stack"
      "proc_ok (procs s ! k)"
      "sched_next (cpus c) s = (Ok ((cpus c)\<lparr>sc_todo := ks, sc_proc := Some k, sc_kstack := stack + of_nat PAGE_SIZE,
         sc_rsp0 := stack + of_nat PAGE_SIZE, sc_cr3 := addr_to_phys root\<rparr>),
         s\<lparr>procs := (procs s)[k := (procs s ! k)\<lparr>p_state := RUNNING\<rparr>]\<rparr>)"
proof (cases "sc_todo (cpus c)")
  case Nil
  then show thesis using that(1) by (simp add: sched_next_def kop_direct basic_run)
next
  case (Cons k ks)
  show thesis
  proof (cases "p_state (procs s ! k) = RUNNABLE")
    case False
    then show thesis using that(2) Cons by (simp add: sched_next_def getp_def kop_direct basic_run)
  next
    case True
    have "cpu_at s (cpus c)" "\<And>j. j < length (procs s) \<Longrightarrow> proc_ok (procs s ! j)"
      using inv by (auto simp: sched_inv_def)
    then have k: "k < length (procs s)" and ok: "proc_ok (procs s ! k)" using Cons by (auto simp: cpu_at_def)
    then obtain root stack where p: "pd_pgtbl (procs s ! k) = Some root" "root \<noteq> 0" "pd_kstack (procs s ! k) = Some stack"
      "pd_context (procs s ! k) \<noteq> 0" using True by (auto simp: proc_ok_def initialized_def)
    then show thesis using that(3) [OF Cons True k p(1,3) ok] True Cons k
      by (simp add: sched_next_def sched_dispatch_def sched_set_proc_def load_pgtbl_def switch_cr3_def kstack_top_def
          getp_def modp_def kop_direct bnd_run seqk_run basic_run)
  qed
qed

lemma loop_keeps_inv:
  assumes inv: "sched_inv (s, cpus)" and idle: "sc_proc (cpus c) = None" and run: "sched_next (cpus c) s = (Ok cpu, t)"
  shows "sched_inv (t, cpus(c := cpu))"
proof -
  have c: "cpu_at s (cpus c)" "\<And>d. cpu_at s (cpus d)" using inv by (simp_all add: sched_inv_def)
  show ?thesis
    using inv idle
  proof (cases rule: sched_next_run)
    case Begin
    then show ?thesis using run c inv idle by (intro sched_inv_update [OF inv, of "{}"]) (auto simp: cpu_at_def table_frame_def)
  next
    case (Skip k ks)
    then show ?thesis using run c inv idle by (intro sched_inv_update [OF inv, of "{}"]) (auto simp: cpu_at_def table_frame_def)
  next
    case (Dispatch k ks root stack)
    then have t: "t = s\<lparr>procs := (procs s)[k := (procs s ! k)\<lparr>p_state := RUNNING\<rparr>]\<rparr>"
      and cpu: "cpu = (cpus c)\<lparr>sc_todo := ks, sc_proc := Some k, sc_kstack := stack + of_nat PAGE_SIZE,
         sc_rsp0 := stack + of_nat PAGE_SIZE, sc_cr3 := addr_to_phys root\<rparr>" using run by simp_all
    have none: "sc_proc (cpus d) \<noteq> Some k" for d using c(2) [of d] Dispatch(2) by (auto simp: cpu_at_def)
    have "proc_ok (procs t ! k)" using Dispatch by (simp add: t proc_ok_def initialized_def)
    moreover have "cpu_at t cpu" using c(1) Dispatch by (auto simp: cpu_at_def t cpu)
    moreover have "table_frame {k} s t" unfolding t by (rule table_frame_entry) simp
    ultimately show ?thesis using none by (intro sched_inv_update [OF inv, of "{k}"]) (auto simp: cpu)
  qed
qed

lemma leave_keeps_inv:
  assumes inv: "sched_inv (s, cpus)" and k: "sc_proc (cpus c) = Some k" and up: "gives_up k s u" and sp: "sp \<noteq> 0"
    and bk: "sched_back k sp (cpus c) u = (Ok cpu, t)"
  shows "sched_inv (t, cpus(c := cpu))" "table_frame {k} s t" "sc_todo cpu = sc_todo (cpus c)"
proof -
  have c: "cpu_at s (cpus c)" "kroot s \<noteq> 0" "\<And>j. j < length (procs s) \<Longrightarrow> proc_ok (procs s ! j)"
    using inv by (simp_all add: sched_inv_def)
  then have s: "k < length (procs s)" "p_state (procs s ! k) = RUNNING" using k by (simp_all add: cpu_at_def)
  note fr = gives_up_frame [OF up s]
  have kr: "kroot u = kroot s" and len: "length (procs u) = length (procs s)" using fr(1) by (simp_all add: table_frame_def)
  have t: "t = u\<lparr>procs := (procs u)[k := (procs u ! k)\<lparr>pd_context := sp\<rparr>]\<rparr>"
    and cpu: "cpu = (cpus c)\<lparr>sc_cr3 := addr_to_phys (kroot s), sc_proc := None, sc_rsp0 := 0\<rparr>"
    using bk c(2) kr by (simp_all add: sched_back_def load_pgtbl_def switch_cr3_def sched_clear_proc_def modp_def
        kop_direct bnd_run basic_run)
  show f: "table_frame {k} s t" using fr(1) by (simp add: table_frame_def t)
  have "proc_ok (procs t ! k)" using fr(2) c(3) s(1) sp len by (simp add: t proc_ok_def initialized_def)
  moreover have "cpu_at t cpu" using c(1) kr len by (simp add: cpu_at_def t cpu)
  moreover have "d = c" if "sc_proc (cpus d) = Some k" for d using inv k that by (auto simp: sched_inv_def)
  ultimately show "sched_inv (t, cpus(c := cpu))" using f by (intro sched_inv_update [OF inv, of "{k}"]) (auto simp: cpu)
  show "sc_todo cpu = sc_todo (cpus c)" by (simp add: cpu)
qed

lemma exec_keeps_inv:
  assumes inv: "sched_inv (s, cpus)" and k: "sc_proc (cpus c) = Some k" and ex: "switch_pgtbl k root s = (Ok r, t)"
  shows "sched_inv (t, cpus(c := (cpus c)\<lparr>sc_cr3 := addr_to_phys root\<rparr>))" "table_frame {k} s t"
    "p_state (procs t ! k) = p_state (procs s ! k)"
proof -
  have c: "cpu_at s (cpus c)" "\<And>j. j < length (procs s) \<Longrightarrow> proc_ok (procs s ! j)"
    using inv by (simp_all add: sched_inv_def)
  then have s: "k < length (procs s)" "p_state (procs s ! k) = RUNNING" using k by (simp_all add: cpu_at_def)
  have t: "t = s\<lparr>procs := (procs s)[k := (procs s ! k)\<lparr>pd_pgtbl := Some root\<rparr>]\<rparr>" and root: "root \<noteq> 0"
    using ex by (auto simp: switch_pgtbl_def switch_cr3_def seqk_def lift_res_run bnd_run getp_def modp_def kop_direct
        basic_run split: if_splits)
  show f: "table_frame {k} s t" unfolding t by (rule table_frame_entry) simp
  have ok: "proc_ok (procs t ! k)" using c(2) [OF s(1)] s root by (simp add: t proc_ok_def initialized_def)
  have cpu: "cpu_at t ((cpus c)\<lparr>sc_cr3 := addr_to_phys root\<rparr>)" using c(1) k s by (auto simp: cpu_at_def t)
  have own: "d = c" if "sc_proc (cpus d) = Some k" for d using inv k that by (auto simp: sched_inv_def)
  show "sched_inv (t, cpus(c := (cpus c)\<lparr>sc_cr3 := addr_to_phys root\<rparr>))"
    by (rule sched_inv_update [OF inv f _ _ cpu]) (use ok in \<open>auto simp: k intro: own\<close>)
  show "p_state (procs t ! k) = p_state (procs s ! k)" using s(1) by (simp add: t)
qed

lemma same_procs_frame: "same_procs s t \<Longrightarrow> table_frame {} s t"
  by (auto simp: same_procs_def table_frame_def intro!: moved_same)

lemma sched_step_inv: "sched_step e x y \<Longrightarrow> sched_inv x \<Longrightarrow> sched_inv y"
proof (induction rule: sched_step.induct)
  case (loop cpus c s cpu t)
  then show ?case by (intro loop_keeps_inv)
next
  case (leave cpus c k s u sp cpu t)
  then show ?case by (intro leave_keeps_inv(1) [of s cpus c k u sp])
next
  case (exec cpus c k root s r t)
  then show ?case by (intro exec_keeps_inv(1))
qed (auto intro: sched_inv_work wakeup_frame kill_frame fork_frame wait1_frame(1) same_procs_frame)

text \<open>
  Only a dispatch takes a runnable entry out of that state, and a processor drops an entry of its pass
  only by dispatching it or because it is not runnable.
\<close>

lemma sched_step_runnable:
  assumes "sched_step e (s, cpus) (t, cpus')" "sched_inv (s, cpus)" "j < length (procs s)" "p_state (procs s ! j) = RUNNABLE"
  shows "(\<exists>d. e = Dispatch d j) \<or> p_state (procs t ! j) = RUNNABLE \<and>
    (j \<in> set (sc_todo (cpus c)) \<longrightarrow> j \<in> set (sc_todo (cpus' c)))"
proof -
  have quiet: "p_state (procs t ! j) = RUNNABLE" if "table_frame K s t" "j \<notin> K" for K
    using that assms(3,4) moved_keeps(1) by (auto simp: table_frame_def)
  have running: "k \<noteq> j" if "sc_proc (cpus d) = Some k" for d k
    using assms(2,4) that by (auto simp: sched_inv_def cpu_at_def split: option.splits)
  show ?thesis
    using assms(1)
  proof (cases rule: sched_step.cases)
    case (loop d cpu)
    show ?thesis
      using assms(2) loop(3)
    proof (cases rule: sched_next_run)
      case Begin
      then show ?thesis using loop assms(3,4) by auto
    next
      case (Skip k ks)
      then show ?thesis using loop assms(4) by auto
    next
      case (Dispatch k ks root stack)
      then have "e = Dispatch d k" using loop by (simp add: next_event_def)
      then show ?thesis using loop Dispatch assms(3,4) by (cases "k = j") auto
    qed
  next
    case (leave d k u sp cpu)
    then show ?thesis
      using quiet [of "{k}"] running [of d k] leave_keeps_inv(2,3) [of s cpus d k u sp cpu t] assms(2) by auto
  next
    case (exec d k root r)
    then show ?thesis using quiet [of "{k}"] running [of d k] exec_keeps_inv(2) [of s cpus d k root r t] assms(2) by auto
  qed (use quiet [of "{}"] in \<open>auto intro: wakeup_frame kill_frame fork_frame wait1_frame(1) same_procs_frame\<close>)
qed

lemma sched_step_length:
  assumes "sched_step e (s, cpus) (t, cpus')" "sched_inv (s, cpus)"
  shows "length (procs t) = length (procs s)"
proof -
  have fr: "length (procs t) = length (procs s)" if "table_frame K s t" for K using that by (simp add: table_frame_def)
  show ?thesis
    using assms(1)
  proof (cases rule: sched_step.cases)
    case (loop d cpu)
    show ?thesis using assms(2) loop(3) by (cases rule: sched_next_run) (use loop in auto)
  next
    case (leave d k u sp cpu)
    then show ?thesis using fr leave_keeps_inv(2) [of s cpus d k u sp cpu t] assms(2) by auto
  next
    case (exec d k root r)
    then show ?thesis using fr exec_keeps_inv(2) [of s cpus d k root r t] assms(2) by auto
  qed (use fr in \<open>blast intro: wakeup_frame kill_frame fork_frame wait1_frame(1) same_procs_frame\<close>)+
qed

section \<open>A pass of the loop\<close>

text \<open>The entries processor \<open>c\<close> has come to, in order.\<close>

fun turns :: "nat \<Rightarrow> sched_event list \<Rightarrow> nat list" where
  "turns c [] = []"
| "turns c (Dispatch d k # es) = (if d = c then k # turns c es else turns c es)"
| "turns c (Skip d k # es) = (if d = c then k # turns c es else turns c es)"
| "turns c (_ # es) = turns c es"

lemma turns_append: "turns c (es @ fs) = turns c es @ turns c fs"
  by (induction c es rule: turns.induct) auto

lemma sched_step_todo:
  assumes "sched_step e (s, cpus) (t, cpus')" "sched_inv (s, cpus)" "e \<noteq> Begin c"
  shows "turns c [e] @ sc_todo (cpus' c) = sc_todo (cpus c)"
  using assms(1)
proof (cases rule: sched_step.cases)
  case (loop d cpu)
  show ?thesis using assms(2) loop(3) by (cases rule: sched_next_run) (use loop assms(3) in \<open>auto simp: next_event_def\<close>)
next
  case (leave d k u sp cpu)
  then show ?thesis using leave_keeps_inv(3) [of s cpus d k u sp cpu t] assms(2) by auto
qed auto

lemma sched_run_pass:
  assumes "sched_run x es y" "sched_inv x" "Begin c \<notin> set es"
  shows "sched_inv y \<and> length (procs (fst y)) = length (procs (fst x)) \<and>
    turns c es @ sc_todo (snd y c) = sc_todo (snd x c) \<and>
    (\<forall>k < length (procs (fst x)). p_state (procs (fst x) ! k) = RUNNABLE \<longrightarrow> k \<in> set (sc_todo (snd x c)) \<longrightarrow>
      (\<exists>d. Dispatch d k \<in> set es) \<or> p_state (procs (fst y) ! k) = RUNNABLE \<and> k \<in> set (sc_todo (snd y c)))"
  using assms
proof (induction rule: sched_run.induct)
  case (start x)
  then show ?case by simp
next
  case (more x es y e z)
  obtain s cpus t cpus' where yz: "y = (s, cpus)" "z = (t, cpus')" by (cases y, cases z)
  have IH: "sched_inv y" "length (procs s) = length (procs (fst x))"
    "turns c es @ sc_todo (cpus c) = sc_todo (snd x c)"
    "\<And>k. k < length (procs (fst x)) \<Longrightarrow> p_state (procs (fst x) ! k) = RUNNABLE \<Longrightarrow> k \<in> set (sc_todo (snd x c)) \<Longrightarrow>
      (\<exists>d. Dispatch d k \<in> set es) \<or> p_state (procs s ! k) = RUNNABLE \<and> k \<in> set (sc_todo (cpus c))"
    using more by (simp_all add: yz)
  note st = more(2) [unfolded yz] and inv = IH(1) [unfolded yz]
  have "turns c (es @ [e]) @ sc_todo (cpus' c) = sc_todo (snd x c)"
    using sched_step_todo [OF st inv, of c] more.prems(2) IH(3) by (auto simp: turns_append)
  moreover have "(\<exists>d. Dispatch d k \<in> set (es @ [e])) \<or> p_state (procs t ! k) = RUNNABLE \<and> k \<in> set (sc_todo (cpus' c))"
    if "k < length (procs (fst x))" "p_state (procs (fst x) ! k) = RUNNABLE" "k \<in> set (sc_todo (snd x c))" for k
    using IH(4) [OF that] sched_step_runnable [OF st inv, of k c] that(1) IH(2) by auto
  ultimately show ?case
    using sched_step_inv [OF more(2) IH(1)] sched_step_length [OF st inv] IH(2) by (simp add: yz)
qed

text \<open>
  C22: The scheduler starves no one within a pass, with any number of processors running it. Let
  processor \<open>c\<close> begin a pass in a state where each processor is in its loop or runs a process of its
  own and every process past its creation has a page table, a stack and a context. Then for every
  sequence of steps up to its next pass, of this processor, of the loops of the others, and of the
  processes and handlers, which sleep, wake, kill, fork, exit, wait, replace their address space and
  change the rest of the kernel at will: \<open>c\<close> comes to the entries of the table in order, each once, and
  each that it has come to and that was runnable when the pass began has been given a processor since,
  by \<open>c\<close> or another; a processor in its loop can take its next step, without a panic; no process runs on
  two processors; and each processor is on the page table and the interrupt stack of its process, or,
  in its loop, on the kernel's page table.
\<close>
theorem scheduler_runs_all:
  assumes "sched_inv (s, cpus)" "sc_todo (cpus c) = [0..<length (procs s)]"
    and "sched_run (s, cpus) es (t, cpus')" "Begin c \<notin> set es"
  shows "turns c es @ sc_todo (cpus' c) = [0..<length (procs s)] \<and>
    (\<forall>k \<in> set (turns c es). p_state (procs s ! k) = RUNNABLE \<longrightarrow> (\<exists>d. Dispatch d k \<in> set es)) \<and>
    (\<forall>d. sc_proc (cpus' d) = None \<longrightarrow> (\<exists>cpu u. sched_next (cpus' d) t = (Ok cpu, u))) \<and>
    (\<forall>d e k. sc_proc (cpus' d) = Some k \<longrightarrow> sc_proc (cpus' e) = Some k \<longrightarrow> d = e) \<and> (\<forall>d. cpu_at t (cpus' d))"
proof -
  have end_inv: "sched_inv (t, cpus')" and visits: "turns c es @ sc_todo (cpus' c) = [0..<length (procs s)]"
    and ran: "\<And>k. k < length (procs s) \<Longrightarrow> p_state (procs s ! k) = RUNNABLE \<Longrightarrow>
      (\<exists>d. Dispatch d k \<in> set es) \<or> k \<in> set (sc_todo (cpus' c))"
    using sched_run_pass [OF assms(3,1,4)] assms(2) by auto
  have "distinct (turns c es @ sc_todo (cpus' c))" "set (turns c es) \<subseteq> {..<length (procs s)}"
    using arg_cong [OF visits, of distinct] arg_cong [OF visits, of set] by auto
  then have "\<exists>d. Dispatch d k \<in> set es" if "k \<in> set (turns c es)" "p_state (procs s ! k) = RUNNABLE" for k
    using ran [of k] that by auto
  moreover have "\<exists>cpu u. sched_next (cpus' d) t = (Ok cpu, u)" if "sc_proc (cpus' d) = None" for d
    using end_inv that by (cases rule: sched_next_run) auto
  ultimately show ?thesis using end_inv visits by (simp add: sched_inv_def)
qed

text \<open>Two runnable processes and processors that all begin a pass; a run in which two of them share the work.\<close>

definition two_procs :: "pstate \<Rightarrow> pstate \<Rightarrow> proc_state" where
  "two_procs a b = family_kernel\<lparr>procs :=
     [proc_new\<lparr>p_state := a, p_pid := 1, pd_pgtbl := Some 0x11000, pd_kstack := Some 0x10000, pd_context := 0x10EE0\<rparr>,
      proc_new\<lparr>p_state := b, p_pid := 2, pd_pgtbl := Some 0x13000, pd_kstack := Some 0x12000, pd_context := 0x12EE0\<rparr>]\<rparr>"

definition demo_cpu :: "nat list \<Rightarrow> nat option \<Rightarrow> u64 \<Rightarrow> u64 \<Rightarrow> u64 \<Rightarrow> sched_cpu" where
  "demo_cpu todo pr st r0 root = \<lparr>sc_todo = todo, sc_proc = pr, sc_kstack = st, sc_rsp0 = r0, sc_cr3 = addr_to_phys root\<rparr>"

definition two_cpus :: "sched_cpu \<Rightarrow> sched_cpu \<Rightarrow> nat \<Rightarrow> sched_cpu" where
  "two_cpus c d = (\<lambda>_. demo_cpu [0, 1] None 0 0 0x1000)(0 := c, 1 := d)"

definition two_events :: "sched_event list" where
  "two_events = [Dispatch 0 0, Skip 1 0, Dispatch 1 1, Leave 0 0, Skip 0 1]"

lemma family_kroot: "kroot family_kernel = 0x1000"
  by (simp add: family_kernel_def file_state.defs proc_state.defs)

lemma two_cpus_upd: "two_cpus c d 0 = c" "two_cpus c d (Suc 0) = d" "(two_cpus c d)(0 := x) = two_cpus x d" "(two_cpus c d)(Suc 0 := x) = two_cpus c x"
  by (auto simp: two_cpus_def fun_eq_iff)

lemmas two_sims = two_procs_def demo_cpu_def sched_next_def sched_dispatch_def sched_set_proc_def load_pgtbl_def
  switch_cr3_def kstack_top_def getp_def modp_def kop_direct bnd_run seqk_run basic_run proc_new_def

lemma loop_step:
  assumes "sc_proc (cpus c) = None" "sched_next (cpus c) s = (Ok cpu, t)" "e = next_event c (cpus c) s" "cpus' = cpus(c := cpu)"
  shows "sched_step e (s, cpus) (t, cpus')"
  using sched_step.loop [of cpus c s cpu t] assms by simp

lemma two_run:
  "sched_run (two_procs RUNNABLE RUNNABLE, two_cpus (demo_cpu [0, 1] None 0 0 0x1000) (demo_cpu [0, 1] None 0 0 0x1000))
     two_events (two_procs RUNNABLE RUNNING,
       two_cpus (demo_cpu [] None 0x11000 0 0x1000) (demo_cpu [] (Some 1) 0x13000 0x13000 0x13000))"
proof -
  let ?i = "demo_cpu [0, 1] None 0 0 0x1000" and ?b0 = "demo_cpu [1] (Some 0) 0x11000 0x11000 0x11000"
  let ?b1 = "demo_cpu [] (Some 1) 0x13000 0x13000 0x13000"
  have 1: "sched_step (Dispatch 0 0) (two_procs RUNNABLE RUNNABLE, two_cpus ?i ?i) (two_procs RUNNING RUNNABLE, two_cpus ?b0 ?i)"
    by (rule loop_step [of _ 0 _ ?b0]) (simp_all add: two_cpus_upd next_event_def two_sims)
  have 2: "sched_step (Skip 1 0) (two_procs RUNNING RUNNABLE, two_cpus ?b0 ?i)
      (two_procs RUNNING RUNNABLE, two_cpus ?b0 (demo_cpu [1] None 0 0 0x1000))"
    by (rule loop_step [of _ 1 _ "demo_cpu [1] None 0 0 0x1000"]) (simp_all add: two_cpus_upd next_event_def two_sims)
  have 3: "sched_step (Dispatch 1 1) (two_procs RUNNING RUNNABLE, two_cpus ?b0 (demo_cpu [1] None 0 0 0x1000))
      (two_procs RUNNING RUNNING, two_cpus ?b0 ?b1)"
    by (rule loop_step [of _ 1 _ ?b1]) (simp_all add: two_cpus_upd next_event_def two_sims)
  have "gives_up 0 (two_procs RUNNING RUNNING) (two_procs RUNNABLE RUNNING)"
    by (simp add: gives_up_def sched_yield_def sched_def two_sims assertk_run)
  moreover have "sched_back 0 0x10EE0 ?b0 (two_procs RUNNABLE RUNNING) =
      (Ok (demo_cpu [1] None 0x11000 0 0x1000), two_procs RUNNABLE RUNNING)"
    by (simp add: sched_back_def sched_clear_proc_def two_sims family_kroot)
  ultimately have 4: "sched_step (Leave 0 0) (two_procs RUNNING RUNNING, two_cpus ?b0 ?b1)
      (two_procs RUNNABLE RUNNING, two_cpus (demo_cpu [1] None 0x11000 0 0x1000) ?b1)"
    using sched_step.leave [of "two_cpus ?b0 ?b1" 0 0 _ "two_procs RUNNABLE RUNNING" "0x10EE0"]
    by (simp add: two_cpus_upd) (simp add: demo_cpu_def)
  have 5: "sched_step (Skip 0 1) (two_procs RUNNABLE RUNNING, two_cpus (demo_cpu [1] None 0x11000 0 0x1000) ?b1)
      (two_procs RUNNABLE RUNNING, two_cpus (demo_cpu [] None 0x11000 0 0x1000) ?b1)"
    by (rule loop_step [of _ 0 _ "demo_cpu [] None 0x11000 0 0x1000"]) (simp_all add: two_cpus_upd next_event_def two_sims)
  show ?thesis
    using sched_run.more [OF sched_run.more [OF sched_run.more [OF sched_run.more [OF sched_run.more
      [OF sched_run.start 1] 2] 3] 4] 5] by (simp add: two_events_def)
qed

theorem scheduler_runs_all_witness:
  "turns 0 two_events = [0, 1] \<and> (\<exists>d. Dispatch d 0 \<in> set two_events) \<and> (\<exists>d. Dispatch d 1 \<in> set two_events)"
proof -
  let ?i = "demo_cpu [0, 1] None 0 0 0x1000" and ?s = "two_procs RUNNABLE RUNNABLE"
  have "sched_inv (?s, two_cpus ?i ?i)"
    by (auto simp: sched_inv_def cpu_at_def two_cpus_def demo_cpu_def two_procs_def proc_ok_def initialized_def
        family_kroot proc_new_def less_Suc_eq)
  moreover have "sc_todo (two_cpus ?i ?i 0) = [0..<length (procs ?s)]"
    by (simp add: two_cpus_def demo_cpu_def two_procs_def upt_rec)
  moreover have "Begin 0 \<notin> set two_events" by (simp add: two_events_def)
  ultimately have "\<forall>k \<in> set (turns 0 two_events). p_state (procs ?s ! k) = RUNNABLE \<longrightarrow> (\<exists>d. Dispatch d k \<in> set two_events)"
    using scheduler_runs_all [OF _ _ two_run] by blast
  moreover have "turns 0 two_events = [0, 1]" by (simp add: two_events_def)
  ultimately show ?thesis by (simp add: two_procs_def proc_new_def)
qed

end
