(* ===== verification/Sysfile.thy ===== *)
theory Sysfile
  imports Exec
begin

text \<open>
  The system calls on files (\<open>kernel/src/sysfile.rs\<close>), made by the process with table index \<open>k\<close>: they
  fetch their arguments from user memory, act on files, inodes and descriptors, and undo what they have
  done when a later step fails, by guards that close or unlock when they go out of scope. A call that
  has to wait returns \<open>None\<close>: the model follows a call up to where it sleeps.
\<close>

section \<open>Arguments\<close>

definition ok_or :: "string \<Rightarrow> ('s, 'r option) kop \<Rightarrow> ('s, 'r) kop" where
  "ok_or msg m = bnd m (\<lambda>r. case r of None \<Rightarrow> throw msg | Some x \<Rightarrow> ret x)"

abbreviation (input) O_READ :: usize where "O_READ \<equiv> 0"
abbreviation (input) O_WRITE :: usize where "O_WRITE \<equiv> 1"
abbreviation (input) O_RDWR :: usize where "O_RDWR \<equiv> 2"
abbreviation (input) O_CREATE :: usize where "O_CREATE \<equiv> 0x200"

definition parse_flags :: "usize \<Rightarrow> (open_flags \<times> bool) res" where
  "parse_flags fl =
     (let create = (fl AND O_CREATE = O_CREATE); mode = fl AND NOT O_CREATE
      in if mode = O_READ then Ok (Read, create)
         else if mode = O_WRITE then Ok (Write, create)
         else if mode = O_RDWR then Ok (ReadWrite, create)
         else Err ''bad open mode'')"

section \<open>Files and descriptors\<close>

definition open_like :: "nat \<Rightarrow> open_flags \<Rightarrow> ('a proc_state_scheme, like) kop" where
  "open_like ip mode = bnd (inode_typ ip) (\<lambda>ty.
     if ty = Dir \<and> mode \<noteq> Read then throw ''open writeable dir''
     else if ty = Dir \<or> ty = File then ret (LInode ip)
     else if ty = Dev then bnd (geti ip (\<lambda>i. di_major (i_dinode i))) (\<lambda>mj. lift_res (\<lambda>_. devsw mj))
     else throw ''opening file type none'')"

text \<open>The part of \<open>open\<close> under the inode's guard; the file's guard closes the file again.\<close>

definition open_fd :: "nat \<Rightarrow> nat \<Rightarrow> open_flags \<Rightarrow> ('a proc_state_scheme, nat) kop" where
  "open_fd k ip mode = bnd (open_like ip mode) (\<lambda>l.
     bnd (ok_or ''cannot allocate file'' (file_alloc mode l)) (\<lambda>f.
     bnd (alloc_fd k f) (\<lambda>r. case r of
       None \<Rightarrow> seqk (file_close f) (throw ''cannot allocate file descriptor'')
     | Some fd \<Rightarrow> ret fd)))"

definition sys_open :: "nat \<Rightarrow> usize \<Rightarrow> usize \<Rightarrow> ('a proc_state_scheme, nat) kop" where
  "sys_open k path_ptr fl =
     bnd (ok_or ''bad path'' (fetch_str k path_ptr)) (\<lambda>path.
     bnd (lift_res (\<lambda>_. parse_flags fl)) (\<lambda>(mode, crt).
     as_proc k (with_op (
       bnd (if crt then create path CFile
            else bnd (namei path) (\<lambda>ip. seqk (inode_lock ip) (ret ip))) (\<lambda>ip.
       bnd (guard_err ip (open_fd k ip mode)) (\<lambda>fd.
       seqk (inode_unlock ip) (ret fd)))))))"

definition sys_close :: "nat \<Rightarrow> usize \<Rightarrow> ('a proc_state_scheme, unit) kop" where
  "sys_close k fd = bnd (free_fd k fd) (\<lambda>r. case r of
     Some f \<Rightarrow> as_proc k (file_close f) | None \<Rightarrow> throw ''bad file descriptor'')"

text \<open>The slice of user memory that \<open>write\<close> passes down is read when the call is made.\<close>

definition sys_write :: "nat \<Rightarrow> usize \<Rightarrow> usize \<Rightarrow> usize \<Rightarrow> ('a proc_state_scheme, nat option) kop" where
  "sys_write k fd addr len =
     bnd (ok_or ''bad file'' (get_fd k fd)) (\<lambda>f.
     seqk (ok_or ''bad pointer'' (fetch_slice k addr len))
     (bnd (getp k root_of) (\<lambda>root.
      bnd (lift_res (\<lambda>s. hw_loads root addr (unat len) (mem s))) (\<lambda>buf.
      bnd (as_proc k (file_write f buf)) (\<lambda>r. case r of
        Done _ \<Rightarrow> ret (Some (length buf)) | Sleep _ \<Rightarrow> ret None)))))"

definition sys_read :: "nat \<Rightarrow> usize \<Rightarrow> usize \<Rightarrow> usize \<Rightarrow> ('a proc_state_scheme, nat option) kop" where
  "sys_read k fd addr len =
     bnd (ok_or ''bad file'' (get_fd k fd)) (\<lambda>f.
     seqk (ok_or ''bad pointer'' (fetch_slice_mut k addr len))
     (bnd (getp k root_of) (\<lambda>root.
      bnd (as_proc k (file_read f (unat len))) (\<lambda>r. case r of
        Done bs \<Rightarrow> seqk (on_mem (hw_stores root addr bs)) (ret (Some (length bs)))
      | Sleep bs \<Rightarrow> seqk (on_mem (hw_stores root addr bs)) (ret None)))))"

text \<open>\<open>args\<close> has \<open>MAXARG - n\<close> elements so far; the loop reads one pointer more than it takes.\<close>

fun fetch_args :: "nat \<Rightarrow> usize \<Rightarrow> nat \<Rightarrow> ('a proc_state_scheme, bytes list) kop" where
  "fetch_args k args_ptr n =
     seqk (assertk (unat args_ptr + (MAXARG - n) * 8 < 2 ^ 64) ''attempt to add with overflow'')
     (bnd (ok_or ''bad argv'' (fetch_usize k (args_ptr + of_nat ((MAXARG - n) * 8)))) (\<lambda>p.
      case n of 0 \<Rightarrow> ret []
      | Suc m \<Rightarrow> if p = 0 then ret []
          else bnd (ok_or ''bad argument'' (fetch_str k p)) (\<lambda>arg.
            bnd (fetch_args k args_ptr m) (\<lambda>args. ret (arg # args)))))"

declare fetch_args.simps [simp del]

definition sys_exec :: "nat \<Rightarrow> usize \<Rightarrow> usize \<Rightarrow> ('a proc_state_scheme, unit) kop" where
  "sys_exec k path_ptr args_ptr =
     bnd (ok_or ''bad path'' (fetch_str k path_ptr)) (\<lambda>path.
     bnd (fetch_args k args_ptr MAXARG) (\<lambda>args. exec k path args))"

text \<open>The 32 bytes of a \<open>Stat\<close>; the four behind the link count belong to no field.\<close>

definition stat_bytes :: "bytes \<Rightarrow> stat \<Rightarrow> bytes" where
  "stat_bytes pad st = to_le 4 (unat (file_type_num (st_typ st))) @ to_le 4 (unat (st_dev st)) @ to_le 8 (unat (st_ino st)) @
     to_le 4 (unat (st_nlink st)) @ pad @ to_le 8 (unat (st_size st))"

definition sys_stat :: "bytes \<Rightarrow> nat \<Rightarrow> usize \<Rightarrow> usize \<Rightarrow> ('a proc_state_scheme, unit) kop" where
  "sys_stat pad k fd addr =
     bnd (ok_or ''bad file'' (get_fd k fd)) (\<lambda>f.
     bnd (as_proc k (file_stat f)) (\<lambda>st.
     seqk (ok_or ''bad pointer'' (fetch_slice_mut k addr 32))
     (bnd (getp k root_of) (\<lambda>root. on_mem (hw_stores root addr (stat_bytes pad st))))))"

definition sys_dup :: "nat \<Rightarrow> usize \<Rightarrow> ('a proc_state_scheme, nat) kop" where
  "sys_dup k fd =
     bnd (ok_or ''bad file'' (get_fd k fd)) (\<lambda>f.
     bnd (ok_or ''cannot allocate file descriptor'' (alloc_fd k f)) (\<lambda>nfd.
     seqk (file_dup f) (ret nfd)))"

text \<open>The guards of the two files go out of scope in the opposite order of their creation.\<close>

definition drop_files :: "nat \<Rightarrow> nat \<Rightarrow> nat \<Rightarrow> ('a proc_state_scheme, unit) kop" where
  "drop_files k r w = seqk (as_proc k (file_close w)) (as_proc k (file_close r))"

definition sys_pipe :: "nat \<Rightarrow> usize \<Rightarrow> ('a proc_state_scheme, unit) kop" where
  "sys_pipe k fd_ptr =
     bnd (ok_or ''bad pipe pointer'' (fetch_ptr_mut 4 k fd_ptr 2)) (\<lambda>fds_ptr.
     bnd (as_proc k pipe_alloc) (\<lambda>(r, w).
     bnd (alloc_fd k r) (\<lambda>rr. case rr of
       None \<Rightarrow> seqk (drop_files k r w) (throw ''cannot allocate pipe read descriptor'')
     | Some rfd \<Rightarrow> bnd (alloc_fd k w) (\<lambda>ww. case ww of
         None \<Rightarrow> seqk (free_fd k (of_nat rfd))
           (seqk (drop_files k r w) (throw ''cannot allocate pipe write descriptor''))
       | Some wfd \<Rightarrow> bnd (getp k root_of) (\<lambda>root.
           seqk (on_mem (hw_stores root fds_ptr (to_le 4 rfd)))
             (on_mem (hw_stores root (fds_ptr + 4) (to_le 4 wfd))))))))"

section \<open>Names\<close>

definition link_undo :: "nat \<Rightarrow> string \<Rightarrow> ('a fs_state_scheme, unit) kop" where
  "link_undo ip msg = with_putlock ip (\<lambda>ip.
     seqk (nlink_dec ip) (seqk (catchk (inode_update ip) ret (\<lambda>_. ret ())) (throw msg)))"

definition link_to :: "nat \<Rightarrow> u32 \<Rightarrow> u64 \<Rightarrow> nat \<times> bytes \<Rightarrow> ('a fs_state_scheme, unit) kop" where
  "link_to ip dev inum = (\<lambda>(dp, name).
     seqk (inode_lock dp)
     (bnd (geti dp i_dev) (\<lambda>ddev.
      seqk (guard_err dp (if ddev \<noteq> dev then link_undo ip ''cross-device link''
              else catchk (dir_link dp name inum) ret (link_undo ip)))
      (seqk (drop_guard dp) (inode_put ip)))))"

definition sys_link :: "nat \<Rightarrow> usize \<Rightarrow> usize \<Rightarrow> ('a proc_state_scheme, unit) kop" where
  "sys_link k path_ptr new_path_ptr =
     bnd (ok_or ''bad path'' (fetch_str k path_ptr)) (\<lambda>path.
     bnd (ok_or ''bad new path'' (fetch_str k new_path_ptr)) (\<lambda>new_name.
     as_proc k (with_op (
       bnd (namei path) (\<lambda>ip.
       seqk (inode_lock ip)
       (seqk (guard_err ip (bnd (inode_typ ip) (\<lambda>ty.
           if ty = Dir then throw ''link dir'' else seqk (nlink_inc ip) (inode_update ip))))
       (bnd (geti ip (\<lambda>i. (i_dev i, i_inum i))) (\<lambda>(dev, inum).
       seqk (inode_unlock ip)
       (bnd (namei_parent new_name) (link_to ip dev inum)))))))))) "

definition sys_unlink :: "nat \<Rightarrow> usize \<Rightarrow> ('a proc_state_scheme, unit) kop" where
  "sys_unlink k path_ptr =
     bnd (ok_or ''bad path'' (fetch_str k path_ptr)) (\<lambda>path.
     as_proc k (with_op (bnd (namei_parent path) (\<lambda>(dp, name).
       if name = [0x2E] \<or> name = [0x2E, 0x2E] then throw ''unlink . or ..''
       else dir_unlink dp name))))"

definition sys_create :: "create_type \<Rightarrow> nat \<Rightarrow> usize \<Rightarrow> ('a proc_state_scheme, unit) kop" where
  "sys_create ty k path_ptr =
     bnd (ok_or ''bad path'' (fetch_str k path_ptr)) (\<lambda>path.
     as_proc k (with_op (bnd (create path ty) unlock_put)))"

definition sys_mkdir :: "nat \<Rightarrow> usize \<Rightarrow> ('a proc_state_scheme, unit) kop" where
  "sys_mkdir = sys_create CDir"

definition sys_mknod :: "nat \<Rightarrow> usize \<Rightarrow> u32 \<Rightarrow> u32 \<Rightarrow> ('a proc_state_scheme, unit) kop" where
  "sys_mknod k path_ptr major minor = sys_create (CDev major minor) k path_ptr"

definition sys_chdir :: "nat \<Rightarrow> usize \<Rightarrow> ('a proc_state_scheme, unit) kop" where
  "sys_chdir k path_ptr =
     bnd (ok_or ''bad path'' (fetch_str k path_ptr)) (\<lambda>path.
     bnd (as_proc k (with_op (
       bnd (namei path) (\<lambda>ip.
       seqk (inode_lock ip)
       (seqk (guard_err ip (bnd (inode_typ ip) (\<lambda>ty.
           if ty \<noteq> Dir then throw ''chdir to non-directory'' else ret ())))
       (seqk (inode_unlock ip)
       (bnd (proc_cwd k) (\<lambda>cw.
       seqk (catchk (inode_put cw) ret (\<lambda>_. ret ())) (ret ip))))))))) (\<lambda>ip.
     modp k (\<lambda>p. p\<lparr>p_cwd := Some ip\<rparr>)))"

end
