(* ===== verification/Syscall.thy ===== *)
theory Syscall
  imports Sysfile
begin

text \<open>
  Traps (\<open>kernel/src/trap.rs\<close>) and the dispatch of system calls (\<open>kernel/src/syscall.rs\<close>). The state is
  extended by the clock. What the devices deliver with an interrupt (the bytes of the keyboard and of
  the serial line, the completion of a disk transfer) is an argument.
\<close>

section \<open>Time\<close>

record trap_state = proc_state +
  ticks :: u64
  tickchan :: usize
  eois :: nat

text \<open>One round of the loop of \<open>ticksleep\<close>: it is over, or the process sleeps until the next tick.\<close>

definition ticksleep_round :: "nat \<Rightarrow> u64 \<Rightarrow> u64 \<Rightarrow> ('a trap_state_scheme, bool) kop" where
  "ticksleep_round k ticks0 nticks = bnd (gets ticks) (\<lambda>t.
     seqk (assertk (ticks0 \<le> t) ''attempt to subtract with overflow'')
     (if t - ticks0 < nticks then
        bnd (getp k p_killed) (\<lambda>d. if d then throw ''killed''
          else bnd (gets tickchan) (\<lambda>c. seqk (psleep k c) (ret False)))
      else ret True))"

definition ticksleep :: "nat \<Rightarrow> u64 \<Rightarrow> ('a trap_state_scheme, bool) kop" where
  "ticksleep k nticks = bnd (gets ticks) (\<lambda>t0. ticksleep_round k t0 nticks)"

definition tick :: "('a trap_state_scheme, unit) kop" where
  "tick = seqk (modify (\<lambda>s. s\<lparr>ticks := ticks s + 1\<rparr>)) (bnd (gets tickchan) wakeup)"

section \<open>Traps\<close>

abbreviation (input) INTR0 :: nat where "INTR0 \<equiv> 32"
abbreviation (input) KBD_INTR :: nat where "KBD_INTR \<equiv> INTR0 + 1"
abbreviation (input) EIA0_INTR :: nat where "EIA0_INTR \<equiv> INTR0 + 4"
abbreviation (input) TIMER_INTR :: nat where "TIMER_INTR \<equiv> INTR0 + 8"
abbreviation (input) SD_INTR :: nat where "SD_INTR \<equiv> INTR0 + 14"
abbreviation (input) PAGE_FAULT :: nat where "PAGE_FAULT \<equiv> 14"

definition eoi :: "('a trap_state_scheme, unit) kop" where
  "eoi = modify (\<lambda>s. s\<lparr>eois := eois s + 1\<rparr>)"

definition dev_interrupt :: "bytes \<Rightarrow> bytes \<Rightarrow> ('a trap_state_scheme, unit) kop" where
  "dev_interrupt dump bs = seqk (on_cons (console_interrupt dump bs)) eoi"

definition kill_me :: "nat option \<Rightarrow> ('a trap_state_scheme, unit) kop" where
  "kill_me me = (case me of None \<Rightarrow> panic ''myproc called with no proc''
     | Some k \<Rightarrow> modp k (\<lambda>p. p\<lparr>p_killed := True\<rparr>))"

text \<open>The \<open>match\<close> on the vector; \<open>me\<close> is the process of the processor, if it runs one.\<close>

definition trap_vector :: "(('a trap_state_scheme, unit) kop) \<Rightarrow> bytes \<Rightarrow> bytes \<Rightarrow> u32 \<Rightarrow> nat option \<Rightarrow> nat \<Rightarrow> bool
    \<Rightarrow> ('a trap_state_scheme, unit) kop" where
  "trap_vector sd_interrupt dump input cpu me vecnum user =
     (if vecnum = PAGE_FAULT then
        if \<not> user then panic ''page fault'' else kill_me me
      else if vecnum = KBD_INTR \<or> vecnum = EIA0_INTR then
        seqk (assertk (cpu = 0) ''assertion failed'') (dev_interrupt dump input)
      else if vecnum = TIMER_INTR then seqk (if cpu = 0 then tick else ret ()) eoi
      else if vecnum = SD_INTR then seqk (assertk (cpu = 0) ''assertion failed'') sd_interrupt
      else if \<not> user \<or> me = None then panic ''unanticipated interrupt'' else kill_me me)"

text \<open>
  How \<open>trap\<close> leaves the processor: back to what was interrupted, into the scheduler (with
  \<open>trap_resume\<close> to do when the process runs again), or with the process gone.
\<close>

datatype trap_end = Returns | Yields | Exits

definition trap_resume :: "nat option \<Rightarrow> bool \<Rightarrow> ('a trap_state_scheme, trap_end) kop" where
  "trap_resume me user =
     (if user then bnd (die_if_dead me) (\<lambda>gone. ret (if gone then Exits else Returns)) else ret Returns)"

definition trap :: "(('a trap_state_scheme, unit) kop) \<Rightarrow> bytes \<Rightarrow> bytes \<Rightarrow> u32 \<Rightarrow> nat option \<Rightarrow> nat \<Rightarrow> trap_frame
    \<Rightarrow> ('a trap_state_scheme, trap_end) kop" where
  "trap sd_interrupt dump input cpu me vecnum frame =
     seqk (trap_vector sd_interrupt dump input cpu me vecnum (is_user frame))
     (bnd (if is_user frame then die_if_dead me else ret False) (\<lambda>gone.
      if gone then ret Exits
      else bnd (if vecnum = TIMER_INTR then yield_if_running me else ret False) (\<lambda>yielded.
        if yielded then ret Yields else trap_resume me (is_user frame))))"

section \<open>System calls\<close>

text \<open>
  The value for the user: \<open>map_or(-1, ...)\<close>. A call that sleeps or does not return gives \<open>None\<close>.
\<close>

definition or_minus1 :: "('s, u64 option) kop \<Rightarrow> ('s, u64 option) kop" where
  "or_minus1 m = catchk m ret (\<lambda>_. ret (Some (- 1)))"

definition zero_or :: "('s, unit) kop \<Rightarrow> ('s, u64 option) kop" where
  "zero_or m = or_minus1 (seqk m (ret (Some 0)))"

definition to_i64 :: "nat \<Rightarrow> ('s, u64 option) kop" where
  "to_i64 v = seqk (assertk (v < 2 ^ 63) ''unwrap on Err'') (ret (Some (of_nat v)))"

definition pid_or :: "u32 option \<Rightarrow> u64" where
  "pid_or r = (case r of None \<Rightarrow> - 1 | Some pid \<Rightarrow> ucast pid)"

definition sys_call :: "bytes \<Rightarrow> nat \<Rightarrow> usize \<Rightarrow> usize \<Rightarrow> usize \<Rightarrow> nat \<Rightarrow> ('a trap_state_scheme, u64 option) kop" where
  "sys_call pad k a0 a1 a2 num =
     (if num = 1 then bnd (fork k) (\<lambda>r. ret (Some (pid_or r)))
      else if num = 2 then seqk (exit k (ucast a0)) (ret None)
      else if num = 3 then bnd (wait k a0) (\<lambda>r. ret (map_option pid_or r))
      else if num = 4 then zero_or (sys_pipe k a0)
      else if num = 5 then or_minus1 (bnd (sys_read k a0 a1 a2) (\<lambda>r. case r of None \<Rightarrow> ret None | Some n \<Rightarrow> to_i64 n))
      else if num = 6 then bnd (kill (ucast a0)) (\<lambda>r. ret (Some (case r of None \<Rightarrow> - 1 | Some _ \<Rightarrow> 0)))
      else if num = 7 then zero_or (sys_exec k a0 a1)
      else if num = 8 then zero_or (sys_stat pad k a0 a1)
      else if num = 9 then zero_or (sys_chdir k a0)
      else if num = 10 then or_minus1 (bnd (sys_dup k a0) to_i64)
      else if num = 11 then getp k (\<lambda>p. Some (ucast (p_pid p)))
      else if num = 12 then or_minus1 (bnd (adjsize k a0) (\<lambda>old. to_i64 (unat old)))
      else if num = 13 then or_minus1 (bnd (ticksleep k a0) (\<lambda>over. ret (if over then Some 0 else None)))
      else if num = 14 then gets (\<lambda>s. Some (ticks s))
      else if num = 15 then or_minus1 (bnd (sys_open k a0 a1) to_i64)
      else if num = 16 then or_minus1 (bnd (sys_write k a0 a1 a2) (\<lambda>r. case r of None \<Rightarrow> ret None | Some n \<Rightarrow> to_i64 n))
      else if num = 17 then zero_or (sys_mknod k a0 (ucast a1) (ucast a2))
      else if num = 18 then zero_or (sys_unlink k a0)
      else if num = 19 then zero_or (sys_link k a0 a1)
      else if num = 20 then zero_or (sys_mkdir k a0)
      else if num = 21 then zero_or (sys_close k a0)
      else ret (Some (- 1)))"

text \<open>\<open>syscall\<close>: a process killed during its call exits instead of returning.\<close>

definition syscall :: "bytes \<Rightarrow> nat \<Rightarrow> usize \<Rightarrow> usize \<Rightarrow> usize \<Rightarrow> nat \<Rightarrow> ('a trap_state_scheme, u64 option) kop" where
  "syscall pad k a0 a1 a2 num = bnd (sys_call pad k a0 a1 a2 num) (\<lambda>r. case r of
     None \<Rightarrow> ret None
   | Some v \<Rightarrow> bnd (getp k p_killed) (\<lambda>d. if d then seqk (exit k 1) (ret None) else ret (Some v)))"

end
