(* ===== verification/SyscallProps.thy ===== *)
theory SyscallProps
  imports Syscall
begin

text \<open>
  Properties of system calls and of time: descriptors and the references they hold, and that a
  process that sleeps for a number of ticks runs again after exactly as many.
\<close>

section \<open>Descriptors\<close>

lemma get_fd_run:
  "unat fd < length (p_files (procs s ! k)) \<Longrightarrow> get_fd k fd s = (Ok (p_files (procs s ! k) ! unat fd), s)"
  by (simp add: get_fd_def getp_def kop_simps)

lemma ok_or_run [kop_simps]: "m s = (Ok (Some x), t) \<Longrightarrow> ok_or msg m s = (Ok x, t)"
  by (simp add: ok_or_def kop_simps)

definition set_fd :: "nat \<Rightarrow> nat \<Rightarrow> nat option \<Rightarrow> 'a proc_state_scheme \<Rightarrow> 'a proc_state_scheme" where
  "set_fd k fd x s = s\<lparr>procs := (procs s)[k := (procs s ! k)\<lparr>p_files := (p_files (procs s ! k))[fd := x]\<rparr>]\<rparr>"

lemma alloc_fd_run:
  "position (\<lambda>x. x = None) (p_files (procs s ! k)) = Some n \<Longrightarrow>
   alloc_fd k f s = (Ok (Some n), set_fd k n (Some f) s)"
  by (simp add: alloc_fd_def getp_def modp_def set_fd_def kop_direct kop_simps)

lemma free_fd_run:
  "unat fd < length (p_files (procs s ! k)) \<Longrightarrow>
   free_fd k fd s = (Ok (p_files (procs s ! k) ! unat fd), set_fd k (unat fd) None s)"
  by (simp add: free_fd_def getp_def modp_def set_fd_def kop_direct kop_simps)

lemma set_fd_undo:
  assumes "k < length (procs s)" "n < length (p_files (procs s ! k))" "p_files (procs s ! k) ! n = None"
  shows "set_fd k n None (with_refs f c (set_fd k n (Some g) s)) = with_refs f c s"
proof -
  have "(p_files (procs s ! k))[n := None] = p_files (procs s ! k)" using assms(2,3) list_update_id by metis
  then show ?thesis using assms by (simp add: set_fd_def with_refs_def)
qed

text \<open>
  C34: \<open>dup\<close> and \<open>close\<close> on a descriptor. \<open>dup\<close> gives the lowest free descriptor, referring to the same
  open file, with the file's count one higher; closing the new descriptor frees it and takes the count
  back, without closing the file, so both tables are as they were before.
\<close>
theorem dup_close_restores:
  assumes k: "k < length (procs s)" and fd: "unat fd < length (p_files (procs s ! k))"
    "p_files (procs s ! k) ! unat fd = Some f" and f: "f < length (files s)"
    and free: "position (\<lambda>x. x = None) (p_files (procs s ! k)) = Some n" "length (p_files (procs s ! k)) \<le> NOFILE"
    and cnt: "0 < ref_cnt (files s ! f)" "unat (ref_cnt (files s ! f)) + 1 < 2 ^ 32"
  shows "\<exists>t u. sys_dup k fd s = (Ok n, t) \<and> p_files (procs t ! k) ! n = Some f \<and>
    ref_cnt (files t ! f) = ref_cnt (files s ! f) + 1 \<and>
    sys_close k (of_nat n) t = (Ok (), u) \<and> procs u = procs s \<and> files u = files s"
proof -
  let ?t = "with_refs f (ref_cnt (files s ! f) + 1) (set_fd k n (Some f) s)"
  have n: "n < length (p_files (procs s ! k))" "p_files (procs s ! k) ! n = None"
    using free(1) by (simp_all add: position_Some)
  then have un: "unat (of_nat n :: usize) = n" using free(2) by simp
  have fs: "files (set_fd k n (Some f) s) = files s" by (simp add: set_fd_def)
  have dup: "sys_dup k fd s = (Ok n, ?t)"
    using fd cnt(2) fs alloc_fd_run [OF free(1)] file_dup_run [of "set_fd k n (Some f) s" f]
    by (simp add: sys_dup_def get_fd_run ok_or_run bnd_run seqk_run basic_run)
  have pt: "p_files (procs ?t ! k) = (p_files (procs s ! k))[n := Some f]" "procs ?t = procs (set_fd k n (Some f) s)"
    using k by (simp_all add: set_fd_def with_refs_def)
  have free_run: "free_fd k (of_nat n) ?t = (Ok (Some f), with_refs f (ref_cnt (files s ! f) + 1) s)"
    using free_fd_run [of "of_nat n" ?t k] pt(1) n un set_fd_undo [OF k n] by simp
  let ?c = "ref_cnt (files s ! f)"
  have uc: "unat (?c + 1) = unat ?c + 1" using cnt(2) by (simp add: unat_word_ariths)
  have c1: "1 < ?c + 1" unfolding word_less_nat_alt uc using cnt(1) by (simp add: word_less_nat_alt)
  define v where "v = (with_refs f (?c + 1) s)\<lparr>curpid := p_pid (procs s ! k),
    cwd := (case p_cwd (procs s ! k) of Some ip \<Rightarrow> ip | None \<Rightarrow> cwd s), my_dead := p_killed (procs s ! k)\<rparr>"
  have v: "files v = (files s)[f := (files s ! f)\<lparr>ref_cnt := ?c + 1\<rparr>]" "procs v = procs s"
    by (simp_all add: v_def with_refs_def)
  have "as_proc k (file_close f) (with_refs f (?c + 1) s) = file_close f v"
    by (cases "p_cwd (procs s ! k)") (simp_all add: as_proc_def v_def with_refs_def)
  also have "\<dots> = (Ok (), with_refs f (?c + 1 - 1) v)"
    using file_close_shared [of f v] f v(1) c1 by simp
  finally have close: "sys_close k (of_nat n) ?t = (Ok (), with_refs f ?c v)"
    using free_run by (simp add: sys_close_def bnd_run)
  have "files (with_refs f ?c v) = files s" "procs (with_refs f ?c v) = procs s"
    using v f by (simp_all add: with_refs_def)
  moreover have "p_files (procs ?t ! k) ! n = Some f" "ref_cnt (files ?t ! f) = ?c + 1"
    using pt(1) n(1) f fs by (simp_all add: with_refs_def)
  ultimately show ?thesis using dup close by blast
qed

text \<open>A process with both ends of a pipe open.\<close>

definition piped_kernel :: trap_state where
  "piped_kernel = proc_state.extend (family_kernel\<lparr>procs := (procs family_kernel)[2 :=
       (procs family_kernel ! 2)\<lparr>p_files := [Some 0, Some 1] @ replicate 62 None\<rparr>]\<rparr>)
     (trap_state.fields 100 0x99000 0)"

lemma piped_fields:
  "length (procs piped_kernel) = NPROC" "p_files (procs piped_kernel ! 2) = [Some 0, Some 1] @ replicate 62 None"
  "files piped_kernel = files pipe_kernel" "p_state (procs piped_kernel ! 2) = RUNNING"
  "p_killed (procs piped_kernel ! 2) = False" "ticks piped_kernel = 100" "tickchan piped_kernel = 0x99000"
  by (simp_all add: piped_kernel_def family_kernel_def proc_new_def file_state.defs proc_state.defs trap_state.defs)

theorem dup_close_restores_witness:
  "\<exists>t u. sys_dup 2 0 piped_kernel = (Ok 2, t) \<and> p_files (procs t ! 2) ! 2 = Some 0 \<and>
    sys_close 2 2 t = (Ok (), u) \<and> files u = files pipe_kernel"
proof -
  have "position (\<lambda>x. x = None) (replicate 62 None) = Some 0" by (simp add: position_Some)
  then show ?thesis using dup_close_restores [of 2 piped_kernel 0 0 2] pipe_kernel_files by (auto simp: piped_fields)
qed

section \<open>Sleeping for a number of ticks\<close>

text \<open>
  The rounds of \<open>ticksleep\<close> with the ticks between them: the results of \<open>n\<close> rounds, each followed by a
  tick, and of the round after them.
\<close>

fun sleep_rounds :: "nat \<Rightarrow> u64 \<Rightarrow> u64 \<Rightarrow> nat \<Rightarrow> ('a trap_state_scheme, bool list) kop" where
  "sleep_rounds k t0 nticks 0 = bnd (ticksleep_round k t0 nticks) (\<lambda>b. ret [b])"
| "sleep_rounds k t0 nticks (Suc n) = bnd (ticksleep_round k t0 nticks) (\<lambda>b.
     seqk tick (bnd (sleep_rounds k t0 nticks n) (\<lambda>bs. ret (b # bs))))"

definition asleep :: "nat \<Rightarrow> 'a trap_state_scheme \<Rightarrow> 'a trap_state_scheme" where
  "asleep k s = s\<lparr>procs := (procs s)[k := (procs s ! k)\<lparr>p_state := SLEEPING (tickchan s)\<rparr>]\<rparr>"

lemma ticksleep_round_sleeps:
  assumes "k < length (procs s)" "\<not> p_killed (procs s ! k)" "t0 \<le> ticks s" "ticks s - t0 < n"
  shows "ticksleep_round k t0 n s = (Ok False, asleep k s)"
  using assms by (simp add: ticksleep_round_def getp_def modp_def psleep_def sched_def asleep_def kop_direct kop_simps)

lemma ticksleep_round_over:
  "t0 \<le> ticks s \<Longrightarrow> n \<le> ticks s - t0 \<Longrightarrow> ticksleep_round k t0 n s = (Ok True, s)"
  by (simp add: ticksleep_round_def kop_direct kop_simps not_less)

lemma tick_run:
  "tick s = (Ok (), s\<lparr>ticks := ticks s + 1, procs := map (wake_one (tickchan s)) (procs s)\<rparr>)"
  by (simp add: tick_def wakeup_def wakeup1_def kop_direct kop_simps)

lemma tick_wakes:
  assumes "k < length (procs s)"
  obtains u where "tick (asleep k s) = (Ok (), u)" "ticks u = ticks s + 1" "tickchan u = tickchan s"
    "length (procs u) = length (procs s)" "procs u ! k = (procs s ! k)\<lparr>p_state := RUNNABLE\<rparr>"
  using assms by (intro that [OF tick_run]) (simp_all add: asleep_def wake_one_def)

lemma sleep_rounds_run:
  assumes "k < length (procs s)" "\<not> p_killed (procs s ! k)" "t0 \<le> ticks s" "unat (ticks s - t0) + n = unat nticks"
    "unat t0 + unat nticks < 2 ^ 64"
  shows "\<exists>u. sleep_rounds k t0 nticks n s = (Ok (replicate n False @ [True]), u) \<and> ticks u = ticks s + of_nat n \<and>
    (0 < n \<longrightarrow> p_state (procs u ! k) = RUNNABLE)"
  using assms
proof (induction n arbitrary: s)
  case 0
  then have "nticks \<le> ticks s - t0" by (simp add: word_le_nat_alt)
  then show ?case using 0 by (simp add: ticksleep_round_over bnd_run basic_run)
next
  case (Suc n)
  have "ticks s - t0 < nticks" using Suc.prems(4) by (simp add: word_less_nat_alt)
  then have round: "ticksleep_round k t0 nticks s = (Ok False, asleep k s)"
    using Suc.prems by (intro ticksleep_round_sleeps)
  obtain u where u: "tick (asleep k s) = (Ok (), u)" "ticks u = ticks s + 1" "tickchan u = tickchan s"
    "length (procs u) = length (procs s)" "procs u ! k = (procs s ! k)\<lparr>p_state := RUNNABLE\<rparr>"
    by (rule tick_wakes [OF Suc.prems(1)])
  have d: "unat (ticks s - t0) = unat (ticks s) - unat t0" using Suc.prems(3) by (rule unat_sub)
  have t0: "unat t0 \<le> unat (ticks s)" using Suc.prems(3) by (simp only: word_le_nat_alt)
  have "unat (ticks s) + unat (1 :: u64) < 2 ^ 64" using d t0 Suc.prems(4,5) by (simp only: unat_1)
  then have tu: "unat (ticks u) = unat (ticks s) + 1" unfolding u(2) by (subst unat_add64_small) simp_all
  have le: "t0 \<le> ticks u" unfolding word_le_nat_alt tu using t0 by linarith
  have du: "unat (ticks u - t0) = unat (ticks s - t0) + 1"
    unfolding unat_sub [OF le] tu d using t0 by linarith
  obtain v where v: "sleep_rounds k t0 nticks n u = (Ok (replicate n False @ [True]), v)"
    "ticks v = ticks u + of_nat n" "0 < n \<longrightarrow> p_state (procs v ! k) = RUNNABLE"
    using Suc.IH [of u] Suc.prems u le du by auto
  have "n = 0 \<Longrightarrow> v = u" using v(1) ticksleep_round_over [OF le, of nticks k] Suc.prems(4)
    du by (simp add: bnd_run basic_run word_le_nat_alt)
  then have "p_state (procs v ! k) = RUNNABLE" using u(5) v(3) by (cases n) simp_all
  moreover have "sleep_rounds k t0 nticks (Suc n) s = (Ok (replicate (Suc n) False @ [True]), v)"
    unfolding sleep_rounds.simps using round u(1) v(1)
    by (simp only: bnd_run seqk_run basic_run replicate_Suc append_Cons)
  ultimately show ?case using v(2) u(2) by (intro exI [of _ v]) (simp del: sleep_rounds.simps)
qed

text \<open>
  Sleeping for a number of ticks. A process that is not killed and asks to sleep \<open>n\<close> ticks goes to
  sleep at once and again after each of the next \<open>n - 1\<close> ticks, every tick makes it runnable, and after
  the \<open>n\<close>-th tick, and not before, the call returns; for \<open>n = 0\<close> it returns without sleeping. (The
  count of ticks does not wrap in between.)
\<close>
theorem ticksleep_duration:
  assumes "k < length (procs s)" "\<not> p_killed (procs s ! k)" "unat (ticks s) + n < 2 ^ 64"
  shows "\<exists>u. sleep_rounds k (ticks s) (of_nat n) n s = (Ok (replicate n False @ [True]), u) \<and>
    ticks u = ticks s + of_nat n \<and> (0 < n \<longrightarrow> p_state (procs u ! k) = RUNNABLE)"
  using assms sleep_rounds_run [of k s "ticks s" n "of_nat n"] by simp

theorem ticksleep_duration_witness:
  "\<exists>u. sleep_rounds 2 (ticks piped_kernel) (of_nat 3) 3 piped_kernel = (Ok (replicate 3 False @ [True]), u) \<and>
    ticks u = 103 \<and> p_state (procs u ! 2) = RUNNABLE"
  using ticksleep_duration [of 2 piped_kernel 3] by (auto simp: piped_fields simp del: sleep_rounds.simps)

end
