(* ===== verification/Ahci.thy ===== *)
theory Ahci
  imports Kalloc
begin

text \<open>
  The AHCI controller as the disk driver programs it (\<open>kernel/src/sd.rs\<close> up to \<open>init\<close>,
  \<open>kernel/src/volatile.rs\<close>): frame information structures, command headers and tables, the registers of
  a port, and the commands that transfer a block. A register is a field of a record and holds what was
  last put there, by the driver or by the controller. Where the driver polls a register, the values it
  reads are an argument, a function of the number of the read. The physical address of the drive's page
  is a field; its structures lie in it at the offsets of the \<open>repr(C)\<close> layout.
\<close>

section \<open>Volatile access\<close>

definition vbit_set :: "u32 \<Rightarrow> u32 \<Rightarrow> u32" where
  "vbit_set r v = r OR v"

definition vbit_clear :: "u32 \<Rightarrow> u32 \<Rightarrow> u32" where
  "vbit_clear r v = r AND NOT v"

text \<open>\<open>flags.contains(f)\<close> of a set of flags.\<close>

definition flags_contain :: "'a::len word \<Rightarrow> 'a word \<Rightarrow> bool" where
  "flags_contain r f \<longleftrightarrow> r AND f = f"

text \<open>The halves of a 64-bit address: \<open>(pa >> 32) as u32\<close> and \<open>pa as u32\<close>.\<close>

definition addr_hi :: "u64 \<Rightarrow> u32" where
  "addr_hi pa = ucast (drop_bit 32 pa)"

definition addr_lo :: "u64 \<Rightarrow> u32" where
  "addr_lo pa = ucast pa"

section \<open>Frame information structures\<close>

record reg_h2d =
  fis_type :: u8
  crrr_port :: u8
  fis_command :: u8
  features0 :: u8
  lba0 :: u8
  lba1 :: u8
  lba2 :: u8
  fis_device :: u8
  lba3 :: u8
  lba4 :: u8
  lba5 :: u8
  features1 :: u8
  count0 :: u8
  count1 :: u8
  icc :: u8
  fis_control :: u8
  aux0 :: u8
  aux1 :: u8
  aux2 :: u8
  aux3 :: u8

definition reg_h2d_default :: reg_h2d where
  "reg_h2d_default = \<lparr>fis_type = 0, crrr_port = 0, fis_command = 0, features0 = 0, lba0 = 0, lba1 = 0, lba2 = 0,
     fis_device = 0, lba3 = 0, lba4 = 0, lba5 = 0, features1 = 0, count0 = 0, count1 = 0, icc = 0, fis_control = 0,
     aux0 = 0, aux1 = 0, aux2 = 0, aux3 = 0\<rparr>"

definition reg_h2d_new :: reg_h2d where
  "reg_h2d_new = reg_h2d_default\<lparr>fis_type := 0x27\<rparr>"

definition with_lba :: "u64 \<Rightarrow> reg_h2d \<Rightarrow> reg_h2d" where
  "with_lba lba f = f\<lparr>lba0 := ucast lba, lba1 := ucast (drop_bit 8 lba), lba2 := ucast (drop_bit 16 lba),
     lba3 := ucast (drop_bit 24 lba), lba4 := ucast (drop_bit 32 lba), lba5 := ucast (drop_bit 40 lba)\<rparr>"

definition with_device_lba :: "reg_h2d \<Rightarrow> reg_h2d" where
  "with_device_lba f = f\<lparr>fis_device := 0x40\<rparr>"

definition with_cflag :: "reg_h2d \<Rightarrow> reg_h2d" where
  "with_cflag f = f\<lparr>crrr_port := crrr_port f OR 0x80\<rparr>"

datatype ata_command = Identify | ReadDMAExt | WriteDMAExt

definition ata_code :: "ata_command \<Rightarrow> u8" where
  "ata_code c = (case c of Identify \<Rightarrow> 0xEC | ReadDMAExt \<Rightarrow> 0x25 | WriteDMAExt \<Rightarrow> 0x35)"

definition with_command :: "ata_command \<Rightarrow> reg_h2d \<Rightarrow> reg_h2d" where
  "with_command c f = f\<lparr>fis_command := ata_code c\<rparr>"

definition with_count :: "u16 \<Rightarrow> reg_h2d \<Rightarrow> reg_h2d" where
  "with_count n f = f\<lparr>count0 := ucast n, count1 := ucast (drop_bit 8 n)\<rparr>"

text \<open>The layout in memory, 20 bytes.\<close>

definition fis_bytes :: "reg_h2d \<Rightarrow> bytes" where
  "fis_bytes f = [fis_type f, crrr_port f, fis_command f, features0 f, lba0 f, lba1 f, lba2 f, fis_device f,
     lba3 f, lba4 f, lba5 f, features1 f, count0 f, count1 f, icc f, fis_control f, aux0 f, aux1 f, aux2 f, aux3 f]"

section \<open>Command headers and tables\<close>

record cmd_header =
  pwa_cfl :: u8
  pmp_rcbr :: u8
  prd_tbl_len :: u16
  prd_byte_count :: u32
  cmd_tbl_base_lo :: u32
  cmd_tbl_base_hi :: u32

definition set_num_prds :: "u16 \<Rightarrow> cmd_header \<Rightarrow> cmd_header" where
  "set_num_prds n h = h\<lparr>prd_tbl_len := n\<rparr>"

definition set_cfl :: "nat \<Rightarrow> cmd_header \<Rightarrow> cmd_header res" where
  "set_cfl n h = (if 2 \<le> n \<and> n \<le> 16 then Ok (h\<lparr>pwa_cfl := pwa_cfl h OR of_nat n\<rparr>)
     else Panic ''assertion failed: (2..=16).contains(&nu32s)'')"

definition set_read :: "cmd_header \<Rightarrow> cmd_header" where
  "set_read h = h\<lparr>pwa_cfl := pwa_cfl h AND NOT 0x40\<rparr>"

definition set_write :: "cmd_header \<Rightarrow> cmd_header" where
  "set_write h = h\<lparr>pwa_cfl := pwa_cfl h OR 0x40\<rparr>"

definition clear_header :: "cmd_header \<Rightarrow> cmd_header" where
  "clear_header h = h\<lparr>prd_tbl_len := 0\<rparr>"

record prdt_entry =
  data_phys_addr_lo :: u32
  data_phys_addr_hi :: u32
  data_count_i :: u32

record cmd_table =
  ct_fis :: bytes
  prdt :: "prdt_entry list"

text \<open>The buffer is given by its physical address and its length.\<close>

definition set_prd :: "u64 \<Rightarrow> nat \<Rightarrow> cmd_table \<Rightarrow> cmd_table res" where
  "set_prd pa len t =
     (if pa AND 1 \<noteq> 0 then Panic ''misaligned prd''
      else if of_nat len = (0 :: u32) then Panic ''attempt to subtract with overflow''
      else Ok (t\<lparr>prdt := (prdt t)[0 := \<lparr>data_phys_addr_lo = addr_lo pa, data_phys_addr_hi = addr_hi pa,
             data_count_i = of_nat len - 1\<rparr>]\<rparr>))"

definition set_command_fis :: "reg_h2d \<Rightarrow> cmd_table \<Rightarrow> cmd_table" where
  "set_command_fis f t = t\<lparr>ct_fis := overwrite (ct_fis t) 0 (fis_bytes f)\<rparr>"

section \<open>Ports\<close>

record ahci_port =
  cmd_base_lo :: u32
  cmd_base_hi :: u32
  fis_base_lo :: u32
  fis_base_hi :: u32
  pt_intr_status :: u32
  intr_enable :: u32
  cmd_status :: u32
  task_file_data :: u32
  signature :: u32
  sata_status :: u32
  sata_error :: u32
  cmd_issue :: u32

abbreviation PORT_CMD_CR :: u32 where "PORT_CMD_CR \<equiv> 0x8000"
abbreviation PORT_CMD_FR :: u32 where "PORT_CMD_FR \<equiv> 0x4000"
abbreviation PORT_CMD_FRE :: u32 where "PORT_CMD_FRE \<equiv> 0x10"
abbreviation PORT_CMD_ST :: u32 where "PORT_CMD_ST \<equiv> 1"
abbreviation PORT_BUSY :: u32 where "PORT_BUSY \<equiv> PORT_CMD_CR OR PORT_CMD_FR OR PORT_CMD_FRE OR PORT_CMD_ST"
abbreviation TFD_DRQ :: u32 where "TFD_DRQ \<equiv> 0x8"
abbreviation TFD_BUSY :: u32 where "TFD_BUSY \<equiv> 0x80"

text \<open>In the status and error registers a bit that is written as 1 is cleared, and one written as 0 stays.\<close>

definition rw1c :: "u32 \<Rightarrow> u32 \<Rightarrow> u32" where
  "rw1c old v = old AND NOT v"

definition port_is_present :: "ahci_port \<Rightarrow> bool" where
  "port_is_present p \<longleftrightarrow> sata_status p AND 0x0F = 0x03 \<and> drop_bit 8 (sata_status p) AND 0x0F = 0x01"

definition is_storage :: "ahci_port \<Rightarrow> bool" where
  "is_storage p \<longleftrightarrow> signature p = 0x00000101"

definition is_idle :: "u32 \<Rightarrow> bool" where
  "is_idle status \<longleftrightarrow> status AND PORT_BUSY = 0"

definition port_start :: "ahci_port \<Rightarrow> ahci_port" where
  "port_start p = (let q = p\<lparr>cmd_status := vbit_set (cmd_status p) PORT_CMD_FRE\<rparr>
     in q\<lparr>cmd_status := vbit_set (cmd_status q) PORT_CMD_ST\<rparr>)"

text \<open>
  \<open>stop\<close> gives up after 500 polls; \<open>status k\<close> is what the \<open>k\<close>-th of them reads, and the register is left
  with the last value read.
\<close>

fun stop_polls :: "nat \<Rightarrow> (nat \<Rightarrow> u32) \<Rightarrow> nat \<Rightarrow> u32 \<Rightarrow> u32" where
  "stop_polls 0 status k cur = cur"
| "stop_polls (Suc n) status k cur = (if is_idle (status k) then status k else stop_polls n status (k + 1) (status k))"

definition port_stop :: "(nat \<Rightarrow> u32) \<Rightarrow> ahci_port \<Rightarrow> ahci_port" where
  "port_stop status p =
     (if is_idle (cmd_status p) then p
      else p\<lparr>cmd_status := stop_polls 500 status 0 (vbit_clear (cmd_status p) (PORT_CMD_ST OR PORT_CMD_FRE))\<rparr>)"

definition clear_sata_error :: "ahci_port \<Rightarrow> ahci_port" where
  "clear_sata_error p = p\<lparr>sata_error := rw1c (sata_error p) 0x30F0FF70\<rparr>"

definition port_init :: "(nat \<Rightarrow> u32) \<Rightarrow> u64 \<Rightarrow> u64 \<Rightarrow> ahci_port \<Rightarrow> ahci_port" where
  "port_init status cmd_list_pa rfis_pa p =
     (let p1 = port_stop status p;
          p2 = p1\<lparr>cmd_base_hi := addr_hi cmd_list_pa, cmd_base_lo := addr_lo cmd_list_pa,
                  fis_base_hi := addr_hi rfis_pa, fis_base_lo := addr_lo rfis_pa, intr_enable := 1\<rparr>
      in port_start (clear_sata_error p2))"

definition port_issue :: "ahci_port \<Rightarrow> ahci_port" where
  "port_issue p = p\<lparr>cmd_issue := vbit_set (cmd_issue p) 1\<rparr>"

text \<open>\<open>TaskFileData::from_bits_truncate(tfd).contains(BUSY | DRQ)\<close>\<close>

definition tfd_busy :: "u32 \<Rightarrow> bool" where
  "tfd_busy tfd \<longleftrightarrow> flags_contain (tfd AND (TFD_BUSY OR TFD_DRQ)) (TFD_BUSY OR TFD_DRQ)"

fun port_wait :: "nat \<Rightarrow> (nat \<Rightarrow> u32) \<Rightarrow> nat \<Rightarrow> unit res" where
  "port_wait 0 tfd k = Panic ''AHCI port hung''"
| "port_wait (Suc n) tfd k = (if \<not> tfd_busy (tfd k) then Ok () else port_wait n tfd (k + 1))"

definition is_wait_done :: "u32 \<Rightarrow> u32 \<Rightarrow> bool" where
  "is_wait_done ci tfd \<longleftrightarrow> \<not> tfd_busy tfd \<and> ci AND 1 = 0"

fun wait_done :: "nat \<Rightarrow> (nat \<Rightarrow> u32) \<Rightarrow> (nat \<Rightarrow> u32) \<Rightarrow> nat \<Rightarrow> bool" where
  "wait_done 0 ci tfd k = False"
| "wait_done (Suc n) ci tfd k = (if is_wait_done (ci k) (tfd k) then True else wait_done n ci tfd (k + 1))"

definition port_eoi :: "ahci_port \<Rightarrow> ahci_port" where
  "port_eoi p = p\<lparr>pt_intr_status := rw1c (pt_intr_status p) (NOT 0)\<rparr>"

section \<open>The drive\<close>

abbreviation SECTOR_SIZE :: nat where "SECTOR_SIZE \<equiv> 512"
abbreviation RCVD_FIS_OFF :: u64 where "RCVD_FIS_OFF \<equiv> 1024"
abbreviation CMD_TABLE_OFF :: u64 where "CMD_TABLE_OFF \<equiv> 1280"
abbreviation IDENTITY_OFF :: u64 where "IDENTITY_OFF \<equiv> 1536"

record drive =
  drive_pa :: u64
  d_cmd_header :: cmd_header
  d_cmd_table :: cmd_table
  identity :: bytes
  sectors :: u64
  d_port :: nat
  d_model :: bytes
  d_serial :: bytes

record ahci =
  ghc :: u32
  hc_intr_status :: u32
  ports_impl :: u32
  hc_ports :: "ahci_port list"
  DRIVE :: "drive option"
  amem :: pagemem

definition upd_drive :: "(drive \<Rightarrow> drive res) \<Rightarrow> (ahci, unit) kop" where
  "upd_drive f s = (case DRIVE s of None \<Rightarrow> (Panic ''no drive'', s) | Some d \<Rightarrow>
     bnd (lift_res (\<lambda>_. f d)) (\<lambda>d'. modify (\<lambda>s. s\<lparr>DRIVE := Some d'\<rparr>)) s)"

definition upd_port :: "(ahci_port \<Rightarrow> ahci_port) \<Rightarrow> (ahci, unit) kop" where
  "upd_port f = modify (\<lambda>s. case DRIVE s of None \<Rightarrow> s
     | Some d \<Rightarrow> s\<lparr>hc_ports := (hc_ports s)[d_port d := f (hc_ports s ! d_port d)]\<rparr>)"

definition setup_read_cmd :: "reg_h2d \<Rightarrow> drive \<Rightarrow> drive res" where
  "setup_read_cmd f d =
     rbind (set_cfl (length (fis_bytes f) div 4) (set_read (set_num_prds 1 (d_cmd_header d)))) (\<lambda>h.
     Ok (d\<lparr>d_cmd_table := set_command_fis f (d_cmd_table d), d_cmd_header := h\<rparr>))"

definition setup_write_cmd :: "reg_h2d \<Rightarrow> drive \<Rightarrow> drive res" where
  "setup_write_cmd f d =
     rbind (set_cfl (length (fis_bytes f) div 4) (set_write (set_num_prds 1 (d_cmd_header d)))) (\<lambda>h.
     Ok (d\<lparr>d_cmd_table := set_command_fis f (d_cmd_table d), d_cmd_header := h\<rparr>))"

definition drive_set_prd :: "u64 \<Rightarrow> nat \<Rightarrow> drive \<Rightarrow> drive res" where
  "drive_set_prd pa len d = rbind (set_prd pa len (d_cmd_table d)) (\<lambda>t. Ok (d\<lparr>d_cmd_table := t\<rparr>))"

abbreviation WAIT_POLLS :: nat where "WAIT_POLLS \<equiv> 1000000"
abbreviation DONE_POLLS :: nat where "DONE_POLLS \<equiv> 2000000000"

definition drive_issue :: "(nat \<Rightarrow> u32) \<Rightarrow> (ahci, unit) kop" where
  "drive_issue tfd = seqk (lift_res (\<lambda>_. port_wait WAIT_POLLS tfd 0)) (upd_port port_issue)"

definition drive_eoi :: "(ahci, unit) kop" where
  "drive_eoi = seqk (upd_port port_eoi) (modify (\<lambda>s. s\<lparr>hc_intr_status := rw1c (hc_intr_status s) 0\<rparr>))"

definition read_fis :: "u64 \<Rightarrow> reg_h2d" where
  "read_fis offset = with_count (of_nat (PAGE_SIZE div SECTOR_SIZE)) (with_device_lba (with_lba (offset div of_nat SECTOR_SIZE)
     (with_cflag (with_command ReadDMAExt reg_h2d_new))))"

definition write_fis :: "u64 \<Rightarrow> reg_h2d" where
  "write_fis offset = with_count (of_nat (PAGE_SIZE div SECTOR_SIZE)) (with_device_lba (with_lba (offset div of_nat SECTOR_SIZE)
     (with_cflag (with_command WriteDMAExt reg_h2d_new))))"

text \<open>The page is given by its physical address.\<close>

definition read_block :: "(nat \<Rightarrow> u32) \<Rightarrow> u64 \<Rightarrow> u64 \<Rightarrow> (ahci, unit) kop" where
  "read_block tfd data_pa offset =
     seqk (upd_drive (setup_read_cmd (read_fis offset)))
     (seqk (upd_drive (drive_set_prd data_pa PAGE_SIZE))
     (drive_issue tfd))"

definition write_block :: "(nat \<Rightarrow> u32) \<Rightarrow> u64 \<Rightarrow> u64 \<Rightarrow> (ahci, unit) kop" where
  "write_block tfd data_pa offset =
     seqk (upd_drive (setup_write_cmd (write_fis offset)))
     (seqk (upd_drive (drive_set_prd data_pa PAGE_SIZE))
     (drive_issue tfd))"

text \<open>
  \<open>identify\<close> waits for the command to be done (and goes on if it never is); \<open>ident\<close> is what the drive has
  put into the identity block by then.
\<close>

definition identify_fis :: reg_h2d where
  "identify_fis = with_count 1 (with_cflag (with_command Identify reg_h2d_new))"

definition issue_synch :: "(nat \<Rightarrow> u32) \<Rightarrow> (nat \<Rightarrow> u32) \<Rightarrow> bytes \<Rightarrow> (ahci, bool) kop" where
  "issue_synch tfd ci ident =
     seqk (drive_issue tfd)
     (seqk (upd_drive (\<lambda>d. Ok (d\<lparr>identity := ident\<rparr>)))
     (gets (\<lambda>_. wait_done DONE_POLLS ci tfd 0)))"

definition identify :: "(nat \<Rightarrow> u32) \<Rightarrow> (nat \<Rightarrow> u32) \<Rightarrow> bytes \<Rightarrow> (ahci, unit) kop" where
  "identify tfd ci ident =
     seqk (upd_drive (setup_read_cmd identify_fis))
     (seqk (upd_drive (\<lambda>d. drive_set_prd (drive_pa d + IDENTITY_OFF) SECTOR_SIZE d))
     (seqk (issue_synch tfd ci ident)
     (seqk (upd_drive (\<lambda>d. Ok (d\<lparr>d_cmd_header := clear_header (d_cmd_header d)\<rparr>)))
     drive_eoi)))"

text \<open>\<open>chunks_mut(2).for_each(|c| c.reverse())\<close>\<close>

fun swap_pairs :: "bytes \<Rightarrow> bytes" where
  "swap_pairs (a # b # xs) = b # a # swap_pairs xs"
| "swap_pairs xs = xs"

definition drive_names :: "drive \<Rightarrow> drive res" where
  "drive_names d =
     rbind (slice_get (identity d) 20 40) (\<lambda>ser.
     rbind (slice_get (identity d) 54 94) (\<lambda>mdl.
     rbind (slice_get (identity d) 200 208) (\<lambda>sec.
     Ok (d\<lparr>d_serial := swap_pairs ser, d_model := swap_pairs mdl, sectors := of_nat (from_le sec)\<rparr>))))"

definition cmd_header_zero :: cmd_header where
  "cmd_header_zero = \<lparr>pwa_cfl = 0, pmp_rcbr = 0, prd_tbl_len = 0, prd_byte_count = 0, cmd_tbl_base_lo = 0, cmd_tbl_base_hi = 0\<rparr>"

definition prdt_zero :: prdt_entry where
  "prdt_zero = \<lparr>data_phys_addr_lo = 0, data_phys_addr_hi = 0, data_count_i = 0\<rparr>"

text \<open>A zeroed page as a drive, with the address of its command table.\<close>

definition drive_of_page :: "usize \<Rightarrow> nat \<Rightarrow> drive" where
  "drive_of_page page k = (let pa = addr_to_phys page; tbl = pa + CMD_TABLE_OFF
     in \<lparr>drive_pa = pa, d_cmd_header = cmd_header_zero\<lparr>cmd_tbl_base_hi := addr_hi tbl, cmd_tbl_base_lo := addr_lo tbl\<rparr>,
         d_cmd_table = \<lparr>ct_fis = replicate 64 0, prdt = replicate 8 prdt_zero\<rparr>, identity = replicate SECTOR_SIZE 0,
         sectors = 0, d_port = k, d_model = replicate 40 0, d_serial = replicate 20 0\<rparr>)"

text \<open>\<open>Drive::new\<close> for port \<open>k\<close>; the polls of its three waits are arguments.\<close>

definition drive_new :: "(nat \<Rightarrow> u32) \<Rightarrow> (nat \<Rightarrow> u32) \<Rightarrow> (nat \<Rightarrow> u32) \<Rightarrow> bytes \<Rightarrow> nat \<Rightarrow> (ahci, unit) kop" where
  "drive_new status tfd ci ident k s = (case kalloc (amem s) of
     (None, m) \<Rightarrow> (Panic ''allocated a per-port ACHI page'', s\<lparr>amem := m\<rparr>)
   | (Some page, m) \<Rightarrow>
       (let d = drive_of_page page k
        in seqk (upd_port (port_init status (drive_pa d) (drive_pa d + RCVD_FIS_OFF)))
           (seqk (identify tfd ci ident)
           (upd_drive drive_names))) (s\<lparr>amem := m, DRIVE := Some (drive_of_page page k)\<rparr>))"

fun find_port :: "u32 \<Rightarrow> ahci_port list \<Rightarrow> nat list \<Rightarrow> nat option res" where
  "find_port pi ports [] = Ok None"
| "find_port pi ports (k # ks) =
     (if pi AND push_bit k 1 = 0 then find_port pi ports ks
      else if k \<ge> length ports then Panic ''index out of bounds''
      else if \<not> port_is_present (ports ! k) \<or> \<not> is_storage (ports ! k) then find_port pi ports ks
      else Ok (Some k))"

definition ahci_init :: "(nat \<Rightarrow> u32) \<Rightarrow> (nat \<Rightarrow> u32) \<Rightarrow> (nat \<Rightarrow> u32) \<Rightarrow> bytes \<Rightarrow> (ahci, unit) kop" where
  "ahci_init status tfd ci ident =
     seqk (modify (\<lambda>s. s\<lparr>ghc := (ghc s AND 0x80000007) OR 0x80000000\<rparr>))
     (bnd (lift_res (\<lambda>s. find_port (ports_impl s) (hc_ports s) [0..<32])) (\<lambda>r.
      seqk (case r of None \<Rightarrow> ret () | Some k \<Rightarrow> drive_new status tfd ci ident k)
     (modify (\<lambda>s. s\<lparr>ghc := (ghc s AND 0x80000007) OR 0x2\<rparr>))))"

section \<open>What the controller makes of it\<close>

text \<open>
  The reading of the structures that the specifications of AHCI and ATA give: the port's command list
  address is the header's address, the header names the table and says whether the transfer is a
  write, how many regions there are and how long the command is; the frame in the table is a command
  with its 48-bit sector address and sector count, and a region's byte count is stored less one.
\<close>

record ata_request =
  rq_write :: bool
  rq_command :: u8
  rq_lba :: nat
  rq_count :: nat
  rq_addr :: u64
  rq_bytes :: nat

definition addr_of :: "u32 \<Rightarrow> u32 \<Rightarrow> u64" where
  "addr_of lo hi = of_nat (unat lo + 2 ^ 32 * unat hi)"

definition controller_reads :: "ahci_port \<Rightarrow> drive \<Rightarrow> ata_request option" where
  "controller_reads p d =
     (let h = d_cmd_header d; t = d_cmd_table d; f = ct_fis t; r = prdt t ! 0
      in if addr_of (cmd_base_lo p) (cmd_base_hi p) = drive_pa d
            \<and> addr_of (cmd_tbl_base_lo h) (cmd_tbl_base_hi h) = drive_pa d + CMD_TABLE_OFF
            \<and> cmd_issue p AND 1 = 1 \<and> prd_tbl_len h = 1 \<and> pwa_cfl h AND 0x1F = 5
            \<and> f ! 0 = 0x27 \<and> f ! 1 AND 0x80 = 0x80 \<and> f ! 7 AND 0x40 = 0x40
         then Some \<lparr>rq_write = (pwa_cfl h AND 0x40 = 0x40), rq_command = f ! 2,
                rq_lba = from_le [f ! 4, f ! 5, f ! 6, f ! 8, f ! 9, f ! 10], rq_count = from_le [f ! 12, f ! 13],
                rq_addr = addr_of (data_phys_addr_lo r) (data_phys_addr_hi r), rq_bytes = unat (data_count_i r) + 1\<rparr>
         else None)"

section \<open>Addresses and sectors\<close>

lemma unat_drop_bit_u64: "unat (drop_bit n (w :: u64)) = unat w div 2 ^ n"
  unfolding unsigned_drop_bit_eq by (simp add: drop_bit_eq_div take_bit_nat_eq_self)

lemma addr_of_halves [simp]: "addr_of (addr_lo pa) (addr_hi pa) = pa"
proof -
  have "unat pa div 2 ^ 32 < 2 ^ 32" by (simp add: div_less_iff_less_mult)
  then have "unat (addr_hi pa) = unat pa div 2 ^ 32"
    by (simp add: addr_hi_def unsigned_ucast_eq take_bit_eq_mod unat_drop_bit_u64)
  moreover have "unat (addr_lo pa) = unat pa mod 2 ^ 32" by (simp add: addr_lo_def unsigned_ucast_eq take_bit_eq_mod)
  ultimately have "unat (addr_lo pa) + 2 ^ 32 * unat (addr_hi pa) = unat pa" by (simp only: mod_mult_div_eq)
  then show ?thesis by (simp add: addr_of_def del: of_nat_add of_nat_mult)
qed

lemma ucast_drop_bit: "(ucast (drop_bit n (w :: u64)) :: u8) = of_nat (unat w div 2 ^ n mod 256)"
proof -
  have "unat (ucast (drop_bit n w) :: u8) = unat w div 2 ^ n mod 256"
    by (simp add: unsigned_ucast_eq take_bit_eq_mod unat_drop_bit_u64)
  then show ?thesis by (metis of_nat_unat ucast_id)
qed

text \<open>The six address bytes of a frame hold the low 48 bits of the sector number.\<close>

lemma lba_bytes:
  "from_le [ucast (lba :: u64), ucast (drop_bit 8 lba), ucast (drop_bit 16 lba), ucast (drop_bit 24 lba),
     ucast (drop_bit 32 lba), ucast (drop_bit 40 lba)] = unat lba mod 2 ^ 48"
proof -
  have "to_le (Suc (Suc (Suc (Suc (Suc (Suc 0)))))) n = [of_nat (n mod 256), of_nat (n div 2 ^ 8 mod 256),
      of_nat (n div 2 ^ 16 mod 256), of_nat (n div 2 ^ 24 mod 256), of_nat (n div 2 ^ 32 mod 256), of_nat (n div 2 ^ 40 mod 256)]" for n
    by (simp add: div_mult2_eq [symmetric])
  moreover have "Suc (Suc (Suc (Suc (Suc (Suc 0))))) = 6" by simp
  moreover have "(ucast lba :: u8) = of_nat (unat lba mod 256)" using ucast_drop_bit [of 0 lba] by simp
  ultimately have "[ucast lba, ucast (drop_bit 8 lba), ucast (drop_bit 16 lba), ucast (drop_bit 24 lba),
     ucast (drop_bit 32 lba), ucast (drop_bit 40 lba)] = to_le 6 (unat lba)"
    unfolding ucast_drop_bit by metis
  then show ?thesis by (simp add: from_le_to_le)
qed

section \<open>Block commands\<close>

lemma port_wait_now: "0 < n \<Longrightarrow> \<not> tfd_busy (tfd k) \<Longrightarrow> port_wait n tfd k = Ok ()"
  by (cases n) auto

text \<open>\<open>contains\<close> asks for both bits: a port that is busy and has no data request is taken as ready.\<close>

lemma busy_port_is_ready: "tfd k AND TFD_DRQ = 0 \<Longrightarrow> port_wait WAIT_POLLS tfd k = Ok ()"
proof -
  assume drq: "tfd k AND TFD_DRQ = 0"
  have "\<not> tfd_busy (tfd k)"
  proof
    assume "tfd_busy (tfd k)"
    then have "tfd k AND 0x88 = 0x88" by (simp add: tfd_busy_def flags_contain_def and.assoc)
    moreover have "tfd k AND 0x8 = (tfd k AND 0x88) AND 0x8" by (simp add: and.assoc)
    ultimately show False using drq by simp
  qed
  then show ?thesis by (simp add: port_wait_now)
qed

text \<open>A drive that \<open>Drive::new\<close> has set up and that has only been given the commands of this driver.\<close>

definition drive_ok :: "ahci \<Rightarrow> bool" where
  "drive_ok s = (case DRIVE s of None \<Rightarrow> False | Some d \<Rightarrow>
     d_port d < length (hc_ports s) \<and>
     addr_of (cmd_base_lo (hc_ports s ! d_port d)) (cmd_base_hi (hc_ports s ! d_port d)) = drive_pa d \<and>
     addr_of (cmd_tbl_base_lo (d_cmd_header d)) (cmd_tbl_base_hi (d_cmd_header d)) = drive_pa d + CMD_TABLE_OFF \<and>
     pwa_cfl (d_cmd_header d) \<in> {0, 5, 0x45} \<and> length (ct_fis (d_cmd_table d)) = 64 \<and> length (prdt (d_cmd_table d)) = 8)"

definition drive_port :: "ahci \<Rightarrow> ahci_port" where
  "drive_port s = hc_ports s ! d_port (the (DRIVE s))"

definition block_request :: "bool \<Rightarrow> nat \<Rightarrow> u64 \<Rightarrow> ata_request" where
  "block_request w blockno pa = \<lparr>rq_write = w, rq_command = (if w then 0x35 else 0x25), rq_lba = 8 * blockno, rq_count = 8,
     rq_addr = pa, rq_bytes = PAGE_SIZE\<rparr>"

lemma length_fis_bytes [simp]: "length (fis_bytes f) = 20"
  by (simp add: fis_bytes_def)

definition block_cmd :: "bool \<Rightarrow> (nat \<Rightarrow> u32) \<Rightarrow> u64 \<Rightarrow> u64 \<Rightarrow> (ahci, unit) kop" where
  "block_cmd w tfd pa offset = (if w then write_block tfd pa offset else read_block tfd pa offset)"

definition after_cmd :: "bool \<Rightarrow> u64 \<Rightarrow> u64 \<Rightarrow> drive \<Rightarrow> drive" where
  "after_cmd w pa offset d = d\<lparr>
     d_cmd_header := (d_cmd_header d)\<lparr>prd_tbl_len := 1, pwa_cfl := (if w then 0x45 else 0x05)\<rparr>,
     d_cmd_table := \<lparr>ct_fis = overwrite (ct_fis (d_cmd_table d)) 0 (fis_bytes (if w then write_fis offset else read_fis offset)),
       prdt = (prdt (d_cmd_table d))[0 := \<lparr>data_phys_addr_lo = addr_lo pa, data_phys_addr_hi = addr_hi pa, data_count_i = 4095\<rparr>]\<rparr>\<rparr>"

lemma setup_cmd_run:
  assumes "pwa_cfl (d_cmd_header d) \<in> {0, 5, 0x45}"
  shows "setup_read_cmd f d = Ok (d\<lparr>d_cmd_header := (d_cmd_header d)\<lparr>prd_tbl_len := 1, pwa_cfl := 0x05\<rparr>,
      d_cmd_table := set_command_fis f (d_cmd_table d)\<rparr>)"
    "setup_write_cmd f d = Ok (d\<lparr>d_cmd_header := (d_cmd_header d)\<lparr>prd_tbl_len := 1, pwa_cfl := 0x45\<rparr>,
      d_cmd_table := set_command_fis f (d_cmd_table d)\<rparr>)"
  using assms by (auto simp: setup_read_cmd_def setup_write_cmd_def set_cfl_def set_read_def set_write_def set_num_prds_def)

lemma block_cmd_run:
  assumes "drive_ok s" "DRIVE s = Some d" "port_wait WAIT_POLLS tfd 0 = Ok ()" "pa AND 1 = 0"
  shows "block_cmd w tfd pa offset s = (Ok (), s\<lparr>DRIVE := Some (after_cmd w pa offset d),
    hc_ports := (hc_ports s)[d_port d := port_issue (hc_ports s ! d_port d)]\<rparr>)"
proof -
  have "pwa_cfl (d_cmd_header d) \<in> {0, 5, 0x45}" using assms(1,2) by (simp add: drive_ok_def)
  note cmd = setup_cmd_run [OF this]
  show ?thesis using assms
    by (simp add: block_cmd_def read_block_def write_block_def upd_drive_def cmd drive_set_prd_def set_prd_def drive_issue_def
        upd_port_def kop_simps after_cmd_def set_command_fis_def)
qed

text \<open>A command is only issued by a port that is not hung.\<close>

lemma port_wait_cases: "port_wait n tfd k = Ok () \<or> port_wait n tfd k = Panic ''AHCI port hung''"
  by (induction n arbitrary: k) auto

lemma block_cmd_waits:
  assumes "drive_ok s" "block_cmd w tfd pa offset s = (Ok (), s')" "pa AND 1 = 0"
  shows "port_wait WAIT_POLLS tfd 0 = Ok ()"
proof (rule ccontr)
  assume "port_wait WAIT_POLLS tfd 0 \<noteq> Ok ()"
  then have hung: "port_wait WAIT_POLLS tfd 0 = Panic ''AHCI port hung''" using port_wait_cases by blast
  obtain d where d: "DRIVE s = Some d" using assms(1) by (auto simp: drive_ok_def split: option.splits)
  have "pwa_cfl (d_cmd_header d) \<in> {0, 5, 0x45}" using assms(1) d by (simp add: drive_ok_def)
  note cmd = setup_cmd_run [OF this]
  show False using assms(2,3) hung d
    by (simp add: block_cmd_def read_block_def write_block_def upd_drive_def cmd drive_set_prd_def set_prd_def drive_issue_def
        kop_simps split: if_splits)
qed

definition lba_bytes_of :: "u64 \<Rightarrow> bytes" where
  "lba_bytes_of lba = [ucast lba, ucast (drop_bit 8 lba), ucast (drop_bit 16 lba), ucast (drop_bit 24 lba),
     ucast (drop_bit 32 lba), ucast (drop_bit 40 lba)]"

lemma block_lba:
  assumes "blockno < 2 ^ 45"
  shows "from_le (lba_bytes_of (of_nat (blockno * PAGE_SIZE) div of_nat SECTOR_SIZE)) = 8 * blockno"
proof -
  have "unat (of_nat (blockno * PAGE_SIZE) :: u64) = blockno * PAGE_SIZE" using assms by (simp del: of_nat_mult)
  then have "unat (of_nat (blockno * PAGE_SIZE) div of_nat SECTOR_SIZE :: u64) = 8 * blockno"
    by (simp add: unat_div del: of_nat_mult)
  then show ?thesis unfolding lba_bytes_of_def lba_bytes using assms by simp
qed

lemma fis_fields:
  "fis_bytes (if w then write_fis off else read_fis off) =
     [0x27, 0x80, if w then 0x35 else 0x25, 0] @ take 3 (lba_bytes_of (off div of_nat SECTOR_SIZE)) @ [0x40] @
     drop 3 (lba_bytes_of (off div of_nat SECTOR_SIZE)) @ [0, 8, 0, 0, 0, 0, 0, 0, 0]"
  by (simp add: fis_bytes_def write_fis_def read_fis_def with_count_def with_device_lba_def with_lba_def with_cflag_def
      with_command_def ata_code_def reg_h2d_new_def reg_h2d_default_def lba_bytes_of_def)

lemma after_cmd_request:
  assumes "length (ct_fis (d_cmd_table d)) = 64" "length (prdt (d_cmd_table d)) = 8" "blockno < 2 ^ 45"
    and "addr_of (cmd_base_lo p) (cmd_base_hi p) = drive_pa d"
    and "addr_of (cmd_tbl_base_lo (d_cmd_header d)) (cmd_tbl_base_hi (d_cmd_header d)) = drive_pa d + CMD_TABLE_OFF"
  shows "controller_reads (port_issue p) (after_cmd w pa (of_nat (blockno * PAGE_SIZE)) d) = Some (block_request w blockno pa)"
proof -
  define off where "off = (of_nat (blockno * PAGE_SIZE) :: u64)"
  let ?l = "lba_bytes_of (off div of_nat SECTOR_SIZE)"
  obtain l0 l1 l2 l3 l4 l5 where l: "?l = [l0, l1, l2, l3, l4, l5]" by (simp add: lba_bytes_of_def)
  define F where "F = overwrite (ct_fis (d_cmd_table d)) 0 (fis_bytes (if w then write_fis off else read_fis off))"
  have "F ! 0 = 0x27" "F ! 1 = 0x80" "F ! 2 = (if w then 0x35 else 0x25)" "F ! 4 = l0" "F ! 5 = l1" "F ! 6 = l2"
    "F ! 7 = 0x40" "F ! 8 = l3" "F ! 9 = l4" "F ! 10 = l5" "F ! 12 = 8" "F ! 13 = 0"
    unfolding F_def overwrite_def fis_fields l by simp_all
  moreover have "from_le [l0, l1, l2, l3, l4, l5] = 8 * blockno" using block_lba [OF assms(3)] l by (simp add: off_def)
  moreover have "from_le [8, 0] = 8" by simp
  moreover have "(cmd_issue p OR 1) AND 1 = 1" by (simp add: bit_eq_iff bit_simps)
  ultimately show ?thesis unfolding off_def [symmetric]
    using assms(2,4,5)
    by (simp add: controller_reads_def after_cmd_def F_def [symmetric] block_request_def Let_def port_issue_def vbit_set_def
        del: from_le.simps)
qed

lemma block_cmd_ok:
  assumes "drive_ok s" "port_wait WAIT_POLLS tfd 0 = Ok ()" "pa AND 1 = 0" "blockno < 2 ^ 45"
  obtains s' where "block_cmd w tfd pa (of_nat (blockno * PAGE_SIZE)) s = (Ok (), s')" "drive_ok s'"
    "controller_reads (drive_port s') (the (DRIVE s')) = Some (block_request w blockno pa)"
proof -
  obtain d where d: "DRIVE s = Some d" using assms(1) by (auto simp: drive_ok_def split: option.splits)
  let ?s = "s\<lparr>DRIVE := Some (after_cmd w pa (of_nat (blockno * PAGE_SIZE)) d),
    hc_ports := (hc_ports s)[d_port d := port_issue (hc_ports s ! d_port d)]\<rparr>"
  have ok: "d_port d < length (hc_ports s)" using assms(1) d by (simp add: drive_ok_def)
  have p: "drive_port ?s = port_issue (hc_ports s ! d_port d)" using ok by (simp add: drive_port_def after_cmd_def)
  have "controller_reads (drive_port ?s) (the (DRIVE ?s)) = Some (block_request w blockno pa)"
    unfolding p using assms(1,4) d by (simp add: after_cmd_request drive_ok_def del: of_nat_mult)
  moreover have "drive_ok ?s" using assms(1) d by (simp add: drive_ok_def after_cmd_def port_issue_def overwrite_def)
  ultimately show thesis using that [OF block_cmd_run [OF assms(1) d assms(2,3)]] by blast
qed

text \<open>
  C21: What the driver asks for is what the controller reads. For every block below \<open>2^45\<close> and every page,
  \<open>read_block\<close> and \<open>write_block\<close> leave structures that the specification of the controller reads as one
  transfer, in the right direction, between the page's 4096 bytes and the block's eight sectors, and the
  command is issued. This holds again after any such command.
\<close>
theorem block_commands_decode:
  assumes "drive_ok s" "port_wait WAIT_POLLS tfd 0 = Ok ()" "pa AND 1 = 0" "blockno < 2 ^ 45"
  shows "\<exists>s'. (if w then write_block tfd pa (of_nat (blockno * PAGE_SIZE)) s
      else read_block tfd pa (of_nat (blockno * PAGE_SIZE)) s) = (Ok (), s') \<and> drive_ok s' \<and>
    controller_reads (drive_port s') (the (DRIVE s')) = Some \<lparr>rq_write = w, rq_command = (if w then 0x35 else 0x25),
      rq_lba = 8 * blockno, rq_count = 8, rq_addr = pa, rq_bytes = 4096\<rparr>"
  by (rule block_cmd_ok [OF assms, of w]) (auto simp: block_cmd_def block_request_def split: if_splits)

section \<open>Initialisation\<close>

lemma find_port_Some:
  "find_port pi ports ks = Ok (Some k) \<Longrightarrow> k \<in> set ks \<and> k < length ports \<and> port_is_present (ports ! k) \<and> is_storage (ports ! k)"
  by (induction ks) (auto split: if_splits)

lemma drive_of_page_simps [simp]:
  "drive_pa (drive_of_page page k) = addr_to_phys page" "d_port (drive_of_page page k) = k"
  "addr_of (cmd_tbl_base_lo (d_cmd_header (drive_of_page page k))) (cmd_tbl_base_hi (d_cmd_header (drive_of_page page k)))
     = addr_to_phys page + CMD_TABLE_OFF"
  "pwa_cfl (d_cmd_header (drive_of_page page k)) = 0" "length (ct_fis (d_cmd_table (drive_of_page page k))) = 64"
  "length (prdt (d_cmd_table (drive_of_page page k))) = 8"
  by (simp_all add: drive_of_page_def Let_def cmd_header_zero_def)

lemma port_init_base [simp]:
  "addr_of (cmd_base_lo (port_init status a b p)) (cmd_base_hi (port_init status a b p)) = a"
  by (simp add: port_init_def Let_def port_start_def clear_sata_error_def)

lemma addr_to_phys_even: "page mod 4096 = 0 \<Longrightarrow> (addr_to_phys page + IDENTITY_OFF) AND 1 = 0"
proof -
  assume "page mod 4096 = 0"
  then have "4096 dvd page" by (rule mod_0_imp_dvd)
  moreover have "even (4096 :: u64)" by simp
  ultimately have "even page" using dvd_trans by blast
  then have "even (addr_to_phys page + IDENTITY_OFF)" by (simp add: addr_to_phys_def)
  then show ?thesis by (simp only: and_one_eq even_iff_mod_2_eq_zero)
qed

lemma identify_ok:
  assumes "drive_ok s" "DRIVE s = Some d" "port_wait WAIT_POLLS tfd 0 = Ok ()" "(drive_pa d + IDENTITY_OFF) AND 1 = 0"
  shows "\<exists>s' d'. identify tfd ci ident s = (Ok (), s') \<and> drive_ok s' \<and> DRIVE s' = Some d' \<and> identity d' = ident \<and>
    amem s' = amem s"
proof -
  have "pwa_cfl (d_cmd_header d) \<in> {0, 5, 0x45}" using assms(1,2) by (simp add: drive_ok_def)
  note cmd = setup_cmd_run [OF this]
  show ?thesis using assms
    by (simp add: identify_def upd_drive_def cmd drive_set_prd_def set_prd_def issue_synch_def drive_issue_def
        upd_port_def kop_simps set_command_fis_def drive_eoi_def clear_header_def drive_ok_def overwrite_def
        port_eoi_def port_issue_def)
qed

text \<open>A controller with a storage device gets a drive that takes block commands.\<close>

lemma ahci_init_ok:
  assumes "find_port (ports_impl s) (hc_ports s) [0..<32] = Ok (Some k)" "kalloc (amem s) = (Some page, m)"
    "page mod 4096 = 0" "length ident = SECTOR_SIZE" "port_wait WAIT_POLLS tfd 0 = Ok ()"
  shows "\<exists>s'. ahci_init status tfd ci ident s = (Ok (), s') \<and> drive_ok s' \<and> amem s' = m"
proof -
  let ?d = "drive_of_page page k" and ?s0 = "s\<lparr>ghc := (ghc s AND 0x80000007) OR 0x80000000, amem := m, DRIVE := Some (drive_of_page page k)\<rparr>"
  define s1 where "s1 = ?s0\<lparr>hc_ports := (hc_ports s)[k := port_init status (drive_pa ?d) (drive_pa ?d + RCVD_FIS_OFF) (hc_ports s ! k)]\<rparr>"
  have k: "k < length (hc_ports s)" using find_port_Some [OF assms(1)] by simp
  have "drive_ok s1" "DRIVE s1 = Some ?d" using k by (simp_all add: s1_def drive_ok_def)
  then obtain s2 d2 where s2: "identify tfd ci ident s1 = (Ok (), s2)" "drive_ok s2" "DRIVE s2 = Some d2" "identity d2 = ident"
    "amem s2 = m"
    using identify_ok [of s1 ?d tfd ci ident] assms(5) addr_to_phys_even [OF assms(3)] by (auto simp: s1_def)
  then obtain d3 where d3: "drive_names d2 = Ok d3" "drive_ok (s2\<lparr>DRIVE := Some d3\<rparr>)"
    using assms(4) by (simp add: drive_names_def slice_get_def drive_ok_def)
  have "drive_new status tfd ci ident k (s\<lparr>ghc := (ghc s AND 0x80000007) OR 0x80000000\<rparr>) = (Ok (), s2\<lparr>DRIVE := Some d3\<rparr>)"
    using assms(2) s2 d3(1)
    by (simp add: drive_new_def Let_def upd_port_def kop_simps upd_drive_def s1_def)
  then show ?thesis using assms(1) d3(2) s2(5) by (simp add: ahci_init_def kop_simps drive_ok_def)
qed


definition port_zero :: ahci_port where
  "port_zero = \<lparr>cmd_base_lo = 0, cmd_base_hi = 0, fis_base_lo = 0, fis_base_hi = 0, pt_intr_status = 0, intr_enable = 0,
     cmd_status = 0, task_file_data = 0x50, signature = 0x101, sata_status = 0x113, sata_error = 0, cmd_issue = 0\<rparr>"

definition ahci0 :: ahci where
  "ahci0 = \<lparr>ghc = 0x80000002, hc_intr_status = 0, ports_impl = 1,
     hc_ports = [port_init (\<lambda>_. 0) (addr_to_phys 0xFFFF800000100000) (addr_to_phys 0xFFFF800000100000 + RCVD_FIS_OFF) port_zero],
     DRIVE = Some (drive_of_page 0xFFFF800000100000 0), amem = \<lparr>pages = \<lambda>_. [], free_head = 0\<rparr>\<rparr>"

lemma drive_ok_ahci0: "drive_ok ahci0"
  by (simp add: drive_ok_def ahci0_def)

theorem block_commands_decode_witness:
  "\<exists>s'. write_block (\<lambda>_. 0x50) 0x200000 (of_nat (1000 * PAGE_SIZE)) ahci0 = (Ok (), s') \<and>
    controller_reads (drive_port s') (the (DRIVE s')) = Some \<lparr>rq_write = True, rq_command = 0x35, rq_lba = 8000, rq_count = 8,
      rq_addr = 0x200000, rq_bytes = 4096\<rparr>"
  using block_commands_decode [OF drive_ok_ahci0, of "\<lambda>_. 0x50" "0x200000" 1000 True]
  by (auto simp: port_wait_now tfd_busy_def flags_contain_def simp del: of_nat_mult)

end
