(* ===== verification/Sd.thy ===== *)
theory Sd
  imports Syscall Ahci
begin

text \<open>
  The disk driver's queue of requests (\<open>kernel/src/sd.rs\<close>: \<open>rdwr\<close>, \<open>start\<close>, \<open>interrupt\<close>) on top of the
  controller. A request is put at the end of a list threaded through the buffers and its process
  sleeps; the controller works on the first request, and its interrupt marks the buffer, wakes the
  sleeper and starts the next one. The lock \<open>QUEUE\<close> makes each of these one step. The addresses of the
  buffers and of their pages are fields of the state.
\<close>

record sd_state = trap_state +
  sd_hw :: ahci
  QUEUE :: "nat option"
  buf_chan :: "nat \<Rightarrow> usize"
  buf_pa :: "nat \<Rightarrow> u64"

definition on_hw :: "(ahci, 'r) kop \<Rightarrow> ('a sd_state_scheme, 'r) kop" where
  "on_hw m s = (let (r, h) = m (sd_hw s) in (r, s\<lparr>sd_hw := h\<rparr>))"

section \<open>Requests\<close>

definition sd_start :: "(nat \<Rightarrow> u32) \<Rightarrow> nat \<Rightarrow> ('a sd_state_scheme, unit) kop" where
  "sd_start tfd k =
     bnd (gets (\<lambda>s. bufs s ! k)) (\<lambda>b.
     seqk (assertk (unat (b_blockno b) * BSIZE < 2 ^ 64) ''attempt to multiply with overflow'')
     (seqk (bnd (gets (\<lambda>s. DRIVE (sd_hw s))) (\<lambda>d. assertk (d \<noteq> None) ''no drive''))
     (bnd (gets (\<lambda>s. buf_pa s k)) (\<lambda>pa.
      let offset = b_blockno b * of_nat BSIZE
      in if DIRTY (b_flags b) then on_hw (write_block tfd pa offset) else on_hw (read_block tfd pa offset)))))"

definition sd_enqueue :: "nat \<Rightarrow> ('a sd_state_scheme, unit) kop" where
  "sd_enqueue k =
     bnd (lift_res (\<lambda>s. enqueue (QUEUE s) k (bufs s))) (\<lambda>(q, bs).
     modify (\<lambda>s. s\<lparr>QUEUE := q, bufs := bs\<rparr>))"

text \<open>The test of the loop in \<open>rdwr\<close>, for process \<open>j\<close>: done, or asleep until the next test.\<close>

definition sd_test :: "nat \<Rightarrow> nat \<Rightarrow> ('a sd_state_scheme, bool) kop" where
  "sd_test j k =
     bnd (gets (\<lambda>s. b_flags (bufs s ! k))) (\<lambda>f.
     if \<not> (VALID f \<and> \<not> DIRTY f)
     then bnd (gets (\<lambda>s. buf_chan s k)) (\<lambda>c. seqk (psleep j c) (ret False))
     else ret True)"

definition sd_rdwr :: "(nat \<Rightarrow> u32) \<Rightarrow> nat \<Rightarrow> nat \<Rightarrow> ('a sd_state_scheme, bool) kop" where
  "sd_rdwr tfd j k =
     seqk (bnd (gets (buf_is_locked k)) (\<lambda>l. assertk l ''sd::rdwr: buf not locked''))
     (seqk (bnd (gets (\<lambda>s. b_flags (bufs s ! k))) (\<lambda>f. assertk (f \<noteq> flags_valid) ''sd::rdwr: nothing to do''))
     (seqk (bnd (gets QUEUE) (\<lambda>q. if q = None then sd_start tfd k else ret ()))
     (seqk (sd_enqueue k)
     (sd_test j k))))"

section \<open>Interrupts\<close>

definition sd_interrupt :: "(nat \<Rightarrow> u32) \<Rightarrow> ('a sd_state_scheme, unit) kop" where
  "sd_interrupt tfd =
     bnd (lift_res (\<lambda>s. dequeue (QUEUE s) (bufs s))) (\<lambda>r. case r of
       None \<Rightarrow> ret ()
     | Some (k, head) \<Rightarrow>
         seqk (modify (\<lambda>s. s\<lparr>QUEUE := head\<rparr>))
         (seqk (set_flags_buf k flags_valid)
         (seqk (bnd (gets (\<lambda>s. buf_chan s k)) wakeup)
         (seqk (case head of None \<Rightarrow> ret () | Some b \<Rightarrow> sd_start tfd b)
         (seqk (bnd (gets (\<lambda>s. DRIVE (sd_hw s))) (\<lambda>d. if d = None then panic ''spurious drive interrupt'' else on_hw drive_eoi))
         eoi)))))"

section \<open>The controller\<close>

text \<open>
  The controller carries out the command it reads, a transfer of one block, between the page of the
  buffer at that address and the disk, clears the command's bit, and sets the bit for a received register
  structure in the port's interrupt status. It raises its interrupt while the port has an enabled status bit and interrupts are
  enabled for the controller.
\<close>

definition busy_hw :: "ahci \<Rightarrow> bool" where
  "busy_hw h \<longleftrightarrow> cmd_issue (drive_port h) AND 1 = 1"

definition command_done :: "ahci \<Rightarrow> ahci" where
  "command_done h = (case DRIVE h of None \<Rightarrow> h | Some d \<Rightarrow>
     h\<lparr>hc_ports := (hc_ports h)[d_port d := (hc_ports h ! d_port d)\<lparr>cmd_issue := vbit_clear (cmd_issue (hc_ports h ! d_port d)) 1,
       pt_intr_status := pt_intr_status (hc_ports h ! d_port d) OR 1\<rparr>]\<rparr>)"

definition raises_intr :: "ahci \<Rightarrow> bool" where
  "raises_intr h \<longleftrightarrow> ghc h AND 2 = 2 \<and> pt_intr_status (drive_port h) AND intr_enable (drive_port h) \<noteq> 0"

definition block_transfer :: "ata_request \<Rightarrow> nat \<Rightarrow> 'a sd_state_scheme \<Rightarrow> 'a sd_state_scheme" where
  "block_transfer rq k s = (let a = (ROOTDEV, of_nat (rq_lba rq div 8))
     in if rq_write rq then s\<lparr>disk := (disk s)(a := b_data (bufs s ! k)), wlog := wlog s @ [(a, b_data (bufs s ! k))]\<rparr>
        else upd_buf k (\<lambda>b. b\<lparr>b_data := disk s a\<rparr>) s)"

definition controller_step :: "'a sd_state_scheme \<Rightarrow> (nat \<times> 'a sd_state_scheme) option" where
  "controller_step s = (case DRIVE (sd_hw s) of None \<Rightarrow> None | Some d \<Rightarrow>
     (case controller_reads (drive_port (sd_hw s)) d of None \<Rightarrow> None | Some rq \<Rightarrow>
       if rq_lba rq mod 8 = 0 \<and> rq_count rq = 8 \<and> rq_bytes rq = BSIZE then
         (case position (\<lambda>k. buf_pa s k = rq_addr rq) [0..<length (bufs s)] of None \<Rightarrow> None
          | Some k \<Rightarrow> Some (k, (block_transfer rq k s)\<lparr>sd_hw := command_done (sd_hw s)\<rparr>))
       else None))"

end
