(* ===== verification/SdProps.thy ===== *)
theory SdProps
  imports Sd SyscallProps
begin

text \<open>
  The queued driver implements the synchronous transfer that the buffer cache is built on. Any number
  of processes make requests, the controller completes commands and interrupts, woken processes test
  again, and buffers that nobody waits for are changed; whatever the interleaving, the requests are
  carried out in order and each has the effect of one call of \<open>rdwr\<close> of theory \<open>Bio\<close>, no sleeper is
  forgotten, and while there is a request something can happen.
\<close>

section \<open>The queue through the buffers\<close>

fun qchain :: "buf list \<Rightarrow> nat list \<Rightarrow> bool" where
  "qchain bs [] = True"
| "qchain bs [k] = (b_qnext (bs ! k) = LIST_NONE)"
| "qchain bs (k # k' # ks) = (b_qnext (bs ! k) = k' \<and> qchain bs (k' # ks))"

definition head_of :: "nat list \<Rightarrow> nat option" where
  "head_of ks = (case ks of [] \<Rightarrow> None | k # _ \<Rightarrow> Some k)"

lemma head_of_simps [simp]: "head_of [] = None" "head_of (k # ks) = Some k"
  by (simp_all add: head_of_def)

lemma qchain_cong: "(\<And>k. k \<in> set ks \<Longrightarrow> b_qnext (bs ! k) = b_qnext (cs ! k)) \<Longrightarrow> qchain bs ks = qchain cs ks"
  by (induction bs ks rule: qchain.induct) auto

lemma qchain_tl: "qchain bs (k # ks) \<Longrightarrow> qchain bs ks"
  by (cases ks) auto

lemma queue_last_chain:
  "qchain bs (p # ks) \<Longrightarrow> \<forall>k \<in> set (p # ks). k < length bs \<Longrightarrow> length bs < LIST_NONE \<Longrightarrow> length ks < n \<Longrightarrow>
   queue_last n bs p = Ok (last (p # ks))"
proof (induction ks arbitrary: p n)
  case Nil
  then show ?case by (cases n) auto
next
  case (Cons k ks)
  then obtain m where n: "n = Suc m" by (cases n) auto
  have "queue_last m bs k = Ok (last (k # ks))" using Cons n by auto
  then show ?case using Cons.prems n by auto
qed

definition erase_q :: "buf \<Rightarrow> buf" where
  "erase_q b = b\<lparr>b_qnext := LIST_NONE\<rparr>"

lemma erase_q_upd [simp]: "erase_q (b\<lparr>b_qnext := n\<rparr>) = erase_q b"
  by (simp add: erase_q_def)

lemma erase_q_fields [simp]:
  "b_flags (erase_q b) = b_flags b" "b_lock (erase_q b) = b_lock b" "b_dev (erase_q b) = b_dev b"
  "b_blockno (erase_q b) = b_blockno b" "b_data (erase_q b) = b_data b" "b_self_ptr (erase_q b) = b_self_ptr b"
  by (simp_all add: erase_q_def)

lemma erase_q_data [simp]: "erase_q (b\<lparr>b_data := d\<rparr>) = (erase_q b)\<lparr>b_data := d\<rparr>"
  "erase_q (b\<lparr>b_flags := f\<rparr>) = (erase_q b)\<lparr>b_flags := f\<rparr>"
  by (simp_all add: erase_q_def)

lemma erase_eqD:
  assumes "map erase_q bs = map erase_q cs"
  shows "length bs = length cs"
    "k < length cs \<Longrightarrow> b_flags (bs ! k) = b_flags (cs ! k)" "k < length cs \<Longrightarrow> b_lock (bs ! k) = b_lock (cs ! k)"
    "k < length cs \<Longrightarrow> b_dev (bs ! k) = b_dev (cs ! k)" "k < length cs \<Longrightarrow> b_blockno (bs ! k) = b_blockno (cs ! k)"
    "k < length cs \<Longrightarrow> b_self_ptr (bs ! k) = b_self_ptr (cs ! k)"
proof -
  show len: "length bs = length cs" using assms map_eq_imp_length_eq by blast
  have "erase_q (bs ! k) = erase_q (cs ! k)" if "k < length cs" for k using assms len that by (metis nth_map)
  then show "k < length cs \<Longrightarrow> b_flags (bs ! k) = b_flags (cs ! k)" "k < length cs \<Longrightarrow> b_lock (bs ! k) = b_lock (cs ! k)"
    "k < length cs \<Longrightarrow> b_dev (bs ! k) = b_dev (cs ! k)" "k < length cs \<Longrightarrow> b_blockno (bs ! k) = b_blockno (cs ! k)"
    "k < length cs \<Longrightarrow> b_self_ptr (bs ! k) = b_self_ptr (cs ! k)"
    by (metis erase_q_fields)+
qed

lemma map_erase_upd: "k < length bs \<Longrightarrow> erase_q b = erase_q (bs ! k) \<Longrightarrow> map erase_q (bs[k := b]) = map erase_q bs"
  by (simp add: map_update list_update_same_conv)

lemma qchain_snoc:
  assumes "qchain bs (ks @ [l])" "distinct (ks @ [l, k])" "\<forall>x \<in> set (ks @ [l, k]). x < length bs"
  shows "qchain (bs[k := (bs ! k)\<lparr>b_qnext := LIST_NONE\<rparr>, l := (bs ! l)\<lparr>b_qnext := k\<rparr>]) (ks @ [l, k])"
  using assms
proof (induction ks rule: induct_list012)
  case (3 x y ks)
  then show ?case by auto
qed auto

text \<open>\<open>enqueue\<close> puts a buffer at the end and changes nothing but the links.\<close>

lemma enqueue_chain:
  assumes "qchain bs ks" "distinct (ks @ [k])" "\<forall>x \<in> set (ks @ [k]). x < length bs" "length bs < LIST_NONE"
    "b_self_ptr (bs ! k) = k"
  obtains bs' where "enqueue (head_of ks) k bs = Ok (head_of (ks @ [k]), bs')" "qchain bs' (ks @ [k])"
    "map erase_q bs' = map erase_q bs"
proof (cases ks rule: rev_cases)
  case Nil
  then show thesis using that [of "bs[k := (bs ! k)\<lparr>b_qnext := LIST_NONE\<rparr>]"] assms
    by (simp add: enqueue_def map_erase_upd)
next
  case (snoc us l)
  let ?b1 = "bs[k := (bs ! k)\<lparr>b_qnext := LIST_NONE\<rparr>]"
  let ?b2 = "?b1[l := (bs ! l)\<lparr>b_qnext := k\<rparr>]"
  obtain p ps where ks: "ks = p # ps" using snoc by (metis append_is_Nil_conv list.exhaust not_Cons_self2)
  have lk: "l \<noteq> k" "l < length bs" "k < length bs" using assms(2,3) snoc by auto
  have "qchain ?b1 ks = qchain bs ks" using assms(2) by (intro qchain_cong) (metis disjoint_insert(2) distinct_append list.set(2) nth_list_update_neq)
  moreover have "length ps < Suc (length bs)"
  proof -
    have "length ks \<le> length bs" using assms(2,3) card_mono [of "{..<length bs}" "set ks"] distinct_card [of ks] by fastforce
    then show ?thesis using ks by simp
  qed
  ultimately have "queue_last (Suc (length ?b1)) ?b1 p = Ok (last (p # ps))"
    using assms(1,3,4) ks by (intro queue_last_chain) auto
  moreover have "last (p # ps) = l" using snoc ks by (metis last_snoc)
  ultimately have "enqueue (head_of ks) k bs = Ok (head_of (ks @ [k]), ?b2)"
    using ks assms(5) lk by (simp add: enqueue_def Let_def del: queue_last.simps)
  moreover have "qchain ?b2 (ks @ [k])" using qchain_snoc [of bs us l k] assms(1-3) snoc by simp
  moreover have "map erase_q ?b2 = map erase_q bs" using lk by (simp add: map_erase_upd)
  ultimately show thesis using that by blast
qed

section \<open>The synchronous view\<close>

text \<open>
  What the cache sees of a state: the links of the queue do not count, and a request is done as soon
  as the controller has done it.
\<close>

definition done_head :: "'a sd_state_scheme \<Rightarrow> nat option" where
  "done_head s = (if busy_hw (sd_hw s) then None else QUEUE s)"

definition mark_done :: "nat option \<Rightarrow> buf list \<Rightarrow> buf list" where
  "mark_done h bs = (case h of None \<Rightarrow> bs | Some k \<Rightarrow> bs[k := (bs ! k)\<lparr>b_flags := flags_valid\<rparr>])"

definition sd_view :: "'a sd_state_scheme \<Rightarrow> bio_state" where
  "sd_view s = \<lparr>curpid = 0, bc_head = bc_head s, bc_tail = bc_tail s, bufs = mark_done (done_head s) (map erase_q (bufs s)),
     disk = disk s, wlog = wlog s\<rparr>"

text \<open>What happens in that view: the holder of a buffer has it transferred, or changes it.\<close>

datatype sd_event = Xfer u32 nat | Edit nat buf

definition edit_buf :: "nat \<Rightarrow> buf \<Rightarrow> 'a bio_state_scheme \<Rightarrow> 'a bio_state_scheme" where
  "edit_buf k b = upd_buf k (\<lambda>old. b\<lparr>b_self_ptr := b_self_ptr old, b_qnext := b_qnext old\<rparr>)"

fun ev_exec :: "sd_event \<Rightarrow> (bio_state, unit) kop" where
  "ev_exec (Xfer pid k) s = (let (r, t) = rdwr k (s\<lparr>curpid := pid\<rparr>) in (r, t\<lparr>curpid := curpid s\<rparr>))"
| "ev_exec (Edit k b) s = (Ok (), edit_buf k b s)"

fun xfers :: "sd_event list \<Rightarrow> (u32 \<times> nat) list" where
  "xfers [] = []"
| "xfers (Xfer pid k # es) = (pid, k) # xfers es"
| "xfers (Edit k b # es) = xfers es"

lemma xfers_append [simp]: "xfers (xs @ ys) = xfers xs @ xfers ys"
  by (induction xs rule: xfers.induct) auto

section \<open>Runs\<close>

text \<open>
  A process may ask for a buffer whose lock it holds, which has no request in progress, and which does
  not already hold what the disk holds.
\<close>

definition may_request :: "u32 \<Rightarrow> nat \<Rightarrow> nat \<Rightarrow> 'a sd_state_scheme \<Rightarrow> bool" where
  "may_request pid j k s \<longleftrightarrow> j < length (procs s) \<and> k < length (bufs s) \<and> sl_holding pid (b_lock (bufs s ! k)) \<and>
     b_flags (bufs s ! k) \<noteq> flags_valid \<and> b_dev (bufs s ! k) = ROOTDEV \<and> unat (b_blockno (bufs s ! k)) < 2 ^ 45"

text \<open>
  \<open>sd_run s0 s rs n tr W\<close>: from \<open>s0\<close> to \<open>s\<close> with the requests \<open>rs\<close>, of which the interrupts of the first \<open>n\<close>
  have been handled; \<open>tr\<close> is what happened in the synchronous view, and \<open>W\<close> are the processes inside
  \<open>rdwr\<close>, each with its buffer. Processes are otherwise scheduled as the rest of the system likes, but
  only \<open>rdwr\<close> puts them to sleep on a buffer. An interrupt may come whenever the controller is idle, also when the queue is empty: these
  are more runs than the hardware has, whose rules for the delivery of interrupts are added further down (\<open>sd_sys\<close>). A command that completes while
  a handler is running is taken to complete after it; once the handler has started that command it only writes the acknowledgements,
  which no transfer depends on.
\<close>

inductive sd_run :: "'a sd_state_scheme \<Rightarrow> 'a sd_state_scheme \<Rightarrow> (u32 \<times> nat) list \<Rightarrow> nat \<Rightarrow> sd_event list \<Rightarrow> (nat \<times> nat) set \<Rightarrow> bool"
  for s0 where
  start: "sd_run s0 s0 [] 0 [] {}"
| request: "sd_run s0 s rs n tr W \<Longrightarrow> may_request pid j k s \<Longrightarrow> k \<notin> snd ` W \<Longrightarrow>
    sd_rdwr tfd j k (s\<lparr>curpid := pid\<rparr>) = (Ok r, s') \<Longrightarrow>
    sd_run s0 s' (rs @ [(pid, k)]) n tr (if r then W else insert (j, k) W)"
| complete: "sd_run s0 s rs n tr W \<Longrightarrow> controller_step s = Some (k, s') \<Longrightarrow>
    sd_run s0 s' rs n (tr @ [Xfer (fst (rs ! n)) k]) W"
| interrupt: "sd_run s0 s rs n tr W \<Longrightarrow> \<not> busy_hw (sd_hw s) \<Longrightarrow> sd_interrupt tfd s = (Ok (), s') \<Longrightarrow>
    sd_run s0 s' rs (if QUEUE s = None then n else n + 1) tr W"
| resume: "sd_run s0 s rs n tr W \<Longrightarrow> (j, k) \<in> W \<Longrightarrow> sd_test j k s = (Ok r, s') \<Longrightarrow>
    sd_run s0 s' rs n tr (if r then W - {(j, k)} else W)"
| edit: "sd_run s0 s rs n tr W \<Longrightarrow> k < length (bufs s) \<Longrightarrow> k \<notin> snd ` W \<Longrightarrow>
    sd_run s0 (edit_buf k b s) rs n (tr @ [Edit k b]) W"
| schedule: "sd_run s0 s rs n tr W \<Longrightarrow> length ps = length (procs s) \<Longrightarrow>
    (\<forall>j < length ps. \<forall>k. p_state (ps ! j) = SLEEPING (buf_chan s k) \<longrightarrow> p_state (procs s ! j) = p_state (ps ! j)) \<Longrightarrow>
    sd_run s0 (s\<lparr>procs := ps\<rparr>) rs n tr W"

text \<open>The invariant of a run.\<close>

definition queued :: "(u32 \<times> nat) list \<Rightarrow> nat \<Rightarrow> nat list" where
  "queued rs n = map snd (drop n rs)"

definition sd_static :: "'a sd_state_scheme \<Rightarrow> bool" where
  "sd_static s \<longleftrightarrow> length (bufs s) < LIST_NONE \<and> drive_ok (sd_hw s) \<and> (\<forall>k < length (bufs s). b_self_ptr (bufs s ! k) = k) \<and>
     (\<forall>k < length (bufs s). buf_pa s k AND 1 = 0) \<and> inj_on (buf_pa s) {..<length (bufs s)} \<and> inj_on (buf_chan s) {..<length (bufs s)}"

definition sd_queue_ok :: "(u32 \<times> nat) list \<Rightarrow> nat \<Rightarrow> 'a sd_state_scheme \<Rightarrow> bool" where
  "sd_queue_ok rs n s \<longleftrightarrow> n \<le> length rs \<and> QUEUE s = head_of (queued rs n) \<and> qchain (bufs s) (queued rs n) \<and>
     distinct (queued rs n) \<and> (\<forall>(pid, k) \<in> set (drop n rs). k < length (bufs s) \<and> sl_holding pid (b_lock (bufs s ! k)) \<and>
       b_flags (bufs s ! k) \<noteq> flags_valid \<and> b_dev (bufs s ! k) = ROOTDEV \<and> unat (b_blockno (bufs s ! k)) < 2 ^ 45)"

definition sd_hw_ok :: "'a sd_state_scheme \<Rightarrow> bool" where
  "sd_hw_ok s \<longleftrightarrow> (busy_hw (sd_hw s) \<longrightarrow> (case QUEUE s of None \<Rightarrow> False | Some k \<Rightarrow>
     controller_reads (drive_port (sd_hw s)) (the (DRIVE (sd_hw s))) =
       Some (block_request (DIRTY (b_flags (bufs s ! k))) (unat (b_blockno (bufs s ! k))) (buf_pa s k))))"

definition sd_waits_ok :: "(u32 \<times> nat) list \<Rightarrow> nat \<Rightarrow> (nat \<times> nat) set \<Rightarrow> 'a sd_state_scheme \<Rightarrow> bool" where
  "sd_waits_ok rs n W s \<longleftrightarrow> set (queued rs n) \<subseteq> snd ` W \<and>
     (\<forall>(j, k) \<in> W. j < length (procs s) \<and> k < length (bufs s) \<and> (k \<in> set (queued rs n) \<or> b_flags (bufs s ! k) = flags_valid)) \<and>
     (\<forall>j < length (procs s). \<forall>k < length (bufs s). p_state (procs s ! j) = SLEEPING (buf_chan s k) \<longrightarrow> k \<in> set (queued rs n))"

definition sd_sim :: "'a sd_state_scheme \<Rightarrow> (u32 \<times> nat) list \<Rightarrow> nat \<Rightarrow> sd_event list \<Rightarrow> 'a sd_state_scheme \<Rightarrow> bool" where
  "sd_sim s0 rs n tr s \<longleftrightarrow> xfers tr = take (n + (if done_head s = None then 0 else 1)) rs \<and>
     run_all ev_exec tr (sd_view s0) = (Ok (), sd_view s)"

definition sd_inv :: "'a sd_state_scheme \<Rightarrow> (u32 \<times> nat) list \<Rightarrow> nat \<Rightarrow> sd_event list \<Rightarrow> (nat \<times> nat) set \<Rightarrow> 'a sd_state_scheme \<Rightarrow> bool" where
  "sd_inv s0 rs n tr W s \<longleftrightarrow> sd_static s \<and> sd_queue_ok rs n s \<and> sd_hw_ok s \<and> sd_waits_ok rs n W s \<and> sd_sim s0 rs n tr s"

section \<open>Starting a command\<close>

lemma busy_if_reads: "controller_reads (drive_port h) d = Some rq \<Longrightarrow> busy_hw h"
  by (auto simp: controller_reads_def busy_hw_def Let_def split: if_splits)

lemma sd_start_eq:
  assumes "drive_ok (sd_hw s)" "unat (b_blockno (bufs s ! k)) < 2 ^ 45"
  shows "sd_start tfd k s = on_hw (block_cmd (DIRTY (b_flags (bufs s ! k))) tfd (buf_pa s k)
    (of_nat (unat (b_blockno (bufs s ! k)) * PAGE_SIZE))) s"
proof -
  have "DRIVE (sd_hw s) \<noteq> None" using assms(1) by (auto simp: drive_ok_def split: option.splits)
  moreover have "unat (b_blockno (bufs s ! k)) * BSIZE < 2 ^ 64" using assms(2) by simp
  ultimately show ?thesis by (simp add: sd_start_def block_cmd_def kop_direct Let_def)
qed

text \<open>A command that is started is the one for the buffer.\<close>

lemma sd_start_ok:
  assumes "drive_ok (sd_hw s)" "unat (b_blockno (bufs s ! k)) < 2 ^ 45" "buf_pa s k AND 1 = 0" "port_wait WAIT_POLLS tfd 0 = Ok ()"
  obtains h where "sd_start tfd k s = (Ok (), s\<lparr>sd_hw := h\<rparr>)" "drive_ok h" "busy_hw h"
    "controller_reads (drive_port h) (the (DRIVE h)) =
       Some (block_request (DIRTY (b_flags (bufs s ! k))) (unat (b_blockno (bufs s ! k))) (buf_pa s k))"
proof -
  obtain h where h: "block_cmd (DIRTY (b_flags (bufs s ! k))) tfd (buf_pa s k)
      (of_nat (unat (b_blockno (bufs s ! k)) * PAGE_SIZE)) (sd_hw s) = (Ok (), h)" "drive_ok h"
    "controller_reads (drive_port h) (the (DRIVE h)) =
       Some (block_request (DIRTY (b_flags (bufs s ! k))) (unat (b_blockno (bufs s ! k))) (buf_pa s k))"
    by (rule block_cmd_ok [OF assms(1,4,3,2)])
  show thesis using that [of h] h busy_if_reads [OF h(3)] by (simp add: sd_start_eq [OF assms(1,2)] on_hw_def del: of_nat_mult)
qed

lemma sd_start_waits:
  assumes "drive_ok (sd_hw s)" "unat (b_blockno (bufs s ! k)) < 2 ^ 45" "buf_pa s k AND 1 = 0" "sd_start tfd k s = (Ok (), s')"
  shows "port_wait WAIT_POLLS tfd 0 = Ok ()"
  using assms(4) block_cmd_waits [OF assms(1) _ assms(3)] unfolding sd_start_eq [OF assms(1,2)] on_hw_def
  by (auto simp: Let_def split: prod.splits)

section \<open>Requests\<close>

lemma queued_less: "sd_queue_ok rs n s \<Longrightarrow> k \<in> set (queued rs n) \<Longrightarrow> k < length (bufs s)"
  by (auto simp: sd_queue_ok_def queued_def)

lemma flags_valid_iff: "VALID f \<and> \<not> DIRTY f \<longleftrightarrow> f = flags_valid" for f :: buf_flags
  by (cases f) (auto simp: flags_valid_def)

lemma sd_test_run:
  "b_flags (bufs s ! k) = flags_valid \<Longrightarrow> sd_test j k s = (Ok True, s)"
  "b_flags (bufs s ! k) \<noteq> flags_valid \<Longrightarrow> j < length (procs s) \<Longrightarrow>
     sd_test j k s = (Ok False, s\<lparr>procs := (procs s)[j := (procs s ! j)\<lparr>p_state := SLEEPING (buf_chan s k)\<rparr>]\<rparr>)"
  by (simp_all add: sd_test_def flags_valid_iff psleep_def sched_def modp_def getp_def kop_simps)

text \<open>A request ends with its process asleep and the buffer at the end of the queue.\<close>

lemma sd_rdwr_run:
  assumes st: "sd_static s" and q: "sd_queue_ok rs n s" and req: "may_request pid j k s" "k \<notin> set (queued rs n)"
    and wait: "queued rs n = [] \<Longrightarrow> port_wait WAIT_POLLS tfd 0 = Ok ()"
  obtains h bs where
    "sd_rdwr tfd j k (s\<lparr>curpid := pid\<rparr>) = (Ok False, s\<lparr>curpid := pid, sd_hw := h, QUEUE := head_of (queued rs n @ [k]), bufs := bs,
       procs := (procs s)[j := (procs s ! j)\<lparr>p_state := SLEEPING (buf_chan s k)\<rparr>]\<rparr>)"
    "qchain bs (queued rs n @ [k])" "map erase_q bs = map erase_q (bufs s)" "drive_ok h"
    "if queued rs n = [] then busy_hw h \<and> controller_reads (drive_port h) (the (DRIVE h)) =
        Some (block_request (DIRTY (b_flags (bufs s ! k))) (unat (b_blockno (bufs s ! k))) (buf_pa s k)) else h = sd_hw s"
proof -
  let ?s1 = "s\<lparr>curpid := pid\<rparr>"
  have k: "k < length (bufs s)" "j < length (procs s)" "b_flags (bufs s ! k) \<noteq> flags_valid" "unat (b_blockno (bufs s ! k)) < 2 ^ 45"
    "buf_is_locked k ?s1" using req(1) by (simp_all add: may_request_def buf_is_locked_def)
  have drv: "drive_ok (sd_hw s)" "buf_pa s k AND 1 = 0" "length (bufs s) < LIST_NONE" "b_self_ptr (bufs s ! k) = k"
    using st k(1) by (simp_all add: sd_static_def)
  have queue: "QUEUE s = head_of (queued rs n)" "qchain (bufs s) (queued rs n)" "distinct (queued rs n @ [k])"
    "\<forall>x \<in> set (queued rs n @ [k]). x < length (bufs s)"
    using q req(2) k(1) queued_less [OF q] by (auto simp: sd_queue_ok_def)
  obtain bs where bs: "enqueue (head_of (queued rs n)) k (bufs s) = Ok (head_of (queued rs n @ [k]), bs)"
    "qchain bs (queued rs n @ [k])" "map erase_q bs = map erase_q (bufs s)"
    by (rule enqueue_chain [OF queue(2,3,4) drv(3,4)])
  obtain h where h: "(if QUEUE s = None then sd_start tfd k else ret ()) ?s1 = (Ok (), ?s1\<lparr>sd_hw := h\<rparr>)" "drive_ok h"
    "if queued rs n = [] then busy_hw h \<and> controller_reads (drive_port h) (the (DRIVE h)) =
        Some (block_request (DIRTY (b_flags (bufs s ! k))) (unat (b_blockno (bufs s ! k))) (buf_pa s k)) else h = sd_hw s"
  proof (cases "queued rs n")
    case Nil
    obtain h where "sd_start tfd k ?s1 = (Ok (), ?s1\<lparr>sd_hw := h\<rparr>)" "drive_ok h" "busy_hw h"
      "controller_reads (drive_port h) (the (DRIVE h)) =
         Some (block_request (DIRTY (b_flags (bufs s ! k))) (unat (b_blockno (bufs s ! k))) (buf_pa s k))"
      by (rule sd_start_ok [of ?s1 k tfd]) (use drv k wait [OF Nil] in auto)
    then show thesis using that Nil queue(1) by simp
  next
    case (Cons x xs)
    then show thesis using that [of "sd_hw s"] queue(1) drv(1) by (simp add: kop_simps)
  qed
  have flags: "b_flags (bs ! k) = b_flags (bufs s ! k)" using erase_eqD(2) [OF bs(3) k(1)] .
  let ?s2 = "?s1\<lparr>sd_hw := h, QUEUE := head_of (queued rs n @ [k]), bufs := bs\<rparr>"
  have "sd_enqueue k (?s1\<lparr>sd_hw := h\<rparr>) = (Ok (), ?s2)"
    using bs(1) queue(1) by (simp add: sd_enqueue_def kop_simps)
  moreover have "sd_test j k ?s2 = (Ok False, ?s2\<lparr>procs := (procs s)[j := (procs s ! j)\<lparr>p_state := SLEEPING (buf_chan s k)\<rparr>]\<rparr>)"
    using sd_test_run(2) [of ?s2 k j] flags k(2,3) by simp
  ultimately have "sd_rdwr tfd j k ?s1 = (Ok False, s\<lparr>curpid := pid, sd_hw := h, QUEUE := head_of (queued rs n @ [k]), bufs := bs,
       procs := (procs s)[j := (procs s ! j)\<lparr>p_state := SLEEPING (buf_chan s k)\<rparr>]\<rparr>)"
    using h(1) k(3,5) by (simp add: sd_rdwr_def kop_direct seqk_run)
  then show thesis using that bs h by blast
qed

lemma sd_rdwr_waits:
  assumes "QUEUE s = None" "sd_rdwr tfd j k s = (Ok r, s')"
  shows "\<exists>t. sd_start tfd k s = (Ok (), t)"
  using assms by (auto simp: sd_rdwr_def kop_direct seqk_Ok_iff split: if_splits)

lemma queued_snoc: "n \<le> length rs \<Longrightarrow> queued (rs @ [(pid, k)]) n = queued rs n @ [k]"
  by (simp add: queued_def)

lemma queued_Cons:
  assumes "queued rs n = k # ks"
  shows "n < length rs" "drop n rs = rs ! n # drop (n + 1) rs" "snd (rs ! n) = k" "queued rs (n + 1) = ks"
proof -
  show n: "n < length rs" using assms by (cases "n < length rs") (simp_all add: queued_def)
  then show d: "drop n rs = rs ! n # drop (n + 1) rs" by (simp add: Cons_nth_drop_Suc)
  show "snd (rs ! n) = k" "queued rs (n + 1) = ks" using assms d by (simp_all add: queued_def)
qed

lemma sd_inv_parts:
  assumes "sd_inv s0 rs n tr W s"
  shows "sd_static s" "sd_queue_ok rs n s" "sd_hw_ok s" "sd_waits_ok rs n W s" "sd_sim s0 rs n tr s" "n \<le> length rs"
    "QUEUE s = head_of (queued rs n)" "distinct (queued rs n)" "set (queued rs n) \<subseteq> snd ` W"
  using assms by (simp_all add: sd_inv_def sd_queue_ok_def sd_waits_ok_def)

lemma sd_request_inv:
  assumes inv: "sd_inv s0 rs n tr W s" and req: "may_request pid j k s" "k \<notin> snd ` W"
    and run: "sd_rdwr tfd j k (s\<lparr>curpid := pid\<rparr>) = (Ok r, s')"
  shows "\<not> r \<and> sd_inv s0 (rs @ [(pid, k)]) n tr (insert (j, k) W) s'"
proof -
  note parts = sd_inv_parts [OF inv]
  have k: "k < length (bufs s)" "j < length (procs s)" using req(1) by (simp_all add: may_request_def)
  have new: "k \<notin> set (queued rs n)" using parts(9) req(2) by blast
  have "port_wait WAIT_POLLS tfd 0 = Ok ()" if empty: "queued rs n = []"
  proof -
    obtain t where "sd_start tfd k (s\<lparr>curpid := pid\<rparr>) = (Ok (), t)"
      using sd_rdwr_waits [OF _ run] parts(7) empty by auto
    then show ?thesis using sd_start_waits [of "s\<lparr>curpid := pid\<rparr>" k tfd t] parts(1) req(1) by (simp add: sd_static_def may_request_def)
  qed
  then obtain h bs where s': "sd_rdwr tfd j k (s\<lparr>curpid := pid\<rparr>) = (Ok False, s\<lparr>curpid := pid, sd_hw := h, QUEUE := head_of (queued rs n @ [k]), bufs := bs,
       procs := (procs s)[j := (procs s ! j)\<lparr>p_state := SLEEPING (buf_chan s k)\<rparr>]\<rparr>)"
    and bs: "qchain bs (queued rs n @ [k])" "map erase_q bs = map erase_q (bufs s)" and h: "drive_ok h"
    "if queued rs n = [] then busy_hw h \<and> controller_reads (drive_port h) (the (DRIVE h)) =
        Some (block_request (DIRTY (b_flags (bufs s ! k))) (unat (b_blockno (bufs s ! k))) (buf_pa s k)) else h = sd_hw s"
    using sd_rdwr_run [OF parts(1,2) req(1) new] by metis
  have r: "\<not> r" and s'eq: "s' = s\<lparr>curpid := pid, sd_hw := h, QUEUE := head_of (queued rs n @ [k]), bufs := bs,
       procs := (procs s)[j := (procs s ! j)\<lparr>p_state := SLEEPING (buf_chan s k)\<rparr>]\<rparr>" using run s' by auto
  note same = erase_eqD [OF bs(2)] and queue = queued_snoc [OF parts(6), of pid k]
  have "sd_static s'" using parts(1) same h(1) by (simp add: sd_static_def s'eq)
  moreover have "sd_queue_ok (rs @ [(pid, k)]) n s'"
    using parts(2) bs(1) new req(1) same unfolding sd_queue_ok_def queue by (auto simp: s'eq may_request_def)
  moreover have "sd_hw_ok s'"
    using parts(3,7) h(2) same(2,5) queued_less [OF parts(2)] k(1) by (cases "queued rs n") (auto simp: sd_hw_ok_def s'eq)
  moreover have "sd_waits_ok (rs @ [(pid, k)]) n (insert (j, k) W) s'"
  proof -
    have "j' < length (procs s) \<Longrightarrow> k' < length (bufs s) \<Longrightarrow> p_state (procs s' ! j') = SLEEPING (buf_chan s k') \<Longrightarrow>
        k' \<in> set (queued rs n @ [k])" for j' k'
      using parts(1,4) k by (cases "j' = j") (auto simp: s'eq sd_waits_ok_def sd_static_def inj_on_def)
    then show ?thesis using parts(4) k same unfolding sd_waits_ok_def queue by (auto simp: s'eq)
  qed
  moreover have "sd_sim s0 (rs @ [(pid, k)]) n tr s'"
  proof -
    have "done_head s' = done_head s" using h(2) parts(3,7) by (cases "queued rs n") (auto simp: done_head_def s'eq sd_hw_ok_def)
    moreover have "done_head s \<noteq> None \<Longrightarrow> n < length rs"
      using parts(7) queued_Cons(1) by (auto simp: done_head_def head_of_def split: list.splits if_splits)
    ultimately show ?thesis using parts(5,6) bs(2) by (auto simp: sd_sim_def sd_view_def s'eq)
  qed
  ultimately show ?thesis using r by (simp add: sd_inv_def)
qed

section \<open>Completion\<close>

lemma command_done_ok:
  assumes "drive_ok h"
  shows "drive_ok (command_done h)" "\<not> busy_hw (command_done h)"
proof -
  obtain d where d: "DRIVE h = Some d" "d_port d < length (hc_ports h)" using assms by (auto simp: drive_ok_def split: option.splits)
  then show "drive_ok (command_done h)" using assms by (simp add: drive_ok_def command_done_def)
  have "(x AND NOT 1) AND 1 = 0" for x :: u32 by (simp add: and.assoc)
  then show "\<not> busy_hw (command_done h)" using d by (simp add: busy_hw_def drive_port_def command_done_def vbit_clear_def)
qed

lemma block_lba_roundtrip: "(of_nat (rq_lba (block_request w (unat bn) pa) div 8) :: u64) = bn"
  by (simp add: block_request_def)

text \<open>The controller works on the first buffer of the queue.\<close>

lemma controller_step_head:
  assumes st: "sd_static s" and hw: "sd_hw_ok s" and step: "controller_step s = Some (k, s')" and less: "\<And>x. QUEUE s = Some x \<Longrightarrow> x < length (bufs s)"
  shows "busy_hw (sd_hw s)" "QUEUE s = Some k"
    "s' = (block_transfer (block_request (DIRTY (b_flags (bufs s ! k))) (unat (b_blockno (bufs s ! k))) (buf_pa s k)) k s)
       \<lparr>sd_hw := command_done (sd_hw s)\<rparr>"
proof -
  obtain rq where rq: "controller_reads (drive_port (sd_hw s)) (the (DRIVE (sd_hw s))) = Some rq"
    "position (\<lambda>k. buf_pa s k = rq_addr rq) [0..<length (bufs s)] = Some k"
    "s' = (block_transfer rq k s)\<lparr>sd_hw := command_done (sd_hw s)\<rparr>"
    using step by (auto simp: controller_step_def split: option.splits if_splits)
  show busy: "busy_hw (sd_hw s)" using busy_if_reads [OF rq(1)] .
  then obtain x where x: "QUEUE s = Some x"
    "rq = block_request (DIRTY (b_flags (bufs s ! x))) (unat (b_blockno (bufs s ! x))) (buf_pa s x)"
    using hw rq(1) by (auto simp: sd_hw_ok_def split: option.splits)
  have "k < length (bufs s)" "buf_pa s k = buf_pa s x" using rq(2) x(2) by (auto simp: position_Some block_request_def)
  then have "k = x" using st less [OF x(1)] by (auto simp: sd_static_def inj_on_def)
  then show "QUEUE s = Some k"
    "s' = (block_transfer (block_request (DIRTY (b_flags (bufs s ! k))) (unat (b_blockno (bufs s ! k))) (buf_pa s k)) k s)
       \<lparr>sd_hw := command_done (sd_hw s)\<rparr>" using x rq(3) by simp_all
qed

text \<open>What the controller does is the synchronous transfer.\<close>

lemma complete_is_rdwr:
  assumes "k < length (bufs s)" "QUEUE s = Some k" "busy_hw (sd_hw s)" "drive_ok (sd_hw s)" "sl_holding pid (b_lock (bufs s ! k))"
    "b_flags (bufs s ! k) \<noteq> flags_valid" "b_dev (bufs s ! k) = ROOTDEV"
    and s': "s' = (block_transfer (block_request (DIRTY (b_flags (bufs s ! k))) (unat (b_blockno (bufs s ! k))) (buf_pa s k)) k s)
       \<lparr>sd_hw := command_done (sd_hw s)\<rparr>"
  shows "ev_exec (Xfer pid k) (sd_view s) = (Ok (), sd_view s')"
proof -
  have d: "done_head s = None" "done_head s' = Some k"
    using assms(2,3) command_done_ok(2) [OF assms(4)] by (simp_all add: done_head_def s' block_transfer_def Let_def upd_buf_def)
  have rq: "rq_write (block_request w bn pa) = w" for w bn pa by (simp add: block_request_def)
  show ?thesis
  proof (cases "DIRTY (b_flags (bufs s ! k))")
    case True
    then show ?thesis using assms(1,5-7) d
      by (simp add: sd_view_def mark_done_def rdwr_def buf_is_locked_def Let_def s' block_transfer_def rq block_lba_roundtrip upd_buf_def)
  next
    case False
    then show ?thesis using assms(1,5-7) d
      by (simp add: sd_view_def mark_done_def rdwr_def buf_is_locked_def Let_def s' block_transfer_def rq block_lba_roundtrip upd_buf_def
          map_update)
  qed
qed

lemma block_transfer_bufs:
  assumes "k < length (bufs s)"
  obtains d where "bufs (block_transfer rq k s) = (bufs s)[k := (bufs s ! k)\<lparr>b_data := d\<rparr>]"
proof (cases "rq_write rq")
  case True
  then show thesis using that [of "b_data (bufs s ! k)"] by (simp add: block_transfer_def Let_def)
next
  case False
  then show thesis using that by (simp add: block_transfer_def Let_def upd_buf_def)
qed

lemma block_transfer_frame:
  "procs (block_transfer rq k s) = procs s" "QUEUE (block_transfer rq k s) = QUEUE s" "buf_pa (block_transfer rq k s) = buf_pa s"
  "buf_chan (block_transfer rq k s) = buf_chan s"
  by (simp_all add: block_transfer_def Let_def upd_buf_def)

lemma data_upd_fields:
  assumes "bs' = bs[k := (bs ! k)\<lparr>b_data := d\<rparr>]"
  shows "length bs' = length bs" "b_flags (bs' ! x) = b_flags (bs ! x)" "b_lock (bs' ! x) = b_lock (bs ! x)"
    "b_dev (bs' ! x) = b_dev (bs ! x)" "b_blockno (bs' ! x) = b_blockno (bs ! x)" "b_self_ptr (bs' ! x) = b_self_ptr (bs ! x)"
    "b_qnext (bs' ! x) = b_qnext (bs ! x)"
  using assms by (cases "x = k"; cases "k < length bs"; simp add: list_update_beyond)+

lemma sd_complete_inv:
  assumes inv: "sd_inv s0 rs n tr W s" and step: "controller_step s = Some (k, s')"
  shows "sd_inv s0 rs n (tr @ [Xfer (fst (rs ! n)) k]) W s'"
proof -
  note parts = sd_inv_parts [OF inv]
  have less: "x < length (bufs s)" if x: "QUEUE s = Some x" for x
    using queued_less [OF parts(2)] parts(7) x by (cases "queued rs n") auto
  note head = controller_step_head [OF parts(1,3) step less]
  obtain ks where q: "queued rs n = k # ks" using head(2) parts(7) by (cases "queued rs n") auto
  note next_req = queued_Cons [OF q]
  obtain d where "bufs s' = (bufs s)[k := (bufs s ! k)\<lparr>b_data := d\<rparr>]"
    using block_transfer_bufs [OF less [OF head(2)]] head(3) by auto
  note same = data_upd_fields [OF this]
  have frame: "procs s' = procs s" "QUEUE s' = QUEUE s" "buf_pa s' = buf_pa s" "buf_chan s' = buf_chan s" "sd_hw s' = command_done (sd_hw s)"
    using head(3) by (simp_all add: block_transfer_frame)
  have drv: "drive_ok (sd_hw s)" using parts(1) by (simp add: sd_static_def)
  have holder: "sl_holding (fst (rs ! n)) (b_lock (bufs s ! k))" "b_flags (bufs s ! k) \<noteq> flags_valid" "b_dev (bufs s ! k) = ROOTDEV"
    using parts(2) next_req(2,3) by (auto simp: sd_queue_ok_def split_beta)
  have "sd_static s'" using parts(1) command_done_ok(1) [OF drv] by (simp add: sd_static_def frame same)
  moreover have "sd_queue_ok rs n s'"
    using parts(2) qchain_cong [of "queued rs n" "bufs s'" "bufs s"] by (simp add: sd_queue_ok_def frame same)
  moreover have "sd_hw_ok s'" using command_done_ok(2) [OF drv] by (simp add: sd_hw_ok_def frame)
  moreover have "sd_waits_ok rs n W s'" using parts(4) by (simp add: sd_waits_ok_def frame same)
  moreover have "sd_sim s0 rs n (tr @ [Xfer (fst (rs ! n)) k]) s'"
  proof -
    have "done_head s = None" "done_head s' = Some k" using head(1,2) command_done_ok(2) [OF drv] by (simp_all add: done_head_def frame)
    moreover have "ev_exec (Xfer (fst (rs ! n)) k) (sd_view s) = (Ok (), sd_view s')"
      by (rule complete_is_rdwr [OF less [OF head(2)] head(2,1) drv holder head(3)])
    moreover have "(fst (rs ! n), k) = rs ! n" using next_req(3) by auto
    ultimately show ?thesis using parts(5) next_req(1)
      by (simp add: sd_sim_def run_all_append seqk_run take_Suc_conv_app_nth kop_simps del: ev_exec.simps)
  qed
  ultimately show ?thesis by (simp add: sd_inv_def)
qed

section \<open>Interrupts\<close>

lemma drive_eoi_ok:
  assumes "drive_ok h"
  obtains h' where "drive_eoi h = (Ok (), h')" "drive_ok h'" "busy_hw h' = busy_hw h"
    "controller_reads (drive_port h') (the (DRIVE h')) = controller_reads (drive_port h) (the (DRIVE h))"
proof -
  obtain d where d: "DRIVE h = Some d" "d_port d < length (hc_ports h)" using assms by (auto simp: drive_ok_def split: option.splits)
  let ?h = "h\<lparr>hc_ports := (hc_ports h)[d_port d := port_eoi (hc_ports h ! d_port d)], hc_intr_status := rw1c (hc_intr_status h) 0\<rparr>"
  show thesis
  proof (rule that [of ?h])
    show "drive_eoi h = (Ok (), ?h)" using d by (simp add: drive_eoi_def upd_port_def kop_simps)
    show "drive_ok ?h" using assms d by (simp add: drive_ok_def port_eoi_def)
  qed (use d in \<open>simp_all add: busy_hw_def drive_port_def port_eoi_def controller_reads_def Let_def\<close>)
qed

lemma dequeue_chain:
  assumes "qchain bs (k # ks)" "\<forall>x \<in> set (k # ks). x < length bs" "length bs < LIST_NONE"
  shows "dequeue (Some k) bs = Ok (Some (k, head_of ks))"
  using assms by (cases ks) (auto simp: dequeue_def Let_def)

definition after_intr :: "nat \<Rightarrow> nat list \<Rightarrow> 'a sd_state_scheme \<Rightarrow> 'a sd_state_scheme" where
  "after_intr k ks s = s\<lparr>QUEUE := head_of ks, bufs := (bufs s)[k := (bufs s ! k)\<lparr>b_flags := flags_valid\<rparr>],
     procs := map (wake_one (buf_chan s k)) (procs s)\<rparr>"

lemma sd_interrupt_eq:
  assumes "sd_static s" "sd_queue_ok rs n s" "queued rs n = k # ks"
  shows "sd_interrupt tfd s = seqk (case head_of ks of None \<Rightarrow> ret () | Some b \<Rightarrow> sd_start tfd b)
         (seqk (bnd (gets (\<lambda>s. DRIVE (sd_hw s))) (\<lambda>d. if d = None then panic ''spurious drive interrupt'' else on_hw drive_eoi))
         eoi) (after_intr k ks s)"
proof -
  have "dequeue (QUEUE s) (bufs s) = Ok (Some (k, head_of ks))"
    using assms queued_less [OF assms(2)] dequeue_chain [of "bufs s" k ks] by (simp add: sd_queue_ok_def sd_static_def)
  then show ?thesis
    by (simp add: sd_interrupt_def kop_direct set_flags_buf_def wakeup_def wakeup1_def after_intr_def upd_buf_def)
qed

text \<open>An interrupt takes the first buffer off the queue and starts the command for the next.\<close>

lemma sd_interrupt_run:
  assumes st: "sd_static s" and q: "sd_queue_ok rs n s" "queued rs n = k # ks"
    and wait: "ks \<noteq> [] \<Longrightarrow> port_wait WAIT_POLLS tfd 0 = Ok ()"
  obtains h where "sd_interrupt tfd s = (Ok (), (after_intr k ks s)\<lparr>sd_hw := h, eois := eois s + 1\<rparr>)" "drive_ok h"
    "case ks of [] \<Rightarrow> busy_hw h = busy_hw (sd_hw s) | b # _ \<Rightarrow> busy_hw h \<and> controller_reads (drive_port h) (the (DRIVE h)) =
        Some (block_request (DIRTY (b_flags (bufs s ! b))) (unat (b_blockno (bufs s ! b))) (buf_pa s b))"
proof -
  have drv: "drive_ok (sd_hw s)" using st by (simp add: sd_static_def)
  let ?s1 = "after_intr k ks s"
  obtain h where h: "(case head_of ks of None \<Rightarrow> ret () | Some b \<Rightarrow> sd_start tfd b) ?s1 = (Ok (), ?s1\<lparr>sd_hw := h\<rparr>)" "drive_ok h"
    "case ks of [] \<Rightarrow> busy_hw h = busy_hw (sd_hw s) | b # _ \<Rightarrow> busy_hw h \<and> controller_reads (drive_port h) (the (DRIVE h)) =
        Some (block_request (DIRTY (b_flags (bufs s ! b))) (unat (b_blockno (bufs s ! b))) (buf_pa s b))"
  proof (cases ks)
    case Nil
    then show thesis using that [of "sd_hw s"] drv by (simp add: kop_simps after_intr_def)
  next
    case (Cons b bs)
    have b: "b \<noteq> k" "b < length (bufs s)" "unat (b_blockno (bufs s ! b)) < 2 ^ 45" "buf_pa s b AND 1 = 0"
      using q queued_less [OF q(1)] st Cons by (auto simp: sd_queue_ok_def sd_static_def queued_def)
    obtain h where "sd_start tfd b ?s1 = (Ok (), ?s1\<lparr>sd_hw := h\<rparr>)" "drive_ok h" "busy_hw h"
      "controller_reads (drive_port h) (the (DRIVE h)) =
         Some (block_request (DIRTY (b_flags (bufs ?s1 ! b))) (unat (b_blockno (bufs ?s1 ! b))) (buf_pa ?s1 b))"
      by (rule sd_start_ok [of ?s1 b tfd]) (use b drv wait Cons in \<open>auto simp: after_intr_def\<close>)
    then show thesis using that Cons b(1) by (simp add: after_intr_def)
  qed
  obtain h' where h': "drive_eoi h = (Ok (), h')" "drive_ok h'" "busy_hw h' = busy_hw h"
    "controller_reads (drive_port h') (the (DRIVE h')) = controller_reads (drive_port h) (the (DRIVE h))"
    by (rule drive_eoi_ok [OF h(2)])
  have "DRIVE h \<noteq> None" using h(2) by (auto simp: drive_ok_def split: option.splits)
  then have "sd_interrupt tfd s = (Ok (), ?s1\<lparr>sd_hw := h', eois := eois s + 1\<rparr>)"
    using h(1) h'(1) by (simp add: sd_interrupt_eq [OF st q] kop_simps on_hw_def eoi_def after_intr_def)
  then show thesis using that h'(2-4) h(3) by (cases ks) auto
qed

lemma sd_interrupt_waits:
  assumes st: "sd_static s" and q: "sd_queue_ok rs n s" "queued rs n = k # ks" and run: "sd_interrupt tfd s = (Ok (), s')" and ks: "ks \<noteq> []"
  shows "port_wait WAIT_POLLS tfd 0 = Ok ()"
proof -
  obtain b bs where b: "ks = b # bs" using ks by (cases ks) auto
  obtain t where t: "sd_start tfd b (after_intr k ks s) = (Ok (), t)"
    using run by (auto simp: sd_interrupt_eq [OF st q] b seqk_Ok_iff)
  have "b \<noteq> k" "b < length (bufs s)" "unat (b_blockno (bufs s ! b)) < 2 ^ 45" "buf_pa s b AND 1 = 0"
    using q queued_less [OF q(1)] st b by (auto simp: sd_queue_ok_def sd_static_def queued_def)
  then show ?thesis using sd_start_waits [OF _ _ _ t] st by (simp add: after_intr_def sd_static_def)
qed

lemma after_intr_fields:
  assumes "s' = (after_intr k ks s)\<lparr>sd_hw := h, eois := e\<rparr>" "k < length (bufs s)"
  shows "length (bufs s') = length (bufs s)" "b_lock (bufs s' ! x) = b_lock (bufs s ! x)"
    "b_dev (bufs s' ! x) = b_dev (bufs s ! x)" "b_blockno (bufs s' ! x) = b_blockno (bufs s ! x)"
    "b_self_ptr (bufs s' ! x) = b_self_ptr (bufs s ! x)" "b_qnext (bufs s' ! x) = b_qnext (bufs s ! x)"
    "b_flags (bufs s' ! x) = (if x = k then flags_valid else b_flags (bufs s ! x))"
    "QUEUE s' = head_of ks" "sd_hw s' = h" "procs s' = map (wake_one (buf_chan s k)) (procs s)"
    "buf_pa s' = buf_pa s" "buf_chan s' = buf_chan s"
  using assms by (simp_all add: after_intr_def nth_list_update)

lemma wake_one_sleeping: "p_state (wake_one c p) = SLEEPING c' \<longleftrightarrow> p_state p = SLEEPING c' \<and> c \<noteq> c'"
  by (auto simp: wake_one_def)

lemma sd_interrupt_view:
  assumes "s' = (after_intr k ks s)\<lparr>sd_hw := h, eois := e\<rparr>" "k < length (bufs s)" "done_head s = Some k" "done_head s' = None"
  shows "sd_view s' = sd_view s"
proof -
  have "bufs s' = (bufs s)[k := (bufs s ! k)\<lparr>b_flags := flags_valid\<rparr>]" using assms(1) by (simp add: after_intr_def)
  then have "map erase_q (bufs s') = mark_done (Some k) (map erase_q (bufs s))" using assms(2) by (simp add: mark_done_def map_update)
  then show ?thesis using assms(3,4) by (simp add: sd_view_def mark_done_def) (simp add: assms(1) after_intr_def)
qed

lemma sd_interrupt_inv:
  assumes inv: "sd_inv s0 rs n tr W s" and idle: "\<not> busy_hw (sd_hw s)" and run: "sd_interrupt tfd s = (Ok (), s')"
  shows "sd_inv s0 rs (if QUEUE s = None then n else n + 1) tr W s'"
proof (cases "queued rs n")
  case Nil
  then have "QUEUE s = None" using sd_inv_parts(7) [OF inv] by simp
  then show ?thesis using inv run by (simp add: sd_interrupt_def dequeue_def kop_simps)
next
  case q: (Cons k ks)
  note parts = sd_inv_parts [OF inv] and next_req = queued_Cons [OF q]
  obtain h where "sd_interrupt tfd s = (Ok (), (after_intr k ks s)\<lparr>sd_hw := h, eois := eois s + 1\<rparr>)" and drv: "drive_ok h"
    and h: "case ks of [] \<Rightarrow> busy_hw h = busy_hw (sd_hw s) | b # _ \<Rightarrow> busy_hw h \<and> controller_reads (drive_port h) (the (DRIVE h)) =
        Some (block_request (DIRTY (b_flags (bufs s ! b))) (unat (b_blockno (bufs s ! b))) (buf_pa s b))"
    by (rule sd_interrupt_run [OF parts(1,2) q sd_interrupt_waits [OF parts(1,2) q run]])
  then have s': "s' = (after_intr k ks s)\<lparr>sd_hw := h, eois := eois s + 1\<rparr>" using run by simp
  have k: "k < length (bufs s)" "k \<notin> set ks" using queued_less [OF parts(2)] parts(8) q by auto
  note same = after_intr_fields [OF s' k(1)]
  have other: "x \<noteq> k" if "x \<in> set ks" for x using that k(2) by auto
  have "sd_static s'" using parts(1) drv by (simp add: sd_static_def same)
  moreover have "sd_queue_ok rs (n + 1) s'"
  proof -
    have "qchain (bufs s) ks" using parts(2) q qchain_tl by (auto simp: sd_queue_ok_def)
    then have "qchain (bufs s') ks" using qchain_cong [of ks "bufs s'" "bufs s"] same(6) by simp
    moreover have "snd x \<in> set ks" if "x \<in> set (drop (n + 1) rs)" for x using that next_req(4) by (auto simp: queued_def)
    ultimately show ?thesis using parts(2,8) next_req q other by (fastforce simp: sd_queue_ok_def same)
  qed
  moreover have "sd_hw_ok s'" using h idle other by (cases ks) (auto simp: sd_hw_ok_def same)
  moreover have "sd_waits_ok rs (n + 1) W s'"
  proof -
    have "k' \<in> set ks" if "j < length (procs s)" "k' < length (bufs s)" "p_state (procs s' ! j) = SLEEPING (buf_chan s k')" for j k'
      using that parts(4) q by (auto simp: sd_waits_ok_def same wake_one_sleeping split: if_splits)
    then show ?thesis using parts(4) unfolding sd_waits_ok_def next_req(4) q by (fastforce simp: same)
  qed
  moreover have "sd_sim s0 rs (n + 1) tr s'"
  proof -
    have d: "done_head s = Some k" "done_head s' = None"
      using idle parts(7) q h by (cases ks; simp add: done_head_def same)+
    show ?thesis using parts(5) d sd_interrupt_view [OF s' k(1) d] by (simp add: sd_sim_def)
  qed
  ultimately show ?thesis using parts(7) q by (simp add: sd_inv_def)
qed

section \<open>The rest of the system\<close>

lemma procs_upd_inv:
  assumes "sd_inv s0 rs n tr W s" "sd_waits_ok rs n W (s\<lparr>procs := ps\<rparr>)"
  shows "sd_inv s0 rs n tr W (s\<lparr>procs := ps\<rparr>)"
proof -
  have "done_head (s\<lparr>procs := ps\<rparr>) = done_head s" "sd_view (s\<lparr>procs := ps\<rparr>) = sd_view s"
    by (simp_all add: done_head_def sd_view_def)
  moreover have "sd_hw_ok (s\<lparr>procs := ps\<rparr>) = sd_hw_ok s" by (simp add: sd_hw_ok_def split: option.split)
  ultimately show ?thesis using assms by (simp add: sd_inv_def sd_static_def sd_queue_ok_def sd_sim_def)
qed

lemma sd_resume_inv:
  assumes inv: "sd_inv s0 rs n tr W s" and jk: "(j, k) \<in> W" and run: "sd_test j k s = (Ok r, s')"
  shows "sd_inv s0 rs n tr (if r then W - {(j, k)} else W) s'"
proof -
  note parts = sd_inv_parts [OF inv]
  have w: "j < length (procs s)" "k < length (bufs s)" using parts(4) jk by (auto simp: sd_waits_ok_def)
  show ?thesis
  proof (cases "b_flags (bufs s ! k) = flags_valid")
    case True
    then have "k \<notin> set (queued rs n)" using parts(2) by (fastforce simp: sd_queue_ok_def queued_def)
    then have "sd_waits_ok rs n (W - {(j, k)}) s" using parts(4) by (fastforce simp: sd_waits_ok_def)
    then show ?thesis using True run sd_test_run(1) [of s k j] inv by (auto simp: sd_inv_def)
  next
    case False
    then have r: "\<not> r" and s': "s' = s\<lparr>procs := (procs s)[j := (procs s ! j)\<lparr>p_state := SLEEPING (buf_chan s k)\<rparr>]\<rparr>"
      using run sd_test_run(2) [OF False w(1)] by auto
    have "k \<in> set (queued rs n)" using False parts(4) jk by (auto simp: sd_waits_ok_def)
    then have "k' \<in> set (queued rs n)"
      if "j' < length (procs s)" "k' < length (bufs s)" "p_state (procs s' ! j') = SLEEPING (buf_chan s k')" for j' k'
      using that parts(1,4) w by (cases "j' = j") (auto simp: s' sd_waits_ok_def sd_static_def inj_on_def)
    then have "sd_waits_ok rs n W s'" using parts(4) unfolding sd_waits_ok_def by (auto simp: s')
    then show ?thesis using r procs_upd_inv [OF inv] by (simp add: s')
  qed
qed

lemma sd_schedule_inv:
  assumes inv: "sd_inv s0 rs n tr W s" and ps: "length ps = length (procs s)"
    "\<forall>j < length ps. \<forall>k. p_state (ps ! j) = SLEEPING (buf_chan s k) \<longrightarrow> p_state (procs s ! j) = p_state (ps ! j)"
  shows "sd_inv s0 rs n tr W (s\<lparr>procs := ps\<rparr>)"
proof -
  have "sd_waits_ok rs n W (s\<lparr>procs := ps\<rparr>)" using sd_inv_parts(4) [OF inv] ps by (fastforce simp: sd_waits_ok_def)
  then show ?thesis by (rule procs_upd_inv [OF inv])
qed

lemma sd_edit_view:
  assumes "k < length (bufs s)" "done_head s \<noteq> Some k"
  shows "sd_view (edit_buf k b s) = edit_buf k b (sd_view s)"
  using assms by (auto simp: sd_view_def edit_buf_def upd_buf_def done_head_def mark_done_def map_update erase_q_def list_update_swap split: option.splits)

lemma sd_edit_inv:
  assumes inv: "sd_inv s0 rs n tr W s" and k: "k < length (bufs s)" "k \<notin> snd ` W"
  shows "sd_inv s0 rs n (tr @ [Edit k b]) W (edit_buf k b s)"
proof -
  note parts = sd_inv_parts [OF inv]
  let ?s = "edit_buf k b s"
  have frame: "procs ?s = procs s" "QUEUE ?s = QUEUE s" "buf_pa ?s = buf_pa s" "buf_chan ?s = buf_chan s" "sd_hw ?s = sd_hw s"
    "length (bufs ?s) = length (bufs s)" "done_head ?s = done_head s" "b_self_ptr (bufs ?s ! x) = b_self_ptr (bufs s ! x)"
    "b_qnext (bufs ?s ! x) = b_qnext (bufs s ! x)" for x
    using k(1) by (simp_all add: edit_buf_def upd_buf_def done_head_def nth_list_update)
  have q: "k \<notin> set (queued rs n)" using parts(9) k(2) by blast
  have other: "bufs ?s ! x = bufs s ! x" if "x \<noteq> k" for x using that by (simp add: edit_buf_def upd_buf_def)
  have "sd_static ?s" using parts(1) by (simp add: sd_static_def frame)
  moreover have "sd_queue_ok rs n ?s"
  proof -
    have "snd x \<noteq> k" if "x \<in> set (drop n rs)" for x using that q by (auto simp: queued_def)
    then show ?thesis using parts(2) qchain_cong [of "queued rs n" "bufs ?s" "bufs s"] other by (fastforce simp: sd_queue_ok_def frame)
  qed
  moreover have "sd_hw_ok ?s" using parts(3,7) q other by (cases "queued rs n") (auto simp: sd_hw_ok_def frame)
  moreover have "sd_waits_ok rs n W ?s"
  proof -
    have "snd x \<noteq> k" if "x \<in> W" for x using that k(2) by auto
    then show ?thesis using parts(4) other by (fastforce simp: sd_waits_ok_def frame)
  qed
  moreover have "sd_sim s0 rs n (tr @ [Edit k b]) ?s"
  proof -
    have "done_head s \<noteq> Some k" using q parts(7) by (cases "queued rs n") (auto simp: done_head_def)
    then show ?thesis using parts(5) sd_edit_view [OF k(1)] by (simp add: sd_sim_def frame run_all_append seqk_run kop_simps)
  qed
  ultimately show ?thesis by (simp add: sd_inv_def)
qed

section \<open>The driver\<close>

definition sd_ready :: "'a sd_state_scheme \<Rightarrow> bool" where
  "sd_ready s \<longleftrightarrow> sd_static s \<and> QUEUE s = None \<and> \<not> busy_hw (sd_hw s) \<and>
     (\<forall>p \<in> set (procs s). \<forall>k < length (bufs s). p_state p \<noteq> SLEEPING (buf_chan s k))"

lemma sd_ready_inv: "sd_ready s0 \<Longrightarrow> sd_inv s0 [] 0 [] {} s0"
  by (auto simp: sd_ready_def sd_inv_def sd_queue_ok_def queued_def sd_hw_ok_def sd_waits_ok_def sd_sim_def done_head_def ret_def)

lemma sd_run_inv: "sd_run s0 s rs n tr W \<Longrightarrow> sd_ready s0 \<Longrightarrow> sd_inv s0 rs n tr W s"
proof (induction rule: sd_run.induct)
  case start
  then show ?case by (rule sd_ready_inv)
next
  case (request s rs n tr W pid j k tfd r s')
  then show ?case using sd_request_inv [of s0 rs n tr W s pid j k tfd r s'] by simp
next
  case (complete s rs n tr W k s')
  then show ?case by (intro sd_complete_inv)
next
  case (interrupt s rs n tr W tfd s')
  then show ?case by (intro sd_interrupt_inv)
next
  case (resume s rs n tr W j k r s')
  then show ?case by (intro sd_resume_inv)
next
  case (edit s rs n tr W k b)
  then show ?case by (intro sd_edit_inv)
next
  case (schedule s rs n tr W ps)
  then show ?case by (intro sd_schedule_inv)
qed

text \<open>While there is a request, the controller can do it or its interrupt can be handled.\<close>

lemma sd_progress:
  assumes inv: "sd_inv s0 rs n tr W s" and q: "n < length rs" and wait: "port_wait WAIT_POLLS tfd 0 = Ok ()"
  shows "if busy_hw (sd_hw s) then (\<exists>s'. controller_step s = Some (snd (rs ! n), s')) else (\<exists>s'. sd_interrupt tfd s = (Ok (), s'))"
proof -
  note parts = sd_inv_parts [OF inv]
  obtain ks where ks: "queued rs n = snd (rs ! n) # ks" using q by (simp add: queued_def Cons_nth_drop_Suc [symmetric])
  let ?k = "snd (rs ! n)"
  have k: "?k < length (bufs s)" using queued_less [OF parts(2)] ks by simp
  have "\<exists>s'. controller_step s = Some (?k, s')" if busy: "busy_hw (sd_hw s)"
  proof -
    obtain d where d: "DRIVE (sd_hw s) = Some d" using parts(1) by (auto simp: sd_static_def drive_ok_def split: option.splits)
    have rq: "controller_reads (drive_port (sd_hw s)) d =
       Some (block_request (DIRTY (b_flags (bufs s ! ?k))) (unat (b_blockno (bufs s ! ?k))) (buf_pa s ?k))"
      using parts(3,7) busy ks d by (simp add: sd_hw_ok_def)
    have "inj_on (buf_pa s) {..<length (bufs s)}" using parts(1) by (simp add: sd_static_def)
    then have "buf_pa s x = buf_pa s ?k \<longleftrightarrow> x = ?k" if "x < length (bufs s)" for x using that k inj_on_eq_iff by fastforce
    then have "position (\<lambda>k. buf_pa s k = buf_pa s ?k) [0..<length (bufs s)] = Some ?k" using k by (simp add: position_Some)
    then show ?thesis by (simp add: controller_step_def d rq block_request_def)
  qed
  moreover have "\<exists>s'. sd_interrupt tfd s = (Ok (), s')" by (rule sd_interrupt_run [OF parts(1,2) ks, of tfd]) (use wait in blast)+
  ultimately show ?thesis by simp
qed

text \<open>A request that may be made is accepted.\<close>

lemma sd_request_accepted:
  assumes run: "sd_run s0 s rs n tr W" "sd_ready s0" and req: "may_request pid j k s" "k \<notin> snd ` W"
    and wait: "port_wait WAIT_POLLS tfd 0 = Ok ()"
  obtains s' where "sd_run s0 s' (rs @ [(pid, k)]) n tr (insert (j, k) W)" "map erase_q (bufs s') = map erase_q (bufs s)"
    "length (procs s') = length (procs s)"
proof -
  note parts = sd_inv_parts [OF sd_run_inv [OF run]]
  have new: "k \<notin> set (queued rs n)" using parts(9) req(2) by blast
  obtain h bs where s': "sd_rdwr tfd j k (s\<lparr>curpid := pid\<rparr>) = (Ok False, s\<lparr>curpid := pid, sd_hw := h, QUEUE := head_of (queued rs n @ [k]), bufs := bs,
       procs := (procs s)[j := (procs s ! j)\<lparr>p_state := SLEEPING (buf_chan s k)\<rparr>]\<rparr>)" "map erase_q bs = map erase_q (bufs s)"
    by (rule sd_rdwr_run [OF parts(1,2) req(1) new wait])
  show thesis using that sd_run.request [OF run(1) req s'(1)] s'(2) by simp
qed

text \<open>One more request is dealt with by at most one transfer and one interrupt.\<close>

lemma sd_next_done:
  assumes run: "sd_run s0 s rs n tr W" "sd_ready s0" and n: "n < length rs" and wait: "port_wait WAIT_POLLS tfd 0 = Ok ()"
  obtains s' tr' where "sd_run s0 s' rs (n + 1) (tr @ tr') W"
proof -
  note result = that
  have step: thesis if r: "sd_run s0 t rs n (tr @ tr') W" "\<not> busy_hw (sd_hw t)" for t tr'
  proof -
    note inv = sd_run_inv [OF r(1) run(2)]
    have "QUEUE t \<noteq> None" using sd_inv_parts(7) [OF inv] n by (auto simp: queued_def head_of_def split: list.splits)
    moreover obtain s' where "sd_interrupt tfd t = (Ok (), s')" using sd_progress [OF inv n wait] r(2) by auto
    ultimately show thesis using result sd_run.interrupt [OF r] by fastforce
  qed
  show thesis
  proof (cases "busy_hw (sd_hw s)")
    case True
    note inv = sd_run_inv [OF run]
    obtain s' where s': "controller_step s = Some (snd (rs ! n), s')" using sd_progress [OF inv n wait] True by auto
    have "sd_hw s' = command_done (sd_hw s)" using s' by (auto simp: controller_step_def split: option.splits if_splits)
    moreover have "drive_ok (sd_hw s)" using sd_inv_parts(1) [OF inv] by (simp add: sd_static_def)
    ultimately show thesis using step [OF sd_run.complete [OF run(1) s']] command_done_ok(2) by simp
  next
    case False
    then show thesis using step [of s "[]"] run(1) by simp
  qed
qed

lemma sd_drain:
  assumes "sd_run s0 s rs n tr W" "sd_ready s0" "port_wait WAIT_POLLS tfd 0 = Ok ()"
  shows "\<exists>s' tr'. sd_run s0 s' rs (length rs) (tr @ tr') W"
  using assms(1)
proof (induction "length rs - n" arbitrary: s n tr)
  case 0
  then have "n = length rs" using sd_inv_parts(6) [OF sd_run_inv [OF 0(2) assms(2)]] by simp
  then show ?case using 0 append_Nil2 by metis
next
  case (Suc m)
  then have n: "n < length rs" by simp
  obtain s1 tr1 where r: "sd_run s0 s1 rs (n + 1) (tr @ tr1) W" by (rule sd_next_done [OF Suc.prems assms(2) n assms(3)])
  show ?case using Suc.hyps(1) [OF _ r] Suc.hyps(2) by fastforce
qed

text \<open>
  C4: The disk driver refines the synchronous transfer of the buffer cache. Whatever processes make
  requests, the controller completes commands and interrupts, sleepers are woken and scheduled, and
  the other buffers are changed meanwhile, the transfers done so far are the requests in the order
  they were made, each exactly once: those whose interrupt has been handled, and at most the next one.
  What the cache sees is the state after these transfers and changes by the synchronous \<open>rdwr\<close> of theory
  \<open>Bio\<close>, on which the proofs of the cache, the log and the file system rest. And a process only sleeps
  on a buffer whose request is still in the queue, so no wakeup is lost.
\<close>
theorem sd_refines_rdwr:
  assumes "sd_ready s0" "sd_run s0 s rs n tr W"
  shows "(\<exists>m \<in> {n, n + 1}. xfers tr = take m rs) \<and>
    run_all ev_exec tr (sd_view s0) = (Ok (), sd_view s) \<and>
    (\<forall>j < length (procs s). \<forall>k < length (bufs s).
       p_state (procs s ! j) = SLEEPING (buf_chan s k) \<longrightarrow> k \<in> set (map snd (drop n rs)))"
  using sd_run_inv [OF assms(2,1)] by (auto simp: sd_inv_def sd_sim_def sd_waits_ok_def queued_def)

section \<open>Interrupts as the hardware delivers them\<close>


text \<open>The registers that interrupts depend on, and what the operations do to them.\<close>

definition intr_regs :: "ahci \<Rightarrow> u32 \<times> u32 \<times> u32" where
  "intr_regs h = (ghc h, pt_intr_status (drive_port h), intr_enable (drive_port h))"

lemma raises_intr_regs: "intr_regs h = (g, st, en) \<Longrightarrow> raises_intr h \<longleftrightarrow> g AND 2 = 2 \<and> st AND en \<noteq> 0"
  by (auto simp: raises_intr_def intr_regs_def)


lemma command_done_regs:
  assumes "drive_ok h" "intr_regs h = (g, st, en)"
  shows "intr_regs (command_done h) = (g, st OR 1, en)"
proof -
  obtain d where "DRIVE h = Some d" "d_port d < length (hc_ports h)" using assms by (auto simp: drive_ok_def split: option.splits)
  then show ?thesis using assms(2) by (simp add: intr_regs_def drive_port_def command_done_def)
qed

lemma drive_eoi_regs:
  assumes "drive_ok h" "intr_regs h = (g, st, en)" "drive_eoi h = (Ok (), h')"
  shows "intr_regs h' = (g, 0, en)"
proof -
  obtain d where "DRIVE h = Some d" "d_port d < length (hc_ports h)" using assms by (auto simp: drive_ok_def split: option.splits)
  then show ?thesis using assms(2,3) by (auto simp: intr_regs_def drive_port_def drive_eoi_def upd_port_def kop_simps port_eoi_def rw1c_def)
qed




text \<open>An interrupt is pending exactly when the controller is done with a request, and none is in service between the steps.\<close>

definition intr_ok :: "(u32 \<times> nat) list \<Rightarrow> nat \<Rightarrow> bool \<Rightarrow> bool \<Rightarrow> nat \<Rightarrow> ahci \<Rightarrow> bool" where
  "intr_ok rs n irr isr h hw \<longleftrightarrow> (irr \<longleftrightarrow> n < length rs \<and> \<not> busy_hw hw) \<and> (raises_intr hw \<longleftrightarrow> irr) \<and> \<not> isr \<and>
     h = 2 * n + (if irr then 1 else 0) \<and> ghc hw AND 2 = 2 \<and> intr_enable (drive_port hw) AND 1 = 1"

lemma intr_ok_cong:
  "intr_regs hw = intr_regs hw' \<Longrightarrow> busy_hw hw = busy_hw hw' \<Longrightarrow> intr_ok rs n irr isr h hw = intr_ok rs n irr isr h hw'"
  by (simp add: intr_ok_def intr_regs_def raises_intr_def)









text \<open>
  Why the handler has to be one step. It acknowledges the port only after it has started the next command. If that command completes in between, the controller
  already raises its interrupt and sends no message, and the acknowledgement then clears the status: the interrupt is lost, and with it the driver.
\<close>

lemma sd_interrupt_lost:
  assumes "drive_ok h" "raises_intr h"
  shows "raises_intr (command_done h) \<and> \<not> busy_hw (command_done h) \<and>
    (\<exists>h'. drive_eoi (command_done h) = (Ok (), h') \<and> \<not> raises_intr h' \<and> \<not> busy_hw h')"
proof -
  obtain g st en where regs: "intr_regs h = (g, st, en)" by (cases "intr_regs h") auto
  note dn = command_done_regs [OF assms(1) regs] and ok = command_done_ok [OF assms(1)]
  have "raises_intr (command_done h)"
  proof -
    have "st AND en = 0" if "(st OR 1) AND en = 0"
    proof (rule bit_word_eqI)
      fix i
      have "\<not> bit ((st OR 1) AND en) i" by (simp add: that)
      then show "bit (st AND en) i = bit (0 :: u32) i" by (auto simp: bit_and_iff bit_or_iff)
    qed
    then show ?thesis using assms(2) raises_intr_regs [OF regs] raises_intr_regs [OF dn] by blast
  qed
  moreover obtain h' where h': "drive_eoi (command_done h) = (Ok (), h')" "busy_hw h' = busy_hw (command_done h)" by (rule drive_eoi_ok [OF ok(1)])
  ultimately show ?thesis using raises_intr_regs [OF drive_eoi_regs [OF ok(1) dn h'(1)]] ok(2) by auto
qed

section \<open>Two processes and two buffers\<close>

definition sd0 :: sd_state where
  "sd0 = trap_state.extend (piped_kernel\<lparr>procs := [proc_new, proc_new], bufs :=
       [(init_buf 2 0 page_empty)\<lparr>b_lock := \<lparr>sl_locked = True, sl_pid = 1\<rparr>, b_dev := ROOTDEV, b_blockno := 7\<rparr>,
        (init_buf 2 1 page_empty)\<lparr>b_lock := \<lparr>sl_locked = True, sl_pid = 2\<rparr>, b_dev := ROOTDEV, b_blockno := 9, b_flags := \<lparr>VALID = True, DIRTY = True\<rparr>\<rparr>]\<rparr>)
     (sd_state.fields ahci0 None (\<lambda>k. 0x9000 + of_nat k) (\<lambda>k. 0x200000 + 0x1000 * of_nat k))"

lemma sd0_fields:
  "procs sd0 = [proc_new, proc_new]" "sd_hw sd0 = ahci0" "QUEUE sd0 = None"
  "bufs sd0 = [(init_buf 2 0 page_empty)\<lparr>b_lock := \<lparr>sl_locked = True, sl_pid = 1\<rparr>, b_dev := ROOTDEV, b_blockno := 7\<rparr>,
        (init_buf 2 1 page_empty)\<lparr>b_lock := \<lparr>sl_locked = True, sl_pid = 2\<rparr>, b_dev := ROOTDEV, b_blockno := 9, b_flags := \<lparr>VALID = True, DIRTY = True\<rparr>\<rparr>]"
  "buf_chan sd0 = (\<lambda>k. 0x9000 + of_nat k)" "buf_pa sd0 = (\<lambda>k. 0x200000 + 0x1000 * of_nat k)"
  by (simp_all add: sd0_def trap_state.defs sd_state.defs)

lemma ahci0_idle: "\<not> busy_hw ahci0"
  by (simp add: busy_hw_def drive_port_def ahci0_def drive_of_page_def port_init_def port_start_def port_stop_def
      clear_sata_error_def port_zero_def Let_def)

lemma sd0_ready: "sd_ready sd0"
proof -
  have two: "{..<2 :: nat} = {0, 1}" "length (bufs sd0) = 2" by (auto simp: sd0_fields)
  have "inj_on (buf_pa sd0) {0, 1}" "inj_on (buf_chan sd0) {0, 1}" by (simp_all add: sd0_fields)
  moreover have "b_self_ptr (bufs sd0 ! 0) = 0" "b_self_ptr (bufs sd0 ! 1) = 1" by (simp_all add: sd0_fields init_buf_def buf_new_def)
  ultimately have "sd_static sd0"
    unfolding sd_static_def two by (simp add: sd0_fields(2,5,6) drive_ok_ahci0 less_2_cases_iff)
  then show ?thesis using ahci0_idle by (simp add: sd_ready_def sd0_fields proc_new_def)
qed

lemma drive_answers: "port_wait WAIT_POLLS (\<lambda>_. 0x50) 0 = Ok ()"
  by (simp add: port_wait_now tfd_busy_def flags_contain_def)

lemma sd0_run: "\<exists>s. sd_run sd0 s [(1, 0), (2, 1)] 0 [] {(1, 1), (0, 0)}"
proof -
  have r0: "may_request 1 0 0 sd0"
    by (simp add: may_request_def sd0_fields sl_holding_def init_buf_def buf_new_def flags_valid_def flags_empty_def)
  obtain s where s: "sd_run sd0 s ([] @ [(1, 0)]) 0 [] {(0, 0)}" "map erase_q (bufs s) = map erase_q (bufs sd0)"
    "length (procs s) = length (procs sd0)"
    by (rule sd_request_accepted [OF sd_run.start sd0_ready r0 _ drive_answers]) simp
  note same = erase_eqD [OF s(2)]
  have "may_request 2 1 1 s"
    using s(3) same(1) same(2-5) [of 1] by (simp add: may_request_def sd0_fields sl_holding_def init_buf_def buf_new_def flags_valid_def)
  then obtain s' where "sd_run sd0 s' (([] @ [(1, 0)]) @ [(2, 1)]) 0 [] (insert (1, 1) {(0, 0)})"
    by (rule sd_request_accepted [OF s(1) sd0_ready _ _ drive_answers]) simp
  then show ?thesis by auto
qed

theorem sd_refines_rdwr_witness:
  "\<exists>s tr. sd_run sd0 s [(1, 0), (2, 1)] (length [(1, 0), (2, 1)]) tr {(1, 1), (0, 0)} \<and>
    run_all ev_exec tr (sd_view sd0) = (Ok (), sd_view s) \<and> xfers tr = [(1, 0), (2, 1)]"
proof -
  obtain s tr where s: "sd_run sd0 s [(1, 0), (2, 1)] (length [(1, 0), (2, 1)]) tr {(1, 1), (0, 0)}"
    using sd0_run sd_drain [OF _ sd0_ready drive_answers] by fastforce
  show ?thesis using s sd_refines_rdwr [OF sd0_ready s] by (intro exI [of _ s] exI [of _ tr]) auto
qed





end
