(* ===== verification/Pci.thy ===== *)
theory Pci
  imports Acpi Ahci Vm
begin

text \<open>
  PCI (\<open>kernel/src/pci.rs\<close>, and \<open>init\<close> of \<open>sd.rs\<close>): the configuration space of each function as memory, the search
  for the disk controller, the mapping of its registers and the setup of its interrupt. The configuration
  registers are plain memory here, except that the answer to the size query of a base address register is
  an argument, like the answers to the polls of the drive.
\<close>

record hba_regs =
  hba_ghc :: u32
  hba_intr_status :: u32
  hba_ports_impl :: u32
  hba_ports :: "ahci_port list"

text \<open>
  The configuration bytes by kernel address, the page store, the registers of the disk controllers by the
  address in their base register, and the drive with its controller.
\<close>

record pci_state =
  pcfg :: "usize \<Rightarrow> u8"
  pc_mem :: pagemem
  hbas :: "u64 \<Rightarrow> hba_regs"
  sd_drive :: "(u64 \<times> drive) option"

section \<open>Addresses\<close>

text \<open>Devices and functions are their numbers.\<close>

definition DEVICES :: "nat list" where "DEVICES = [0..<32]"

definition FUNCTIONS :: "nat list" where "FUNCTIONS = [0..<8]"

definition func_addr :: "pci_config \<Rightarrow> u8 \<Rightarrow> nat \<Rightarrow> nat \<Rightarrow> u64 res" where
  "func_addr c bus device func =
     (if bus < start_bus c then Panic ''attempt to subtract with overflow''
      else let off = push_bit 20 (ucast (bus - start_bus c) :: u64)
           in if unat (cfg_phys_addr c) + unat off \<ge> 2 ^ 64 then Panic ''attempt to add with overflow''
              else Ok ((cfg_phys_addr c + off) OR push_bit 15 (of_nat device) OR push_bit 12 (of_nat func)))"

section \<open>Configuration space\<close>

definition conf_new :: "usize \<Rightarrow> usize res" where
  "conf_new base = (if base mod of_nat PAGE_SIZE = 0 then Ok base else Panic ''assertion failed'')"

definition conf_addr :: "usize \<Rightarrow> nat \<Rightarrow> usize res" where
  "conf_addr base off = (if off < PAGE_SIZE then Ok (base + of_nat off) else Panic ''assertion failed'')"

text \<open>\<open>read\<close> and \<open>write\<close> of a value of \<open>n\<close> bytes.\<close>

definition conf_read :: "nat \<Rightarrow> usize \<Rightarrow> nat \<Rightarrow> (pci_state, nat) kop" where
  "conf_read n base off = bnd (lift_res (\<lambda>_. conf_addr base off)) (\<lambda>a. gets (\<lambda>s. from_le (mem_bytes (pcfg s) a n)))"

definition put_bytes :: "usize \<Rightarrow> bytes \<Rightarrow> (usize \<Rightarrow> u8) \<Rightarrow> usize \<Rightarrow> u8" where
  "put_bytes a bs m x = (if unat (x - a) < length bs then bs ! unat (x - a) else m x)"

definition conf_write :: "nat \<Rightarrow> usize \<Rightarrow> nat \<Rightarrow> nat \<Rightarrow> (pci_state, unit) kop" where
  "conf_write n base off v = bnd (lift_res (\<lambda>_. conf_addr base off)) (\<lambda>a.
     modify (\<lambda>s. s\<lparr>pcfg := put_bytes a (to_le n v) (pcfg s)\<rparr>))"

abbreviation COMMAND_OFF :: nat where "COMMAND_OFF \<equiv> 4"

definition command_set :: "u16 \<Rightarrow> usize \<Rightarrow> (pci_state, unit) kop" where
  "command_set b base = bnd (conf_read 2 base COMMAND_OFF) (\<lambda>cmd. conf_write 2 base COMMAND_OFF (unat (of_nat cmd OR b)))"

definition enable_bus_master :: "usize \<Rightarrow> (pci_state, unit) kop" where
  "enable_bus_master = command_set 0x4"

definition enable_mem :: "usize \<Rightarrow> (pci_state, unit) kop" where
  "enable_mem = command_set 0x2"

definition disable_intr :: "usize \<Rightarrow> (pci_state, unit) kop" where
  "disable_intr = command_set 0x400"

text \<open>
  The walk through the list of capabilities. Its links are bytes of the device, and a cyclic list is walked for
  ever; \<open>n\<close> bounds the rounds.
\<close>

fun msi_walk :: "nat \<Rightarrow> usize \<Rightarrow> nat \<Rightarrow> (pci_state, nat option) kop" where
  "msi_walk 0 base p = (\<lambda>s. (Diverge, s))"
| "msi_walk (Suc n) base p =
     (if p = 0 then ret None
      else bnd (conf_read 1 base p) (\<lambda>ty. if ty = 5 then ret (Some p)
        else bnd (conf_read 1 base (p + 1)) (msi_walk n base)))"

definition find_msi_cap :: "usize \<Rightarrow> (pci_state, nat option) kop" where
  "find_msi_cap base =
     bnd (conf_read 2 base 6) (\<lambda>status.
     seqk (assertk ((of_nat status :: u16) AND 0x10 = 0x10) ''no cap list for MSI'')
     (bnd (conf_read 1 base 0x34) (msi_walk 257 base)))"

definition setup_msi :: "usize \<Rightarrow> u32 \<Rightarrow> u32 \<Rightarrow> (pci_state, unit) kop" where
  "setup_msi base cpu intr =
     bnd (bnd (find_msi_cap base) (\<lambda>r. case r of None \<Rightarrow> panic ''found MSI capability'' | Some p \<Rightarrow> ret p)) (\<lambda>p.
     bnd (conf_read 2 base (p + 2)) (\<lambda>ctl.
     seqk (assertk ((of_nat ctl :: u16) AND 0x80 \<noteq> 0) ''MSI capability is not 64-bit capable'')
     (seqk (enable_bus_master base)
     (seqk (disable_intr base)
     (seqk (assertk (32 + unat intr < 2 ^ 32) ''attempt to add with overflow'')
     (let data = (ucast (32 + intr) :: u16) AND 0xFF; addr = push_bit 20 0x0FEE OR (cpu AND 0xFF)
      in seqk (conf_write 4 base (p + 4) (unat addr))
         (seqk (conf_write 2 base (p + 12) (unat data))
         (conf_write 2 base (p + 2) (unat ((of_nat ctl :: u16) OR 1))))))))))"

section \<open>The disk controller\<close>

definition on_pages :: "(pagemem, 'r) kop \<Rightarrow> (pci_state, 'r) kop" where
  "on_pages m s = (let (r, t) = m (pc_mem s) in (r, s\<lparr>pc_mem := t\<rparr>))"

text \<open>What the device answers: the size query, and the polls and data of its drive.\<close>

record pci_answers =
  bar_bits :: u32
  poll_status :: "nat \<Rightarrow> u32"
  poll_tfd :: "nat \<Rightarrow> u32"
  poll_ci :: "nat \<Rightarrow> u32"
  ident_data :: bytes

definition mapabar :: "usize \<Rightarrow> u32 \<Rightarrow> u64 \<Rightarrow> (pci_state, u32 option) kop" where
  "mapabar root bits phys_addr =
     bnd (gets (\<lambda>s. of_nat (from_le (mem_bytes (pcfg s) (phys_to_addr phys_addr) 4)))) (\<lambda>bar :: u32.
     if bar = 0 \<or> bar AND 1 = 1 then ret None
     else
       (let m = NOT (bits AND NOT 0xF)
        in seqk (assertk (m \<noteq> NOT 0) ''attempt to add with overflow'')
           (seqk (assertk (unat bar + unat (m + 1) < 2 ^ 32) ''attempt to add with overflow'')
           (seqk (expectk ''mapped a BAR'' (on_pages (map_phys_dev_range root (ucast bar) (ucast (bar + (m + 1))))))
           (ret (Some bar))))))"

definition with_hba :: "u64 \<Rightarrow> (ahci, unit) kop \<Rightarrow> (pci_state, unit) kop" where
  "with_hba abar m s =
     (let h = hbas s abar;
          (r, a) = m \<lparr>ghc = hba_ghc h, hc_intr_status = hba_intr_status h, ports_impl = hba_ports_impl h, hc_ports = hba_ports h,
                      DRIVE = None, amem = pc_mem s\<rparr>
      in (r, s\<lparr>hbas := (hbas s)(abar := \<lparr>hba_ghc = ghc a, hba_intr_status = hc_intr_status a, hba_ports_impl = ports_impl a, hba_ports = hc_ports a\<rparr>),
               pc_mem := amem a, sd_drive := (case DRIVE a of None \<Rightarrow> sd_drive s | Some d \<Rightarrow> Some (abar, d))\<rparr>))"

definition sd_init :: "pci_answers \<Rightarrow> usize \<Rightarrow> u64 \<Rightarrow> (pci_state, unit) kop" where
  "sd_init ans conf abar =
     seqk (setup_msi conf 0 14)
     (with_hba abar (ahci_init (poll_status ans) (poll_tfd ans) (poll_ci ans) (ident_data ans)))"

section \<open>The scan\<close>

abbreviation ABAR_OFFSET :: u64 where "ABAR_OFFSET \<equiv> 0x24"

text \<open>One function of a device; the result tells whether to go on with the next one.\<close>

definition probe :: "usize \<Rightarrow> (u64 \<Rightarrow> pci_answers) \<Rightarrow> pci_config \<Rightarrow> u8 \<Rightarrow> nat \<Rightarrow> nat \<Rightarrow> (pci_state, bool) kop" where
  "probe root ans c bus device func =
     bnd (lift_res (\<lambda>_. func_addr c bus device func)) (\<lambda>phys_addr.
     bnd (lift_res (\<lambda>_. conf_new (phys_to_addr phys_addr))) (\<lambda>conf.
     bnd (conf_read 2 conf 0) (\<lambda>vendor_id.
     if vendor_id = 0xFFFF then ret False else
     bnd (conf_read 2 conf 2) (\<lambda>device_id.
     bnd (conf_read 4 conf 8) (\<lambda>class_rev.
     bnd (conf_read 1 conf 14) (\<lambda>ty.
     if (of_nat ty :: u8) AND 0x7F \<noteq> 0 then ret False
     else if vendor_id = 0x8086 \<and> device_id = 0x2922 \<and> class_rev div 2 ^ 24 = 1 \<and> class_rev div 2 ^ 16 mod 256 = 6 \<and>
             class_rev div 2 ^ 8 mod 256 = 1
     then
       seqk (enable_mem conf)
       (bnd (mapabar root (bar_bits (ans phys_addr)) (phys_addr + ABAR_OFFSET)) (\<lambda>r. case r of
          None \<Rightarrow> panic ''called `Option::unwrap()` on a `None` value''
        | Some bar \<Rightarrow> seqk (sd_init (ans phys_addr) conf (ucast bar)) (ret True)))
     else ret True))))))"

fun scan_funcs :: "usize \<Rightarrow> (u64 \<Rightarrow> pci_answers) \<Rightarrow> pci_config \<Rightarrow> u8 \<Rightarrow> nat \<Rightarrow> nat list \<Rightarrow> (pci_state, unit) kop" where
  "scan_funcs root ans c bus device [] = ret ()"
| "scan_funcs root ans c bus device (f # fs) =
     bnd (probe root ans c bus device f) (\<lambda>more. if more then scan_funcs root ans c bus device fs else ret ())"

definition scan_bus :: "usize \<Rightarrow> (u64 \<Rightarrow> pci_answers) \<Rightarrow> pci_config \<Rightarrow> nat \<Rightarrow> (pci_state, unit) kop" where
  "scan_bus root ans c bus = run_all (\<lambda>device. scan_funcs root ans c (of_nat bus) device FUNCTIONS) DEVICES"

definition scan_config :: "usize \<Rightarrow> (u64 \<Rightarrow> pci_answers) \<Rightarrow> pci_config \<Rightarrow> (pci_state, unit) kop" where
  "scan_config root ans c = run_all (scan_bus root ans c) [unat (start_bus c)..<unat (end_bus c)]"

definition pci_init :: "usize \<Rightarrow> (u64 \<Rightarrow> pci_answers) \<Rightarrow> acpi \<Rightarrow> (pci_state, unit) kop" where
  "pci_init root ans acpi = run_all (scan_config root ans) (pci_configs acpi)"

end
