(* ===== verification/PciProps.thy ===== *)
theory PciProps
  imports Pci
begin

text \<open>
  Every function has a page of configuration space of its own; the search for a capability ends within one
  round for each possible link or never; and the interrupt of a controller is set up as the trap handler
  expects it.
\<close>

section \<open>Pages of functions\<close>

lemma low_bits_clear:
  fixes x :: u64
  assumes "unat x mod 2 ^ n = 0" "m < n"
  shows "\<not> bit x m"
proof -
  have "take_bit n (unat x) = 0" using assms(1) by (simp add: take_bit_eq_mod)
  then have "\<not> bit (take_bit n (unat x)) m" by simp
  then show ?thesis using assms(2) by (simp add: bit_take_bit_iff bit_unsigned_iff)
qed

lemma unat_push_small: "x * 2 ^ n < 2 ^ 64 \<Longrightarrow> unat (push_bit n (of_nat x) :: u64) = x * 2 ^ n"
proof -
  assume a: "x * 2 ^ n < 2 ^ 64"
  have "push_bit n (of_nat x :: u64) = of_nat (x * 2 ^ n)" by (simp add: push_bit_eq_mult)
  then show ?thesis using a unat_of_nat64 [of "x * 2 ^ n"] by simp
qed

lemma bit_of_nat_small:
  assumes "d < 2 ^ k" "bit (of_nat d :: u64) n"
  shows "n < k"
proof (rule ccontr)
  assume n: "\<not> n < k"
  have "bit d n" using assms(2) by (simp add: bit_of_nat_iff)
  then have "odd (d div 2 ^ n)" by (simp add: bit_iff_odd)
  moreover have "d < 2 ^ n" by (rule less_le_trans [OF assms(1)]) (use n in \<open>simp add: power_increasing\<close>)
  ultimately show False by simp
qed

lemma or_disjoint: "(\<And>n. \<not> (bit a n \<and> bit b n)) \<Longrightarrow> a OR b = a + b" for a b :: u64
  by (simp add: disjunctive_add)

lemma conf_new_page:
  assumes "unat a mod 4096 = 0"
  shows "conf_new (phys_to_addr a) = Ok (phys_to_addr a)"
proof -
  have "unat (a mod 4096) = 0" using assms by (simp add: unat_mod)
  then have "a mod 4096 = 0" by (simp add: unat_eq_zero)
  moreover have "(unat a + 18446603336221196288) mod 4096 = 0"
    using assms mod_add_left_eq [of "unat a" 4096 18446603336221196288] by simp
  ultimately have "(a + KERNBASE) mod 4096 = 0" by (simp add: word_arith_nat_mod unat_word_ariths mod_mod_cancel)
  then show ?thesis by (simp add: conf_new_def phys_to_addr_def)
qed

text \<open>The address of a function is a number with a digit each for the bus, the device and the function.\<close>

lemma func_addr_nat:
  assumes "unat (cfg_phys_addr c) mod 2 ^ 20 = 0" "unat (cfg_phys_addr c) + 2 ^ 28 \<le> 2 ^ 64" "start_bus c \<le> bus" "d < 32" "f < 8"
  obtains a where "func_addr c bus d f = Ok a"
    "unat a = unat (cfg_phys_addr c) + (unat bus - unat (start_bus c)) * 2 ^ 20 + d * 2 ^ 15 + f * 2 ^ 12"
proof -
  let ?b = "unat bus - unat (start_bus c)"
  let ?off = "push_bit 20 (ucast (bus - start_bus c) :: u64)" and ?d = "push_bit 15 (of_nat d) :: u64" and ?f = "push_bit 12 (of_nat f) :: u64"
  have ub: "unat (bus - start_bus c) = ?b" using assms(3) by (rule unat_sub)
  have b: "?b < 256" using unat_less_pow8 [of bus] by linarith
  have "(ucast (bus - start_bus c) :: u64) = of_nat ?b" unfolding ub [symmetric] by simp
  then have off: "unat ?off = ?b * 2 ^ 20" using b unat_push_small [of ?b 20] by simp
  let ?x = "cfg_phys_addr c + ?off"
  have fits: "unat (cfg_phys_addr c) + unat ?off < 2 ^ 64" using off b assms(2) by simp
  then have x: "unat ?x = unat (cfg_phys_addr c) + ?b * 2 ^ 20" using off unat_add64_small by simp
  have ud: "unat ?d = d * 2 ^ 15" "unat ?f = f * 2 ^ 12" using assms(4,5) unat_push_small [of d 15] unat_push_small [of f 12] by simp_all
  have x0: "unat ?x mod 2 ^ 20 = 0" unfolding x using assms(1) by (simp add: mod_add_left_eq [symmetric])
  have lx: "\<not> bit ?x n" if "n < 20" for n by (rule low_bits_clear [OF x0 that])
  have ld: "bit ?d n \<Longrightarrow> 15 \<le> n \<and> n < 20" for n
    using bit_of_nat_small [of d 5 "n - 15"] assms(4) by (auto simp: bit_push_bit_iff)
  have lf: "bit ?f n \<Longrightarrow> 12 \<le> n \<and> n < 15" for n
    using bit_of_nat_small [of f 3 "n - 12"] assms(5) by (auto simp: bit_push_bit_iff)
  have xd: "?x OR ?d = ?x + ?d" by (rule or_disjoint) (use lx ld in blast)
  have "(?x OR ?d) OR ?f = (?x OR ?d) + ?f" by (rule or_disjoint) (use lx ld lf in \<open>fastforce simp: bit_or_iff\<close>)
  then have "func_addr c bus d f = Ok (?x + ?d + ?f)" using fits assms(3) by (simp add: func_addr_def Let_def xd not_less or.assoc [symmetric])
  moreover have "unat (?x + ?d + ?f) = unat ?x + unat ?d + unat ?f"
  proof -
    have r: "unat ?x + unat ?d + unat ?f < 2 ^ 64" using x ud b assms(2,4,5) by simp
    then have "unat (?x + ?d) = unat ?x + unat ?d" by (intro unat_add64_small) simp
    then show ?thesis using r by (subst unat_add64_small) simp_all
  qed
  ultimately show thesis using that x ud by simp
qed

lemma digits_eq:
  assumes "d < 32" "f < 8" "d' < 32" "f' < 8" "(b * 32 + d) * 8 + f = (b' * 32 + d') * 8 + f'"
  shows "b = b' \<and> d = d' \<and> (f :: nat) = f'"
proof -
  have "(x * 8 + f) mod 8 = f" "(x * 8 + f') mod 8 = f'" for x using assms(2,4) by simp_all
  from this [of "b * 32 + d"] this [of "b' * 32 + d'"]
  have f: "f = f'" unfolding assms(5) by simp
  then have e: "b * 32 + d = b' * 32 + d'" using assms(5) by simp
  have "(b * 32 + d) mod 32 = d" "(b' * 32 + d') mod 32 = d'" using assms(1,3) by simp_all
  then have "d = d'" using e by simp
  then show ?thesis using e f by simp
qed

text \<open>
  Each function has its own page of configuration space. For a configuration space that is aligned to
  the size of a bus and fits in memory, the address of every function of every bus in its range is computed
  without overflow, is page-aligned (so no assertion of \<open>Conf\<close> fails), lies within the space, and two
  different functions have different pages.
\<close>
theorem func_addr_pages:
  assumes "unat (cfg_phys_addr c) mod 2 ^ 20 = 0" "unat (cfg_phys_addr c) + 2 ^ 28 \<le> 2 ^ 64" "start_bus c \<le> bus" "d < 32" "f < 8"
  shows "\<exists>a. func_addr c bus d f = Ok a \<and> conf_new (phys_to_addr a) = Ok (phys_to_addr a) \<and> cfg_phys_addr c \<le> a \<and>
    unat a < unat (cfg_phys_addr c) + (unat bus - unat (start_bus c) + 1) * 2 ^ 20 \<and>
    (\<forall>bus' d' f'. start_bus c \<le> bus' \<and> d' < 32 \<and> f' < 8 \<and> func_addr c bus' d' f' = Ok a \<longrightarrow> bus' = bus \<and> d' = d \<and> f' = f)"
proof -
  obtain a where a: "func_addr c bus d f = Ok a"
    "unat a = unat (cfg_phys_addr c) + (unat bus - unat (start_bus c)) * 2 ^ 20 + d * 2 ^ 15 + f * 2 ^ 12"
    by (rule func_addr_nat [OF assms])
  have "unat (cfg_phys_addr c) mod 4096 = 0"
    using assms(1) mod_mod_cancel [of 4096 "2 ^ 20" "unat (cfg_phys_addr c)"] by simp
  then have "unat a mod 4096 = 0" unfolding a(2) by (simp add: mod_add_left_eq [symmetric] mod_add_eq [symmetric])
  then have "conf_new (phys_to_addr a) = Ok (phys_to_addr a)" by (rule conf_new_page)
  moreover have "bus' = bus \<and> d' = d \<and> f' = f"
    if h: "start_bus c \<le> bus'" "d' < 32" "f' < 8" "func_addr c bus' d' f' = Ok a" for bus' d' f'
  proof -
    obtain a' where "func_addr c bus' d' f' = Ok a'"
      "unat a' = unat (cfg_phys_addr c) + (unat bus' - unat (start_bus c)) * 2 ^ 20 + d' * 2 ^ 15 + f' * 2 ^ 12"
      by (rule func_addr_nat [OF assms(1,2) h(1-3)])
    then have "((unat bus - unat (start_bus c)) * 32 + d) * 8 + f = ((unat bus' - unat (start_bus c)) * 32 + d') * 8 + f'"
      using h(4) a by simp
    then have "unat bus - unat (start_bus c) = unat bus' - unat (start_bus c) \<and> d = d' \<and> f = f'"
      by (intro digits_eq assms(4,5) h(2,3))
    moreover have "unat (start_bus c) \<le> unat bus" "unat (start_bus c) \<le> unat bus'" using assms(3) h(1) by (simp_all add: word_le_nat_alt)
    ultimately have "unat bus' = unat bus \<and> d = d' \<and> f = f'" by linarith
    then show ?thesis by (simp add: word_unat_eq_iff)
  qed
  ultimately show ?thesis using a assms(4,5) by (intro exI [of _ a]) (auto simp: word_le_nat_alt)
qed

theorem func_addr_pages_witness:
  "\<exists>a. func_addr (config_new 0xB0000000 0 0 255) 1 31 2 = Ok a \<and> conf_new (phys_to_addr a) = Ok (phys_to_addr a)"
  using func_addr_pages [of "config_new 0xB0000000 0 0 255" 1 31 2] by (auto simp: config_new_def)

section \<open>The list of capabilities\<close>

text \<open>The byte at an offset, the links of the list, and where a search stops.\<close>

definition cbyte :: "usize \<Rightarrow> pci_state \<Rightarrow> nat \<Rightarrow> nat" where
  "cbyte base s off = unat (pcfg s (base + of_nat off))"

definition cap_ptr :: "usize \<Rightarrow> pci_state \<Rightarrow> nat \<Rightarrow> nat \<Rightarrow> nat" where
  "cap_ptr base s p k = ((\<lambda>q. cbyte base s (q + 1)) ^^ k) p"

definition cap_end :: "usize \<Rightarrow> pci_state \<Rightarrow> nat \<Rightarrow> bool" where
  "cap_end base s q \<longleftrightarrow> q = 0 \<or> cbyte base s q = 5"

lemma conf_read_byte: "off < PAGE_SIZE \<Longrightarrow> conf_read 1 base off s = (Ok (cbyte base s off), s)"
  by (simp add: conf_read_def conf_addr_def cbyte_def mem_bytes_def kop_simps)

lemma cbyte_less: "cbyte base s off < 256"
  by (simp add: cbyte_def)

lemma cap_ptr_simps: "cap_ptr base s p 0 = p" "cap_ptr base s p (Suc k) = cap_ptr base s (cbyte base s (p + 1)) k"
  by (simp_all add: cap_ptr_def funpow_Suc_right del: funpow.simps(2))

lemma cap_ptr_less: "p < 256 \<Longrightarrow> cap_ptr base s p k < 256"
  by (cases k) (simp_all add: cap_ptr_def cbyte_less)

lemma msi_walk_Suc:
  "p < 256 \<Longrightarrow> msi_walk (Suc n) base p s = (if p = 0 then (Ok None, s) else if cbyte base s p = 5 then (Ok (Some p), s)
     else msi_walk n base (cbyte base s (p + 1)) s)"
  using conf_read_byte [of p base s] conf_read_byte [of "p + 1" base s] by (simp add: bnd_run basic_run)

lemma msi_walk_unfinished:
  "p < 256 \<Longrightarrow> (\<forall>k < n. \<not> cap_end base s (cap_ptr base s p k)) \<Longrightarrow> msi_walk n base p s = (Diverge, s)"
proof (induction n arbitrary: p)
  case (Suc n)
  have "\<not> cap_end base s p" using Suc.prems(2) cap_ptr_simps(1) by (metis zero_less_Suc)
  moreover have "\<forall>k < n. \<not> cap_end base s (cap_ptr base s (cbyte base s (p + 1)) k)"
    unfolding cap_ptr_simps(2) [symmetric] using Suc.prems(2) by simp
  then have "msi_walk n base (cbyte base s (p + 1)) s = (Diverge, s)" by (rule Suc.IH [OF cbyte_less])
  ultimately show ?case using msi_walk_Suc [OF Suc.prems(1)] by (simp add: cap_end_def)
qed simp

lemma msi_walk_finished:
  "p < 256 \<Longrightarrow> k < n \<Longrightarrow> cap_end base s (cap_ptr base s p k) \<Longrightarrow> (\<forall>i < k. \<not> cap_end base s (cap_ptr base s p i)) \<Longrightarrow>
   msi_walk n base p s = (Ok (if cap_ptr base s p k = 0 then None else Some (cap_ptr base s p k)), s)"
proof (induction k arbitrary: p n)
  case 0
  then obtain m where "n = Suc m" by (cases n) auto
  then show ?case using 0 msi_walk_Suc [OF 0(1)] by (auto simp: cap_ptr_simps cap_end_def)
next
  case (Suc k)
  then obtain m where m: "n = Suc m" "k < m" by (cases n) auto
  have "\<not> cap_end base s p" using Suc.prems(4) cap_ptr_simps(1) by (metis zero_less_Suc)
  moreover have "\<forall>i < k. \<not> cap_end base s (cap_ptr base s (cbyte base s (p + 1)) i)"
    unfolding cap_ptr_simps(2) [symmetric] using Suc.prems(4) by simp
  ultimately show ?case
    using Suc.IH [OF cbyte_less m(2)] Suc.prems(3) m(1) msi_walk_Suc [OF Suc.prems(1)]
    by (simp add: cap_end_def cap_ptr_simps(2))
qed

text \<open>A sequence of bytes in which each determines the next repeats after 256 of them.\<close>

lemma cap_ptr_repeats:
  assumes "p < 256" "\<forall>k \<le> 256. \<not> Q (cap_ptr base s p k)"
  shows "\<not> Q (cap_ptr base s p n)"
proof -
  let ?c = "cap_ptr base s p"
  have "\<not> inj_on ?c {..256}"
  proof
    assume "inj_on ?c {..256}"
    then have "card (?c ` {..256}) = 257" by (simp add: card_image)
    moreover have "card (?c ` {..256}) \<le> card {..<256 :: nat}" using cap_ptr_less [OF assms(1)] by (intro card_mono) auto
    ultimately show False by simp
  qed
  then obtain i j where ij: "i < j" "j \<le> 256" "?c i = ?c j"
    unfolding inj_on_def by (metis atMost_iff linorder_neqE_nat)
  have shift: "?c (m + i) = ?c (m + j)" for m using ij(3) by (simp add: cap_ptr_def funpow_add)
  show ?thesis
  proof (induction n rule: less_induct)
    case (less n)
    show ?case
    proof (cases "n \<le> 256")
      case False
      then have "?c n = ?c (n - j + i)" using shift [of "n - j"] ij(2) by simp
      moreover have "n - j + i < n" using False ij by simp
      ultimately show ?thesis using less by metis
    qed (use assms(2) in blast)
  qed
qed

text \<open>
  C27: The search for the interrupt capability. It never changes the configuration space, and with the bound
  of 257 rounds it decides: either it ends after at most 256 links at the first element of the list that is
  the capability or the end, and returns that; or the list of the device is cyclic and holds no such
  capability, and then no number of rounds is enough: \<open>find_msi_cap\<close> does not return.
\<close>
theorem msi_search_decides:
  "(\<forall>n. msi_walk n base (unat (b :: u8)) s = (Diverge, s)) \<or>
   (\<exists>k \<le> 256. cap_end base s (cap_ptr base s (unat b) k) \<and> (\<forall>i < k. \<not> cap_end base s (cap_ptr base s (unat b) i)) \<and>
      msi_walk 257 base (unat b) s =
        (Ok (if cap_ptr base s (unat b) k = 0 then None else Some (cap_ptr base s (unat b) k)), s))"
proof (cases "\<forall>k \<le> 256. \<not> cap_end base s (cap_ptr base s (unat b) k)")
  case True
  have b: "unat b < 256" by simp
  show ?thesis using msi_walk_unfinished [OF b] cap_ptr_repeats [OF b True] by blast
next
  case False
  define k where "k = (LEAST k. cap_end base s (cap_ptr base s (unat b) k))"
  obtain j where j: "j \<le> 256" "cap_end base s (cap_ptr base s (unat b) j)" using False by blast
  have k: "cap_end base s (cap_ptr base s (unat b) k)" "k \<le> j" using j(2) LeastI Least_le unfolding k_def by metis+
  have first: "\<forall>i < k. \<not> cap_end base s (cap_ptr base s (unat b) i)" using not_less_Least unfolding k_def by blast
  have "unat b < 256" "k < 257" using k(2) j(1) by simp_all
  then show ?thesis using msi_walk_finished [OF _ _ k(1) first] k first j(1) by (intro disjI2 exI [of _ k]) simp
qed

section \<open>Reads and writes\<close>

definition cfield :: "nat \<Rightarrow> usize \<Rightarrow> pci_state \<Rightarrow> nat \<Rightarrow> nat" where
  "cfield n base s off = from_le (mem_bytes (pcfg s) (base + of_nat off) n)"

definition wrote_field :: "nat \<Rightarrow> usize \<Rightarrow> nat \<Rightarrow> nat \<Rightarrow> pci_state \<Rightarrow> pci_state" where
  "wrote_field n base off v s = s\<lparr>pcfg := put_bytes (base + of_nat off) (to_le n v) (pcfg s)\<rparr>"

lemma conf_read_run: "off < PAGE_SIZE \<Longrightarrow> conf_read n base off s = (Ok (cfield n base s off), s)"
  by (simp add: conf_read_def conf_addr_def cfield_def kop_simps)

lemma conf_write_run: "off < PAGE_SIZE \<Longrightarrow> conf_write n base off v s = (Ok (), wrote_field n base off v s)"
  by (simp add: conf_write_def conf_addr_def wrote_field_def kop_simps)

lemma offset_diff:
  assumes "i < 2 ^ 64" "j < 2 ^ 64"
  shows "unat ((base + of_nat j) - (base + of_nat i) :: usize) = (if i \<le> j then j - i else 2 ^ 64 + j - i)"
proof -
  have e: "(base + of_nat j) - (base + of_nat i) = (of_nat j - of_nat i :: usize)" by simp
  have u: "unat (of_nat j :: usize) = j" "unat (of_nat i :: usize) = i" using assms by (simp_all add: unat_of_nat64)
  show ?thesis unfolding e using u assms
    by (cases "i \<le> j") (simp_all add: unat_sub_if' )
qed

lemma nth_put_bytes:
  assumes "off + n \<le> 2 ^ 16" "j < 2 ^ 16" "length bs = n"
  shows "put_bytes (base + of_nat off) bs m (base + of_nat j) = (if off \<le> j \<and> j < off + n then bs ! (j - off) else m (base + of_nat j))"
  using assms offset_diff [of off j base] by (auto simp: put_bytes_def)

lemma cfield_wrote_same:
  assumes "off + n \<le> 2 ^ 16" "v < 256 ^ n"
  shows "cfield n base (wrote_field n base off v s) off = v"
proof -
  have "mem_bytes (pcfg (wrote_field n base off v s)) (base + of_nat off) n = to_le n v"
  proof (rule nth_equalityI)
    fix i assume "i < length (mem_bytes (pcfg (wrote_field n base off v s)) (base + of_nat off) n)"
    then have i: "i < n" by (simp add: mem_bytes_def)
    have "base + of_nat off + of_nat i = base + of_nat (off + i)" by simp
    then show "mem_bytes (pcfg (wrote_field n base off v s)) (base + of_nat off) n ! i = to_le n v ! i"
      using i assms nth_put_bytes [of off n "off + i" "to_le n v" base "pcfg s"] by (simp add: mem_bytes_def wrote_field_def add.assoc)
  qed (simp add: mem_bytes_def)
  then show ?thesis using assms(2) by (simp add: cfield_def from_le_to_le)
qed

lemma cfield_wrote_other:
  assumes "off + n \<le> 2 ^ 16" "j + k \<le> 2 ^ 16" "off + n \<le> j \<or> j + k \<le> off"
  shows "cfield k base (wrote_field n base off v s) j = cfield k base s j"
proof -
  have "mem_bytes (pcfg (wrote_field n base off v s)) (base + of_nat j) k = mem_bytes (pcfg s) (base + of_nat j) k"
  proof (rule nth_equalityI)
    fix i assume "i < length (mem_bytes (pcfg (wrote_field n base off v s)) (base + of_nat j) k)"
    then have i: "i < k" by (simp add: mem_bytes_def)
    have "base + of_nat j + of_nat i = base + of_nat (j + i)" by simp
    then show "mem_bytes (pcfg (wrote_field n base off v s)) (base + of_nat j) k ! i = mem_bytes (pcfg s) (base + of_nat j) k ! i"
      using i assms nth_put_bytes [of off n "j + i" "to_le n v" base "pcfg s"] by (auto simp: mem_bytes_def wrote_field_def add.assoc)
  qed (simp add: mem_bytes_def)
  then show ?thesis by (simp add: cfield_def)
qed

section \<open>The interrupt of a controller\<close>

lemma unat_u16: "unat (x :: u16) < 256 ^ 2" "unat (y :: u32) < 256 ^ 4"
  using unsigned_less [of x, where ?'a = nat] unsigned_less [of y, where ?'a = nat] by simp_all

lemma command_set_run:
  "command_set b base s = (Ok (), wrote_field 2 base 4 (unat (of_nat (cfield 2 base s 4) OR b)) s)"
  by (simp add: command_set_def bnd_run conf_read_run conf_write_run)

definition msi_written :: "usize \<Rightarrow> nat \<Rightarrow> u32 \<Rightarrow> u32 \<Rightarrow> pci_state \<Rightarrow> pci_state" where
  "msi_written base p cpu intr s =
     wrote_field 2 base (p + 2) (unat ((of_nat (cfield 2 base s (p + 2)) :: u16) OR 1))
     (wrote_field 2 base (p + 12) (unat ((ucast (32 + intr) :: u16) AND 0xFF))
     (wrote_field 4 base (p + 4) (unat ((push_bit 20 0x0FEE :: u32) OR (cpu AND 0xFF)))
     (wrote_field 2 base 4 (unat (of_nat (cfield 2 base s 4) OR (0x404 :: u16)))
     (wrote_field 2 base 4 (unat (of_nat (cfield 2 base s 4) OR (4 :: u16))) s))))"

lemma setup_msi_run:
  assumes "find_msi_cap base s = (Ok (Some p), s)" "p < 256" "(of_nat (cfield 2 base s (p + 2)) :: u16) AND 0x80 \<noteq> 0" "unat intr < 224"
  shows "setup_msi base cpu intr s = (Ok (), msi_written base p cpu intr s)"
proof -
  have r: "conf_read 2 base (p + 2) s = (Ok (cfield 2 base s (p + 2)), s)" for s using assms(2) by (intro conf_read_run) simp
  have w: "conf_write n base (p + 2) v s = (Ok (), wrote_field n base (p + 2) v s)"
    "conf_write n base (p + 4) v s = (Ok (), wrote_field n base (p + 4) v s)"
    "conf_write n base (p + 12) v s = (Ok (), wrote_field n base (p + 12) v s)" for n v s
    using assms(2) by (auto intro!: conf_write_run)
  have "cfield 2 base (wrote_field 2 base 4 (unat (of_nat (cfield 2 base s 4) OR (4 :: u16))) s) 4 = unat (of_nat (cfield 2 base s 4) OR (4 :: u16))"
    by (rule cfield_wrote_same) (use unat_u16(1) in simp_all)
  then have c: "disable_intr base (wrote_field 2 base 4 (unat (of_nat (cfield 2 base s 4) OR (4 :: u16))) s) =
      (Ok (), wrote_field 2 base 4 (unat (of_nat (cfield 2 base s 4) OR (0x404 :: u16)))
        (wrote_field 2 base 4 (unat (of_nat (cfield 2 base s 4) OR (4 :: u16))) s))"
    by (simp add: disable_intr_def command_set_run or.assoc)
  show ?thesis using assms(1,3,4)
    by (simp add: setup_msi_def bnd_run seqk_run basic_run assertk_run r w c enable_bus_master_def command_set_run Let_def msi_written_def
        del: add_2_eq_Suc')
qed

lemma msi_written_fields:
  assumes "64 \<le> p" "p < 256" "unat intr < 224"
  shows "cfield 2 base (msi_written base p cpu intr s) 4 = unat (of_nat (cfield 2 base s 4) OR (0x404 :: u16))"
    "cfield 2 base (msi_written base p cpu intr s) (p + 2) = unat ((of_nat (cfield 2 base s (p + 2)) :: u16) OR 1)"
    "cfield 2 base (msi_written base p cpu intr s) (p + 12) = 32 + unat intr"
    "cfield 4 base (msi_written base p cpu intr s) (p + 4) = unat (0xFEE00000 OR (cpu AND 0xFF))"
    "j + k \<le> 4 \<or> (6 \<le> j \<and> j + k \<le> p + 2) \<or> (p + 8 \<le> j \<and> j + k \<le> p + 12) \<or> (p + 14 \<le> j \<and> j + k \<le> PAGE_SIZE) \<Longrightarrow>
       cfield k base (msi_written base p cpu intr s) j = cfield k base s j"
proof -
  note same = cfield_wrote_same and other = cfield_wrote_other
  have sum: "unat (32 + intr) = 32 + unat intr" using assms(3) by (simp add: unat_word_ariths)
  have "(0xFF :: u16) = mask 8" by (simp add: mask_eq_exp_minus_1)
  then have "(ucast (32 + intr) :: u16) AND 0xFF = take_bit 8 (ucast (32 + intr))" by (simp add: take_bit_eq_mask)
  then have "unat ((ucast (32 + intr) :: u16) AND 0xFF) = take_bit 8 (unat (32 + intr))"
    by (simp add: unsigned_take_bit_eq unsigned_ucast_eq)
  then have "unat ((ucast (32 + intr) :: u16) AND 0xFF) = unat (32 + intr) mod 256" by (simp add: take_bit_eq_mod)
  then have data: "unat ((ucast (32 + intr) :: u16) AND 0xFF) = 32 + unat intr" using sum assms(3) by simp
  show "cfield 2 base (msi_written base p cpu intr s) 4 = unat (of_nat (cfield 2 base s 4) OR (0x404 :: u16))"
    unfolding msi_written_def using assms(1,2) unat_u16(1) by (simp add: other same)
  show "cfield 2 base (msi_written base p cpu intr s) (p + 2) = unat ((of_nat (cfield 2 base s (p + 2)) :: u16) OR 1)"
    unfolding msi_written_def using assms(1,2) unat_u16(1) by (intro same) simp_all
  show "cfield 2 base (msi_written base p cpu intr s) (p + 12) = 32 + unat intr"
    unfolding msi_written_def using assms(1-3) by (simp add: other same data)
  show "cfield 4 base (msi_written base p cpu intr s) (p + 4) = unat (0xFEE00000 OR (cpu AND 0xFF))"
    unfolding msi_written_def using assms(1,2) unat_u16(2) by (simp add: other same)
  show "cfield k base (msi_written base p cpu intr s) j = cfield k base s j"
    if "j + k \<le> 4 \<or> (6 \<le> j \<and> j + k \<le> p + 2) \<or> (p + 8 \<le> j \<and> j + k \<le> p + 12) \<or> (p + 14 \<le> j \<and> j + k \<le> PAGE_SIZE)"
    unfolding msi_written_def using that assms(1,2) by (auto simp: other)
qed

text \<open>
  The interrupt of the disk controller. When the device has a list of capabilities with one for message
  interrupts that takes 64-bit addresses, \<open>setup_msi\<close> succeeds; afterwards the device may access memory and
  raises no legacy interrupts, the capability is enabled and sends the vector \<open>INTR0 + intr\<close> to the local
  interrupt controllers, which is the vector that \<open>trap\<close> dispatches on, and nothing else of the configuration space has
  changed. The destination is that of processor 0, whatever the argument: the number of the processor ends
  up in reserved bits.
\<close>
theorem setup_msi_routes:
  assumes "find_msi_cap base s = (Ok (Some p), s)" "64 \<le> p" "p < 256" "(of_nat (cfield 2 base s (p + 2)) :: u16) AND 0x80 \<noteq> 0"
    "unat intr < 224"
  shows "\<exists>t. setup_msi base cpu intr s = (Ok (), t) \<and>
    cfield 2 base t 4 = unat (of_nat (cfield 2 base s 4) OR (0x404 :: u16)) \<and>
    cfield 2 base t (p + 2) = unat ((of_nat (cfield 2 base s (p + 2)) :: u16) OR 1) \<and>
    cfield 2 base t (p + 12) = 32 + unat intr \<and>
    drop_bit 20 (of_nat (cfield 4 base t (p + 4)) :: u32) = 0xFEE \<and> drop_bit 12 (of_nat (cfield 4 base t (p + 4)) :: u32) AND 0xFF = 0 \<and>
    (\<forall>j k. j + k \<le> 4 \<or> (6 \<le> j \<and> j + k \<le> p + 2) \<or> (p + 8 \<le> j \<and> j + k \<le> p + 12) \<or> (p + 14 \<le> j \<and> j + k \<le> PAGE_SIZE) \<longrightarrow>
       cfield k base t j = cfield k base s j)"
proof -
  note f = msi_written_fields [OF assms(2,3,5), where base = base and cpu = cpu and s = s]
  have addr: "of_nat (cfield 4 base (msi_written base p cpu intr s) (p + 4)) = (0xFEE00000 OR (cpu AND 0xFF) :: u32)"
    unfolding f(4) by simp
  have "(0xFF :: u32) = mask 8" by (simp add: mask_eq_exp_minus_1)
  then have low: "bit (cpu AND 0xFF) n \<Longrightarrow> n < 8" for n by (simp add: bit_and_iff bit_mask_iff)
  have "drop_bit 12 (cpu AND 0xFF) = 0" "drop_bit 20 (cpu AND 0xFF) = 0"
    using low by (auto intro!: bit_eqI simp: bit_drop_bit_eq dest: low)
  then have "drop_bit 20 (0xFEE00000 OR (cpu AND 0xFF) :: u32) = 0xFEE" "drop_bit 12 (0xFEE00000 OR (cpu AND 0xFF) :: u32) AND 0xFF = 0"
    unfolding drop_bit_or by (simp_all del: drop_bit_and)
  then show ?thesis using setup_msi_run [OF assms(1,3,4,5), of cpu] f(1-3,5) addr
    by (intro exI [of _ "msi_written base p cpu intr s"]) (simp del: add_2_eq_Suc' drop_bit_or)
qed

text \<open>A device whose second capability is the one for message interrupts.\<close>

definition msi_device :: pci_state where
  "msi_device = \<lparr>pcfg = (\<lambda>x. 0)(0x10006 := 0x10, 0x10034 := 0x50, 0x10050 := 1, 0x10051 := 0x80, 0x10080 := 5, 0x10082 := 0x80),
     pc_mem = \<lparr>pages = \<lambda>_. [], free_head = 0\<rparr>, hbas = (\<lambda>_. \<lparr>hba_ghc = 0, hba_intr_status = 0, hba_ports_impl = 0, hba_ports = []\<rparr>),
     sd_drive = None\<rparr>"

lemma cfield_bytes:
  "cfield 1 base s off = cbyte base s off" "cfield 2 base s off = cbyte base s off + 256 * cbyte base s (off + 1)"
proof -
  have "[0..<2] = [0, 1 :: nat]" by (simp add: upt_rec)
  then show "cfield 1 base s off = cbyte base s off" "cfield 2 base s off = cbyte base s off + 256 * cbyte base s (off + 1)"
    by (simp_all add: cfield_def cbyte_def mem_bytes_def ac_simps)
qed

lemma msi_device_found: "find_msi_cap 0x10000 msi_device = (Ok (Some 0x80), msi_device)"
proof -
  have "msi_walk 257 0x10000 0x50 msi_device = (Ok (Some 0x80), msi_device)"
    using msi_walk_Suc [of "0x50" 256 "0x10000" msi_device] msi_walk_Suc [of "0x80" 255 "0x10000" msi_device]
    by (simp add: cbyte_def msi_device_def)
  moreover have "cfield 2 0x10000 msi_device 6 = 0x10" and "cfield 1 0x10000 msi_device 0x34 = 0x50"
    unfolding cfield_bytes by (simp_all add: cbyte_def msi_device_def)
  ultimately show ?thesis by (simp add: find_msi_cap_def bnd_run seqk_run conf_read_run assertk_run)
qed

theorem setup_msi_routes_witness:
  "\<exists>t. setup_msi 0x10000 0 14 msi_device = (Ok (), t) \<and> cfield 2 0x10000 t 140 = 46 \<and> cfield 2 0x10000 t 4 = 0x404"
proof -
  have "cfield 2 0x10000 msi_device 130 = 0x80" "cfield 2 0x10000 msi_device 4 = 0"
    by (simp_all add: cfield_bytes cbyte_def msi_device_def)
  then show ?thesis using setup_msi_routes [OF msi_device_found, of 14 0] by auto
qed

text \<open>A device whose only capability is its own successor.\<close>

definition cyclic_device :: pci_state where
  "cyclic_device = msi_device\<lparr>pcfg := (\<lambda>x. 0)(0x10050 := 1, 0x10051 := 0x50)\<rparr>"

theorem msi_search_decides_witness: "\<forall>n. msi_walk n 0x10000 (unat (0x50 :: u8)) cyclic_device = (Diverge, cyclic_device)"
proof -
  have "cap_ptr 0x10000 cyclic_device 0x50 k = 0x50" for k
    by (induction k) (simp_all add: cap_ptr_simps cbyte_def cyclic_device_def)
  then have "\<not> cap_end 0x10000 cyclic_device (cap_ptr 0x10000 cyclic_device (unat (0x50 :: u8)) k)" for k
    by (simp add: cap_end_def cbyte_def cyclic_device_def)
  then show ?thesis using msi_search_decides [of "0x10000" "0x50" cyclic_device] by blast
qed

section \<open>The scan\<close>

text \<open>
  The bus range of a configuration space is inclusive, but the loop leaves out its last bus: a space with a
  single bus is not scanned at all.
\<close>

lemma single_bus_not_scanned: "start_bus c = end_bus c \<Longrightarrow> scan_config root ans c s = (Ok (), s)"
  by (simp add: scan_config_def ret_def)

end
