(* ===== verification/Apic.thy ===== *)
theory Apic
  imports Acpi Kalloc
begin

text \<open>
  Interrupt controllers and processors: the I/O controller with its table of redirections
  (\<open>kernel/src/ioapic.rs\<close>), the local controller (\<open>xapic.rs\<close>), the start of the other processors (\<open>smp.rs\<close>), and the
  chip of the serial line (\<open>uart.rs\<close>). Registers that hold what is written to them are fields of the state; what a
  poll reads is an argument.
\<close>

section \<open>The I/O interrupt controller\<close>

text \<open>
  The device is reached through two registers: \<open>reg\<close> selects one of its internal registers and \<open>value\<close> is the
  one selected. The pointer \<open>IOAPIC\<close> is null until \<open>init\<close>.
\<close>

record ioapic =
  IOAPIC :: usize
  MAXINTR :: u32
  IOAPIC_ID :: u32
  io_reg :: u32
  io_table :: "u32 \<Rightarrow> u32"

abbreviation INTR_DISABLED :: u32 where "INTR_DISABLED \<equiv> 0x10000"
abbreviation REG_ID :: u32 where "REG_ID \<equiv> 0"
abbreviation REG_VER :: u32 where "REG_VER \<equiv> 1"
abbreviation REG_TABLE :: u32 where "REG_TABLE \<equiv> 16"

definition io_select :: "u32 \<Rightarrow> (ioapic, unit) kop" where
  "io_select r = modify (\<lambda>s. s\<lparr>io_reg := r\<rparr>)"

definition io_put :: "u32 \<Rightarrow> (ioapic, unit) kop" where
  "io_put v = modify (\<lambda>s. s\<lparr>io_table := (io_table s)(io_reg s := v)\<rparr>)"

definition ioapic_mut :: "(ioapic, unit) kop" where
  "ioapic_mut = bnd (gets IOAPIC) (\<lambda>p. assertk (p \<noteq> 0) ''assertion failed'')"

definition ioapic_read :: "u32 \<Rightarrow> (ioapic, u32) kop" where
  "ioapic_read index = seqk ioapic_mut (seqk (io_select index) (gets (\<lambda>s. io_table s (io_reg s))))"

definition write_table :: "u32 \<Rightarrow> u32 \<Rightarrow> u32 \<Rightarrow> u32 \<Rightarrow> (ioapic, unit) kop" where
  "write_table offset flags irq cpu =
     seqk ioapic_mut
     (seqk (assertk (unat offset * 2 + 17 < 2 ^ 32) ''attempt to add with overflow'')
     (seqk (io_select (REG_TABLE + offset * 2))
     (seqk (io_put (flags OR irq))
     (seqk (io_select (REG_TABLE + offset * 2 + 1))
     (io_put (push_bit 24 cpu))))))"

definition ioapic_init :: "ioapict list \<Rightarrow> (ioapic, unit) kop" where
  "ioapic_init tbls =
     seqk (assertk (tbls \<noteq> []) ''assertion failed'')
     (seqk (bnd (gets IOAPIC) (\<lambda>p. assertk (p = 0) ''assertion failed''))
     (seqk (assertk (unat KERNBASE + unat (ioapic_phys_addr (hd tbls)) < 2 ^ 64) ''attempt to add with overflow'')
     (seqk (modify (\<lambda>s. s\<lparr>IOAPIC := KERNBASE + ioapic_phys_addr (hd tbls)\<rparr>))
     (bnd (ioapic_read REG_VER) (\<lambda>v. let maxintr = drop_bit 16 v AND 0xFF in
      seqk (modify (\<lambda>s. s\<lparr>MAXINTR := maxintr\<rparr>))
      (bnd (ioapic_read REG_ID) (\<lambda>i.
       seqk (modify (\<lambda>s. s\<lparr>IOAPIC_ID := drop_bit 24 i\<rparr>))
       (run_all (\<lambda>k. write_table (of_nat k) INTR_DISABLED (32 + of_nat k) 0) [0..<unat maxintr + 1]))))))))"

definition ioapic_enable :: "u32 \<Rightarrow> u32 \<Rightarrow> (ioapic, unit) kop" where
  "ioapic_enable irq cpu =
     seqk (assertk (unat irq + 32 < 2 ^ 32) ''attempt to add with overflow'')
     (write_table irq 0 (irq + 32) cpu)"

section \<open>The local interrupt controller\<close>

text \<open>The registers by index, with the writes in order: writing some of them is a command.\<close>

record xapic =
  XAPIC :: usize
  apic_base :: u64
  x_writes :: "(nat \<times> u32) list"

abbreviation X_TPR :: nat where "X_TPR \<equiv> 0x20"
abbreviation X_EOI :: nat where "X_EOI \<equiv> 0x2C"
abbreviation X_SVR :: nat where "X_SVR \<equiv> 0x3C"
abbreviation X_ESR :: nat where "X_ESR \<equiv> 0xA0"
abbreviation X_ICRLO :: nat where "X_ICRLO \<equiv> 0xC0"
abbreviation X_ICRHI :: nat where "X_ICRHI \<equiv> 0xC4"
abbreviation X_TIMER :: nat where "X_TIMER \<equiv> 0xC8"
abbreviation X_TICR :: nat where "X_TICR \<equiv> 0xE0"
abbreviation X_TDCR :: nat where "X_TDCR \<equiv> 0xF8"
abbreviation X_SIZE :: nat where "X_SIZE \<equiv> 0xF9"

abbreviation IPI_INIT :: u32 where "IPI_INIT \<equiv> 0x500"
abbreviation IPI_STARTUP :: u32 where "IPI_STARTUP \<equiv> 0x600"
abbreviation IPI_LEVEL :: u32 where "IPI_LEVEL \<equiv> 0x8000"
abbreviation IPI_ASSERT :: u32 where "IPI_ASSERT \<equiv> 0x4000"

definition xapic_write :: "nat \<Rightarrow> u32 \<Rightarrow> (xapic, unit) kop" where
  "xapic_write i v =
     seqk (bnd (gets XAPIC) (\<lambda>p. assertk (p \<noteq> 0) ''assertion failed''))
     (seqk (assertk (i < X_SIZE) ''index out of bounds'')
     (modify (\<lambda>s. s\<lparr>x_writes := x_writes s @ [(i, v)]\<rparr>)))"

definition xapic_init :: "u32 \<Rightarrow> (xapic, unit) kop" where
  "xapic_init mycpu_id =
     seqk (modify (\<lambda>s. s\<lparr>apic_base := apic_base s OR 0x800\<rparr>))
     (seqk (bnd (gets XAPIC) (\<lambda>p. assertk ((mycpu_id = 0 \<and> p = 0) \<or> p \<noteq> 0) ''assertion failed''))
     (seqk (modify (\<lambda>s. s\<lparr>XAPIC := KERNBASE + (apic_base s AND NOT 0xFFF)\<rparr>))
     (run_all (\<lambda>(i, v). xapic_write i v)
       [(X_SVR, 0x100 OR (32 + 31)), (X_TDCR, 0xB), (X_TIMER, 0x20000 OR (32 + 8)), (X_TICR, 2000000),
        (X_ESR, 0), (X_ESR, 0), (X_EOI, 0), (X_TPR, 0)])))"

text \<open>\<open>wait_delivery\<close>: a bounded number of polls; its end is not distinguished.\<close>

fun wait_delivery :: "nat \<Rightarrow> (nat \<Rightarrow> u32) \<Rightarrow> nat \<Rightarrow> bool" where
  "wait_delivery 0 icr k = False"
| "wait_delivery (Suc n) icr k = (if icr k AND 0x1000 = 0 then True else wait_delivery n icr (k + 1))"

definition xapic_eoi :: "(xapic, unit) kop" where
  "xapic_eoi = xapic_write X_EOI 0"

definition delivered :: "(nat \<Rightarrow> u32) \<Rightarrow> (xapic, unit) kop" where
  "delivered icr = bnd (gets (\<lambda>_. wait_delivery 100000 icr 0)) (\<lambda>_. ret ())"

definition send_init_ipi :: "(nat \<Rightarrow> u32) \<Rightarrow> u32 \<Rightarrow> (xapic, unit) kop" where
  "send_init_ipi icr apic_id =
     seqk (xapic_write X_ICRHI (push_bit 24 apic_id))
     (seqk (xapic_write X_ICRLO (IPI_INIT OR IPI_LEVEL OR IPI_ASSERT))
     (seqk (delivered icr)
     (seqk (xapic_write X_ICRLO (IPI_INIT OR IPI_LEVEL OR 0))
     (delivered icr))))"

definition send_sipi :: "(nat \<Rightarrow> u32) \<Rightarrow> u32 \<Rightarrow> u8 \<Rightarrow> (xapic, unit) kop" where
  "send_sipi icr apic_id vec =
     seqk (xapic_write X_ICRHI (push_bit 24 apic_id))
     (seqk (xapic_write X_ICRLO (IPI_STARTUP OR ucast vec))
     (delivered icr))"

section \<open>Other processors\<close>

text \<open>
  The page at which they start ends with three words: the address of the new processor's page, its number and
  the address of the flag it raises. \<open>sem t\<close> is what the \<open>t\<close>-th test of that flag reads.
\<close>

record ap_start =
  sm_mem :: pagemem
  sm_xapic :: xapic
  ap_percpu :: usize
  ap_id :: usize
  ap_sem :: usize

abbreviation VECTOR :: u8 where "VECTOR \<equiv> 7"

definition on_xapic :: "(xapic, 'r) kop \<Rightarrow> (ap_start, 'r) kop" where
  "on_xapic m s = (let (r, t) = m (sm_xapic s) in (r, s\<lparr>sm_xapic := t\<rparr>))"

fun ap_wait :: "nat \<Rightarrow> (nat \<Rightarrow> bool) \<Rightarrow> nat \<Rightarrow> bool" where
  "ap_wait 0 sem t = False"
| "ap_wait (Suc n) sem t = (if sem t then True else ap_wait n sem (t + 1))"

definition start1 :: "u32 \<Rightarrow> (nat \<Rightarrow> u32) \<Rightarrow> (nat \<Rightarrow> bool) \<Rightarrow> usize \<Rightarrow> nat \<Rightarrow> u32 \<Rightarrow> (ap_start, unit) kop" where
  "start1 mycpu_id icr sem semaphore i apic_id =
     (if apic_id = mycpu_id then ret ()
      else
        bnd (\<lambda>s. let (r, m) = kalloc (sm_mem s) in (Ok r, s\<lparr>sm_mem := m\<rparr>)) (\<lambda>r. case r of
          None \<Rightarrow> panic ''start_others: AP percpu alloc failed''
        | Some percpu \<Rightarrow>
            seqk (modify (\<lambda>s. s\<lparr>ap_percpu := percpu, ap_id := of_nat i, ap_sem := semaphore\<rparr>))
            (seqk (on_xapic (send_init_ipi icr apic_id))
            (seqk (on_xapic (send_sipi icr apic_id VECTOR))
            (if ap_wait 200 sem 0 then ret ()
             else seqk (on_xapic (send_sipi icr apic_id VECTOR))
               (if ap_wait 200 sem 200 then ret ()
                else if ap_wait 10000 sem 400 then ret ()
                else panic ''failed to start cpu''))))))"

definition start_others :: "u32 \<Rightarrow> (nat \<Rightarrow> u32) \<Rightarrow> (nat \<Rightarrow> nat \<Rightarrow> bool) \<Rightarrow> (nat \<Rightarrow> usize) \<Rightarrow> u32 list \<Rightarrow> (ap_start, unit) kop" where
  "start_others mycpu_id icr sem semaphore ids =
     run_all (\<lambda>(i, apic_id). start1 mycpu_id icr (sem i) (semaphore i) i apic_id) (enumerate 0 ids)"

section \<open>The serial line\<close>

text \<open>The chip: the bytes written to its ports in order, and how often its status has been read.\<close>

record uart_chip =
  u_writes :: "(u16 \<times> u8) list"
  u_polls :: nat

abbreviation EIA0 :: u16 where "EIA0 \<equiv> 0x3F8"

definition uart_outb :: "u16 \<Rightarrow> u8 \<Rightarrow> (uart_chip, unit) kop" where
  "uart_outb p b = modify (\<lambda>s. s\<lparr>u_writes := u_writes s @ [(p, b)]\<rparr>)"

definition uart_init :: "(uart_chip, unit) kop" where
  "uart_init = run_all (\<lambda>(p, b). uart_outb p b)
     [(EIA0 + 2, 0), (EIA0 + 3, 0x80), (EIA0, 1), (EIA0 + 1, 0), (EIA0 + 3, 3), (EIA0 + 4, 0), (EIA0 + 1, 1)]"

definition uart_lsr :: "(nat \<Rightarrow> u8) \<Rightarrow> (uart_chip, u8) kop" where
  "uart_lsr st = bnd (gets (\<lambda>s. st (u_polls s) AND 0x21)) (\<lambda>b. seqk (modify (\<lambda>s. s\<lparr>u_polls := u_polls s + 1\<rparr>)) (ret b))"

fun uart_ready :: "nat \<Rightarrow> u8 \<Rightarrow> (nat \<Rightarrow> u8) \<Rightarrow> (uart_chip, bool) kop" where
  "uart_ready 0 b st = ret False"
| "uart_ready (Suc n) b st = bnd (uart_lsr st) (\<lambda>l. if l AND b = b then ret True else uart_ready n b st)"

definition tx_ready :: "(nat \<Rightarrow> u8) \<Rightarrow> (uart_chip, bool) kop" where
  "tx_ready = uart_ready 128 0x20"

definition rx_ready :: "(nat \<Rightarrow> u8) \<Rightarrow> (uart_chip, bool) kop" where
  "rx_ready = uart_ready 128 0x01"

text \<open>\<open>putb\<close> waits for the chip for ever; \<open>n\<close> bounds the rounds of its loop.\<close>

fun uart_putb :: "nat \<Rightarrow> (nat \<Rightarrow> u8) \<Rightarrow> u8 \<Rightarrow> (uart_chip, unit) kop" where
  "uart_putb 0 st b = (\<lambda>s. (Diverge, s))"
| "uart_putb (Suc n) st b = bnd (tx_ready st) (\<lambda>r. if r then uart_outb EIA0 b else uart_putb n st b)"

definition uart_getb :: "(nat \<Rightarrow> u8) \<Rightarrow> u8 \<Rightarrow> (uart_chip, u8 option) kop" where
  "uart_getb st rbr = bnd (rx_ready st) (\<lambda>r. ret (if r then Some rbr else None))"

definition uart_write_str :: "nat \<Rightarrow> (nat \<Rightarrow> u8) \<Rightarrow> bytes \<Rightarrow> (uart_chip, unit) kop" where
  "uart_write_str n st = run_all (\<lambda>b. seqk (if b = 10 then uart_putb n st 13 else ret ()) (uart_putb n st b))"

end
