(* ===== verification/ApicProps.thy ===== *)
theory ApicProps
  imports Apic
begin

text \<open>
  Interrupts go where they were sent: the table of redirections after \<open>init\<close> and \<open>enable\<close>, and the messages
  and the data with which another processor is started.
\<close>

section \<open>Redirections\<close>

text \<open>What the device reads in its table for an interrupt: whether it is masked, the vector, the destination.\<close>

definition redirection :: "ioapic \<Rightarrow> nat \<Rightarrow> bool \<times> u32 \<times> u32" where
  "redirection s k = (bit (io_table s (REG_TABLE + of_nat k * 2)) 16, io_table s (REG_TABLE + of_nat k * 2) AND 0xFF,
     drop_bit 24 (io_table s (REG_TABLE + of_nat k * 2 + 1)))"

definition with_entry :: "nat \<Rightarrow> u32 \<Rightarrow> u32 \<Rightarrow> ioapic \<Rightarrow> ioapic" where
  "with_entry k lo hi s = s\<lparr>io_reg := REG_TABLE + of_nat k * 2 + 1,
     io_table := (io_table s)(REG_TABLE + of_nat k * 2 := lo, REG_TABLE + of_nat k * 2 + 1 := hi)\<rparr>"

lemma write_table_run:
  assumes "IOAPIC s \<noteq> 0" "k < 256"
  shows "write_table (of_nat k) fl irq cpu s = (Ok (), with_entry k (fl OR irq) (push_bit 24 cpu) s)"
proof -
  have "unat (of_nat k :: u32) = k" using assms(2) by (simp add: unat_of_nat32)
  then show ?thesis using assms
    by (simp add: write_table_def ioapic_mut_def io_select_def io_put_def kop_simps with_entry_def fun_upd_twist)
qed

lemma table_index_eq:
  assumes "j < 256" "k < 256"
  shows "(16 + of_nat j * 2 :: u32) = 16 + of_nat k * 2 \<longleftrightarrow> j = k" "(16 + of_nat j * 2 :: u32) \<noteq> 16 + of_nat k * 2 + 1"
    "(16 + of_nat j * 2 + 1 :: u32) = 16 + of_nat k * 2 + 1 \<longleftrightarrow> j = k"
proof -
  have u: "unat (16 + of_nat i * 2 :: u32) = 16 + i * 2" "unat (16 + of_nat i * 2 + 1 :: u32) = 17 + i * 2" if "i < 256" for i
    using that by (simp_all add: unat_word_ariths unat_of_nat32)
  show "(16 + of_nat j * 2 :: u32) = 16 + of_nat k * 2 \<longleftrightarrow> j = k" "(16 + of_nat j * 2 + 1 :: u32) = 16 + of_nat k * 2 + 1 \<longleftrightarrow> j = k"
    unfolding word_unat_eq_iff using u [OF assms(1)] u [OF assms(2)] by simp_all
  show "(16 + of_nat j * 2 :: u32) \<noteq> 16 + of_nat k * 2 + 1"
    unfolding word_unat_eq_iff u(1) [OF assms(1)] u(2) [OF assms(2)] by presburger
qed

lemma redirection_with_entry:
  assumes "j < 256" "k < 256"
  shows "redirection (with_entry k lo hi s) j = (if j = k then (bit lo 16, lo AND 0xFF, drop_bit 24 hi) else redirection s j)"
  using table_index_eq [OF assms] table_index_eq(2) [OF assms(2,1)]
  by (simp add: redirection_def with_entry_def)

lemma vector_word:
  assumes "k < 224"
  shows "(32 + of_nat k :: u32) AND 0xFF = 32 + of_nat k" "\<not> bit (32 + of_nat k :: u32) 16"
    "(0x10000 OR (32 + of_nat k) :: u32) AND 0xFF = 32 + of_nat k" "bit (0x10000 OR (32 + of_nat k) :: u32) 16"
proof -
  let ?v = "32 + of_nat k :: u32"
  have u: "unat ?v = 32 + k" using assms by (simp add: unat_word_ariths unat_of_nat32)
  have mask: "(0xFF :: u32) = mask 8" by (simp add: mask_eq_exp_minus_1)
  have "take_bit 8 ?v = ?v"
    unfolding word_unat_eq_iff unsigned_take_bit_eq u using assms by (simp add: take_bit_nat_eq_self)
  then show v: "?v AND 0xFF = ?v" unfolding mask take_bit_eq_mask by simp
  have b: "\<not> bit (x AND 0xFF) 16" for x :: u32 unfolding mask by (simp add: bit_and_iff bit_mask_iff)
  show "\<not> bit ?v 16" using b [of ?v] unfolding v .
  have "(0x10000 :: u32) AND 0xFF = 0" by simp
  then show "(0x10000 OR ?v) AND 0xFF = ?v" by (simp only: bit.conj_disj_distrib2 v) simp
  show "bit (0x10000 OR ?v) 16" by (simp add: bit_or_iff)
qed

definition masked_entry :: "nat \<Rightarrow> ioapic \<Rightarrow> ioapic" where
  "masked_entry k = with_entry k (INTR_DISABLED OR (32 + of_nat k)) 0"

lemma mask_all_run:
  "IOAPIC s \<noteq> 0 \<Longrightarrow> \<forall>k \<in> set ks. k < 256 \<Longrightarrow>
   run_all (\<lambda>k. write_table (of_nat k) INTR_DISABLED (32 + of_nat k) 0) ks s = (Ok (), fold masked_entry ks s)"
proof (induction ks arbitrary: s)
  case (Cons k ks)
  have "write_table (of_nat k) INTR_DISABLED (32 + of_nat k) 0 s = (Ok (), masked_entry k s)"
    using Cons.prems write_table_run [of s k] by (simp add: masked_entry_def)
  moreover have "IOAPIC (masked_entry k s) \<noteq> 0" using Cons.prems(1) by (simp add: masked_entry_def with_entry_def)
  ultimately show ?case using Cons.IH Cons.prems(2) by (simp add: seqk_run)
qed (simp add: kop_simps)

lemma mask_all_fields:
  "IOAPIC (fold masked_entry ks s) = IOAPIC s \<and> MAXINTR (fold masked_entry ks s) = MAXINTR s"
  by (induction ks arbitrary: s) (simp_all add: masked_entry_def with_entry_def)

lemma mask_all_redirections:
  assumes "\<forall>k \<in> set ks. k < 224" "j < 224"
  shows "redirection (fold masked_entry ks s) j = (if j \<in> set ks then (True, 32 + of_nat j, 0) else redirection s j)"
  using assms(1)
proof (induction ks arbitrary: s)
  case (Cons k ks)
  have "redirection (masked_entry k s) j = (if j = k then (True, 32 + of_nat j, 0) else redirection s j)"
    using redirection_with_entry [of j k] Cons.prems assms(2) vector_word(3,4) [of k] by (simp add: masked_entry_def)
  then show ?case using Cons by (cases "j = k") simp_all
qed simp

text \<open>
  C28: Interrupts of the I/O controller. After \<open>init\<close> every line of the controller is masked and has the
  vector that belongs to it; enabling a line then unmasks it, with the vector \<open>32 + irq\<close> that \<open>trap\<close> dispatches on and the
  processor asked for as its destination, and every other line stays as it was. (The device has at most
  224 lines, so that the vectors are bytes, and its physical address is below 128 TiB, the end of the kernel's map of physical memory, above which \<open>init\<close> panics.)
\<close>
theorem ioapic_routes:
  assumes "tbls \<noteq> []" "IOAPIC s = 0" "unat (ioapic_phys_addr (hd tbls)) < 2 ^ 47"
    "unat (drop_bit 16 (io_table s 1) AND 0xFF) = m" "m < 224" "irq \<le> m" "cpu < 256"
  shows "\<exists>t u. ioapic_init tbls s = (Ok (), t) \<and> unat (MAXINTR t) = m \<and>
    (\<forall>k \<le> m. redirection t k = (True, 32 + of_nat k, 0)) \<and>
    ioapic_enable (of_nat irq) cpu t = (Ok (), u) \<and> redirection u irq = (False, 32 + of_nat irq, cpu) \<and>
    (\<forall>k \<le> m. k \<noteq> irq \<longrightarrow> redirection u k = (True, 32 + of_nat k, 0))"
proof -
  let ?max = "drop_bit 16 (io_table s 1) AND 0xFF"
  have pos: "KERNBASE + ioapic_phys_addr (hd tbls) \<noteq> 0"
  proof -
    have "unat (KERNBASE + ioapic_phys_addr (hd tbls)) = unat KERNBASE + unat (ioapic_phys_addr (hd tbls))"
      using assms(3) by (subst unat_add_lem [THEN iffD1]) simp_all
    then show ?thesis by auto
  qed
  let ?s1 = "s\<lparr>IOAPIC := KERNBASE + ioapic_phys_addr (hd tbls), MAXINTR := ?max, io_reg := 0, IOAPIC_ID := drop_bit 24 (io_table s 0)\<rparr>"
  let ?t = "fold masked_entry [0..<m + 1] ?s1"
  have all: "run_all (\<lambda>k. write_table (of_nat k) INTR_DISABLED (32 + of_nat k) 0) [0..<m + 1] ?s1 = (Ok (), ?t)"
    by (rule mask_all_run) (use pos assms(5) in auto)
  have init: "ioapic_init tbls s = (Ok (), ?t)"
    using all assms(1-4) pos by (simp add: ioapic_init_def ioapic_read_def ioapic_mut_def io_select_def kop_simps Let_def del: upt_Suc)
  have red: "redirection ?t k = (True, 32 + of_nat k, 0)" if "k \<le> m" for k
    using mask_all_redirections [of "[0..<m + 1]" k ?s1] that assms(5) by (auto simp del: upt_Suc)
  let ?u = "with_entry irq (0 OR (of_nat irq + 32)) (push_bit 24 cpu) ?t"
  have irq: "irq < 224" "unat (of_nat irq :: u32) = irq" using assms(5,6) by (simp_all add: unat_of_nat32)
  have ptr: "IOAPIC ?t \<noteq> 0" "MAXINTR ?t = ?max" using mask_all_fields [of "[0..<m + 1]" ?s1] pos by (simp_all del: upt_Suc)
  have enable: "ioapic_enable (of_nat irq) cpu ?t = (Ok (), ?u)"
    using write_table_run [OF ptr(1), of irq 0 "of_nat irq + 32" cpu] irq by (simp add: ioapic_enable_def seqk_run assertk_run)
  have c: "unat cpu < 2 ^ 8" using assms(7) by (simp add: word_less_nat_alt)
  have "take_bit 8 cpu = cpu" unfolding word_unat_eq_iff unsigned_take_bit_eq using c by (simp add: take_bit_nat_eq_self)
  then have small: "bit cpu n \<Longrightarrow> n < 8" for n by (metis bit_take_bit_iff)
  have "drop_bit 24 (push_bit 24 cpu) = cpu"
    by (rule bit_eqI) (auto simp: bit_drop_bit_eq bit_push_bit_iff dest: small)
  then have "redirection ?u k = (if k = irq then (False, 32 + of_nat irq, cpu) else redirection ?t k)" if "k \<le> m" for k
    using redirection_with_entry [of k irq] that assms(5) irq(1) vector_word(1,2) [OF irq(1)] by (simp add: add.commute)
  then show ?thesis using init enable red ptr(2) assms(4,6) by (intro exI [of _ ?t] exI [of _ ?u]) simp
qed

definition fresh_ioapic :: ioapic where
  "fresh_ioapic = \<lparr>IOAPIC = 0, MAXINTR = 0, IOAPIC_ID = 0, io_reg = 0, io_table = (\<lambda>_. 0)(1 := 0x170020)\<rparr>"

theorem ioapic_routes_witness:
  "\<exists>t u. ioapic_init [ioapict_new 2 0 0xFEC00000] fresh_ioapic = (Ok (), t) \<and> unat (MAXINTR t) = 23 \<and>
    redirection t 4 = (True, 36, 0) \<and> ioapic_enable 4 0 t = (Ok (), u) \<and> redirection u 4 = (False, 36, 0)"
  using ioapic_routes [of "[ioapict_new 2 0 0xFEC00000]" fresh_ioapic 23 4 0]
  by (auto simp: fresh_ioapic_def ioapict_new_def)

section \<open>Another processor\<close>

lemma xapic_write_run: "XAPIC x \<noteq> 0 \<Longrightarrow> i < X_SIZE \<Longrightarrow> xapic_write i v x = (Ok (), x\<lparr>x_writes := x_writes x @ [(i, v)]\<rparr>)"
  by (simp add: xapic_write_def kop_simps)

definition init_msgs :: "u32 \<Rightarrow> (nat \<times> u32) list" where
  "init_msgs a = [(X_ICRHI, push_bit 24 a), (X_ICRLO, 0xC500), (X_ICRLO, 0x8500)]"

definition sipi_msgs :: "u32 \<Rightarrow> (nat \<times> u32) list" where
  "sipi_msgs a = [(X_ICRHI, push_bit 24 a), (X_ICRLO, 0x607)]"

lemma send_runs:
  assumes "XAPIC (sm_xapic s) \<noteq> 0"
  shows "on_xapic (send_init_ipi icr a) s = (Ok (), s\<lparr>sm_xapic := (sm_xapic s)\<lparr>x_writes := x_writes (sm_xapic s) @ init_msgs a\<rparr>\<rparr>)"
    "on_xapic (send_sipi icr a VECTOR) s = (Ok (), s\<lparr>sm_xapic := (sm_xapic s)\<lparr>x_writes := x_writes (sm_xapic s) @ sipi_msgs a\<rparr>\<rparr>)"
  using assms by (simp_all add: on_xapic_def send_init_ipi_def send_sipi_def seqk_run xapic_write_run delivered_def kop_simps
      init_msgs_def sipi_msgs_def)

lemma ap_wait_iff: "ap_wait n sem t \<longleftrightarrow> (\<exists>k < n. sem (t + k))"
proof (induction n arbitrary: t)
  case (Suc n)
  have "(\<exists>k < Suc n. sem (t + k)) \<longleftrightarrow> sem t \<or> (\<exists>k < n. sem (t + 1 + k))"
    by (auto simp: less_Suc_eq_0_disj)
  then show ?case using Suc by simp
qed simp

text \<open>
  Starting a processor. The processor is sent the reset messages and then one start message, or two when
  it has not answered after the first 200 tests; it finds a page of its own, its number and the flag in the words
  at the end of its start page. The call returns when the flag has been seen within 10400 tests and
  panics otherwise, or when there is no page.
\<close>
theorem start1_starts:
  assumes "apic_id \<noteq> mycpu_id" "XAPIC (sm_xapic s) \<noteq> 0" "kalloc (sm_mem s) = (Some percpu, m)"
  shows "\<exists>t. start1 mycpu_id icr sem semaphore i apic_id s =
      (if \<exists>k < 10400. sem k then Ok () else Panic ''failed to start cpu'', t) \<and>
    ap_percpu t = percpu \<and> ap_id t = of_nat i \<and> ap_sem t = semaphore \<and> sm_mem t = m \<and>
    x_writes (sm_xapic t) = x_writes (sm_xapic s) @ init_msgs apic_id @ sipi_msgs apic_id @
      (if \<exists>k < 200. sem k then [] else sipi_msgs apic_id)"
proof -
  have split: "(\<exists>k < a + b. sem k) \<longleftrightarrow> (\<exists>k < a. sem k) \<or> (\<exists>k < b. sem (a + k))" for a b
    by (metis add_less_cancel_left le_add_diff_inverse not_less trans_less_add1)
  have w: "ap_wait 200 sem 0 \<longleftrightarrow> (\<exists>k < 200. sem k)" "ap_wait 200 sem 200 \<longleftrightarrow> (\<exists>k < 200. sem (200 + k))"
    "ap_wait 10000 sem 400 \<longleftrightarrow> (\<exists>k < 10000. sem (400 + k))" by (simp_all add: ap_wait_iff)
  have "(\<exists>k < 10400. sem k) \<longleftrightarrow> ap_wait 200 sem 0 \<or> ap_wait 200 sem 200 \<or> ap_wait 10000 sem 400"
    using split [of 200 200] split [of 400 10000] w by simp
  then show ?thesis using assms w(1)
    by (auto simp: start1_def bnd_run seqk_run send_runs basic_run split: if_splits)
qed

definition ap0 :: ap_start where
  "ap0 = \<lparr>sm_mem = \<lparr>pages = (\<lambda>_. page_empty), free_head = 0x2000\<rparr>,
     sm_xapic = \<lparr>XAPIC = KERNBASE + 0xFEE00000, apic_base = 0xFEE00900, x_writes = []\<rparr>, ap_percpu = 0, ap_id = 0, ap_sem = 0\<rparr>"

theorem start1_starts_witness:
  "\<exists>t. start1 0 (\<lambda>_. 0) (\<lambda>k. k = 250) 0x9000 1 3 ap0 = (Ok (), t) \<and> ap_percpu t = 0x2000 \<and> ap_id t = 1 \<and>
    length (x_writes (sm_xapic t)) = 7"
proof -
  have "read_next page_empty = 0" by (simp add: read_next_def page_empty_def eval_nat_numeral)
  then obtain m where m: "kalloc (sm_mem ap0) = (Some 0x2000, m)" by (simp add: ap0_def kalloc_def fl_get_def Let_def)
  have "\<not> (\<exists>k < 200. k = (250 :: nat))" "\<exists>k < 10400. k = (250 :: nat)" by simp_all
  then show ?thesis using start1_starts [OF _ _ m, of 3 0 "\<lambda>_. 0" "\<lambda>k. k = 250" "0x9000" 1]
    by (auto simp: ap0_def init_msgs_def sipi_msgs_def)
qed

section \<open>The serial line\<close>

lemma lsr_bit: "((x :: u8) AND 0x21) AND 0x20 = x AND 0x20" "((x :: u8) AND 0x21) AND 1 = x AND 1"
  by (simp_all add: and.assoc)

lemma uart_lsr_run: "uart_lsr st s = (Ok (st (u_polls s) AND 0x21), s\<lparr>u_polls := u_polls s + 1\<rparr>)"
  by (simp add: uart_lsr_def kop_simps)

lemma uart_ready_finds:
  assumes "st (u_polls s + k) AND 0x20 = 0x20" "\<forall>i < k. st (u_polls s + i) AND 0x20 \<noteq> 0x20"
  shows "uart_ready n 0x20 st s = (if k < n then (Ok True, s\<lparr>u_polls := u_polls s + k + 1\<rparr>) else (Ok False, s\<lparr>u_polls := u_polls s + n\<rparr>))"
  using assms
proof (induction n arbitrary: s k)
  case 0
  then show ?case by (simp add: kop_simps)
next
  case (Suc n)
  let ?s = "s\<lparr>u_polls := u_polls s + 1\<rparr>"
  show ?case
  proof (cases k)
    case 0
    then show ?thesis using Suc.prems(1) by (simp add: bnd_run uart_lsr_run lsr_bit basic_run)
  next
    case (Suc j)
    have "st (u_polls s) AND 0x20 \<noteq> 0x20" using Suc.prems(2) Suc by (metis add_0_right zero_less_Suc)
    moreover have "st (u_polls ?s + i) AND 0x20 \<noteq> 0x20" if "i < j" for i
      using Suc.prems(2) [rule_format, of "Suc i"] that Suc by simp
    then have "uart_ready n 0x20 st ?s = (if j < n then (Ok True, ?s\<lparr>u_polls := u_polls ?s + j + 1\<rparr>) else (Ok False, ?s\<lparr>u_polls := u_polls ?s + n\<rparr>))"
      using Suc.IH [where s = ?s and k = j] Suc.prems Suc by auto
    ultimately show ?thesis using Suc by (simp add: bnd_run uart_lsr_run lsr_bit)
  qed
qed

text \<open>A byte is sent once the chip is ready, which may take any number of rounds; if it never is, \<open>putb\<close> does not return.\<close>

lemma uart_putb_sends:
  assumes "st (u_polls s + k) AND 0x20 = 0x20" "\<forall>i < k. st (u_polls s + i) AND 0x20 \<noteq> 0x20" "k < 128 * n"
  shows "uart_putb n st b s = (Ok (), s\<lparr>u_writes := u_writes s @ [(EIA0, b)], u_polls := u_polls s + k + 1\<rparr>)"
  using assms
proof (induction n arbitrary: s k)
  case (Suc n)
  show ?case
  proof (cases "k < 128")
    case True
    then show ?thesis using uart_ready_finds [OF Suc.prems(1,2), of 128]
      by (simp add: tx_ready_def bnd_run uart_outb_def kop_simps)
  next
    case False
    let ?s = "s\<lparr>u_polls := u_polls s + 128\<rparr>"
    have "st (u_polls ?s + i) AND 0x20 \<noteq> 0x20" if "i < k - 128" for i
      using Suc.prems(2) [rule_format, of "128 + i"] that by (simp add: add.assoc)
    moreover have "st (u_polls ?s + (k - 128)) AND 0x20 = 0x20" using Suc.prems(1) False by simp
    ultimately have "uart_putb n st b ?s = (Ok (), ?s\<lparr>u_writes := u_writes ?s @ [(EIA0, b)], u_polls := u_polls ?s + (k - 128) + 1\<rparr>)"
      using Suc.IH [where s = ?s and k = "k - 128"] Suc.prems(3) False by simp
    then show ?thesis using False uart_ready_finds [OF Suc.prems(1,2), of 128] by (simp add: tx_ready_def bnd_run)
  qed
qed simp

lemma uart_putb_waits:
  assumes "\<And>i. st i AND 0x20 \<noteq> 0x20"
  shows "fst (uart_putb n st b s) = Diverge"
proof (induction n arbitrary: s)
  case (Suc n)
  have "\<exists>t. uart_ready m 0x20 st s = (Ok False, t)" for m s
    by (induction m arbitrary: s) (simp_all add: bnd_run uart_lsr_run lsr_bit assms kop_simps)
  then obtain t where t: "tx_ready st s = (Ok False, t)" unfolding tx_ready_def by blast
  have "uart_putb (Suc n) st b s = uart_putb n st b t" by (simp add: bnd_run(1) [where m = "tx_ready st" and s = s, OF t])
  then show ?case using Suc by (simp only:)
qed simp

lemma uart_putb_now:
  assumes "\<And>i. st i AND 0x20 = 0x20" "0 < n"
  shows "uart_putb n st b s = (Ok (), s\<lparr>u_writes := u_writes s @ [(EIA0, b)], u_polls := u_polls s + 1\<rparr>)"
  using uart_putb_sends [of st s 0 n b] assms by simp

text \<open>A string is sent with a carriage return before each newline.\<close>

lemma uart_write_str_sends:
  assumes "\<And>i. st i AND 0x20 = 0x20" "0 < n"
  shows "\<exists>p. uart_write_str n st bs s =
    (Ok (), s\<lparr>u_writes := u_writes s @ map (Pair EIA0) (concat (map (\<lambda>b. if b = 10 then [13, 10] else [b]) bs)), u_polls := p\<rparr>)"
proof (induction bs arbitrary: s)
  case Nil
  show ?case by (intro exI [of _ "u_polls s"]) (simp add: uart_write_str_def kop_simps)
next
  case (Cons b bs)
  let ?out = "map (Pair EIA0) (if b = 10 then [13, 10] else [b])"
  let ?t = "s\<lparr>u_writes := u_writes s @ ?out, u_polls := u_polls s + length ?out\<rparr>"
  have "seqk (if b = 10 then uart_putb n st 13 else ret ()) (uart_putb n st b) s = (Ok (), ?t)"
    using uart_putb_now [OF assms] by (simp add: seqk_run kop_simps)
  then show ?case using Cons [of ?t] by (auto simp: uart_write_str_def seqk_run)
qed

end
