(* ===== verification/Ulib.thy ===== *)
theory Ulib
  imports Prelude "HOL-Library.List_Lexorder"
begin

text \<open>
  The library of user programs (\<open>ulib/src/lib.rs\<close>, \<open>ulib/src/rvdprintf.rs\<close>): strings, memory and
  formatted printing. Memory is a function from addresses to bytes; C strings are found by their null
  byte, so a string without one is a loop that does not end (\<open>None\<close>).
\<close>

type_synonym cmem = "usize \<Rightarrow> u8"

section \<open>Strings\<close>

partial_function (option) strlen_from :: "cmem \<Rightarrow> usize \<Rightarrow> nat \<Rightarrow> nat option" where
  "strlen_from m s k = (if m (s + of_nat k) = 0 then Some k else strlen_from m s (k + 1))"

definition strlen :: "cmem \<Rightarrow> usize \<Rightarrow> nat option" where
  "strlen m s = strlen_from m s 0"

definition cstr2slice :: "cmem \<Rightarrow> usize \<Rightarrow> bytes option" where
  "cstr2slice m s = map_option (\<lambda>n. map (\<lambda>i. m (s + of_nat i)) [0..<n]) (strlen m s)"

definition strlcpy_inner :: "bytes \<Rightarrow> bytes \<Rightarrow> (bytes \<times> nat) res" where
  "strlcpy_inner dst src =
     (if length src < length dst then Ok (overwrite dst 0 (src @ [0]), length src)
      else if dst = [] then Panic ''attempt to subtract with overflow''
      else let k = length dst - 1 in Ok (overwrite dst 0 (take k src @ [0]), length src))"

definition set_bytes :: "usize \<Rightarrow> bytes \<Rightarrow> cmem \<Rightarrow> cmem" where
  "set_bytes a bs m x = (if unat (x - a) < length bs then bs ! unat (x - a) else m x)"

definition strlcpy :: "usize \<Rightarrow> usize \<Rightarrow> nat \<Rightarrow> cmem \<Rightarrow> (nat \<times> cmem) res option" where
  "strlcpy dst src sz m = map_option (\<lambda>str.
     rbind (strlcpy_inner (map (\<lambda>i. m (dst + of_nat i)) [0..<sz]) str) (\<lambda>(d, n). Ok (n, set_bytes dst d m)))
     (cstr2slice m src)"

definition strchr :: "cmem \<Rightarrow> usize \<Rightarrow> u8 \<Rightarrow> usize option" where
  "strchr m s c = map_option (\<lambda>str. case position (\<lambda>ch. ch = c) str of
     Some off \<Rightarrow> s + of_nat off | None \<Rightarrow> 0) (cstr2slice m s)"

definition get_or_0 :: "bytes \<Rightarrow> nat \<Rightarrow> int" where
  "get_or_0 p k = (if k < length p then uint (p ! k) else 0)"

fun strcmp_loop :: "bytes \<Rightarrow> bytes \<Rightarrow> nat list \<Rightarrow> int" where
  "strcmp_loop p q [] = 0"
| "strcmp_loop p q (k # ks) = (let a = get_or_0 p k; b = get_or_0 q k
     in if a \<noteq> b then a - b else strcmp_loop p q ks)"

definition strcmp_inner :: "bytes \<Rightarrow> bytes \<Rightarrow> int" where
  "strcmp_inner p q = strcmp_loop p q [0..<max (length p) (length q)]"

definition strcmp :: "cmem \<Rightarrow> usize \<Rightarrow> usize \<Rightarrow> int option" where
  "strcmp m p q = Option.bind (cstr2slice m p) (\<lambda>a. map_option (strcmp_inner a) (cstr2slice m q))"

text \<open>The sum is an \<open>i32\<close>; its product and sum are checked.\<close>

definition i32_checked :: "string \<Rightarrow> int \<Rightarrow> int res" where
  "i32_checked msg x = (if - (2 ^ 31) \<le> x \<and> x < 2 ^ 31 then Ok x else Panic msg)"

definition is_digit :: "u8 \<Rightarrow> bool" where
  "is_digit c \<longleftrightarrow> 0x30 \<le> c \<and> c \<le> 0x39"

fun atoi_fold :: "int \<Rightarrow> bytes \<Rightarrow> int res" where
  "atoi_fold acc [] = Ok acc"
| "atoi_fold acc (c # cs) =
     rbind (i32_checked ''attempt to multiply with overflow'' (acc * 10)) (\<lambda>x.
     rbind (i32_checked ''attempt to add with overflow'' (x + uint (c - 0x30))) (\<lambda>y. atoi_fold y cs))"

definition atoi_inner :: "bytes \<Rightarrow> int res" where
  "atoi_inner s = atoi_fold 0 (takeWhile is_digit s)"

definition atoi :: "cmem \<Rightarrow> usize \<Rightarrow> int res option" where
  "atoi m s = map_option atoi_inner (cstr2slice m s)"

section \<open>Memory\<close>

fun memcpy_loop :: "usize \<Rightarrow> usize \<Rightarrow> nat list \<Rightarrow> cmem \<Rightarrow> cmem" where
  "memcpy_loop dst src [] m = m"
| "memcpy_loop dst src (k # ks) m = memcpy_loop dst src ks (m(dst + of_nat k := m (src + of_nat k)))"

definition memcpy :: "usize \<Rightarrow> usize \<Rightarrow> nat \<Rightarrow> cmem \<Rightarrow> cmem" where
  "memcpy dst src len m = memcpy_loop dst src [0..<len] m"

definition memmove :: "usize \<Rightarrow> usize \<Rightarrow> nat \<Rightarrow> cmem \<Rightarrow> cmem" where
  "memmove dst src len m = memcpy dst src len m"

fun memcmp_loop :: "cmem \<Rightarrow> usize \<Rightarrow> usize \<Rightarrow> nat list \<Rightarrow> int" where
  "memcmp_loop m a b [] = 0"
| "memcmp_loop m a b (k # ks) = (let aa = m (a + of_nat k); bb = m (b + of_nat k)
     in if aa < bb then - 1 else if aa > bb then 1 else memcmp_loop m a b ks)"

definition memcmp :: "cmem \<Rightarrow> usize \<Rightarrow> usize \<Rightarrow> nat \<Rightarrow> int" where
  "memcmp m a b n = memcmp_loop m a b [0..<n]"

fun memset_loop :: "usize \<Rightarrow> u8 \<Rightarrow> nat list \<Rightarrow> cmem \<Rightarrow> cmem" where
  "memset_loop dst c [] m = m"
| "memset_loop dst c (k # ks) m = memset_loop dst c ks (m(dst + of_nat k := c))"

definition memset :: "usize \<Rightarrow> u8 \<Rightarrow> nat \<Rightarrow> cmem \<Rightarrow> cmem" where
  "memset dst c n m = memset_loop dst c [0..<n] m"

section \<open>Printing\<close>

text \<open>
  \<open>printint\<close> fills a buffer of 32 bytes from its end; the digits so far are the third argument and
  \<open>cnt\<close> is the number of bytes before them.
\<close>

definition digit :: "nat \<Rightarrow> u8" where
  "digit k = (if k < 10 then 0x30 + of_nat k else 0x41 + of_nat (k - 10))"

fun printint_loop :: "nat \<Rightarrow> nat \<Rightarrow> nat \<Rightarrow> bytes \<Rightarrow> bytes" where
  "printint_loop b x 0 s = digit (x mod b) # s"
| "printint_loop b x (Suc cnt) s =
     (if x div b \<noteq> 0 then printint_loop b (x div b) cnt (digit (x mod b) # s) else digit (x mod b) # s)"

definition printint :: "nat \<Rightarrow> u64 \<Rightarrow> bytes" where
  "printint b x = printint_loop b (unat x) 31 []"

text \<open>
  What is written, call by call. The variable arguments are the words the caller passed, taken in
  order; \<open>ap\<close> is how many have been taken.
\<close>

record pstate_out =
  ap :: nat
  written :: "bytes list"

definition puts :: "bytes \<Rightarrow> pstate_out \<Rightarrow> pstate_out" where
  "puts bs s = s\<lparr>written := written s @ [bs]\<rparr>"

definition putc :: "u8 \<Rightarrow> pstate_out \<Rightarrow> pstate_out" where
  "putc b s = puts [b] s"

definition next_arg :: "pstate_out \<Rightarrow> pstate_out" where
  "next_arg s = s\<lparr>ap := ap s + 1\<rparr>"

definition printnegint :: "nat \<Rightarrow> u64 \<Rightarrow> pstate_out \<Rightarrow> pstate_out" where
  "printnegint b x s = puts (printint b x) (putc 0x2D s)"

definition print_i32 :: "u32 \<Rightarrow> pstate_out \<Rightarrow> pstate_out" where
  "print_i32 d s = (if sint d < 0
     then printnegint 10 (of_int \<bar>sint d\<bar>) s else puts (printint 10 (ucast d)) s)"

definition printv :: "cmem \<Rightarrow> (nat \<Rightarrow> u64) \<Rightarrow> u8 \<Rightarrow> pstate_out \<Rightarrow> pstate_out option" where
  "printv m args c s =
     (let a = args (ap s); t = next_arg s
      in if c = 0x25 then Some (putc 0x25 s)
         else if c = 0x63 then Some (putc (ucast a) t)
         else if c = 0x64 then Some (print_i32 (ucast a) t)
         else if c = 0x6F then Some (puts (printint 8 a) t)
         else if c = 0x70 \<or> c = 0x78 then Some (puts (printint 16 a) t)
         else if c = 0x73 then
           (if a = 0 then Some (puts [0x28, 0x6E, 0x75, 0x6C, 0x6C, 0x29] t)
            else map_option (\<lambda>str. puts str t) (cstr2slice m a))
         else Some (putc c (putc 0x25 s)))"

fun printf_loop :: "cmem \<Rightarrow> (nat \<Rightarrow> u64) \<Rightarrow> bool \<Rightarrow> bytes \<Rightarrow> pstate_out \<Rightarrow> pstate_out option" where
  "printf_loop m args verb [] s = Some s"
| "printf_loop m args False (c # cs) s =
     (if c = 0x25 then printf_loop m args True cs s else printf_loop m args False cs (putc c s))"
| "printf_loop m args True (c # cs) s = Option.bind (printv m args c s) (printf_loop m args False cs)"

definition rvdprintf :: "cmem \<Rightarrow> bytes \<Rightarrow> (nat \<Rightarrow> u64) \<Rightarrow> bytes list option" where
  "rvdprintf m fmt args = map_option written (printf_loop m args False fmt \<lparr>ap = 0, written = []\<rparr>)"

section \<open>Comparison is lexicographic\<close>

lemma strcmp_loop_skip:
  "strcmp_loop (a # p) (b # q) (map Suc ks) = strcmp_loop p q ks"
  by (induction ks) (simp_all add: get_or_0_def Let_def)

lemma uint_eq: "uint (a :: u8) = uint b \<longleftrightarrow> a = b"
  by (simp add: word_uint_eq_iff)

lemma strcmp_Cons: "strcmp_inner (a # p) (b # q) = (if a \<noteq> b then uint a - uint b else strcmp_inner p q)"
proof -
  have "[0..<max (length (a # p)) (length (b # q))] = 0 # map Suc [0..<max (length p) (length q)]"
    by (simp add: upt_conv_Cons map_Suc_upt del: upt_Suc)
  then show ?thesis
    by (simp add: strcmp_inner_def strcmp_loop_skip get_or_0_def Let_def uint_eq del: upt_Suc)
qed

text \<open>
  \<open>strcmp\<close> is the lexicographic order on strings: for strings (which hold no null byte) the result
  is negative exactly when the first is smaller, positive exactly when it is larger, and zero exactly
  when they are equal.
\<close>
theorem strcmp_lexicographic:
  "0 \<notin> set p \<Longrightarrow> 0 \<notin> set q \<Longrightarrow>
   (strcmp_inner p q < 0 \<longleftrightarrow> p < q) \<and> (strcmp_inner p q = 0 \<longleftrightarrow> p = q) \<and> (0 < strcmp_inner p q \<longleftrightarrow> q < p)"
proof (induction p q rule: list_induct2')
  case 1
  then show ?case by (simp add: strcmp_inner_def)
next
  case (2 a p)
  then have "0 < uint a" by (simp add: word_neq_0_conv word_less_def)
  moreover have "[0..<length (a # p)] = 0 # [1..<length (a # p)]" by (simp add: upt_conv_Cons del: upt_Suc)
  ultimately show ?case by (simp add: strcmp_inner_def get_or_0_def del: upt_Suc)
next
  case (3 b q)
  then have "0 < uint b" by (simp add: word_neq_0_conv word_less_def)
  moreover have "[0..<length (b # q)] = 0 # [1..<length (b # q)]" by (simp add: upt_conv_Cons del: upt_Suc)
  ultimately show ?case by (simp add: strcmp_inner_def get_or_0_def del: upt_Suc)
next
  case (4 a p b q)
  then show ?case by (auto simp: strcmp_Cons word_less_def uint_eq)
qed

theorem strcmp_lexicographic_witness:
  "strcmp_inner [0x6C, 0x73] [0x6C, 0x73, 0x74] < 0"
  using strcmp_lexicographic [of "[0x6C, 0x73]" "[0x6C, 0x73, 0x74]"] by simp

section \<open>Numbers\<close>

definition digit_val :: "u8 \<Rightarrow> nat" where
  "digit_val c = (if c < 0x3A then unat (c - 0x30) else unat (c - 0x41) + 10)"

lemma digit_val_digit: "k < 16 \<Longrightarrow> digit_val (digit k) = k"
proof -
  assume "k < 16"
  then have "k \<in> set [0..<16]" by simp
  moreover have "\<forall>k \<in> set [0..<16]. digit_val (digit k) = k"
    by (simp add: upt_rec digit_val_def digit_def)
  ultimately show ?thesis by blast
qed

lemma digit_decimal: "k < 10 \<Longrightarrow> is_digit (digit k) \<and> uint (digit k - 0x30) = int k"
proof -
  assume "k < 10"
  then have "k \<in> set [0..<10]" by simp
  moreover have "\<forall>k \<in> set [0..<10]. is_digit (digit k) \<and> uint (digit k - 0x30) = int k"
    by (simp add: upt_rec is_digit_def digit_def)
  ultimately show ?thesis by blast
qed

lemma printint_loop_value:
  assumes "2 \<le> b" "b \<le> 16"
  shows "x < b ^ Suc cnt \<Longrightarrow>
    foldl (\<lambda>n c. n * b + digit_val c) 0 (printint_loop b x cnt s) = foldl (\<lambda>n c. n * b + digit_val c) x s"
proof (induction cnt arbitrary: x s)
  case 0
  then show ?case using assms by (simp add: digit_val_digit)
next
  case (Suc cnt)
  have d: "digit_val (digit (x mod b)) = x mod b" using assms 
    by (intro digit_val_digit order.strict_trans2 [OF mod_less_divisor]) simp_all
  have "x div b < b ^ Suc cnt" using Suc.prems assms(1) by (simp add: div_less_iff_less_mult mult.commute)
  then show ?case using Suc.IH [of "x div b" "digit (x mod b) # s"] d by (auto simp: div_eq_0_iff)
qed

lemma atoi_fold_digit:
  assumes "int x * 10 + int d < 2 ^ 31" "d < 10"
  shows "atoi_fold (int x) (digit d # s) = atoi_fold (int (x * 10 + d)) s"
  using assms digit_decimal [of d] by (simp add: i32_checked_def)

lemma atoi_printint_loop:
  "x < 10 ^ Suc cnt \<Longrightarrow> int x < 2 ^ 31 \<Longrightarrow> atoi_fold 0 (printint_loop 10 x cnt s) = atoi_fold (int x) s"
proof (induction cnt arbitrary: x s)
  case 0
  then show ?case using atoi_fold_digit [of 0 x s] by simp
next
  case (Suc cnt)
  have "x div 10 < 10 ^ Suc cnt" using Suc.prems by (simp add: div_less_iff_less_mult mult.commute)
  moreover have "int (x div 10) * 10 + int (x mod 10) = int x"
    by (metis div_mult_mod_eq of_nat_add of_nat_mult of_nat_numeral)
  ultimately have "atoi_fold 0 (printint_loop 10 (x div 10) cnt (digit (x mod 10) # s)) = atoi_fold (int x) s"
    using Suc.IH [of "x div 10" "digit (x mod 10) # s"] Suc.prems atoi_fold_digit [of "x div 10" "x mod 10" s]
    by (simp del: atoi_fold.simps)
  then show ?case
    using atoi_fold_digit [of 0 x s] by (auto simp: div_eq_0_iff simp del: atoi_fold.simps)
qed

lemma printint_loop_digits:
  "list_all is_digit s \<Longrightarrow> list_all is_digit (printint_loop 10 x cnt s)"
  by (induction cnt arbitrary: x s) (simp_all add: digit_decimal)

text \<open>
  Printing and reading numbers. For each of the bases the library prints in, the digits \<open>printint\<close>
  writes for any 64-bit number denote that number, so its buffer of 32 bytes is always long enough;
  and \<open>atoi\<close> reads every number below \<open>2^31\<close> back from its decimal digits, whatever follows them.
\<close>
theorem print_read_number:
  assumes "b \<in> {8, 10, 16}" and "rest = [] \<or> \<not> is_digit (hd rest)"
  shows "foldl (\<lambda>n c. n * b + digit_val c) 0 (printint b x) = unat x \<and>
    (uint x < 2 ^ 31 \<longrightarrow> atoi_inner (printint 10 x @ rest) = Ok (uint x))"
proof (intro conjI impI)
  have "(2 :: nat) ^ 64 \<le> 8 ^ 32" by simp
  also have "\<dots> \<le> b ^ Suc 31" using assms(1) by (auto intro: power_mono)
  finally have "unat x < b ^ Suc 31" using unat_less_pow64 [of x] by (simp del: unat_less_pow64)
  then show "foldl (\<lambda>n c. n * b + digit_val c) 0 (printint b x) = unat x"
    unfolding printint_def using assms(1) by (subst printint_loop_value) auto
  assume x: "uint x < 2 ^ 31"
  have "takeWhile is_digit (printint 10 x @ rest) = printint 10 x"
    using printint_loop_digits [of "[]" "unat x" 31] assms(2)
    by (cases rest) (auto simp: printint_def takeWhile_append list_all_iff)
  moreover have "int (unat x) = uint x" by simp
  moreover have "unat x < 10 ^ Suc 31" using unat_less_pow64 [of x] by (rule order.strict_trans) simp
  ultimately show "atoi_inner (printint 10 x @ rest) = Ok (uint x)"
    using atoi_printint_loop [of "unat x" 31 "[]"] x by (simp add: atoi_inner_def printint_def)
qed

theorem print_read_number_witness:
  "foldl (\<lambda>n c. n * 16 + digit_val c) 0 (printint 16 0xBEEF) = 0xBEEF \<and> atoi_inner (printint 10 1234 @ [0x20]) = Ok 1234"
  using print_read_number [of 16 "[]" "0xBEEF"] print_read_number [of 10 "[0x20]" 1234]
  by (simp add: is_digit_def)

section \<open>Copying\<close>

lemma memcpy_Suc: "memcpy dst src (Suc n) m = (memcpy dst src n m)(dst + of_nat n := memcpy dst src n m (src + of_nat n))"
proof -
  have "memcpy_loop dst src (ks @ [n]) m = (memcpy_loop dst src ks m)(dst + of_nat n := memcpy_loop dst src ks m (src + of_nat n))"
    for ks by (induction ks arbitrary: m) simp_all
  then show ?thesis by (simp add: memcpy_def)
qed

lemma of_nat_inj64: "i < 2 ^ 64 \<Longrightarrow> j < 2 ^ 64 \<Longrightarrow> (of_nat i :: usize) = of_nat j \<longleftrightarrow> i = j"
proof
  assume i: "i < 2 ^ 64" and j: "j < 2 ^ 64" and eq: "(of_nat i :: usize) = of_nat j"
  have "unat (of_nat i :: usize) = i" using i by simp
  moreover have "unat (of_nat j :: usize) = j" using j by simp
  ultimately show "i = j" using eq by metis
qed simp

text \<open>What a forward copy leaves behind when the destination begins inside the source.\<close>

lemma memcpy_smears:
  assumes "0 < d" "d + n < 2 ^ 64" "j < 2 ^ 64"
  shows "memcpy (src + of_nat d) src n m (src + of_nat j) =
    (if d \<le> j \<and> j < d + n then m (src + of_nat ((j - d) mod d)) else m (src + of_nat j))"
  using assms(2,3)
proof (induction n arbitrary: j)
  case 0
  then show ?case by (auto simp: memcpy_def)
next
  case (Suc n)
  let ?M = "memcpy (src + of_nat d) src n m"
  have at: "src + of_nat d + of_nat n = src + of_nat j \<longleftrightarrow> j = d + n"
    using of_nat_inj64 [of "d + n" j] Suc.prems by (auto simp: add.assoc)
  have "?M (src + of_nat n) = m (src + of_nat (n mod d))"
  proof (cases "n < d")
    case False
    then have "(n - d) mod d = n mod d" by (simp add: le_mod_geq)
    then show ?thesis using Suc.IH [of n] Suc.prems False assms(1) by simp
  qed (use Suc.IH [of n] Suc.prems in simp)
  then have new: "memcpy (src + of_nat d) src (Suc n) m (src + of_nat j) =
      (if j = d + n then m (src + of_nat (n mod d)) else ?M (src + of_nat j))"
    unfolding memcpy_Suc fun_upd_apply using at by (metis (full_types))
  show ?case
  proof (cases "j = d + n")
    case True
    then show ?thesis using new by (simp del: of_nat_add)
  next
    case False
    then have "d \<le> j \<and> j < d + Suc n \<longleftrightarrow> d \<le> j \<and> j < d + n" by auto
    then show ?thesis using new Suc.IH [of j] Suc.prems False by simp
  qed
qed

text \<open>
  \<open>memmove\<close> does not move overlapping memory. It copies forward, so when the destination lies \<open>d\<close>
  bytes into a longer source, it does not get the source's bytes but the first \<open>d\<close> of them over and over;
  a moved block is intact only if the regions are \<open>len\<close> bytes or more apart.
\<close>
theorem memmove_overlap_repeats:
  assumes "0 < d" "d + len < 2 ^ 64" "i < len"
  shows "memmove (src + of_nat d) src len m (src + of_nat d + of_nat i) =
    (if len \<le> d then m (src + of_nat i) else m (src + of_nat (i mod d)))"
  using memcpy_smears [of d len "d + i" src m] assms by (auto simp: memmove_def add.assoc)

theorem memmove_overlap_repeats_witness:
  "memmove 0x101 0x100 3 (\<lambda>a. ucast a) 0x103 = 0"
  using memmove_overlap_repeats [of 1 3 2 "0x100" "\<lambda>a. ucast a"] by simp

end
