(* ===== verification/Malloc.thy ===== *)
theory Malloc
  imports Prelude
begin

text \<open>
  The allocator of user programs (\<open>ulib/src/malloc.rs\<close>): a circular list of free blocks in address
  order. Addresses and sizes are naturals; the additions and products that the compiler checks are
  checked here, and the pointer arithmetic that it does not check stays inside a block. A header is
  two words at its block's address, kept as one function per field. The list is walked until a
  condition holds, so the walks are partial functions, with \<open>None\<close> for a walk that does not end.

  \<open>sbrk\<close> is the system call: an argument, a function from the number of bytes (an \<open>isize\<close>) and the
  break to the value returned and the new break.
\<close>

type_synonym addr = nat

record uheap =
  next_of :: "addr \<Rightarrow> addr"
  nunits_of :: "addr \<Rightarrow> nat"
  FREE_LIST :: "addr option"
  BASE :: addr
  ubrk :: addr

type_synonym sbrk_fun = "int \<Rightarrow> addr \<Rightarrow> addr \<times> addr"

definition UNIT_SIZE :: nat where
  "UNIT_SIZE = 16"

definition HEADER_ALIGN :: nat where
  "HEADER_ALIGN = 8"

lemmas header_layout = UNIT_SIZE_def HEADER_ALIGN_def

definition header_new :: "addr \<Rightarrow> nat \<Rightarrow> addr \<Rightarrow> uheap \<Rightarrow> uheap" where
  "header_new p n nxt s = s\<lparr>next_of := (next_of s)(p := nxt), nunits_of := (nunits_of s)(p := n)\<rparr>"

definition header_end :: "uheap \<Rightarrow> addr \<Rightarrow> addr" where
  "header_end s p = p + UNIT_SIZE * nunits_of s p"

definition set_next :: "addr \<Rightarrow> addr \<Rightarrow> uheap \<Rightarrow> uheap" where
  "set_next p q s = s\<lparr>next_of := (next_of s)(p := q)\<rparr>"

definition checked :: "string \<Rightarrow> nat \<Rightarrow> nat res" where
  "checked msg x = (if x < 2 ^ 64 then Ok x else Panic msg)"

definition bytes2units :: "nat \<Rightarrow> nat res" where
  "bytes2units bytes = rbind (checked ''called `Option::unwrap()` on a `None` value'' (bytes + (UNIT_SIZE - 1)))
     (\<lambda>b. Ok (b div UNIT_SIZE))"

text \<open>\<open>p.as_ref().unwrap()\<close> panics for the null pointer.\<close>

definition nonnull :: "addr \<Rightarrow> (uheap, unit) kop" where
  "nonnull p = assertk (p \<noteq> 0) ''called `Option::unwrap()` on a `None` value''"

section \<open>Freeing\<close>

definition follows :: "addr \<Rightarrow> addr \<Rightarrow> addr \<Rightarrow> bool" where
  "follows pp bp np \<longleftrightarrow> (pp < bp \<and> bp < np) \<or> (pp \<ge> np \<and> (pp < bp \<or> bp < np))"

partial_function (option) free_find :: "uheap \<Rightarrow> addr \<Rightarrow> addr \<Rightarrow> addr res option" where
  "free_find s tag p =
     (if p = 0 then Some (Panic ''called `Option::unwrap()` on a `None` value'')
      else if follows p tag (next_of s p) then Some (Ok p)
      else free_find s tag (next_of s p))"

text \<open>
  \<open>absorb a b\<close> is \<open>a.nunits += b.nunits; a.next = b.next\<close>. In \<open>free_insert\<close> the block first takes in the
  block after it, if that begins where it ends, and is then taken in by the block before it, if that
  ends where it begins.
\<close>

definition absorb :: "addr \<Rightarrow> addr \<Rightarrow> (uheap, unit) kop" where
  "absorb a b = bnd (lift_res (\<lambda>s. checked ''attempt to add with overflow'' (nunits_of s a + nunits_of s b)))
     (\<lambda>n. modify (\<lambda>s. header_new a n (next_of s b) s))"

definition join_next :: "addr \<Rightarrow> addr \<Rightarrow> (uheap, unit) kop" where
  "join_next tag nextp = bnd (gets (\<lambda>s. header_end s tag)) (\<lambda>e.
     if e = nextp then seqk (nonnull nextp) (absorb tag nextp) else modify (set_next tag nextp))"

definition join_current :: "addr \<Rightarrow> addr \<Rightarrow> (uheap, unit) kop" where
  "join_current p tag = bnd (gets (\<lambda>s. header_end s p)) (\<lambda>e.
     if e = tag then absorb p tag else modify (set_next p tag))"

definition free_insert :: "addr \<Rightarrow> addr \<Rightarrow> (uheap, addr) kop" where
  "free_insert tag p =
     bnd (gets (\<lambda>s. next_of s p)) (\<lambda>nextp.
     seqk (join_next tag nextp)
     (seqk (join_current p tag)
     (seqk (modify (\<lambda>s. s\<lparr>FREE_LIST := Some p\<rparr>))
     (ret p))))"

definition inner_free :: "addr \<Rightarrow> uheap \<Rightarrow> (addr res \<times> uheap) option" where
  "inner_free tag s =
     (if nunits_of s tag = 0 then Some (Panic ''assertion `left != right` failed'', s)
      else case FREE_LIST s of
        None \<Rightarrow> Some (Ok tag, s\<lparr>FREE_LIST := Some tag\<rparr>)
      | Some f \<Rightarrow> map_option (\<lambda>r. bnd (lift_res (\<lambda>_. r)) (free_insert tag) s) (free_find s tag f))"

definition krfree :: "addr \<Rightarrow> uheap \<Rightarrow> (unit res \<times> uheap) option" where
  "krfree p s =
     (if p = 0 then Some (Ok (), s)
      else if p mod HEADER_ALIGN \<noteq> 0 then Some (Panic ''assertion `left == right` failed'', s)
      else map_option (\<lambda>(r, t). (rbind r (\<lambda>_. Ok ()), t)) (inner_free (p - UNIT_SIZE) s))"

section \<open>Allocating\<close>

text \<open>\<open>nbytes as isize\<close>.\<close>

definition as_isize :: "nat \<Rightarrow> int" where
  "as_isize n = (if n < 2 ^ 63 then int n else int n - 2 ^ 64)"

definition safe_sbrk :: "sbrk_fun \<Rightarrow> nat \<Rightarrow> (uheap, addr option) kop" where
  "safe_sbrk sbrk nbytes s = (let (p, b) = sbrk (as_isize nbytes) (ubrk s)
     in (Ok (if p = 2 ^ 64 - 1 then None else Some p), s\<lparr>ubrk := b\<rparr>))"

definition more_units :: "sbrk_fun \<Rightarrow> nat \<Rightarrow> (uheap, addr option) kop" where
  "more_units sbrk n =
     (let nunits = max n 4096
      in bnd (lift_res (\<lambda>_. checked ''attempt to multiply with overflow'' (nunits * UNIT_SIZE))) (\<lambda>nbytes.
         bnd (safe_sbrk sbrk nbytes) (\<lambda>r. case r of
           None \<Rightarrow> ret None
         | Some p \<Rightarrow>
             seqk (assertk (p mod HEADER_ALIGN = 0) ''assertion `left == right` failed'')
             (seqk (modify (header_new p nunits p))
             (ret (Some p))))))"

definition take_whole :: "addr \<Rightarrow> addr \<Rightarrow> (uheap, addr) kop" where
  "take_whole prevp p = seqk (nonnull prevp) (seqk (modify (\<lambda>s. set_next prevp (next_of s p) s)) (ret p))"

definition take_tail :: "nat \<Rightarrow> addr \<Rightarrow> (uheap, addr) kop" where
  "take_tail nunits mp =
     seqk (modify (\<lambda>s. s\<lparr>nunits_of := (nunits_of s)(mp := nunits_of s mp - nunits)\<rparr>))
     (bnd (gets (\<lambda>s. header_end s mp)) (\<lambda>p.
     seqk (modify (\<lambda>s. header_new p nunits (next_of s mp) s))
     (ret p)))"

definition take_block :: "nat \<Rightarrow> addr \<Rightarrow> addr \<Rightarrow> (uheap, addr option) kop" where
  "take_block nunits prevp p =
     bnd (gets (\<lambda>s. nunits_of s p)) (\<lambda>pnunits.
     bnd (if pnunits = nunits then take_whole prevp p else take_tail nunits p) (\<lambda>q.
     seqk (modify (\<lambda>s. s\<lparr>FREE_LIST := Some prevp\<rparr>))
     (ret (Some q))))"

text \<open>\<open>let units = more_units(nunits)?; ptr = inner_free(FREE_LIST, units)\<close>\<close>

definition grow :: "sbrk_fun \<Rightarrow> nat \<Rightarrow> uheap \<Rightarrow> (addr option res \<times> uheap) option" where
  "grow sbrk nunits s = (case more_units sbrk nunits s of
     (Ok (Some units), t) \<Rightarrow> map_option (\<lambda>(r, u). (rbind r (\<lambda>q. Ok (Some q)), u)) (inner_free units t)
   | r \<Rightarrow> Some r)"

text \<open>
  The loop of \<open>inner_malloc\<close>. \<open>freep\<close> is the value that the start of the list had before the loop.
\<close>

partial_function (option) malloc_loop ::
  "sbrk_fun \<Rightarrow> nat \<Rightarrow> addr \<Rightarrow> addr \<Rightarrow> addr \<Rightarrow> uheap \<Rightarrow> (addr option res \<times> uheap) option" where
  "malloc_loop sbrk nunits freep prevp p s =
     (if p = 0 then Some (Panic ''called `Option::unwrap()` on a `None` value'', s)
      else if nunits \<le> nunits_of s p then Some (take_block nunits prevp p s)
      else if p = freep then
        Option.bind (grow sbrk nunits s) (\<lambda>(r, t). case r of
          Ok (Some q) \<Rightarrow> malloc_loop sbrk nunits freep q (next_of t q) t
        | _ \<Rightarrow> Some (r, t))
      else malloc_loop sbrk nunits freep p (next_of s p) s)"

definition init_list :: "uheap \<Rightarrow> uheap" where
  "init_list s = (case FREE_LIST s of
     None \<Rightarrow> (header_new (BASE s) 0 (BASE s) s)\<lparr>FREE_LIST := Some (BASE s)\<rparr>
   | Some _ \<Rightarrow> s)"

definition malloc_units :: "nat \<Rightarrow> nat res" where
  "malloc_units n = rbind (bytes2units n) (\<lambda>u. checked ''attempt to add with overflow'' (u + 1))"

definition inner_malloc :: "sbrk_fun \<Rightarrow> nat \<Rightarrow> uheap \<Rightarrow> (addr option res \<times> uheap) option" where
  "inner_malloc sbrk n s =
     (if n \<noteq> 0 then
        let t = init_list s
        in case malloc_units n of
          Ok nunits \<Rightarrow> (case FREE_LIST t of
              None \<Rightarrow> Some (Panic ''called `Option::unwrap()` on a `None` value'', t)
            | Some freep \<Rightarrow>
                if freep = 0 then Some (Panic ''called `Option::unwrap()` on a `None` value'', t)
                else malloc_loop sbrk nunits freep freep (next_of t freep) t)
        | r \<Rightarrow> Some (rbind r (\<lambda>_. Ok None), t)
      else Some (Ok None, s))"

definition krmalloc :: "sbrk_fun \<Rightarrow> nat \<Rightarrow> uheap \<Rightarrow> (addr res \<times> uheap) option" where
  "krmalloc sbrk n s = map_option (\<lambda>(r, t).
     (rbind r (\<lambda>m. case m of Some h \<Rightarrow> Ok (h + UNIT_SIZE) | None \<Rightarrow> Ok 0), t)) (inner_malloc sbrk n s)"

end
