(* ===== verification/MallocProps.thy ===== *)
theory MallocProps
  imports Malloc "HOL-Library.Disjoint_Sets"
begin

text \<open>
  The allocator keeps the heap partitioned into free and used blocks: the invariant \<open>heap_ok\<close>, its
  preservation by \<open>free\<close> and \<open>malloc\<close>, that both return, and what happens when the topmost free block
  touches the break.
\<close>

section \<open>The circular list\<close>

text \<open>\<open>path nx xs z\<close>: from each element of \<open>xs\<close> the field leads to the one after it, and from the last to \<open>z\<close>.\<close>

fun path :: "(addr \<Rightarrow> addr) \<Rightarrow> addr list \<Rightarrow> addr \<Rightarrow> bool" where
  "path nx [] z = True"
| "path nx (x # xs) z = (nx x = hd (xs @ [z]) \<and> path nx xs z)"

lemma path_append [simp]: "path nx (xs @ ys) z \<longleftrightarrow> path nx xs (hd (ys @ [z])) \<and> path nx ys z"
proof (induction xs)
  case (Cons x xs)
  then show ?case by (cases xs) auto
qed simp

lemma path_cong: "\<forall>x \<in> set xs. nx x = nx' x \<Longrightarrow> path nx xs z = path nx' xs z"
  by (induction xs) auto

lemma path_upd [simp]: "x \<notin> set xs \<Longrightarrow> path (nx(x := y)) xs z = path nx xs z"
  by (rule path_cong) auto

text \<open>From every element of the ring every other one is reached, without passing it on the way.\<close>

lemma ring_path:
  assumes "path nx xs (hd xs)" "distinct xs" "q \<in> set xs" "f \<in> set xs"
  obtains us where "path nx us f" "q = hd (us @ [f])" "set us \<subseteq> set xs - {f}"
proof -
  obtain A C where xs: "xs = A @ f # C" using assms(4) by (meson split_list)
  have p: "path nx A f" "path nx C (hd xs)"
    using assms(1) unfolding xs path_append by simp_all
  have hd: "hd xs = hd (A @ [f])" using xs by (cases A) simp_all
  consider "q = f" | "q \<in> set A" | "q \<in> set C" using assms(3) xs by auto
  then show thesis
  proof cases
    case 1
    then show thesis using that [of "[]"] by simp
  next
    case 2
    then obtain A1 A2 where A: "A = A1 @ q # A2" by (meson split_list)
    then have "path nx (q # A2) f" using p(1) unfolding A path_append by simp
    then show thesis using that [of "q # A2"] assms(2) xs A by auto
  next
    case 3
    then obtain C1 C2 where C: "C = C1 @ q # C2" by (meson split_list)
    then have "path nx (q # C2) (hd xs)" using p(2) unfolding C path_append by simp
    then have "path nx ((q # C2) @ A) f" unfolding path_append using p(1) hd by simp
    then show thesis using that [of "q # C2 @ A"] assms(2) xs C by auto
  qed
qed

section \<open>The invariant\<close>

definition extent :: "uheap \<Rightarrow> addr \<Rightarrow> addr set" where
  "extent s a = {a ..< header_end s a}"

definition area :: "uheap \<Rightarrow> addr set \<Rightarrow> addr set" where
  "area s X = (\<Union>x \<in> X. extent s x)"

lemma area_simps [simp]: "area s {} = {}" "area s (insert x X) = extent s x \<union> area s X"
  "area s (X \<union> Y) = area s X \<union> area s Y"
  by (auto simp: area_def)

definition spaced :: "uheap \<Rightarrow> addr list \<Rightarrow> bool" where
  "spaced s xs = sorted_wrt (\<lambda>a b. header_end s a < b) xs"

definition chain :: "uheap \<Rightarrow> addr list \<Rightarrow> addr \<Rightarrow> bool" where
  "chain s xs z \<longleftrightarrow> path (next_of s) xs z \<and> spaced s xs"

text \<open>The ring \<open>xs\<close> of free blocks: in address order, no two adjoining.\<close>

definition ring_ok :: "uheap \<Rightarrow> addr list \<Rightarrow> bool" where
  "ring_ok s xs \<longleftrightarrow> xs \<noteq> [] \<and> hd xs = BASE s \<and> chain s xs (BASE s) \<and>
     nunits_of s (BASE s) = 0 \<and> (\<forall>x \<in> set xs. x \<noteq> BASE s \<longrightarrow> 0 < nunits_of s x)"

definition used_ok :: "uheap \<Rightarrow> addr set \<Rightarrow> bool" where
  "used_ok s U \<longleftrightarrow> (\<forall>u \<in> U. 0 < nunits_of s u) \<and> disjoint_family_on (extent s) U"

text \<open>
  \<open>heap_ok h s xs U\<close>: the memory from the first break \<open>h\<close> to the break is the disjoint union of the free
  blocks \<open>xs\<close> (after the header \<open>BASE\<close>, which owns no memory) and the blocks \<open>U\<close> in use.
\<close>

definition heap_ok :: "addr \<Rightarrow> uheap \<Rightarrow> addr list \<Rightarrow> addr set \<Rightarrow> bool" where
  "heap_ok h s xs U \<longleftrightarrow> ring_ok s xs \<and> used_ok s U \<and>
     (\<exists>f \<in> set xs. FREE_LIST s = Some f) \<and> 0 < BASE s \<and> BASE s + UNIT_SIZE \<le> h \<and>
     area s (set xs) \<inter> area s U = {} \<and> area s (set xs) \<union> area s U = {h ..< ubrk s} \<and>
     h \<le> ubrk s \<and> ubrk s < 2 ^ 64 - 1 \<and> HEADER_ALIGN dvd ubrk s \<and> (\<forall>x \<in> set xs \<union> U. HEADER_ALIGN dvd x)"

lemma in_extent: "0 < nunits_of s a \<Longrightarrow> a \<in> extent s a"
  by (simp add: extent_def header_end_def UNIT_SIZE_def)

lemma end_ge: "a \<le> header_end s a"
  by (simp add: header_end_def)

lemma spaced_strict: "spaced s xs \<Longrightarrow> sorted_wrt (<) xs"
  unfolding spaced_def by (induction xs) (auto intro: order.strict_trans1 [OF end_ge])


lemma header_new_simps [simp]:
  "next_of (header_new p n q s) = (next_of s)(p := q)" "nunits_of (header_new p n q s) = (nunits_of s)(p := n)"
  "FREE_LIST (header_new p n q s) = FREE_LIST s" "BASE (header_new p n q s) = BASE s"
  "ubrk (header_new p n q s) = ubrk s"
  by (simp_all add: header_new_def)

lemma header_end_cong: "nunits_of s a = nunits_of t a \<Longrightarrow> header_end s a = header_end t a"
  by (simp add: header_end_def)

lemma extent_cong: "nunits_of s a = nunits_of t a \<Longrightarrow> extent s a = extent t a"
  by (simp add: extent_def header_end_def)

lemma spaced_cong: "(\<And>x. x \<in> set xs \<Longrightarrow> nunits_of s x = nunits_of t x) \<Longrightarrow> spaced s xs = spaced t xs"
  unfolding spaced_def by (induction xs) (auto simp: header_end_def)

lemma chain_cong:
  "(\<And>x. x \<in> set xs \<Longrightarrow> next_of s x = next_of t x \<and> nunits_of s x = nunits_of t x) \<Longrightarrow> chain s xs z = chain t xs z"
  unfolding chain_def using path_cong [of xs "next_of s" "next_of t" z] spaced_cong [of xs s t] by simp

lemma chain_append: "chain s (xs @ ys) z \<longleftrightarrow> chain s xs (hd (ys @ [z])) \<and> chain s ys z \<and>
    (\<forall>x \<in> set xs. \<forall>y \<in> set ys. header_end s x < y)"
  by (auto simp: chain_def spaced_def sorted_wrt_append)

lemma chain_Cons: "chain s (x # xs) z \<longleftrightarrow> next_of s x = hd (xs @ [z]) \<and> chain s xs z \<and>
    (\<forall>y \<in> set xs. header_end s x < y)"
  by (auto simp: chain_def spaced_def)

lemma FREE_LIST_upd [simp]:
  "header_end (s\<lparr>FREE_LIST := x\<rparr>) = header_end s" "extent (s\<lparr>FREE_LIST := x\<rparr>) = extent s"
  "area (s\<lparr>FREE_LIST := x\<rparr>) = area s" "chain (s\<lparr>FREE_LIST := x\<rparr>) = chain s"
  "ring_ok (s\<lparr>FREE_LIST := x\<rparr>) = ring_ok s" "used_ok (s\<lparr>FREE_LIST := x\<rparr>) = used_ok s"
  by (auto simp: fun_eq_iff header_end_def extent_def area_def chain_def spaced_def ring_ok_def used_ok_def
      disjoint_family_on_def)

lemma used_cong: "(\<And>u. u \<in> U \<Longrightarrow> nunits_of s u = nunits_of t u) \<Longrightarrow> used_ok s U = used_ok t U"
  unfolding used_ok_def disjoint_family_on_def by (simp add: extent_cong [of s _ t])

lemma used_insert: "t \<notin> U \<Longrightarrow> used_ok s (insert t U) \<longleftrightarrow>
    used_ok s U \<and> 0 < nunits_of s t \<and> extent s t \<inter> area s U = {}"
  by (auto simp: used_ok_def disjoint_family_on_insert area_def)

lemma ring_sorted: "ring_ok s xs \<Longrightarrow> sorted_wrt (<) xs"
  unfolding ring_ok_def chain_def by (blast intro: spaced_strict)

lemma ring_distinct: "ring_ok s xs \<Longrightarrow> distinct xs"
  using ring_sorted strict_sorted_iff by blast

lemma ring_Base_le: "ring_ok s xs \<Longrightarrow> x \<in> set xs \<Longrightarrow> BASE s \<le> x"
  using ring_sorted [of s xs] by (cases xs) (auto simp: ring_ok_def)

lemma ring_Base_in: "ring_ok s xs \<Longrightarrow> BASE s \<in> set xs"
  by (metis hd_in_set ring_ok_def)

lemma ring_cong:
  assumes "ring_ok s xs" "BASE t = BASE s" "\<And>x. x \<in> set xs \<Longrightarrow> next_of t x = next_of s x \<and> nunits_of t x = nunits_of s x"
  shows "ring_ok t xs"
  using assms ring_Base_in [OF assms(1)] chain_cong [of xs t s "BASE s"] by (simp add: ring_ok_def)

lemma path_next: "path nx xs z \<Longrightarrow> x \<in> set xs \<Longrightarrow> nx x \<in> insert z (set xs)"
proof (induction xs)
  case (Cons y xs)
  then show ?case by (cases xs) auto
qed simp

lemma ring_next: "ring_ok s xs \<Longrightarrow> x \<in> set xs \<Longrightarrow> next_of s x \<in> set xs"
  using path_next [of "next_of s" xs "BASE s" x] hd_in_set [of xs] by (auto simp: ring_ok_def chain_def)

section \<open>Free and used blocks\<close>

lemma heap_used:
  assumes "heap_ok h s xs U" "u \<in> U"
  shows "h \<le> u" "BASE s < u" "u \<notin> set xs" "0 < nunits_of s u" "header_end s u \<le> ubrk s"
proof -
  show pos: "0 < nunits_of s u" using assms by (simp add: heap_ok_def used_ok_def)
  then have u: "u \<in> extent s u" by (rule in_extent)
  then have "extent s u \<subseteq> {h ..< ubrk s}" using assms by (auto simp: heap_ok_def area_def)
  then show "h \<le> u" "header_end s u \<le> ubrk s" using u by (auto simp: extent_def)
  then show lt: "BASE s < u" using assms(1) by (auto simp: heap_ok_def UNIT_SIZE_def)
  show "u \<notin> set xs"
  proof
    assume "u \<in> set xs"
    moreover from this have "u \<in> area s (set xs)" using in_extent [OF pos] by (auto simp: area_def)
    ultimately show False using assms u by (auto simp: heap_ok_def area_def)
  qed
qed

lemma free_used_apart:
  assumes "heap_ok h s xs U" "u \<in> U" "x \<in> set xs"
  shows "x < u \<Longrightarrow> header_end s x \<le> u" "u < x \<Longrightarrow> header_end s u \<le> x"
proof -
  have disj: "extent s x \<inter> extent s u = {}" using assms by (auto simp: heap_ok_def area_def)
  have u: "u \<in> extent s u" using heap_used(4) [OF assms(1,2)] by (rule in_extent)
  show "header_end s x \<le> u" if "x < u" using that disj u by (auto simp: extent_def)
  assume less: "u < x"
  then have "x \<noteq> BASE s" using heap_used(2) [OF assms(1,2)] by simp
  then have "x \<in> extent s x" using assms by (auto simp: heap_ok_def ring_ok_def intro: in_extent)
  then show "header_end s u \<le> x" using less disj by (auto simp: extent_def)
qed

text \<open>The place of a used block in the ring.\<close>

lemma ring_place:
  assumes "heap_ok h s xs U" "t \<in> U"
  obtains us p vs where "xs = us @ p # vs" "\<forall>x \<in> set us. x < t" "p < t" "\<forall>v \<in> set vs. t < v"
proof -
  let ?A = "takeWhile (\<lambda>x. x < t) xs" and ?C = "dropWhile (\<lambda>x. x < t) xs"
  have r: "ring_ok s xs" using assms(1) by (simp add: heap_ok_def)
  then have "?A \<noteq> []" using heap_used(2) [OF assms] by (cases xs) (auto simp: ring_ok_def)
  then obtain us p where A: "?A = us @ [p]" by (metis rev_exhaust)
  have "\<forall>v \<in> set ?C. t \<le> v"
  proof (cases ?C)
    case (Cons c C)
    then have "t \<le> c" by (metis dropWhile_eq_Cons_conv not_le)
    moreover have "sorted_wrt (<) ?C" using ring_sorted [OF r] by (metis sorted_wrt_append takeWhile_dropWhile_id)
    ultimately show ?thesis using Cons by auto
  next
    case Nil
    then show ?thesis by (metis empty_iff list.set(1))
  qed
  moreover have "t \<notin> set xs" by (rule heap_used(3) [OF assms])
  ultimately have "\<forall>v \<in> set ?C. t < v" by (metis order.not_eq_order_implies_strict set_dropWhileD)
  moreover have "xs = us @ p # ?C" using A takeWhile_dropWhile_id [of "\<lambda>x. x < t" xs] by simp
  moreover have "\<forall>x \<in> set ?A. x < t" by (meson set_takeWhileD)
  ultimately show thesis using that A by simp
qed

section \<open>Finding the place\<close>

lemma follows_only_place:
  assumes "ring_ok s (us @ p # vs)" "\<forall>x \<in> set us. x < t" "p < t" "\<forall>v \<in> set vs. t < v" "BASE s < t"
    and x: "x \<in> set (us @ p # vs)"
  shows "follows x t (next_of s x) \<longleftrightarrow> x = p"
proof -
  have c: "chain s (us @ p # vs) (BASE s)" using assms(1) by (simp add: ring_ok_def)
  have sorted: "sorted_wrt (<) (us @ p # vs)" using ring_sorted [OF assms(1)] .
  consider "x = p" | "x \<in> set us" | "x \<in> set vs" using x by auto
  then show ?thesis
  proof cases
    case 1
    then show ?thesis using c assms(3-5) ring_Base_le [OF assms(1) x]
      by (cases vs) (auto simp: follows_def chain_append chain_Cons)
  next
    case 2
    then obtain A B where us: "us = A @ x # B" by (meson split_list)
    then have "next_of s x = hd (B @ [p])" using c by (cases B) (simp_all add: chain_append chain_Cons)
    moreover have "x < hd (B @ [p])" "hd (B @ [p]) < t"
      using sorted us assms(2,3) by (cases B; auto simp: sorted_wrt_append)+
    moreover have "x \<noteq> p" using sorted us by (auto simp: sorted_wrt_append)
    ultimately show ?thesis by (simp add: follows_def)
  next
    case 3
    then obtain A B where vs: "vs = A @ x # B" by (meson split_list)
    then have nx: "next_of s x = hd (B @ [BASE s])" using c by (cases B) (simp_all add: chain_append chain_Cons)
    have "t < x" using 3 assms(4) by blast
    moreover have "B \<noteq> [] \<Longrightarrow> x < hd B" using sorted vs by (cases B) (auto simp: sorted_wrt_append)
    ultimately show ?thesis using nx assms(3,5) by (cases B) (auto simp: follows_def)
  qed
qed

lemma free_find_path:
  assumes "path (next_of s) us p" "q = hd (us @ [p])" "p \<noteq> 0" "follows p t (next_of s p)"
    and "\<forall>x \<in> set us. x \<noteq> 0 \<and> \<not> follows x t (next_of s x)"
  shows "free_find s t q = Some (Ok p)"
  using assms
proof (induction us arbitrary: q)
  case Nil
  then show ?case by (simp add: free_find.simps)
next
  case (Cons u us)
  then show ?case by (simp add: free_find.simps [of s t u])
qed

text \<open>Wherever the walk begins, it ends at the block before the one freed.\<close>

lemma free_find_place:
  assumes "ring_ok s (us @ p # vs)" "\<forall>x \<in> set us. x < t" "p < t" "\<forall>v \<in> set vs. t < v" "0 < BASE s" "BASE s < t"
    and "f \<in> set (us @ p # vs)"
  shows "free_find s t f = Some (Ok p)"
proof -
  let ?xs = "us @ p # vs"
  have "path (next_of s) ?xs (hd ?xs)" using assms(1) by (simp add: ring_ok_def chain_def)
  then obtain ws where ws: "path (next_of s) ws p" "f = hd (ws @ [p])" "set ws \<subseteq> set ?xs - {p}"
    by (rule ring_path [OF _ ring_distinct [OF assms(1)] assms(7)]) auto
  have pos: "0 < x" if "x \<in> set ?xs" for x using ring_Base_le [OF assms(1) that] assms(5) by simp
  show ?thesis
  proof (rule free_find_path [OF ws(1,2)])
    show "\<forall>x \<in> set ws. x \<noteq> 0 \<and> \<not> follows x t (next_of s x)"
      using follows_only_place [OF assms(1-4,6)] ws(3) pos by blast
  qed (use follows_only_place [OF assms(1-4,6), of p] pos [of p] in auto)
qed

section \<open>Joining neighbours\<close>

definition join :: "addr \<Rightarrow> addr \<Rightarrow> uheap \<Rightarrow> uheap" where
  "join a b s = (if header_end s a = b then header_new a (nunits_of s a + nunits_of s b) (next_of s b) s
     else header_new a (nunits_of s a) b s)"

lemma set_next_eq: "set_next a b s = header_new a (nunits_of s a) b s"
  by (simp add: set_next_def header_new_def)

lemma join_run:
  assumes "nunits_of s a + nunits_of s b < 2 ^ 64"
  shows "b \<noteq> 0 \<Longrightarrow> join_next a b s = (Ok (), join a b s)" "join_current a b s = (Ok (), join a b s)"
  using assms by (simp_all add: join_next_def join_current_def absorb_def join_def checked_def set_next_eq nonnull_def
      kop_simps bnd_def seqk_def split: if_split)

lemma join_simps [simp]:
  "FREE_LIST (join a b s) = FREE_LIST s" "BASE (join a b s) = BASE s" "ubrk (join a b s) = ubrk s"
  "x \<noteq> a \<Longrightarrow> next_of (join a b s) x = next_of s x" "x \<noteq> a \<Longrightarrow> nunits_of (join a b s) x = nunits_of s x"
  "x \<noteq> a \<Longrightarrow> header_end (join a b s) x = header_end s x" "x \<noteq> a \<Longrightarrow> extent (join a b s) x = extent s x"
  by (simp_all add: join_def header_end_def extent_def)

definition joined :: "addr \<Rightarrow> addr \<Rightarrow> addr list \<Rightarrow> uheap \<Rightarrow> addr list" where
  "joined a b ws s = (if header_end s a = b then ws else b # ws)"

lemma chain_join:
  assumes "chain s (b # ws) z" "header_end s a \<le> b" "a \<notin> set (b # ws)"
  shows "chain (join a b s) (a # joined a b ws s) z"
proof -
  have "chain (join a b s) (b # ws) z" using assms(1,3) by (subst chain_cong [of _ _ s]) (metis join_simps(4,5))
  moreover have "header_end (join a b s) a = (if header_end s a = b then header_end s b else header_end s a)"
    by (auto simp: join_def header_end_def algebra_simps)
  moreover have "next_of (join a b s) a = (if header_end s a = b then next_of s b else b)" by (simp add: join_def)
  moreover have "\<forall>y \<in> set ws. b < y" using assms(1) end_ge [of b s] by (auto simp: chain_Cons)
  ultimately show ?thesis using assms by (auto simp: chain_Cons joined_def)
qed

lemma area_cong: "(\<And>x. x \<in> X \<Longrightarrow> nunits_of s x = nunits_of t x) \<Longrightarrow> area s X = area t X"
  unfolding area_def using extent_cong [of s _ t] by (metis (full_types) SUP_cong)

lemma area_join:
  assumes "header_end s a \<le> b" "a \<notin> set (b # ws)"
  shows "area (join a b s) (set (a # joined a b ws s)) = area s (set (a # b # ws))"
proof -
  have "extent (join a b s) a \<union> (if header_end s a = b then {} else extent s b) = extent s a \<union> extent s b"
    using assms(1) by (auto simp: join_def extent_def header_end_def UNIT_SIZE_def)
  moreover have "area (join a b s) (set ws) = area s (set ws)"
    using assms(2) by (intro area_cong) (metis join_simps(5) list.set_intros(2))
  moreover have "extent (join a b s) b = extent s b" using assms(2) by simp
  ultimately show ?thesis by (auto simp: joined_def split: if_splits)
qed

lemma chain_greater: "chain s (b # ws) z \<Longrightarrow> a < b \<Longrightarrow> \<forall>x \<in> set (b # ws). a < x"
  using end_ge [of b s] by (auto simp: chain_Cons)

text \<open>A block put before a chain that begins at or after its end.\<close>

lemma chain_put:
  assumes "chain s vs z" "\<forall>v \<in> set vs. t < v \<and> header_end s t \<le> v" "z < t" "s1 = join t (hd (vs @ [z])) s"
  obtains ws where "chain s1 (t # ws) z" "set ws \<subseteq> set vs" "area s1 (set (t # ws)) = area s (set (t # vs))"
proof (cases vs)
  case Nil
  have "header_end s t \<noteq> z" using end_ge [of t s] assms(3) by simp
  then have "s1 = header_new t (nunits_of s t) z s" using assms(4) Nil by (simp add: join_def)
  then show thesis using that [of "[]"] Nil
    by (auto simp: chain_Cons chain_def spaced_def extent_def header_end_def)
next
  case (Cons b ws)
  then have "t \<notin> set (b # ws)" "header_end s t \<le> b" using assms(2) by auto
  moreover have "set (joined t b ws s) \<subseteq> set vs" using Cons by (auto simp: joined_def)
  ultimately show thesis using that [of "joined t b ws s"] assms(1,4) Cons chain_join [of s b ws z t] area_join [of s t b ws]
    by simp
qed

section \<open>Freeing keeps the partition\<close>

lemma heap_ring: "heap_ok h s xs U \<Longrightarrow> ring_ok s xs"
  by (simp add: heap_ok_def)

lemma heap_free_end:
  assumes "heap_ok h s xs U" "x \<in> set xs"
  shows "header_end s x \<le> ubrk s"
proof (cases "x = BASE s")
  case True
  then show ?thesis using assms(1) by (simp add: heap_ok_def ring_ok_def header_end_def)
next
  case False
  then have "x \<in> extent s x" using assms by (auto simp: heap_ok_def ring_ok_def intro: in_extent)
  moreover have "extent s x \<subseteq> {h ..< ubrk s}" using assms by (auto simp: heap_ok_def area_def)
  ultimately show ?thesis by (auto simp: extent_def)
qed

lemma heap_free_less:
  assumes "heap_ok h s xs U" "x \<in> set xs"
  shows "x < ubrk s"
proof (cases "x = BASE s")
  case True
  then show ?thesis using assms(1) by (auto simp: heap_ok_def UNIT_SIZE_def)
next
  case False
  then have "0 < nunits_of s x" using assms by (simp add: heap_ok_def ring_ok_def)
  then show ?thesis using heap_free_end [OF assms] by (simp add: header_end_def UNIT_SIZE_def)
qed

lemma heap_nonnull: "heap_ok h s xs U \<Longrightarrow> x \<in> set xs \<Longrightarrow> x \<noteq> 0"
  using ring_Base_le [of s xs x] by (auto simp: heap_ok_def)

lemma heap_nunits:
  assumes "heap_ok h s xs U" "x \<in> set xs \<union> U"
  shows "nunits_of s x < 2 ^ 60"
proof -
  have "header_end s x \<le> ubrk s" using assms heap_free_end heap_used(5) by blast
  moreover have "ubrk s < 2 ^ 64" using assms(1) by (simp add: heap_ok_def)
  ultimately show ?thesis by (simp add: header_end_def UNIT_SIZE_def)
qed

lemma heap_aligned: "heap_ok h s xs U \<Longrightarrow> x \<in> set xs \<union> U \<Longrightarrow> HEADER_ALIGN dvd x"
  by (simp add: heap_ok_def)

lemma heap_change:
  assumes "heap_ok h s xs U" "ring_ok s' xs'" "used_ok s' U'" "FREE_LIST s' = Some f" "f \<in> set xs'"
    "BASE s' = BASE s" "ubrk s' = ubrk s" "area s' (set xs') \<inter> area s' U' = {}"
    "area s' (set xs') \<union> area s' U' = area s (set xs) \<union> area s U" "\<forall>x \<in> set xs' \<union> U'. HEADER_ALIGN dvd x"
  shows "heap_ok h s' xs' U'"
  using assms unfolding heap_ok_def by simp

text \<open>\<open>free_insert\<close> after the walk has found the place \<open>p\<close> of the block \<open>t\<close>.\<close>

definition inserted :: "addr \<Rightarrow> addr \<Rightarrow> uheap \<Rightarrow> uheap" where
  "inserted t p s = join p t (join t (next_of s p) s)"

lemma inserted_simps [simp]:
  "FREE_LIST (inserted t p s) = FREE_LIST s" "BASE (inserted t p s) = BASE s" "ubrk (inserted t p s) = ubrk s"
  "x \<noteq> p \<Longrightarrow> x \<noteq> t \<Longrightarrow> next_of (inserted t p s) x = next_of s x"
  "x \<noteq> p \<Longrightarrow> x \<noteq> t \<Longrightarrow> nunits_of (inserted t p s) x = nunits_of s x"
  by (simp_all add: inserted_def)

lemma inserted_nunits:
  "nunits_of s x \<le> nunits_of (inserted t p s) x"
  "header_end s p \<noteq> t \<Longrightarrow> p \<noteq> t \<Longrightarrow> nunits_of (inserted t p s) p = nunits_of s p"
  by (auto simp: inserted_def join_def header_end_def)

lemma free_insert_run:
  assumes "nunits_of s (next_of s p) < 2 ^ 60" "nunits_of s t < 2 ^ 60" "nunits_of s p < 2 ^ 60" "next_of s p \<noteq> 0" "p \<noteq> t"
  shows "free_insert t p s = (Ok p, (inserted t p s)\<lparr>FREE_LIST := Some p\<rparr>)"
proof -
  let ?s1 = "join t (next_of s p) s"
  have "nunits_of ?s1 t < 2 ^ 61" using assms(1,2) by (auto simp: join_def)
  then have "join_current p t ?s1 = (Ok (), inserted t p s)"
    using join_run(2) [of ?s1 p t] assms(3,5) by (simp add: inserted_def)
  moreover have "join_next t (next_of s p) s = (Ok (), ?s1)" using join_run(1) assms by simp
  ultimately show ?thesis by (simp add: free_insert_def kop_simps)
qed

lemma inserted_chain:
  assumes c: "chain s (us @ p # vs) z" and "z < t" "0 < nunits_of s t"
    and place: "\<forall>x \<in> set us. x < t" "p < t" "header_end s p \<le> t" "\<forall>v \<in> set vs. t < v \<and> header_end s t \<le> v"
  obtains zs where "chain (inserted t p s) (us @ p # zs) z" "set zs \<subseteq> insert t (set vs)"
    "area (inserted t p s) (set (us @ p # zs)) = area s (set (us @ p # t # vs))"
proof -
  define s1 where "s1 = join t (hd (vs @ [z])) s"
  have pvs: "chain s us p" "next_of s p = hd (vs @ [z])" "chain s vs z" using c by (auto simp: chain_append chain_Cons)
  then have s2: "inserted t p s = join p t s1" by (simp add: inserted_def s1_def)
  obtain ws where ws: "chain s1 (t # ws) z" "set ws \<subseteq> set vs" "area s1 (set (t # ws)) = area s (set (t # vs))"
    using chain_put [OF pvs(3) place(4) assms(2) s1_def] by blast
  have p1: "header_end s1 p \<le> t" using place(2,3) by (simp add: s1_def)
  have p2: "p \<notin> set (t # ws)" using place(2,4) ws(2) by (metis less_asym set_ConsD subsetD)
  let ?zs = "joined p t ws s1"
  have zs: "chain (inserted t p s) (p # ?zs) z" "area (inserted t p s) (set (p # ?zs)) = area s1 (set (p # t # ws))"
    using chain_join [OF ws(1) p1 p2] area_join [OF p1 p2] by (simp_all add: s2)
  have sub: "set ?zs \<subseteq> insert t (set vs)" using ws(2) by (auto simp: joined_def)
  have lt: "\<forall>x \<in> set us. header_end s x < p" using c by (simp add: chain_append)
  have other: "x \<noteq> p \<and> x \<noteq> t" if "x \<in> set us" for x
    using that lt place(1) end_ge [of x s] by (meson leD less_irrefl)
  have us: "chain (inserted t p s) us p" using pvs(1) other by (subst chain_cong [of us _ s]) simp_all
  have uar: "area (inserted t p s) (set us) = area s (set us)" using other by (intro area_cong) simp
  have "header_end (inserted t p s) x < y" if "x \<in> set us" "y \<in> set (p # ?zs)" for x y
  proof -
    have "header_end (inserted t p s) x < p" using lt that(1) other [OF that(1)] by (simp add: header_end_def)
    moreover have "p \<le> y" using that(2) sub place(2,4) by (metis insertE less_trans nless_le order_refl set_ConsD subsetD)
    ultimately show ?thesis by simp
  qed
  then have "chain (inserted t p s) (us @ p # ?zs) z" using us zs(1) by (simp add: chain_append)
  moreover have "area s1 {p} = area s {p}" using place(2) by (simp add: s1_def)
  ultimately show thesis using that [of ?zs] sub uar zs(2) ws(3) by auto
qed

lemma inner_free_run:
  assumes ok: "heap_ok h s xs U" "t \<in> U" and xs: "xs = us @ p # vs"
    and place: "\<forall>x \<in> set us. x < t" "p < t" "\<forall>v \<in> set vs. t < v"
  shows "inner_free t s = Some (Ok p, (inserted t p s)\<lparr>FREE_LIST := Some p\<rparr>)"
proof -
  obtain f where f: "f \<in> set xs" "FREE_LIST s = Some f" using ok by (auto simp: heap_ok_def)
  have ring: "ring_ok s (us @ p # vs)" and base: "0 < BASE s" using ok(1) xs by (simp_all add: heap_ok_def)
  have "next_of s p \<in> set xs" using ring_next [OF ring, of p] xs by simp
  then have "nunits_of s (next_of s p) < 2 ^ 60" "next_of s p \<noteq> 0"
    using heap_nunits [OF ok(1)] base ring_Base_le [OF ring] xs by fastforce+
  moreover have "nunits_of s p < 2 ^ 60" "nunits_of s t < 2 ^ 60" using heap_nunits [OF ok(1)] ok(2) xs by auto
  moreover have "free_find s t f = Some (Ok p)"
    using free_find_place [OF ring place base heap_used(2) [OF ok]] f xs by simp
  ultimately show ?thesis using free_insert_run [of s p t] place(2) heap_used(4) [OF ok] f
    by (simp add: inner_free_def bnd_def lift_res_def)
qed

text \<open>
  Freeing a used block: the walk ends, nothing panics, and the memory of the block is free. No block
  that lies before the freed one leaves the list.
\<close>

lemma inner_free_ok:
  assumes ok: "heap_ok h s xs (insert t U)" and "t \<notin> U"
  obtains p s' xs' where "inner_free t s = Some (Ok p, s')" "heap_ok h s' xs' U" "p \<in> set xs'"
    "\<forall>x \<in> set xs. x < t \<longrightarrow> x \<in> set xs'" "\<forall>u \<in> U. nunits_of s' u = nunits_of s u"
    "BASE s' = BASE s" "ubrk s' = ubrk s"
proof -
  have t: "t \<in> insert t U" by simp
  obtain us p vs where xs: "xs = us @ p # vs" and place: "\<forall>x \<in> set us. x < t" "p < t" "\<forall>v \<in> set vs. t < v"
    by (rule ring_place [OF ok t])
  have ring: "ring_ok s (us @ p # vs)" using heap_ring [OF ok] xs by simp
  note u = heap_used [OF ok t] and run = inner_free_run [OF ok t xs place]
  have pend: "header_end s p \<le> t" "\<forall>v \<in> set vs. t < v \<and> header_end s t \<le> v"
    using free_used_apart [OF ok t] place xs by auto
  have "chain s (us @ p # vs) (BASE s)" using ring by (simp add: ring_ok_def)
  then obtain zs where zs: "chain (inserted t p s) (us @ p # zs) (BASE s)" "set zs \<subseteq> insert t (set vs)"
    "area (inserted t p s) (set (us @ p # zs)) = area s (set (us @ p # t # vs))"
    using inserted_chain [OF _ u(2,4) place(1,2) pend] by blast
  let ?s = "(inserted t p s)\<lparr>FREE_LIST := Some p\<rparr>" and ?xs = "us @ p # zs"
  have U: "\<forall>u \<in> U. u \<noteq> p \<and> u \<noteq> t" using heap_used(3) [OF ok] xs assms(2) by auto
  have base: "hd ?xs = BASE s" "nunits_of s (BASE s) = 0" using ring by (auto simp: ring_ok_def hd_append)
  have "nunits_of ?s (BASE s) = 0"
    using base u(2) inserted_nunits(2) [of s p t] by (cases "p = BASE s") (auto simp: header_end_def)
  moreover have "0 < nunits_of ?s x" if "x \<in> set ?xs" "x \<noteq> BASE s" for x
  proof -
    have "x \<in> insert t (set xs)" using that(1) zs(2) xs by auto
    then have "0 < nunits_of s x" using ring that(2) u(4) xs by (auto simp: ring_ok_def)
    then show ?thesis using inserted_nunits(1) [of s x t p] by simp
  qed
  ultimately have "ring_ok (inserted t p s) ?xs" using base zs(1) by (simp add: ring_ok_def)
  moreover have "used_ok (inserted t p s) U \<and> area (inserted t p s) U = area s U"
    using ok U assms(2) used_cong [of U "inserted t p s" s] area_cong [of U "inserted t p s" s]
    by (simp add: heap_ok_def used_insert)
  moreover have "area (inserted t p s) (set ?xs) = area s (set xs) \<union> extent s t" using zs(3) xs by auto
  moreover have "\<forall>x \<in> set ?xs \<union> U. HEADER_ALIGN dvd x"
  proof -
    have "set ?xs \<union> U \<subseteq> set xs \<union> insert t U" using zs(2) xs by auto
    then show ?thesis using heap_aligned [OF ok] by blast
  qed
  ultimately have "heap_ok h ?s ?xs U" using ok assms(2) by (auto simp: heap_ok_def used_insert)
  moreover have "\<forall>x \<in> set xs. x < t \<longrightarrow> x \<in> set ?xs" using place(3) xs by fastforce
  ultimately show thesis using that [OF run, of ?xs] U by simp
qed

section \<open>Taking a block\<close>

lemma chain_disjoint:
  assumes "chain s (xs @ p # ys) z"
  shows "extent s p \<inter> area s (set xs \<union> set ys) = {}"
proof -
  have "header_end s x < p" if "x \<in> set xs" for x using assms that by (simp add: chain_append)
  moreover have "header_end s p < y" if "y \<in> set ys" for y using assms that by (simp add: chain_append chain_Cons)
  ultimately show ?thesis by (fastforce simp: area_def extent_def)
qed

lemma take_whole_ok:
  assumes ok: "heap_ok h s (us @ prev # p # vs) U" and "p \<noteq> BASE s"
    and s': "s' = (header_new prev (nunits_of s prev) (next_of s p) s)\<lparr>FREE_LIST := Some prev\<rparr>"
  shows "heap_ok h s' (us @ prev # vs) (insert p U)" "p \<notin> U"
proof -
  let ?t = "header_new prev (nunits_of s prev) (next_of s p) s"
  have n: "nunits_of ?t = nunits_of s" by auto
  then have e: "header_end ?t = header_end s" "extent ?t = extent s" by (auto simp: fun_eq_iff extent_def header_end_def)
  then have a: "area ?t = area s" by (auto simp: fun_eq_iff area_def)
  have ring: "ring_ok s (us @ prev # p # vs)" using heap_ring [OF ok] .
  have d: "prev \<notin> set us" "prev \<notin> set vs" "p \<noteq> prev" "p \<notin> set us" "p \<notin> set vs" using ring_distinct [OF ring] by auto
  have "chain ?t us prev = chain s us prev" "chain ?t vs (BASE s) = chain s vs (BASE s)"
    using d by (intro chain_cong; auto)+
  then have "ring_ok ?t (us @ prev # vs)" using ring d e(1)
    by (auto simp: ring_ok_def chain_append chain_Cons hd_append)
  moreover show pU: "p \<notin> U" using heap_used(3) [OF ok] by auto
  moreover have pos: "0 < nunits_of s p" using ring assms(2) by (auto simp: ring_ok_def)
  moreover have "used_ok ?t U" using ok n by (subst used_cong [of U _ s]) (auto simp: heap_ok_def)
  moreover have "extent s p \<inter> area s (set (us @ prev # vs)) = {}"
    using chain_disjoint [of s "us @ [prev]" p vs "BASE s"] ring by (simp add: ring_ok_def)
  ultimately show "heap_ok h s' (us @ prev # vs) (insert p U)" using ok n
    unfolding s' by (auto simp: heap_ok_def used_insert a e)
qed

lemma chain_shrink:
  assumes "chain s xs z" "\<And>x. x \<in> set xs \<Longrightarrow> next_of t x = next_of s x \<and> nunits_of t x \<le> nunits_of s x"
  shows "chain t xs z"
proof -
  have "path (next_of t) xs z" using assms path_cong [of xs "next_of t" "next_of s"] by (simp add: chain_def)
  moreover have "header_end t x \<le> header_end s x" if "x \<in> set xs" for x using assms(2) [OF that] by (simp add: header_end_def)
  then have "spaced s xs \<longrightarrow> spaced t xs" unfolding spaced_def by (auto elim!: sorted_wrt_mono_rel [rotated] intro: le_less_trans)
  ultimately show ?thesis using assms(1) by (simp add: chain_def)
qed

text \<open>A pointer into a free block is no other block.\<close>

lemma inside_free:
  assumes ok: "heap_ok h s (us @ p # vs) U" and "q \<in> extent s p" "q \<noteq> p"
  shows "q \<notin> U" "q \<notin> set (us @ p # vs)"
proof -
  show "q \<notin> U"
  proof
    assume "q \<in> U"
    then have "q \<in> area s U" using heap_used(4) [OF ok] in_extent by (auto simp: area_def)
    then show False using assms(2) ok by (auto simp: heap_ok_def)
  qed
  have c: "\<forall>x \<in> set us. header_end s x < p" "\<forall>y \<in> set vs. header_end s p < y"
    using heap_ring [OF ok] by (simp_all add: ring_ok_def chain_append chain_Cons)
  have "x \<noteq> q" if "x \<in> set us" for x
    using c(1) that end_ge [of x s] assms(2) by (fastforce simp: extent_def)
  then show "q \<notin> set (us @ p # vs)" using c(2) assms(2,3) by (auto simp: extent_def)
qed

lemma take_tail_ok:
  assumes ok: "heap_ok h s (us @ p # vs) U" and "p \<noteq> BASE s" "0 < n" "n < nunits_of s p" "f \<in> set (us @ p # vs)"
    and q: "q = p + UNIT_SIZE * (nunits_of s p - n)"
    and s': "s' = (header_new q n nx (s\<lparr>nunits_of := (nunits_of s)(p := nunits_of s p - n)\<rparr>))\<lparr>FREE_LIST := Some f\<rparr>"
  shows "heap_ok h s' (us @ p # vs) (insert q U)" "q \<notin> U" "q \<noteq> p"
proof -
  let ?xs = "us @ p # vs"
  have ring: "ring_ok s ?xs" using heap_ring [OF ok] .
  have "q \<in> extent s p" and pq: "p < q" using assms(3,4) q by (simp_all add: extent_def header_end_def UNIT_SIZE_def)
  then have qx: "q \<notin> set ?xs" using inside_free(2) [OF ok] by blast
  show neq: "q \<noteq> p" using pq by simp
  then show qU: "q \<notin> U" using \<open>q \<in> extent s p\<close> inside_free(1) [OF ok] by blast
  have "q + UNIT_SIZE * n = header_end s p" using assms(4) by (simp add: q header_end_def UNIT_SIZE_def)
  then have e: "extent s p = {p ..< q} \<union> extent s' q" "extent s' p = {p ..< q}" "{p ..< q} \<inter> extent s' q = {}"
    using pq q by (auto simp: s' extent_def header_end_def)
  have same: "nunits_of s' x = nunits_of s x" if "x \<noteq> p" "x \<noteq> q" for x using that by (simp add: s')
  have d: "p \<notin> set us" "p \<notin> set vs" using ring_distinct [OF ring] by auto
  have disj: "extent s p \<inter> (area s (set us) \<union> area s (set vs)) = {}"
    using chain_disjoint [of s us p vs "BASE s"] ring by (simp add: ring_ok_def)
  have r': "ring_ok s' ?xs"
  proof -
    have "chain s' ?xs (BASE s)"
      by (rule chain_shrink [of s]) (use ring qx in \<open>auto simp: ring_ok_def s'\<close>)
    then show ?thesis using ring qx ring_Base_in [OF ring] assms(2-4) by (auto simp: ring_ok_def s')
  qed
  have "p \<notin> U" using heap_used(3) [OF ok] by auto
  then have U: "area s' U = area s U" "used_ok s' U = used_ok s U"
    using qU by (intro area_cong used_cong same; auto)+
  have "area s' (set us) = area s (set us)" "area s' (set vs) = area s (set vs)"
    using d qx by (intro area_cong same; auto)+
  then have F: "area s' (set ?xs) \<inter> extent s' q = {}" "area s (set ?xs) = area s' (set ?xs) \<union> extent s' q"
    using e disj by auto
  have "area s (set ?xs) \<inter> area s U = {}" using ok by (simp only: heap_ok_def)
  then have D: "extent s' q \<inter> area s' U = {}" "area s' (set ?xs) \<inter> area s' U = {}" unfolding F(2) U(1) by blast+
  show "heap_ok h s' ?xs (insert q U)"
  proof (rule heap_change [OF ok r' _ _ assms(5)])
    show "used_ok s' (insert q U)"
      using D(1) U(2) ok assms(3) neq by (simp add: used_insert [OF qU] heap_ok_def) (simp add: s')
    show "area s' (set ?xs) \<inter> area s' (insert q U) = {}" unfolding area_simps(2) using F(1) D(2) by blast
    show "area s' (set ?xs) \<union> area s' (insert q U) = area s (set ?xs) \<union> area s U"
      unfolding area_simps(2) F(2) U(1) by blast
    have "HEADER_ALIGN dvd q" using heap_aligned [OF ok, of p] by (simp add: q header_layout)
    then show "\<forall>x \<in> set ?xs \<union> insert q U. HEADER_ALIGN dvd x" using heap_aligned [OF ok] by blast
  qed (simp_all add: s')
qed

lemma take_block_ok:
  assumes ok: "heap_ok h s xs U" and prev: "prev \<in> set xs" "next_of s prev = p" and "0 < n" "n \<le> nunits_of s p"
  obtains q s' xs' where "take_block n prev p s = (Ok (Some q), s')" "heap_ok h s' xs' (insert q U)" "q \<notin> U"
    "nunits_of s' q = n" "\<forall>u \<in> U. nunits_of s' u = nunits_of s u"
proof -
  have ring: "ring_ok s xs" using heap_ring [OF ok] .
  have pB: "p \<noteq> BASE s" using ring assms(4,5) by (auto simp: ring_ok_def)
  obtain us ws where "xs = us @ prev # ws" using prev(1) by (meson split_list)
  moreover from this have "p = hd (ws @ [BASE s])" using ring prev(2) by (simp add: ring_ok_def chain_append chain_Cons)
  ultimately obtain vs where xs: "xs = us @ prev # p # vs" using pB by (cases ws) auto
  have U: "p \<notin> U" "prev \<notin> U" using heap_used(3) [OF ok] xs by auto
  have "prev \<noteq> 0" using heap_nonnull [OF ok prev(1)] .
  show thesis
  proof (cases "nunits_of s p = n")
    case True
    let ?s = "(header_new prev (nunits_of s prev) (next_of s p) s)\<lparr>FREE_LIST := Some prev\<rparr>"
    have "take_block n prev p s = (Ok (Some p), ?s)" using True \<open>prev \<noteq> 0\<close>
      by (simp add: take_block_def take_whole_def nonnull_def set_next_eq kop_simps)
    then show thesis using that take_whole_ok [OF _ pB refl, of h us prev vs U] ok xs True by simp
  next
    case False
    let ?q = "p + UNIT_SIZE * (nunits_of s p - n)"
    let ?s = "(header_new ?q n (next_of s p) (s\<lparr>nunits_of := (nunits_of s)(p := nunits_of s p - n)\<rparr>))\<lparr>FREE_LIST := Some prev\<rparr>"
    have "take_block n prev p s = (Ok (Some ?q), ?s)" using False
      by (simp add: take_block_def take_tail_def header_end_def kop_simps)
    moreover have "heap_ok h ?s xs (insert ?q U)" "?q \<notin> U" "?q \<noteq> p"
      using take_tail_ok [of h s "us @ [prev]" p vs U n prev ?q ?s "next_of s p"] ok pB assms(4,5) False xs by auto
    moreover have "nunits_of ?s u = nunits_of s u" if "u \<in> U" for u using that U(1) \<open>?q \<notin> U\<close> by auto
    ultimately show thesis using that [of ?q ?s xs] by simp
  qed
qed

section \<open>Growing the heap\<close>

text \<open>
  What \<open>sbrk\<close> promises for a request that is not negative: it fails with \<open>-1\<close> and changes nothing, or it
  returns the break and moves it up, to \<open>lim\<close> at most.
\<close>

definition sbrk_ok :: "sbrk_fun \<Rightarrow> addr \<Rightarrow> bool" where
  "sbrk_ok sbrk lim \<longleftrightarrow> lim < 2 ^ 64 - 1 \<and> (\<forall>n b. 0 \<le> n \<longrightarrow>
     sbrk n b = (2 ^ 64 - 1, b) \<or> (sbrk n b = (b, b + nat n) \<and> b + nat n \<le> lim))"

definition grown :: "nat \<Rightarrow> uheap \<Rightarrow> uheap" where
  "grown n s = (header_new (ubrk s) n (ubrk s) s)\<lparr>ubrk := ubrk s + n * UNIT_SIZE\<rparr>"

lemma more_units_run:
  assumes "ubrk s < 2 ^ 64 - 1" "HEADER_ALIGN dvd ubrk s" "sbrk_ok sbrk lim" "n < 2 ^ 58"
  shows "more_units sbrk n s = (Ok None, s) \<or>
    (more_units sbrk n s = (Ok (Some (ubrk s)), grown (max n 4096) s) \<and> ubrk s + max n 4096 * UNIT_SIZE \<le> lim)"
proof -
  let ?b = "max n 4096 * UNIT_SIZE"
  have b: "?b < 2 ^ 63" using assms(4) by (simp add: UNIT_SIZE_def)
  then have "as_isize ?b = int ?b" by (simp add: as_isize_def)
  then consider "sbrk (as_isize ?b) (ubrk s) = (2 ^ 64 - 1, ubrk s)"
    | "sbrk (as_isize ?b) (ubrk s) = (ubrk s, ubrk s + ?b)" "ubrk s + ?b \<le> lim"
    using assms(3) unfolding sbrk_ok_def by (metis nat_int of_nat_0_le_iff)
  then show ?thesis
  proof cases
    case 1
    then have "safe_sbrk sbrk ?b s = (Ok None, s)" by (simp add: safe_sbrk_def)
    then show ?thesis using b by (simp add: more_units_def checked_def Let_def kop_simps)
  next
    case 2
    then have "safe_sbrk sbrk ?b s = (Ok (Some (ubrk s)), s\<lparr>ubrk := ubrk s + ?b\<rparr>)"
      using assms(1) by (simp add: safe_sbrk_def)
    then show ?thesis using b assms(2) 2(2)
      by (simp add: more_units_def checked_def Let_def kop_simps grown_def header_new_def dvd_eq_mod_eq_0)
  qed
qed

lemma grown_ok:
  assumes ok: "heap_ok h s xs U" and "0 < n" "ubrk s + n * UNIT_SIZE < 2 ^ 64 - 1"
  shows "heap_ok h (grown n s) xs (insert (ubrk s) U)" "ubrk s \<notin> U"
proof -
  let ?t = "grown n s" and ?b = "ubrk s"
  have ring: "ring_ok s xs" using heap_ring [OF ok] .
  show bU: "?b \<notin> U" using heap_used(4,5) [OF ok, of ?b] by (auto simp: header_end_def UNIT_SIZE_def)
  have bx: "?b \<notin> set xs" using heap_free_less [OF ok] by blast
  have e: "extent ?t ?b = {?b ..< ?b + n * UNIT_SIZE}" by (simp add: grown_def extent_def header_end_def mult.commute)
  have same: "nunits_of ?t x = nunits_of s x" "next_of ?t x = next_of s x" if "x \<in> set xs \<union> U" for x
    using that bU bx by (auto simp: grown_def)
  have A: "area ?t (set xs) = area s (set xs)" "area ?t U = area s U" "used_ok ?t U = used_ok s U"
    by (intro area_cong used_cong same; simp)+
  have r: "ring_ok ?t xs" by (rule ring_cong [OF ring]) (use same in \<open>auto simp: grown_def\<close>)
  have H: "area s (set xs) \<union> area s U = {h ..< ?b}" "area s (set xs) \<inter> area s U = {}" "h \<le> ?b"
    using ok by (simp_all add: heap_ok_def)
  have "extent ?t ?b \<inter> {h ..< ?b} = {}" unfolding e by auto
  then have D: "extent ?t ?b \<inter> area s U = {}" "extent ?t ?b \<inter> area s (set xs) = {}" using H(1) by blast+
  have "used_ok ?t (insert ?b U)" using D ok A assms(2) by (simp add: used_insert [OF bU] heap_ok_def) (simp add: grown_def)
  moreover have "area ?t (set xs) \<inter> area ?t (insert ?b U) = {}" using D H A by (simp add: Int_Un_distrib Int_commute)
  moreover have "area ?t (set xs) \<union> area ?t (insert ?b U) = {h ..< ubrk ?t}"
  proof -
    have "area ?t (set xs) \<union> area ?t (insert ?b U) = {h ..< ?b} \<union> {?b ..< ?b + n * UNIT_SIZE}"
      unfolding area_simps(2) A e H(1) [symmetric] by blast
    then show ?thesis using H(3) by (simp add: grown_def ivl_disj_un_two)
  qed
  moreover have "HEADER_ALIGN dvd ubrk ?t" using ok by (simp add: heap_ok_def grown_def header_layout)
  ultimately show "heap_ok h ?t xs (insert ?b U)" using r ok assms(3) H(3)
    unfolding heap_ok_def by (simp add: grown_def)
qed

text \<open>More memory is put on the list, and no block leaves it.\<close>

lemma grow_ok:
  assumes ok: "heap_ok h s xs U" and "sbrk_ok sbrk lim" "n < 2 ^ 58"
  shows "grow sbrk n s = Some (Ok None, s) \<or>
    (\<exists>q s' xs'. grow sbrk n s = Some (Ok (Some q), s') \<and> heap_ok h s' xs' U \<and> q \<in> set xs' \<and> set xs \<subseteq> set xs' \<and>
       (\<forall>u \<in> U. nunits_of s' u = nunits_of s u) \<and> ubrk s < ubrk s' \<and> ubrk s' \<le> lim)"
proof -
  let ?n = "max n 4096"
  have b: "ubrk s < 2 ^ 64 - 1" "HEADER_ALIGN dvd ubrk s" "lim < 2 ^ 64 - 1"
    using ok assms(2) by (simp_all add: heap_ok_def sbrk_ok_def)
  consider "more_units sbrk n s = (Ok None, s)"
    | "more_units sbrk n s = (Ok (Some (ubrk s)), grown ?n s)" "ubrk s + ?n * UNIT_SIZE \<le> lim"
    using more_units_run [OF b(1,2) assms(2,3)] by blast
  then show ?thesis
  proof cases
    case 1
    then show ?thesis by (simp add: grow_def)
  next
    case 2
    have "0 < ?n" "ubrk s + ?n * UNIT_SIZE < 2 ^ 64 - 1" using 2(2) b(3) by simp_all
    note g = grown_ok [OF ok this]
    obtain q s' xs' where f: "inner_free (ubrk s) (grown ?n s) = Some (Ok q, s')" "heap_ok h s' xs' U" "q \<in> set xs'"
      "\<forall>x \<in> set xs. x < ubrk s \<longrightarrow> x \<in> set xs'" "\<forall>u \<in> U. nunits_of s' u = nunits_of (grown ?n s) u"
      "ubrk s' = ubrk (grown ?n s)"
      by (rule inner_free_ok [OF g]) blast
    have "\<forall>u \<in> U. nunits_of s' u = nunits_of s u" using f(5) g(2) by (auto simp: grown_def)
    then show ?thesis using 2 f heap_free_less [OF ok] by (fastforce simp: grow_def grown_def UNIT_SIZE_def)
  qed
qed

section \<open>Allocating keeps the partition\<close>

text \<open>What a call of \<open>inner_malloc\<close> for \<open>n\<close> units gives: nothing, or a block of that size that was not in use.\<close>

definition malloc_result :: "addr \<Rightarrow> nat \<Rightarrow> uheap \<Rightarrow> addr set \<Rightarrow> addr option \<Rightarrow> uheap \<Rightarrow> bool" where
  "malloc_result h n s U r s' \<longleftrightarrow> (\<forall>u \<in> U. nunits_of s' u = nunits_of s u) \<and>
     (case r of None \<Rightarrow> \<exists>xs. heap_ok h s' xs U
      | Some q \<Rightarrow> q \<notin> U \<and> nunits_of s' q = n \<and> (\<exists>xs. heap_ok h s' xs (insert q U)))"

lemma malloc_loop_found:
  assumes ok: "heap_ok h s xs U" and prev: "prev \<in> set xs" "next_of s prev = p" and big: "0 < n" "n \<le> nunits_of s p"
  shows "\<exists>r s'. malloc_loop sbrk n freep prev p s = Some (Ok r, s') \<and> malloc_result h n s U r s'"
proof -
  obtain q s' xs' where "take_block n prev p s = (Ok (Some q), s')" "heap_ok h s' xs' (insert q U)" "q \<notin> U"
    "nunits_of s' q = n" "\<forall>u \<in> U. nunits_of s' u = nunits_of s u"
    by (rule take_block_ok [OF ok prev big])
  moreover have "p \<noteq> 0" using heap_nonnull [OF ok ring_next [OF heap_ring [OF ok] prev(1)]] prev(2) by simp
  ultimately show ?thesis using big by (subst malloc_loop.simps) (auto simp: malloc_result_def)
qed

text \<open>The walk finds a block on the way or comes to \<open>freep\<close>.\<close>

lemma malloc_loop_walk:
  assumes ok: "heap_ok h s xs U" and "0 < n"
  shows "path (next_of s) us freep \<Longrightarrow> next_of s prev = hd (us @ [freep]) \<Longrightarrow> set us \<subseteq> set xs - {freep} \<Longrightarrow> prev \<in> set xs \<Longrightarrow>
    (\<exists>r s'. malloc_loop sbrk n freep prev (next_of s prev) s = Some (Ok r, s') \<and> malloc_result h n s U r s') \<or>
    (\<exists>q \<in> set xs. next_of s q = freep \<and>
       malloc_loop sbrk n freep prev (next_of s prev) s = malloc_loop sbrk n freep q freep s)"
proof (induction us arbitrary: prev)
  case Nil
  then show ?case by auto
next
  case (Cons u us)
  then have u: "next_of s prev = u" "u \<in> set xs" "u \<noteq> freep" by auto
  show ?case
  proof (cases "n \<le> nunits_of s u")
    case False
    then have "malloc_loop sbrk n freep prev u s = malloc_loop sbrk n freep u (next_of s u) s"
      using heap_nonnull [OF ok u(2)] u(3) by (subst malloc_loop.simps) simp
    then show ?thesis using Cons.IH [of u] Cons.prems u by auto
  qed (use malloc_loop_found [OF ok Cons.prems(4) u(1) assms(2)] u(1) in auto)
qed

lemma malloc_loop_ok:
  assumes sbrk: "sbrk_ok sbrk lim" and n: "0 < n" "n < 2 ^ 58"
  shows "heap_ok h s xs U \<Longrightarrow> prev \<in> set xs \<Longrightarrow> freep \<in> set xs \<Longrightarrow>
    \<exists>r s'. malloc_loop sbrk n freep prev (next_of s prev) s = Some (Ok r, s') \<and> malloc_result h n s U r s'"
proof (induction "lim - ubrk s" arbitrary: s xs prev rule: less_induct)
  case less
  note ok = less.prems(1)
  have ring: "ring_ok s xs" using heap_ring [OF ok] .
  have "path (next_of s) xs (hd xs)" using ring by (simp add: ring_ok_def chain_def)
  then obtain us where us: "path (next_of s) us freep" "next_of s prev = hd (us @ [freep])" "set us \<subseteq> set xs - {freep}"
    by (rule ring_path [OF _ ring_distinct [OF ring] ring_next [OF ring less.prems(2)] less.prems(3)])
  have here: "\<exists>r s'. malloc_loop sbrk n freep q freep s = Some (Ok r, s') \<and> malloc_result h n s U r s'"
    if q: "q \<in> set xs" "next_of s q = freep" for q
  proof (cases "n \<le> nunits_of s freep")
    case False
    then have loop: "malloc_loop sbrk n freep q freep s = Option.bind (grow sbrk n s) (\<lambda>(r, t). case r of
        Ok (Some q) \<Rightarrow> malloc_loop sbrk n freep q (next_of t q) t | _ \<Rightarrow> Some (r, t))"
      using heap_nonnull [OF ok less.prems(3)] by (subst malloc_loop.simps) simp
    consider "grow sbrk n s = Some (Ok None, s)" | q s' xs' where "grow sbrk n s = Some (Ok (Some q), s')"
      "heap_ok h s' xs' U" "q \<in> set xs'" "set xs \<subseteq> set xs'" "\<forall>u \<in> U. nunits_of s' u = nunits_of s u"
      "ubrk s < ubrk s'" "ubrk s' \<le> lim"
      using grow_ok [OF ok sbrk n(2)] by blast
    then show ?thesis
    proof cases
      case 1
      then show ?thesis using loop ok by (auto simp: malloc_result_def)
    next
      case 2
      then have "\<exists>r t. malloc_loop sbrk n freep q (next_of s' q) s' = Some (Ok r, t) \<and> malloc_result h n s' U r t"
        using less.hyps [OF _ 2(2,3)] less.prems(3) by auto
      then show ?thesis using loop 2(1,5) by (auto simp: malloc_result_def)
    qed
  qed (use malloc_loop_found [OF ok q n(1)] in auto)
  then show ?case using malloc_loop_walk [OF ok n(1) us less.prems(2), of sbrk] by metis
qed

text \<open>Before the first allocation there is no list yet.\<close>

definition fresh :: "uheap \<Rightarrow> bool" where
  "fresh s \<longleftrightarrow> FREE_LIST s = None \<and> 0 < BASE s \<and> HEADER_ALIGN dvd BASE s \<and> BASE s + UNIT_SIZE \<le> ubrk s \<and>
     HEADER_ALIGN dvd ubrk s \<and> ubrk s < 2 ^ 64 - 1"

definition state_ok :: "addr \<Rightarrow> uheap \<Rightarrow> addr set \<Rightarrow> bool" where
  "state_ok h s U \<longleftrightarrow> fresh s \<and> h = ubrk s \<and> U = {} \<or> (\<exists>xs. heap_ok h s xs U)"

lemma init_list_ok:
  assumes "state_ok h s U"
  obtains xs where "heap_ok h (init_list s) xs U" "\<forall>u \<in> U. nunits_of (init_list s) u = nunits_of s u"
proof (cases "\<exists>xs. heap_ok h s xs U")
  case True
  then obtain xs where "heap_ok h s xs U" by blast
  moreover from this have "init_list s = s" by (auto simp: heap_ok_def init_list_def)
  ultimately show thesis using that by simp
next
  case False
  then have f: "fresh s" "h = ubrk s" "U = {}" using assms by (auto simp: state_ok_def)
  then have "heap_ok h (init_list s) [BASE s] U"
    by (simp add: heap_ok_def fresh_def init_list_def ring_ok_def chain_def spaced_def used_ok_def extent_def header_end_def
        disjoint_family_on_def)
  then show thesis using that f(3) by simp
qed

lemma inner_malloc_ok:
  assumes "state_ok h s U" "sbrk_ok sbrk lim" "n < 2 ^ 61"
  shows "\<exists>r s'. inner_malloc sbrk n s = Some (Ok r, s') \<and> (\<forall>u \<in> U. nunits_of s' u = nunits_of s u) \<and>
    (case r of None \<Rightarrow> state_ok h s' U
     | Some q \<Rightarrow> q \<notin> U \<and> nunits_of s' q = (n + 15) div 16 + 1 \<and> state_ok h s' (insert q U))"
proof (cases "n = 0")
  case False
  let ?n = "(n + 15) div 16 + 1"
  obtain xs where ok: "heap_ok h (init_list s) xs U" "\<forall>u \<in> U. nunits_of (init_list s) u = nunits_of s u"
    by (rule init_list_ok [OF assms(1)])
  then obtain f where f: "f \<in> set xs" "FREE_LIST (init_list s) = Some f" by (auto simp: heap_ok_def)
  have "malloc_units n = Ok ?n" using assms(3)
    by (simp add: malloc_units_def bytes2units_def checked_def UNIT_SIZE_def)
  then have "inner_malloc sbrk n s = malloc_loop sbrk ?n f f (next_of (init_list s) f) (init_list s)"
    using False f heap_nonnull [OF ok(1) f(1)] by (simp add: inner_malloc_def Let_def)
  moreover have "?n < 2 ^ 58" using assms(3) by simp
  ultimately obtain r s' where r: "inner_malloc sbrk n s = Some (Ok r, s')" "malloc_result h ?n (init_list s) U r s'"
    using malloc_loop_ok [OF assms(2) _ _ ok(1) f(1) f(1), of ?n] by auto
  then show ?thesis using ok(2) by (cases r) (auto simp: malloc_result_def state_ok_def)
qed (use assms(1) in \<open>simp add: inner_malloc_def\<close>)

lemma krfree_ok:
  assumes "state_ok h s (insert u U)" "u \<notin> U"
  shows "\<exists>s'. krfree (u + UNIT_SIZE) s = Some (Ok (), s') \<and> state_ok h s' U \<and> (\<forall>v \<in> U. nunits_of s' v = nunits_of s v)"
proof -
  obtain xs where ok: "heap_ok h s xs (insert u U)" using assms(1) by (auto simp: state_ok_def)
  have "HEADER_ALIGN dvd u" using heap_aligned [OF ok, of u] by simp
  then have "(u + UNIT_SIZE) mod HEADER_ALIGN = 0" by (simp add: header_layout mod_eq_0_iff_dvd)
  moreover obtain p s' xs' where "inner_free u s = Some (Ok p, s')" "heap_ok h s' xs' U"
    "\<forall>v \<in> U. nunits_of s' v = nunits_of s v"
    by (rule inner_free_ok [OF ok assms(2)]) blast
  ultimately show ?thesis by (auto simp: krfree_def state_ok_def UNIT_SIZE_def)
qed

section \<open>Histories\<close>

text \<open>
  The states a program can reach from \<open>s0\<close> by allocating and by freeing what it has; \<open>P\<close> are the pointers it
  holds.
\<close>

inductive heap_run :: "sbrk_fun \<Rightarrow> uheap \<Rightarrow> uheap \<Rightarrow> addr set \<Rightarrow> bool" for sbrk s0 where
  start: "heap_run sbrk s0 s0 {}"
| malloc: "heap_run sbrk s0 s P \<Longrightarrow> n < 2 ^ 61 \<Longrightarrow> krmalloc sbrk n s = Some (Ok p, s') \<Longrightarrow>
    heap_run sbrk s0 s' (if p = 0 then P else insert p P)"
| free: "heap_run sbrk s0 s P \<Longrightarrow> p \<in> P \<Longrightarrow> krfree p s = Some (Ok (), s') \<Longrightarrow> heap_run sbrk s0 s' (P - {p})"

definition user_ptr :: "addr \<Rightarrow> addr" where
  "user_ptr u = u + UNIT_SIZE"

lemma user_ptr_inj: "inj user_ptr"
  by (simp add: user_ptr_def inj_def)

lemma krmalloc_ok:
  assumes "state_ok h s U" "sbrk_ok sbrk lim" "n < 2 ^ 61"
  shows "\<exists>p s'. krmalloc sbrk n s = Some (Ok p, s') \<and> (\<forall>u \<in> U. nunits_of s' u = nunits_of s u) \<and>
    (if p = 0 then state_ok h s' U
     else \<exists>q. p = user_ptr q \<and> q \<notin> U \<and> nunits_of s' q = (n + 15) div 16 + 1 \<and> state_ok h s' (insert q U))"
proof -
  obtain r s' where "inner_malloc sbrk n s = Some (Ok r, s')" "\<forall>u \<in> U. nunits_of s' u = nunits_of s u"
    "case r of None \<Rightarrow> state_ok h s' U
     | Some q \<Rightarrow> q \<notin> U \<and> nunits_of s' q = (n + 15) div 16 + 1 \<and> state_ok h s' (insert q U)"
    using inner_malloc_ok [OF assms] by blast
  then show ?thesis by (cases r) (auto simp: krmalloc_def user_ptr_def UNIT_SIZE_def)
qed

lemma heap_run_ok:
  assumes "heap_run sbrk s0 s P" "fresh s0" "sbrk_ok sbrk lim"
  shows "\<exists>U. P = user_ptr ` U \<and> state_ok (ubrk s0) s U"
  using assms(1)
proof induction
  case start
  then show ?case using assms(2) by (auto simp: state_ok_def)
next
  case (malloc s P n p s')
  then obtain U where U: "P = user_ptr ` U" "state_ok (ubrk s0) s U" by blast
  then have "if p = 0 then state_ok (ubrk s0) s' U else \<exists>q. p = user_ptr q \<and> state_ok (ubrk s0) s' (insert q U)"
    using krmalloc_ok [OF U(2) assms(3) malloc.hyps(2)] malloc.hyps(3) by (auto split: if_splits)
  then show ?case using U(1) by (metis image_insert)
next
  case (free s P p s')
  then obtain U where U: "P = user_ptr ` U" "state_ok (ubrk s0) s U" by blast
  then obtain u where u: "u \<in> U" "p = user_ptr u" using free.hyps(2) by blast
  have "state_ok (ubrk s0) s (insert u (U - {u}))" using U(2) u(1) by (simp add: insert_absorb)
  then have "state_ok (ubrk s0) s' (U - {u})"
    using krfree_ok [of "ubrk s0" s u "U - {u}"] free.hyps(3) u(2) by (auto simp: user_ptr_def)
  moreover have "P - {p} = user_ptr ` (U - {u})" using U(1) u image_set_diff [OF user_ptr_inj, of U "{u}"] by simp
  ultimately show ?case by blast
qed

lemma chain_less:
  assumes "chain s xs z" "x \<in> set xs" "y \<in> set xs" "x < y"
  shows "header_end s x < y"
proof -
  obtain A B where xs: "xs = A @ x # B" using assms(2) by (meson split_list)
  have "y \<in> set B"
  proof (rule ccontr)
    assume "y \<notin> set B"
    then have "y \<in> set A" using assms(3,4) xs by auto
    then have "header_end s y < x" using assms(1) xs by (simp add: chain_append)
    then show False using end_ge [of y s] assms(4) by simp
  qed
  then show ?thesis using assms(1) xs by (simp add: chain_append chain_Cons)
qed

lemma heap_disjoint:
  assumes ok: "heap_ok h s xs U"
  shows "disjoint_family_on (extent s) (set xs \<union> U)"
proof -
  have c: "chain s xs (BASE s)" using heap_ring [OF ok] by (simp add: ring_ok_def)
  have free: "extent s x \<inter> extent s y = {}" if "x \<in> set xs" "y \<in> set xs" "x < y" for x y
    using chain_less [OF c that] by (auto simp: extent_def)
  have both: "extent s x \<inter> extent s u = {}" if "x \<in> set xs" "u \<in> U" for x u
    using ok that by (auto simp: heap_ok_def area_def)
  have used: "extent s u \<inter> extent s v = {}" if "u \<in> U" "v \<in> U" "u \<noteq> v" for u v
    using ok that by (auto simp: heap_ok_def used_ok_def disjoint_family_on_def)
  show ?thesis unfolding disjoint_family_on_def using free both used by (metis UnE inf_commute linorder_neqE_nat)
qed

text \<open>
  C17: The allocator of user programs. Let a program allocate and free as it likes, in any order, from a
  fresh heap. At each point every further call returns, without a panic: \<open>free\<close> of any pointer that is
  held, and \<open>malloc\<close> of any size below \<open>2^61\<close>, with a null pointer or with a new block that is large
  enough. The memory obtained from the system is always exactly the disjoint union of the blocks in
  use and the blocks on the free list, so no two allocations overlap and no memory is lost.
\<close>
theorem malloc_partitions_heap:
  assumes "heap_run sbrk s0 s P" "fresh s0" "sbrk_ok sbrk lim"
  shows "(\<forall>p \<in> P. \<exists>s'. krfree p s = Some (Ok (), s')) \<and>
    (\<forall>n < 2 ^ 61. \<exists>p s'. krmalloc sbrk n s = Some (Ok p, s') \<and>
       (p \<noteq> 0 \<longrightarrow> p \<notin> P \<and> p + n \<le> header_end s' (p - UNIT_SIZE))) \<and>
    (\<exists>U F. P = user_ptr ` U \<and> (FREE_LIST s = None \<and> F = {} \<or> (\<exists>xs. ring_ok s xs \<and> F = set xs)) \<and>
       disjoint_family_on (extent s) (F \<union> U) \<and> area s (F \<union> U) = {ubrk s0 ..< ubrk s})"
proof (intro conjI ballI allI impI)
  obtain U where U: "P = user_ptr ` U" "state_ok (ubrk s0) s U" using heap_run_ok [OF assms] by blast
  show "\<exists>s'. krfree p s = Some (Ok (), s')" if p: "p \<in> P" for p
  proof -
    obtain u where u: "u \<in> U" "p = user_ptr u" using p U(1) by blast
    have "state_ok (ubrk s0) s (insert u (U - {u}))" using U(2) u(1) by (simp add: insert_absorb)
    then show ?thesis using krfree_ok [of "ubrk s0" s u "U - {u}"] u(2) by (auto simp: user_ptr_def)
  qed
  show "\<exists>p s'. krmalloc sbrk n s = Some (Ok p, s') \<and> (p \<noteq> 0 \<longrightarrow> p \<notin> P \<and> p + n \<le> header_end s' (p - UNIT_SIZE))"
    if "n < 2 ^ 61" for n
    using krmalloc_ok [OF U(2) assms(3) that] U(1) by (auto simp: user_ptr_def header_end_def UNIT_SIZE_def split: if_splits)
  show "\<exists>U F. P = user_ptr ` U \<and> (FREE_LIST s = None \<and> F = {} \<or> (\<exists>xs. ring_ok s xs \<and> F = set xs)) \<and>
       disjoint_family_on (extent s) (F \<union> U) \<and> area s (F \<union> U) = {ubrk s0 ..< ubrk s}"
    using U(2) unfolding state_ok_def
  proof
    assume "fresh s \<and> ubrk s0 = ubrk s \<and> U = {}"
    then show ?thesis using U(1) by (intro exI [of _ "{}"]) (simp add: fresh_def disjoint_family_on_def)
  next
    assume "\<exists>xs. heap_ok (ubrk s0) s xs U"
    then obtain xs where xs: "heap_ok (ubrk s0) s xs U" by blast
    show ?thesis using U(1) heap_ring [OF xs] heap_disjoint [OF xs] xs
      by (intro exI [of _ U] exI [of _ "set xs"]) (auto simp: heap_ok_def)
  qed
qed

text \<open>A system call that grants memory up to a limit, and a heap after its first allocation.\<close>

definition sbrk_to :: "addr \<Rightarrow> sbrk_fun" where
  "sbrk_to lim n b = (if 0 \<le> n \<and> b + nat n \<le> lim then (b, b + nat n) else (2 ^ 64 - 1, b))"

lemma sbrk_to_ok: "lim < 2 ^ 64 - 1 \<Longrightarrow> sbrk_ok (sbrk_to lim) lim"
  by (simp add: sbrk_ok_def sbrk_to_def)

definition heap0 :: uheap where
  "heap0 = \<lparr>next_of = \<lambda>_. 0, nunits_of = \<lambda>_. 0, FREE_LIST = None, BASE = 0x1000, ubrk = 0x2000\<rparr>"

definition heap1 :: uheap where
  "heap1 = \<lparr>next_of = (\<lambda>_. 0)(0x1000 := 0x2000, 0x2000 := 0x1000, 0x11FE0 := 0x1000),
     nunits_of = (\<lambda>_. 0)(0x1000 := 0, 0x2000 := 4094, 0x11FE0 := 2), FREE_LIST = Some 0x1000, BASE = 0x1000, ubrk = 0x12000\<rparr>"

lemma fresh_heap0: "fresh heap0"
  by (simp add: fresh_def heap0_def header_layout)

lemmas malloc_defs = krmalloc_def inner_malloc_def init_list_def malloc_units_def bytes2units_def checked_def
  grow_def more_units_def safe_sbrk_def as_isize_def inner_free_def free_insert_def join_next_def join_current_def absorb_def
  take_block_def take_whole_def take_tail_def nonnull_def header_new_def header_end_def set_next_def header_layout follows_def

lemma malloc_heap0: "krmalloc (sbrk_to 0x400000) 1 heap0 = Some (Ok 0x11FF0, heap1)"
  by (simp add: malloc_defs heap0_def heap1_def sbrk_to_def malloc_loop.simps free_find.simps kop_simps Let_def
      fun_eq_iff)

lemma sbrk_heap: "sbrk_ok (sbrk_to 0x400000) 0x400000"
  by (rule sbrk_to_ok) simp

lemma run_heap1: "heap_run (sbrk_to 0x400000) heap0 heap1 {0x11FF0}"
proof -
  have "heap_run (sbrk_to 0x400000) heap0 heap1 (if (0x11FF0 :: addr) = 0 then {} else insert 0x11FF0 {})"
    by (rule heap_run.malloc [OF heap_run.start _ malloc_heap0]) simp
  then show ?thesis by simp
qed

lemma free_heap1: "krfree 0x11FF0 heap1 = Some (Ok (), heap1\<lparr>nunits_of := (nunits_of heap1)(0x2000 := 4096), FREE_LIST := Some 0x2000\<rparr>)"
  by (simp add: malloc_defs krfree_def heap1_def free_find.simps kop_simps bnd_def fun_eq_iff)

theorem malloc_partitions_heap_witness:
  "\<exists>s'. krfree 0x11FF0 heap1 = Some (Ok (), s')"
  using malloc_partitions_heap [OF run_heap1 fresh_heap0 sbrk_heap] by blast

section \<open>A heap with nothing in use\<close>

lemma heap_all_free:
  assumes ok: "heap_ok h s xs {}" and "h < ubrk s"
  shows "xs = [BASE s, h]" "header_end s h = ubrk s"
proof -
  have ring: "ring_ok s xs" using heap_ring [OF ok] .
  have c: "chain s xs (BASE s)" using ring by (simp add: ring_ok_def)
  have area: "area s (set xs) = {h ..< ubrk s}" and base: "BASE s < h" using ok by (auto simp: heap_ok_def UNIT_SIZE_def)
  have in_heap: "h \<le> x" if "x \<in> set xs" "x \<noteq> BASE s" for x
  proof -
    have "x \<in> extent s x" using ring that by (auto simp: ring_ok_def intro: in_extent)
    then have "x \<in> area s (set xs)" using that(1) by (auto simp: area_def)
    then show ?thesis using area by simp
  qed
  have owner: "\<exists>x \<in> set xs. x \<noteq> BASE s \<and> x \<le> a \<and> a < header_end s x" if "h \<le> a" "a < ubrk s" for a
  proof -
    have "a \<in> area s (set xs)" using that area by simp
    then obtain x where x: "x \<in> set xs" "x \<le> a" "a < header_end s x" by (auto simp: area_def extent_def)
    moreover have "header_end s (BASE s) = BASE s" using ring by (simp add: ring_ok_def header_end_def)
    ultimately show ?thesis using base that(1) by (intro bexI [of _ x]) auto
  qed
  have h: "h \<in> set xs" using owner [of h] assms(2) in_heap by (metis le_antisym le_refl)
  show end_h: "header_end s h = ubrk s"
  proof (rule ccontr)
    assume "header_end s h \<noteq> ubrk s"
    then have "header_end s h < ubrk s" using heap_free_end [OF ok h] by simp
    then obtain x where x: "x \<in> set xs" "x \<noteq> BASE s" "x \<le> header_end s h" "header_end s h < header_end s x"
      using owner [of "header_end s h"] end_ge [of h s] by blast
    then have "h < x" using in_heap [of x] by (metis le_neq_implies_less less_irrefl)
    then show False using chain_less [OF c h x(1)] x(3) by simp
  qed
  have "x = BASE s \<or> x = h" if "x \<in> set xs" for x
    using that in_heap [OF that] chain_less [OF c h that] heap_free_less [OF ok that] end_h by fastforce
  then have "set xs = {BASE s, h}" using h ring_Base_in [OF ring] by blast
  then show "xs = [BASE s, h]" using ring_sorted [OF ring] base by (intro strict_sorted_equal) auto
qed

text \<open>
  Nothing is fragmented in the end: when a program has freed all it has allocated, in whatever order,
  the free list is the list head and one single block, which is all the memory obtained from the system.
\<close>
theorem free_coalesces_all:
  assumes "heap_run sbrk s0 s {}" "fresh s0" "sbrk_ok sbrk lim" "ubrk s0 < ubrk s"
  shows "next_of s (BASE s) = ubrk s0 \<and> next_of s (ubrk s0) = BASE s \<and>
    UNIT_SIZE * nunits_of s (ubrk s0) = ubrk s - ubrk s0 \<and> FREE_LIST s \<in> {Some (BASE s), Some (ubrk s0)}"
proof -
  obtain xs where ok: "heap_ok (ubrk s0) s xs {}"
    using heap_run_ok [OF assms(1-3)] assms(4) by (auto simp: state_ok_def)
  note one = heap_all_free [OF ok assms(4)]
  have "chain s [BASE s, ubrk s0] (BASE s)" using heap_ring [OF ok] one(1) by (simp add: ring_ok_def)
  moreover have "\<exists>f \<in> set xs. FREE_LIST s = Some f" using ok by (simp add: heap_ok_def)
  ultimately show ?thesis using one by (auto simp: chain_Cons header_end_def)
qed

theorem free_coalesces_all_witness:
  "\<exists>s. krfree 0x11FF0 heap1 = Some (Ok (), s) \<and> next_of s 0x1000 = 0x2000 \<and> UNIT_SIZE * nunits_of s 0x2000 = 0x10000"
proof -
  let ?s = "heap1\<lparr>nunits_of := (nunits_of heap1)(0x2000 := 4096), FREE_LIST := Some 0x2000\<rparr>"
  have "heap_run (sbrk_to 0x400000) heap0 ?s ({0x11FF0} - {0x11FF0})"
    by (rule heap_run.free [OF run_heap1 _ free_heap1]) simp
  then have "heap_run (sbrk_to 0x400000) heap0 ?s {}" by simp
  from free_coalesces_all [OF this fresh_heap0 sbrk_heap] free_heap1 show ?thesis
    by (simp add: heap0_def) (simp add: heap1_def)
qed

section \<open>The remembered start of the list\<close>

text \<open>
  \<open>inner_malloc\<close> compares with the start of the list that it read before the loop, while \<open>inner_free\<close> moves
  the start to the block that took in the new memory. A list that ends at the break is walked from its
  beginning again, comes to the old start before the enlarged block, and more memory is asked for.
\<close>

lemma path_unique:
  "path nx (a # xs) z \<Longrightarrow> path nx (a # ys) z \<Longrightarrow> z \<notin> set xs \<Longrightarrow> z \<notin> set ys \<Longrightarrow> xs = ys"
proof (induction xs arbitrary: a ys)
  case Nil
  then show ?case by (cases ys) auto
next
  case (Cons x xs)
  then obtain y ys' where "ys = y # ys'" by (cases ys) auto
  then show ?case using Cons.IH [of x ys'] Cons.prems by auto
qed

lemma ring_unique:
  assumes "ring_ok s xs" "path (next_of s) ys (BASE s)" "hd ys = BASE s" "distinct ys" "ys \<noteq> []"
  shows "xs = ys"
proof -
  obtain xs' ys' where xs: "xs = BASE s # xs'" and ys: "ys = BASE s # ys'"
    using assms by (metis list.collapse ring_ok_def)
  moreover have "distinct xs" by (rule ring_distinct [OF assms(1)])
  moreover have "path (next_of s) xs (BASE s)" using assms(1) by (simp add: ring_ok_def chain_def)
  ultimately show ?thesis using path_unique [of "next_of s" "BASE s" xs' "BASE s" ys'] assms(2,4) by auto
qed

definition top_free :: "addr \<Rightarrow> uheap \<Rightarrow> addr list \<Rightarrow> addr \<Rightarrow> addr set \<Rightarrow> bool" where
  "top_free h s us T U \<longleftrightarrow> heap_ok h s (us @ [T]) U \<and> us \<noteq> [] \<and> header_end s T = ubrk s"

lemma more_units_sbrk_to:
  assumes "ubrk s < 2 ^ 64 - 1" "HEADER_ALIGN dvd ubrk s" "n < 2 ^ 58"
  shows "more_units (sbrk_to lim) n s = (if ubrk s + max n 4096 * UNIT_SIZE \<le> lim
    then (Ok (Some (ubrk s)), grown (max n 4096) s) else (Ok None, s))"
proof -
  let ?b = "max n 4096 * UNIT_SIZE"
  have b: "?b < 2 ^ 63" using assms(3) by (simp add: UNIT_SIZE_def)
  have "safe_sbrk (sbrk_to lim) b s = (if ubrk s + b \<le> lim
      then (Ok (Some (ubrk s)), s\<lparr>ubrk := ubrk s + b\<rparr>) else (Ok None, s))" if "b < 2 ^ 63" for b
    using that assms(1) by (simp add: safe_sbrk_def sbrk_to_def as_isize_def)
  from this [OF b] have "safe_sbrk (sbrk_to lim) ?b s = (if ubrk s + ?b \<le> lim
      then (Ok (Some (ubrk s)), s\<lparr>ubrk := ubrk s + ?b\<rparr>) else (Ok None, s))" .
  then show ?thesis using b assms(2)
    by (simp add: more_units_def checked_def Let_def kop_simps grown_def header_new_def dvd_eq_mod_eq_0 split: if_split)
qed

text \<open>The block below the break takes in the new memory.\<close>

lemma inserted_top:
  assumes "header_end s T = ubrk s" "T < ubrk s" "next_of s T = BASE s" "BASE s < ubrk s" "0 < n"
  shows "next_of (inserted (ubrk s) T (grown n s)) T = BASE s"
    "nunits_of (inserted (ubrk s) T (grown n s)) T = nunits_of s T + n"
proof -
  let ?t = "ubrk s" and ?g = "grown n s"
  have g: "next_of ?g T = BASE s" "header_end ?g T = ?t" "nunits_of ?g T = nunits_of s T" "nunits_of ?g ?t = n"
    using assms(1-3) by (auto simp: grown_def header_end_def)
  have "header_end ?g ?t \<noteq> BASE s" using end_ge [of ?t ?g] assms(4) by simp
  then have "inserted ?t T ?g = join T ?t (header_new ?t n (BASE s) ?g)" using g by (simp add: inserted_def join_def)
  moreover have "header_end (header_new ?t n (BASE s) ?g) T = ?t" using g(2) assms(2) by (simp add: header_end_def)
  ultimately show "next_of (inserted ?t T ?g) T = BASE s" "nunits_of (inserted ?t T ?g) T = nunits_of s T + n"
    using g assms(2) by (simp_all add: join_def)
qed

lemma grow_top:
  assumes top: "top_free h s us T U" and n: "n < 2 ^ 58" and lim: "lim < 2 ^ 64 - 1" "ubrk s + max n 4096 * UNIT_SIZE \<le> lim"
  obtains s' where "grow (sbrk_to lim) n s = Some (Ok (Some T), s')" "top_free h s' us T U"
    "\<forall>x \<in> set us. nunits_of s' x = nunits_of s x" "ubrk s' = ubrk s + max n 4096 * UNIT_SIZE"
proof -
  let ?n = "max n 4096" and ?t = "ubrk s" and ?g = "grown (max n 4096) s"
  let ?s = "(inserted ?t T ?g)\<lparr>FREE_LIST := Some T\<rparr>"
  have ok: "heap_ok h s (us @ [T]) U" "us \<noteq> []" "header_end s T = ?t" using top by (simp_all add: top_free_def)
  have ring: "ring_ok s (us @ [T])" using heap_ring [OF ok(1)] .
  have g: "heap_ok h ?g (us @ [T]) (insert ?t U)" "?t \<notin> U" using grown_ok [OF ok(1), of ?n] lim by auto
  have lt: "x < ?t" if "x \<in> set (us @ [T])" for x using heap_free_less [OF ok(1) that] .
  have "more_units (sbrk_to lim) n s = (Ok (Some ?t), ?g)"
    using more_units_sbrk_to [of s n lim] ok(1) n lim(2) by (simp add: heap_ok_def)
  moreover have free: "inner_free ?t ?g = Some (Ok T, ?s)"
    using inner_free_run [OF g(1), of ?t us T "[]"] lt by simp
  ultimately have grow: "grow (sbrk_to lim) n s = Some (Ok (Some T), ?s)" by (simp add: grow_def)
  obtain xs' where s: "heap_ok h ?s xs' U"
    by (rule inner_free_ok [OF g]) (use free in auto)
  have nT: "next_of s T = BASE s" "path (next_of s) us T" using ring by (simp_all add: ring_ok_def chain_def)
  have top': "next_of ?s T = BASE s" "nunits_of ?s T = nunits_of s T + ?n"
    using inserted_top [OF ok(3) _ nT(1), of ?n] lt [of T] lt [OF ring_Base_in [OF ring]] by simp_all
  have same: "next_of ?s x = next_of s x" "nunits_of ?s x = nunits_of s x" if "x \<in> set us" for x
  proof -
    have "x \<noteq> T" "x \<noteq> ?t" using that lt [of x] ring_distinct [OF ring] by auto
    then show "next_of ?s x = next_of s x" "nunits_of ?s x = nunits_of s x" by (simp_all add: grown_def)
  qed
  have "path (next_of ?s) us T" using nT(2) same(1) path_cong [of us "next_of ?s" "next_of s" T] by blast
  then have "path (next_of ?s) (us @ [T]) (BASE ?s)" using top'(1) by (simp add: grown_def)
  then have "xs' = us @ [T]"
    using ring_unique [OF heap_ring [OF s]] ring ring_distinct [OF ring] by (simp add: ring_ok_def grown_def)
  moreover have "header_end ?s T = ubrk ?s" using top'(2) ok(3) by (simp add: header_end_def grown_def algebra_simps)
  ultimately have "top_free h ?s us T U" using s ok(2) by (simp add: top_free_def)
  then show thesis using that [OF grow] same(2) by (simp add: grown_def)
qed

lemma malloc_loop_skip:
  "path (next_of s) us f \<Longrightarrow> next_of s prev = hd (us @ [f]) \<Longrightarrow> \<forall>x \<in> set us. x \<noteq> 0 \<and> x \<noteq> f \<and> nunits_of s x < n \<Longrightarrow>
    malloc_loop sbrk n f prev (next_of s prev) s = malloc_loop sbrk n f (last (prev # us)) f s"
proof (induction us arbitrary: prev)
  case (Cons u us)
  then have "malloc_loop sbrk n f prev u s = malloc_loop sbrk n f u (next_of s u) s"
    by (subst malloc_loop.simps) simp
  then show ?case using Cons.IH [of u] Cons.prems by simp
qed simp

lemma malloc_loop_exhausts:
  assumes n: "n < 2 ^ 58" and lim: "lim < 2 ^ 64 - 1"
  shows "top_free h s us T U \<Longrightarrow> f \<in> set us \<Longrightarrow> \<forall>x \<in> set us. nunits_of s x < n \<Longrightarrow>
    \<exists>s'. malloc_loop (sbrk_to lim) n f q f s = Some (Ok None, s') \<and> top_free h s' us T U \<and>
      lim < ubrk s' + max n 4096 * UNIT_SIZE \<and> ubrk s \<le> ubrk s'"
proof (induction "lim - ubrk s" arbitrary: s q rule: less_induct)
  case less
  have ok: "heap_ok h s (us @ [T]) U" using less.prems(1) by (simp add: top_free_def)
  have "f \<noteq> 0" "\<not> n \<le> nunits_of s f" using heap_nonnull [OF ok] less.prems(2,3) by fastforce+
  then have loop: "malloc_loop (sbrk_to lim) n f q f s = Option.bind (grow (sbrk_to lim) n s) (\<lambda>(r, t). case r of
      Ok (Some q) \<Rightarrow> malloc_loop (sbrk_to lim) n f q (next_of t q) t | _ \<Rightarrow> Some (r, t))"
    by (subst malloc_loop.simps) simp
  show ?case
  proof (cases "ubrk s + max n 4096 * UNIT_SIZE \<le> lim")
    case False
    then have "more_units (sbrk_to lim) n s = (Ok None, s)"
      using more_units_sbrk_to [of s n lim] ok n by (simp add: heap_ok_def)
    then show ?thesis using loop less.prems(1) False by (simp add: grow_def)
  next
    case True
    obtain t where t: "grow (sbrk_to lim) n s = Some (Ok (Some T), t)" "top_free h t us T U"
      "\<forall>x \<in> set us. nunits_of t x = nunits_of s x" "ubrk t = ubrk s + max n 4096 * UNIT_SIZE"
      by (rule grow_top [OF less.prems(1) n lim True])
    have okt: "heap_ok h t (us @ [T]) U" using t(2) by (simp add: top_free_def)
    obtain A B where us: "us = A @ f # B" using less.prems(2) by (meson split_list)
    have p: "path (next_of t) A f" "next_of t T = hd (A @ [f])"
      using heap_ring [OF okt] us by (auto simp: ring_ok_def chain_def hd_append)
    have "\<forall>x \<in> set A. x \<noteq> 0 \<and> x \<noteq> f \<and> nunits_of t x < n"
      using heap_nonnull [OF okt] ring_distinct [OF heap_ring [OF okt]] less.prems(3) t(3) us by auto
    note skip = malloc_loop_skip [OF p this]
    have "lim - ubrk t < lim - ubrk s" using t(4) True by (simp add: UNIT_SIZE_def)
    then obtain s' where "malloc_loop (sbrk_to lim) n f (last (T # A)) f t = Some (Ok None, s')" "top_free h s' us T U"
      "lim < ubrk s' + max n 4096 * UNIT_SIZE" "ubrk t \<le> ubrk s'"
      using less.hyps [OF _ t(2) less.prems(2), of "last (T # A)"] less.prems(3) t(3) by auto
    then show ?thesis using loop t(1,4) skip by auto
  qed
qed

text \<open>
  C40: An allocation that needs more memory fails, and takes all the memory there is with it, when the
  topmost free block ends at the break and is not the one the list starts at: each piece of memory
  that the system grants is joined to that block, but the search comes back to the remembered start
  before it gets there, and asks for more. When the system refuses, \<open>malloc\<close> returns a null pointer,
  while the topmost block holds everything up to the break.
\<close>
theorem malloc_exhausts_memory:
  assumes "heap_ok h s (us @ [T]) U" "us \<noteq> []" "header_end s T = ubrk s" "FREE_LIST s = Some f" "f \<in> set us"
    "0 < n" "n < 2 ^ 61" "\<forall>x \<in> set (us @ [T]). nunits_of s x < (n + 15) div 16 + 1" "lim < 2 ^ 64 - 1"
  shows "\<exists>s'. krmalloc (sbrk_to lim) n s = Some (Ok 0, s') \<and> lim < ubrk s' + max ((n + 15) div 16 + 1) 4096 * UNIT_SIZE \<and>
    T + UNIT_SIZE * nunits_of s' T = ubrk s' \<and> ubrk s \<le> ubrk s'"
proof -
  let ?n = "(n + 15) div 16 + 1"
  have top: "top_free h s us T U" using assms(1-3) by (simp add: top_free_def)
  have ring: "ring_ok s (us @ [T])" using heap_ring [OF assms(1)] .
  obtain A B where us: "us = A @ f # B" using assms(5) by (meson split_list)
  have "init_list s = s" "malloc_units n = Ok ?n" using assms(4,7)
    by (simp_all add: init_list_def malloc_units_def bytes2units_def checked_def UNIT_SIZE_def)
  then have "inner_malloc (sbrk_to lim) n s = malloc_loop (sbrk_to lim) ?n f f (next_of s f) s"
    using assms(4,6) heap_nonnull [OF assms(1), of f] assms(5) by (simp add: inner_malloc_def Let_def)
  also have "\<dots> = malloc_loop (sbrk_to lim) ?n f (last (f # B @ T # A)) f s"
  proof (rule malloc_loop_skip)
    show "path (next_of s) (B @ T # A) f" "next_of s f = hd ((B @ T # A) @ [f])"
      using ring us by (auto simp: ring_ok_def chain_def hd_append)
    show "\<forall>x \<in> set (B @ T # A). x \<noteq> 0 \<and> x \<noteq> f \<and> nunits_of s x < ?n"
      using heap_nonnull [OF assms(1)] ring_distinct [OF ring] assms(8) us by auto
  qed
  finally have "inner_malloc (sbrk_to lim) n s = malloc_loop (sbrk_to lim) ?n f (last (f # B @ T # A)) f s" .
  moreover have "?n < 2 ^ 58" "\<forall>x \<in> set us. nunits_of s x < ?n" using assms(7,8) by auto
  then obtain s' where "malloc_loop (sbrk_to lim) ?n f (last (f # B @ T # A)) f s = Some (Ok None, s')" "top_free h s' us T U"
    "lim < ubrk s' + max ?n 4096 * UNIT_SIZE" "ubrk s \<le> ubrk s'"
    using malloc_loop_exhausts [OF _ assms(9) top assms(5)] by blast
  ultimately show ?thesis by (auto simp: krmalloc_def top_free_def header_end_def)
qed

definition heap2 :: uheap where
  "heap2 = \<lparr>next_of = (\<lambda>_. 0)(0x1000 := 0x2000, 0x2000 := 0x11FE0, 0x11FC0 := 0x1000, 0x11FE0 := 0x1000),
     nunits_of = (\<lambda>_. 0)(0x2000 := 4092, 0x11FC0 := 2, 0x11FE0 := 2), FREE_LIST = Some 0x2000, BASE = 0x1000, ubrk = 0x12000\<rparr>"

lemma run_heap2: "\<exists>s. krmalloc (sbrk_to 0x400000) 1 heap1 = Some (Ok 0x11FD0, s) \<and> krfree 0x11FF0 s = Some (Ok (), heap2)"
  by (simp add: malloc_defs krfree_def heap1_def heap2_def malloc_loop.simps free_find.simps kop_simps bnd_def fun_eq_iff Let_def)

lemma heap2_ok: "heap_ok 0x2000 heap2 ([0x1000, 0x2000] @ [0x11FE0]) {0x11FC0}"
proof -
  have "ring_ok heap2 [0x1000, 0x2000, 0x11FE0]" "used_ok heap2 {0x11FC0}"
    by (simp_all add: ring_ok_def chain_def spaced_def used_ok_def disjoint_family_on_def header_end_def heap2_def header_layout)
  moreover have "area heap2 {0x1000, 0x2000, 0x11FE0} = {0x2000 ..< 0x11FC0} \<union> {0x11FE0 ..< 0x12000}" "area heap2 {0x11FC0} = {0x11FC0 ..< 0x11FE0}"
    by (simp_all add: area_def extent_def header_end_def heap2_def header_layout)
  moreover have "({0x2000 ..< 0x11FC0} \<union> {0x11FE0 ..< 0x12000}) \<inter> {0x11FC0 ..< 0x11FE0 :: nat} = {}"
    "{0x2000 ..< 0x11FC0} \<union> {0x11FE0 ..< 0x12000} \<union> {0x11FC0 ..< 0x11FE0 :: nat} = {0x2000 ..< 0x12000}" by auto
  moreover have "FREE_LIST heap2 = Some 0x2000" "BASE heap2 = 0x1000" "ubrk heap2 = 0x12000" by (simp_all add: heap2_def)
  ultimately show ?thesis unfolding heap_ok_def by (simp add: header_layout del: area_simps)
qed

theorem malloc_exhausts_memory_witness:
  "(\<exists>s. krmalloc (sbrk_to 0x400000) 1 heap1 = Some (Ok 0x11FD0, s) \<and> krfree 0x11FF0 s = Some (Ok (), heap2)) \<and>
   (\<exists>s'. krmalloc (sbrk_to 0x400000) 0x100000 heap2 = Some (Ok 0, s') \<and> 0x100000 < UNIT_SIZE * nunits_of s' 0x11FE0)"
proof
  have "header_end heap2 0x11FE0 = ubrk heap2" "FREE_LIST heap2 = Some 0x2000"
    "\<forall>x \<in> set ([0x1000, 0x2000] @ [0x11FE0]). nunits_of heap2 x < (0x100000 + 15) div 16 + 1"
    by (simp_all add: header_end_def heap2_def header_layout)
  from malloc_exhausts_memory [OF heap2_ok _ this(1,2) _ _ _ this(3), of "0x400000"]
  show "\<exists>s'. krmalloc (sbrk_to 0x400000) 0x100000 heap2 = Some (Ok 0, s') \<and> 0x100000 < UNIT_SIZE * nunits_of s' 0x11FE0"
    by (auto simp: UNIT_SIZE_def)
qed (rule run_heap2)

end
