(* ===== verification/Spec2Isabelle.thy ===== *)
theory Spec2Isabelle
  imports Arch Entry EntryProps Swtch Cpu DupProps ForkReturn Boot Spinlock Sleeplock Kalloc Bio BioInv Fslog Crash Fs FsProps Ring Pipe Cga Kbd Console File
    Vm Proc ProcProps ForkProps UserMem Exec ExecProps Sched Sysfile Syscall SyscallProps Ahci Sd SdProps Acpi AcpiProps Pci PciProps Apic ApicProps
    Ulib Malloc MallocProps
begin

text \<open>
  A verification of rxv64, a Unix-like teaching kernel for x86-64 written in Rust (\<open>kernel/src\<close>,
  \<open>syslib/src\<close>, \<open>ulib/src\<close>).

  \<^bold>\<open>The program.\<close> The kernel is layered. At the bottom are the machine layer (\<open>x86_64.rs\<close>), the spin
  locks (\<open>spinlock.rs\<close>) and the page allocator (\<open>kalloc.rs\<close>, \<open>kmem.rs\<close>). The storage stack is the disk
  driver (\<open>sd.rs\<close>), the buffer cache (\<open>bio.rs\<close>, whose buffers and the inodes above are held with the
  sleep locks of \<open>sleeplock.rs\<close>), the write-ahead log (\<open>fslog.rs\<close>) and the file system (\<open>fs.rs\<close>). Open
  files (\<open>file.rs\<close>) refer to inodes, to pipes (\<open>pipe.rs\<close>) or to the console (\<open>console.rs\<close>, with the display
  \<open>cga.rs\<close>, the serial line \<open>uart.rs\<close> and the keyboard \<open>kbd.rs\<close>). Address spaces (\<open>vm.rs\<close>) and processes
  (\<open>proc.rs\<close>) are on top of the page allocator, and system calls, traps and \<open>exec\<close> on top of all of it. At boot the
  firmware's tables (\<open>acpi.rs\<close>) lead to the processors (\<open>smp.rs\<close>), the interrupt controllers (\<open>ioapic.rs\<close>, \<open>xapic.rs\<close>) and
  the PCI functions (\<open>pci.rs\<close>), among them the disk controller.

  \<^bold>\<open>Conventions.\<close> Integers are words of their width, and arithmetic the compiler checks is checked in the
  model. A call is a function from the state to an outcome and a state (\<open>Prelude\<close>): a value, an error
  returned to the caller, a panic, or going to sleep (\<open>Block\<close>). State is passed explicitly; each layer's
  record extends the one below it, so that the operations of a lower layer act on the state of a higher
  one. A lock that the sources hold over a whole operation makes that operation one step; where the
  interleaving is the point (the steps of \<open>Spinlock::acquire\<close>, readers and writers of a pipe, the device
  writes of a commit, the disk driver with its interrupts, the schedulers of all processors) the steps are explicit. Pages are named by their addresses in one page store, so
  page tables, kernel stacks, pipe buffers and the data of the buffer cache are what the allocator handed out. The kernel's
  window onto physical memory is at its upper half, so that \<open>addr_to_phys\<close> and \<open>phys_to_addr\<close> are exact on pages below
  \<open>2 ^ 47\<close>. Addresses that the linker
  chooses and the sizes of Rust structures that the language leaves open are parameters of the state.

  \<^bold>\<open>The theories.\<close>

  \<^item> \<open>Prelude\<close>: words, outcomes and their sequencing, slices, \<open>position\<close>, little-endian encodings.
  \<^item> \<open>Arch\<close>: descriptors, gates, task state, trap frames, rounding, masking of interrupts. What the
    processor decodes from the interrupt table and the task descriptor is what was put in; masking nests.
  \<^item> \<open>Entry\<close>, \<open>EntryProps\<close>: the stubs of the vectors, \<open>alltraps\<close>, the entry and exit of system calls, the stubs of user
    programs, \<open>dprintf\<close> and \<open>swtch\<close>, as code of a small machine whose arithmetic sets the flags and whose processor has
    its own table of the exceptions that push an error code. An interrupted program does not notice a trap, a system
    call changes only the registers it is meant to change, and variable arguments arrive.
  \<^item> \<open>Swtch\<close>: the context switch: a thread that is switched to again continues where it was.
  \<^item> \<open>Cpu\<close>: the page of a processor with its descriptor table and task state as bytes that the processor reads, the registers of
    system calls, the running process, and busy waiting. After initialisation both ways into the kernel find the segments
    and the kernel stack of the process; the stacks of three interrupts lie outside the page meant for them.
  \<^item> \<open>Spinlock\<close>: \<open>acquire\<close> and \<open>release\<close> as a step relation of any number of processors; mutual exclusion in
    every reachable state, and that an uncontended \<open>with_lock\<close> restores everything but the data.
  \<^item> \<open>Sleeplock\<close>: the three operations on a lock held over sleeps.
  \<^item> \<open>Kalloc\<close>: the free list threaded through the pages, and memory found at boot. Pages handed out are
    distinct and zeroed.
  \<^item> \<open>Boot\<close>: the memory map of the boot loader, and that the two steps in which memory is handed to the allocator free
    each page at most once and none that is in use.
  \<^item> \<open>Bio\<close>, \<open>BioInv\<close>: the buffer cache; its invariant (no block is cached twice, the recency list is a
    permutation of the buffers, a valid clean buffer agrees with the device), the contents a read returns, and
    the order in which buffers are recycled.
  \<^item> \<open>Fslog\<close>, \<open>Crash\<close>: the log, and what the device holds after each write of a commit: whenever the machine
    stops, recovery gives all of a transaction's blocks or none. A log filled to the limit that \<open>write\<close> allows
    is refused by recovery.
  \<^item> \<open>Fs\<close>, \<open>FsProps\<close>: allocation and freeing of blocks against the bitmap, the inode cache, layouts of inodes
    and directory entries, paths.
  \<^item> \<open>Ring\<close>, \<open>Pipe\<close>: rings indexed by free-running counters with the locale \<open>fifo\<close>, its interpretation for
    pipes, and that a pipe is a queue under every interleaving of any number of readers and writers; the slabs that pipes
    live in.
  \<^item> \<open>Cga\<close>, \<open>Kbd\<close>, \<open>Console\<close>: the display refines an abstract screen, the keyboard maps, the line discipline.
  \<^item> \<open>File\<close>: open files, reference counts, access modes, transfer through pipe files.
  \<^item> \<open>Vm\<close>: page tables; a mapping changes the translation of one page and of no other, and leaves no trace when
    it fails. \<open>DupProps\<close>: a copied address space has copies of all pages, on pages of its own, and the old one is as before.
  \<^item> \<open>Proc\<close>, \<open>ProcProps\<close>, \<open>ForkProps\<close>: the process table; checks on user memory, exit and wait,
    and what \<open>fork\<close> makes, on success and on failure. \<open>ForkReturn\<close> composes it with the context switch and the system
    call path: the child's first run returns from the same call as the parent, with the result zero.
  \<^item> \<open>Sched\<close>: the scheduler on any number of processors at once, with the operations of processes between its steps.
    Nothing but a dispatch takes a runnable process out of that state; a pass comes to every entry once, and each process
    that was runnable when it began is given a processor; no process has two, and each processor has the page table
    and the interrupt stack of its process.
  \<^item> \<open>UserMem\<close>: user memory through the page table; \<open>copy_out\<close> writes its range and nothing else.
  \<^item> \<open>Exec\<close>, \<open>ExecProps\<close>: the ELF loader and the initial user stack, which refines an abstract layout.
  \<^item> \<open>Sysfile\<close>, \<open>Syscall\<close>, \<open>SyscallProps\<close>: the system calls on files, traps, the clock and the dispatch;
    descriptors and the references they hold, and the duration of a sleep.
  \<^item> \<open>Ahci\<close>: the structures a disk controller reads and the registers that start it; the controller reads from
    memory the request that the driver was called with.
  \<^item> \<open>Sd\<close>, \<open>SdProps\<close>: the queue of disk requests as a system of processes, controller and interrupts. Every
    interleaving refines the synchronous transfer that \<open>Bio\<close> uses, whenever interrupts come (\<open>sd_run\<close>). In the runs that the
    hardware's rules for sending, acknowledging and delivering interrupts allow (\<open>sd_sys\<close>, which are some of those) no wakeup
    is lost and every request completes, as long as a handler is one step; a lemma shows what is lost when it is not.
  \<^item> \<open>Acpi\<close>, \<open>AcpiProps\<close>: the tables of the firmware. What is found is well formed whatever the tables hold, and of
    tables that are laid out properly exactly the entries are found.
  \<^item> \<open>Pci\<close>, \<open>PciProps\<close>: configuration space, the scan for the disk controller, its registers and its interrupt. Functions
    have pages of their own, the search for a capability ends or the list is cyclic, and the message interrupt has the
    vector of the trap handler.
  \<^item> \<open>Apic\<close>, \<open>ApicProps\<close>: the redirection table, the local controller, the start of other processors and the
    chip of the serial line. Lines are masked until they are enabled, and then have their vector and destination.
  \<^item> \<open>Ulib\<close>: strings, memory and formatted printing of user programs. Comparison is lexicographic, what is printed
    can be read back, and \<open>memmove\<close> does not move overlapping blocks.
  \<^item> \<open>Malloc\<close>, \<open>MallocProps\<close>: the allocator of user programs. After any history of calls the memory obtained from
    the system is partitioned into used and free blocks and every call returns; a heap with nothing in use is one
    block; and a list whose topmost block ends at the break can make one allocation take all memory.

  \<^bold>\<open>Bounds.\<close> Loops over arrays are recursions over index lists. The spinning loop of \<open>acquire\<close> is a step that
  may be taken any number of times, and the sequential \<open>acquire\<close> has a bound on its attempts, which is only
  used uncontended. Loops that sleep (\<open>wait1\<close>, reads and writes of pipes and of the console) are modelled one
  round at a time: the outcome says that the process sleeps, and it calls again when woken. Termination of
  the remaining loops is proved where they are defined. The polls of the disk driver have the bounds of the
  source; what the device answers to each of them is an argument. Loops over data of a device or of the firmware that
  need not end (the list of capabilities, the entries of the interrupt table, waiting for the serial line) take a number of
  rounds, and it is proved when that number is enough and when none is. Sleeping calls of \<open>Sysfile\<close> are followed up to the sleep.

  \<^bold>\<open>Not modelled.\<close> The boot code in assembly (\<open>entry.S\<close>) and the code of the first process, single privileged instructions,
  copying of start code, the order of initialisation in \<open>main.rs\<close>, and printing for diagnosis. Of device
  registers, what the sources write is modelled; what a device answers to a poll or a query is an argument. The
  build tool (\<open>xtask\<close>) runs other programs and has no logic of the system.
\<close>

end
